(* ===== verification/Rust_Prelude.thy ===== *)
theory Rust_Prelude
  imports Main "HOL-Library.Word" "HOL-Library.List_Lexorder"
begin

section \<open>Prelude: Rust values, results and byte codecs\<close>

text \<open>
  Shared vocabulary of the development: machine integers, byte strings, the outcome of a
  fallible Rust function, the parts of the Rust standard library that the modelled code
  calls (big-endian conversions, decimal printing and parsing, UTF-8 validation, exact
  chunking) and the generic lemmas on them.

  Conventions. A byte is an \<^typ>\<open>8 word\<close>, a \<open>u16\<close>, \<open>u32\<close>, \<open>u64\<close> a word of that
  width, an \<open>i64\<close> a 64 bit word read with \<^const>\<open>sint\<close>. A \<open>usize\<close> is a \<^typ>\<open>nat\<close> where
  it is a length or an index, with the 64 bit bound written out where an overflow is
  possible. A Rust \<open>String\<close> is the list of its UTF-8 bytes. Slices, vectors, \<open>Bytes\<close> and
  fixed-size arrays are lists; a fixed length is a hypothesis where it is needed.
\<close>

type_synonym byte = "8 word"
type_synonym bytes = "byte list"
type_synonym rstring = "bytes"
type_synonym u8 = "8 word"
type_synonym u16 = "16 word"
type_synonym u32 = "32 word"
type_synonym u64 = "64 word"
type_synonym i64 = "64 word"

named_theorems codec_simps \<open>length and round-trip equations of the byte codecs\<close>

subsection \<open>Errors and results\<close>

datatype ErrorKind =
    BencodeInvalidSyntax | BencodeInvalidInteger | BencodeUnexpectedEof | BencodeIntegerOverflow
  | MetainfoMissingField | MetainfoInvalidField | MetainfoInvalidPieces
  | MetainfoInvalidUrlList | MetainfoInvalidHttpSeeds
  | PeerInvalidHandshake | PeerInvalidMessage | PeerConnectionClosed
  | PeerInvalidExtendedMessage | PeerInvalidPexMessage | PeerInvalidFastMessage
  | PeerInvalidLsdAnnounce | PeerUtpInvalidHeader | PeerUtpProtocolError
  | PeerUtpConnectionFailed
  | TrackerInvalidResponse | TrackerRequestFailed | TrackerProtocolError
  | WebSeedHashMismatch
  | Io | InvalidInput | Protocol

text \<open>
  The outcome of a call: a value, an \<open>Error\<close> of some kind (the boxed source of an error is
  diagnostic text and left out), or a panic. The combinators are \<open>?\<close> chaining and
  \<open>Option::ok_or\<close>.
\<close>

datatype 'a result = Ok 'a | Err ErrorKind | Panic

fun and_then :: "'a result \<Rightarrow> ('a \<Rightarrow> 'b result) \<Rightarrow> 'b result" where
  "and_then (Ok x) f = f x"
| "and_then (Err e) f = Err e"
| "and_then Panic f = Panic"

fun ok_or :: "ErrorKind \<Rightarrow> 'a option \<Rightarrow> 'a result" where
  "ok_or e None = Err e"
| "ok_or e (Some x) = Ok x"

lemma and_then_eq_Ok [simp]: "and_then r f = Ok y \<longleftrightarrow> (\<exists>x. r = Ok x \<and> f x = Ok y)"
  by (cases r) auto

lemma ok_or_eq_Ok [simp]: "ok_or e x = Ok y \<longleftrightarrow> x = Some y"
  by (cases x) auto

lemma ok_or_neq_Panic [simp]: "ok_or e x \<noteq> Panic"
  by (cases x) auto

lemma and_then_eq_Panic [simp]:
  "and_then r f = Panic \<longleftrightarrow> r = Panic \<or> (\<exists>x. r = Ok x \<and> f x = Panic)"
  by (cases r) auto

lemma and_then_cong [fundef_cong]:
  "r = r' \<Longrightarrow> (\<And>x. r' = Ok x \<Longrightarrow> f x = g x) \<Longrightarrow> and_then r f = and_then r' g"
  by (cases r') auto

subsection \<open>Indexing\<close>

text \<open>\<open>xs[i]\<close> and \<open>xs[i] = f(xs[i])\<close>, which panic out of range.\<close>

definition index_at :: "'a list \<Rightarrow> nat \<Rightarrow> 'a result" where
  "index_at xs i = (if i < length xs then Ok (xs ! i) else Panic)"

definition update_at :: "nat \<Rightarrow> ('a \<Rightarrow> 'a) \<Rightarrow> 'a list \<Rightarrow> 'a list result" where
  "update_at i f xs = (if i < length xs then Ok (xs[i := f (xs ! i)]) else Panic)"

lemma enumerate_map: "enumerate 0 xs = map (\<lambda>i. (i, xs ! i)) [0..<length xs]"
  by (rule nth_equalityI) (auto simp: nth_enumerate_eq)

subsection \<open>Byte string literals\<close>

definition ascii :: "string \<Rightarrow> bytes" where
  "ascii s = map of_char s"

lemma length_ascii [simp]: "length (ascii s) = length s"
  by (simp add: ascii_def)

subsection \<open>Big-endian integers\<close>

fun to_be :: "nat \<Rightarrow> nat \<Rightarrow> bytes" where
  "to_be 0 v = []"
| "to_be (Suc n) v = to_be n (v div 256) @ [of_nat v]"

definition be_val :: "bytes \<Rightarrow> nat" where
  "be_val bs = foldl (\<lambda>acc b. acc * 256 + unat b) 0 bs"

definition to_be_bytes :: "'a::len word \<Rightarrow> bytes" where
  "to_be_bytes w = to_be (LENGTH('a) div 8) (unat w)"

definition from_be_bytes :: "bytes \<Rightarrow> 'a::len word" where
  "from_be_bytes bs = of_nat (be_val bs)"

lemma length_to_be [simp]: "length (to_be n v) = n"
  by (induction n arbitrary: v) auto

lemma to_be_numeral: "to_be (numeral k) v = to_be (pred_numeral k) (v div 256) @ [of_nat v]"
  by (simp only: numeral_eq_Suc [of k] to_be.simps)

lemma be_val_Nil [simp]: "be_val [] = 0"
  by (simp add: be_val_def)

lemma be_val_snoc [simp]: "be_val (bs @ [b]) = be_val bs * 256 + unat b"
  by (simp add: be_val_def)

lemma unat_of_nat_byte: "unat (of_nat v :: byte) = v mod 256"
  by (simp add: unat_of_nat)

lemma unat_lt2p_byte: "unat (b :: byte) < 256"
  using unsigned_less [of b, where ?'a = nat] by simp

lemma be_val_to_be: "be_val (to_be n v) = v mod 256 ^ n"
proof (induction n arbitrary: v)
  case 0
  then show ?case by simp
next
  case (Suc n)
  then show ?case
    by (simp add: unat_of_nat_byte mod_mult2_eq [of v 256 "256 ^ n"] mult.commute)
qed

lemma to_be_be_val: "to_be (length bs) (be_val bs) = bs"
proof (induction bs rule: rev_induct)
  case Nil
  then show ?case by simp
next
  case (snoc b bs)
  have b: "unat b < 256"
    using unat_lt2p_byte .
  then have "(be_val bs * 256 + unat b) div 256 = be_val bs"
    by simp
  moreover have "(of_nat (be_val bs * 256 + unat b) :: byte) = b"
    using b by (simp add: word_unat_eq_iff unat_of_nat del: of_nat_add of_nat_mult)
  ultimately show ?case
    using snoc by simp
qed

lemma be_val_append: "be_val (xs @ ys) = be_val xs * 256 ^ length ys + be_val ys"
proof (induction ys rule: rev_induct)
  case (snoc y ys)
  have "be_val (xs @ ys @ [y]) = be_val (xs @ ys) * 256 + unat y"
    by (metis append.assoc be_val_snoc)
  with snoc show ?case by (simp add: algebra_simps)
qed simp

lemma be_val_Cons: "be_val (x # xs) = unat x * 256 ^ length xs + be_val xs"
  using be_val_append [of "[x]" xs] be_val_snoc [of "[]" x] by simp

lemma be_val_less: "be_val bs < 256 ^ length bs"
  by (metis be_val_to_be mod_less_divisor to_be_be_val zero_less_numeral zero_less_power)

lemma length_to_be_bytes [simp, codec_simps]:
  "length (to_be_bytes (w :: 'a::len word)) = LENGTH('a) div 8"
  by (simp add: to_be_bytes_def)

lemma from_to_be_bytes [simp, codec_simps]:
  assumes "8 dvd LENGTH('a)"
  shows "from_be_bytes (to_be_bytes (w :: 'a::len word)) = w"
proof -
  have "(256::nat) ^ (LENGTH('a) div 8) = 2 ^ (8 * (LENGTH('a) div 8))"
    by (simp add: power_mult)
  also have "\<dots> = 2 ^ LENGTH('a)"
    using assms by simp
  finally show ?thesis
    by (simp add: from_be_bytes_def to_be_bytes_def be_val_to_be)
qed

lemma to_from_be_bytes:
  assumes "8 * length bs = LENGTH('a)"
  shows "to_be_bytes (from_be_bytes bs :: 'a::len word) = bs"
proof -
  have len: "LENGTH('a) div 8 = length bs"
    using assms by (metis nonzero_mult_div_cancel_left zero_neq_numeral)
  have "(256::nat) ^ length bs = 2 ^ (8 * length bs)"
    by (simp add: power_mult)
  also have "\<dots> = 2 ^ LENGTH('a)"
    using assms by simp
  finally have pow: "(256::nat) ^ length bs = 2 ^ LENGTH('a)" .
  then have "be_val bs < 2 ^ LENGTH('a)"
    using be_val_less [of bs] pow by simp
  then show ?thesis
    by (simp add: to_be_bytes_def from_be_bytes_def len to_be_be_val unat_of_nat)
qed

subsection \<open>Checked arithmetic and searching\<close>

definition checked_add :: "'a::len word \<Rightarrow> 'a word \<Rightarrow> 'a word option" where
  "checked_add a b = (if unat a + unat b < 2 ^ LENGTH('a) then Some (a + b) else None)"

definition checked_mul :: "'a::len word \<Rightarrow> 'a word \<Rightarrow> 'a word option" where
  "checked_mul a b = (if unat a * unat b < 2 ^ LENGTH('a) then Some (a * b) else None)"

lemma unat_checked_add: "checked_add a b = Some c \<Longrightarrow> unat c = unat a + unat b"
  by (auto simp: checked_add_def unat_word_ariths split: if_splits)

lemma unat_checked_mul: "checked_mul a b = Some c \<Longrightarrow> unat c = unat a * unat b"
  by (auto simp: checked_mul_def unat_word_ariths split: if_splits)

text \<open>\<open>iter().position(|&b| b == x)\<close>: the index of the first occurrence.\<close>

definition position :: "'a \<Rightarrow> 'a list \<Rightarrow> nat option" where
  "position x xs =
     (let n = length (takeWhile (\<lambda>y. y \<noteq> x) xs) in if n < length xs then Some n else None)"

lemma position_append: "x \<notin> set xs \<Longrightarrow> position x (xs @ x # ys) = Some (length xs)"
proof -
  assume "x \<notin> set xs"
  then have "takeWhile (\<lambda>y. y \<noteq> x) (xs @ x # ys) = xs"
    by (induction xs) auto
  then show ?thesis
    by (simp add: position_def)
qed

lemma position_less: "position x xs = Some n \<Longrightarrow> n < length xs"
  by (auto simp: position_def Let_def split: if_splits)

subsection \<open>Single bits\<close>

text \<open>\<open>(w >> n) & 1 == 1\<close> and \<open>w | (1 << n)\<close> on a word.\<close>

unbundle bit_operations_syntax

definition test_bit_at :: "'a::len word \<Rightarrow> nat \<Rightarrow> bool" where
  "test_bit_at w n \<longleftrightarrow> drop_bit n w AND 1 = 1"

lemma test_bit_at_bit [simp]: "test_bit_at w n = bit w n"
proof -
  have "(drop_bit n w AND 1 = 1) = bit (drop_bit n w) 0"
    by (simp add: and_one_eq mod2_eq_if bit_0)
  then show ?thesis
    by (simp add: test_bit_at_def bit_drop_bit_eq)
qed

lemma bit_or_push_bit_one:
  "bit (w OR push_bit n 1) m \<longleftrightarrow> bit w m \<or> m = n \<and> m < LENGTH('a)" for w :: "'a::len word"
  by (auto simp: bit_simps)

lemma bit_or_exp_one:
  "bit (w OR 2 ^ n) m \<longleftrightarrow> bit w m \<or> m = n \<and> m < LENGTH('a)" for w :: "'a::len word"
  by (auto simp: bit_simps)

text \<open>The two halves of a byte.\<close>

lemma nibble_mask: "(0x0F :: u8) = mask 4"
  by (simp add: mask_eq_exp_minus_1)

lemma nibble_join: "push_bit 4 (drop_bit 4 (d :: u8)) OR (d AND 0x0F) = d"
  unfolding nibble_mask by (intro bit_word_eqI) (auto simp: bit_simps)

subsection \<open>Decimal printing and parsing\<close>

text \<open>
  \<open>to_string\<close> on integers, and \<open>str::parse\<close> for \<open>u16\<close>, \<open>u64\<close> and \<open>i64\<close>: an optional
  sign (a leading \<open>+\<close> is accepted for unsigned types too, a \<open>-\<close> for signed ones only), at
  least one digit, and a range check. The checked multiply and add of the library fail as
  soon as the prefix read so far is out of range, which is when the whole number is.
\<close>

definition is_ascii_digit :: "byte \<Rightarrow> bool" where
  "is_ascii_digit b \<longleftrightarrow> 48 \<le> b \<and> b \<le> 57"

fun nat_to_string :: "nat \<Rightarrow> rstring" where
  "nat_to_string n = (if n < 10 then [of_nat (48 + n)]
     else nat_to_string (n div 10) @ [of_nat (48 + n mod 10)])"

declare nat_to_string.simps [simp del]

definition int_to_string :: "int \<Rightarrow> rstring" where
  "int_to_string i = (if i < 0 then 45 # nat_to_string (nat (- i)) else nat_to_string (nat i))"

definition digits_val :: "bytes \<Rightarrow> nat" where
  "digits_val ds = foldl (\<lambda>acc b. acc * 10 + (unat b - 48)) 0 ds"

definition parse_digits :: "bytes \<Rightarrow> nat option" where
  "parse_digits ds = (if ds \<noteq> [] \<and> list_all is_ascii_digit ds then Some (digits_val ds) else None)"

definition parse_unsigned :: "rstring \<Rightarrow> ('a::len) word option" where
  "parse_unsigned s =
     (case parse_digits (case s of [] \<Rightarrow> [] | c # r \<Rightarrow> if c = 43 then r else s) of
        None \<Rightarrow> None
      | Some v \<Rightarrow> if v < 2 ^ LENGTH('a) then Some (of_nat v) else None)"

definition parse_i64 :: "rstring \<Rightarrow> i64 option" where
  "parse_i64 s =
     (case s of
        [] \<Rightarrow> None
      | c # r \<Rightarrow>
          if c = 45 then
            (case parse_digits r of None \<Rightarrow> None
             | Some v \<Rightarrow> if v \<le> 2 ^ 63 then Some (- of_nat v) else None)
          else
            (case parse_digits (if c = 43 then r else s) of None \<Rightarrow> None
             | Some v \<Rightarrow> if v < 2 ^ 63 then Some (of_nat v) else None))"

lemma digits_val_Nil [simp]: "digits_val [] = 0"
  by (simp add: digits_val_def)

lemma digits_val_snoc [simp]: "digits_val (ds @ [b]) = digits_val ds * 10 + (unat b - 48)"
  by (simp add: digits_val_def)

lemma unat_digit: "n < 10 \<Longrightarrow> unat (of_nat (48 + n) :: byte) = 48 + n"
  by (subst unat_of_nat) simp

lemma is_ascii_digit_of_nat: "n < 10 \<Longrightarrow> is_ascii_digit (of_nat (48 + n))"
  by (simp add: is_ascii_digit_def word_le_nat_alt unat_digit del: of_nat_add)

lemma nat_to_string_neq_Nil [simp]: "nat_to_string n \<noteq> []"
  by (subst nat_to_string.simps) simp

lemma digits_nat_to_string: "list_all is_ascii_digit (nat_to_string n)"
proof (induction n rule: nat_to_string.induct)
  case (1 n)
  then show ?case
    by (subst nat_to_string.simps) (simp add: is_ascii_digit_of_nat del: of_nat_add)
qed

lemma digits_val_nat_to_string [simp]: "digits_val (nat_to_string n) = n"
proof (induction n rule: nat_to_string.induct)
  case (1 n)
  show ?case
  proof (cases "n < 10")
    case True
    then show ?thesis
      by (subst nat_to_string.simps)
        (simp add: digits_val_def unat_digit del: of_nat_add)
  next
    case False
    with 1 show ?thesis
      by (subst nat_to_string.simps) (simp add: unat_digit del: of_nat_add)
  qed
qed

lemma parse_digits_nat_to_string [simp]: "parse_digits (nat_to_string n) = Some n"
  by (simp add: parse_digits_def digits_nat_to_string)

lemma hd_nat_to_string: "is_ascii_digit (hd (nat_to_string n))"
  using digits_nat_to_string [of n] by (cases "nat_to_string n") auto

lemma nat_to_string_no_leading_zero: "n \<noteq> 0 \<Longrightarrow> hd (nat_to_string n) \<noteq> 48"
proof (induction n rule: nat_to_string.induct)
  case (1 n)
  show ?case
  proof (cases "n < 10")
    case True
    have "unat (of_nat (48 + n) :: byte) \<noteq> unat (48 :: byte)"
      using True "1.prems" by (simp add: unat_digit del: of_nat_add)
    then have "(of_nat (48 + n) :: byte) \<noteq> 48"
      by metis
    with True show ?thesis
      by (subst nat_to_string.simps) (simp del: of_nat_add)
  next
    case False
    with 1 show ?thesis
      by (subst nat_to_string.simps) simp
  qed
qed

lemma nat_to_string_0 [simp]: "nat_to_string 0 = [48]"
  by (subst nat_to_string.simps) simp

lemma nat_to_string_length_1: "length (nat_to_string n) > 1 \<Longrightarrow> hd (nat_to_string n) \<noteq> 48"
  using nat_to_string_no_leading_zero [of n] by (cases "n = 0") auto

subsection \<open>UTF-8\<close>

text \<open>
  \<open>str::from_utf8\<close>: the well-formed byte sequences of the Unicode standard (no overlong
  forms, no surrogates, nothing above U+10FFFF), as the library's validator accepts them.
\<close>

definition utf8_cont :: "byte \<Rightarrow> bool" where
  "utf8_cont b \<longleftrightarrow> 128 \<le> b \<and> b \<le> 191"

fun utf8_valid :: "bytes \<Rightarrow> bool" where
  "utf8_valid [] = True"
| "utf8_valid (a # r) =
     (if a < 128 then utf8_valid r
      else if 194 \<le> a \<and> a \<le> 223 then
        (case r of b # r' \<Rightarrow> utf8_cont b \<and> utf8_valid r' | [] \<Rightarrow> False)
      else if 224 \<le> a \<and> a \<le> 239 then
        (case r of b # c # r' \<Rightarrow>
           utf8_cont b \<and> (a = 224 \<longrightarrow> 160 \<le> b) \<and> (a = 237 \<longrightarrow> b \<le> 159) \<and> utf8_cont c \<and> utf8_valid r'
         | _ \<Rightarrow> False)
      else if 240 \<le> a \<and> a \<le> 244 then
        (case r of b # c # d # r' \<Rightarrow>
           utf8_cont b \<and> (a = 240 \<longrightarrow> 144 \<le> b) \<and> (a = 244 \<longrightarrow> b \<le> 143) \<and>
           utf8_cont c \<and> utf8_cont d \<and> utf8_valid r'
         | _ \<Rightarrow> False)
      else False)"

definition from_utf8 :: "bytes \<Rightarrow> rstring option" where
  "from_utf8 b = (if utf8_valid b then Some b else None)"

lemma from_utf8_eq_Some [simp]: "from_utf8 b = Some s \<longleftrightarrow> utf8_valid b \<and> s = b"
  by (auto simp: from_utf8_def)

declare utf8_valid.simps(2) [simp del]

lemma utf8_valid_Cons_7bit [simp]: "a < 128 \<Longrightarrow> utf8_valid (a # r) = utf8_valid r"
  by (simp add: utf8_valid.simps(2))

lemma utf8_valid_7bit: "list_all (\<lambda>b. b < 128) s \<Longrightarrow> utf8_valid s"
  by (induction s) auto

lemma is_ascii_digit_7bit: "is_ascii_digit b \<Longrightarrow> b < 128"
  by (simp add: is_ascii_digit_def word_le_nat_alt word_less_nat_alt)

lemma utf8_valid_append:
  "utf8_valid s \<Longrightarrow> utf8_valid t \<Longrightarrow> utf8_valid (s @ t)"
proof (induction s rule: utf8_valid.induct)
  case 1
  then show ?case by simp
next
  case (2 a r)
  then show ?case
    by (auto simp: utf8_valid.simps(2) [of a r] utf8_valid.simps(2) [of a "r @ t"]
        split: list.splits if_splits)
qed

lemma utf8_valid_digits: "list_all is_ascii_digit ds \<Longrightarrow> utf8_valid ds"
  by (rule utf8_valid_7bit) (auto simp: list_all_iff is_ascii_digit_7bit)

subsection \<open>Exact chunks\<close>

text \<open>\<open>slice::chunks_exact\<close> for a positive chunk size; a shorter tail is dropped.\<close>

function chunks_exact :: "nat \<Rightarrow> 'a list \<Rightarrow> 'a list list" where
  "chunks_exact n xs =
     (if n = 0 \<or> length xs < n then [] else take n xs # chunks_exact n (drop n xs))"
  by pat_completeness auto
termination
  by (relation "measure (\<lambda>(n, xs). length xs)") auto

declare chunks_exact.simps [simp del]

lemma chunks_exact_append:
  "length c = n \<Longrightarrow> 0 < n \<Longrightarrow> chunks_exact n (c @ xs) = c # chunks_exact n xs"
  by (subst chunks_exact.simps) simp

lemma chunks_exact_Nil [simp]: "chunks_exact n [] = []"
  by (subst chunks_exact.simps) auto

lemma chunks_exact_concat:
  "0 < n \<Longrightarrow> \<forall>c \<in> set cs. length c = n \<Longrightarrow> chunks_exact n (concat cs) = cs"
  by (induction cs) (auto simp: chunks_exact_append)

lemma concat_chunks_exact:
  "0 < n \<Longrightarrow> n dvd length xs \<Longrightarrow> concat (chunks_exact n xs) = xs"
proof (induction n xs rule: chunks_exact.induct)
  case (1 n xs)
  show ?case
  proof (cases "length xs < n")
    case True
    with "1.prems" have "xs = []"
      using nat_dvd_not_less by blast
    then show ?thesis by simp
  next
    case False
    with 1 show ?thesis
      by (subst chunks_exact.simps) (simp add: dvd_diff_nat)
  qed
qed

lemma length_chunk: "c \<in> set (chunks_exact n xs) \<Longrightarrow> length c = n"
proof (induction n xs rule: chunks_exact.induct)
  case (1 n xs)
  then show ?case
    by (subst (asm) (2) chunks_exact.simps) (auto split: if_splits)
qed

lemma length_chunks_exact: "0 < n \<Longrightarrow> length (chunks_exact n xs) = length xs div n"
proof (induction n xs rule: chunks_exact.induct)
  case (1 n xs)
  then show ?case
    by (subst chunks_exact.simps) (auto simp: le_div_geq not_less)
qed

end
