(* ===== verification/Bencode.thy ===== *)
theory Bencode
  imports Rust_Prelude "HOL-Library.Multiset"
begin

section \<open>Bencode: values, decoder and encoder\<close>

text \<open>
  The module \<open>bencode\<close> of \<open>torrent-core\<close> (\<open>mod.rs\<close>, \<open>decode.rs\<close>, \<open>encode.rs\<close>,
  \<open>util.rs\<close>). The recursive-descent parser is one mutually recursive function; the loops of
  \<open>parse_list\<close> and \<open>parse_dict\<close> carry their local variables as arguments. Its termination
  is the fact that a successful call returns a strictly shorter rest.
\<close>

datatype bencode =
    Bytes bytes
  | Integer i64
  | List "bencode list"
  | Dict "(bytes \<times> bencode) list"

subsection \<open>Decoding\<close>

fun parse_decimal_loop :: "u64 \<Rightarrow> bytes \<Rightarrow> u64 result" where
  "parse_decimal_loop val [] = Ok val"
| "parse_decimal_loop val (b # s) =
     (if \<not> is_ascii_digit b then Err BencodeInvalidInteger
      else and_then
             (ok_or BencodeIntegerOverflow
                (Option.bind (checked_mul val 10) (\<lambda>v. checked_add v (ucast (b - 48)))))
             (\<lambda>val'. parse_decimal_loop val' s))"

definition parse_decimal_u64 :: "bytes \<Rightarrow> u64 result" where
  "parse_decimal_u64 s = (if s = [] then Err BencodeInvalidInteger else parse_decimal_loop 0 s)"

text \<open>
  \<open>start + len\<close> is a \<open>usize\<close> addition. When it overflows, a build with overflow checks
  panics there, and a build without them wraps to \<open>end < start\<close>, so that the slice
  \<open>data[start..end]\<close> panics: the outcome is a panic either way.
\<close>

definition parse_string :: "bytes \<Rightarrow> (bencode \<times> bytes) result" where
  "parse_string data =
     and_then (ok_or BencodeInvalidSyntax (position 58 data)) (\<lambda>colon_pos.
       let len_str = take colon_pos data in
       and_then (parse_decimal_u64 len_str) (\<lambda>len_u64.
         let len = unat len_u64 in
         if 1 < length len_str \<and> len_str ! 0 = 48 then Err BencodeInvalidInteger
         else
           let start = colon_pos + 1; end = start + len in
           if 2 ^ 64 \<le> end then Panic
           else if length data < end then Err BencodeUnexpectedEof
           else Ok (Bytes (take len (drop start data)), drop end data)))"

definition parse_integer :: "bytes \<Rightarrow> (bencode \<times> bytes) result" where
  "parse_integer data =
     and_then (ok_or BencodeUnexpectedEof (position 101 data)) (\<lambda>end.
       let num_str = drop 1 (take end data) in
       if num_str = [] then Err BencodeInvalidInteger
       else
         let has_sign = (num_str ! 0 = 45);
             digits_start = (if has_sign then 1 else 0) in
         if length num_str \<le> digits_start then Err BencodeInvalidInteger
         else if has_sign \<and> num_str ! 1 = 48 \<and> length num_str = 2 then Err BencodeInvalidInteger
         else if 1 < length num_str - digits_start \<and> num_str ! digits_start = 48
           then Err BencodeInvalidInteger
         else
           and_then (ok_or BencodeInvalidInteger (from_utf8 num_str)) (\<lambda>num_str_ascii.
             and_then (ok_or BencodeIntegerOverflow (parse_i64 num_str_ascii)) (\<lambda>value.
               Ok (Integer value, drop (end + 1) data))))"

function decode :: "bytes \<Rightarrow> (bencode \<times> bytes) result"
  and parse_list :: "bytes \<Rightarrow> bencode list \<Rightarrow> (bencode \<times> bytes) result"
  and parse_dict :: "bytes \<Rightarrow> (bytes \<times> bencode) list \<Rightarrow> (bencode \<times> bytes) result" where
  "decode data =
     (case data of
        [] \<Rightarrow> Err BencodeUnexpectedEof
      | c # rest \<Rightarrow>
          if is_ascii_digit c then parse_string data
          else if c = 105 then parse_integer data
          else if c = 108 then parse_list rest []
          else if c = 100 then parse_dict rest []
          else Err BencodeInvalidSyntax)"
| "parse_list rest items =
     (case rest of
        [] \<Rightarrow> Err BencodeUnexpectedEof
      | c # rest' \<Rightarrow>
          if c = 101 then Ok (List items, rest')
          else and_then (decode rest) (\<lambda>(item, remaining).
                 parse_list remaining (items @ [item])))"
| "parse_dict rest entries =
     (case rest of
        [] \<Rightarrow> Err BencodeUnexpectedEof
      | c # rest' \<Rightarrow>
          if c = 101 then Ok (Dict (sort_key fst entries), rest')
          else and_then (decode rest) (\<lambda>(key_val, remaining).
                 case key_val of
                   Bytes key \<Rightarrow>
                     if remaining = [] then Err BencodeUnexpectedEof
                     else and_then (decode remaining) (\<lambda>(val, remaining').
                            if key \<in> set (map fst entries) then Err BencodeInvalidSyntax
                            else parse_dict remaining' (entries @ [(key, val)]))
                 | _ \<Rightarrow> Err BencodeInvalidSyntax))"
  by pat_completeness auto

lemma parse_string_shorter: "parse_string data = Ok (v, r) \<Longrightarrow> length r < length data"
  by (auto simp: parse_string_def Let_def split: if_splits dest!: position_less)

lemma parse_integer_shorter: "parse_integer data = Ok (v, r) \<Longrightarrow> length r < length data"
  by (auto simp: parse_integer_def Let_def split: if_splits dest!: position_less)

text \<open>
  A successful call consumes input. It is proved on the domain of the function first, since
  the termination proof needs it for the nested calls.
\<close>

lemma decode_shorter_dom:
  "decode_parse_list_parse_dict_dom (Inl data) \<Longrightarrow>
     \<forall>v r. decode data = Ok (v, r) \<longrightarrow> length r < length data"
  "decode_parse_list_parse_dict_dom (Inr (Inl (rest, items))) \<Longrightarrow>
     \<forall>v r. parse_list rest items = Ok (v, r) \<longrightarrow> length r < length rest"
  "decode_parse_list_parse_dict_dom (Inr (Inr (rest, entries))) \<Longrightarrow>
     \<forall>v r. parse_dict rest entries = Ok (v, r) \<longrightarrow> length r < length rest"
proof (induction rule: decode_parse_list_parse_dict.pinduct)
  case (1 data)
  show ?case
  proof (intro allI impI)
    fix v r
    assume "decode data = Ok (v, r)"
    with "1.hyps" show "length r < length data"
      by (auto simp: decode.psimps split: list.splits if_splits
          dest: parse_string_shorter parse_integer_shorter "1.IH")
  qed
next
  case (2 rest items)
  show ?case
  proof (intro allI impI)
    fix v r
    assume ok: "parse_list rest items = Ok (v, r)"
    then obtain c rest' where rest: "rest = c # rest'"
      using "2.hyps" by (cases rest) (auto simp: parse_list.psimps)
    show "length r < length rest"
    proof (cases "c = 101")
      case True
      with ok rest "2.hyps" show ?thesis by (simp add: parse_list.psimps)
    next
      case False
      with ok rest "2.hyps" obtain item remaining
        where dec: "decode rest = Ok (item, remaining)"
          and loop: "parse_list remaining (items @ [item]) = Ok (v, r)"
        by (auto simp: parse_list.psimps)
      from "2.IH"(1) [OF rest False] dec have "length remaining < length rest" by blast
      moreover from "2.IH"(2) [OF rest False dec refl] loop have "length r < length remaining"
        by blast
      ultimately show ?thesis by simp
    qed
  qed
next
  case (3 rest entries)
  show ?case
  proof (intro allI impI)
    fix v r
    assume ok: "parse_dict rest entries = Ok (v, r)"
    then obtain c rest' where rest: "rest = c # rest'"
      using "3.hyps" by (cases rest) (auto simp: parse_dict.psimps)
    show "length r < length rest"
    proof (cases "c = 101")
      case True
      with ok rest "3.hyps" show ?thesis by (simp add: parse_dict.psimps)
    next
      case False
      with ok rest "3.hyps" obtain key remaining val remaining'
        where dec: "decode rest = Ok (Bytes key, remaining)" "remaining \<noteq> []"
          and val: "decode remaining = Ok (val, remaining')" "key \<notin> set (map fst entries)"
          and loop: "parse_dict remaining' (entries @ [(key, val)]) = Ok (v, r)"
      proof -
        from ok rest False "3.hyps" obtain kv remaining where "decode rest = Ok (kv, remaining)"
          by (auto simp: parse_dict.psimps)
        with ok rest False "3.hyps" show ?thesis
          by (cases kv) (auto simp: parse_dict.psimps split: if_splits intro: that)
      qed
      from "3.IH"(1) [OF rest False] dec have "length remaining < length rest" by blast
      moreover from "3.IH"(2) [OF rest False dec(1) refl refl dec(2)] val
      have "length remaining' < length remaining" by blast
      moreover from "3.IH"(3) [OF rest False dec(1) refl refl dec(2) val(1) refl val(2)] loop
      have "length r < length remaining'" by blast
      ultimately show ?thesis by simp
    qed
  qed
qed

termination decode
proof (relation "measure (\<lambda>x. case x of Inl d \<Rightarrow> 2 * length d
    | Inr (Inl (r, _)) \<Rightarrow> 2 * length r + 1 | Inr (Inr (r, _)) \<Rightarrow> 2 * length r + 1)",
    goal_cases)
qed (auto dest!: decode_shorter_dom(1))

declare decode.simps [simp del] parse_list.simps [simp del] parse_dict.simps [simp del]

subsection \<open>Encoding\<close>

definition encode_bytes :: "bytes \<Rightarrow> bytes" where
  "encode_bytes b = nat_to_string (length b) @ [58] @ b"

definition encode_integer :: "i64 \<Rightarrow> bytes" where
  "encode_integer i = [105] @ int_to_string (sint i) @ [101]"

function encode :: "bencode \<Rightarrow> bytes" where
  "encode (Bytes b) = encode_bytes b"
| "encode (Integer i) = encode_integer i"
| "encode (List items) = [108] @ concat (map encode items) @ [101]"
| "encode (Dict entries) =
     [100] @ concat (map (\<lambda>(key, val). encode_bytes key @ encode val) (sort_key fst entries)) @ [101]"
  by pat_completeness auto

lemma size_dict_entry: "(k, v) \<in> set es \<Longrightarrow> size v < size (Dict es)"
  by (induction es) auto

termination encode
  by (relation "measure size")
    (auto simp: size_list_estimation' less_Suc_eq_le dest!: size_dict_entry)

subsection \<open>Dictionary access and string helpers\<close>

definition dict_get :: "bencode \<Rightarrow> bytes \<Rightarrow> bencode option" where
  "dict_get val key =
     (case val of
        Dict entries \<Rightarrow> map_option snd (find (\<lambda>(k, _). k = key) entries)
      | _ \<Rightarrow> None)"

definition dict_get_int :: "bencode \<Rightarrow> bytes \<Rightarrow> i64 option" where
  "dict_get_int val key =
     Option.bind (dict_get val key) (\<lambda>v. case v of Integer i \<Rightarrow> Some i | _ \<Rightarrow> None)"

definition dict_get_bytes :: "bencode \<Rightarrow> bytes \<Rightarrow> bytes option" where
  "dict_get_bytes val key =
     Option.bind (dict_get val key) (\<lambda>v. case v of Bytes b \<Rightarrow> Some b | _ \<Rightarrow> None)"

definition decode_str :: "bytes \<Rightarrow> rstring result" where
  "decode_str data =
     and_then (decode data) (\<lambda>(val, _).
       case val of
         Bytes b \<Rightarrow> ok_or InvalidInput (from_utf8 b)
       | _ \<Rightarrow> Err InvalidInput)"

definition encode_str :: "rstring \<Rightarrow> bytes" where
  "encode_str s = encode (Bytes s)"

subsection \<open>Well-formedness and the normal form\<close>

text \<open>
  \<open>uniq_keys\<close>: no dictionary of the value repeats a key. \<open>canonical\<close>: every dictionary is
  sorted by strictly increasing keys. \<open>normal\<close> sorts every dictionary.
\<close>

fun uniq_keys :: "bencode \<Rightarrow> bool" where
  "uniq_keys (Bytes b) = True"
| "uniq_keys (Integer i) = True"
| "uniq_keys (List items) = list_all uniq_keys items"
| "uniq_keys (Dict entries) =
     (distinct (map fst entries) \<and> list_all (\<lambda>(k, v). uniq_keys v) entries)"

fun canonical :: "bencode \<Rightarrow> bool" where
  "canonical (Bytes b) = True"
| "canonical (Integer i) = True"
| "canonical (List items) = list_all canonical items"
| "canonical (Dict entries) =
     (sorted (map fst entries) \<and> distinct (map fst entries) \<and> list_all (\<lambda>(k, v). canonical v) entries)"

fun normal :: "bencode \<Rightarrow> bencode" where
  "normal (Bytes b) = Bytes b"
| "normal (Integer i) = Integer i"
| "normal (List items) = List (map normal items)"
| "normal (Dict entries) = Dict (sort_key fst (map (\<lambda>(k, v). (k, normal v)) entries))"

lemma insort_key_map_snd:
  "insort_key fst (k, g v) (map (\<lambda>(k, v). (k, g v)) es) =
     map (\<lambda>(k, v). (k, g v)) (insort_key fst (k, v) es)"
  by (induction es) auto

lemma sort_key_map_snd:
  "sort_key fst (map (\<lambda>(k, v). (k, g v)) es) = map (\<lambda>(k, v). (k, g v)) (sort_key fst es)"
  by (induction es) (auto simp: insort_key_map_snd)

lemma map_fst_map_snd [simp]: "map fst (map (\<lambda>(k, v). (k, g v)) es) = map fst es"
  by (induction es) auto

lemma sorted_map_fst_sort_key [simp]: "sorted (map fst (sort_key fst es))"
  by (rule sorted_sort_key)

lemma distinct_map_fst_sort_key [simp]:
  "distinct (map fst (sort_key fst es)) = distinct (map fst es)"
  by (metis mset_map mset_sort mset_eq_imp_distinct_iff)

lemma list_all_sort_key [simp]: "list_all P (sort_key f es) = list_all P es"
  by (simp add: list_all_iff)

lemma sort_key_idem [simp]: "sort_key f (sort_key f xs) = sort_key f xs"
  by (rule sort_key_id_if_sorted) simp

lemma canonical_normal: "uniq_keys v \<Longrightarrow> canonical (normal v)"
proof (induction v rule: normal.induct)
  case (4 entries)
  then show ?case
    by (auto simp: list_all_iff sort_key_map_snd comp_def split_beta)
qed (auto simp: list_all_iff)

lemma canonical_uniq_keys: "canonical v \<Longrightarrow> uniq_keys v"
  by (induction v rule: uniq_keys.induct) (auto simp: list_all_iff)

lemma normal_canonical: "canonical v \<Longrightarrow> normal v = v"
proof (induction v rule: normal.induct)
  case (3 items)
  then show ?case by (simp add: list_all_iff map_idI)
next
  case (4 entries)
  then have "map (\<lambda>(k, v). (k, normal v)) entries = entries"
    by (intro map_idI) (auto simp: list_all_iff)
  with 4 show ?case by (simp add: sort_key_id_if_sorted)
qed auto

lemma encode_normal: "encode (normal v) = encode v"
proof (induction v rule: normal.induct)
  case (3 items)
  then show ?case by (simp add: comp_def cong: map_cong)
next
  case (4 entries)
  let ?enc = "\<lambda>(key, val). encode_bytes key @ encode val"
  have "map ?enc (map (\<lambda>(k, v). (k, normal v)) (sort_key fst entries)) = map ?enc (sort_key fst entries)"
    using 4 by (auto simp: comp_def)
  then show ?case
    by (simp only: normal.simps encode.simps sort_key_map_snd sort_key_idem)
qed auto

subsection \<open>The leaf parsers on encoder output\<close>

lemma foldl_digits_ge: "acc \<le> foldl (\<lambda>acc b. acc * 10 + (unat b - 48)) acc ds"
proof (induction ds arbitrary: acc)
  case (Cons d ds)
  have "acc \<le> acc * 10 + (unat d - 48)" by simp
  also have "\<dots> \<le> foldl (\<lambda>acc b. acc * 10 + (unat b - 48)) (acc * 10 + (unat d - 48)) ds"
    by (rule Cons.IH)
  finally show ?case by simp
qed simp

lemma unat_digit_value: "is_ascii_digit b \<Longrightarrow> unat (ucast (b - 48) :: u64) = unat b - 48"
  by (simp add: is_ascii_digit_def unsigned_ucast_eq unat_sub word_le_nat_alt take_bit_nat_eq_self
      less_imp_diff_less unat_lt2p_byte [THEN order_less_trans])

lemma digit_neq: "is_ascii_digit b \<Longrightarrow> b \<noteq> 43 \<and> b \<noteq> 45 \<and> b \<noteq> 58 \<and> b \<noteq> 101"
  by (auto simp: is_ascii_digit_def)

lemma parse_decimal_loop_digits:
  "list_all is_ascii_digit ds \<Longrightarrow> foldl (\<lambda>acc b. acc * 10 + (unat b - 48)) (unat val) ds < 2 ^ 64 \<Longrightarrow>
     \<exists>w. parse_decimal_loop val ds = Ok w \<and>
         unat w = foldl (\<lambda>acc b. acc * 10 + (unat b - 48)) (unat val) ds"
proof (induction ds arbitrary: val)
  case Nil
  then show ?case by simp
next
  case (Cons d ds)
  let ?d = "ucast (d - 48) :: u64"
  from Cons.prems have d: "unat ?d = unat d - 48"
    by (simp add: unat_digit_value)
  have small: "unat val * 10 + unat ?d < 2 ^ 64"
    using foldl_digits_ge [of "unat val * 10 + (unat d - 48)" ds] Cons.prems d by simp
  then obtain v where v: "checked_mul val 10 = Some v" "unat v = unat val * 10"
    by (auto simp: checked_mul_def unat_word_ariths)
  with small obtain v' where v': "checked_add v ?d = Some v'" "unat v' = unat val * 10 + unat ?d"
    by (auto simp: checked_add_def unat_word_ariths)
  have "foldl (\<lambda>acc b. acc * 10 + (unat b - 48)) (unat v') ds < 2 ^ 64"
    using Cons.prems(2) v' d by simp
  from Cons.IH [OF _ this] Cons.prems(1) v v' d show ?case
    by simp
qed

lemma parse_decimal_u64_digits:
  "ds \<noteq> [] \<Longrightarrow> list_all is_ascii_digit ds \<Longrightarrow> digits_val ds < 2 ^ 64 \<Longrightarrow>
     \<exists>w. parse_decimal_u64 ds = Ok w \<and> unat w = digits_val ds"
  using parse_decimal_loop_digits [of ds 0]
  by (simp add: parse_decimal_u64_def digits_val_def)

lemma not_digit_58: "list_all is_ascii_digit ds \<Longrightarrow> 58 \<notin> set ds"
  by (auto simp: list_all_iff is_ascii_digit_def)

lemma not_digit_101: "list_all is_ascii_digit ds \<Longrightarrow> 101 \<notin> set ds"
  by (auto simp: list_all_iff is_ascii_digit_def)

lemma parse_string_encode_bytes:
  assumes "length (encode_bytes b) < 2 ^ 64"
  shows "parse_string (encode_bytes b @ r) = Ok (Bytes b, r)"
proof -
  let ?ds = "nat_to_string (length b)"
  have pos: "position 58 (?ds @ 58 # b @ r) = Some (length ?ds)"
    by (intro position_append not_digit_58 digits_nat_to_string)
  obtain w where w: "parse_decimal_u64 ?ds = Ok w" "unat w = length b"
    using parse_decimal_u64_digits [of ?ds] assms
    by (auto simp: digits_nat_to_string encode_bytes_def)
  have nz: "1 < length ?ds \<Longrightarrow> ?ds ! 0 \<noteq> 48"
    using nat_to_string_length_1 [of "length b"] by (simp add: hd_conv_nth)
  show ?thesis
    using assms nz by (simp add: parse_string_def encode_bytes_def pos w Let_def)
qed

lemma parse_i64_int_to_string: "parse_i64 (int_to_string (sint i)) = Some i"
proof (cases "sint i < 0")
  case True
  have "nat (- sint i) \<le> 2 ^ 63"
    using sint_greater_eq [of i] by simp
  moreover have "- word_of_nat (nat (- sint i)) = i"
    using True by (simp add: of_nat_nat)
  ultimately show ?thesis
    using True by (simp add: parse_i64_def int_to_string_def)
next
  case False
  have "nat (sint i) < 2 ^ 63"
    using sint_less [of i] False by simp
  moreover have "word_of_nat (nat (sint i)) = i"
    using False by (simp add: of_nat_nat)
  moreover have "is_ascii_digit (hd (nat_to_string (nat (sint i))))"
    by (rule hd_nat_to_string)
  then obtain c s where "nat_to_string (nat (sint i)) = c # s" "c \<noteq> 45" "c \<noteq> 43"
    by (cases "nat_to_string (nat (sint i))") (auto dest: digit_neq)
  ultimately show ?thesis
    using False parse_digits_nat_to_string [of "nat (sint i)"]
    by (simp add: parse_i64_def int_to_string_def)
qed

lemma parse_integer_encode_integer: "parse_integer (encode_integer i @ r) = Ok (Integer i, r)"
proof -
  let ?s = "int_to_string (sint i)"
  have no_e: "101 \<notin> set (105 # ?s)"
    using not_digit_101 [OF digits_nat_to_string] by (auto simp: int_to_string_def)
  have pos: "position 101 (105 # ?s @ 101 # r) = Some (Suc (length ?s))"
    using position_append [OF no_e, of r] by simp
  have utf8: "utf8_valid ?s"
    by (auto simp: int_to_string_def intro: utf8_valid_digits digits_nat_to_string)
  have ne: "?s \<noteq> []"
    by (simp add: int_to_string_def)
  show ?thesis
  proof (cases "sint i < 0")
    case True
    let ?n = "nat_to_string (nat (- sint i))"
    have s: "?s = 45 # ?n" using True by (simp add: int_to_string_def)
    have "hd ?n \<noteq> 48"
      using True by (intro nat_to_string_no_leading_zero) simp
    then have "?n ! 0 \<noteq> 48" by (simp add: hd_conv_nth)
    then show ?thesis
      using pos utf8 ne parse_i64_int_to_string [of i]
      by (simp add: parse_integer_def encode_integer_def Let_def s)
  next
    case False
    let ?n = "nat_to_string (nat (sint i))"
    have s: "?s = ?n" using False by (simp add: int_to_string_def)
    have "is_ascii_digit (hd ?n)" by (rule hd_nat_to_string)
    then have "?n ! 0 \<noteq> 45"
      by (auto simp: hd_conv_nth is_ascii_digit_def)
    moreover have "1 < length ?n \<Longrightarrow> ?n ! 0 \<noteq> 48"
      using nat_to_string_length_1 [of "nat (sint i)"] by (simp add: hd_conv_nth)
    ultimately show ?thesis
      using pos utf8 ne parse_i64_int_to_string [of i]
      by (simp add: parse_integer_def encode_integer_def Let_def s)
  qed
qed
subsection \<open>Decoding what the encoder wrote\<close>

lemma encode_bytes_head: "\<exists>c s. encode_bytes b = c # s \<and> is_ascii_digit c"
proof -
  obtain c s where "nat_to_string (length b) = c # s"
    by (meson nat_to_string_neq_Nil neq_Nil_conv)
  then show ?thesis
    using hd_nat_to_string [of "length b"] by (simp add: encode_bytes_def)
qed

lemma encode_head: "\<exists>c s. encode v = c # s \<and> c \<noteq> 101"
  by (cases v) (use encode_bytes_head digit_neq in \<open>fastforce simp: encode_integer_def\<close>)+

lemma decode_encode_bytes:
  "length (encode_bytes b) < 2 ^ 64 \<Longrightarrow> decode (encode_bytes b @ r) = Ok (Bytes b, r)"
proof -
  assume "length (encode_bytes b) < 2 ^ 64"
  moreover obtain c s where "encode_bytes b = c # s" "is_ascii_digit c"
    using encode_bytes_head by blast
  ultimately show ?thesis
    using parse_string_encode_bytes [of b r] by (simp add: decode.simps)
qed

lemma decode_encode_integer: "decode (encode_integer i @ r) = Ok (Integer i, r)"
  using parse_integer_encode_integer [of i r]
  by (simp add: decode.simps encode_integer_def is_ascii_digit_def)

lemma parse_list_items:
  assumes "\<And>v r. v \<in> set vs \<Longrightarrow> decode (encode v @ r) = Ok (g v, r)"
  shows "parse_list (concat (map encode vs) @ 101 # r) acc = Ok (List (acc @ map g vs), r)"
  using assms
proof (induction vs arbitrary: acc)
  case Nil
  then show ?case by (simp add: parse_list.simps)
next
  case (Cons v vs)
  obtain c s where enc: "encode v = c # s" "c \<noteq> 101"
    using encode_head by blast
  have "decode (encode v @ concat (map encode vs) @ 101 # r)
      = Ok (g v, concat (map encode vs) @ 101 # r)"
    by (intro Cons.prems) simp
  with enc Cons show ?case
    by (subst parse_list.simps) simp
qed

lemma parse_dict_entries:
  assumes "\<And>k v r. (k, v) \<in> set es \<Longrightarrow> decode (encode_bytes k @ r) = Ok (Bytes k, r)"
    and "\<And>k v r. (k, v) \<in> set es \<Longrightarrow> decode (encode v @ r) = Ok (g v, r)"
    and "distinct (map fst (acc @ es))"
  shows "parse_dict (concat (map (\<lambda>(k, v). encode_bytes k @ encode v) es) @ 101 # r) acc
       = Ok (Dict (sort_key fst (acc @ map (\<lambda>(k, v). (k, g v)) es)), r)"
  using assms
proof (induction es arbitrary: acc)
  case Nil
  then show ?case by (simp add: parse_dict.simps)
next
  case (Cons e es)
  obtain k v where e: "e = (k, v)" by (cases e)
  let ?tl = "concat (map (\<lambda>(k, v). encode_bytes k @ encode v) es) @ 101 # r"
  obtain c s where enc: "encode_bytes k = c # s" "c \<noteq> 101"
    using encode_bytes_head digit_neq by metis
  obtain c' s' where enc': "encode v = c' # s'"
    using encode_head by blast
  have k: "decode (encode_bytes k @ encode v @ ?tl) = Ok (Bytes k, encode v @ ?tl)"
    by (intro Cons.prems(1) [of k v]) (simp add: e)
  have v: "decode (encode v @ ?tl) = Ok (g v, ?tl)"
    by (intro Cons.prems(2) [of k]) (simp add: e)
  have "parse_dict ?tl (acc @ [(k, g v)])
      = Ok (Dict (sort_key fst ((acc @ [(k, g v)]) @ map (\<lambda>(k, v). (k, g v)) es)), r)"
  proof (rule Cons.IH)
    show "decode (encode_bytes ka @ r) = Ok (Bytes ka, r)" if "(ka, va) \<in> set es" for ka va r
      using that by (intro Cons.prems(1) [of ka va]) simp
    show "decode (encode va @ r) = Ok (g va, r)" if "(ka, va) \<in> set es" for ka va r
      using that by (intro Cons.prems(2) [of ka]) simp
  qed (use Cons.prems(3) in \<open>auto simp: e\<close>)
  moreover have "k \<notin> set (map fst acc)"
    using Cons.prems(3) by (auto simp: e)
  ultimately show ?case
    using k v enc enc' by (subst parse_dict.simps) (simp add: e)
qed

lemma length_concat_elem: "x \<in> set xs \<Longrightarrow> length (f x) \<le> length (concat (map f xs))"
  by (induction xs) auto

lemma decode_encode_normal:
  "uniq_keys v \<Longrightarrow> length (encode v) < 2 ^ 64 \<Longrightarrow> decode (encode v @ r) = Ok (normal v, r)"
proof (induction v arbitrary: r rule: encode.induct)
  case (1 b)
  then show ?case by (simp add: decode_encode_bytes)
next
  case (2 i)
  then show ?case by (simp add: decode_encode_integer)
next
  case (3 items)
  have "decode (encode v @ r) = Ok (normal v, r)" if "v \<in> set items" for v r
    using 3 that length_concat_elem [OF that, of encode] by (simp add: list_all_iff)
  from parse_list_items [OF this, of items r "[]"] show ?case
    by (simp add: decode.simps is_ascii_digit_def)
next
  case (4 entries)
  let ?es = "sort_key fst entries"
  have len: "length (encode_bytes k @ encode v) < 2 ^ 64" if "(k, v) \<in> set ?es" for k v
    using "4.prems"(2) length_concat_elem [OF that, of "\<lambda>(k, v). encode_bytes k @ encode v"]
    by simp
  have uniq: "uniq_keys v" if "(k, v) \<in> set ?es" for k v
    using "4.prems"(1) that by (auto simp: list_all_iff)
  have "parse_dict (concat (map (\<lambda>(k, v). encode_bytes k @ encode v) ?es) @ 101 # r) []
      = Ok (Dict (sort_key fst ([] @ map (\<lambda>(k, v). (k, normal v)) ?es)), r)"
  proof (rule parse_dict_entries)
    show "decode (encode_bytes k @ r) = Ok (Bytes k, r)" if "(k, v) \<in> set ?es" for k v r
      using len [OF that] by (intro decode_encode_bytes) simp
    show "decode (encode v @ r) = Ok (normal v, r)" if "(k, v) \<in> set ?es" for k v r
      using len [OF that] uniq [OF that] "4.IH" [OF that refl] by simp
    show "distinct (map fst ([] @ ?es))"
      using "4.prems"(1) by simp
  qed
  then show ?case
    by (simp add: decode.simps is_ascii_digit_def sort_key_map_snd)
qed

text \<open>Decoding the encoder's output. For every value without repeated dictionary keys whose
  encoding fits in the address space, \<open>decode\<close> applied to the encoding followed by any
  bytes returns the value with its dictionaries sorted, and exactly the bytes that follow.
\<close>

theorem decode_encode:
  "uniq_keys v \<Longrightarrow> length (encode v) < 2 ^ 64 \<Longrightarrow> decode (encode v @ r) = Ok (normal v, r)"
  by (rule decode_encode_normal)

theorem decode_encode_witness:
  "decode (encode (Dict [(ascii ''b'', Integer 5), (ascii ''a'', List [])]) @ [1])
     = Ok (Dict [(ascii ''a'', List []), (ascii ''b'', Integer 5)], [1])"
proof -
  let ?v = "Dict [(ascii ''b'', Integer 5), (ascii ''a'', List [])]"
  have "uniq_keys ?v" by code_simp
  moreover have "length (encode ?v) = 13" by code_simp
  then have "length (encode ?v) < 2 ^ 64" by simp
  ultimately have "decode (encode ?v @ [1]) = Ok (normal ?v, [1])"
    by (rule decode_encode)
  moreover have "normal ?v = Dict [(ascii ''a'', List []), (ascii ''b'', Integer 5)]"
    by code_simp
  ultimately show ?thesis by simp
qed

subsection \<open>What a successful decode says of its input\<close>

lemma position_Some:
  assumes "position x xs = Some n"
  obtains ys zs where "xs = ys @ x # zs" "length ys = n" "x \<notin> set ys"
proof -
  let ?ys = "takeWhile (\<lambda>y. y \<noteq> x) xs"
  have n: "length ?ys = n" "n < length xs"
    using assms by (auto simp: position_def Let_def split: if_splits)
  have split: "xs = ?ys @ dropWhile (\<lambda>y. y \<noteq> x) xs" by simp
  with n have "dropWhile (\<lambda>y. y \<noteq> x) xs \<noteq> []"
    by (metis append_Nil2 order_less_irrefl)
  then obtain zs where "dropWhile (\<lambda>y. y \<noteq> x) xs = x # zs"
    by (metis (mono_tags, lifting) hd_dropWhile list.collapse)
  with split n(1) that [of ?ys zs] show thesis
    by (metis (mono_tags, lifting) set_takeWhileD)
qed

lemma parse_string_Ok:
  assumes "parse_string d = Ok (v, r)"
  shows "\<exists>ds b w. d = ds @ 58 # b @ r \<and> v = Bytes b \<and> parse_decimal_u64 ds = Ok w \<and>
           unat w = length b \<and> (\<forall>x. parse_string (ds @ 58 # b @ x) = Ok (Bytes b, x))"
proof -
  from assms obtain n w where n: "position 58 d = Some n"
    and w: "parse_decimal_u64 (take n d) = Ok w"
    and nz: "\<not> (1 < length (take n d) \<and> take n d ! 0 = 48)"
    and small: "n + 1 + unat w < 2 ^ 64" "n + 1 + unat w \<le> length d"
    and v: "v = Bytes (take (unat w) (drop (n + 1) d))" "r = drop (n + 1 + unat w) d"
    by (auto simp: parse_string_def Let_def not_le split: if_splits)
  from n obtain ds zs where d: "d = ds @ 58 # zs" "length ds = n" "58 \<notin> set ds"
    by (rule position_Some)
  let ?b = "take (unat w) zs"
  have len: "length ?b = unat w" using small d by simp
  have zs: "zs = ?b @ r" using v d by simp
  have "parse_string (ds @ 58 # ?b @ x) = Ok (Bytes ?b, x)" for x
    using w nz small d len position_append [OF d(3), of "?b @ x"]
    by (simp add: parse_string_def Let_def)
  moreover have "v = Bytes ?b" using v d by simp
  moreover have "d = ds @ 58 # ?b @ r" using d zs by simp
  ultimately show ?thesis
    using w d len by (intro exI [of _ ds] exI [of _ ?b] exI [of _ w]) simp
qed

text \<open>The value between the marker and the closing \<open>e\<close>, which alone decides the outcome.\<close>

definition integer_value :: "bytes \<Rightarrow> i64 result" where
  "integer_value num =
     (if num = [] then Err BencodeInvalidInteger
      else let s = (if num ! 0 = 45 then 1 else 0) in
        if length num \<le> s \<or> num ! 0 = 45 \<and> num ! 1 = 48 \<and> length num = 2 \<or>
           1 < length num - s \<and> num ! s = 48 then Err BencodeInvalidInteger
        else and_then (ok_or BencodeInvalidInteger (from_utf8 num))
               (\<lambda>s. ok_or BencodeIntegerOverflow (parse_i64 s)))"

lemma and_then_assoc: "and_then (and_then r f) g = and_then r (\<lambda>x. and_then (f x) g)"
  by (cases r) auto

lemma parse_integer_value:
  assumes "101 \<notin> set (c # num)"
  shows "parse_integer (c # num @ 101 # x) = and_then (integer_value num) (\<lambda>i. Ok (Integer i, x))"
proof -
  have pos: "position 101 (c # num @ 101 # x) = Some (Suc (length num))"
    using position_append [OF assms, of x] by simp
  show ?thesis
    by (cases "num ! 0 = 45")
      (simp_all add: parse_integer_def integer_value_def Let_def pos and_then_assoc)
qed

lemma integer_value_Ok: "integer_value num = Ok i \<Longrightarrow> parse_i64 num = Some i"
  by (auto simp: integer_value_def Let_def split: if_splits)

lemma parse_integer_Ok:
  assumes "parse_integer d = Ok (v, r)"
  shows "\<exists>c num i. d = c # num @ 101 # r \<and> v = Integer i \<and> parse_i64 num = Some i \<and>
           (\<forall>x. parse_integer (c # num @ 101 # x) = Ok (Integer i, x))"
proof -
  from assms obtain n where n: "position 101 d = Some n" "drop 1 (take n d) \<noteq> []"
    by (auto simp: parse_integer_def Let_def split: if_splits)
  from n(1) obtain ys zs where d: "d = ys @ 101 # zs" "length ys = n" "101 \<notin> set ys"
    by (rule position_Some)
  with n(2) obtain c num where ys: "ys = c # num" by (cases ys) auto
  note eq = parse_integer_value [of c num] d(3) ys
  from assms d eq obtain i where i: "integer_value num = Ok i" "v = Integer i" "r = zs"
    by auto
  with d eq have "\<forall>x. parse_integer (c # num @ 101 # x) = Ok (Integer i, x)"
    by simp
  with i d ys show ?thesis
    using integer_value_Ok by auto
qed

text \<open>One iteration of the loop of \<open>parse_dict\<close> that goes on.\<close>

lemma parse_dict_step:
  assumes "parse_dict rest entries = Ok (v, r)" "rest = c # rest'" "c \<noteq> 101"
  obtains key remaining val remaining' where "decode rest = Ok (Bytes key, remaining)"
    "remaining \<noteq> []" "decode remaining = Ok (val, remaining')" "key \<notin> set (map fst entries)"
    "parse_dict remaining' (entries @ [(key, val)]) = Ok (v, r)"
proof -
  from assms obtain kv remaining where "decode rest = Ok (kv, remaining)"
    by (auto simp: parse_dict.simps [of "c # rest'"])
  with assms show thesis
    by (cases kv) (auto simp: parse_dict.simps [of "c # rest'"] split: if_splits intro: that)
qed

text \<open>The input of a successful call is a non-empty prefix that decides the value, and the rest.\<close>

definition consumes :: "(bytes \<Rightarrow> (bencode \<times> bytes) result) \<Rightarrow> bytes \<Rightarrow> bencode \<Rightarrow> bytes \<Rightarrow> bool" where
  "consumes f d v r \<longleftrightarrow> (\<exists>p. d = p @ r \<and> p \<noteq> [] \<and> (\<forall>x. f (p @ x) = Ok (v, x)))"

lemma consumesI: "d = p @ r \<Longrightarrow> p \<noteq> [] \<Longrightarrow> (\<And>x. f (p @ x) = Ok (v, x)) \<Longrightarrow> consumes f d v r"
  by (auto simp: consumes_def)

lemma consumesE:
  assumes "consumes f d v r"
  obtains c p where "d = c # p @ r" "\<forall>x. f (c # p @ x) = Ok (v, x)"
  using assms by (auto simp: consumes_def neq_Nil_conv)

lemma decode_consumes:
  "decode d = Ok (v, r) \<Longrightarrow> consumes decode d v r"
  "parse_list d items = Ok (v, r) \<Longrightarrow> consumes (\<lambda>x. parse_list x items) d v r"
  "parse_dict d entries = Ok (v, r) \<Longrightarrow> consumes (\<lambda>x. parse_dict x entries) d v r"
proof (induction d and d items and d entries arbitrary: v r and v r and v r
    rule: decode_parse_list_parse_dict.induct)
  case (1 data)
  then obtain c rest where data: "data = c # rest"
    by (cases data) (auto simp: decode.simps)
  consider "is_ascii_digit c" | "c = 105" | "c = 108" | "c = 100"
    using "1.prems" data by (auto simp: decode.simps split: if_splits)
  then show ?case
  proof cases
    case 1
    with "1.prems" data have "parse_string data = Ok (v, r)"
      by (simp add: decode.simps)
    from parse_string_Ok [OF this] obtain ds b w where b: "data = ds @ 58 # b @ r" "v = Bytes b"
        "parse_decimal_u64 ds = Ok w" "\<And>x. parse_string (ds @ 58 # b @ x) = Ok (Bytes b, x)"
      by auto
    then obtain s where "ds = c # s"
      using data by (cases ds) (auto simp: parse_decimal_u64_def)
    with b 1 show ?thesis
      by (intro consumesI [of _ "ds @ 58 # b"]) (simp_all add: decode.simps)
  next
    case 2
    with "1.prems" data have "parse_integer data = Ok (v, r)"
      by (simp add: decode.simps is_ascii_digit_def)
    from parse_integer_Ok [OF this] 2 data show ?thesis
      by (fastforce intro!: consumesI [of _ "105 # _ @ [101]"] simp: decode.simps is_ascii_digit_def)
  next
    case 3
    with "1.prems" data have "parse_list rest [] = Ok (v, r)"
      by (simp add: decode.simps is_ascii_digit_def)
    with "1.IH"(1) [OF data] 3 have "consumes (\<lambda>x. parse_list x []) rest v r"
      by (simp add: is_ascii_digit_def)
    then obtain c' p where "rest = c' # p @ r" "\<forall>x. parse_list (c' # p @ x) [] = Ok (v, x)"
      by (auto elim: consumesE)
    with data 3 show ?thesis
      by (intro consumesI [of _ "108 # c' # p"]) (simp_all add: decode.simps is_ascii_digit_def)
  next
    case 4
    with "1.prems" data have "parse_dict rest [] = Ok (v, r)"
      by (simp add: decode.simps is_ascii_digit_def)
    with "1.IH"(2) [OF data] 4 have "consumes (\<lambda>x. parse_dict x []) rest v r"
      by (simp add: is_ascii_digit_def)
    then obtain c' p where "rest = c' # p @ r" "\<forall>x. parse_dict (c' # p @ x) [] = Ok (v, x)"
      by (auto elim: consumesE)
    with data 4 show ?thesis
      by (intro consumesI [of _ "100 # c' # p"]) (simp_all add: decode.simps is_ascii_digit_def)
  qed
next
  case (2 rest items)
  then obtain c rest' where rest: "rest = c # rest'"
    by (cases rest) (auto simp: parse_list.simps)
  show ?case
  proof (cases "c = 101")
    case True
    with "2.prems" rest show ?thesis
      by (intro consumesI [of _ "[101]"]) (auto simp: parse_list.simps)
  next
    case False
    with "2.prems" rest obtain item remaining where dec: "decode rest = Ok (item, remaining)"
      and loop: "parse_list remaining (items @ [item]) = Ok (v, r)"
      by (auto simp: parse_list.simps [of "c # rest'"])
    from "2.IH"(1) [OF rest False dec] obtain c1 p1
      where p1: "rest = c1 # p1 @ remaining" "\<forall>x. decode (c1 # p1 @ x) = Ok (item, x)"
      by (auto elim: consumesE)
    from "2.IH"(2) [OF rest False dec refl loop] obtain c2 p2
      where p2: "remaining = c2 # p2 @ r" "\<forall>x. parse_list (c2 # p2 @ x) (items @ [item]) = Ok (v, x)"
      by (auto elim: consumesE)
    have "parse_list (c1 # p1 @ c2 # p2 @ x) items = Ok (v, x)" for x
      using p1(1) rest False p1(2) p2(2)
      by (subst parse_list.simps) simp
    with p1(1) p2(1) show ?thesis
      by (intro consumesI [of _ "c1 # p1 @ c2 # p2"]) simp_all
  qed
next
  case (3 rest entries)
  then obtain c rest' where rest: "rest = c # rest'"
    by (cases rest) (auto simp: parse_dict.simps)
  show ?case
  proof (cases "c = 101")
    case True
    with "3.prems" rest show ?thesis
      by (intro consumesI [of _ "[101]"]) (auto simp: parse_dict.simps)
  next
    case False
    with "3.prems" rest obtain key remaining val remaining'
      where dec: "decode rest = Ok (Bytes key, remaining)" "remaining \<noteq> []"
        and val: "decode remaining = Ok (val, remaining')" "key \<notin> set (map fst entries)"
        and loop: "parse_dict remaining' (entries @ [(key, val)]) = Ok (v, r)"
      by (rule parse_dict_step)
    from "3.IH"(1) [OF rest False dec(1)] obtain c1 p1
      where p1: "rest = c1 # p1 @ remaining" "\<forall>x. decode (c1 # p1 @ x) = Ok (Bytes key, x)"
      by (auto elim: consumesE)
    from "3.IH"(2) [OF rest False dec(1) refl refl dec(2) val(1)] obtain c2 p2
      where p2: "remaining = c2 # p2 @ remaining'" "\<forall>x. decode (c2 # p2 @ x) = Ok (val, x)"
      by (auto elim: consumesE)
    from "3.IH"(3) [OF rest False dec(1) refl refl dec(2) val(1) refl val(2) loop] obtain c3 p3
      where p3: "remaining' = c3 # p3 @ r"
        "\<forall>x. parse_dict (c3 # p3 @ x) (entries @ [(key, val)]) = Ok (v, x)"
      by (auto elim: consumesE)
    have "parse_dict (c1 # p1 @ c2 # p2 @ c3 # p3 @ x) entries = Ok (v, x)" for x
      using p1(1) rest False p1(2) p2(2) p3(2) val(2)
      by (subst parse_dict.simps) simp
    with p1(1) p2(1) p3(1) show ?thesis
      by (intro consumesI [of _ "c1 # p1 @ c2 # p2 @ c3 # p3"]) simp_all
  qed
qed
text \<open>The equations that evaluate the decoder on a literal input.\<close>

lemmas decode_eval =
  decode.simps parse_list.simps parse_dict.simps parse_string_def parse_integer_def ascii_def
  is_ascii_digit_def position_def parse_decimal_u64_def checked_mul_def checked_add_def Let_def
  parse_i64_def parse_digits_def digits_val_def from_utf8_def

text \<open>A successful decode splits its input into a non-empty prefix and the returned rest, and
  the prefix alone decides the value: followed by any other bytes it decodes to the same value
  and leaves those bytes.
\<close>

theorem decode_prefix:
  assumes "decode d = Ok (v, r)"
  shows "\<exists>p. d = p @ r \<and> p \<noteq> [] \<and> (\<forall>x. decode (p @ x) = Ok (v, x))"
  using decode_consumes(1) [OF assms] by (simp add: consumes_def)

theorem decode_prefix_witness:
  "\<exists>p. ascii ''i42e4:spam'' = p @ ascii ''4:spam'' \<and> p \<noteq> [] \<and>
     (\<forall>x. decode (p @ x) = Ok (Integer 42, x))"
proof -
  have "decode (ascii ''i42e4:spam'') = Ok (Integer 42, ascii ''4:spam'')"
    by (simp add: decode_eval)
  then show ?thesis by (rule decode_prefix)
qed

lemma decode_canonical_all:
  "decode d = Ok (v, r) \<Longrightarrow> canonical v"
  "parse_list d items = Ok (v, r) \<Longrightarrow> list_all canonical items \<Longrightarrow> canonical v"
  "parse_dict d entries = Ok (v, r) \<Longrightarrow> distinct (map fst entries) \<Longrightarrow>
     list_all (\<lambda>(k, v). canonical v) entries \<Longrightarrow> canonical v"
proof (induction d and d items and d entries arbitrary: v r and v r and v r
    rule: decode_parse_list_parse_dict.induct)
  case (1 data)
  then obtain c rest where data: "data = c # rest"
    by (cases data) (auto simp: decode.simps)
  then show ?case
    using "1.prems" "1.IH"(1) [OF data _ _ _, of v r] "1.IH"(2) [OF data _ _ _ _, of v r]
    by (auto simp: decode.simps split: if_splits dest!: parse_string_Ok parse_integer_Ok)
next
  case (2 rest items)
  then obtain c rest' where rest: "rest = c # rest'"
    by (cases rest) (auto simp: parse_list.simps)
  show ?case
  proof (cases "c = 101")
    case True
    with "2.prems" rest show ?thesis by (auto simp: parse_list.simps)
  next
    case False
    with "2.prems" rest obtain item remaining where dec: "decode rest = Ok (item, remaining)"
      and loop: "parse_list remaining (items @ [item]) = Ok (v, r)"
      by (auto simp: parse_list.simps [of "c # rest'"])
    with "2.IH"(1) [OF rest False dec] "2.IH"(2) [OF rest False dec refl loop] "2.prems"(2)
    show ?thesis by simp
  qed
next
  case (3 rest entries)
  then obtain c rest' where rest: "rest = c # rest'"
    by (cases rest) (auto simp: parse_dict.simps)
  show ?case
  proof (cases "c = 101")
    case True
    with "3.prems" rest show ?thesis by (auto simp: parse_dict.simps)
  next
    case False
    with "3.prems" rest obtain key remaining val remaining'
      where dec: "decode rest = Ok (Bytes key, remaining)" "remaining \<noteq> []"
        and val: "decode remaining = Ok (val, remaining')" "key \<notin> set (map fst entries)"
        and loop: "parse_dict remaining' (entries @ [(key, val)]) = Ok (v, r)"
      by (auto elim: parse_dict_step)
    from "3.IH"(2) [OF rest False dec(1) refl refl dec(2) val(1)] "3.prems"(2,3) val(2)
      "3.IH"(3) [OF rest False dec(1) refl refl dec(2) val(1) refl val(2) loop]
    show ?thesis by simp
  qed
qed

text \<open>
  C21. Every value the decoder returns is canonical: all its dictionaries, at every depth, are
  sorted by their keys and have no key twice, whatever order the input had them in.
\<close>

theorem decode_canonical: "decode d = Ok (v, r) \<Longrightarrow> canonical v"
  by (rule decode_canonical_all(1))

theorem decode_canonical_witness:
  "canonical (Dict [(ascii ''bar'', Bytes (ascii ''spam'')), (ascii ''foo'', Integer 42)])"
  by (rule decode_canonical [where d = "ascii ''d3:fooi42e3:bar4:spame''" and r = "[]"])
    (simp add: decode_eval)

lemma length_nat_to_string_le: "n < 10 ^ k \<Longrightarrow> 0 < k \<Longrightarrow> length (nat_to_string n) \<le> k"
proof (induction n arbitrary: k rule: nat_to_string.induct)
  case (1 n)
  show ?case
  proof (cases "n < 10")
    case True
    with "1.prems" show ?thesis by (subst nat_to_string.simps) simp
  next
    case False
    with "1.prems" obtain k' where k: "k = Suc k'" by (cases k) auto
    moreover from this False "1.prems" have "0 < k'" by (cases k') auto
    ultimately have k: "k = Suc k'" "0 < k'" by simp_all
    have "length (nat_to_string (n div 10)) \<le> k'"
      using False "1.prems" k by (intro "1.IH") auto
    with False k show ?thesis by (subst nat_to_string.simps) simp
  qed
qed

lemma digits_val_less: "list_all is_ascii_digit ds \<Longrightarrow> digits_val ds < 10 ^ length ds"
proof (induction ds rule: rev_induct)
  case (snoc d ds)
  have "unat d - 48 < 10"
    using snoc.prems by (auto simp: is_ascii_digit_def word_le_nat_alt)
  with snoc show ?case by simp
qed simp

lemma sint_word_of_int:
  "- (2 ^ 63) \<le> k \<Longrightarrow> k < 2 ^ 63 \<Longrightarrow> sint (word_of_int k :: i64) = k"
  by (simp add: sint_sbintrunc' signed_take_bit_int_eq_self)

lemma parse_digits_length:
  "parse_digits ds = Some n \<Longrightarrow> length (nat_to_string n) \<le> length ds"
  by (auto simp: parse_digits_def split: if_splits intro!: length_nat_to_string_le digits_val_less)

lemma sint_neg_of_nat:
  assumes "n \<le> 2 ^ 63"
  shows "sint (- word_of_nat n :: i64) = - int n"
proof -
  have "int n \<le> int (2 ^ 63)"
    using assms by (simp only: of_nat_le_iff)
  then have "sint (word_of_int (- int n) :: i64) = - int n"
    by (intro sint_word_of_int) simp_all
  then show ?thesis by simp
qed

lemma sint_of_nat:
  assumes "n < 2 ^ 63"
  shows "sint (word_of_nat n :: i64) = int n"
proof -
  have "int n < int (2 ^ 63)"
    using assms by (simp only: of_nat_less_iff)
  then have "sint (word_of_int (int n) :: i64) = int n"
    by (intro sint_word_of_int) simp_all
  then show ?thesis by simp
qed

lemma length_int_to_string_le:
  "parse_i64 s = Some i \<Longrightarrow> length (int_to_string (sint i)) \<le> length s"
proof (cases s)
  case (Cons c r)
  assume p: "parse_i64 s = Some i"
  show ?thesis
  proof (cases "c = 45")
    case True
    with p Cons obtain n where n: "parse_digits r = Some n" "n \<le> 2 ^ 63" "i = - word_of_nat n"
      by (auto simp: parse_i64_def split: option.splits if_splits)
    then show ?thesis
      using parse_digits_length [OF n(1)] Cons
      by (simp add: int_to_string_def sint_neg_of_nat)
  next
    case False
    with p Cons obtain n where n: "parse_digits (if c = 43 then r else s) = Some n"
        "n < 2 ^ 63" "i = word_of_nat n"
      by (auto simp: parse_i64_def split: option.splits if_splits)
    then show ?thesis
      using parse_digits_length [OF n(1)] Cons
      by (auto simp: int_to_string_def sint_of_nat split: if_splits)
  qed
qed (simp add: parse_i64_def)

subsection \<open>Re-encoding is never longer, and the decoder is stable under it\<close>

abbreviation enc_entry :: "bytes \<times> bencode \<Rightarrow> bytes" where
  "enc_entry \<equiv> \<lambda>(key, val). encode_bytes key @ encode val"

lemma length_concat_sort_key:
  "length (concat (map f (sort_key g xs))) = length (concat (map f xs))"
proof -
  have "mset (map (length \<circ> f) (sort_key g xs)) = mset (map (length \<circ> f) xs)"
    by simp
  then have "sum_list (map (length \<circ> f) (sort_key g xs)) = sum_list (map (length \<circ> f) xs)"
    by (metis sum_mset_sum_list)
  then show ?thesis by (simp add: length_concat comp_def)
qed

lemma parse_decimal_loop_Ok:
  "parse_decimal_loop v ds = Ok w \<Longrightarrow>
     list_all is_ascii_digit ds \<and> unat w = foldl (\<lambda>acc b. acc * 10 + (unat b - 48)) (unat v) ds"
proof (induction ds arbitrary: v)
  case (Cons d ds)
  then obtain a b where "is_ascii_digit d" and a: "checked_mul v 10 = Some a"
    and b: "checked_add a (ucast (d - 48)) = Some b" and loop: "parse_decimal_loop b ds = Ok w"
    by (auto simp: bind_eq_Some_conv split: if_splits)
  with Cons.IH [OF loop] unat_checked_mul [OF a] unat_checked_add [OF b] show ?case
    by (simp add: unat_digit_value)
qed simp

lemma parse_decimal_u64_Ok:
  "parse_decimal_u64 ds = Ok w \<Longrightarrow> ds \<noteq> [] \<and> list_all is_ascii_digit ds \<and> unat w = digits_val ds"
  by (auto simp: parse_decimal_u64_def digits_val_def split: if_splits dest: parse_decimal_loop_Ok)

lemma encode_parse_string_length:
  assumes "parse_string d = Ok (v, r)"
  shows "length (encode v) + length r \<le> length d"
proof -
  from parse_string_Ok [OF assms] obtain ds b w where d: "d = ds @ 58 # b @ r" "v = Bytes b"
    and "parse_decimal_u64 ds = Ok w" "unat w = length b" by auto
  then have "ds \<noteq> []" "length b < 10 ^ length ds"
    using parse_decimal_u64_Ok digits_val_less by metis+
  then have "length (nat_to_string (length b)) \<le> length ds"
    by (intro length_nat_to_string_le) auto
  with d show ?thesis by (simp add: encode_bytes_def)
qed

lemma encode_parse_integer_length:
  assumes "parse_integer d = Ok (v, r)"
  shows "length (encode v) + length r \<le> length d"
  using parse_integer_Ok [OF assms] length_int_to_string_le
  by (fastforce simp: encode_integer_def)

lemma encode_decode_length:
  "decode d = Ok (v, r) \<Longrightarrow> length (encode v) + length r \<le> length d"
  "parse_list d items = Ok (v, r) \<Longrightarrow>
     length (encode v) + length r \<le> length d + length (concat (map encode items)) + 1"
  "parse_dict d entries = Ok (v, r) \<Longrightarrow>
     length (encode v) + length r \<le> length d + length (concat (map enc_entry entries)) + 1"
proof (induction d and d items and d entries arbitrary: v r and v r and v r
    rule: decode_parse_list_parse_dict.induct)
  case (1 data)
  then obtain c rest where data: "data = c # rest"
    by (cases data) (auto simp: decode.simps)
  then show ?case
    using "1.prems" "1.IH"(1) [OF data _ _ _, of v r] "1.IH"(2) [OF data _ _ _ _, of v r]
      encode_parse_string_length encode_parse_integer_length
    by (fastforce simp: decode.simps split: if_splits)
next
  case (2 rest items)
  then obtain c rest' where rest: "rest = c # rest'"
    by (cases rest) (auto simp: parse_list.simps)
  show ?case
  proof (cases "c = 101")
    case True
    with "2.prems" rest show ?thesis by (auto simp: parse_list.simps)
  next
    case False
    with "2.prems" rest obtain item remaining where dec: "decode rest = Ok (item, remaining)"
      and loop: "parse_list remaining (items @ [item]) = Ok (v, r)"
      by (auto simp: parse_list.simps [of "c # rest'"])
    with "2.IH"(1) [OF rest False dec] "2.IH"(2) [OF rest False dec refl loop]
    show ?thesis by simp
  qed
next
  case (3 rest entries)
  then obtain c rest' where rest: "rest = c # rest'"
    by (cases rest) (auto simp: parse_dict.simps)
  show ?case
  proof (cases "c = 101")
    case True
    with "3.prems" rest show ?thesis
      by (auto simp: parse_dict.simps length_concat_sort_key)
  next
    case False
    with "3.prems" rest obtain key remaining val remaining'
      where dec: "decode rest = Ok (Bytes key, remaining)" "remaining \<noteq> []"
        and val: "decode remaining = Ok (val, remaining')" "key \<notin> set (map fst entries)"
        and loop: "parse_dict remaining' (entries @ [(key, val)]) = Ok (v, r)"
      by (auto elim: parse_dict_step)
    from "3.IH"(1) [OF rest False dec(1)]
      "3.IH"(2) [OF rest False dec(1) refl refl dec(2) val(1)]
      "3.IH"(3) [OF rest False dec(1) refl refl dec(2) val(1) refl val(2) loop]
    show ?thesis by simp
  qed
qed

text \<open>Re-encoding is stable. Whatever \<open>decode\<close> accepts, encoding the value it returns and
  decoding again gives the same value with nothing left over, although the input may have
  unsorted dictionaries or a redundant plus sign.
\<close>

theorem decode_encode_decode:
  assumes "decode d = Ok (v, r)" and "length d < 2 ^ 64"
  shows "decode (encode v) = Ok (v, [])"
proof -
  have can: "canonical v"
    using assms(1) by (rule decode_canonical_all(1))
  have "length (encode v) < 2 ^ 64"
    using encode_decode_length(1) [OF assms(1)] assms(2) by simp
  then have "decode (encode v @ []) = Ok (normal v, [])"
    by (intro decode_encode_normal canonical_uniq_keys can)
  with can show ?thesis by (simp add: normal_canonical)
qed

theorem decode_encode_decode_witness:
  "decode (encode (Dict [(ascii ''a'', Integer 7), (ascii ''b'', Integer 1)]))
     = Ok (Dict [(ascii ''a'', Integer 7), (ascii ''b'', Integer 1)], [])"
proof (rule decode_encode_decode)
  show "decode (ascii ''d1:bi1e1:ai+7eerest'')
      = Ok (Dict [(ascii ''a'', Integer 7), (ascii ''b'', Integer 1)], ascii ''rest'')"
    by (simp add: decode_eval)
  show "length (ascii ''d1:bi1e1:ai+7eerest'') < 2 ^ 64" by simp
qed

lemma parse_decimal_loop_overflow:
  "list_all is_ascii_digit ds \<Longrightarrow> 2 ^ 64 \<le> foldl (\<lambda>acc b. acc * 10 + (unat b - 48)) (unat v) ds \<Longrightarrow>
     parse_decimal_loop v ds = Err BencodeIntegerOverflow"
proof (induction ds arbitrary: v)
  case Nil
  then show ?case
    using unsigned_less [of v, where ?'a = nat] by simp
next
  case (Cons d ds)
  show ?case
  proof (cases "Option.bind (checked_mul v 10) (\<lambda>v. checked_add v (ucast (d - 48)))")
    case None
    with Cons.prems show ?thesis by simp
  next
    case (Some b)
    then obtain a where a: "checked_mul v 10 = Some a" "checked_add a (ucast (d - 48)) = Some b"
      by (auto simp: bind_eq_Some_conv)
    with unat_checked_mul [OF a(1)] unat_checked_add [OF a(2)] Cons Some show ?thesis
      by (simp add: unat_digit_value)
  qed
qed

text \<open>The byte string parser on every length prefix written in plain decimal, whatever bytes
  follow the colon. A prefix of \<open>2^64\<close> or more is the overflow error. A prefix whose end
  position passes the 64 bit range panics: the bounds check comes after the addition. A longer
  claim than the input is an unexpected end. Otherwise the announced bytes are the value.
\<close>

theorem decode_string_spec:
  "decode (nat_to_string n @ 58 # s) =
     (if 2 ^ 64 \<le> n then Err BencodeIntegerOverflow
      else if 2 ^ 64 \<le> length (nat_to_string n) + 1 + n then Panic
      else if length s < n then Err BencodeUnexpectedEof
      else Ok (Bytes (take n s), drop n s))"
proof -
  let ?ds = "nat_to_string n"
  have digs: "list_all is_ascii_digit ?ds" by (rule digits_nat_to_string)
  have pos: "position 58 (?ds @ 58 # s) = Some (length ?ds)"
    by (intro position_append not_digit_58 digs)
  have nz: "1 < length ?ds \<Longrightarrow> ?ds ! 0 \<noteq> 48"
    using nat_to_string_length_1 [of n] by (simp add: hd_conv_nth)
  obtain c t where ds: "?ds = c # t" "is_ascii_digit c"
    using hd_nat_to_string [of n] by (cases ?ds) auto
  then have dec: "decode (?ds @ 58 # s) = parse_string (?ds @ 58 # s)"
    by (simp add: decode.simps)
  show ?thesis
  proof (cases "2 ^ 64 \<le> n")
    case True
    then have "parse_decimal_u64 ?ds = Err BencodeIntegerOverflow"
      using parse_decimal_loop_overflow [OF digs, of 0] digits_val_nat_to_string [of n]
      by (simp add: parse_decimal_u64_def digits_val_def)
    with True show ?thesis unfolding dec by (simp add: parse_string_def pos)
  next
    case False
    then obtain w where "parse_decimal_u64 ?ds = Ok w" "unat w = n"
      using parse_decimal_u64_digits [of ?ds] digs by auto
    with False nz show ?thesis unfolding dec by (simp add: parse_string_def pos Let_def)
  qed
qed

text \<open>A redundant plus sign is accepted. An integer whose digits follow a \<open>+\<close> decodes to the
  number, and so do two different byte strings to one value; the digits after the plus may
  even have a leading zero.
\<close>

theorem decode_integer_plus:
  assumes "n < 2 ^ 63"
  shows "decode (ascii ''i+'' @ nat_to_string n @ ascii ''e'' @ r) = Ok (Integer (of_nat n), r) \<and>
    decode (ascii ''i+0'' @ nat_to_string n @ ascii ''e'' @ r) = Ok (Integer (of_nat n), r)"
proof -
  let ?ds = "nat_to_string n"
  have digs: "list_all is_ascii_digit ?ds" by (rule digits_nat_to_string)
  have "101 \<notin> set (105 # 43 # ?ds)" "101 \<notin> set (105 # 43 # 48 # ?ds)"
    using not_digit_101 [OF digs] by auto
  note eqs = this [THEN parse_integer_value, of r]
  have "utf8_valid (43 # ?ds)" "utf8_valid (43 # 48 # ?ds)"
    using utf8_valid_digits [OF digs] by simp_all
  moreover have "parse_i64 (43 # ?ds) = Some (of_nat n)"
    using assms by (simp add: parse_i64_def)
  moreover have "parse_digits (48 # ?ds) = Some n"
    using digs digits_val_nat_to_string [of n]
    by (simp add: parse_digits_def digits_val_def is_ascii_digit_def)
  then have "parse_i64 (43 # 48 # ?ds) = Some (of_nat n)"
    using assms by (simp add: parse_i64_def)
  ultimately have "integer_value (43 # ?ds) = Ok (of_nat n)"
    "integer_value (43 # 48 # ?ds) = Ok (of_nat n)"
    by (simp_all add: integer_value_def Let_def)
  with eqs show ?thesis
    by (simp add: decode.simps is_ascii_digit_def ascii_def)
qed

theorem decode_integer_plus_witness:
  "decode (ascii ''i+5e'') = Ok (Integer 5, []) \<and> decode (ascii ''i+05e'') = Ok (Integer 5, [])"
proof -
  have "nat_to_string 5 = ascii ''5''"
    by (simp add: nat_to_string.simps ascii_def)
  then show ?thesis
    using decode_integer_plus [of 5 "[]"] by (simp add: ascii_def)
qed


subsection \<open>Dictionary access on normal forms\<close>

lemma dict_get_Dict [simp]: "dict_get (Dict es) key = map_of es key"
  by (induction es) (auto simp: dict_get_def)

lemma map_of_sort_key: "distinct (map fst es) \<Longrightarrow> map_of (sort_key fst es) = map_of es"
  by (rule map_of_inject_set [THEN iffD2]) simp_all

lemma map_of_map_snd: "map_of (map (\<lambda>(k, v). (k, f v)) es) key = map_option f (map_of es key)"
  by (induction es) auto

lemma dict_get_normal: "uniq_keys v \<Longrightarrow> dict_get (normal v) key = map_option normal (dict_get v key)"
proof (cases v)
  case (Dict es)
  assume "uniq_keys v"
  then have "distinct (map fst es)" using Dict by simp
  then have "distinct (map fst (map (\<lambda>(k, v). (k, normal v)) es))"
    by (simp only: map_fst_map_snd)
  from map_of_sort_key [OF this] show ?thesis
    unfolding Dict by (simp add: map_of_map_snd)
qed (simp_all add: dict_get_def)

lemma dict_get_bytes_normal: "uniq_keys v \<Longrightarrow> dict_get_bytes (normal v) key = dict_get_bytes v key"
proof -
  have "(case normal v of Bytes b \<Rightarrow> Some b | _ \<Rightarrow> None) = (case v of Bytes b \<Rightarrow> Some b | _ \<Rightarrow> None)" for v
    by (cases v) simp_all
  then show "uniq_keys v \<Longrightarrow> ?thesis"
    by (simp add: dict_get_bytes_def dict_get_normal bind_map_option comp_def)
qed

lemma dict_get_int_normal: "uniq_keys v \<Longrightarrow> dict_get_int (normal v) key = dict_get_int v key"
proof -
  have "(case normal v of Integer b \<Rightarrow> Some b | _ \<Rightarrow> None) = (case v of Integer b \<Rightarrow> Some b | _ \<Rightarrow> None)" for v
    by (cases v) simp_all
  then show "uniq_keys v \<Longrightarrow> ?thesis"
    by (simp add: dict_get_int_def dict_get_normal bind_map_option comp_def)
qed

lemmas dict_access = dict_get_bytes_def dict_get_int_def

end
