(* ===== verification/Peer_Wire.thy ===== *)
theory Peer_Wire
  imports Rust_Prelude
begin

section \<open>Peer wire protocol: messages and the handshake\<close>

text \<open>
  \<open>peer/message.rs\<close> and \<open>peer/handshake.rs\<close> of \<open>torrent-core\<close>: the message type, its
  length-prefixed encoder and decoder (BEP 3, 5, 6 and 10), the allowed-fast set of BEP 6 and
  the 68 byte handshake with its extension bits. SHA-1 is an argument.
\<close>

subsection \<open>Messages\<close>

datatype PeerMessage =
    KeepAlive
  | Choke
  | Unchoke
  | Interested
  | NotInterested
  | Have u32
  | Bitfield bytes
  | Request u32 u32 u32
  | Piece u32 u32 bytes
  | Cancel u32 u32 u32
  | Port u16
  | Extended u8 bytes
  | Suggest u32
  | HaveAll
  | HaveNone
  | Reject u32 u32 u32
  | AllowedFast u32
  | Unknown u8 bytes

text \<open>
  \<open>k + u32::try_from(n).expect(..)\<close>: the conversion panics on a length of \<open>2^32\<close> or more,
  the \<open>u32\<close> addition panics on overflow.
\<close>

definition len_prefix :: "nat \<Rightarrow> nat \<Rightarrow> bytes result" where
  "len_prefix k n =
     (if 2 ^ 32 \<le> n then Panic else if 2 ^ 32 \<le> k + n then Panic
      else Ok (to_be_bytes (of_nat (k + n) :: u32)))"

fun encode_message :: "PeerMessage \<Rightarrow> bytes result" where
  "encode_message KeepAlive = Ok [0, 0, 0, 0]"
| "encode_message Choke = Ok [0, 0, 0, 1, 0]"
| "encode_message Unchoke = Ok [0, 0, 0, 1, 1]"
| "encode_message Interested = Ok [0, 0, 0, 1, 2]"
| "encode_message NotInterested = Ok [0, 0, 0, 1, 3]"
| "encode_message (Have index) = Ok ([0, 0, 0, 5, 4] @ to_be_bytes index)"
| "encode_message (Bitfield bitfield) =
     and_then (len_prefix 1 (length bitfield)) (\<lambda>len. Ok (len @ [5] @ bitfield))"
| "encode_message (Request index begin len) =
     Ok ([0, 0, 0, 13, 6] @ to_be_bytes index @ to_be_bytes begin @ to_be_bytes len)"
| "encode_message (Cancel index begin len) =
     Ok ([0, 0, 0, 13, 8] @ to_be_bytes index @ to_be_bytes begin @ to_be_bytes len)"
| "encode_message (Piece index begin data) =
     and_then (len_prefix 9 (length data)) (\<lambda>len.
       Ok (len @ [7] @ to_be_bytes index @ to_be_bytes begin @ data))"
| "encode_message (Port port) = Ok ([0, 0, 0, 3, 9] @ to_be_bytes port)"
| "encode_message (Extended ext_id data) =
     and_then (len_prefix 2 (length data)) (\<lambda>len. Ok (len @ [20] @ [ext_id] @ data))"
| "encode_message (Suggest index) = Ok ([0, 0, 0, 5, 13] @ to_be_bytes index)"
| "encode_message HaveAll = Ok [0, 0, 0, 1, 14]"
| "encode_message HaveNone = Ok [0, 0, 0, 1, 15]"
| "encode_message (Reject index begin len) =
     Ok ([0, 0, 0, 13, 16] @ to_be_bytes index @ to_be_bytes begin @ to_be_bytes len)"
| "encode_message (AllowedFast index) = Ok ([0, 0, 0, 5, 17] @ to_be_bytes index)"
| "encode_message (Unknown msg_id data) =
     and_then (len_prefix 1 (length data)) (\<lambda>len. Ok (len @ [msg_id] @ data))"

text \<open>\<open>u32::from_be_bytes\<close> of the four bytes at an offset.\<close>

definition u32_at :: "bytes \<Rightarrow> nat \<Rightarrow> u32" where
  "u32_at p i = from_be_bytes (take 4 (drop i p))"

text \<open>The \<open>match msg_id\<close> of the decoder.\<close>

definition decode_payload :: "u32 \<Rightarrow> u8 \<Rightarrow> bytes \<Rightarrow> PeerMessage result" where
  "decode_payload len msg_id payload =
    (if msg_id = 0 then (if len \<noteq> 1 then Err PeerInvalidMessage else Ok Choke)
     else if msg_id = 1 then (if len \<noteq> 1 then Err PeerInvalidMessage else Ok Unchoke)
     else if msg_id = 2 then (if len \<noteq> 1 then Err PeerInvalidMessage else Ok Interested)
     else if msg_id = 3 then (if len \<noteq> 1 then Err PeerInvalidMessage else Ok NotInterested)
     else if msg_id = 4 then
       (if len \<noteq> 5 \<or> length payload \<noteq> 4 then Err PeerInvalidMessage
        else Ok (Have (u32_at payload 0)))
     else if msg_id = 5 then Ok (Bitfield payload)
     else if msg_id = 6 then
       (if len \<noteq> 13 \<or> length payload \<noteq> 12 then Err PeerInvalidMessage
        else Ok (Request (u32_at payload 0) (u32_at payload 4) (u32_at payload 8)))
     else if msg_id = 7 then
       (if length payload < 8 then Err PeerInvalidMessage
        else Ok (Piece (u32_at payload 0) (u32_at payload 4) (drop 8 payload)))
     else if msg_id = 8 then
       (if len \<noteq> 13 \<or> length payload \<noteq> 12 then Err PeerInvalidMessage
        else Ok (Cancel (u32_at payload 0) (u32_at payload 4) (u32_at payload 8)))
     else if msg_id = 9 then
       (if len \<noteq> 3 \<or> length payload \<noteq> 2 then Err PeerInvalidMessage
        else Ok (Port (from_be_bytes (take 2 payload))))
     else if msg_id = 20 then
       (if payload = [] then Err PeerInvalidExtendedMessage
        else Ok (Extended (payload ! 0) (drop 1 payload)))
     else if msg_id = 13 then
       (if len \<noteq> 5 \<or> length payload \<noteq> 4 then Err PeerInvalidFastMessage
        else Ok (Suggest (u32_at payload 0)))
     else if msg_id = 14 then (if len \<noteq> 1 then Err PeerInvalidFastMessage else Ok HaveAll)
     else if msg_id = 15 then (if len \<noteq> 1 then Err PeerInvalidFastMessage else Ok HaveNone)
     else if msg_id = 16 then
       (if len \<noteq> 13 \<or> length payload \<noteq> 12 then Err PeerInvalidFastMessage
        else Ok (Reject (u32_at payload 0) (u32_at payload 4) (u32_at payload 8)))
     else if msg_id = 17 then
       (if len \<noteq> 5 \<or> length payload \<noteq> 4 then Err PeerInvalidFastMessage
        else Ok (AllowedFast (u32_at payload 0)))
     else Ok (Unknown msg_id payload))"

definition decode_message :: "bytes \<Rightarrow> PeerMessage result" where
  "decode_message data =
     (if length data < 4 then Err PeerInvalidMessage
      else
        let len = u32_at data 0 in
        if len = 0 then Ok KeepAlive
        else if length data < 5 then Err PeerInvalidMessage
        else if length data < 4 + unat len then Err PeerInvalidMessage
        else decode_payload len (data ! 4) (drop 5 (take (4 + unat len) data)))"

text \<open>
  The allowed-fast set. \<open>sha1\<close> is the digest function of the crate \<open>sha1\<close>. The loop counter
  is a \<open>u32\<close> range: asking it for \<open>u32::MAX\<close> overflows the successor it stores, which panics.
\<close>

function allowed_fast_loop ::
  "(bytes \<Rightarrow> bytes) \<Rightarrow> bytes \<Rightarrow> bytes \<Rightarrow> u32 \<Rightarrow> nat \<Rightarrow> nat \<Rightarrow> u32 set \<Rightarrow> u32 list \<Rightarrow> u32 list result" where
  "allowed_fast_loop sha1 info_hash ip_bytes num_pieces k i seen acc =
     (if 2 ^ 32 - 1 \<le> i then Panic
      else if k \<le> length acc \<or> unat num_pieces * 4 \<le> i then Ok acc
      else
        let hash = sha1 (info_hash @ ip_bytes @ to_be 4 i);
            piece_index = u32_at hash 0 mod num_pieces in
        if piece_index \<notin> seen
        then allowed_fast_loop sha1 info_hash ip_bytes num_pieces k (Suc i)
               (insert piece_index seen) (acc @ [piece_index])
        else allowed_fast_loop sha1 info_hash ip_bytes num_pieces k (Suc i) seen acc)"
  by pat_completeness auto
termination
  by (relation "measure (\<lambda>(_, _, _, _, _, i, _, _). 2 ^ 32 - i)") auto

declare allowed_fast_loop.simps [simp del]

definition compute_allowed_fast_set ::
  "(bytes \<Rightarrow> bytes) \<Rightarrow> bytes \<Rightarrow> bytes \<Rightarrow> u32 \<Rightarrow> nat \<Rightarrow> u32 list result" where
  "compute_allowed_fast_set sha1 info_hash ip_bytes num_pieces k =
     (if num_pieces = 0 \<or> k = 0 then Ok []
      else allowed_fast_loop sha1 info_hash ip_bytes num_pieces k 0 {} [])"

subsection \<open>Handshake\<close>

record Handshake =
  hs_info_hash :: bytes
  hs_peer_id :: bytes
  hs_reserved :: bytes

definition PROTOCOL_STR :: bytes where
  "PROTOCOL_STR = ascii ''BitTorrent protocol''"

definition HANDSHAKE_SIZE :: nat where
  "HANDSHAKE_SIZE = 68"

definition handshake_new :: "bytes \<Rightarrow> bytes \<Rightarrow> Handshake" where
  "handshake_new info_hash peer_id =
     \<lparr>hs_info_hash = info_hash, hs_peer_id = peer_id, hs_reserved = replicate 8 0\<rparr>"

definition set_extension_bit :: "bytes \<Rightarrow> nat \<Rightarrow> bytes" where
  "set_extension_bit reserved ext =
     (if ext < 64 then
        let byte = ext div 8; bit_in_byte = 7 - ext mod 8 in
        reserved[byte := reserved ! byte OR push_bit bit_in_byte 1]
      else reserved)"

definition with_extensions :: "bytes \<Rightarrow> bytes \<Rightarrow> nat list \<Rightarrow> Handshake" where
  "with_extensions info_hash peer_id extensions =
     (handshake_new info_hash peer_id)
       \<lparr>hs_reserved := foldl set_extension_bit (replicate 8 0) extensions\<rparr>"

definition handshake_to_bytes :: "Handshake \<Rightarrow> bytes" where
  "handshake_to_bytes hs = [19] @ PROTOCOL_STR @ hs_reserved hs @ hs_info_hash hs @ hs_peer_id hs"

definition handshake_from_bytes :: "bytes \<Rightarrow> Handshake result" where
  "handshake_from_bytes data =
     (if length data \<noteq> HANDSHAKE_SIZE then Err PeerInvalidHandshake
      else if data ! 0 \<noteq> 19 then Err PeerInvalidHandshake
      else if drop 1 (take 20 data) \<noteq> PROTOCOL_STR then Err PeerInvalidHandshake
      else Ok \<lparr>hs_info_hash = drop 28 (take 48 data), hs_peer_id = drop 48 (take 68 data),
               hs_reserved = drop 20 (take 28 data)\<rparr>)"

definition has_extension :: "Handshake \<Rightarrow> nat \<Rightarrow> bool" where
  "has_extension hs ext =
     (if 64 \<le> ext then False
      else test_bit_at (hs_reserved hs ! (ext div 8)) (7 - ext mod 8))"

text \<open>An index of 8 or more fails the \<open>debug_assert\<close>.\<close>

definition set_reserved_byte :: "Handshake \<Rightarrow> nat \<Rightarrow> u8 \<Rightarrow> Handshake result" where
  "set_reserved_byte hs index value =
     (if index < 8 then Ok (hs\<lparr>hs_reserved := (hs_reserved hs)[index := value]\<rparr>) else Panic)"

text \<open>The fixed-size arrays of the structure.\<close>

definition handshake_wf :: "Handshake \<Rightarrow> bool" where
  "handshake_wf hs \<longleftrightarrow>
     length (hs_info_hash hs) = 20 \<and> length (hs_peer_id hs) = 20 \<and> length (hs_reserved hs) = 8"

subsection \<open>The message codec\<close>

text \<open>
  The specification of the wire format: a message other than a keep-alive is an id byte and a
  payload, framed by the big-endian length of both.
\<close>

fun message_id :: "PeerMessage \<Rightarrow> u8" where
  "message_id KeepAlive = 0"
| "message_id Choke = 0"
| "message_id Unchoke = 1"
| "message_id Interested = 2"
| "message_id NotInterested = 3"
| "message_id (Have _) = 4"
| "message_id (Bitfield _) = 5"
| "message_id (Request _ _ _) = 6"
| "message_id (Piece _ _ _) = 7"
| "message_id (Cancel _ _ _) = 8"
| "message_id (Port _) = 9"
| "message_id (Extended _ _) = 20"
| "message_id (Suggest _) = 13"
| "message_id HaveAll = 14"
| "message_id HaveNone = 15"
| "message_id (Reject _ _ _) = 16"
| "message_id (AllowedFast _) = 17"
| "message_id (Unknown i _) = i"

fun message_payload :: "PeerMessage \<Rightarrow> bytes" where
  "message_payload (Have i) = to_be_bytes i"
| "message_payload (Bitfield b) = b"
| "message_payload (Request i b l) = to_be_bytes i @ to_be_bytes b @ to_be_bytes l"
| "message_payload (Piece i b d) = to_be_bytes i @ to_be_bytes b @ d"
| "message_payload (Cancel i b l) = to_be_bytes i @ to_be_bytes b @ to_be_bytes l"
| "message_payload (Port p) = to_be_bytes p"
| "message_payload (Extended e d) = e # d"
| "message_payload (Suggest i) = to_be_bytes i"
| "message_payload (Reject i b l) = to_be_bytes i @ to_be_bytes b @ to_be_bytes l"
| "message_payload (AllowedFast i) = to_be_bytes i"
| "message_payload (Unknown _ d) = d"
| "message_payload _ = []"

definition frame :: "u8 \<Rightarrow> bytes \<Rightarrow> bytes" where
  "frame msg_id payload = to_be_bytes (of_nat (Suc (length payload)) :: u32) @ msg_id # payload"

definition known_ids :: "u8 list" where
  "known_ids = [0, 1, 2, 3, 4, 5, 6, 7, 8, 9, 13, 14, 15, 16, 17, 20]"

fun message_wf :: "PeerMessage \<Rightarrow> bool" where
  "message_wf (Unknown msg_id data) = (msg_id \<notin> set known_ids)"
| "message_wf _ = True"

lemma to_be_4:
  "to_be 4 v = [of_nat (v div 256 div 256 div 256), of_nat (v div 256 div 256), of_nat (v div 256), of_nat v]"
proof -
  have four: "(4 :: nat) = Suc (Suc (Suc (Suc 0)))" by simp
  show ?thesis by (simp only: four to_be.simps append.simps)
qed

lemma to_be_bytes_frames [simp]:
  "to_be_bytes (1 :: u32) = [0, 0, 0, 1]" "to_be_bytes (3 :: u32) = [0, 0, 0, 3]"
  "to_be_bytes (5 :: u32) = [0, 0, 0, 5]" "to_be_bytes (13 :: u32) = [0, 0, 0, 13]"
  by (simp_all add: to_be_bytes_def to_be_4)

lemma u32_at_0 [simp]: "u32_at (to_be_bytes (w :: u32) @ xs) 0 = w"
  by (simp add: u32_at_def)

lemma u32_at_0_Nil [simp]: "u32_at (to_be_bytes (w :: u32)) 0 = w"
  by (simp add: u32_at_def)

lemma u32_at_4 [simp]: "u32_at (to_be_bytes (w :: u32) @ xs) 4 = u32_at xs 0"
  by (simp add: u32_at_def)

lemma u32_at_8 [simp]: "u32_at (to_be_bytes (w :: u32) @ xs) 8 = u32_at xs 4"
  by (simp add: u32_at_def)

lemma len_prefix_Suc:
  "len_prefix (Suc k) n = (if Suc k + n < 2 ^ 32 then Ok (to_be_bytes (of_nat (Suc (k + n)) :: u32)) else Panic)"
  by (auto simp: len_prefix_def)

lemma encode_message_frame:
  "m \<noteq> KeepAlive \<Longrightarrow>
   encode_message m =
     (if Suc (length (message_payload m)) < 2 ^ 32 then Ok (frame (message_id m) (message_payload m))
      else Panic)"
  by (cases m) (auto simp: frame_def len_prefix_def add_ac)

lemma decode_payload_wf:
  "message_wf m \<Longrightarrow> m \<noteq> KeepAlive \<Longrightarrow>
     decode_payload (of_nat (Suc (length (message_payload m)))) (message_id m) (message_payload m) = Ok m"
  by (cases m) (auto simp: decode_payload_def known_ids_def)

lemma unat_frame_length:
  "Suc n < 2 ^ 32 \<Longrightarrow> unat (of_nat (Suc n) :: u32) = Suc n"
  by (simp add: unat_of_nat del: of_nat_Suc)

lemma decode_message_frame:
  assumes "Suc (length payload) < 2 ^ 32"
  shows "decode_message (frame msg_id payload @ r)
       = decode_payload (of_nat (Suc (length payload))) msg_id payload"
proof -
  let ?len = "of_nat (Suc (length payload)) :: u32"
  have len: "unat ?len = Suc (length payload)"
    by (rule unat_frame_length [OF assms])
  then have "?len \<noteq> 0" by (metis unat_0 nat.distinct(1))
  with len show ?thesis
    by (simp add: decode_message_def frame_def nth_append Let_def del: of_nat_Suc)
qed

lemma to_be_bytes_u32_at: "i + 4 \<le> length p \<Longrightarrow> to_be_bytes (u32_at p i) = take 4 (drop i p)"
  unfolding u32_at_def by (intro to_from_be_bytes) simp

lemma u32_fields_1: "length p = 4 \<Longrightarrow> to_be_bytes (u32_at p 0) = p"
  by (simp add: to_be_bytes_u32_at)

lemma u32_fields_2: "8 \<le> length p \<Longrightarrow> to_be_bytes (u32_at p 0) @ to_be_bytes (u32_at p 4) @ drop 8 p = p"
proof -
  assume "8 \<le> length p"
  then have "to_be_bytes (u32_at p 0) @ to_be_bytes (u32_at p 4) @ drop 8 p
      = take 4 p @ take 4 (drop 4 p) @ drop 4 (drop 4 p)"
    by (simp add: to_be_bytes_u32_at)
  then show ?thesis by (simp only: append_take_drop_id)
qed

lemma u32_fields_3:
  "length p = 12 \<Longrightarrow>
     to_be_bytes (u32_at p 0) @ to_be_bytes (u32_at p 4) @ to_be_bytes (u32_at p 8) = p"
  using u32_fields_2 [of p] to_be_bytes_u32_at [of 8 p] by simp

lemma unat_eq_literal: "w = 1 \<Longrightarrow> unat (w :: u32) = 1" "w = 5 \<Longrightarrow> unat w = 5"
  "w = 13 \<Longrightarrow> unat w = 13" "w = 3 \<Longrightarrow> unat w = 3"
  by simp_all

lemma decode_payload_inv:
  assumes "decode_payload len i p = Ok m" and "unat len = Suc (length p)"
  shows "m \<noteq> KeepAlive \<and> message_wf m \<and> message_id m = i \<and> message_payload m = p"
proof -
  have p2: "to_be_bytes (from_be_bytes (take 2 p) :: u16) = p" if "length p = 2"
    using that by (simp add: to_from_be_bytes)
  have p1: "p ! 0 # drop 1 p = p" if "p \<noteq> []"
    using that by (cases p) auto
  show ?thesis
    using assms p2 p1
    by (auto simp: decode_payload_def known_ids_def u32_fields_1 u32_fields_2 u32_fields_3
        split: if_splits)
qed

lemma decode_message_Ok:
  assumes "decode_message data = Ok m" and "u32_at data 0 \<noteq> 0"
  shows "\<exists>r. data = frame (message_id m) (message_payload m) @ r \<and> message_wf m \<and> m \<noteq> KeepAlive \<and>
           Suc (length (message_payload m)) < 2 ^ 32"
proof -
  let ?len = "u32_at data 0" and ?p = "drop 5 (take (4 + unat (u32_at data 0)) data)"
  from assms have sz: "5 \<le> length data" "4 + unat ?len \<le> length data"
    and dec: "decode_payload ?len (data ! 4) ?p = Ok m"
    by (auto simp: decode_message_def Let_def not_less split: if_splits)
  have "unat ?len \<noteq> 0"
    using assms(2) by (simp add: unat_eq_zero)
  then have len: "unat ?len = Suc (length ?p)"
    using sz by simp
  from decode_payload_inv [OF dec len] have m: "m \<noteq> KeepAlive" "message_wf m"
    "message_id m = data ! 4" "message_payload m = ?p" by auto
  have "(of_nat (Suc (length ?p)) :: u32) = ?len"
    unfolding len [symmetric] by simp
  moreover have "to_be_bytes ?len = take 4 data"
    using sz by (simp add: to_be_bytes_u32_at)
  moreover have "data = take 4 data @ data ! 4 # ?p @ drop (4 + unat ?len) data"
  proof -
    have "drop 4 (take (4 + unat ?len) data) = data ! 4 # ?p"
      using sz \<open>unat ?len \<noteq> 0\<close> Cons_nth_drop_Suc [of 4 "take (4 + unat ?len) data"] by simp
    then have "take 4 data @ data ! 4 # ?p = take (4 + unat ?len) data"
      by (metis append_take_drop_id min.absorb1 le_add1 take_take)
    then show ?thesis
      by (metis append_take_drop_id append_Cons append_assoc)
  qed
  ultimately have "data = frame (data ! 4) ?p @ drop (4 + unat ?len) data"
    by (simp add: frame_def del: of_nat_Suc)
  moreover have "Suc (length ?p) < 2 ^ 32"
    using unsigned_less [of ?len, where ?'a = nat] len by simp
  ultimately show ?thesis
    using m by (intro exI [of _ "drop (4 + unat ?len) data"]) simp
qed

text \<open>
  C22. Every message round-trips through the wire. If \<open>encode\<close> succeeds, \<open>decode\<close> applied to
  its output, with any further bytes behind it in the receive buffer, returns the message; the
  only restriction is that an \<open>Unknown\<close> message does not carry the id of a known one.
\<close>

theorem decode_encode_message:
  assumes "encode_message m = Ok bs" and "message_wf m"
  shows "decode_message (bs @ r) = Ok m"
proof (cases "m = KeepAlive")
  case True
  with assms show ?thesis
    by (auto simp: decode_message_def u32_at_def from_be_bytes_def be_val_def)
next
  case False
  with assms show ?thesis
    by (auto simp: encode_message_frame decode_message_frame decode_payload_wf
        split: if_splits simp del: of_nat_Suc)
qed

theorem decode_encode_message_witness:
  "decode_message ([0, 0, 0, 13, 6] @ to_be_bytes (1 :: u32) @ to_be_bytes (0 :: u32)
     @ to_be_bytes (16384 :: u32) @ [9, 9]) = Ok (Request 1 0 16384)"
  using decode_encode_message [of "Request 1 0 16384" _ "[9, 9]"] by simp

text \<open>
  C23. The decoder accepts nothing else. Whatever \<open>decode\<close> accepts is a keep-alive prefix, or
  begins with exactly the bytes \<open>encode\<close> produces for the returned message; in particular a
  frame with a wrong length for its id is never accepted.
\<close>

theorem encode_decode_message:
  assumes "decode_message data = Ok m"
  shows "\<exists>bs r. encode_message m = Ok bs \<and> data = bs @ r \<and> message_wf m"
proof (cases "u32_at data 0 = 0")
  case True
  with assms have "m = KeepAlive" "4 \<le> length data"
    by (auto simp: decode_message_def Let_def split: if_splits)
  moreover have "to_be_bytes (u32_at data 0) = take 4 data"
    using \<open>4 \<le> length data\<close> by (simp add: to_be_bytes_u32_at)
  then have "take 4 data = [0, 0, 0, 0]"
    using True by (simp add: to_be_bytes_def to_be_4)
  then have "data = [0, 0, 0, 0] @ drop 4 data"
    by (metis append_take_drop_id)
  ultimately show ?thesis by (intro exI) auto
next
  case False
  from decode_message_Ok [OF assms False] show ?thesis
    by (auto simp: encode_message_frame)
qed

theorem encode_decode_message_witness:
  "\<exists>bs r. encode_message (Have 7) = Ok bs \<and> [0, 0, 0, 5, 4, 0, 0, 0, 7, 1] = bs @ r \<and> message_wf (Have 7)"
proof (rule encode_decode_message)
  show "decode_message [0, 0, 0, 5, 4, 0, 0, 0, 7, 1] = Ok (Have 7)"
    by (simp add: decode_message_def decode_payload_def u32_at_def from_be_bytes_def be_val_def)
qed
subsection \<open>The allowed-fast set\<close>

lemma allowed_fast_loop_spec:
  assumes "unat num_pieces * 4 < 2 ^ 32 - 1" and "num_pieces \<noteq> 0"
    and "i \<le> unat num_pieces * 4" and "seen = set acc" and "distinct acc"
    and "\<forall>p \<in> set acc. p < num_pieces" and "length acc \<le> k"
  shows "\<exists>s. allowed_fast_loop sha1 info_hash ip num_pieces k i seen acc = Ok s \<and> distinct s \<and>
           (\<forall>p \<in> set s. p < num_pieces) \<and> length s \<le> k"
  using assms
proof (induction sha1 info_hash ip num_pieces k i seen acc rule: allowed_fast_loop.induct)
  case (1 sha1 info_hash ip num_pieces k i seen acc)
  let ?p = "u32_at (sha1 (info_hash @ ip @ to_be 4 i)) 0 mod num_pieces"
  have p: "?p < num_pieces"
    using "1.prems"(2) by (simp add: word_mod_less_divisor word_gt_0)
  have i: "i < 2 ^ 32 - 1"
    using "1.prems" by simp
  show ?case
  proof (cases "k \<le> length acc \<or> unat num_pieces * 4 \<le> i")
    case True
    with i "1.prems" show ?thesis
      by (subst allowed_fast_loop.simps) auto
  next
    case False
    with i "1.prems" "1.IH"(1) [OF _ False refl refl] "1.IH"(2) [OF _ False refl refl] p
    show ?thesis
      by (subst allowed_fast_loop.simps) (cases "?p \<in> seen"; simp add: Let_def)
  qed
qed

text \<open>The allowed-fast set. For a torrent of fewer than \<open>2^30 - 1\<close> pieces, and whatever the
  digest function returns, the computation ends with a list of at most \<open>k\<close> different pieces,
  all of them pieces of the torrent.
\<close>

theorem compute_allowed_fast_set_spec:
  assumes "unat num_pieces < 2 ^ 30 - 1"
  shows "\<exists>s. compute_allowed_fast_set sha1 info_hash ip num_pieces k = Ok s \<and> distinct s \<and>
           (\<forall>p \<in> set s. p < num_pieces) \<and> length s \<le> k"
  using assms allowed_fast_loop_spec [of num_pieces 0 "{}" "[]" k sha1 info_hash ip]
  by (auto simp: compute_allowed_fast_set_def)

theorem compute_allowed_fast_set_spec_witness:
  "\<exists>s. compute_allowed_fast_set (\<lambda>b. rev b) [1] [10, 0, 0, 1] 5 3 = Ok s \<and> distinct s \<and>
     (\<forall>p \<in> set s. p < 5) \<and> length s \<le> 3"
  by (rule compute_allowed_fast_set_spec) simp

subsection \<open>The handshake\<close>

lemma length_PROTOCOL_STR [simp]: "length PROTOCOL_STR = 19"
  by (simp add: PROTOCOL_STR_def)

text \<open>The handshake codec is a bijection between handshakes and the 68 byte blocks that start
  with the protocol header: reading what was written returns the handshake, and a block that
  is accepted is exactly what the returned handshake writes.
\<close>

theorem handshake_roundtrip:
  "(handshake_wf hs \<longrightarrow> handshake_from_bytes (handshake_to_bytes hs) = Ok hs) \<and>
   (handshake_from_bytes data = Ok hs \<longrightarrow> handshake_wf hs \<and> handshake_to_bytes hs = data)"
proof (intro conjI impI)
  assume "handshake_wf hs"
  then show "handshake_from_bytes (handshake_to_bytes hs) = Ok hs"
    by (simp add: handshake_wf_def handshake_from_bytes_def handshake_to_bytes_def HANDSHAKE_SIZE_def)
next
  assume ok: "handshake_from_bytes data = Ok hs"
  then show "handshake_wf hs"
    by (auto simp: handshake_from_bytes_def handshake_wf_def HANDSHAKE_SIZE_def split: if_splits)
  from ok have len: "length data = 68" and hd: "data ! 0 = 19" and proto: "PROTOCOL_STR = drop 1 (take 20 data)"
    and hs: "hs = \<lparr>hs_info_hash = drop 28 (take 48 data), hs_peer_id = drop 48 (take 68 data),
               hs_reserved = drop 20 (take 28 data)\<rparr>"
    by (auto simp: handshake_from_bytes_def HANDSHAKE_SIZE_def split: if_splits)
  from len hd have "[19] = take 1 data"
    by (cases data) auto
  then have "handshake_to_bytes hs
      = take 1 data @ drop 1 (take 20 data) @ drop 20 (take 28 data) @ drop 28 (take 48 data)
          @ drop 48 (take 68 data)"
    by (simp add: handshake_to_bytes_def hs proto)
  also have "\<dots> = take 68 data"
  proof -
    have "drop 1 (take 20 data) = take 19 (drop 1 data)"
      "drop 20 (take 28 data) = take 8 (drop 20 data)"
      "drop 28 (take 48 data) = take 20 (drop 28 data)"
      "drop 48 (take 68 data) = take 20 (drop 48 data)"
      by (simp_all only: drop_take) simp_all
    then show ?thesis
      using take_add [of 1 19 data] take_add [of 20 8 data] take_add [of 28 20 data]
        take_add [of 48 20 data]
      by simp
  qed
  finally show "handshake_to_bytes hs = data"
    using len by simp
qed

theorem handshake_roundtrip_witness:
  "handshake_from_bytes (handshake_to_bytes (handshake_new (replicate 20 7) (replicate 20 9)))
     = Ok (handshake_new (replicate 20 7) (replicate 20 9))"
proof -
  have "handshake_wf (handshake_new (replicate 20 7) (replicate 20 9))"
    by (simp add: handshake_wf_def handshake_new_def)
  with handshake_roundtrip [of "handshake_new (replicate 20 7) (replicate 20 9)" "[]"]
  show ?thesis by blast
qed

lemma length_set_extension_bit [simp]: "length (set_extension_bit r e) = length r"
  by (simp add: set_extension_bit_def Let_def)

lemma bit_set_extension_bit:
  assumes "length r = 8" "b < 64"
  shows "bit (set_extension_bit r e ! (b div 8)) (7 - b mod 8) \<longleftrightarrow>
           bit (r ! (b div 8)) (7 - b mod 8) \<or> b = e"
proof -
  have "b = e" if "b div 8 = e div 8" "7 - b mod 8 = 7 - e mod 8"
  proof -
    have "b mod 8 < 8" "e mod 8 < 8" by simp_all
    with that(2) have "b mod 8 = e mod 8" by linarith
    with that(1) show ?thesis by (metis div_mult_mod_eq)
  qed
  then show ?thesis
    using assms by (auto simp: set_extension_bit_def Let_def nth_list_update bit_or_exp_one)
qed

lemma bit_fold_extensions:
  "length r = 8 \<Longrightarrow> b < 64 \<Longrightarrow>
     bit (foldl set_extension_bit r es ! (b div 8)) (7 - b mod 8) \<longleftrightarrow>
       bit (r ! (b div 8)) (7 - b mod 8) \<or> b \<in> set es"
  by (induction es arbitrary: r) (auto simp: bit_set_extension_bit)

text \<open>Extension bits. A handshake built with a list of extension bits reports exactly the bits
  of the list that exist (below 64), through the most-significant-bit-first layout of the
  reserved bytes.
\<close>

theorem has_extension_with_extensions:
  "has_extension (with_extensions info_hash peer_id es) b \<longleftrightarrow> b < 64 \<and> b \<in> set es"
proof (cases "b < 64")
  case True
  then have "replicate 8 (0 :: u8) ! (b div 8) = 0" by (intro nth_replicate) simp
  with True show ?thesis
    by (simp add: has_extension_def with_extensions_def bit_fold_extensions)
qed (simp add: has_extension_def)

end
