(* ===== verification/Piece.thy ===== *)
theory Piece
  imports Rust_Prelude
begin

section \<open>Pieces: the bitfield manager and the selection strategies\<close>

text \<open>
  \<open>piece/manager.rs\<close> and \<open>piece/selector.rs\<close> of \<open>torrent-core\<close>. The trait \<open>PieceSelector\<close>
  is the locale \<open>piece_selector\<close>: its laws are what the download loop relies on, and each of
  the four strategies is an interpretation. The \<open>f64\<close> \<open>progress\<close> is not modelled.
\<close>

subsection \<open>PieceManager\<close>

record PieceManager =
  num_pieces :: nat
  bitfield :: "bool list"

definition piece_manager_new :: "nat \<Rightarrow> PieceManager" where
  "piece_manager_new n = \<lparr>num_pieces = n, bitfield = replicate n False\<rparr>"

definition set_piece :: "PieceManager \<Rightarrow> u32 \<Rightarrow> PieceManager result" where
  "set_piece pm index =
     (let i = unat index in
      if i < num_pieces pm then
        and_then (update_at i (\<lambda>_. True) (bitfield pm)) (\<lambda>bf. Ok (pm\<lparr>bitfield := bf\<rparr>))
      else Ok pm)"

definition has_piece :: "PieceManager \<Rightarrow> u32 \<Rightarrow> bool result" where
  "has_piece pm index =
     (let i = unat index in
      if i < num_pieces pm then index_at (bitfield pm) i else Ok False)"

definition completed_pieces :: "PieceManager \<Rightarrow> u32 list" where
  "completed_pieces pm = map (\<lambda>(i, _). of_nat i) (filter (\<lambda>(_, have). have) (enumerate 0 (bitfield pm)))"

definition missing_pieces :: "PieceManager \<Rightarrow> u32 list" where
  "missing_pieces pm = map (\<lambda>(i, _). of_nat i) (filter (\<lambda>(_, have). \<not> have) (enumerate 0 (bitfield pm)))"

fun to_bitfield_loop :: "(nat \<times> bool) list \<Rightarrow> bytes \<Rightarrow> bytes result" where
  "to_bitfield_loop [] bs = Ok bs"
| "to_bitfield_loop ((i, have) # rest) bs =
     (if have then
        let byte = i div 8; bit = 7 - i mod 8 in
        and_then (update_at byte (\<lambda>b. b OR push_bit bit 1) bs) (to_bitfield_loop rest)
      else to_bitfield_loop rest bs)"

definition to_bitfield :: "PieceManager \<Rightarrow> bytes result" where
  "to_bitfield pm =
     (let byte_count = (num_pieces pm + 7) div 8 in
      to_bitfield_loop (enumerate 0 (bitfield pm)) (replicate byte_count 0))"

definition pm_wf :: "PieceManager \<Rightarrow> bool" where
  "pm_wf pm \<longleftrightarrow> length (bitfield pm) = num_pieces pm"

subsection \<open>Selection strategies\<close>

text \<open>
  \<open>RarestFirst\<close>: the loop over the indices with the best index and count so far;
  \<open>usize::MAX\<close> is \<open>2^64 - 1\<close>.
\<close>

definition rarest_step ::
  "bool list \<Rightarrow> nat list \<Rightarrow> u32 option \<times> nat \<Rightarrow> nat \<Rightarrow> u32 option \<times> nat" where
  "rarest_step our_bitfield availability best i =
     (let (best_idx, best_count) = best in
      if our_bitfield ! i then best
      else let count = availability ! i in
        if count = 0 then best
        else if count < best_count then (Some (of_nat i), count)
        else best)"

definition rarest_first :: "bool list \<Rightarrow> nat list \<Rightarrow> u32 option" where
  "rarest_first our_bitfield availability =
     (let len = min (length our_bitfield) (length availability) in
      fst (foldl (rarest_step our_bitfield availability) (None, 2 ^ 64 - 1) [0..<len]))"

definition piece_candidates :: "bool list \<Rightarrow> nat list \<Rightarrow> nat list" where
  "piece_candidates our_bitfield availability =
     filter (\<lambda>i. \<not> our_bitfield ! i \<and> 0 < availability ! i)
       [0..<min (length our_bitfield) (length availability)]"

text \<open>\<open>rng n\<close> is \<open>random_range(0..n)\<close> of the crate \<open>rand\<close>.\<close>

definition random_first :: "(nat \<Rightarrow> nat) \<Rightarrow> bool list \<Rightarrow> nat list \<Rightarrow> u32 option" where
  "random_first rng our_bitfield availability =
     (let candidates = map of_nat (piece_candidates our_bitfield availability) in
      if candidates = [] then None else Some (candidates ! rng (length candidates)))"

definition sequential :: "bool list \<Rightarrow> nat list \<Rightarrow> u32 option" where
  "sequential our_bitfield availability =
     map_option of_nat
       (find (\<lambda>i. \<not> our_bitfield ! i \<and> 0 < availability ! i)
          [0..<min (length our_bitfield) (length availability)])"

definition end_game :: "bool list \<Rightarrow> nat list \<Rightarrow> u32 option" where
  "end_game our_bitfield availability = sequential our_bitfield availability"

subsection \<open>Properties of the manager\<close>

lemma pm_wf_new [simp]: "pm_wf (piece_manager_new n)"
  by (simp add: pm_wf_def piece_manager_new_def)

lemma set_piece_wf: "pm_wf pm \<Longrightarrow> \<exists>pm'. set_piece pm i = Ok pm' \<and> pm_wf pm' \<and> num_pieces pm' = num_pieces pm"
  by (simp add: set_piece_def pm_wf_def update_at_def Let_def)

lemma has_piece_eq:
  "pm_wf pm \<Longrightarrow> has_piece pm i = Ok (unat i < num_pieces pm \<and> bitfield pm ! unat i)"
  by (simp add: has_piece_def pm_wf_def index_at_def Let_def)

text \<open>Recording a piece. \<open>set_piece\<close> never panics on a manager built by \<open>new\<close> and updated by
  \<open>set_piece\<close>, keeps its length invariant and its piece count, and afterwards exactly the
  pieces held before and the new one, if it exists, are held.
\<close>

theorem set_piece_spec:
  assumes "pm_wf pm"
  shows "\<exists>pm'. set_piece pm i = Ok pm' \<and> pm_wf pm' \<and> num_pieces pm' = num_pieces pm \<and>
           (\<forall>j. has_piece pm' j = Ok (has_piece pm j = Ok True \<or> j = i \<and> unat i < num_pieces pm))"
proof -
  obtain pm' where pm': "set_piece pm i = Ok pm'" "pm_wf pm'" "num_pieces pm' = num_pieces pm"
    using set_piece_wf [OF assms] by blast
  have "bitfield pm' = (if unat i < num_pieces pm then (bitfield pm)[unat i := True] else bitfield pm)"
    using pm'(1) assms by (auto simp: set_piece_def pm_wf_def update_at_def Let_def split: if_splits)
  then have "has_piece pm' j = Ok (has_piece pm j = Ok True \<or> j = i \<and> unat i < num_pieces pm)" for j
    using pm' assms by (auto simp: has_piece_eq pm_wf_def nth_list_update word_unat_eq_iff)
  with pm' show ?thesis by blast
qed

theorem set_piece_spec_witness:
  "\<exists>pm'. set_piece (piece_manager_new 10) 3 = Ok pm' \<and> pm_wf pm' \<and>
     num_pieces pm' = num_pieces (piece_manager_new 10) \<and>
     (\<forall>j. has_piece pm' j
        = Ok (has_piece (piece_manager_new 10) j = Ok True \<or> j = 3 \<and> unat (3 :: u32) < num_pieces (piece_manager_new 10)))"
  by (rule set_piece_spec) simp

lemma completed_eq:
  "completed_pieces pm = map of_nat (filter (\<lambda>i. bitfield pm ! i) [0..<length (bitfield pm)])"
  by (simp add: completed_pieces_def enumerate_map filter_map comp_def)

lemma missing_eq:
  "missing_pieces pm = map of_nat (filter (\<lambda>i. \<not> bitfield pm ! i) [0..<length (bitfield pm)])"
  by (simp add: missing_pieces_def enumerate_map filter_map comp_def)

lemma unat_of_nat_u32: "i < n \<Longrightarrow> n \<le> 2 ^ 32 \<Longrightarrow> unat (of_nat i :: u32) = i"
  by (simp add: unat_of_nat)

lemma in_index_list_iff:
  assumes "length bf \<le> 2 ^ 32"
  shows "(i :: u32) \<in> set (map of_nat (filter P [0..<length bf])) \<longleftrightarrow> unat i < length bf \<and> P (unat i)"
proof
  assume "i \<in> set (map of_nat (filter P [0..<length bf]))"
  then obtain k where "i = of_nat k" "k < length bf" "P k" by auto
  with assms show "unat i < length bf \<and> P (unat i)"
    by (simp add: unat_of_nat_u32)
next
  assume "unat i < length bf \<and> P (unat i)"
  then show "i \<in> set (map of_nat (filter P [0..<length bf]))"
    by (auto intro!: image_eqI [of _ _ "unat i"])
qed

text \<open>Completed and missing pieces. For a torrent whose piece indices fit in 32 bits, the two
  lists name exactly the held pieces and exactly the pieces not held, in increasing order, and
  together they have one entry per piece.
\<close>

theorem completed_missing_spec:
  assumes "pm_wf pm" and "num_pieces pm \<le> 2 ^ 32"
  shows "(\<forall>i. i \<in> set (completed_pieces pm) \<longleftrightarrow> has_piece pm i = Ok True) \<and>
         (\<forall>i. i \<in> set (missing_pieces pm) \<longleftrightarrow> has_piece pm i = Ok False \<and> unat i < num_pieces pm) \<and>
         sorted_wrt (<) (completed_pieces pm) \<and> sorted_wrt (<) (missing_pieces pm) \<and>
         length (completed_pieces pm) + length (missing_pieces pm) = num_pieces pm"
proof -
  let ?bf = "bitfield pm"
  have len: "length ?bf = num_pieces pm" "length ?bf \<le> 2 ^ 32"
    using assms by (simp_all add: pm_wf_def)
  have sorted: "sorted_wrt (<) (map (of_nat :: nat \<Rightarrow> u32) (filter P [0..<length ?bf]))" for P
  proof -
    have "sorted_wrt (<) (filter P [0..<length ?bf])"
      by (simp add: sorted_wrt_filter)
    then show ?thesis
      unfolding sorted_wrt_map
      by (rule sorted_wrt_mono_rel [rotated])
        (use len(2) in \<open>auto simp: word_less_nat_alt unat_of_nat_u32\<close>)
  qed
  have "length (filter (\<lambda>i. ?bf ! i) [0..<length ?bf]) + length (filter (\<lambda>i. \<not> ?bf ! i) [0..<length ?bf])
      = length ?bf"
    using sum_length_filter_compl [of "\<lambda>i. ?bf ! i" "[0..<length ?bf]"] by simp
  then have count: "length (completed_pieces pm) + length (missing_pieces pm) = num_pieces pm"
    using len(1) by (simp add: completed_eq missing_eq)
  have c: "i \<in> set (completed_pieces pm) \<longleftrightarrow> has_piece pm i = Ok True" for i
    by (simp only: completed_eq in_index_list_iff [OF len(2)] has_piece_eq [OF assms(1)]) (simp add: len(1))
  have m: "i \<in> set (missing_pieces pm) \<longleftrightarrow> has_piece pm i = Ok False \<and> unat i < num_pieces pm" for i
    by (simp only: missing_eq in_index_list_iff [OF len(2)] has_piece_eq [OF assms(1)]) (auto simp: len(1))
  show ?thesis
    using c m count sorted by (simp only: completed_eq missing_eq) blast
qed

theorem completed_missing_spec_witness:
  "completed_pieces \<lparr>num_pieces = 3, bitfield = [True, False, True]\<rparr> = [0, 2] \<and>
   sorted_wrt (<) (completed_pieces \<lparr>num_pieces = 3, bitfield = [True, False, True]\<rparr>)"
proof -
  let ?pm = "\<lparr>num_pieces = 3, bitfield = [True, False, True]\<rparr>"
  have "pm_wf ?pm" "num_pieces ?pm \<le> 2 ^ 32" by (simp_all add: pm_wf_def)
  from completed_missing_spec [OF this] show ?thesis
    by (simp add: completed_pieces_def)
qed

lemma div_mod_8_inject: "i div 8 = j div 8 \<Longrightarrow> 7 - i mod 8 = 7 - j mod 8 \<Longrightarrow> i = (j :: nat)"
proof -
  assume d: "i div 8 = j div 8" and m: "7 - i mod 8 = 7 - j mod 8"
  have "i mod 8 < 8" "j mod 8 < 8" by simp_all
  with m have "i mod 8 = j mod 8" by linarith
  with d show ?thesis by (metis div_mult_mod_eq)
qed

lemma to_bitfield_loop_spec:
  assumes "\<forall>(i, have) \<in> set xs. i < 8 * length bs"
  shows "\<exists>bs'. to_bitfield_loop xs bs = Ok bs' \<and> length bs' = length bs \<and>
           (\<forall>j < 8 * length bs. bit (bs' ! (j div 8)) (7 - j mod 8)
              \<longleftrightarrow> bit (bs ! (j div 8)) (7 - j mod 8) \<or> (j, True) \<in> set xs)"
  using assms
proof (induction xs bs rule: to_bitfield_loop.induct)
  case (1 bs)
  then show ?case by simp
next
  case (2 i have_it rest bs)
  show ?case
  proof (cases have_it)
    case False
    with 2 show ?thesis by auto
  next
    case True
    let ?bs = "bs[i div 8 := bs ! (i div 8) OR push_bit (7 - i mod 8) 1]"
    have i: "i div 8 < length bs" using "2.prems" by auto
    obtain bs' where bs': "to_bitfield_loop rest ?bs = Ok bs'" "length bs' = length bs"
      and bits: "\<forall>j < 8 * length bs. bit (bs' ! (j div 8)) (7 - j mod 8)
              \<longleftrightarrow> bit (?bs ! (j div 8)) (7 - j mod 8) \<or> (j, True) \<in> set rest"
    proof -
      have "update_at (i div 8) (\<lambda>b. b OR push_bit (7 - i mod 8) 1) bs = Ok ?bs"
        using i by (simp add: update_at_def)
      from "2.IH"(1) [OF True refl refl this] "2.prems" that show thesis by auto
    qed
    have "bit (?bs ! (j div 8)) (7 - j mod 8) \<longleftrightarrow> bit (bs ! (j div 8)) (7 - j mod 8) \<or> j = i" for j
      using i div_mod_8_inject [of j i] by (auto simp: nth_list_update bit_or_exp_one)
    with True i bs' bits show ?thesis
      by (auto simp: update_at_def Let_def)
  qed
qed

lemma to_bitfield_bits:
  assumes "pm_wf pm"
  shows "\<exists>bs. to_bitfield pm = Ok bs \<and> length bs = (num_pieces pm + 7) div 8 \<and>
           (\<forall>j < 8 * length bs. bit (bs ! (j div 8)) (7 - j mod 8) \<longleftrightarrow> j < num_pieces pm \<and> bitfield pm ! j)"
proof -
  let ?bs = "replicate ((num_pieces pm + 7) div 8) (0 :: byte)"
  have "\<forall>(i, have) \<in> set (enumerate 0 (bitfield pm)). i < 8 * length ?bs"
    using assms by (auto simp: enumerate_map pm_wf_def)
  from to_bitfield_loop_spec [OF this] obtain bs where
    "to_bitfield_loop (enumerate 0 (bitfield pm)) ?bs = Ok bs" "length bs = length ?bs"
    "\<forall>j < 8 * length ?bs. bit (bs ! (j div 8)) (7 - j mod 8)
       \<longleftrightarrow> bit (?bs ! (j div 8)) (7 - j mod 8) \<or> (j, True) \<in> set (enumerate 0 (bitfield pm))"
    by blast
  moreover have "?bs ! (j div 8) = 0" if "j < 8 * length ?bs" for j
    using that by (intro nth_replicate) auto
  moreover have "(j, True) \<in> set (enumerate 0 (bitfield pm)) \<longleftrightarrow> j < num_pieces pm \<and> bitfield pm ! j" for j
    using assms by (auto simp: enumerate_map pm_wf_def)
  ultimately show ?thesis
    by (simp add: to_bitfield_def Let_def)
qed

text \<open>The wire bitfield. \<open>to_bitfield\<close> succeeds, has \<open>ceil(n/8)\<close> bytes, and bit \<open>i\<close> counted
  from the most significant bit of the first byte is set exactly when piece \<open>i\<close> is held, the
  spare bits behind the last piece being zero.
\<close>

theorem to_bitfield_spec:
  assumes "pm_wf pm"
  shows "\<exists>bs. to_bitfield pm = Ok bs \<and> length bs = (num_pieces pm + 7) div 8 \<and>
           (\<forall>j < 8 * length bs. bit (bs ! (j div 8)) (7 - j mod 8) \<longleftrightarrow> j < num_pieces pm \<and> bitfield pm ! j)"
  using assms by (rule to_bitfield_bits)

theorem to_bitfield_spec_witness:
  "\<exists>bs. to_bitfield \<lparr>num_pieces = 2, bitfield = [True, False]\<rparr> = Ok bs \<and> length bs = 1 \<and>
     bit (bs ! 0) 7 \<and> \<not> bit (bs ! 0) 6 \<and> \<not> bit (bs ! 0) 0"
proof -
  have "pm_wf \<lparr>num_pieces = 2, bitfield = [True, False]\<rparr>" by (simp add: pm_wf_def)
  from to_bitfield_spec [OF this] obtain bs where
    bs: "to_bitfield \<lparr>num_pieces = 2, bitfield = [True, False]\<rparr> = Ok bs" "length bs = 1"
    and bits: "\<And>j. j < 8 \<Longrightarrow> bit (bs ! (j div 8)) (7 - j mod 8) \<longleftrightarrow> j < 2 \<and> [True, False] ! j"
    by auto
  show ?thesis using bs bits [of 0] bits [of 1] bits [of 7] by auto
qed

subsection \<open>The contract of a selection strategy\<close>

text \<open>
  \<open>piece_candidate\<close> is a piece that is not held and that some peer has. Piece indices are
  32-bit on the wire and availability counts connected peers, hence \<open>selector_input\<close>.
\<close>

definition piece_candidate :: "bool list \<Rightarrow> nat list \<Rightarrow> nat \<Rightarrow> bool" where
  "piece_candidate our_bitfield availability i \<longleftrightarrow>
     i < length our_bitfield \<and> i < length availability \<and> \<not> our_bitfield ! i \<and> 0 < availability ! i"

definition selector_input :: "bool list \<Rightarrow> nat list \<Rightarrow> bool" where
  "selector_input our_bitfield availability \<longleftrightarrow>
     length our_bitfield \<le> 2 ^ 32 \<and> (\<forall>c \<in> set availability. c < 2 ^ 64 - 1)"

definition num_candidates :: "bool list \<Rightarrow> nat list \<Rightarrow> nat" where
  "num_candidates our_bitfield availability = length (piece_candidates our_bitfield availability)"

text \<open>
  \<open>download_loop\<close> is the client: select a piece, fetch it, mark it held, repeat. Its fuel is
  the number of candidates.
\<close>

primrec download_loop ::
  "(bool list \<Rightarrow> nat list \<Rightarrow> u32 option) \<Rightarrow> nat \<Rightarrow> bool list \<Rightarrow> nat list \<Rightarrow> u32 list" where
  "download_loop select 0 bf av = []"
| "download_loop select (Suc n) bf av =
     (case select bf av of None \<Rightarrow> []
      | Some i \<Rightarrow> i # download_loop select n (bf[unat i := True]) av)"

definition download_with ::
  "(bool list \<Rightarrow> nat list \<Rightarrow> u32 option) \<Rightarrow> bool list \<Rightarrow> nat list \<Rightarrow> u32 list" where
  "download_with select bf av = download_loop select (num_candidates bf av) bf av"

lemma set_piece_candidates: "set (piece_candidates bf av) = {i. piece_candidate bf av i}"
  by (auto simp: piece_candidates_def piece_candidate_def)

lemma num_candidates_card: "num_candidates bf av = card {i. piece_candidate bf av i}"
  unfolding num_candidates_def set_piece_candidates [symmetric]
  by (rule distinct_card [symmetric]) (simp add: piece_candidates_def)

locale piece_selector =
  fixes select :: "bool list \<Rightarrow> nat list \<Rightarrow> u32 option"
  assumes select_sound:
      "selector_input bf av \<Longrightarrow> select bf av = Some i \<Longrightarrow> piece_candidate bf av (unat i)"
    and select_complete:
      "selector_input bf av \<Longrightarrow> select bf av = None \<Longrightarrow> \<not> piece_candidate bf av j"
begin

lemma select_None_iff:
  "selector_input bf av \<Longrightarrow> select bf av = None \<longleftrightarrow> num_candidates bf av = 0"
proof
  assume *: "selector_input bf av" "select bf av = None"
  then have "{i. piece_candidate bf av i} = {}" using select_complete by blast
  then show "num_candidates bf av = 0" by (simp add: num_candidates_card)
next
  assume *: "selector_input bf av" "num_candidates bf av = 0"
  have "finite {i. piece_candidate bf av i}"
    unfolding set_piece_candidates [symmetric] by simp
  with * have "\<not> piece_candidate bf av i" for i
    by (simp add: num_candidates_card)
  with select_sound [OF *(1)] show "select bf av = None" by (cases "select bf av") blast+
qed

lemma input_update: "selector_input bf av \<Longrightarrow> selector_input (bf[i := True]) av"
  by (simp add: selector_input_def)

lemma candidates_update:
  "{j. piece_candidate (bf[i := True]) av j} = {j. piece_candidate bf av j} - {i}"
  by (cases "i < length bf") (auto simp: piece_candidate_def nth_list_update split: if_splits)

lemma select_progress:
  assumes "selector_input bf av" and "select bf av = Some i"
  shows "Suc (num_candidates (bf[unat i := True]) av) = num_candidates bf av"
proof -
  have "finite {i. piece_candidate bf av i}"
    unfolding set_piece_candidates [symmetric] by simp
  with select_sound [OF assms] show ?thesis
    by (simp only: num_candidates_card candidates_update)
       (metis card_Suc_Diff1 mem_Collect_eq)
qed

lemma download_complete:
  assumes "selector_input bf av"
  shows "unat ` set (download_with select bf av) = {i. piece_candidate bf av i}
     \<and> distinct (download_with select bf av)"
  using assms
unfolding download_with_def
proof (induction "num_candidates bf av" arbitrary: bf)
  case 0
  then have "select bf av = None" by (simp add: select_None_iff)
  with 0 show ?case using select_complete by auto
next
  case (Suc n)
  then obtain i where i: "select bf av = Some i"
    using select_None_iff [of bf av] by (cases "select bf av") auto
  let ?bf = "bf[unat i := True]"
  have n: "num_candidates ?bf av = n"
    using select_progress [OF Suc.prems i] Suc.hyps(2) by simp
  have IH: "unat ` set (download_loop select n ?bf av) = {j. piece_candidate ?bf av j}" "distinct (download_loop select n ?bf av)"
    using Suc.hyps(1) [OF n [symmetric] input_update [OF Suc.prems]] n by simp_all
  have "i \<notin> set (download_loop select n ?bf av)"
    using IH(1) by (auto simp: candidates_update)
  moreover have "piece_candidate bf av (unat i)" using select_sound [OF Suc.prems i] .
  ultimately show ?case
    using IH i Suc.hyps(2) [symmetric] by (auto simp: candidates_update)
qed

end

subsection \<open>The four strategies satisfy it\<close>

lemma candidate_u32:
  "selector_input bf av \<Longrightarrow> piece_candidate bf av i \<Longrightarrow> unat (of_nat i :: u32) = i"
  by (rule unat_of_nat_u32 [of _ "length bf"]) (simp_all add: selector_input_def piece_candidate_def)

lemma sequential_eq:
  "sequential bf av = map_option of_nat (find (piece_candidate bf av) [0..<min (length bf) (length av)])"
proof -
  have "find (\<lambda>i. \<not> bf ! i \<and> 0 < av ! i) xs = find (piece_candidate bf av) xs"
    if "\<forall>i \<in> set xs. i < length bf \<and> i < length av" for xs
    using that by (induction xs) (auto simp: piece_candidate_def)
  then show ?thesis by (simp add: sequential_def)
qed

lemma find_upt_Some: "find P [0..<n] = Some i \<Longrightarrow> i < n \<and> P i \<and> (\<forall>j < i. \<not> P j)"
  by (auto simp: find_Some_iff)

lemma sequential_sound:
  "sequential bf av = Some i \<Longrightarrow> \<exists>k. i = of_nat k \<and> piece_candidate bf av k \<and> (\<forall>j < k. \<not> piece_candidate bf av j)"
  by (auto simp: sequential_eq dest: find_upt_Some)

lemma sequential_None: "sequential bf av = None \<Longrightarrow> \<not> piece_candidate bf av i"
  by (auto simp: sequential_eq find_None_iff piece_candidate_def)

interpretation seq: piece_selector sequential
  by unfold_locales (auto dest!: sequential_sound sequential_None simp: candidate_u32)

interpretation endg: piece_selector end_game
  unfolding end_game_def [abs_def] by (rule seq.piece_selector_axioms)

text \<open>The law of \<open>random_range(0..n)\<close> that the code relies on.\<close>

definition rng_in_range :: "(nat \<Rightarrow> nat) \<Rightarrow> bool" where
  "rng_in_range rng \<longleftrightarrow> (\<forall>n > 0. rng n < n)"

lemma random_first_selector:
  assumes "rng_in_range rng"
  shows "piece_selector (random_first rng)"
proof
  fix bf av i
  assume input: "selector_input bf av" and sel: "random_first rng bf av = Some i"
  let ?cs = "piece_candidates bf av"
  from sel have ne: "?cs \<noteq> []" and i: "i = map of_nat ?cs ! rng (length ?cs)"
    by (auto simp: random_first_def Let_def split: if_splits)
  have "rng (length ?cs) < length ?cs" using assms ne by (simp add: rng_in_range_def)
  then have "i = of_nat (?cs ! rng (length ?cs))" "?cs ! rng (length ?cs) \<in> set ?cs"
    using i by simp_all
  then show "piece_candidate bf av (unat i)"
    using candidate_u32 [OF input] by (simp add: set_piece_candidates)
next
  fix bf av i
  assume "random_first rng bf av = None"
  then have "set (piece_candidates bf av) = {}"
    by (simp add: random_first_def Let_def split: if_splits)
  then show "\<not> piece_candidate bf av i" by (simp add: set_piece_candidates)
qed

interpretation rnd: piece_selector "random_first (\<lambda>n. seed mod n)"
  by (rule random_first_selector) (simp add: rng_in_range_def)

subsection \<open>Rarest first\<close>

definition rarest_inv :: "bool list \<Rightarrow> nat list \<Rightarrow> nat \<Rightarrow> u32 option \<times> nat \<Rightarrow> bool" where
  "rarest_inv bf av n best \<longleftrightarrow>
     (case fst best of
        None \<Rightarrow> snd best = 2 ^ 64 - 1 \<and> (\<forall>j < n. \<not> piece_candidate bf av j)
      | Some i \<Rightarrow> (\<exists>k < n. i = of_nat k \<and> piece_candidate bf av k \<and> snd best = av ! k \<and>
          (\<forall>j < n. piece_candidate bf av j \<longrightarrow> av ! k \<le> av ! j \<and> (j < k \<longrightarrow> av ! k < av ! j))))"

lemma rarest_step_inv:
  assumes inv: "rarest_inv bf av n best" and input: "selector_input bf av"
    and n: "n < min (length bf) (length av)"
  shows "rarest_inv bf av (Suc n) (rarest_step bf av best n)"
proof -
  obtain idx cnt where best: "best = (idx, cnt)" by (cases best)
  have "av ! n < 2 ^ 64 - 1" using input n by (auto simp: selector_input_def)
  moreover have cand: "piece_candidate bf av n \<longleftrightarrow> \<not> bf ! n \<and> 0 < av ! n"
    using n by (simp add: piece_candidate_def)
  ultimately show ?thesis
  proof (cases idx)
    case None
    with inv best \<open>av ! n < 2 ^ 64 - 1\<close> cand show ?thesis
      by (auto simp: rarest_inv_def rarest_step_def Let_def less_Suc_eq simp del: of_nat_eq_iff)
  next
    case (Some i)
    with inv best obtain k where k: "k < n" "i = of_nat k" "piece_candidate bf av k" "cnt = av ! k"
      "\<forall>j < n. piece_candidate bf av j \<longrightarrow> av ! k \<le> av ! j \<and> (j < k \<longrightarrow> av ! k < av ! j)"
      by (auto simp: rarest_inv_def)
    show ?thesis
    proof (cases "piece_candidate bf av n \<and> av ! n < cnt")
      case True
      then have "rarest_step bf av best n = (Some (of_nat n), av ! n)"
        using best cand by (simp add: rarest_step_def)
      with True k show ?thesis
        by (auto simp: rarest_inv_def less_Suc_eq intro!: exI [of _ n])
    next
      case False
      then have "rarest_step bf av best n = best"
        using best cand by (auto simp: rarest_step_def Let_def)
      with False k best Some show ?thesis
        by (auto simp: rarest_inv_def less_Suc_eq intro!: exI [of _ k])
    qed
  qed
qed

lemma rarest_first_inv:
  assumes "selector_input bf av"
  shows "\<exists>cnt. rarest_inv bf av (min (length bf) (length av)) (rarest_first bf av, cnt)"
proof -
  have "rarest_inv bf av n (foldl (rarest_step bf av) (None, 2 ^ 64 - 1) [0..<n])"
    if "n \<le> min (length bf) (length av)" for n
    using that
  proof (induction n)
    case 0
    then show ?case by (simp add: rarest_inv_def)
  next
    case (Suc n)
    then show ?case using rarest_step_inv [OF _ assms, of n] by simp
  qed
  from this [OF order_refl] show ?thesis
    unfolding rarest_first_def Let_def by (metis prod.collapse)
qed

lemma rarest_first_Some:
  assumes "selector_input bf av" and "rarest_first bf av = Some i"
  shows "piece_candidate bf av (unat i)"
    and "piece_candidate bf av j \<Longrightarrow> av ! unat i \<le> av ! j \<and> (j < unat i \<longrightarrow> av ! unat i < av ! j)"
proof -
  obtain k where k: "i = of_nat k" "piece_candidate bf av k"
    "\<forall>j < min (length bf) (length av). piece_candidate bf av j \<longrightarrow>
       av ! k \<le> av ! j \<and> (j < k \<longrightarrow> av ! k < av ! j)"
    using rarest_first_inv [OF assms(1)] assms(2) by (auto simp: rarest_inv_def)
  then have "unat i = k" using candidate_u32 [OF assms(1)] by simp
  with k show "piece_candidate bf av (unat i)"
    and "piece_candidate bf av j \<Longrightarrow> av ! unat i \<le> av ! j \<and> (j < unat i \<longrightarrow> av ! unat i < av ! j)"
    by (auto simp: piece_candidate_def)
qed

interpretation rarest: piece_selector rarest_first
proof
  fix bf av i
  assume "selector_input bf av" "rarest_first bf av = Some i"
  then show "piece_candidate bf av (unat i)" by (rule rarest_first_Some)
next
  fix bf av i
  assume "selector_input bf av" "rarest_first bf av = None"
  with rarest_first_inv [of bf av] show "\<not> piece_candidate bf av i"
    by (auto simp: rarest_inv_def piece_candidate_def)
qed

text \<open>Rarest first. The strategy answers None exactly when no missing piece is available;
  otherwise it answers a missing available piece that the fewest peers have, and of these the
  one with the lowest index.
\<close>

theorem rarest_first_spec:
  assumes "selector_input bf av"
  shows "case rarest_first bf av of
           None \<Rightarrow> (\<forall>j. \<not> piece_candidate bf av j)
         | Some i \<Rightarrow> piece_candidate bf av (unat i) \<and>
             (\<forall>j. piece_candidate bf av j \<longrightarrow>
                av ! unat i \<le> av ! j \<and> (j < unat i \<longrightarrow> av ! unat i < av ! j))"
  using rarest_first_Some [OF assms] rarest.select_complete [OF assms]
  by (auto split: option.split)

theorem rarest_first_spec_witness:
  "rarest_first [False, True, False, False] [3, 1, 2, 2] = Some 2 \<and>
   piece_candidate [False, True, False, False] [3, 1, 2, 2] (unat (2 :: u32))"
proof -
  have "selector_input [False, True, False, False] [3, 1, 2, 2]"
    by (simp add: selector_input_def)
  from rarest_first_spec [OF this] show ?thesis
    by (simp add: rarest_first_def rarest_step_def upt_rec)
qed

text \<open>A download driven by a strategy ends. Repeatedly selecting with rarest-first, sequential,
  end-game or random selection (for any in-range source of random numbers) and marking the
  selected piece as held selects every missing available piece exactly once.
\<close>

theorem download_all_strategies:
  assumes "selector_input bf av" and "rng_in_range rng"
    and "select \<in> {rarest_first, sequential, end_game, random_first rng}"
  shows "unat ` set (download_with select bf av) = {i. piece_candidate bf av i}
     \<and> distinct (download_with select bf av)"
proof -
  have "piece_selector select"
    using assms(3) rarest.piece_selector_axioms seq.piece_selector_axioms
      endg.piece_selector_axioms random_first_selector [OF assms(2)] by blast
  then show ?thesis by (rule piece_selector.download_complete [OF _ assms(1)])
qed

theorem download_all_strategies_witness:
  "unat ` set (download_with (random_first (\<lambda>n. 1 mod n)) [False, True, False] [2, 1, 1]) = {0, 2 :: nat}"
proof -
  let ?bf = "[False, True, False]" and ?av = "[2, 1, 1]"
  have "selector_input ?bf ?av" and "rng_in_range (\<lambda>n. 1 mod n)"
    by (simp_all add: selector_input_def rng_in_range_def)
  from download_all_strategies [OF this, of "random_first (\<lambda>n. 1 mod n)"]
  have "unat ` set (download_with (random_first (\<lambda>n. 1 mod n)) ?bf ?av) = {i. piece_candidate ?bf ?av i}"
    by simp
  also have "\<dots> = {0, 2}"
    by (simp add: set_piece_candidates [symmetric] piece_candidates_def upt_rec numeral_2_eq_2)
  finally show ?thesis .
qed

end
