(* ===== verification/Net_Addr.thy ===== *)
theory Net_Addr
  imports Rust_Prelude
begin

section \<open>Socket addresses and fixed-size record codecs\<close>

text \<open>
  The part of \<open>std::net\<close> the crates use: \<open>IpAddr\<close>, \<open>SocketAddr\<close>, the text parsers, and the
  locale \<open>record_codec\<close> shared by every compact list of the protocol (peers of BEP 23 and
  BEP 7, DHT nodes of BEP 5 and BEP 32): a concatenation of records of one fixed size.
\<close>

type_synonym ipv4 = "32 word"
type_synonym ipv6 = "128 word"

datatype IpAddr = V4 ipv4 | V6 ipv6

datatype SocketAddr = SocketAddr (sa_ip: IpAddr) (sa_port: u16)

fun is_v4 :: "SocketAddr \<Rightarrow> bool" where
  "is_v4 (SocketAddr (V4 _) _) = True"
| "is_v4 (SocketAddr (V6 _) _) = False"

abbreviation is_v6 :: "SocketAddr \<Rightarrow> bool" where
  "is_v6 a \<equiv> \<not> is_v4 a"

subsection \<open>Compact address records\<close>

definition addr4_to_bytes :: "ipv4 \<Rightarrow> u16 \<Rightarrow> bytes" where
  "addr4_to_bytes ip port = to_be_bytes ip @ to_be_bytes port"

definition addr6_to_bytes :: "ipv6 \<Rightarrow> u16 \<Rightarrow> bytes" where
  "addr6_to_bytes ip port = to_be_bytes ip @ to_be_bytes port"

definition addr4_from_chunk :: "bytes \<Rightarrow> SocketAddr" where
  "addr4_from_chunk c = SocketAddr (V4 (from_be_bytes (take 4 c))) (from_be_bytes (take 2 (drop 4 c)))"

definition addr6_from_chunk :: "bytes \<Rightarrow> SocketAddr" where
  "addr6_from_chunk c = SocketAddr (V6 (from_be_bytes (take 16 c))) (from_be_bytes (take 2 (drop 16 c)))"

fun addr_to_bytes :: "SocketAddr \<Rightarrow> bytes" where
  "addr_to_bytes (SocketAddr (V4 ip) port) = addr4_to_bytes ip port"
| "addr_to_bytes (SocketAddr (V6 ip) port) = addr6_to_bytes ip port"

subsection \<open>Codecs of fixed-size records\<close>

locale record_codec =
  fixes size :: nat and ok :: "'a \<Rightarrow> bool" and enc :: "'a \<Rightarrow> bytes" and dec :: "bytes \<Rightarrow> 'a"
  assumes size_pos: "0 < size"
    and length_enc: "ok a \<Longrightarrow> length (enc a) = size"
    and dec_enc: "ok a \<Longrightarrow> dec (enc a) = a"
    and enc_dec: "length b = size \<Longrightarrow> enc (dec b) = b"
    and ok_dec: "length b = size \<Longrightarrow> ok (dec b)"
begin

lemma length_concat_enc: "list_all ok xs \<Longrightarrow> length (concat (map enc xs)) = size * length xs"
  by (induction xs) (simp_all add: length_enc)

lemma decode_all: "list_all ok xs \<Longrightarrow> map dec (chunks_exact size (concat (map enc xs))) = xs"
  by (subst chunks_exact_concat)
    (auto simp: size_pos length_enc list_all_iff dec_enc intro!: map_idI)

lemma encode_all:
  assumes "size dvd length bs"
  shows "concat (map enc (map dec (chunks_exact size bs))) = bs"
proof -
  have "map enc (map dec (chunks_exact size bs)) = chunks_exact size bs"
    by (auto intro!: map_idI simp: enc_dec length_chunk)
  with assms show ?thesis by (simp add: concat_chunks_exact size_pos)
qed

lemma all_ok: "list_all ok (map dec (chunks_exact size bs))"
  by (auto simp: list_all_iff ok_dec length_chunk)

lemma enc_dvd: "list_all ok xs \<Longrightarrow> size dvd length (concat (map enc xs))"
  by (simp add: length_concat_enc)

end

lemma addr4_bytes: "length c = 6 \<Longrightarrow> addr_to_bytes (addr4_from_chunk c) = c"
proof -
  assume "length c = 6"
  then have "drop 4 c = take 2 (drop 4 c)" by simp
  then have "c = take 4 c @ take 2 (drop 4 c)" by (metis append_take_drop_id)
  with \<open>length c = 6\<close> show ?thesis
    by (simp add: addr4_from_chunk_def addr4_to_bytes_def to_from_be_bytes)
qed

lemma addr6_bytes: "length c = 18 \<Longrightarrow> addr_to_bytes (addr6_from_chunk c) = c"
proof -
  assume "length c = 18"
  then have "drop 16 c = take 2 (drop 16 c)" by simp
  then have "c = take 16 c @ take 2 (drop 16 c)" by (metis append_take_drop_id)
  with \<open>length c = 18\<close> show ?thesis
    by (simp add: addr6_from_chunk_def addr6_to_bytes_def to_from_be_bytes)
qed

interpretation compact4: record_codec 6 is_v4 addr_to_bytes addr4_from_chunk
proof
  fix a assume "is_v4 a"
  then obtain ip port where "a = SocketAddr (V4 ip) port" by (cases a rule: is_v4.cases) auto
  then show "length (addr_to_bytes a) = 6" "addr4_from_chunk (addr_to_bytes a) = a"
    by (simp_all add: addr4_to_bytes_def addr4_from_chunk_def codec_simps)
next
  fix b :: bytes assume "length b = 6"
  then show "addr_to_bytes (addr4_from_chunk b) = b" by (rule addr4_bytes)
  show "is_v4 (addr4_from_chunk b)" by (simp add: addr4_from_chunk_def)
qed simp

interpretation compact6: record_codec 18 is_v6 addr_to_bytes addr6_from_chunk
proof
  fix a assume "is_v6 a"
  then obtain ip port where "a = SocketAddr (V6 ip) port" by (cases a rule: is_v4.cases) auto
  then show "length (addr_to_bytes a) = 18" "addr6_from_chunk (addr_to_bytes a) = a"
    by (simp_all add: addr6_to_bytes_def addr6_from_chunk_def codec_simps)
next
  fix b :: bytes assume "length b = 18"
  then show "addr_to_bytes (addr6_from_chunk b) = b" by (rule addr6_bytes)
  show "is_v6 (addr6_from_chunk b)" by (simp add: addr6_from_chunk_def)
qed simp

subsection \<open>Text parsers of addresses\<close>

text \<open>
  The parser of \<open>core::net\<close>: each reader consumes a prefix or fails without consuming.
\<close>

definition to_digit :: "nat \<Rightarrow> byte \<Rightarrow> nat option" where
  "to_digit radix b =
     (let n = unat b;
          d = if 48 \<le> n \<and> n \<le> 57 then n - 48
              else if 97 \<le> n \<and> n \<le> 122 then n - 87
              else if 65 \<le> n \<and> n \<le> 90 then n - 55 else radix
      in if d < radix then Some d else None)"

fun read_digits :: "nat \<Rightarrow> bytes \<Rightarrow> nat list \<times> bytes" where
  "read_digits radix [] = ([], [])"
| "read_digits radix (b # bs) =
     (case to_digit radix b of
        Some d \<Rightarrow> (let (ds, rest) = read_digits radix bs in (d # ds, rest))
      | None \<Rightarrow> ([], b # bs))"

definition read_number :: "nat \<Rightarrow> nat \<Rightarrow> bool \<Rightarrow> nat \<Rightarrow> bytes \<Rightarrow> (nat \<times> bytes) option" where
  "read_number radix max_digits allow_zero_prefix limit bs =
     (let (ds, rest) = read_digits radix bs; val = foldl (\<lambda>acc d. acc * radix + d) 0 ds in
      if ds = [] \<or> max_digits < length ds \<or> limit \<le> val \<or>
         (\<not> allow_zero_prefix \<and> 1 < length ds \<and> hd bs = 48)
      then None else Some (val, rest))"

definition read_separator ::
  "byte \<Rightarrow> nat \<Rightarrow> (bytes \<Rightarrow> ('a \<times> bytes) option) \<Rightarrow> bytes \<Rightarrow> ('a \<times> bytes) option" where
  "read_separator sep i p bs =
     (if i = 0 then p bs
      else case bs of [] \<Rightarrow> None | b # rest \<Rightarrow> (if b = sep then p rest else None))"

definition read_octet :: "nat \<Rightarrow> bytes \<Rightarrow> (nat \<times> bytes) option" where
  "read_octet i = read_separator 46 i (read_number 10 3 False 256)"

definition read_ipv4 :: "bytes \<Rightarrow> (ipv4 \<times> bytes) option" where
  "read_ipv4 bs =
     Option.bind (read_octet 0 bs) (\<lambda>(a, bs).
     Option.bind (read_octet 1 bs) (\<lambda>(b, bs).
     Option.bind (read_octet 2 bs) (\<lambda>(c, bs).
     Option.bind (read_octet 3 bs) (\<lambda>(d, bs).
       Some (of_nat (((a * 256 + b) * 256 + c) * 256 + d), bs)))))"

text \<open>\<open>read_groups limit i\<close> reads up to \<open>limit\<close> groups, the next being number \<open>i\<close>.\<close>

function read_groups :: "nat \<Rightarrow> nat \<Rightarrow> bytes \<Rightarrow> nat list \<times> bool \<times> bytes" where
  "read_groups limit i bs =
     (if limit \<le> i then ([], False, bs)
      else case (if i + 1 < limit then read_separator 58 i read_ipv4 bs else None) of
        Some (ip, rest) \<Rightarrow> ([unat ip div 2 ^ 16, unat ip mod 2 ^ 16], True, rest)
      | None \<Rightarrow>
          (case read_separator 58 i (read_number 16 4 True (2 ^ 16)) bs of
             None \<Rightarrow> ([], False, bs)
           | Some (g, rest) \<Rightarrow>
               (let (gs, v4, rest) = read_groups limit (Suc i) rest in (g # gs, v4, rest))))"
  by pat_completeness auto
termination by (relation "measure (\<lambda>(limit, i, _). limit - i)") auto

declare read_groups.simps [simp del]

definition groups_to_ipv6 :: "nat list \<Rightarrow> ipv6" where
  "groups_to_ipv6 gs = of_nat (foldl (\<lambda>acc g. acc * 2 ^ 16 + g) 0 gs)"

definition read_ipv6 :: "bytes \<Rightarrow> (ipv6 \<times> bytes) option" where
  "read_ipv6 bs =
     (let (head, head_v4, bs) = read_groups 8 0 bs in
      if length head = 8 then Some (groups_to_ipv6 head, bs)
      else if head_v4 then None
      else case bs of
        c1 # c2 # bs \<Rightarrow>
          if c1 = 58 \<and> c2 = 58 then
            (let (tail, _, bs) = read_groups (8 - (length head + 1)) 0 bs in
             Some (groups_to_ipv6 (head @ replicate (8 - length head - length tail) 0 @ tail), bs))
          else None
      | _ \<Rightarrow> None)"

definition parse_whole :: "(bytes \<Rightarrow> ('a \<times> bytes) option) \<Rightarrow> bytes \<Rightarrow> 'a option" where
  "parse_whole p bs = (case p bs of Some (a, []) \<Rightarrow> Some a | _ \<Rightarrow> None)"

definition parse_ipv4 :: "rstring \<Rightarrow> ipv4 option" where
  "parse_ipv4 s = (if 15 < length s then None else parse_whole read_ipv4 s)"

definition parse_ipv6 :: "rstring \<Rightarrow> ipv6 option" where
  "parse_ipv6 = parse_whole read_ipv6"

definition read_ip :: "bytes \<Rightarrow> (IpAddr \<times> bytes) option" where
  "read_ip bs =
     (case read_ipv4 bs of
        Some (ip, rest) \<Rightarrow> Some (V4 ip, rest)
      | None \<Rightarrow> map_option (\<lambda>(ip, rest). (V6 ip, rest)) (read_ipv6 bs))"

definition parse_ip :: "rstring \<Rightarrow> IpAddr option" where
  "parse_ip = parse_whole read_ip"

end
