(* ===== verification/Tracker.thy ===== *)
theory Tracker
  imports Bencode Net_Addr
begin

section \<open>Tracker announces\<close>

text \<open>
  \<open>tracker/mod.rs\<close> of \<open>torrent-core\<close>: the announce request and response, the compact peer
  lists of BEP 23 and BEP 7, and the response parser. The HTTP and UDP transports are in the
  other crate.
\<close>

datatype AnnounceEvent = EvStarted | EvStopped | EvCompleted | EvNone

record AnnounceRequest =
  rq_info_hash :: bytes
  rq_peer_id :: bytes
  rq_port :: u16
  rq_uploaded :: u64
  rq_downloaded :: u64
  rq_left :: u64
  rq_event :: AnnounceEvent
  rq_compact :: bool
  rq_numwant :: "u32 option"
  rq_key :: "u32 option"
  rq_trackerid :: "rstring option"
  rq_ip :: "ipv4 option"
  rq_ipv6 :: "ipv6 option"

record AnnounceResponse =
  ar_interval :: u32
  ar_complete :: u32
  ar_incomplete :: u32
  ar_peers :: "SocketAddr list"
  ar_warning_message :: "rstring option"
  ar_tracker_id :: "rstring option"
  ar_min_interval :: "u32 option"

definition announce_request_new :: "bytes \<Rightarrow> bytes \<Rightarrow> u16 \<Rightarrow> AnnounceRequest" where
  "announce_request_new info_hash peer_id port =
     \<lparr>rq_info_hash = info_hash, rq_peer_id = peer_id, rq_port = port, rq_uploaded = 0,
      rq_downloaded = 0, rq_left = 0, rq_event = EvNone, rq_compact = True,
      rq_numwant = Some 50, rq_key = None, rq_trackerid = None, rq_ip = None, rq_ipv6 = None\<rparr>"

subsection \<open>Compact peer lists\<close>

definition parse_compact_peers_ipv4 :: "bytes \<Rightarrow> SocketAddr list result" where
  "parse_compact_peers_ipv4 data =
     (if length data mod 6 \<noteq> 0 then Err TrackerInvalidResponse
      else Ok (map addr4_from_chunk (chunks_exact 6 data)))"

definition encode_compact_peers_ipv4 :: "SocketAddr list \<Rightarrow> bytes" where
  "encode_compact_peers_ipv4 addrs =
     concat (map (\<lambda>a. case sa_ip a of V4 ip \<Rightarrow> to_be_bytes ip @ to_be_bytes (sa_port a) | V6 _ \<Rightarrow> []) addrs)"

definition parse_compact_peers_ipv6 :: "bytes \<Rightarrow> SocketAddr list result" where
  "parse_compact_peers_ipv6 data =
     (if length data mod 18 \<noteq> 0 then Err TrackerInvalidResponse
      else Ok (map addr6_from_chunk (chunks_exact 18 data)))"

definition encode_compact_peers_ipv6 :: "SocketAddr list \<Rightarrow> bytes" where
  "encode_compact_peers_ipv6 addrs =
     concat (map (\<lambda>a. case sa_ip a of V4 _ \<Rightarrow> [] | V6 ip \<Rightarrow> to_be_bytes ip @ to_be_bytes (sa_port a)) addrs)"

subsection \<open>The response parser\<close>

definition dict_get_string :: "bencode \<Rightarrow> bytes \<Rightarrow> rstring option" where
  "dict_get_string val key =
     Option.bind (dict_get val key) (\<lambda>v. case v of Bytes b \<Rightarrow> from_utf8 b | _ \<Rightarrow> None)"

text \<open>One entry of the list-of-dictionaries format, None when the code skips it.\<close>

definition parse_peer_dict :: "bencode \<Rightarrow> SocketAddr option" where
  "parse_peer_dict peer =
     (let ip_str = (case dict_get_string peer (ascii ''ip'') of Some s \<Rightarrow> s | None \<Rightarrow> []);
          port = ucast (case dict_get_int peer (ascii ''port'') of Some p \<Rightarrow> p | None \<Rightarrow> 0)
      in case parse_ip ip_str of
           Some ip \<Rightarrow> Some (SocketAddr ip port)
         | None \<Rightarrow>
             (case dict_get peer (ascii ''ip'') of
                Some (Bytes b) \<Rightarrow>
                  if length b = 4 then Some (SocketAddr (V4 (from_be_bytes b)) port) else None
              | _ \<Rightarrow> None))"

definition parse_peers :: "bencode \<Rightarrow> SocketAddr list result" where
  "parse_peers val =
     (case dict_get_bytes val (ascii ''peers'') of
        Some (b # bs) \<Rightarrow> parse_compact_peers_ipv4 (b # bs)
      | _ \<Rightarrow>
     (case dict_get_bytes val (ascii ''peers6'') of
        Some (b # bs) \<Rightarrow>
          if length (b # bs) mod 18 \<noteq> 0 then Err TrackerInvalidResponse
          else Ok (map addr6_from_chunk (chunks_exact 18 (b # bs)))
      | _ \<Rightarrow>
     (case dict_get val (ascii ''peers'') of
        Some (List peer_list) \<Rightarrow> Ok (List.map_filter parse_peer_dict peer_list)
      | _ \<Rightarrow> Ok [])))"

definition u32_try_from :: "i64 \<Rightarrow> u32 option" where
  "u32_try_from i = (if 0 \<le> sint i \<and> sint i < 2 ^ 32 then Some (ucast i) else None)"

definition response_of :: "bencode \<Rightarrow> AnnounceResponse result" where
  "response_of val =
     and_then (ok_or TrackerInvalidResponse (dict_get_int val (ascii ''interval''))) (\<lambda>interval_i64.
     and_then (ok_or TrackerInvalidResponse (u32_try_from interval_i64)) (\<lambda>interval.
     let get_u32 = (\<lambda>key. Option.bind (dict_get_int val key) u32_try_from);
         or_0 = (\<lambda>v. case v of Some n \<Rightarrow> n | None \<Rightarrow> 0)
     in and_then (parse_peers val) (\<lambda>peers.
       Ok \<lparr>ar_interval = interval, ar_complete = or_0 (get_u32 (ascii ''complete'')),
           ar_incomplete = or_0 (get_u32 (ascii ''incomplete'')), ar_peers = peers,
           ar_warning_message = dict_get_string val (ascii ''warning message''),
           ar_tracker_id = dict_get_string val (ascii ''tracker id''),
           ar_min_interval = get_u32 (ascii ''min interval'')\<rparr>)))"

definition announce_response_from_bencode :: "bytes \<Rightarrow> AnnounceResponse result" where
  "announce_response_from_bencode data = and_then (decode data) (\<lambda>(val, _). response_of val)"

definition from_udp_fields :: "u32 \<Rightarrow> u32 \<Rightarrow> u32 \<Rightarrow> SocketAddr list \<Rightarrow> AnnounceResponse" where
  "from_udp_fields interval complete incomplete peers =
     \<lparr>ar_interval = interval, ar_complete = complete, ar_incomplete = incomplete, ar_peers = peers,
      ar_warning_message = None, ar_tracker_id = None, ar_min_interval = None\<rparr>"

subsection \<open>Compact lists: round trips\<close>

lemma encode_compact4_eq:
  "encode_compact_peers_ipv4 addrs = concat (map addr_to_bytes (filter is_v4 addrs))"
proof (induction addrs)
  case (Cons a addrs)
  then show ?case
    by (cases a rule: is_v4.cases) (simp_all add: encode_compact_peers_ipv4_def addr4_to_bytes_def)
qed (simp add: encode_compact_peers_ipv4_def)

lemma encode_compact6_eq:
  "encode_compact_peers_ipv6 addrs = concat (map addr_to_bytes (filter is_v6 addrs))"
proof (induction addrs)
  case (Cons a addrs)
  then show ?case
    by (cases a rule: is_v4.cases) (simp_all add: encode_compact_peers_ipv6_def addr6_to_bytes_def)
qed (simp add: encode_compact_peers_ipv6_def)

lemma list_all_filter [simp]: "list_all P (filter P xs)"
  by (simp add: list_all_iff)

lemma parse_encode_compact4:
  "parse_compact_peers_ipv4 (encode_compact_peers_ipv4 addrs) = Ok (filter is_v4 addrs)"
  using compact4.enc_dvd [of "filter is_v4 addrs"]
  by (simp add: parse_compact_peers_ipv4_def encode_compact4_eq compact4.decode_all dvd_eq_mod_eq_0)

lemma parse_encode_compact6:
  "parse_compact_peers_ipv6 (encode_compact_peers_ipv6 addrs) = Ok (filter is_v6 addrs)"
  using compact6.enc_dvd [of "filter is_v6 addrs"]
  by (simp add: parse_compact_peers_ipv6_def encode_compact6_eq compact6.decode_all dvd_eq_mod_eq_0)

lemma filter_all: "list_all P xs \<Longrightarrow> filter P xs = xs"
  by (simp add: list_all_iff filter_id_conv)

lemma encode_parse_compact4:
  assumes "parse_compact_peers_ipv4 data = Ok addrs"
  shows "encode_compact_peers_ipv4 addrs = data \<and> list_all is_v4 addrs \<and> 6 * length addrs = length data"
proof -
  from assms have d: "6 dvd length data" and a: "addrs = map addr4_from_chunk (chunks_exact 6 data)"
    by (auto simp: parse_compact_peers_ipv4_def split: if_splits)
  have all: "list_all is_v4 addrs" unfolding a by (rule compact4.all_ok)
  have e: "concat (map addr_to_bytes addrs) = data"
    unfolding a by (rule compact4.encode_all [OF d])
  with compact4.length_concat_enc [OF all] all show ?thesis
    by (simp add: encode_compact4_eq filter_all)
qed

lemma encode_parse_compact6:
  assumes "parse_compact_peers_ipv6 data = Ok addrs"
  shows "encode_compact_peers_ipv6 addrs = data \<and> list_all is_v6 addrs \<and> 18 * length addrs = length data"
proof -
  from assms have d: "18 dvd length data" and a: "addrs = map addr6_from_chunk (chunks_exact 18 data)"
    by (auto simp: parse_compact_peers_ipv6_def split: if_splits)
  have all: "list_all is_v6 addrs" unfolding a by (rule compact6.all_ok)
  have e: "concat (map addr_to_bytes addrs) = data"
    unfolding a by (rule compact6.encode_all [OF d])
  with compact6.length_concat_enc [OF all] all show ?thesis
    by (simp add: encode_compact6_eq filter_all)
qed

text \<open>Compact peer lists (BEP 23, BEP 7). For each address family, parsing what the encoder
  wrote gives back exactly the addresses of that family in their order, and whatever the parser
  accepts, the encoder writes back byte for byte; lengths that are not a multiple of the record
  size are rejected.
\<close>

theorem compact_peers_roundtrip:
  "parse_compact_peers_ipv4 (encode_compact_peers_ipv4 addrs) = Ok (filter is_v4 addrs) \<and>
   parse_compact_peers_ipv6 (encode_compact_peers_ipv6 addrs) = Ok (filter is_v6 addrs) \<and>
   (parse_compact_peers_ipv4 data = Err TrackerInvalidResponse \<and> length data mod 6 \<noteq> 0 \<or>
    (\<exists>as. parse_compact_peers_ipv4 data = Ok as \<and> encode_compact_peers_ipv4 as = data)) \<and>
   (parse_compact_peers_ipv6 data = Err TrackerInvalidResponse \<and> length data mod 18 \<noteq> 0 \<or>
    (\<exists>as. parse_compact_peers_ipv6 data = Ok as \<and> encode_compact_peers_ipv6 as = data))"
proof -
  have "parse_compact_peers_ipv4 data = Err TrackerInvalidResponse \<and> length data mod 6 \<noteq> 0 \<or>
    (\<exists>as. parse_compact_peers_ipv4 data = Ok as)"
    by (simp add: parse_compact_peers_ipv4_def)
  moreover have "parse_compact_peers_ipv6 data = Err TrackerInvalidResponse \<and> length data mod 18 \<noteq> 0 \<or>
    (\<exists>as. parse_compact_peers_ipv6 data = Ok as)"
    by (simp add: parse_compact_peers_ipv6_def)
  ultimately show ?thesis
    using encode_parse_compact4 encode_parse_compact6 parse_encode_compact4 parse_encode_compact6
    by blast
qed

subsection \<open>Responses\<close>


subsection \<open>Responses\<close>

lemma dict_get_string_normal: "uniq_keys v \<Longrightarrow> dict_get_string (normal v) key = dict_get_string v key"
proof -
  have "(case normal v of Bytes b \<Rightarrow> from_utf8 b | _ \<Rightarrow> None) = (case v of Bytes b \<Rightarrow> from_utf8 b | _ \<Rightarrow> None)" for v
    by (cases v) simp_all
  then show "uniq_keys v \<Longrightarrow> ?thesis"
    by (simp add: dict_get_string_def dict_get_normal bind_map_option comp_def)
qed

lemmas dict_normal = dict_get_normal dict_get_bytes_normal dict_get_int_normal dict_get_string_normal

lemma parse_peer_dict_normal: "uniq_keys v \<Longrightarrow> parse_peer_dict (normal v) = parse_peer_dict v"
proof -
  have *: "(case normal v of Bytes b \<Rightarrow> f b | _ \<Rightarrow> None) = (case v of Bytes b \<Rightarrow> f b | _ \<Rightarrow> None)" for v f
    by (cases v) simp_all
  assume "uniq_keys v"
  then show ?thesis
    by (cases "dict_get v (ascii ''ip'')")
      (auto simp: parse_peer_dict_def dict_normal * Let_def split: option.split)
qed

lemma uniq_keys_dict_get: "uniq_keys v \<Longrightarrow> dict_get v key = Some w \<Longrightarrow> uniq_keys w"
  by (cases v) (auto simp: list_all_iff dict_get_def [where val = "Bytes _"]
      dict_get_def [where val = "Integer _"] dict_get_def [where val = "List _"] dest!: map_of_SomeD)

lemma map_filter_map: "List.map_filter f (map g xs) = List.map_filter (\<lambda>x. f (g x)) xs"
  by (induction xs) (auto simp: map_filter_simps split: option.split)

lemma parse_peers_normal: "uniq_keys v \<Longrightarrow> parse_peers (normal v) = parse_peers v"
proof -
  assume v: "uniq_keys v"
  let ?list = "\<lambda>w. case w of Some (List ps) \<Rightarrow> Ok (List.map_filter parse_peer_dict ps) | _ \<Rightarrow> Ok []"
  have eq: "?list (map_option normal (dict_get v (ascii ''peers''))) = ?list (dict_get v (ascii ''peers''))"
  proof (cases "dict_get v (ascii ''peers'')")
    case (Some w)
    with v have w: "uniq_keys w" by (rule uniq_keys_dict_get)
    have "List.map_filter (\<lambda>x. parse_peer_dict (normal x)) ps = List.map_filter parse_peer_dict ps"
      if "list_all uniq_keys ps" for ps
      using that by (induction ps) (auto simp: parse_peer_dict_normal map_filter_simps split: option.split)
    with Some w show ?thesis
      by (cases w) (auto simp: map_filter_map comp_def)
  qed simp
  show ?thesis
    by (simp only: parse_peers_def dict_get_bytes_normal [OF v] dict_get_normal [OF v] eq)
qed

lemma response_of_normal: "uniq_keys v \<Longrightarrow> response_of (normal v) = response_of v"
  by (simp add: response_of_def dict_normal parse_peers_normal)

lemma announce_response_encode:
  assumes "uniq_keys v" and "length (encode v) < 2 ^ 64"
  shows "announce_response_from_bencode (encode v @ rest) = response_of v"
  using assms by (simp add: announce_response_from_bencode_def decode_encode_normal response_of_normal)

lemma uint_ucast_u32:
  assumes "0 \<le> sint (i :: i64)" and "sint i < 2 ^ 32"
  shows "uint (ucast i :: u32) = sint i"
proof -
  have "uint (ucast i :: u32) = take_bit 32 (sint i)"
    by (simp add: unsigned_ucast_eq sint_uint take_bit_signed_take_bit)
  also have "\<dots> = sint i" using assms by (simp add: take_bit_int_eq_self_iff)
  finally show ?thesis .
qed

text \<open>A compact announce response is understood. If a tracker sends a dictionary, in any key
  order and possibly with more keys, whose interval fits in 32 bits and whose \<open>peers\<close> is the
  compact form of a list with at least one IPv4 address, the parser answers the interval, the
  IPv4 addresses in their order, zero for missing counts, and no optional field that is absent.
\<close>

theorem announce_response_compact:
  assumes "uniq_keys (Dict es)" and "length (encode (Dict es)) < 2 ^ 64"
    and "map_of es (ascii ''interval'') = Some (Integer i)" and "0 \<le> sint i" and "sint i < 2 ^ 32"
    and "map_of es (ascii ''peers'') = Some (Bytes (encode_compact_peers_ipv4 addrs))"
    and "a \<in> set addrs" and "is_v4 a"
  shows "\<exists>r. announce_response_from_bencode (encode (Dict es) @ rest) = Ok r \<and>
      int (unat (ar_interval r)) = sint i \<and> ar_peers r = filter is_v4 addrs \<and>
      (ascii ''complete'' \<notin> fst ` set es \<longrightarrow> ar_complete r = 0) \<and>
      (ascii ''incomplete'' \<notin> fst ` set es \<longrightarrow> ar_incomplete r = 0) \<and>
      (ascii ''tracker id'' \<notin> fst ` set es \<longrightarrow> ar_tracker_id r = None)"
proof -
  have "filter is_v4 addrs \<noteq> []" using assms(7,8) by (auto simp: filter_empty_conv)
  then have "0 < length (encode_compact_peers_ipv4 addrs)"
    by (simp add: encode_compact4_eq compact4.length_concat_enc del: length_concat)
  then obtain b bs where b: "encode_compact_peers_ipv4 addrs = b # bs"
    by (cases "encode_compact_peers_ipv4 addrs") auto
  then have peers: "parse_peers (Dict es) = Ok (filter is_v4 addrs)"
    using assms(6) parse_encode_compact4 [of addrs] by (simp add: parse_peers_def dict_get_bytes_def)
  have iv: "uint (ucast i :: u32) = sint i"
    by (rule uint_ucast_u32 [OF assms(4,5)])
  have none: "key \<notin> fst ` set es \<Longrightarrow> map_of es key = None" for key
    by (simp add: map_of_eq_None_iff)
  show ?thesis
    unfolding announce_response_encode [OF assms(1,2)]
    using peers assms(3,4,5) iv none
    by (auto simp: response_of_def dict_get_int_def dict_get_string_def u32_try_from_def Let_def)
qed

theorem announce_response_compact_witness:
  "\<exists>r. announce_response_from_bencode
          (encode (Dict [(ascii ''peers'', Bytes (encode_compact_peers_ipv4 [SocketAddr (V4 0x7F000001) 6881])),
             (ascii ''interval'', Integer 1800)]) @ []) = Ok r \<and>
        ar_peers r = [SocketAddr (V4 0x7F000001) 6881] \<and> ar_complete r = 0"
proof -
  let ?a = "SocketAddr (V4 0x7F000001) 6881"
  let ?es = "[(ascii ''peers'', Bytes (encode_compact_peers_ipv4 [?a])), (ascii ''interval'', Integer 1800)]"
  have c: "encode_compact_peers_ipv4 [?a] = [127, 0, 0, 1, 26, 225]"
    by (simp add: encode_compact_peers_ipv4_def to_be_bytes_def to_be_numeral)
  have "length (encode (Dict [(ascii ''peers'', Bytes [127, 0, 0, 1, 26, 225]), (ascii ''interval'', Integer 1800)])) = 33"
    by code_simp
  then have len: "length (encode (Dict ?es)) < 2 ^ 64" by (simp only: c) simp
  have keys: "uniq_keys (Dict ?es)" by (simp add: ascii_def)
  have ne: "ascii ''complete'' \<notin> fst ` set ?es" by (simp add: ascii_def)
  have iv: "map_of ?es (ascii ''interval'') = Some (Integer 1800)"
    and ps: "map_of ?es (ascii ''peers'') = Some (Bytes (encode_compact_peers_ipv4 [?a]))"
    by (simp_all add: ascii_def)
  have b: "0 \<le> sint (1800 :: i64)" "sint (1800 :: i64) < 2 ^ 32" by simp_all
  from announce_response_compact [OF keys len iv b ps, of ?a "[]"] ne
  obtain r where "announce_response_from_bencode (encode (Dict ?es) @ []) = Ok r"
    "ar_peers r = filter is_v4 [?a]" "ar_complete r = 0"
    by (metis is_v4.simps(1) list.set_intros(1))
  then show ?thesis by (intro exI [of _ r]) simp
qed

end
