(* ===== verification/Dht_Table.thy ===== *)
theory Dht_Table
  imports Net_Addr "HOL-Library.Multiset"
begin

section \<open>The Kademlia routing tables\<close>

text \<open>
  \<open>dht/kbucket.rs\<close> and \<open>dht/mod.rs\<close> of \<open>torrent-core\<close>: K-buckets with eviction of the least
  recently seen node, the single-family and the dual-stack routing table. Both tables implement
  the locale \<open>node_table\<close>. Node IDs are arrays of 20 bytes; the random IDs are arguments.
\<close>

record Node =
  nid :: bytes
  naddr :: SocketAddr

definition node_wf :: "Node \<Rightarrow> bool" where
  "node_wf n \<longleftrightarrow> length (nid n) = 20"

subsection \<open>K-buckets\<close>

definition K_nodes :: nat where
  "K_nodes = 8"

record KBucket =
  bucket_nodes :: "Node list"

definition kbucket_new :: KBucket where
  "kbucket_new = \<lparr>bucket_nodes = []\<rparr>"

fun find_pos :: "('a \<Rightarrow> bool) \<Rightarrow> 'a list \<Rightarrow> nat option" where
  "find_pos P [] = None"
| "find_pos P (x # xs) = (if P x then Some 0 else map_option Suc (find_pos P xs))"

definition kbucket_insert :: "KBucket \<Rightarrow> Node \<Rightarrow> KBucket \<times> bool" where
  "kbucket_insert kb node =
     (let ns = bucket_nodes kb in
      case find_pos (\<lambda>n. nid n = nid node) ns of
        Some pos \<Rightarrow> (kb\<lparr>bucket_nodes := take pos ns @ drop (Suc pos) ns @ [node]\<rparr>, False)
      | None \<Rightarrow>
          (let ns = (if K_nodes \<le> length ns then tl ns else ns)
           in (kb\<lparr>bucket_nodes := ns @ [node]\<rparr>, True)))"

definition kbucket_len :: "KBucket \<Rightarrow> nat" where
  "kbucket_len kb = length (bucket_nodes kb)"

subsection \<open>Distance and bucket index\<close>

definition NUM_BUCKETS :: nat where
  "NUM_BUCKETS = 160"

definition xor_distance :: "bytes \<Rightarrow> bytes \<Rightarrow> bytes" where
  "xor_distance a b = map (\<lambda>(x, y). x XOR y) (zip a b)"

definition leading_zeros :: "byte \<Rightarrow> nat" where
  "leading_zeros b = length (takeWhile (\<lambda>i. \<not> bit b (7 - i)) [0..<8])"

fun bucket_index_loop :: "nat \<Rightarrow> bytes \<Rightarrow> bytes \<Rightarrow> nat" where
  "bucket_index_loop i (x # xs) (y # ys) =
     (let diff = x XOR y in
      if diff \<noteq> 0 then i * 8 + leading_zeros diff else bucket_index_loop (Suc i) xs ys)"
| "bucket_index_loop i _ _ = 0"

definition bucket_index :: "bytes \<Rightarrow> bytes \<Rightarrow> nat" where
  "bucket_index our_id node_id = bucket_index_loop 0 our_id node_id"

text \<open>\<open>seed\<close> is the random 64-bit seed and \<open>sha1\<close> the digest function.\<close>

definition generate_node_id :: "(bytes \<Rightarrow> bytes) \<Rightarrow> u64 \<Rightarrow> bytes" where
  "generate_node_id sha1 seed = sha1 (to_be_bytes seed @ ascii ''torrent-rs-dht-node'')"

definition generate_secret :: "(bytes \<Rightarrow> bytes) \<Rightarrow> u64 \<Rightarrow> bytes" where
  "generate_secret sha1 seed = sha1 (to_be_bytes seed @ ascii ''torrent-rs-dht-secret'')"

subsection \<open>The single-family table\<close>

definition insert_into_buckets ::
  "KBucket list \<Rightarrow> bytes \<Rightarrow> Node \<Rightarrow> (KBucket list \<times> bool) result" where
  "insert_into_buckets buckets our_id node =
     (let idx = bucket_index our_id (nid node) in
      and_then (index_at buckets idx) (\<lambda>b.
        let (b', new) = kbucket_insert b node in Ok (buckets[idx := b'], new)))"

definition all_nodes :: "KBucket list \<Rightarrow> Node list" where
  "all_nodes buckets = concat (map bucket_nodes buckets)"

definition find_closest_in_buckets :: "KBucket list \<Rightarrow> bytes \<Rightarrow> nat \<Rightarrow> Node list" where
  "find_closest_in_buckets buckets target cnt =
     take cnt (sort_key (\<lambda>n. xor_distance (nid n) target) (all_nodes buckets))"

record RoutingTable =
  rt_node_id :: bytes
  rt_buckets :: "KBucket list"

definition rt_with_id :: "bytes \<Rightarrow> RoutingTable" where
  "rt_with_id our_id = \<lparr>rt_node_id = our_id, rt_buckets = replicate NUM_BUCKETS kbucket_new\<rparr>"

definition rt_insert :: "RoutingTable \<Rightarrow> Node \<Rightarrow> (RoutingTable \<times> bool) result" where
  "rt_insert rt node =
     and_then (insert_into_buckets (rt_buckets rt) (rt_node_id rt) node) (\<lambda>(bs, new).
       Ok (rt\<lparr>rt_buckets := bs\<rparr>, new))"

definition rt_find_closest :: "RoutingTable \<Rightarrow> bytes \<Rightarrow> nat \<Rightarrow> Node list" where
  "rt_find_closest rt target cnt = find_closest_in_buckets (rt_buckets rt) target cnt"

definition rt_num_nodes :: "RoutingTable \<Rightarrow> nat" where
  "rt_num_nodes rt = sum_list (map kbucket_len (rt_buckets rt))"

subsection \<open>The dual-stack table\<close>

record DualRoutingTable =
  dt_node_id :: bytes
  dt_buckets_v4 :: "KBucket list"
  dt_buckets_v6 :: "KBucket list"

definition dt_with_id :: "bytes \<Rightarrow> DualRoutingTable" where
  "dt_with_id our_id =
     \<lparr>dt_node_id = our_id, dt_buckets_v4 = replicate NUM_BUCKETS kbucket_new,
      dt_buckets_v6 = replicate NUM_BUCKETS kbucket_new\<rparr>"

definition dt_insert :: "DualRoutingTable \<Rightarrow> Node \<Rightarrow> (DualRoutingTable \<times> bool) result" where
  "dt_insert dt node =
     (if is_v4 (naddr node) then
        and_then (insert_into_buckets (dt_buckets_v4 dt) (dt_node_id dt) node) (\<lambda>(bs, new).
          Ok (dt\<lparr>dt_buckets_v4 := bs\<rparr>, new))
      else
        and_then (insert_into_buckets (dt_buckets_v6 dt) (dt_node_id dt) node) (\<lambda>(bs, new).
          Ok (dt\<lparr>dt_buckets_v6 := bs\<rparr>, new)))"

definition dt_find_closest_v4 :: "DualRoutingTable \<Rightarrow> bytes \<Rightarrow> nat \<Rightarrow> Node list" where
  "dt_find_closest_v4 dt target cnt = find_closest_in_buckets (dt_buckets_v4 dt) target cnt"

definition dt_find_closest_v6 :: "DualRoutingTable \<Rightarrow> bytes \<Rightarrow> nat \<Rightarrow> Node list" where
  "dt_find_closest_v6 dt target cnt = find_closest_in_buckets (dt_buckets_v6 dt) target cnt"

definition dt_find_closest :: "DualRoutingTable \<Rightarrow> bytes \<Rightarrow> nat \<Rightarrow> Node list" where
  "dt_find_closest dt target cnt =
     (let v4 = dt_find_closest_v4 dt target cnt; v6 = dt_find_closest_v6 dt target cnt
      in take cnt (sort_key (\<lambda>n. xor_distance (nid n) target) (v4 @ v6)))"

definition dt_num_nodes_v4 :: "DualRoutingTable \<Rightarrow> nat" where
  "dt_num_nodes_v4 dt = sum_list (map kbucket_len (dt_buckets_v4 dt))"

definition dt_num_nodes_v6 :: "DualRoutingTable \<Rightarrow> nat" where
  "dt_num_nodes_v6 dt = sum_list (map kbucket_len (dt_buckets_v6 dt))"

definition dt_num_nodes :: "DualRoutingTable \<Rightarrow> nat" where
  "dt_num_nodes dt = dt_num_nodes_v4 dt + dt_num_nodes_v6 dt"


subsection \<open>A bucket is a bounded LRU list\<close>

definition kbucket_wf :: "KBucket \<Rightarrow> bool" where
  "kbucket_wf kb \<longleftrightarrow> length (bucket_nodes kb) \<le> K_nodes \<and> distinct (map nid (bucket_nodes kb)) \<and>
     list_all node_wf (bucket_nodes kb)"

definition lru_insert :: "nat \<Rightarrow> Node list \<Rightarrow> Node \<Rightarrow> Node list" where
  "lru_insert cap ns node =
     (if nid node \<in> nid ` set ns then filter (\<lambda>n. nid n \<noteq> nid node) ns
      else drop (Suc (length ns) - cap) ns) @ [node]"

lemma find_pos_None: "find_pos P xs = None \<longleftrightarrow> (\<forall>x \<in> set xs. \<not> P x)"
  by (induction xs) auto

lemma find_pos_Some:
  "find_pos P xs = Some i \<Longrightarrow> i < length xs \<and> P (xs ! i)"
  by (induction xs arbitrary: i) (auto split: if_splits)

lemma filter_drop_key:
  "i < length xs \<Longrightarrow> distinct (map f xs) \<Longrightarrow>
     filter (\<lambda>x. f x \<noteq> f (xs ! i)) xs = take i xs @ drop (Suc i) xs"
proof (induction xs arbitrary: i)
  case (Cons x xs)
  show ?case
  proof (cases i)
    case 0
    with Cons.prems have "\<forall>y \<in> set xs. f y \<noteq> f x" by (simp add: image_iff) metis
    with 0 show ?thesis by (simp add: filter_id_conv)
  next
    case (Suc j)
    with Cons.prems have "f x \<noteq> f (xs ! j)" by (metis distinct.simps(2) length_Cons list.simps(9) length_map not_less_eq nth_map nth_mem)
    with Suc Cons show ?thesis by simp
  qed
qed simp

lemma kbucket_insert_lru:
  assumes "kbucket_wf kb"
  shows "kbucket_insert kb node =
    (\<lparr>bucket_nodes = lru_insert K_nodes (bucket_nodes kb) node\<rparr>, nid node \<notin> nid ` set (bucket_nodes kb))"
proof (cases "find_pos (\<lambda>n. nid n = nid node) (bucket_nodes kb)")
  case None
  then have "nid node \<notin> nid ` set (bucket_nodes kb)" by (auto simp: find_pos_None)
  moreover have "drop (Suc (length (bucket_nodes kb)) - K_nodes) (bucket_nodes kb)
      = (if K_nodes \<le> length (bucket_nodes kb) then tl (bucket_nodes kb) else bucket_nodes kb)"
    using assms by (auto simp: kbucket_wf_def drop_Suc Suc_diff_le)
  ultimately show ?thesis
    using None by (cases kb) (simp add: kbucket_insert_def lru_insert_def)
next
  case (Some i)
  from find_pos_Some [OF this] have i: "i < length (bucket_nodes kb)" "nid (bucket_nodes kb ! i) = nid node"
    by auto
  then have "nid node \<in> nid ` set (bucket_nodes kb)" by (metis image_eqI nth_mem)
  with Some i filter_drop_key [OF i(1), of nid] assms show ?thesis
    by (cases kb) (auto simp: kbucket_insert_def lru_insert_def kbucket_wf_def)
qed

lemma lru_insert_distinct:
  assumes "distinct (map nid ns)"
  shows "distinct (map nid (lru_insert cap ns node))"
proof -
  have "nid node \<notin> nid ` set (drop k ns)" if "nid node \<notin> nid ` set ns" for k
    using that by (auto dest: in_set_dropD)
  moreover have "distinct (map nid (drop k ns))" for k
    using assms by (simp add: drop_map [symmetric])
  ultimately show ?thesis
    using assms by (auto simp: lru_insert_def distinct_map_filter)
qed

lemma lru_insert_length:
  assumes "length ns \<le> cap" and "0 < cap"
  shows "length (lru_insert cap ns node) \<le> cap"
proof (cases "nid node \<in> nid ` set ns")
  case True
  then have "filter (\<lambda>n. nid n \<noteq> nid node) ns \<noteq> ns" by (auto simp: filter_id_conv)
  then have "length (filter (\<lambda>n. nid n \<noteq> nid node) ns) < length ns"
    by (metis filter_id_conv length_filter_less)
  with True assms show ?thesis by (simp add: lru_insert_def)
next
  case False
  with assms show ?thesis by (simp add: lru_insert_def)
qed

lemma lru_insert_set:
  "set (lru_insert cap ns node) \<subseteq> insert node (set ns)"
  by (auto simp: lru_insert_def dest: in_set_dropD)

lemma lru_insert_in: "node \<in> set (lru_insert cap ns node)"
  by (simp add: lru_insert_def)

lemma kbucket_insert_wf:
  assumes "kbucket_wf kb" and "node_wf node"
  shows "kbucket_wf (fst (kbucket_insert kb node))"
proof -
  let ?ns = "lru_insert K_nodes (bucket_nodes kb) node"
  have "distinct (map nid ?ns)"
    using assms(1) by (intro lru_insert_distinct) (simp add: kbucket_wf_def)
  moreover have "length ?ns \<le> K_nodes"
    using assms(1) by (intro lru_insert_length) (simp_all add: kbucket_wf_def K_nodes_def)
  moreover have "list_all node_wf ?ns"
    using assms lru_insert_set [of K_nodes "bucket_nodes kb" node]
    unfolding kbucket_wf_def list_all_iff by blast
  ultimately show ?thesis by (simp add: kbucket_insert_lru [OF assms(1)] kbucket_wf_def)
qed

text \<open>Insertion into a K-bucket is insertion into a least-recently-seen list of capacity 8. The
  flag says whether the ID is new; the node ends at the tail; a known ID is moved, with the new
  address; a new ID evicts the head exactly when the bucket was full; the others keep their
  order; the bucket never exceeds 8 nodes nor repeats an ID.
\<close>

theorem kbucket_insert_spec:
  assumes "kbucket_wf kb" and "node_wf node"
  shows "\<exists>kb'. kbucket_insert kb node = (kb', nid node \<notin> nid ` set (bucket_nodes kb)) \<and> kbucket_wf kb' \<and>
      bucket_nodes kb' =
        (if nid node \<in> nid ` set (bucket_nodes kb) then filter (\<lambda>n. nid n \<noteq> nid node) (bucket_nodes kb)
         else drop (Suc (kbucket_len kb) - 8) (bucket_nodes kb)) @ [node]"
  using kbucket_insert_lru [OF assms(1), of node] kbucket_insert_wf [OF assms]
  by (simp add: lru_insert_def kbucket_len_def K_nodes_def)

theorem kbucket_insert_spec_witness:
  "\<exists>kb'. kbucket_insert \<lparr>bucket_nodes = [\<lparr>nid = replicate 20 1, naddr = SocketAddr (V4 1) 80\<rparr>]\<rparr>
        \<lparr>nid = replicate 20 1, naddr = SocketAddr (V4 2) 80\<rparr> = (kb', False) \<and> kbucket_wf kb' \<and>
      bucket_nodes kb' = [\<lparr>nid = replicate 20 1, naddr = SocketAddr (V4 2) 80\<rparr>]"
  using kbucket_insert_spec [of "\<lparr>bucket_nodes = [\<lparr>nid = replicate 20 1, naddr = SocketAddr (V4 1) 80\<rparr>]\<rparr>"
      "\<lparr>nid = replicate 20 1, naddr = SocketAddr (V4 2) 80\<rparr>"]
  by (simp add: kbucket_wf_def node_wf_def K_nodes_def)

subsection \<open>Distance and bucket index\<close>

lemma length_xor_distance [simp]: "length (xor_distance a b) = min (length a) (length b)"
  by (simp add: xor_distance_def)

lemma xor_distance_Cons [simp]: "xor_distance (x # xs) (y # ys) = (x XOR y) # xor_distance xs ys"
  by (simp add: xor_distance_def)

lemma xor_distance_Nil [simp]: "xor_distance [] b = []" "xor_distance a [] = []"
  by (simp_all add: xor_distance_def)

lemma lex_mult_less: "a < b \<Longrightarrow> x < m \<Longrightarrow> a * m + x < b * m + (y :: nat)"
proof -
  assume "a < b" "x < m"
  then have "Suc a * m \<le> b * m" by (intro mult_right_mono) auto
  with \<open>x < m\<close> show ?thesis by simp
qed

lemma be_val_less_iff:
  "length xs = length ys \<Longrightarrow> xs < ys \<longleftrightarrow> be_val xs < be_val ys"
proof (induction xs ys rule: list_induct2)
  case (Cons x xs y ys)
  have b: "be_val xs < 256 ^ length ys" "be_val ys < 256 ^ length ys"
    using be_val_less [of xs] be_val_less [of ys] Cons.hyps by simp_all
  show ?case
  proof (cases x y rule: linorder_cases)
    case less
    then show ?thesis
      using lex_mult_less [OF _ b(1)] Cons.hyps by (simp add: be_val_Cons word_less_nat_alt)
  next
    case equal
    then show ?thesis using Cons by (simp add: be_val_Cons)
  next
    case greater
    then have "be_val (y # ys) < be_val (x # xs)"
      using lex_mult_less [OF _ b(2)] Cons.hyps by (simp add: be_val_Cons word_less_nat_alt)
    with greater show ?thesis by auto
  qed
qed simp

lemma be_val_le_iff:
  "length xs = length ys \<Longrightarrow> xs \<le> ys \<longleftrightarrow> be_val xs \<le> be_val ys"
  using be_val_less_iff [of ys xs] by (simp add: not_less [symmetric])

text \<open>The distance of two IDs as a 160-bit number.\<close>

definition id_distance :: "bytes \<Rightarrow> bytes \<Rightarrow> nat" where
  "id_distance a b = be_val (xor_distance a b)"

lemma leading_zeros_bounds:
  assumes "(b :: byte) \<noteq> 0"
  shows "leading_zeros b < 8 \<and> 2 ^ (7 - leading_zeros b) \<le> unat b \<and> unat b < 2 ^ (8 - leading_zeros b)"
proof -
  let ?P = "\<lambda>i. \<not> bit b (7 - i)"
  let ?l = "leading_zeros b"
  obtain n where n: "bit b n" using assms by (metis bit_0_eq bit_eq_iff bot_apply bot_bool_def)
  then have "n < 8" using bit_imp_le_length by fastforce
  then have ex: "\<exists>i \<in> set [0..<8]. \<not> ?P i" using n by (intro bexI [of _ "7 - n"]) auto
  have l: "?l = length (takeWhile ?P [0..<8])" by (simp add: leading_zeros_def)
  have l8: "?l < 8"
    using ex length_takeWhile_le [of ?P "[0..<8]"] takeWhile_eq_all_conv [of ?P "[0..<8]"]
    by (metis l diff_zero length_upt nat_less_le takeWhile_eq_take take_all_iff)
  have "\<not> ?P ([0..<8] ! ?l)"
    using l8 unfolding l by (intro nth_length_takeWhile) simp
  then have hi: "bit b (7 - ?l)" using l8 by simp
  have lo: "\<not> bit b (7 - i)" if "i < ?l" for i
    using that takeWhile_nth [of i ?P "[0..<8]"] set_takeWhileD [of _ ?P "[0..<8]"] l8
    unfolding l by (metis add_0 l nth_mem nth_upt order_less_trans diff_zero length_upt)
  have "take_bit (8 - ?l) b = b"
  proof (rule bit_eqI)
    fix m assume "possible_bit TYPE(8 word) m"
    then have "m < 8" by simp
    show "bit (take_bit (8 - ?l) b) m = bit b m"
    proof (cases "m < 8 - ?l")
      case False
      with \<open>m < 8\<close> have "7 - m < ?l" by simp
      from lo [OF this] \<open>m < 8\<close> have "\<not> bit b m" by simp
      with False show ?thesis by (simp add: bit_take_bit_iff)
    qed (simp add: bit_take_bit_iff)
  qed
  then have "unat b < 2 ^ (8 - ?l)"
    by (metis take_bit_nat_less_exp unsigned_take_bit_eq)
  moreover have "2 ^ (7 - ?l) \<le> unat b"
  proof (rule ccontr)
    assume "\<not> 2 ^ (7 - ?l) \<le> unat b"
    then have "take_bit (7 - ?l) (unat b) = unat b" by (simp add: take_bit_nat_eq_self_iff)
    then have "\<not> bit (unat b) (7 - ?l)" by (metis bit_take_bit_iff less_irrefl)
    with hi show False by (simp add: bit_unsigned_iff)
  qed
  ultimately show ?thesis using l8 by simp
qed

lemma xor_byte_eq_0 [simp]: "x XOR y = 0 \<longleftrightarrow> x = (y :: byte)"
  by (metis bit.xor_self xor.right_neutral xor.left_commute xor.commute xor_self_eq)

lemma bucket_index_loop_distance:
  assumes "length a = length b" and "a \<noteq> b"
  shows "bucket_index_loop i a b < 8 * (i + length a) \<and>
     2 ^ (8 * (i + length a) - Suc (bucket_index_loop i a b)) \<le> id_distance a b \<and>
     id_distance a b < 2 ^ (8 * (i + length a) - bucket_index_loop i a b)"
  using assms
proof (induction a b arbitrary: i rule: list_induct2)
  case (Cons x xs y ys)
  let ?n = "length xs" and ?d = "x XOR y"
  have tail: "id_distance xs ys < 256 ^ ?n"
    using be_val_less [of "xor_distance xs ys"] Cons.hyps by (simp add: id_distance_def)
  have dist: "id_distance (x # xs) (y # ys) = unat ?d * 256 ^ ?n + id_distance xs ys"
    using Cons.hyps by (simp add: id_distance_def be_val_Cons)
  show ?case
  proof (cases "?d = 0")
    case True
    then have "xs \<noteq> ys" using Cons.prems by auto
    from Cons.IH [OF this, of "Suc i"] True show ?thesis
      by (simp add: id_distance_def be_val_Cons)
  next
    case False
    let ?l = "leading_zeros ?d"
    from leading_zeros_bounds [OF False] have l: "?l < 8" "2 ^ (7 - ?l) \<le> unat ?d" "unat ?d < 2 ^ (8 - ?l)"
      by auto
    have p: "(256 :: nat) ^ ?n = 2 ^ (8 * ?n)" by (simp add: power_mult)
    have "2 ^ (7 - ?l) * 2 ^ (8 * ?n) \<le> unat ?d * (2 :: nat) ^ (8 * ?n)"
      using l(2) by (rule mult_right_mono) simp
    then have lower: "2 ^ (7 - ?l + 8 * ?n) \<le> id_distance (x # xs) (y # ys)"
      unfolding dist p power_add by (rule trans_le_add1)
    have "unat ?d * 256 ^ ?n + id_distance xs ys < 2 ^ (8 - ?l) * 256 ^ ?n + 0"
      by (rule lex_mult_less [OF l(3) tail])
    then have upper: "id_distance (x # xs) (y # ys) < 2 ^ (8 - ?l + 8 * ?n)"
      unfolding dist by (simp add: p power_add)
    have e: "8 * (i + length (x # xs)) - Suc (i * 8 + ?l) = 7 - ?l + 8 * ?n"
      "8 * (i + length (x # xs)) - (i * 8 + ?l) = 8 - ?l + 8 * ?n" using l(1) by simp_all
    have idx: "bucket_index_loop i (x # xs) (y # ys) = i * 8 + ?l"
      using False by (simp add: Let_def)
    show ?thesis unfolding idx e using lower upper l(1) by simp
  qed
qed simp

text \<open>The bucket index is the length of the common prefix. For two different 20-byte IDs the
  index is below 160 and the XOR distance, read as a 160-bit number, lies in
  \<open>[2^(159 - index), 2^(160 - index))\<close>; so the buckets partition the ID space by distance.
\<close>

theorem bucket_index_distance:
  assumes "length a = 20" and "length b = 20" and "a \<noteq> b"
  shows "bucket_index a b < NUM_BUCKETS \<and> 2 ^ (159 - bucket_index a b) \<le> id_distance a b \<and>
     id_distance a b < 2 ^ (160 - bucket_index a b)"
  using bucket_index_loop_distance [of a b 0] assms
  by (simp add: bucket_index_def NUM_BUCKETS_def)

theorem bucket_index_distance_witness:
  "2 ^ 152 \<le> id_distance (replicate 20 0) (1 # replicate 19 0) \<and> bucket_index (replicate 20 0) (1 # replicate 19 0) < NUM_BUCKETS"
proof -
  have "bucket_index (replicate 20 0) (1 # replicate 19 0) = 7"
    by (simp add: bucket_index_def numeral_eq_Suc leading_zeros_def upt_rec)
  moreover have "replicate 20 0 \<noteq> (1 :: byte) # replicate 19 0" by (simp add: numeral_eq_Suc)
  ultimately show ?thesis
    using bucket_index_distance [of "replicate 20 0" "1 # replicate 19 0"] by simp
qed


subsection \<open>The closest elements of a list\<close>

text \<open>
  \<open>closest_of f c xs rs\<close>: \<open>rs\<close> are \<open>c\<close> elements of \<open>xs\<close> (all of them if there are fewer) in
  increasing order of the key, and no element left out has a smaller key than one taken.
\<close>

definition closest_of :: "('a \<Rightarrow> 'k::linorder) \<Rightarrow> nat \<Rightarrow> 'a list \<Rightarrow> 'a list \<Rightarrow> bool" where
  "closest_of f c xs rs \<longleftrightarrow>
     mset rs \<subseteq># mset xs \<and> length rs = min c (length xs) \<and> sorted (map f rs) \<and>
     (\<forall>m \<in># mset rs. \<forall>n \<in># mset xs - mset rs. f m \<le> f n)"

lemma mset_take_drop: "mset (take c xs) + mset (drop c xs) = mset xs"
  by (metis append_take_drop_id mset_append)

lemma sorted_take_drop_le:
  assumes "sorted (map f xs)" and "m \<in> set (take c xs)" and "n \<in> set (drop c xs)"
  shows "f m \<le> f n"
proof -
  have "sorted (map f (take c xs @ drop c xs))" using assms(1) by simp
  with assms(2,3) show ?thesis by (simp only: map_append sorted_append set_map) blast
qed

lemma mset_minus_take: "mset (sort_key f xs) - mset (take c (sort_key f xs)) = mset (drop c (sort_key f xs))"
  using mset_take_drop [of c "sort_key f xs"] by (metis add_diff_cancel_left')

lemma closest_of_sort: "closest_of f c xs (take c (sort_key f xs))"
proof -
  have "mset (take c (sort_key f xs)) \<subseteq># mset xs"
    using mset_take_drop [of c "sort_key f xs"] by (metis mset_sort mset_subset_eq_add_left)
  moreover have "f m \<le> f n" if "m \<in># mset (take c (sort_key f xs))"
    "n \<in># mset xs - mset (take c (sort_key f xs))" for m n
    using that mset_minus_take [of f xs c] sorted_take_drop_le [of f "sort_key f xs" m c n] by simp
  ultimately show ?thesis by (auto simp: closest_of_def take_map [symmetric] sorted_wrt_take)
qed

lemma fewer_smaller:
  assumes "sorted (map f xs)" and "j < length xs"
  shows "length (filter (\<lambda>x. f x < f (xs ! j)) xs) \<le> j"
proof -
  have "\<forall>x \<in> set (drop j xs). \<not> f x < f (xs ! j)"
  proof (clarsimp simp: in_set_conv_nth not_less)
    fix i assume "i < length xs - j"
    then show "f (xs ! j) \<le> f (xs ! (j + i))"
      using sorted_nth_mono [OF assms(1), of j "j + i"] by simp
  qed
  then have "filter (\<lambda>x. f x < f (xs ! j)) (drop j xs) = []" by (simp add: filter_empty_conv)
  then have "length (filter (\<lambda>x. f x < f (xs ! j)) xs) = length (filter (\<lambda>x. f x < f (xs ! j)) (take j xs))"
    by (metis append_Nil2 append_take_drop_id filter_append)
  also have "\<dots> \<le> length (take j xs)" by (rule length_filter_le)
  finally show ?thesis using assms(2) by simp
qed

lemma taken_not_above:
  assumes "m \<in> set (take c (sort_key f zs))" and "mset (take c (sort_key f xs)) \<subseteq># mset zs"
    and "n \<in> set (drop c (sort_key f xs))"
  shows "f m \<le> f n"
proof (rule ccontr)
  assume less: "\<not> f m \<le> f n"
  let ?A = "take c (sort_key f xs)"
  have "c < length xs" using assms(3) by (metis drop_all empty_iff empty_set length_sort not_le)
  then have "length ?A = c" by simp
  have "\<forall>a \<in> set ?A. f a < f m"
    using sorted_take_drop_le [of f "sort_key f xs" _ c n] assms(3) less by fastforce
  then have "size (filter_mset (\<lambda>x. f x < f m) (mset ?A)) = c"
    using \<open>length ?A = c\<close> by (metis filter_True mset_filter size_mset)
  moreover have "filter_mset (\<lambda>x. f x < f m) (mset ?A) \<subseteq># filter_mset (\<lambda>x. f x < f m) (mset zs)"
    using assms(2) by (rule multiset_filter_mono)
  ultimately have ge: "c \<le> size (filter_mset (\<lambda>x. f x < f m) (mset zs))"
    by (metis size_mset_mono)
  from assms(1) obtain j where j: "j < c" "j < length zs" "m = sort_key f zs ! j"
    by (auto simp: in_set_conv_nth)
  have "length (filter (\<lambda>x. f x < f m) (sort_key f zs)) \<le> j"
    using fewer_smaller [of f "sort_key f zs" j] j by simp
  moreover have "size (filter_mset (\<lambda>x. f x < f m) (mset zs)) = length (filter (\<lambda>x. f x < f m) (sort_key f zs))"
    by (metis mset_filter mset_sort size_mset)
  ultimately show False using ge j(1) by simp
qed

lemma closest_of_merge:
  fixes f :: "'a \<Rightarrow> 'k::linorder"
  defines "srt \<equiv> sort_key f"
  shows "closest_of f c (xs @ ys) (take c (srt (take c (srt xs) @ take c (srt ys))))"
proof -
  let ?A = "take c (srt xs)" and ?B = "take c (srt ys)"
  let ?R = "take c (srt (?A @ ?B))"
  have split: "mset (xs @ ys) = mset ?A + mset (drop c (srt xs)) + (mset ?B + mset (drop c (srt ys)))"
    by (simp add: srt_def mset_take_drop)
  have AB: "mset (?A @ ?B) = mset ?R + mset (drop c (srt (?A @ ?B)))"
    by (simp add: srt_def mset_take_drop)
  have whole: "mset (xs @ ys) = mset ?R + (mset (drop c (srt (?A @ ?B))) + mset (drop c (srt xs)) + mset (drop c (srt ys)))"
    using split AB by (simp add: ac_simps)
  then have sub: "mset ?R \<subseteq># mset (xs @ ys)" by (metis mset_subset_eq_add_left)
  have rest: "mset (xs @ ys) - mset ?R = mset (drop c (srt (?A @ ?B))) + mset (drop c (srt xs)) + mset (drop c (srt ys))"
    unfolding whole by (rule add_diff_cancel_left')
  have "f m \<le> f n" if m: "m \<in># mset ?R" and n: "n \<in># mset (xs @ ys) - mset ?R" for m n
  proof -
    from m have m': "m \<in> set (take c (sort_key f (?A @ ?B)))" by (simp add: srt_def)
    from n have "n \<in> set (drop c (srt (?A @ ?B))) \<or> n \<in> set (drop c (srt xs)) \<or> n \<in> set (drop c (srt ys))"
      unfolding rest by auto
    moreover have "f m \<le> f n" if "n \<in> set (drop c (srt (?A @ ?B)))"
      using that m sorted_take_drop_le [of f "srt (?A @ ?B)" m c n] by (simp add: srt_def)
    moreover have "f m \<le> f n" if "n \<in> set (drop c (srt xs))"
      using that by (intro taken_not_above [OF m']) (simp_all add: srt_def)
    moreover have "f m \<le> f n" if "n \<in> set (drop c (srt ys))"
      using that by (intro taken_not_above [OF m']) (simp_all add: srt_def)
    ultimately show ?thesis by blast
  qed
  moreover have "length ?R = min c (length (xs @ ys))" by (simp add: srt_def)
  moreover have "sorted (map f ?R)" by (simp add: srt_def take_map [symmetric] sorted_wrt_take)
  ultimately show ?thesis unfolding closest_of_def using sub by blast
qed


subsection \<open>The table invariant\<close>

definition buckets_wf :: "bytes \<Rightarrow> KBucket list \<Rightarrow> bool" where
  "buckets_wf me bs \<longleftrightarrow> length me = 20 \<and> length bs = NUM_BUCKETS \<and>
     (\<forall>i < length bs. kbucket_wf (bs ! i) \<and> (\<forall>n \<in> set (bucket_nodes (bs ! i)). bucket_index me (nid n) = i))"

lemma bucket_index_bound: "length a = 20 \<Longrightarrow> length b = 20 \<Longrightarrow> bucket_index a b < NUM_BUCKETS"
proof (cases "a = b")
  case True
  have "bucket_index_loop i b b = 0" for i
    by (induction b arbitrary: i) simp_all
  with True show ?thesis by (simp add: bucket_index_def NUM_BUCKETS_def)
next
  case False
  then show "length a = 20 \<Longrightarrow> length b = 20 \<Longrightarrow> ?thesis"
    using bucket_index_loop_distance [of a b 0] by (simp add: bucket_index_def NUM_BUCKETS_def)
qed

lemma set_all_nodes: "set (all_nodes bs) = (\<Union>i < length bs. set (bucket_nodes (bs ! i)))"
  by (fastforce simp: all_nodes_def in_set_conv_nth [of _ bs])

lemma buckets_wf_new: "length me = 20 \<Longrightarrow> buckets_wf me (replicate NUM_BUCKETS kbucket_new)"
  by (simp add: buckets_wf_def kbucket_wf_def kbucket_new_def)

lemma all_nodes_new [simp]: "all_nodes (replicate n kbucket_new) = []"
  by (simp add: all_nodes_def kbucket_new_def)

lemma known_id_bucket:
  assumes "buckets_wf me bs" and "length x = 20"
  shows "x \<in> nid ` set (all_nodes bs) \<longleftrightarrow> x \<in> nid ` set (bucket_nodes (bs ! bucket_index me x))"
proof -
  let ?i = "bucket_index me x"
  have i: "?i < length bs"
    using assms bucket_index_bound by (simp add: buckets_wf_def)
  show ?thesis
  proof
    assume "x \<in> nid ` set (all_nodes bs)"
    then obtain j n where j: "j < length bs" "n \<in> set (bucket_nodes (bs ! j))" "x = nid n"
      by (auto simp: set_all_nodes)
    with assms(1) have "j = ?i" by (auto simp: buckets_wf_def)
    with j show "x \<in> nid ` set (bucket_nodes (bs ! ?i))" by blast
  next
    assume "x \<in> nid ` set (bucket_nodes (bs ! ?i))"
    with i show "x \<in> nid ` set (all_nodes bs)" by (auto simp: set_all_nodes)
  qed
qed

lemma insert_into_buckets_ok:
  assumes wf: "buckets_wf me bs" and n: "node_wf n"
  shows "\<exists>bs'. insert_into_buckets bs me n = Ok (bs', nid n \<notin> nid ` set (all_nodes bs)) \<and>
    buckets_wf me bs' \<and> n \<in> set (all_nodes bs') \<and> set (all_nodes bs') \<subseteq> insert n (set (all_nodes bs)) \<and>
    (\<forall>m \<in> set (all_nodes bs). bucket_index me (nid m) \<noteq> bucket_index me (nid n) \<longrightarrow> m \<in> set (all_nodes bs'))"
proof -
  let ?i = "bucket_index me (nid n)"
  let ?b = "\<lparr>bucket_nodes = lru_insert K_nodes (bucket_nodes (bs ! ?i)) n\<rparr>"
  let ?bs = "bs[?i := ?b]"
  have i: "?i < length bs"
    using wf n bucket_index_bound by (simp add: buckets_wf_def node_wf_def)
  with wf have b: "kbucket_wf (bs ! ?i)" by (simp add: buckets_wf_def)
  have flag: "nid n \<notin> nid ` set (bucket_nodes (bs ! ?i)) \<longleftrightarrow> nid n \<notin> nid ` set (all_nodes bs)"
    using known_id_bucket [OF wf, of "nid n"] n by (simp add: node_wf_def)
  have eq: "insert_into_buckets bs me n = Ok (?bs, nid n \<notin> nid ` set (all_nodes bs))"
    using i by (simp add: insert_into_buckets_def index_at_def kbucket_insert_lru [OF b] flag [symmetric] Let_def)
  have b': "kbucket_wf ?b"
    using kbucket_insert_wf [OF b n] by (simp add: kbucket_insert_lru [OF b])
  have sub: "set (bucket_nodes ?b) \<subseteq> insert n (set (bucket_nodes (bs ! ?i)))"
    using lru_insert_set by simp
  then have wf': "buckets_wf me ?bs"
    using wf b' i by (auto simp: buckets_wf_def nth_list_update)
  have nodes: "set (all_nodes ?bs) = (\<Union>j < length bs. if j = ?i then set (bucket_nodes ?b) else set (bucket_nodes (bs ! j)))"
    unfolding set_all_nodes length_list_update by (rule SUP_cong) (auto simp: nth_list_update)
  have "n \<in> set (all_nodes ?bs)"
    unfolding nodes using i lru_insert_in by auto
  moreover have "set (all_nodes ?bs) \<subseteq> insert n (set (all_nodes bs))"
    unfolding nodes unfolding set_all_nodes using sub i by (auto split: if_splits)
  moreover have "m \<in> set (all_nodes ?bs)" if "m \<in> set (all_nodes bs)" "bucket_index me (nid m) \<noteq> ?i" for m
  proof -
    from that(1) obtain j where j: "j < length bs" "m \<in> set (bucket_nodes (bs ! j))"
      by (auto simp: set_all_nodes)
    with wf that(2) have "j \<noteq> ?i" by (auto simp: buckets_wf_def)
    with j show ?thesis unfolding nodes by auto
  qed
  ultimately show ?thesis using eq wf' by blast
qed

lemma all_nodes_wf: "buckets_wf me bs \<Longrightarrow> list_all node_wf (all_nodes bs)"
  by (auto simp: list_all_iff set_all_nodes buckets_wf_def kbucket_wf_def)

lemma length_all_nodes: "length (all_nodes bs) = sum_list (map kbucket_len bs)"
  by (induction bs) (simp_all add: all_nodes_def kbucket_len_def)

lemma length_all_nodes_le:
  assumes "buckets_wf me bs"
  shows "length (all_nodes bs) \<le> NUM_BUCKETS * K_nodes"
proof -
  have "\<forall>b \<in> set bs. kbucket_len b \<le> K_nodes"
    using assms by (auto simp: buckets_wf_def kbucket_wf_def kbucket_len_def in_set_conv_nth)
  then have "sum_list (map kbucket_len bs) \<le> length bs * K_nodes"
    by (induction bs) auto
  with assms show ?thesis by (simp add: length_all_nodes buckets_wf_def)
qed

lemma all_nodes_distinct_ids:
  assumes "buckets_wf me bs"
  shows "distinct (map nid (all_nodes bs))"
proof -
  have ids: "map nid (all_nodes bs) = concat (map (\<lambda>b. map nid (bucket_nodes b)) bs)"
    by (simp add: all_nodes_def map_concat comp_def)
  let ?f = "\<lambda>b. map nid (bucket_nodes b)"
  have "distinct (concat (map ?f (take k bs)))" if "k \<le> length bs" for k
    using that
  proof (induction k)
    case (Suc k)
    then have k: "k < length bs" by simp
    have "distinct (?f (bs ! k))" using assms k by (simp add: buckets_wf_def kbucket_wf_def)
    moreover have "set (concat (map ?f (take k bs))) \<inter> set (?f (bs ! k)) = {}"
    proof (rule ccontr)
      assume "set (concat (map ?f (take k bs))) \<inter> set (?f (bs ! k)) \<noteq> {}"
      then obtain j m n where "j < k" "m \<in> set (bucket_nodes (bs ! j))" "n \<in> set (bucket_nodes (bs ! k))" "nid m = nid n"
        using k by (fastforce simp: in_set_conv_nth [of _ "take k bs"])
      with assms k show False unfolding buckets_wf_def by (metis less_irrefl less_trans)
    qed
    ultimately show ?case
      using Suc k by (simp add: take_Suc_conv_app_nth)
  qed simp
  from this [of "length bs"] show ?thesis by (simp add: ids)
qed

subsection \<open>The contract of a node table\<close>

locale node_table =
  fixes inv :: "'t \<Rightarrow> bool"
    and nodes :: "'t \<Rightarrow> Node list"
    and ins :: "'t \<Rightarrow> Node \<Rightarrow> ('t \<times> bool) result"
    and closest :: "'t \<Rightarrow> bytes \<Rightarrow> nat \<Rightarrow> Node list"
  assumes ins_ok:
      "inv t \<Longrightarrow> node_wf n \<Longrightarrow> \<exists>t' new. ins t n = Ok (t', new) \<and> inv t' \<and> n \<in> set (nodes t') \<and>
         set (nodes t') \<subseteq> insert n (set (nodes t))"
    and nodes_wf: "inv t \<Longrightarrow> list_all node_wf (nodes t)"
    and closest_ok:
      "inv t \<Longrightarrow> closest_of (\<lambda>n. xor_distance (nid n) target) c (nodes t) (closest t target c)"

primrec insert_all :: "('t \<Rightarrow> Node \<Rightarrow> ('t \<times> bool) result) \<Rightarrow> 't \<Rightarrow> Node list \<Rightarrow> 't result" where
  "insert_all ins t [] = Ok t"
| "insert_all ins t (n # ns) = and_then (ins t n) (\<lambda>(t', _). insert_all ins t' ns)"

lemma id_distance_0_iff: "length a = length b \<Longrightarrow> id_distance a b = 0 \<longleftrightarrow> a = b"
  unfolding id_distance_def
  by (induction a b rule: list_induct2) (auto simp: be_val_Cons unat_eq_zero)

context node_table
begin

lemma insert_all_ok:
  "inv t \<Longrightarrow> list_all node_wf ns \<Longrightarrow>
     \<exists>t'. insert_all ins t ns = Ok t' \<and> inv t' \<and> set (nodes t') \<subseteq> set (nodes t) \<union> set ns"
proof (induction ns arbitrary: t)
  case (Cons n ns)
  from Cons.prems have wf: "node_wf n" "list_all node_wf ns" by auto
  from ins_ok [OF Cons.prems(1) wf(1)] obtain t1 new where
    t1: "ins t n = Ok (t1, new)" "inv t1" "set (nodes t1) \<subseteq> insert n (set (nodes t))" by blast
  from Cons.IH [OF t1(2) wf(2)] t1 show ?case by fastforce
qed simp

lemma closest_members: "inv t \<Longrightarrow> set (closest t target c) \<subseteq> set (nodes t)"
  using closest_ok [of t target c] by (metis closest_of_def set_mset_mono set_mset_mset)

lemma closest_optimal:
  assumes "inv t" and "length target = 20"
    and m: "m \<in> set (closest t target c)" and n: "n \<in> set (nodes t) - set (closest t target c)"
  shows "id_distance (nid m) target \<le> id_distance (nid n) target"
proof -
  have "m \<in> set (nodes t)" using closest_members [OF assms(1)] m by blast
  then have len: "length (xor_distance (nid m) target) = length (xor_distance (nid n) target)"
    using nodes_wf [OF assms(1)] n assms(2) by (auto simp: list_all_iff node_wf_def)
  have "n \<in># mset (nodes t) - mset (closest t target c)"
    using n by (simp add: in_diff_count) (metis count_eq_zero_iff count_mset_0_iff gr_zeroI set_mset_mset)
  then have "xor_distance (nid m) target \<le> xor_distance (nid n) target"
    using closest_ok [OF assms(1), of target c] m unfolding closest_of_def by auto
  with be_val_le_iff [OF len] show ?thesis by (simp add: id_distance_def)
qed

lemma find_after_insert:
  assumes "inv t" and "node_wf n"
  shows "\<exists>t' new m. ins t n = Ok (t', new) \<and> closest t' (nid n) 1 = [m] \<and> nid m = nid n"
proof -
  from ins_ok [OF assms] obtain t' new where
    t': "ins t n = Ok (t', new)" "inv t'" "n \<in> set (nodes t')" by blast
  then have "0 < length (nodes t')" by (metis length_pos_if_in_set)
  then have "length (closest t' (nid n) 1) = Suc 0"
    using closest_ok [OF t'(2), of "nid n" 1] unfolding closest_of_def
    by (metis One_nat_def Suc_leI min_absorb1)
  then obtain m where m: "closest t' (nid n) 1 = [m]"
    by (auto simp: length_Suc_conv)
  have len: "length (nid m) = 20" "length (nid n) = 20"
    using closest_members [OF t'(2), of "nid n" 1] m nodes_wf [OF t'(2)] assms(2)
    by (auto simp: list_all_iff node_wf_def)
  have "id_distance (nid m) (nid n) \<le> id_distance (nid n) (nid n)"
    using closest_optimal [OF t'(2) len(2), of m 1 n] m t'(3) by (cases "n = m") simp_all
  then have "nid m = nid n"
    using id_distance_0_iff [of "nid m" "nid n"] id_distance_0_iff [of "nid n" "nid n"] len by simp
  with t'(1) m show ?thesis by blast
qed

end


context node_table
begin

lemma closest_sorted:
  assumes "inv t" and "length target = 20"
  shows "sorted (map (\<lambda>n. id_distance (nid n) target) (closest t target c))"
proof -
  let ?R = "closest t target c"
  have len: "length (xor_distance (nid m) target) = 20" if "m \<in> set ?R" for m
  proof -
    have "m \<in> set (nodes t)" using that closest_members [OF assms(1)] by blast
    then have "length (nid m) = 20"
      using nodes_wf [OF assms(1)] by (auto simp: list_all_iff node_wf_def)
    with assms(2) show ?thesis by simp
  qed
  have "sorted_wrt (\<lambda>m n. xor_distance (nid m) target \<le> xor_distance (nid n) target) ?R"
    using closest_ok [OF assms(1), of target c] by (simp add: closest_of_def sorted_wrt_map)
  then have "sorted_wrt (\<lambda>m n. id_distance (nid m) target \<le> id_distance (nid n) target) ?R"
    by (rule sorted_wrt_mono_rel [rotated])
      (metis id_distance_def be_val_le_iff len)
  then show ?thesis by (simp add: sorted_wrt_map)
qed

lemma closest_spec:
  assumes "inv t" and "length target = 20"
  shows "set (closest t target c) \<subseteq> set (nodes t) \<and> length (closest t target c) = min c (length (nodes t)) \<and>
    sorted (map (\<lambda>n. id_distance (nid n) target) (closest t target c)) \<and>
    (\<forall>m \<in> set (closest t target c). \<forall>n \<in> set (nodes t) - set (closest t target c).
       id_distance (nid m) target \<le> id_distance (nid n) target)"
  using closest_members closest_optimal closest_sorted closest_ok [OF assms(1), of target c] assms
  by (simp add: closest_of_def)

end

subsection \<open>Both tables implement the contract\<close>

definition rt_inv :: "RoutingTable \<Rightarrow> bool" where
  "rt_inv rt \<longleftrightarrow> buckets_wf (rt_node_id rt) (rt_buckets rt)"

definition rt_nodes :: "RoutingTable \<Rightarrow> Node list" where
  "rt_nodes rt = all_nodes (rt_buckets rt)"

definition dt_inv :: "DualRoutingTable \<Rightarrow> bool" where
  "dt_inv dt \<longleftrightarrow> buckets_wf (dt_node_id dt) (dt_buckets_v4 dt) \<and> buckets_wf (dt_node_id dt) (dt_buckets_v6 dt) \<and>
     (\<forall>n \<in> set (all_nodes (dt_buckets_v4 dt)). is_v4 (naddr n)) \<and>
     (\<forall>n \<in> set (all_nodes (dt_buckets_v6 dt)). is_v6 (naddr n))"

definition dt_nodes :: "DualRoutingTable \<Rightarrow> Node list" where
  "dt_nodes dt = all_nodes (dt_buckets_v4 dt) @ all_nodes (dt_buckets_v6 dt)"

lemma rt_insert_ok:
  assumes "rt_inv rt" and "node_wf n"
  shows "\<exists>rt'. rt_insert rt n = Ok (rt', nid n \<notin> nid ` set (rt_nodes rt)) \<and> rt_inv rt' \<and>
    rt_node_id rt' = rt_node_id rt \<and>
    n \<in> set (rt_nodes rt') \<and> set (rt_nodes rt') \<subseteq> insert n (set (rt_nodes rt)) \<and>
    (\<forall>m \<in> set (rt_nodes rt). bucket_index (rt_node_id rt) (nid m) \<noteq> bucket_index (rt_node_id rt) (nid n)
       \<longrightarrow> m \<in> set (rt_nodes rt'))"
  using insert_into_buckets_ok [OF assms [unfolded rt_inv_def]]
  by (auto simp: rt_insert_def rt_inv_def rt_nodes_def)

lemma dt_insert_ok:
  assumes "dt_inv dt" and "node_wf n"
  shows "\<exists>dt' new. dt_insert dt n = Ok (dt', new) \<and> dt_inv dt' \<and> dt_node_id dt' = dt_node_id dt \<and>
    n \<in> set (dt_nodes dt') \<and> set (dt_nodes dt') \<subseteq> insert n (set (dt_nodes dt))"
proof (cases "is_v4 (naddr n)")
  case True
  have "buckets_wf (dt_node_id dt) (dt_buckets_v4 dt)" using assms(1) by (simp add: dt_inv_def)
  from insert_into_buckets_ok [OF this assms(2)] obtain bs new where
    bs: "insert_into_buckets (dt_buckets_v4 dt) (dt_node_id dt) n = Ok (bs, new)"
      "buckets_wf (dt_node_id dt) bs" "n \<in> set (all_nodes bs)"
      "set (all_nodes bs) \<subseteq> insert n (set (all_nodes (dt_buckets_v4 dt)))" by blast
  let ?dt = "dt\<lparr>dt_buckets_v4 := bs\<rparr>"
  have "dt_insert dt n = Ok (?dt, new)" using True bs(1) by (simp add: dt_insert_def)
  moreover have "dt_inv ?dt" using assms(1) bs True by (auto simp: dt_inv_def)
  moreover have "n \<in> set (dt_nodes ?dt)" "set (dt_nodes ?dt) \<subseteq> insert n (set (dt_nodes dt))"
    using bs by (auto simp: dt_nodes_def)
  ultimately show ?thesis by fastforce
next
  case False
  have "buckets_wf (dt_node_id dt) (dt_buckets_v6 dt)" using assms(1) by (simp add: dt_inv_def)
  from insert_into_buckets_ok [OF this assms(2)] obtain bs new where
    bs: "insert_into_buckets (dt_buckets_v6 dt) (dt_node_id dt) n = Ok (bs, new)"
      "buckets_wf (dt_node_id dt) bs" "n \<in> set (all_nodes bs)"
      "set (all_nodes bs) \<subseteq> insert n (set (all_nodes (dt_buckets_v6 dt)))" by blast
  let ?dt = "dt\<lparr>dt_buckets_v6 := bs\<rparr>"
  have "dt_insert dt n = Ok (?dt, new)" using False bs(1) by (simp add: dt_insert_def)
  moreover have "dt_inv ?dt" using assms(1) bs False by (auto simp: dt_inv_def)
  moreover have "n \<in> set (dt_nodes ?dt)" "set (dt_nodes ?dt) \<subseteq> insert n (set (dt_nodes dt))"
    using bs by (auto simp: dt_nodes_def)
  ultimately show ?thesis by fastforce
qed

interpretation single: node_table rt_inv rt_nodes rt_insert rt_find_closest
proof
  fix t n assume "rt_inv t" "node_wf n"
  from rt_insert_ok [OF this]
  show "\<exists>t' new. rt_insert t n = Ok (t', new) \<and> rt_inv t' \<and> n \<in> set (rt_nodes t') \<and>
         set (rt_nodes t') \<subseteq> insert n (set (rt_nodes t))" by blast
next
  fix t assume "rt_inv t"
  then show "list_all node_wf (rt_nodes t)" unfolding rt_inv_def rt_nodes_def by (rule all_nodes_wf)
next
  fix t target c assume "rt_inv t"
  show "closest_of (\<lambda>n. xor_distance (nid n) target) c (rt_nodes t) (rt_find_closest t target c)"
    unfolding rt_find_closest_def find_closest_in_buckets_def rt_nodes_def by (rule closest_of_sort)
qed

interpretation dual: node_table dt_inv dt_nodes dt_insert dt_find_closest
proof
  fix t n assume "dt_inv t" "node_wf n"
  from dt_insert_ok [OF this]
  show "\<exists>t' new. dt_insert t n = Ok (t', new) \<and> dt_inv t' \<and> n \<in> set (dt_nodes t') \<and>
         set (dt_nodes t') \<subseteq> insert n (set (dt_nodes t))" by blast
next
  fix t assume "dt_inv t"
  then show "list_all node_wf (dt_nodes t)"
    unfolding dt_inv_def dt_nodes_def list_all_append by (blast intro: all_nodes_wf)
next
  fix t target c assume "dt_inv t"
  show "closest_of (\<lambda>n. xor_distance (nid n) target) c (dt_nodes t) (dt_find_closest t target c)"
    unfolding dt_find_closest_def dt_find_closest_v4_def dt_find_closest_v6_def
      find_closest_in_buckets_def dt_nodes_def Let_def
    by (rule closest_of_merge)
qed

lemma rt_inv_new: "length me = 20 \<Longrightarrow> rt_inv (rt_with_id me)"
  by (simp add: rt_inv_def rt_with_id_def buckets_wf_new)

lemma dt_inv_new: "length me = 20 \<Longrightarrow> dt_inv (dt_with_id me)"
  by (simp add: dt_inv_def dt_with_id_def buckets_wf_new)

subsection \<open>Properties\<close>

text \<open>Insertion into the routing table. On a table satisfying the invariant (160 buckets, at most
  8 nodes each, no ID twice in a bucket, every node in the bucket of its distance) insertion of a
  node with a 20-byte ID never panics; the flag says whether the ID was unknown; the invariant
  and our own ID are kept; the node is then known, no other node appears, and nodes of all the
  other buckets stay.
\<close>

theorem rt_insert_spec:
  assumes "rt_inv rt" and "node_wf n"
  shows "\<exists>rt'. rt_insert rt n = Ok (rt', nid n \<notin> nid ` set (rt_nodes rt)) \<and> rt_inv rt' \<and>
    rt_node_id rt' = rt_node_id rt \<and>
    n \<in> set (rt_nodes rt') \<and> set (rt_nodes rt') \<subseteq> insert n (set (rt_nodes rt)) \<and>
    (\<forall>m \<in> set (rt_nodes rt). bucket_index (rt_node_id rt) (nid m) \<noteq> bucket_index (rt_node_id rt) (nid n)
       \<longrightarrow> m \<in> set (rt_nodes rt'))"
  using assms by (rule rt_insert_ok)

theorem rt_insert_spec_witness:
  "\<exists>rt'. rt_insert (rt_with_id (replicate 20 0)) \<lparr>nid = replicate 20 1, naddr = SocketAddr (V4 1) 80\<rparr> = Ok (rt', True) \<and>
     rt_inv rt' \<and> \<lparr>nid = replicate 20 1, naddr = SocketAddr (V4 1) 80\<rparr> \<in> set (rt_nodes rt')"
proof -
  let ?n = "\<lparr>nid = replicate 20 1, naddr = SocketAddr (V4 1) 80\<rparr>"
  have "rt_inv (rt_with_id (replicate 20 0))" by (simp add: rt_inv_new)
  moreover have "node_wf ?n" by (simp add: node_wf_def)
  moreover have "rt_nodes (rt_with_id (replicate 20 0)) = []" by (simp add: rt_nodes_def rt_with_id_def)
  ultimately show ?thesis
    using rt_insert_spec [of "rt_with_id (replicate 20 0)" ?n] by auto
qed

text \<open>
  C35. A table built by any sequence of insertions. Starting from the empty table with a 20-byte ID
  no insertion fails, the table stays well formed, knows only inserted nodes, holds at most
  160 * 8 of them (\<open>num_nodes\<close>) and no two with the same ID.
\<close>

theorem rt_reachable:
  assumes "length me = 20" and "list_all node_wf ns"
  shows "\<exists>rt. insert_all rt_insert (rt_with_id me) ns = Ok rt \<and> rt_inv rt \<and>
     set (rt_nodes rt) \<subseteq> set ns \<and> rt_num_nodes rt = length (rt_nodes rt) \<and> rt_num_nodes rt \<le> 1280 \<and>
     distinct (map nid (rt_nodes rt))"
proof -
  from single.insert_all_ok [OF rt_inv_new [OF assms(1)] assms(2)] obtain rt where
    rt: "insert_all rt_insert (rt_with_id me) ns = Ok rt" "rt_inv rt" "set (rt_nodes rt) \<subseteq> set ns"
    by (auto simp: rt_nodes_def rt_with_id_def)
  have "rt_num_nodes rt = length (rt_nodes rt)"
    by (simp add: rt_num_nodes_def rt_nodes_def length_all_nodes)
  with rt length_all_nodes_le [of "rt_node_id rt" "rt_buckets rt"] all_nodes_distinct_ids [of "rt_node_id rt" "rt_buckets rt"]
  show ?thesis by (auto simp: rt_inv_def rt_nodes_def NUM_BUCKETS_def K_nodes_def)
qed

theorem rt_reachable_witness:
  "\<exists>rt. insert_all rt_insert (rt_with_id (replicate 20 0))
        [\<lparr>nid = replicate 20 1, naddr = SocketAddr (V4 1) 80\<rparr>, \<lparr>nid = replicate 20 2, naddr = SocketAddr (V4 2) 80\<rparr>] = Ok rt \<and>
     rt_inv rt \<and> rt_num_nodes rt \<le> 1280"
  using rt_reachable [of "replicate 20 0" "[\<lparr>nid = replicate 20 1, naddr = SocketAddr (V4 1) 80\<rparr>,
      \<lparr>nid = replicate 20 2, naddr = SocketAddr (V4 2) 80\<rparr>]"]
  by (auto simp: node_wf_def)

text \<open>
  C36. Closest nodes, single family. \<open>find_closest\<close> answers known nodes only, as many as asked or
  all, in increasing XOR distance (as 160-bit numbers) to the target, and no known node that is
  left out is closer than one that is answered.
\<close>

theorem rt_find_closest_spec:
  assumes "rt_inv rt" and "length target = 20"
  shows "set (rt_find_closest rt target c) \<subseteq> set (rt_nodes rt) \<and>
    length (rt_find_closest rt target c) = min c (length (rt_nodes rt)) \<and>
    sorted (map (\<lambda>n. id_distance (nid n) target) (rt_find_closest rt target c)) \<and>
    (\<forall>m \<in> set (rt_find_closest rt target c). \<forall>n \<in> set (rt_nodes rt) - set (rt_find_closest rt target c).
       id_distance (nid m) target \<le> id_distance (nid n) target)"
  using assms by (rule single.closest_spec)

theorem rt_find_closest_spec_witness:
  "\<exists>rt. rt_insert (rt_with_id (replicate 20 0)) \<lparr>nid = replicate 20 1, naddr = SocketAddr (V4 1) 80\<rparr> = Ok (rt, True) \<and>
     0 < length (rt_find_closest rt (replicate 20 1) 8)"
proof -
  let ?n = "\<lparr>nid = replicate 20 1, naddr = SocketAddr (V4 1) 80\<rparr>" and ?rt = "rt_with_id (replicate 20 0)"
  have "rt_inv ?rt" by (rule rt_inv_new) simp
  moreover have "node_wf ?n" "rt_nodes ?rt = []"
    by (simp_all add: node_wf_def rt_nodes_def rt_with_id_def)
  ultimately obtain rt where
    rt: "rt_insert ?rt ?n = Ok (rt, True)" "rt_inv rt" "?n \<in> set (rt_nodes rt)"
    using rt_insert_ok [of ?rt ?n] by auto
  then have "0 < length (rt_nodes rt)" by (auto simp: length_pos_if_in_set)
  moreover have "length (rt_find_closest rt (replicate 20 1) 8) = min 8 (length (rt_nodes rt))"
    using rt_find_closest_spec [OF rt(2), of "replicate 20 1" 8] by simp
  ultimately have "0 < length (rt_find_closest rt (replicate 20 1) 8)" by linarith
  with rt(1) show ?thesis by blast
qed

text \<open>Closest nodes, dual stack. Merging the \<open>count\<close> closest of each family and cutting again
  loses nothing: the answer is optimal among the nodes of both families.
\<close>

theorem dt_find_closest_spec:
  assumes "dt_inv dt" and "length target = 20"
  shows "set (dt_find_closest dt target c) \<subseteq> set (dt_nodes dt) \<and>
    length (dt_find_closest dt target c) = min c (dt_num_nodes dt) \<and>
    sorted (map (\<lambda>n. id_distance (nid n) target) (dt_find_closest dt target c)) \<and>
    (\<forall>m \<in> set (dt_find_closest dt target c). \<forall>n \<in> set (dt_nodes dt) - set (dt_find_closest dt target c).
       id_distance (nid m) target \<le> id_distance (nid n) target)"
proof -
  have "dt_num_nodes dt = length (dt_nodes dt)"
    by (simp add: dt_num_nodes_def dt_num_nodes_v4_def dt_num_nodes_v6_def dt_nodes_def length_all_nodes)
  with dual.closest_spec [OF assms, of c] show ?thesis by simp
qed

theorem dt_find_closest_spec_witness:
  "length (dt_find_closest (dt_with_id (replicate 20 0)) (replicate 20 1) 8) = min 8 (dt_num_nodes (dt_with_id (replicate 20 0)))"
  using dt_find_closest_spec [OF dt_inv_new, of "replicate 20 0" "replicate 20 1" 8] by simp

text \<open>A node is found after its insertion. In either table, right after inserting a node, the
  single closest node to its ID is a node with that very ID.
\<close>

theorem find_after_insert_both:
  assumes "rt_inv rt" and "dt_inv dt" and "node_wf n"
  shows "(\<exists>rt' new m. rt_insert rt n = Ok (rt', new) \<and> rt_find_closest rt' (nid n) 1 = [m] \<and> nid m = nid n) \<and>
    (\<exists>dt' new m. dt_insert dt n = Ok (dt', new) \<and> dt_find_closest dt' (nid n) 1 = [m] \<and> nid m = nid n)"
  using single.find_after_insert [OF assms(1,3)] dual.find_after_insert [OF assms(2,3)] by blast

theorem find_after_insert_both_witness:
  "\<exists>dt' new m. dt_insert (dt_with_id (replicate 20 0)) \<lparr>nid = replicate 20 1, naddr = SocketAddr (V6 1) 80\<rparr> = Ok (dt', new) \<and>
     dt_find_closest dt' (replicate 20 1) 1 = [m] \<and> nid m = replicate 20 1"
  using find_after_insert_both [of "rt_with_id (replicate 20 0)" "dt_with_id (replicate 20 0)"
      "\<lparr>nid = replicate 20 1, naddr = SocketAddr (V6 1) 80\<rparr>"]
  by (simp add: rt_inv_new dt_inv_new node_wf_def)

end
