(* ===== verification/Krpc.thy ===== *)
theory Krpc
  imports Bencode Dht_Table
begin

section \<open>KRPC, the message protocol of the DHT\<close>

text \<open>
  \<open>dht/krpc.rs\<close> of \<open>torrent-core\<close>: the messages and their bencoding, the builders of queries
  and responses, the response parsers and the compact node lists (\<open>record_codec\<close>).
\<close>

datatype KrpcMessage =
    Query bytes rstring bencode
  | Response bytes bencode
  | ErrorMsg bytes i64 rstring

definition krpc_dict_get :: "bencode \<Rightarrow> bytes \<Rightarrow> bencode option" where
  "krpc_dict_get val key =
     (case val of
        Dict entries \<Rightarrow> map_option snd (find (\<lambda>(k, _). k = key) entries)
      | _ \<Rightarrow> None)"

definition krpc_dict_get_bytes :: "bencode \<Rightarrow> bytes \<Rightarrow> bytes option" where
  "krpc_dict_get_bytes val key =
     Option.bind (krpc_dict_get val key) (\<lambda>v. case v of Bytes b \<Rightarrow> Some b | _ \<Rightarrow> None)"

fun krpc_dict :: "KrpcMessage \<Rightarrow> bencode" where
  "krpc_dict (Query t m a) =
     Dict [(ascii ''t'', Bytes t), (ascii ''y'', Bytes (ascii ''q'')), (ascii ''q'', Bytes m), (ascii ''a'', a)]"
| "krpc_dict (Response t r) =
     Dict [(ascii ''t'', Bytes t), (ascii ''y'', Bytes (ascii ''r'')), (ascii ''r'', r)]"
| "krpc_dict (ErrorMsg t c m) =
     Dict [(ascii ''t'', Bytes t), (ascii ''y'', Bytes (ascii ''e'')),
           (ascii ''e'', List [Integer c, Bytes m])]"

definition krpc_to_bytes :: "KrpcMessage \<Rightarrow> bytes" where
  "krpc_to_bytes msg = encode (krpc_dict msg)"

text \<open>\<open>fill_array n b\<close>: the first \<open>n\<close> bytes of \<open>b\<close> copied into a zeroed array of \<open>n\<close> bytes.\<close>

definition fill_array :: "nat \<Rightarrow> bytes \<Rightarrow> bytes" where
  "fill_array n b = take n b @ replicate (n - length b) 0"

definition krpc_error_of :: "bytes \<Rightarrow> bencode \<Rightarrow> KrpcMessage result" where
  "krpc_error_of t err_val =
     (case err_val of
        List (c # m # _) \<Rightarrow>
          (case c of
             Integer code \<Rightarrow>
               (case m of
                  Bytes b \<Rightarrow> Ok (ErrorMsg t code (case from_utf8 b of Some s \<Rightarrow> s | None \<Rightarrow> []))
                | _ \<Rightarrow> Err Protocol)
           | _ \<Rightarrow> Err Protocol)
      | _ \<Rightarrow> Err Protocol)"

definition krpc_from_bencode :: "bencode \<Rightarrow> KrpcMessage result" where
  "krpc_from_bencode val =
     and_then (ok_or Protocol (krpc_dict_get_bytes val (ascii ''t''))) (\<lambda>t.
     let transaction_id = fill_array 2 t in
     and_then (ok_or Protocol (krpc_dict_get_bytes val (ascii ''y''))) (\<lambda>y.
     let y_byte = (if y \<noteq> [] then hd y else 0) in
     if y_byte = 113 then
       and_then (ok_or Protocol (Option.bind (krpc_dict_get_bytes val (ascii ''q'')) from_utf8)) (\<lambda>m.
         Ok (Query transaction_id m
               (case krpc_dict_get val (ascii ''a'') of Some a \<Rightarrow> a | None \<Rightarrow> Dict [])))
     else if y_byte = 114 then
       Ok (Response transaction_id
             (case krpc_dict_get val (ascii ''r'') of Some r \<Rightarrow> r | None \<Rightarrow> Dict []))
     else if y_byte = 101 then
       and_then (ok_or Protocol (krpc_dict_get val (ascii ''e''))) (krpc_error_of transaction_id)
     else Err Protocol))"

definition krpc_from_bytes :: "bytes \<Rightarrow> KrpcMessage result" where
  "krpc_from_bytes data = and_then (decode data) (\<lambda>(val, _). krpc_from_bencode val)"

subsection \<open>Query builders\<close>

definition build_ping :: "bytes \<Rightarrow> bytes \<Rightarrow> bytes" where
  "build_ping t node_id = krpc_to_bytes (Query t (ascii ''ping'') (Dict [(ascii ''id'', Bytes node_id)]))"

definition want_entry :: "rstring list option \<Rightarrow> (bytes \<times> bencode) list" where
  "want_entry want = (case want of None \<Rightarrow> [] | Some w \<Rightarrow> [(ascii ''want'', List (map Bytes w))])"

definition build_find_node :: "bytes \<Rightarrow> bytes \<Rightarrow> bytes \<Rightarrow> rstring list option \<Rightarrow> bytes" where
  "build_find_node t node_id target want =
     krpc_to_bytes (Query t (ascii ''find_node'')
       (Dict ([(ascii ''id'', Bytes node_id), (ascii ''target'', Bytes target)] @ want_entry want)))"

definition build_get_peers :: "bytes \<Rightarrow> bytes \<Rightarrow> bytes \<Rightarrow> rstring list option \<Rightarrow> bytes" where
  "build_get_peers t node_id info_hash want =
     krpc_to_bytes (Query t (ascii ''get_peers'')
       (Dict ([(ascii ''id'', Bytes node_id), (ascii ''info_hash'', Bytes info_hash)] @ want_entry want)))"

definition build_announce_peer :: "bytes \<Rightarrow> bytes \<Rightarrow> bytes \<Rightarrow> u16 \<Rightarrow> bytes \<Rightarrow> bytes" where
  "build_announce_peer t node_id info_hash port token =
     krpc_to_bytes (Query t (ascii ''announce_peer'')
       (Dict [(ascii ''id'', Bytes node_id), (ascii ''info_hash'', Bytes info_hash),
              (ascii ''port'', Integer (ucast port)), (ascii ''token'', Bytes token)]))"

subsection \<open>Compact nodes\<close>

definition node4_from_chunk :: "bytes \<Rightarrow> Node" where
  "node4_from_chunk c =
     \<lparr>nid = take 20 c, naddr = SocketAddr (V4 (from_be_bytes (take 4 (drop 20 c)))) (from_be_bytes (take 2 (drop 24 c)))\<rparr>"

definition node6_from_chunk :: "bytes \<Rightarrow> Node" where
  "node6_from_chunk c =
     \<lparr>nid = take 20 c, naddr = SocketAddr (V6 (from_be_bytes (take 16 (drop 20 c)))) (from_be_bytes (take 2 (drop 36 c)))\<rparr>"

definition parse_compact_nodes4 :: "bytes \<Rightarrow> Node list" where
  "parse_compact_nodes4 data = map node4_from_chunk (chunks_exact 26 data)"

definition parse_compact_nodes6 :: "bytes \<Rightarrow> Node list" where
  "parse_compact_nodes6 data = map node6_from_chunk (chunks_exact 38 data)"

fun encode_compact_nodes4 :: "Node list \<Rightarrow> bytes" where
  "encode_compact_nodes4 [] = []"
| "encode_compact_nodes4 (n # ns) =
     (case sa_ip (naddr n) of
        V4 ip \<Rightarrow> nid n @ to_be_bytes ip @ to_be_bytes (sa_port (naddr n)) @ encode_compact_nodes4 ns
      | V6 _ \<Rightarrow> encode_compact_nodes4 ns)"

fun encode_compact_nodes6 :: "Node list \<Rightarrow> bytes" where
  "encode_compact_nodes6 [] = []"
| "encode_compact_nodes6 (n # ns) =
     (case sa_ip (naddr n) of
        V6 ip \<Rightarrow> nid n @ to_be_bytes ip @ to_be_bytes (sa_port (naddr n)) @ encode_compact_nodes6 ns
      | V4 _ \<Rightarrow> encode_compact_nodes6 ns)"

subsection \<open>Response builders and parsers\<close>

definition build_ping_response :: "bytes \<Rightarrow> bytes \<Rightarrow> bytes" where
  "build_ping_response t node_id = krpc_to_bytes (Response t (Dict [(ascii ''id'', Bytes node_id)]))"

definition nodes6_entry :: "Node list \<Rightarrow> (bytes \<times> bencode) list" where
  "nodes6_entry nodes =
     (let compact6 = encode_compact_nodes6 nodes
      in if compact6 \<noteq> [] then [(ascii ''nodes6'', Bytes compact6)] else [])"

definition build_find_node_response :: "bytes \<Rightarrow> bytes \<Rightarrow> Node list \<Rightarrow> bytes" where
  "build_find_node_response t node_id nodes =
     krpc_to_bytes (Response t
       (Dict ([(ascii ''id'', Bytes node_id), (ascii ''nodes'', Bytes (encode_compact_nodes4 nodes))]
              @ nodes6_entry nodes)))"

definition peer_value :: "SocketAddr \<Rightarrow> bencode" where
  "peer_value addr =
     Bytes ((case sa_ip addr of V4 ip \<Rightarrow> to_be_bytes ip | V6 ip \<Rightarrow> to_be_bytes ip) @ to_be_bytes (sa_port addr))"

definition build_get_peers_response_values :: "bytes \<Rightarrow> bytes \<Rightarrow> bytes \<Rightarrow> SocketAddr list \<Rightarrow> bytes" where
  "build_get_peers_response_values t node_id token peers =
     krpc_to_bytes (Response t
       (Dict [(ascii ''id'', Bytes node_id), (ascii ''token'', Bytes token),
              (ascii ''values'', List (map peer_value peers))]))"

definition build_get_peers_response_nodes :: "bytes \<Rightarrow> bytes \<Rightarrow> bytes \<Rightarrow> Node list \<Rightarrow> bytes" where
  "build_get_peers_response_nodes t node_id token nodes =
     krpc_to_bytes (Response t
       (Dict ([(ascii ''id'', Bytes node_id), (ascii ''token'', Bytes token),
               (ascii ''nodes'', Bytes (encode_compact_nodes4 nodes))] @ nodes6_entry nodes)))"

definition build_error_response :: "bytes \<Rightarrow> i64 \<Rightarrow> rstring \<Rightarrow> bytes" where
  "build_error_response t c m = krpc_to_bytes (ErrorMsg t c m)"

definition parse_ping_response :: "KrpcMessage \<Rightarrow> bytes result" where
  "parse_ping_response msg =
     (case msg of
        Response _ r \<Rightarrow>
          and_then (ok_or Protocol (krpc_dict_get_bytes r (ascii ''id''))) (\<lambda>node_id. Ok (fill_array 20 node_id))
      | _ \<Rightarrow> Err Protocol)"

datatype GetPeersResult = Values bytes "SocketAddr list" | Nodes "Node list"

definition parse_peer_value :: "bencode \<Rightarrow> SocketAddr option" where
  "parse_peer_value v =
     (case v of
        Bytes b \<Rightarrow>
          if length b = 6 then Some (addr4_from_chunk b)
          else if length b = 18 then Some (addr6_from_chunk b) else None
      | _ \<Rightarrow> None)"

definition parse_get_peers_response :: "KrpcMessage \<Rightarrow> GetPeersResult result" where
  "parse_get_peers_response msg =
     (case msg of
        Response _ r \<Rightarrow>
          and_then (ok_or Protocol (krpc_dict_get_bytes r (ascii ''token''))) (\<lambda>token.
            case krpc_dict_get r (ascii ''values'') of
              Some (List vs) \<Rightarrow> Ok (Values token (List.map_filter parse_peer_value vs))
            | _ \<Rightarrow>
              (let nodes = (case krpc_dict_get_bytes r (ascii ''nodes'') of
                              Some b \<Rightarrow> parse_compact_nodes4 b | None \<Rightarrow> []);
                   nodes6 = (case krpc_dict_get_bytes r (ascii ''nodes6'') of
                              Some b \<Rightarrow> parse_compact_nodes6 b | None \<Rightarrow> [])
               in if nodes \<noteq> [] then Ok (Nodes nodes)
                  else if nodes6 \<noteq> [] then Ok (Nodes nodes6)
                  else Err Protocol))
      | _ \<Rightarrow> Err Protocol)"


subsection \<open>Messages survive the wire\<close>

fun krpc_wf :: "KrpcMessage \<Rightarrow> bool" where
  "krpc_wf (Query t m a) = (length t = 2 \<and> utf8_valid m \<and> uniq_keys a)"
| "krpc_wf (Response t r) = (length t = 2 \<and> uniq_keys r)"
| "krpc_wf (ErrorMsg t c m) = (length t = 2 \<and> utf8_valid m)"

fun krpc_normal :: "KrpcMessage \<Rightarrow> KrpcMessage" where
  "krpc_normal (Query t m a) = Query t m (normal a)"
| "krpc_normal (Response t r) = Response t (normal r)"
| "krpc_normal (ErrorMsg t c m) = ErrorMsg t c m"

lemma krpc_dict_get_eq: "krpc_dict_get = dict_get"
  by (intro ext) (simp add: krpc_dict_get_def dict_get_def)

lemma krpc_dict_get_bytes_eq: "krpc_dict_get_bytes = dict_get_bytes"
  by (intro ext) (simp add: krpc_dict_get_bytes_def dict_get_bytes_def krpc_dict_get_eq)

lemma fill_array_exact: "length b = n \<Longrightarrow> fill_array n b = b"
  by (simp add: fill_array_def)

lemma length_fill_array [simp]: "length (fill_array n b) = n"
  by (simp add: fill_array_def min_def)

lemma krpc_keys_neq:
  "ascii ''t'' \<noteq> ascii ''y''" "ascii ''t'' \<noteq> ascii ''q''" "ascii ''t'' \<noteq> ascii ''a''"
  "ascii ''t'' \<noteq> ascii ''r''" "ascii ''t'' \<noteq> ascii ''e''" "ascii ''y'' \<noteq> ascii ''q''"
  "ascii ''y'' \<noteq> ascii ''a''" "ascii ''y'' \<noteq> ascii ''r''" "ascii ''y'' \<noteq> ascii ''e''"
  "ascii ''q'' \<noteq> ascii ''a''"
  by (simp_all add: ascii_def)

lemma hd_ascii_kind: "hd (ascii ''q'') = 113" "hd (ascii ''r'') = 114" "hd (ascii ''e'') = 101"
  "ascii ''q'' \<noteq> []" "ascii ''r'' \<noteq> []" "ascii ''e'' \<noteq> []"
  by (simp_all add: ascii_def)

lemma krpc_dict_uniq: "krpc_wf msg \<Longrightarrow> uniq_keys (krpc_dict msg)"
  by (cases msg) (simp_all add: krpc_keys_neq)

lemma krpc_from_bencode_dict:
  "krpc_wf msg \<Longrightarrow> krpc_from_bencode (normal (krpc_dict msg)) = Ok (krpc_normal msg)"
proof -
  assume wf: "krpc_wf msg"
  note u = krpc_dict_uniq [OF wf]
  show ?thesis
    unfolding krpc_from_bencode_def krpc_dict_get_eq krpc_dict_get_bytes_eq
      dict_get_bytes_normal [OF u] dict_get_normal [OF u]
    using wf
    by (cases msg)
      (simp_all add: dict_get_bytes_def krpc_keys_neq krpc_keys_neq [symmetric] hd_ascii_kind
        fill_array_exact from_utf8_def krpc_error_of_def)
qed

lemma krpc_roundtrip_aux:
  assumes "krpc_wf msg" and "length (krpc_to_bytes msg) < 2 ^ 64"
  shows "krpc_from_bytes (krpc_to_bytes msg @ rest) = Ok (krpc_normal msg)"
  using assms krpc_dict_uniq [OF assms(1)] krpc_from_bencode_dict [OF assms(1)]
  by (simp add: krpc_from_bytes_def krpc_to_bytes_def decode_encode_normal)

text \<open>
  C40. KRPC messages round trip. A query, response or error with a two-byte transaction ID, UTF-8
  texts and no repeated dictionary key is decoded, whatever follows it in the datagram, to itself
  with its dictionaries sorted.
\<close>

theorem krpc_roundtrip:
  assumes "krpc_wf msg" and "length (krpc_to_bytes msg) < 2 ^ 64"
  shows "krpc_from_bytes (krpc_to_bytes msg @ rest) = Ok (krpc_normal msg)"
  using assms by (rule krpc_roundtrip_aux)

theorem krpc_roundtrip_witness:
  "krpc_from_bytes (krpc_to_bytes (ErrorMsg [1, 2] 203 (ascii ''bad token'')) @ [])
     = Ok (ErrorMsg [1, 2] 203 (ascii ''bad token''))"
proof -
  let ?m = "ErrorMsg [1, 2] 203 (ascii ''bad token'')"
  have "krpc_wf ?m" by code_simp
  moreover have "length (krpc_to_bytes ?m) = 36" by code_simp
  then have "length (krpc_to_bytes ?m) < 2 ^ 64" by simp
  ultimately show ?thesis using krpc_roundtrip [of ?m "[]"] by simp
qed

subsection \<open>Compact node lists\<close>

definition node4_ok :: "Node \<Rightarrow> bool" where
  "node4_ok n \<longleftrightarrow> node_wf n \<and> is_v4 (naddr n)"

definition node6_ok :: "Node \<Rightarrow> bool" where
  "node6_ok n \<longleftrightarrow> node_wf n \<and> is_v6 (naddr n)"

definition node_to_bytes :: "Node \<Rightarrow> bytes" where
  "node_to_bytes n = nid n @ addr_to_bytes (naddr n)"

lemma node4_from_chunk_eq: "node4_from_chunk c = \<lparr>nid = take 20 c, naddr = addr4_from_chunk (drop 20 c)\<rparr>"
  by (simp add: node4_from_chunk_def addr4_from_chunk_def)

lemma node6_from_chunk_eq: "node6_from_chunk c = \<lparr>nid = take 20 c, naddr = addr6_from_chunk (drop 20 c)\<rparr>"
  by (simp add: node6_from_chunk_def addr6_from_chunk_def)

interpretation nodes4: record_codec 26 node4_ok node_to_bytes node4_from_chunk
proof
  fix n assume "node4_ok n"
  then show "length (node_to_bytes n) = 26" "node4_from_chunk (node_to_bytes n) = n"
    by (simp_all add: node4_ok_def node_wf_def node_to_bytes_def compact4.length_enc
        node4_from_chunk_eq compact4.dec_enc)
next
  fix b :: bytes assume "length b = 26"
  then show "node_to_bytes (node4_from_chunk b) = b" "node4_ok (node4_from_chunk b)"
    by (simp_all add: node_to_bytes_def node4_from_chunk_eq compact4.enc_dec compact4.ok_dec
        node4_ok_def node_wf_def)
qed simp

interpretation nodes6: record_codec 38 node6_ok node_to_bytes node6_from_chunk
proof
  fix n assume "node6_ok n"
  then show "length (node_to_bytes n) = 38" "node6_from_chunk (node_to_bytes n) = n"
    by (simp_all add: node6_ok_def node_wf_def node_to_bytes_def compact6.length_enc
        node6_from_chunk_eq compact6.dec_enc)
next
  fix b :: bytes assume "length b = 38"
  then show "node_to_bytes (node6_from_chunk b) = b" "node6_ok (node6_from_chunk b)"
    using compact6.ok_dec [of "drop 20 b"]
    by (simp_all add: node_to_bytes_def node6_from_chunk_eq compact6.enc_dec node6_ok_def node_wf_def)
qed simp

lemma encode_nodes4_eq: "encode_compact_nodes4 ns = concat (map node_to_bytes (filter (\<lambda>n. is_v4 (naddr n)) ns))"
proof (induction ns)
  case (Cons n ns)
  then show ?case
    by (cases "naddr n" rule: is_v4.cases) (simp_all add: node_to_bytes_def addr4_to_bytes_def)
qed simp

lemma encode_nodes6_eq: "encode_compact_nodes6 ns = concat (map node_to_bytes (filter (\<lambda>n. is_v6 (naddr n)) ns))"
proof (induction ns)
  case (Cons n ns)
  then show ?case
    by (cases "naddr n" rule: is_v4.cases) (simp_all add: node_to_bytes_def addr6_to_bytes_def)
qed simp

lemma parse_encode_nodes4:
  "list_all node_wf ns \<Longrightarrow> parse_compact_nodes4 (encode_compact_nodes4 ns) = filter (\<lambda>n. is_v4 (naddr n)) ns"
  unfolding parse_compact_nodes4_def encode_nodes4_eq
  by (rule nodes4.decode_all) (auto simp: list_all_iff node4_ok_def)

lemma parse_encode_nodes6:
  "list_all node_wf ns \<Longrightarrow> parse_compact_nodes6 (encode_compact_nodes6 ns) = filter (\<lambda>n. is_v6 (naddr n)) ns"
  unfolding parse_compact_nodes6_def encode_nodes6_eq
  by (rule nodes6.decode_all) (auto simp: list_all_iff node6_ok_def)

text \<open>Compact node lists (BEP 5, BEP 32). Parsing what either encoder wrote gives back the nodes
  of its address family in order; encoding what was parsed from a list of whole records gives
  back the bytes.
\<close>

theorem compact_nodes_roundtrip:
  assumes "list_all node_wf ns" and "26 dvd length data4" and "38 dvd length data6"
  shows "parse_compact_nodes4 (encode_compact_nodes4 ns) = filter (\<lambda>n. is_v4 (naddr n)) ns \<and>
    parse_compact_nodes6 (encode_compact_nodes6 ns) = filter (\<lambda>n. is_v6 (naddr n)) ns \<and>
    encode_compact_nodes4 (parse_compact_nodes4 data4) = data4 \<and>
    encode_compact_nodes6 (parse_compact_nodes6 data6) = data6"
proof -
  have "filter (\<lambda>n. is_v4 (naddr n)) (parse_compact_nodes4 data4) = parse_compact_nodes4 data4"
    using nodes4.all_ok [of data4]
    by (intro filter_True) (simp add: parse_compact_nodes4_def list_all_iff node4_ok_def)
  then have "encode_compact_nodes4 (parse_compact_nodes4 data4) = data4"
    using nodes4.encode_all [OF assms(2)] by (simp add: encode_nodes4_eq parse_compact_nodes4_def)
  moreover have "filter (\<lambda>n. is_v6 (naddr n)) (parse_compact_nodes6 data6) = parse_compact_nodes6 data6"
    using nodes6.all_ok [of data6]
    by (intro filter_True) (simp add: parse_compact_nodes6_def list_all_iff node6_ok_def)
  then have "encode_compact_nodes6 (parse_compact_nodes6 data6) = data6"
    using nodes6.encode_all [OF assms(3)] by (simp add: encode_nodes6_eq parse_compact_nodes6_def)
  ultimately show ?thesis using parse_encode_nodes4 parse_encode_nodes6 assms(1) by blast
qed

theorem compact_nodes_roundtrip_witness:
  "parse_compact_nodes6 (encode_compact_nodes6 [\<lparr>nid = replicate 20 7, naddr = SocketAddr (V6 1) 6881\<rparr>])
     = [\<lparr>nid = replicate 20 7, naddr = SocketAddr (V6 1) 6881\<rparr>]"
  using compact_nodes_roundtrip [of "[\<lparr>nid = replicate 20 7, naddr = SocketAddr (V6 1) 6881\<rparr>]" "[]" "[]"]
  by (simp add: node_wf_def)


subsection \<open>Replies are understood\<close>

lemma response_decode:
  assumes "length t = 2" and "uniq_keys r" and "length (krpc_to_bytes (Response t r)) < 2 ^ 64"
  shows "krpc_from_bytes (krpc_to_bytes (Response t r)) = Ok (Response t (normal r))"
  using krpc_roundtrip_aux [of "Response t r" "[]"] assms by simp

lemma parse_peer_value_normal: "parse_peer_value (normal v) = parse_peer_value v"
  by (cases v) (simp_all add: parse_peer_value_def)

lemma map_filter_normal: "List.map_filter parse_peer_value (map normal vs) = List.map_filter parse_peer_value vs"
  by (induction vs) (simp_all add: map_filter_simps parse_peer_value_normal split: option.split)

lemma parse_get_peers_normal:
  assumes r: "uniq_keys r"
  shows "parse_get_peers_response (Response t (normal r)) = parse_get_peers_response (Response t r)"
proof (cases "dict_get r (ascii ''values'')")
  case None
  then show ?thesis
    by (simp add: parse_get_peers_response_def krpc_dict_get_eq krpc_dict_get_bytes_eq
        dict_get_bytes_normal [OF r] dict_get_normal [OF r])
next
  case (Some v)
  then show ?thesis
    by (cases v) (simp_all add: parse_get_peers_response_def krpc_dict_get_eq krpc_dict_get_bytes_eq
        dict_get_bytes_normal [OF r] dict_get_normal [OF r] map_filter_normal)
qed

lemma reply_keys_neq:
  "ascii ''id'' \<noteq> ascii ''token''" "ascii ''id'' \<noteq> ascii ''values''" "ascii ''id'' \<noteq> ascii ''nodes''"
  "ascii ''id'' \<noteq> ascii ''nodes6''" "ascii ''token'' \<noteq> ascii ''values''" "ascii ''token'' \<noteq> ascii ''nodes''"
  "ascii ''token'' \<noteq> ascii ''nodes6''" "ascii ''nodes'' \<noteq> ascii ''nodes6''"
  "ascii ''nodes'' \<noteq> ascii ''values''" "ascii ''nodes6'' \<noteq> ascii ''values''"
  by (simp_all add: ascii_def)

lemmas reply_keys = reply_keys_neq reply_keys_neq [symmetric]

lemma parse_peer_value_inv: "parse_peer_value (peer_value a) = Some a"
proof (cases a rule: is_v4.cases)
  case (1 ip port)
  then show ?thesis
    using compact4.dec_enc [of a] compact4.length_enc [of a]
    by (simp add: parse_peer_value_def peer_value_def addr4_to_bytes_def)
next
  case (2 ip port)
  then show ?thesis
    using compact6.dec_enc [of a] compact6.length_enc [of a]
    by (simp add: parse_peer_value_def peer_value_def addr6_to_bytes_def)
qed

lemma map_filter_peer_values: "List.map_filter parse_peer_value (map peer_value ps) = ps"
  by (induction ps) (simp_all add: map_filter_simps parse_peer_value_inv)

lemma uniq_peer_values: "list_all uniq_keys (map peer_value ps)"
  by (simp add: list_all_iff peer_value_def)

text \<open>The \<open>values\<close> reply to \<open>get_peers\<close>. Parsing the datagram a node built from a token and a
  list of peers of both address families answers exactly that token and that list.
\<close>

theorem get_peers_values_reply:
  assumes "length t = 2" and "length (build_get_peers_response_values t node_id token peers) < 2 ^ 64"
  shows "and_then (krpc_from_bytes (build_get_peers_response_values t node_id token peers)) parse_get_peers_response
    = Ok (Values token peers)"
proof -
  let ?r = "Dict [(ascii ''id'', Bytes node_id), (ascii ''token'', Bytes token), (ascii ''values'', List (map peer_value peers))]"
  have r: "uniq_keys ?r" using uniq_peer_values by (simp add: reply_keys)
  show ?thesis
    using response_decode [OF assms(1) r] assms(2)
    unfolding build_get_peers_response_values_def
    by (simp only: and_then.simps parse_get_peers_normal [OF r])
      (simp add: parse_get_peers_response_def krpc_dict_get_eq krpc_dict_get_bytes_eq dict_get_bytes_def
        reply_keys map_filter_peer_values)
qed

theorem get_peers_values_reply_witness:
  "and_then (krpc_from_bytes (build_get_peers_response_values [1, 2] (replicate 20 9) [7] [])) parse_get_peers_response
     = Ok (Values [7] [])"
proof -
  have "length (build_get_peers_response_values [1, 2] (replicate 20 9) [7] []) = 67" by code_simp
  then have "length (build_get_peers_response_values [1, 2] (replicate 20 9) [7] []) < 2 ^ 64" by simp
  then show ?thesis by (intro get_peers_values_reply) simp
qed

lemma nodes6_entry_empty:
  "list_all node_wf nodes \<Longrightarrow> nodes6_entry nodes = [] \<longleftrightarrow> filter (\<lambda>n. is_v6 (naddr n)) nodes = []"
proof -
  assume wf: "list_all node_wf nodes"
  show ?thesis
  proof (cases "encode_compact_nodes6 nodes = []")
    case True
    with parse_encode_nodes6 [OF wf] show ?thesis
      by (simp add: nodes6_entry_def parse_compact_nodes6_def)
  next
    case False
    moreover from this have "filter (\<lambda>n. is_v6 (naddr n)) nodes \<noteq> []" unfolding encode_nodes6_eq by (metis concat.simps(1) list.simps(8))
    ultimately show ?thesis by (simp add: nodes6_entry_def)
  qed
qed

text \<open>The \<open>nodes\<close> reply to \<open>get_peers\<close>. Parsing the datagram built from a node list answers the
  IPv4 nodes if there is one, the IPv6 nodes if there are only such (of a mixed list the IPv6
  part is dropped), and a protocol error when the list is empty.
\<close>

theorem get_peers_nodes_reply:
  assumes "length t = 2" and "list_all node_wf nodes"
    and "length (build_get_peers_response_nodes t node_id token nodes) < 2 ^ 64"
  shows "and_then (krpc_from_bytes (build_get_peers_response_nodes t node_id token nodes)) parse_get_peers_response =
    (if \<exists>n \<in> set nodes. is_v4 (naddr n) then Ok (Nodes (filter (\<lambda>n. is_v4 (naddr n)) nodes))
     else if nodes \<noteq> [] then Ok (Nodes nodes) else Err Protocol)"
proof -
  let ?n4 = "filter (\<lambda>n. is_v4 (naddr n)) nodes" and ?n6 = "filter (\<lambda>n. is_v6 (naddr n)) nodes"
  let ?r = "Dict ([(ascii ''id'', Bytes node_id), (ascii ''token'', Bytes token),
               (ascii ''nodes'', Bytes (encode_compact_nodes4 nodes))] @ nodes6_entry nodes)"
  have r: "uniq_keys ?r" by (simp add: reply_keys nodes6_entry_def Let_def)
  have get: "dict_get_bytes ?r (ascii ''nodes6'') = (if ?n6 = [] then None else Some (encode_compact_nodes6 nodes))"
    using nodes6_entry_empty [OF assms(2)]
    by (auto simp: dict_get_bytes_def reply_keys nodes6_entry_def Let_def)
  have get': "dict_get_bytes ?r (ascii ''nodes'') = Some (encode_compact_nodes4 nodes)"
    "dict_get_bytes ?r (ascii ''token'') = Some token" "dict_get ?r (ascii ''values'') = None"
    by (simp_all add: dict_get_bytes_def reply_keys nodes6_entry_def Let_def)
  have "and_then (krpc_from_bytes (build_get_peers_response_nodes t node_id token nodes)) parse_get_peers_response
     = parse_get_peers_response (Response t ?r)"
    using response_decode [OF assms(1) r] assms(3)
    unfolding build_get_peers_response_nodes_def
    by (simp only: and_then.simps parse_get_peers_normal [OF r])
  also have "\<dots> = (if ?n4 \<noteq> [] then Ok (Nodes ?n4) else if ?n6 \<noteq> [] then Ok (Nodes ?n6) else Err Protocol)"
    unfolding parse_get_peers_response_def krpc_dict_get_eq krpc_dict_get_bytes_eq
    by (simp only: KrpcMessage.case get get')
      (simp add: parse_encode_nodes4 parse_encode_nodes6 assms(2))
  also have "\<dots> = (if \<exists>n \<in> set nodes. is_v4 (naddr n) then Ok (Nodes ?n4)
     else if nodes \<noteq> [] then Ok (Nodes nodes) else Err Protocol)"
    by (auto simp: filter_empty_conv filter_id_conv)
  finally show ?thesis .
qed

theorem get_peers_nodes_reply_witness:
  "and_then (krpc_from_bytes (build_get_peers_response_nodes [1, 2] (replicate 20 9) [7] [])) parse_get_peers_response
     = Err Protocol"
proof -
  have "length (build_get_peers_response_nodes [1, 2] (replicate 20 9) [7] []) = 66" by code_simp
  then have "length (build_get_peers_response_nodes [1, 2] (replicate 20 9) [7] []) < 2 ^ 64" by simp
  from get_peers_nodes_reply [OF _ _ this] show ?thesis by simp
qed

text \<open>The \<open>ping\<close> reply. The 20-byte ID a node puts in its reply is the ID the querying side
  reads.
\<close>

theorem ping_reply:
  assumes "length t = 2" and "length node_id = 20" and "length (build_ping_response t node_id) < 2 ^ 64"
  shows "and_then (krpc_from_bytes (build_ping_response t node_id)) parse_ping_response = Ok node_id"
proof -
  let ?r = "Dict [(ascii ''id'', Bytes node_id)]"
  have r: "uniq_keys ?r" by simp
  show ?thesis
    using response_decode [OF assms(1) r] assms(2,3) dict_get_bytes_normal [OF r]
    unfolding build_ping_response_def
    by (simp add: parse_ping_response_def krpc_dict_get_bytes_eq dict_get_bytes_def fill_array_exact)
qed

theorem ping_reply_witness:
  "and_then (krpc_from_bytes (build_ping_response [1, 2] (replicate 20 9))) parse_ping_response = Ok (replicate 20 9)"
proof -
  have "length (build_ping_response [1, 2] (replicate 20 9)) = 47" by code_simp
  then have "length (build_ping_response [1, 2] (replicate 20 9)) < 2 ^ 64" by simp
  from ping_reply [OF _ _ this] show ?thesis by simp
qed

end
