(* ===== verification/Metainfo.thy ===== *)
theory Metainfo
  imports Bencode
begin

section \<open>Torrent metainfo\<close>

text \<open>
  \<open>metainfo/mod.rs\<close>, \<open>metainfo/parse.rs\<close> and \<open>metainfo/builder.rs\<close> of \<open>torrent-core\<close>: the
  data of a \<open>.torrent\<close> file, its parser, its serializer, the file layout over the piece stream
  and the builder that hashes data. \<open>sha1\<close> is an argument. The \<open>f64\<close> progress of
  \<open>FileStatus\<close> is not modelled.
\<close>

subsection \<open>Data\<close>

datatype RawInfo = RawBytes bytes | RawHash bytes

record FileInfo =
  fi_length :: u64
  fi_path :: "rstring list"

datatype Mode = Single rstring u64 | Multiple rstring "FileInfo list"

record Info =
  piece_length :: u64
  pieces :: "bytes list"
  mode :: Mode
  raw_info :: RawInfo

record Metainfo =
  announce :: rstring
  announce_list :: "rstring list list"
  info :: Info
  url_list :: "rstring list"
  httpseeds :: "rstring list"
  creation_date :: "i64 option"
  comment :: "rstring option"
  created_by :: "rstring option"
  encoding :: "rstring option"

record FileOffset =
  fo_offset :: u64
  fo_length :: u64
  fo_path :: "rstring list"

record FileStatus =
  fs_path :: "rstring list"
  fs_length :: u64
  fs_downloaded :: u64

subsection \<open>Hash and serializer\<close>

definition info_hash :: "(bytes \<Rightarrow> bytes) \<Rightarrow> Metainfo \<Rightarrow> bytes" where
  "info_hash sha1 m = (case raw_info (info m) of RawHash h \<Rightarrow> h | RawBytes raw \<Rightarrow> sha1 raw)"

definition opt_entry :: "bytes \<Rightarrow> rstring option \<Rightarrow> (bytes \<times> bencode) list" where
  "opt_entry key v = (case v of Some s \<Rightarrow> [(key, Bytes s)] | None \<Rightarrow> [])"

definition outer_entries :: "Metainfo \<Rightarrow> (bytes \<times> bencode) list" where
  "outer_entries m =
     [(ascii ''announce'', Bytes (announce m))] @
     (if announce_list m \<noteq> []
      then [(ascii ''announce-list'', List (map (\<lambda>tier. List (map Bytes tier)) (announce_list m)))]
      else []) @
     (case creation_date m of Some d \<Rightarrow> [(ascii ''creation date'', Integer d)] | None \<Rightarrow> []) @
     opt_entry (ascii ''comment'') (comment m) @
     opt_entry (ascii ''created by'') (created_by m) @
     opt_entry (ascii ''encoding'') (encoding m)"

definition metainfo_to_bytes :: "Metainfo \<Rightarrow> bytes option" where
  "metainfo_to_bytes m =
     (case raw_info (info m) of
        RawHash _ \<Rightarrow> None
      | RawBytes raw \<Rightarrow>
          Some ([100] @ concat (map (\<lambda>(key, val). encode (Bytes key) @ encode val) (sort_key fst (outer_entries m)))
                @ encode (Bytes (ascii ''info'')) @ raw @ [101]))"

definition set_raw_bytes :: "Info \<Rightarrow> bytes \<Rightarrow> Info" where
  "set_raw_bytes i raw = i\<lparr>raw_info := RawBytes raw\<rparr>"

subsection \<open>File layout\<close>

text \<open>Addition and multiplication of \<open>u64\<close> panic on overflow.\<close>

definition add_u64 :: "u64 \<Rightarrow> u64 \<Rightarrow> u64 result" where
  "add_u64 a b = (case checked_add a b of Some c \<Rightarrow> Ok c | None \<Rightarrow> Panic)"

definition mul_u64 :: "u64 \<Rightarrow> u64 \<Rightarrow> u64 result" where
  "mul_u64 a b = (case checked_mul a b of Some c \<Rightarrow> Ok c | None \<Rightarrow> Panic)"

fun sum_lengths :: "u64 \<Rightarrow> FileInfo list \<Rightarrow> u64 result" where
  "sum_lengths acc [] = Ok acc"
| "sum_lengths acc (f # fs) = and_then (add_u64 acc (fi_length f)) (\<lambda>acc. sum_lengths acc fs)"

definition total_size :: "Info \<Rightarrow> u64 result" where
  "total_size i = (case mode i of Single _ len \<Rightarrow> Ok len | Multiple _ files \<Rightarrow> sum_lengths 0 files)"

definition info_num_pieces :: "Info \<Rightarrow> nat" where
  "info_num_pieces i = length (pieces i)"

fun file_offsets_loop :: "u64 \<Rightarrow> FileInfo list \<Rightarrow> FileOffset list result" where
  "file_offsets_loop offset [] = Ok []"
| "file_offsets_loop offset (f # fs) =
     and_then (add_u64 offset (fi_length f)) (\<lambda>offset'.
     and_then (file_offsets_loop offset' fs) (\<lambda>rest.
       Ok (\<lparr>fo_offset = offset, fo_length = fi_length f, fo_path = fi_path f\<rparr> # rest)))"

definition file_offsets :: "Info \<Rightarrow> FileOffset list result" where
  "file_offsets i =
     (case mode i of
        Single name len \<Rightarrow> Ok [\<lparr>fo_offset = 0, fo_length = len, fo_path = [name]\<rparr>]
      | Multiple _ files \<Rightarrow> file_offsets_loop 0 files)"

text \<open>The inner loop of \<open>file_status\<close> over the files, for one completed piece.\<close>

fun credit_files :: "u64 \<Rightarrow> u64 \<Rightarrow> FileOffset list \<Rightarrow> u64 list \<Rightarrow> u64 list result" where
  "credit_files ps pe (fo # fos) (d # ds) =
     and_then (add_u64 (fo_offset fo) (fo_length fo)) (\<lambda>file_end.
       let overlap_start = max ps (fo_offset fo); overlap_end = min pe file_end in
       and_then (if overlap_start < overlap_end then add_u64 d (overlap_end - overlap_start) else Ok d) (\<lambda>d'.
         if pe \<le> file_end then Ok (d' # ds)
         else and_then (credit_files ps pe fos ds) (\<lambda>ds'. Ok (d' # ds'))))"
| "credit_files ps pe _ ds = Ok ds"

fun credit_pieces :: "u64 \<Rightarrow> u64 \<Rightarrow> FileOffset list \<Rightarrow> nat \<Rightarrow> bool list \<Rightarrow> u64 list \<Rightarrow> u64 list result" where
  "credit_pieces total_len piece_len fos i [] ds = Ok ds"
| "credit_pieces total_len piece_len fos i (have # bf) ds =
     (if \<not> have then credit_pieces total_len piece_len fos (Suc i) bf ds
      else
        and_then (mul_u64 (of_nat i) piece_len) (\<lambda>piece_start.
        and_then (add_u64 piece_start piece_len) (\<lambda>e.
          let piece_end = min total_len e in
          if piece_end \<le> piece_start then Ok ds
          else and_then (credit_files piece_start piece_end fos ds) (credit_pieces total_len piece_len fos (Suc i) bf))))"

definition file_status :: "Info \<Rightarrow> bool list \<Rightarrow> FileStatus list result" where
  "file_status i bf =
     (if length bf \<noteq> info_num_pieces i then Panic
      else
        and_then (file_offsets i) (\<lambda>offsets.
        and_then (total_size i) (\<lambda>total_len.
        and_then (credit_pieces total_len (piece_length i) offsets 0 bf (replicate (length offsets) 0)) (\<lambda>downloaded.
          Ok (map (\<lambda>(fo, dl). \<lparr>fs_path = fo_path fo, fs_length = fo_length fo, fs_downloaded = dl\<rparr>)
               (zip offsets downloaded))))))"

subsection \<open>The parser\<close>

primrec traverse :: "('a \<Rightarrow> 'b result) \<Rightarrow> 'a list \<Rightarrow> 'b list result" where
  "traverse f [] = Ok []"
| "traverse f (x # xs) = and_then (f x) (\<lambda>y. and_then (traverse f xs) (\<lambda>ys. Ok (y # ys)))"

definition string_from_bencode_bytes :: "bytes \<Rightarrow> rstring result" where
  "string_from_bencode_bytes b = ok_or InvalidInput (from_utf8 b)"

definition string_from_bencode :: "bencode \<Rightarrow> rstring result" where
  "string_from_bencode val =
     (case val of Bytes b \<Rightarrow> string_from_bencode_bytes b | _ \<Rightarrow> Err MetainfoInvalidField)"

definition get_required_string :: "bencode \<Rightarrow> bytes \<Rightarrow> rstring result" where
  "get_required_string val key =
     and_then (ok_or MetainfoMissingField (dict_get_bytes val key)) string_from_bencode_bytes"

fun result_ok :: "'a result \<Rightarrow> 'a option" where
  "result_ok (Ok x) = Some x"
| "result_ok (Err e) = None"
| "result_ok Panic = None"

definition parse_file :: "bencode \<Rightarrow> FileInfo result" where
  "parse_file item =
     and_then (ok_or MetainfoMissingField (dict_get_int item (ascii ''length''))) (\<lambda>len.
       if sint len < 0 then Err MetainfoInvalidField
       else case dict_get item (ascii ''path'') of
         Some (List parts) \<Rightarrow>
           and_then (traverse string_from_bencode parts) (\<lambda>path.
             if path = [] then Err MetainfoInvalidField
             else Ok \<lparr>fi_length = len, fi_path = path\<rparr>)
       | _ \<Rightarrow> Err MetainfoInvalidField)"

definition parse_files_list :: "bencode \<Rightarrow> FileInfo list result" where
  "parse_files_list val =
     (case val of List items \<Rightarrow> traverse parse_file items | _ \<Rightarrow> Err MetainfoInvalidField)"

definition parse_info :: "bencode \<Rightarrow> bytes \<Rightarrow> Info result" where
  "parse_info val raw =
     and_then (ok_or MetainfoMissingField (dict_get_int val (ascii ''piece length''))) (\<lambda>pl.
     if sint pl \<le> 0 then Err MetainfoInvalidField else
     and_then (ok_or MetainfoMissingField (dict_get_bytes val (ascii ''pieces''))) (\<lambda>pieces_bytes.
     if length pieces_bytes mod 20 \<noteq> 0 then Err MetainfoInvalidPieces else
     and_then (get_required_string val (ascii ''name'')) (\<lambda>name.
     and_then
       (case dict_get_int val (ascii ''length'') of
          Some len \<Rightarrow> (if sint len < 0 then Err MetainfoInvalidField else Ok (Single name len))
        | None \<Rightarrow>
            (case dict_get val (ascii ''files'') of
               Some files_val \<Rightarrow> and_then (parse_files_list files_val) (\<lambda>files. Ok (Multiple name files))
             | None \<Rightarrow> Err MetainfoMissingField)) (\<lambda>md.
       Ok \<lparr>piece_length = pl, pieces = chunks_exact 20 pieces_bytes, mode = md, raw_info = RawBytes raw\<rparr>))))"

definition parse_announce_list :: "bencode \<Rightarrow> rstring list list" where
  "parse_announce_list val =
     (case dict_get val (ascii ''announce-list'') of
        Some (List tiers) \<Rightarrow>
          List.map_filter (\<lambda>tier. case tier of
              List urls \<Rightarrow>
                (let tier_urls = List.map_filter (\<lambda>u. result_ok (string_from_bencode u)) urls
                 in if tier_urls \<noteq> [] then Some tier_urls else None)
            | _ \<Rightarrow> None) tiers
      | _ \<Rightarrow> [])"

definition url_strings :: "bencode list \<Rightarrow> rstring list" where
  "url_strings items =
     filter (\<lambda>s. s \<noteq> []) (List.map_filter (\<lambda>v. case v of Bytes b \<Rightarrow> from_utf8 b | _ \<Rightarrow> None) items)"

definition parse_url_list :: "bencode \<Rightarrow> rstring list" where
  "parse_url_list val =
     (case dict_get val (ascii ''url-list'') of
        Some (Bytes b) \<Rightarrow>
          (case from_utf8 b of Some s \<Rightarrow> (if s \<noteq> [] then [s] else []) | None \<Rightarrow> [])
      | Some (List items) \<Rightarrow> url_strings items
      | _ \<Rightarrow> [])"

definition parse_httpseeds :: "bencode \<Rightarrow> rstring list" where
  "parse_httpseeds val =
     (case dict_get val (ascii ''httpseeds'') of Some (List items) \<Rightarrow> url_strings items | _ \<Rightarrow> [])"

lemma decode_shorter: "decode d = Ok (v, r) \<Longrightarrow> length r < length d"
  by (auto dest!: decode_consumes(1) simp: consumes_def)

text \<open>\<open>find_raw_loop\<close> is the scan of \<open>find_raw_info_bytes\<close>; its argument is \<open>data[pos..]\<close>.\<close>

function find_raw_loop :: "bytes \<Rightarrow> bytes result" where
  "find_raw_loop remaining =
     (if remaining = [] then Err MetainfoMissingField
      else case decode remaining of
        Panic \<Rightarrow> Panic
      | Err _ \<Rightarrow> Err MetainfoMissingField
      | Ok (key, key_rest) \<Rightarrow>
          (let val_remaining = drop (length remaining - length key_rest) remaining in
           if key = Bytes (ascii ''info'') then
             and_then (decode val_remaining) (\<lambda>(_, val_rest).
               Ok (take (length val_remaining - length val_rest) val_remaining))
           else
             and_then (decode val_remaining) (\<lambda>(_, val_rest).
               find_raw_loop (drop (length val_remaining - length val_rest) val_remaining))))"
  by pat_completeness auto
termination
  by (relation "measure length")
    (auto dest: decode_shorter simp: Let_def)

declare find_raw_loop.simps [simp del]

definition find_raw_info_bytes :: "bytes \<Rightarrow> bytes result" where
  "find_raw_info_bytes data =
     (if data = [] \<or> hd data \<noteq> 100 then Err MetainfoInvalidField else find_raw_loop (tl data))"

definition opt_string :: "bencode \<Rightarrow> bytes \<Rightarrow> rstring option" where
  "opt_string val key = Option.bind (dict_get val key) (\<lambda>v. result_ok (string_from_bencode v))"

definition metainfo_of :: "bencode \<Rightarrow> Info \<Rightarrow> Metainfo" where
  "metainfo_of val inf_v =
     \<lparr>announce = (case opt_string val (ascii ''announce'') of Some s \<Rightarrow> s | None \<Rightarrow> []),
      announce_list = parse_announce_list val, info = inf_v,
      url_list = parse_url_list val, httpseeds = parse_httpseeds val,
      creation_date = dict_get_int val (ascii ''creation date''),
      comment = opt_string val (ascii ''comment''),
      created_by = opt_string val (ascii ''created by''),
      encoding = opt_string val (ascii ''encoding'')\<rparr>"

definition metainfo_from_bytes :: "bytes \<Rightarrow> Metainfo result" where
  "metainfo_from_bytes data =
     and_then (decode data) (\<lambda>(val, _).
       case val of
         Dict _ \<Rightarrow>
           and_then (ok_or MetainfoMissingField (dict_get val (ascii ''info''))) (\<lambda>info_val.
           and_then (find_raw_info_bytes data) (\<lambda>raw.
           and_then (parse_info info_val raw) (\<lambda>inf_v. Ok (metainfo_of val inf_v))))
       | _ \<Rightarrow> Err MetainfoInvalidField)"


subsection \<open>The builder\<close>

record MetainfoBuilder =
  mb_piece_length :: u32
  mb_buf :: bytes
  mb_pieces :: "bytes list"
  mb_total_length :: u64

definition builder_new :: "u32 \<Rightarrow> MetainfoBuilder result" where
  "builder_new pl =
     (if 0 < pl then Ok \<lparr>mb_piece_length = pl, mb_buf = [], mb_pieces = [], mb_total_length = 0\<rparr> else Panic)"

text \<open>
  The \<open>while\<close> loop of \<open>add_data\<close>: None is a loop that never returns (a zero piece length in a
  build without debug assertions).
\<close>

partial_function (option) drain_pieces ::
  "(bytes \<Rightarrow> bytes) \<Rightarrow> nat \<Rightarrow> bytes \<Rightarrow> bytes list \<Rightarrow> (bytes \<times> bytes list) option" where
  "drain_pieces sha1 piece_len buf ps =
     (if piece_len \<le> length buf
      then drain_pieces sha1 piece_len (drop piece_len buf) (ps @ [sha1 (take piece_len buf)])
      else Some (buf, ps))"

declare drain_pieces.simps [code]

definition builder_add_data ::
  "(bytes \<Rightarrow> bytes) \<Rightarrow> MetainfoBuilder \<Rightarrow> bytes \<Rightarrow> MetainfoBuilder result option" where
  "builder_add_data sha1 b data =
     (case checked_add (mb_total_length b) (of_nat (length data)) of
        None \<Rightarrow> Some Panic
      | Some n \<Rightarrow>
          map_option (\<lambda>(buf, ps). Ok (b\<lparr>mb_total_length := n, mb_buf := buf, mb_pieces := ps\<rparr>))
            (drain_pieces sha1 (unat (mb_piece_length b)) (mb_buf b @ data) (mb_pieces b)))"

definition file_entry :: "FileInfo \<Rightarrow> bencode" where
  "file_entry f =
     Dict [(ascii ''length'', Integer (fi_length f)), (ascii ''path'', List (map Bytes (fi_path f)))]"

definition build_info_dict :: "u64 \<Rightarrow> bytes \<Rightarrow> Mode \<Rightarrow> bencode" where
  "build_info_dict pl pieces_bytes md =
     Dict ((case md of
              Single name len \<Rightarrow> [(ascii ''length'', Integer len), (ascii ''name'', Bytes name)]
            | Multiple name files \<Rightarrow>
                [(ascii ''files'', List (map file_entry files)), (ascii ''name'', Bytes name)])
           @ [(ascii ''piece length'', Integer pl), (ascii ''pieces'', Bytes pieces_bytes)])"

definition builder_finish ::
  "(bytes \<Rightarrow> bytes) \<Rightarrow> MetainfoBuilder \<Rightarrow> rstring \<Rightarrow> Mode \<Rightarrow> rstring list \<Rightarrow> rstring list \<Rightarrow> Metainfo" where
  "builder_finish sha1 b ann md urls seeds =
     (let ps = (if mb_buf b \<noteq> [] then mb_pieces b @ [sha1 (mb_buf b)] else mb_pieces b);
          pl = ucast (mb_piece_length b);
          raw = encode (build_info_dict pl (concat ps) md)
      in \<lparr>announce = ann, announce_list = [],
          info = \<lparr>piece_length = pl, pieces = ps, mode = md, raw_info = RawBytes raw\<rparr>,
          url_list = urls, httpseeds = seeds, creation_date = None, comment = None,
          created_by = None, encoding = None\<rparr>)"

definition num_completed_pieces :: "MetainfoBuilder \<Rightarrow> nat" where
  "num_completed_pieces b = length (mb_pieces b)"

subsection \<open>Pieces do not depend on how the data is fed\<close>

text \<open>Feeding several chunks, as the callers do.\<close>

primrec add_all ::
  "(bytes \<Rightarrow> bytes) \<Rightarrow> MetainfoBuilder \<Rightarrow> bytes list \<Rightarrow> MetainfoBuilder result option" where
  "add_all sha1 b [] = Some (Ok b)"
| "add_all sha1 b (d # ds) =
     Option.bind (builder_add_data sha1 b d) (\<lambda>r. case r of Ok b' \<Rightarrow> add_all sha1 b' ds | e \<Rightarrow> Some e)"

definition piece_rest :: "nat \<Rightarrow> bytes \<Rightarrow> bytes" where
  "piece_rest n xs = drop (length xs div n * n) xs"

lemma piece_rest_simps:
  "0 < n \<Longrightarrow> piece_rest n xs = (if n \<le> length xs then piece_rest n (drop n xs) else xs)"
  by (auto simp: piece_rest_def le_div_geq add.commute)

lemma drain_pieces_eq:
  "0 < n \<Longrightarrow> drain_pieces sha1 n buf ps = Some (piece_rest n buf, ps @ map sha1 (chunks_exact n buf))"
proof (induction "length buf" arbitrary: buf ps rule: less_induct)
  case less
  show ?case
  proof (cases "n \<le> length buf")
    case True
    with less.prems have "length (drop n buf) < length buf" by simp
    from less.hyps [OF this less.prems] True less.prems show ?thesis
      by (subst drain_pieces.simps, subst chunks_exact.simps)
        (simp add: piece_rest_simps [of n buf])
  next
    case False
    with less.prems show ?thesis
      by (subst drain_pieces.simps, subst chunks_exact.simps) (simp add: piece_rest_simps [of n buf])
  qed
qed

lemma chunks_exact_more:
  "0 < n \<Longrightarrow> chunks_exact n (xs @ ys) = chunks_exact n xs @ chunks_exact n (piece_rest n xs @ ys)"
proof (induction "length xs" arbitrary: xs rule: less_induct)
  case less
  show ?case
  proof (cases "n \<le> length xs")
    case True
    with less.prems have "length (drop n xs) < length xs" by simp
    from less.hyps [OF this less.prems] True less.prems show ?thesis
      by (subst chunks_exact.simps, subst (2) chunks_exact.simps) (simp add: piece_rest_simps [of n xs])
  next
    case False
    then show ?thesis
      by (subst (2) chunks_exact.simps) (simp add: piece_rest_simps [of n xs] less.prems)
  qed
qed

lemma piece_rest_more: "0 < n \<Longrightarrow> piece_rest n (xs @ ys) = piece_rest n (piece_rest n xs @ ys)"
proof (induction "length xs" arbitrary: xs rule: less_induct)
  case less
  show ?case
  proof (cases "n \<le> length xs")
    case True
    with less.prems have "length (drop n xs) < length xs" by simp
    from less.hyps [OF this less.prems] True less.prems show ?thesis
      by (subst piece_rest_simps) (simp_all add: piece_rest_simps [of n xs])
  next
    case False
    with less.prems show ?thesis by (simp add: piece_rest_simps [of n xs])
  qed
qed

definition builder_holds :: "(bytes \<Rightarrow> bytes) \<Rightarrow> u32 \<Rightarrow> bytes \<Rightarrow> MetainfoBuilder \<Rightarrow> bool" where
  "builder_holds sha1 pl xs b \<longleftrightarrow> mb_piece_length b = pl \<and> mb_buf b = piece_rest (unat pl) xs \<and>
     mb_pieces b = map sha1 (chunks_exact (unat pl) xs) \<and> unat (mb_total_length b) = length xs"

lemma builder_new_holds: "0 < pl \<Longrightarrow> \<exists>b. builder_new pl = Ok b \<and> builder_holds sha1 pl [] b"
  by (auto simp: builder_new_def builder_holds_def piece_rest_def chunks_exact.simps word_less_nat_alt)

lemma builder_add_data_holds:
  assumes "builder_holds sha1 pl xs b" and "0 < pl" and "length xs + length data < 2 ^ 64"
  shows "\<exists>b'. builder_add_data sha1 b data = Some (Ok b') \<and> builder_holds sha1 pl (xs @ data) b'"
proof -
  have n: "0 < unat pl" using assms(2) by (simp add: word_less_nat_alt)
  have len: "unat (of_nat (length data) :: u64) = length data"
    using assms(3) by (simp add: unat_of_nat)
  have sum: "checked_add (mb_total_length b) (of_nat (length data)) = Some (mb_total_length b + of_nat (length data))"
    "unat (mb_total_length b + of_nat (length data)) = length xs + length data"
    using assms(1,3) len by (simp_all add: checked_add_def builder_holds_def unat_word_ariths)
  show ?thesis
    using assms(1) sum
    by (simp add: builder_add_data_def builder_holds_def drain_pieces_eq [OF n]
        chunks_exact_more [OF n, of xs data] piece_rest_more [OF n, symmetric])
qed

lemma add_all_holds:
  assumes "builder_holds sha1 pl xs b" and "0 < pl" and "length xs + length (concat ds) < 2 ^ 64"
  shows "\<exists>b'. add_all sha1 b ds = Some (Ok b') \<and> builder_holds sha1 pl (xs @ concat ds) b'"
  using assms
proof (induction ds arbitrary: xs b)
  case (Cons d ds)
  from Cons.prems have "length xs + length d < 2 ^ 64" by simp
  from builder_add_data_holds [OF Cons.prems(1,2) this] obtain b1 where
    b1: "builder_add_data sha1 b d = Some (Ok b1)" "builder_holds sha1 pl (xs @ d) b1" by blast
  from Cons.IH [OF b1(2) Cons.prems(2)] Cons.prems(3) b1(1) show ?case by simp
qed simp

lemma length_piece_rest: "0 < n \<Longrightarrow> length (piece_rest n xs) = length xs mod n"
  by (simp add: piece_rest_def minus_div_mult_eq_mod)

lemma concat_chunks_rest: "0 < n \<Longrightarrow> concat (chunks_exact n xs) @ piece_rest n xs = xs"
proof (induction "length xs" arbitrary: xs rule: less_induct)
  case less
  show ?case
  proof (cases "n \<le> length xs")
    case True
    with less.prems have "length (drop n xs) < length xs" by simp
    from less.hyps [OF this less.prems] True less.prems show ?thesis
      by (subst chunks_exact.simps) (simp add: piece_rest_simps [of n xs])
  next
    case False
    with less.prems show ?thesis
      by (subst chunks_exact.simps) (simp add: piece_rest_simps [of n xs])
  qed
qed

text \<open>
  C38. The piece hashes of a created torrent. With a non-zero piece length, feeding the data in any
  chunks (less than \<open>2^64\<close> bytes in all) always returns, and the finished metainfo has one hash
  per piece: the data is the concatenation of blocks of exactly the piece length and a shorter
  last one that is hashed only if it is not empty. The way the data was cut does not matter, and
  the length counter is exact.
\<close>

theorem builder_pieces_spec:
  assumes "0 < pl" and "length (concat ds) < 2 ^ 64"
  shows "\<exists>b0 b blocks last. builder_new pl = Ok b0 \<and> add_all sha1 b0 ds = Some (Ok b) \<and>
      unat (mb_total_length b) = length (concat ds) \<and>
      concat ds = concat blocks @ last \<and> list_all (\<lambda>c. length c = unat pl) blocks \<and> length last < unat pl \<and>
      pieces (info (builder_finish sha1 b ann md urls seeds))
        = map sha1 blocks @ (if last = [] then [] else [sha1 last])"
proof -
  have n: "0 < unat pl" using assms(1) by (simp add: word_less_nat_alt)
  obtain b0 where b0: "builder_new pl = Ok b0" "builder_holds sha1 pl [] b0"
    using builder_new_holds [OF assms(1)] by blast
  from add_all_holds [OF b0(2) assms(1), of ds] assms(2) obtain b where
    b: "add_all sha1 b0 ds = Some (Ok b)" "builder_holds sha1 pl (concat ds) b" by auto
  let ?blocks = "chunks_exact (unat pl) (concat ds)" and ?last = "piece_rest (unat pl) (concat ds)"
  have "concat ds = concat ?blocks @ ?last" using concat_chunks_rest [OF n] by simp
  moreover have "list_all (\<lambda>c. length c = unat pl) ?blocks" by (auto simp: list_all_iff length_chunk)
  moreover have "length ?last < unat pl" using n by (simp add: length_piece_rest)
  moreover have "pieces (info (builder_finish sha1 b ann md urls seeds))
        = map sha1 ?blocks @ (if ?last = [] then [] else [sha1 ?last])"
    using b(2) by (simp add: builder_finish_def builder_holds_def Let_def)
  moreover have "unat (mb_total_length b) = length (concat ds)"
    using b(2) by (simp add: builder_holds_def)
  ultimately show ?thesis using b0(1) b(1) by blast
qed

theorem builder_pieces_spec_witness:
  "\<exists>b0 b. builder_new 2 = Ok b0 \<and> add_all (\<lambda>x. x) b0 [[1], [2, 3, 4], [5]] = Some (Ok b) \<and>
      unat (mb_total_length b) = 5 \<and>
      concat (pieces (info (builder_finish (\<lambda>x. x) b [] (Single [97] 5) [] []))) = [1, 2, 3, 4, 5]"
proof -
  have "0 < (2 :: u32)" "length (concat [[1], [2, 3, 4], [5 :: byte]]) < 2 ^ 64" by simp_all
  from builder_pieces_spec [OF this, of "\<lambda>x. x" "[]" "Single [97] 5" "[]" "[]"]
  obtain b0 b blocks last where
    "builder_new 2 = Ok b0" "add_all (\<lambda>x. x) b0 [[1], [2, 3, 4], [5]] = Some (Ok b)"
    "unat (mb_total_length b) = length (concat [[1], [2, 3, 4], [5 :: byte]])"
    "concat [[1], [2, 3, 4], [5]] = concat blocks @ last"
    "pieces (info (builder_finish (\<lambda>x. x) b [] (Single [97] 5) [] []))
       = map (\<lambda>x. x) blocks @ (if last = [] then [] else [last])" by blast
  then show ?thesis by (intro exI [of _ b0] exI [of _ b]) (simp del: add_all.simps)
qed


subsection \<open>Serialized metainfo parses back\<close>

definition file_wf :: "FileInfo \<Rightarrow> bool" where
  "file_wf f \<longleftrightarrow> 0 \<le> sint (fi_length f) \<and> fi_path f \<noteq> [] \<and> list_all utf8_valid (fi_path f)"

fun mode_wf :: "Mode \<Rightarrow> bool" where
  "mode_wf (Single name len) = (utf8_valid name \<and> 0 \<le> sint len)"
| "mode_wf (Multiple name files) = (utf8_valid name \<and> list_all file_wf files)"

definition info_dict :: "Info \<Rightarrow> bencode" where
  "info_dict i = build_info_dict (piece_length i) (concat (pieces i)) (mode i)"

definition info_wf :: "Info \<Rightarrow> bool" where
  "info_wf i \<longleftrightarrow> 0 < sint (piece_length i) \<and> list_all (\<lambda>p. length p = 20) (pieces i) \<and> mode_wf (mode i) \<and>
     raw_info i = RawBytes (encode (info_dict i))"

definition opt_utf8 :: "rstring option \<Rightarrow> bool" where
  "opt_utf8 s = (case s of Some s \<Rightarrow> utf8_valid s | None \<Rightarrow> True)"

definition metainfo_wf :: "Metainfo \<Rightarrow> bool" where
  "metainfo_wf m \<longleftrightarrow> info_wf (info m) \<and> utf8_valid (announce m) \<and>
     list_all (\<lambda>tier. tier \<noteq> [] \<and> list_all utf8_valid tier) (announce_list m) \<and>
     opt_utf8 (comment m) \<and> opt_utf8 (created_by m) \<and> opt_utf8 (encoding m)"

lemma info_keys_neq:
  "ascii ''length'' \<noteq> ascii ''name''" "ascii ''length'' \<noteq> ascii ''piece length''"
  "ascii ''length'' \<noteq> ascii ''pieces''" "ascii ''length'' \<noteq> ascii ''files''"
  "ascii ''files'' \<noteq> ascii ''name''"
  "ascii ''files'' \<noteq> ascii ''piece length''" "ascii ''files'' \<noteq> ascii ''pieces''"
  "ascii ''name'' \<noteq> ascii ''piece length''" "ascii ''name'' \<noteq> ascii ''pieces''"
  "ascii ''piece length'' \<noteq> ascii ''pieces''" "ascii ''length'' \<noteq> ascii ''path''"
  by (simp_all add: ascii_def)

lemmas info_keys = info_keys_neq info_keys_neq [symmetric]

lemma uniq_file_entry: "uniq_keys (file_entry f)"
  by (simp add: file_entry_def info_keys list_all_iff)

lemma uniq_info_dict: "uniq_keys (info_dict i)"
  by (cases "mode i") (simp_all add: info_dict_def build_info_dict_def info_keys list_all_iff uniq_file_entry)

lemma traverse_map:
  "(\<And>x. x \<in> set xs \<Longrightarrow> f (g x) = Ok (h x)) \<Longrightarrow> traverse f (map g xs) = Ok (map h xs)"
  by (induction xs) simp_all

lemma string_Bytes: "utf8_valid s \<Longrightarrow> string_from_bencode (Bytes s) = Ok s"
  by (simp add: string_from_bencode_def string_from_bencode_bytes_def from_utf8_def)

lemma normal_map_Bytes: "map (normal \<circ> Bytes) xs = map Bytes xs"
  by simp

lemma parse_file_entry:
  assumes "file_wf f"
  shows "parse_file (normal (file_entry f)) = Ok f"
proof -
  note u = uniq_file_entry [of f]
  have len: "dict_get_int (normal (file_entry f)) (ascii ''length'') = Some (fi_length f)"
    unfolding dict_get_int_normal [OF u] by (simp add: file_entry_def dict_get_int_def)
  have path: "dict_get (normal (file_entry f)) (ascii ''path'') = Some (List (map Bytes (fi_path f)))"
    unfolding dict_get_normal [OF u] by (simp add: file_entry_def info_keys comp_def)
  have "traverse string_from_bencode (map Bytes (fi_path f)) = Ok (map (\<lambda>s. s) (fi_path f))"
    using assms by (intro traverse_map string_Bytes) (auto simp: file_wf_def list_all_iff)
  with assms show ?thesis
    by (simp add: parse_file_def len path file_wf_def)
qed

lemma parse_files_list_entries:
  assumes "list_all file_wf files"
  shows "parse_files_list (normal (List (map file_entry files))) = Ok files"
proof -
  have "traverse parse_file (map (\<lambda>f. normal (file_entry f)) files) = Ok (map (\<lambda>f. f) files)"
    using assms by (intro traverse_map parse_file_entry) (auto simp: list_all_iff)
  then show ?thesis by (simp add: parse_files_list_def comp_def)
qed

lemma parse_info_dict:
  assumes "info_wf i"
  shows "parse_info (normal (info_dict i)) raw = Ok (i\<lparr>raw_info := RawBytes raw\<rparr>)"
proof -
  note u = uniq_info_dict [of i]
  note norm = dict_get_int_normal [OF u] dict_get_bytes_normal [OF u] dict_get_normal [OF u]
  have pl: "dict_get_int (normal (info_dict i)) (ascii ''piece length'') = Some (piece_length i)"
    and ps: "dict_get_bytes (normal (info_dict i)) (ascii ''pieces'') = Some (concat (pieces i))"
    unfolding norm
    by (cases "mode i"; simp add: info_dict_def build_info_dict_def info_keys dict_access)+
  have "length (concat (pieces i)) = 20 * length (pieces i)" if "list_all (\<lambda>p. length p = 20) (pieces i)"
    using that by (induction "pieces i" arbitrary: i) (auto simp: length_concat list_all_iff sum_list_triv map_idI cong: map_cong)
  then have m20: "length (concat (pieces i)) mod 20 = 0" using assms by (simp add: info_wf_def)
  have chunks: "chunks_exact 20 (concat (pieces i)) = pieces i"
    using assms by (intro chunks_exact_concat) (auto simp: info_wf_def list_all_iff)
  have "parse_info (normal (info_dict i)) raw =
    Ok \<lparr>piece_length = piece_length i, pieces = pieces i, mode = mode i, raw_info = RawBytes raw\<rparr>"
  proof (cases "mode i")
    case (Single name len)
    then have "dict_get_bytes (normal (info_dict i)) (ascii ''name'') = Some name"
      "dict_get_int (normal (info_dict i)) (ascii ''length'') = Some len"
      unfolding norm by (simp_all add: info_dict_def build_info_dict_def info_keys dict_access)
    with assms Single show ?thesis
      by (simp add: parse_info_def pl ps m20 chunks info_wf_def get_required_string_def
          string_from_bencode_bytes_def from_utf8_def)
  next
    case (Multiple name files)
    then have "dict_get_bytes (normal (info_dict i)) (ascii ''name'') = Some name"
      "dict_get_int (normal (info_dict i)) (ascii ''length'') = None"
      "dict_get (normal (info_dict i)) (ascii ''files'') = Some (normal (List (map file_entry files)))"
      unfolding norm by (simp_all add: info_dict_def build_info_dict_def info_keys dict_access)
    with assms Multiple show ?thesis
      by (simp add: parse_info_def pl ps m20 chunks info_wf_def get_required_string_def
          string_from_bencode_bytes_def from_utf8_def parse_files_list_entries del: normal.simps)
  qed
  moreover have "i\<lparr>raw_info := RawBytes raw\<rparr> =
      \<lparr>piece_length = piece_length i, pieces = pieces i, mode = mode i, raw_info = RawBytes raw\<rparr>"
    by (cases i) simp
  ultimately show ?thesis by simp
qed

subsubsection \<open>The outer dictionary\<close>

lemma insort_key_snoc: "f x \<le> f y \<Longrightarrow> x \<noteq> y \<Longrightarrow> insort_key f x (xs @ [y]) = insort_key f x xs @ [y]"
  by (induction xs) auto

lemma sort_key_snoc_max:
  "(\<And>x. x \<in> set xs \<Longrightarrow> f x \<le> f y) \<Longrightarrow> sort_key f (xs @ [y]) = sort_key f xs @ [y]"
proof (induction xs)
  case (Cons x xs)
  have "insort_key f x (zs @ [y]) = insort_key f x zs @ [y]" for zs
    using Cons.prems [of x] by (induction zs) auto
  with Cons show ?case by simp
qed simp

lemma outer_keys: "k \<in> fst ` set (outer_entries m) \<Longrightarrow> k \<in>
   {ascii ''announce'', ascii ''announce-list'', ascii ''creation date'', ascii ''comment'',
    ascii ''created by'', ascii ''encoding''}"
  by (auto simp: outer_entries_def opt_entry_def split: option.splits if_splits)

lemma outer_keys_less: "k \<in> fst ` set (outer_entries m) \<Longrightarrow> k < ascii ''info''"
  by (drule outer_keys) (auto simp: ascii_def)

lemma outer_distinct: "distinct (map fst (outer_entries m))"
  by (auto simp: outer_entries_def opt_entry_def ascii_def split: option.split)

lemma metainfo_to_bytes_encode:
  assumes "raw_info (info m) = RawBytes (encode v)"
  shows "metainfo_to_bytes m = Some (encode (Dict (outer_entries m @ [(ascii ''info'', v)])))"
proof -
  have "sort_key fst (outer_entries m @ [(ascii ''info'', v)]) = sort_key fst (outer_entries m) @ [(ascii ''info'', v)]"
    by (rule sort_key_snoc_max) (auto simp: image_iff intro!: less_imp_le outer_keys_less)
  with assms show ?thesis by (simp add: metainfo_to_bytes_def)
qed

lemma find_raw_skip:
  "a \<noteq> [] \<Longrightarrow> decode (a @ b @ z) = Ok (key, b @ z) \<Longrightarrow> key \<noteq> Bytes (ascii ''info'') \<Longrightarrow>
     decode (b @ z) = Ok (w, z) \<Longrightarrow> find_raw_loop (a @ b @ z) = find_raw_loop z"
  by (subst find_raw_loop.simps) (simp add: Let_def)

lemma find_raw_entries:
  assumes "\<And>k w r. (k, w) \<in> set es \<Longrightarrow> k \<noteq> ascii ''info'' \<and> decode (encode_bytes k @ r) = Ok (Bytes k, r) \<and>
      decode (encode w @ r) = Ok (g w, r)"
    and "\<And>r. decode (encode_bytes (ascii ''info'') @ r) = Ok (Bytes (ascii ''info''), r)"
    and "\<And>r. decode (encode v @ r) = Ok (g v, r)"
  shows "find_raw_loop (concat (map (\<lambda>(k, w). encode_bytes k @ encode w) es)
      @ encode_bytes (ascii ''info'') @ encode v @ r) = Ok (encode v)"
  using assms(1)
proof (induction es)
  case Nil
  obtain c s where "encode_bytes (ascii ''info'') = c # s" using encode_bytes_head by blast
  then have "encode_bytes (ascii ''info'') @ encode v @ r \<noteq> []" by simp
  with assms(2) [of "encode v @ r"] assms(3) [of r] show ?case
    by (subst find_raw_loop.simps) (simp add: Let_def)
next
  case (Cons e es)
  obtain k w where e: "e = (k, w)" by (cases e)
  let ?tl = "concat (map (\<lambda>(k, w). encode_bytes k @ encode w) es) @ encode_bytes (ascii ''info'') @ encode v @ r"
  obtain c s where "encode_bytes k = c # s" using encode_bytes_head by blast
  then have "find_raw_loop (encode_bytes k @ encode w @ ?tl) = find_raw_loop ?tl"
    using Cons.prems [of k w] e by (intro find_raw_skip [of _ _ _ "Bytes k" "g w"]) auto
  moreover have "find_raw_loop ?tl = Ok (encode v)"
    by (rule Cons.IH) (rule Cons.prems, simp)
  ultimately show ?case by (simp add: e)
qed

lemma list_all_enc_length:
  assumes "length (encode (Dict es)) < 2 ^ 64" and "(k, v) \<in> set es"
  shows "length (encode_bytes k) < 2 ^ 64 \<and> length (encode v) < 2 ^ 64"
proof -
  have "length (encode_bytes k @ encode v) \<le> length (concat (map (\<lambda>(k, v). encode_bytes k @ encode v) (sort_key fst es)))"
    using length_concat_elem [of "(k, v)" "sort_key fst es" "\<lambda>(k, v). encode_bytes k @ encode v"] assms(2) by simp
  with assms(1) show ?thesis by simp
qed

lemma uniq_outer: "uniq_keys v \<Longrightarrow> uniq_keys (Dict (outer_entries m @ [(ascii ''info'', v)]))"
proof -
  assume v: "uniq_keys v"
  have "ascii ''info'' \<notin> fst ` set (outer_entries m)" using outer_keys_less by blast
  moreover have "list_all (\<lambda>(k, v). uniq_keys v) (outer_entries m)"
    by (auto simp: outer_entries_def opt_entry_def list_all_iff split: option.splits if_splits)
  ultimately show ?thesis using v outer_distinct [of m] by auto
qed

lemma outer_get:
  fixes m :: Metainfo
  assumes "uniq_keys v"
  defines "d \<equiv> Dict (outer_entries m @ [(ascii ''info'', v)])"
  shows "dict_get d (ascii ''info'') = Some v"
    "dict_get d (ascii ''announce'') = Some (Bytes (announce m))"
    "dict_get d (ascii ''announce-list'') = (if announce_list m = [] then None
        else Some (List (map (\<lambda>tier. List (map Bytes tier)) (announce_list m))))"
    "dict_get d (ascii ''creation date'') = map_option Integer (creation_date m)"
    "dict_get d (ascii ''comment'') = map_option Bytes (comment m)"
    "dict_get d (ascii ''created by'') = map_option Bytes (created_by m)"
    "dict_get d (ascii ''encoding'') = map_option Bytes (encoding m)"
    "dict_get d (ascii ''url-list'') = None" "dict_get d (ascii ''httpseeds'') = None"
  by (simp_all add: d_def outer_entries_def opt_entry_def ascii_def split: option.split)

lemma opt_string_Bytes:
  "dict_get d key = map_option Bytes s \<Longrightarrow> opt_utf8 s \<Longrightarrow> opt_string d key = s"
  by (cases s) (simp_all add: opt_string_def opt_utf8_def string_Bytes)

lemma opt_string_normal: "uniq_keys d \<Longrightarrow> opt_string (normal d) key = opt_string d key"
proof -
  have "string_from_bencode (normal v) = string_from_bencode v" for v
    by (cases v) (simp_all add: string_from_bencode_def)
  then show "uniq_keys d \<Longrightarrow> ?thesis"
    by (simp add: opt_string_def dict_get_normal bind_map_option comp_def)
qed

lemma map_filter_Some: "(\<And>x. x \<in> set xs \<Longrightarrow> f (g x) = Some (h x)) \<Longrightarrow> List.map_filter f (map g xs) = map h xs"
  by (induction xs) (simp_all add: map_filter_simps)

lemma parse_announce_list_outer:
  assumes "list_all (\<lambda>tier. tier \<noteq> [] \<and> list_all utf8_valid tier) tiers"
    and "dict_get d (ascii ''announce-list'') = (if tiers = [] then None
        else Some (List (map (\<lambda>tier. List (map Bytes tier)) tiers)))"
  shows "parse_announce_list d = tiers"
proof -
  have inner: "List.map_filter (\<lambda>u. result_ok (string_from_bencode u)) (map Bytes tier) = tier"
    if "list_all utf8_valid tier" for tier
    using that map_filter_Some [of tier "\<lambda>u. result_ok (string_from_bencode u)" Bytes "\<lambda>x. x"]
    by (simp add: list_all_iff string_Bytes)
  let ?f = "\<lambda>tier. case tier of
              List urls \<Rightarrow>
                (let tier_urls = List.map_filter (\<lambda>u. result_ok (string_from_bencode u)) urls
                 in if tier_urls \<noteq> [] then Some tier_urls else None)
            | _ \<Rightarrow> None"
  have "List.map_filter ?f (map (\<lambda>tier. List (map Bytes tier)) tiers) = map (\<lambda>x. x) tiers"
    using assms(1) by (intro map_filter_Some) (auto simp: inner list_all_iff Let_def)
  with assms(2) show ?thesis by (simp add: parse_announce_list_def)
qed

lemma find_raw_outer:
  assumes "uniq_keys v" and len: "length (encode (Dict (outer_entries m @ [(ascii ''info'', v)]))) < 2 ^ 64"
  shows "find_raw_info_bytes (encode (Dict (outer_entries m @ [(ascii ''info'', v)]))) = Ok (encode v)"
proof -
  let ?es = "sort_key fst (outer_entries m)"
  have sort: "sort_key fst (outer_entries m @ [(ascii ''info'', v)]) = ?es @ [(ascii ''info'', v)]"
    by (rule sort_key_snoc_max) (auto simp: image_iff intro!: less_imp_le outer_keys_less)
  have lens: "length (encode_bytes k) < 2 ^ 64 \<and> length (encode w) < 2 ^ 64"
    if "(k, w) \<in> set (outer_entries m @ [(ascii ''info'', v)])" for k w
    using list_all_enc_length [OF len that] .
  have uniq: "uniq_keys w" if "(k, w) \<in> set (outer_entries m @ [(ascii ''info'', v)])" for k w
    using uniq_outer [OF assms(1), of m] that by (auto simp: list_all_iff)
  have "find_raw_loop (concat (map (\<lambda>(k, w). encode_bytes k @ encode w) ?es)
      @ encode_bytes (ascii ''info'') @ encode v @ [101]) = Ok (encode v)"
  proof (rule find_raw_entries [where g = normal])
    fix k w r assume "(k, w) \<in> set ?es"
    then have in_es: "(k, w) \<in> set (outer_entries m)" by simp
    then have "k < ascii ''info''" by (intro outer_keys_less [of k m]) force
    with in_es lens [of k w] uniq [of k w]
    show "k \<noteq> ascii ''info'' \<and> decode (encode_bytes k @ r) = Ok (Bytes k, r) \<and> decode (encode w @ r) = Ok (normal w, r)"
      by (auto simp: decode_encode_bytes decode_encode_normal)
  next
    fix r
    show "decode (encode_bytes (ascii ''info'') @ r) = Ok (Bytes (ascii ''info''), r)"
      using lens [of "ascii ''info''" v] by (intro decode_encode_bytes) simp
    show "decode (encode v @ r) = Ok (normal v, r)"
      using lens [of "ascii ''info''" v] assms(1) by (intro decode_encode_normal) simp_all
  qed
  then show ?thesis by (simp add: find_raw_info_bytes_def sort)
qed

lemma metainfo_of_outer:
  assumes "metainfo_wf m" and "uniq_keys v"
  shows "metainfo_of (normal (Dict (outer_entries m @ [(ascii ''info'', v)]))) inf_v
    = m\<lparr>info := inf_v, url_list := [], httpseeds := []\<rparr>"
proof -
  let ?d = "Dict (outer_entries m @ [(ascii ''info'', v)])"
  note u = uniq_outer [OF assms(2), of m]
  note get = outer_get [OF assms(2), of m]
  have str: "opt_string (normal ?d) (ascii ''announce'') = Some (announce m)"
    "opt_string (normal ?d) (ascii ''comment'') = comment m"
    "opt_string (normal ?d) (ascii ''created by'') = created_by m"
    "opt_string (normal ?d) (ascii ''encoding'') = encoding m"
    using assms(1) get opt_string_Bytes [of ?d "ascii ''announce''" "Some (announce m)"]
    unfolding opt_string_normal [OF u] metainfo_wf_def
    by (auto intro: opt_string_Bytes simp: opt_utf8_def simp del: dict_get_Dict)
  have "normal (List (map (\<lambda>tier. List (map Bytes tier)) ts)) = List (map (\<lambda>tier. List (map Bytes tier)) ts)" for ts
    by (simp add: comp_def)
  then have al: "parse_announce_list (normal ?d) = announce_list m"
    using assms(1) get(3)
    by (intro parse_announce_list_outer) (auto simp: metainfo_wf_def dict_get_normal [OF u] simp del: dict_get_Dict normal.simps)
  have urls: "parse_url_list (normal ?d) = []" "parse_httpseeds (normal ?d) = []"
    by (simp_all add: parse_url_list_def parse_httpseeds_def dict_get_normal [OF u] get del: dict_get_Dict normal.simps)
  have date: "dict_get_int (normal ?d) (ascii ''creation date'') = creation_date m"
    by (simp only: dict_get_int_normal [OF u]) (cases "creation_date m"; simp add: dict_get_int_def get(4) del: dict_get_Dict)
  show ?thesis
    by (cases m) (use str al urls date in \<open>simp add: metainfo_of_def del: normal.simps\<close>)
qed

lemma metainfo_roundtrip_aux:
  assumes wf: "metainfo_wf m" and bs: "metainfo_to_bytes m = Some bs" and len: "length bs < 2 ^ 64"
  shows "metainfo_from_bytes bs = Ok (m\<lparr>url_list := [], httpseeds := []\<rparr>)"
proof -
  let ?v = "info_dict (info m)" let ?d = "Dict (outer_entries m @ [(ascii ''info'', ?v)])"
  have raw: "raw_info (info m) = RawBytes (encode ?v)" and iwf: "info_wf (info m)"
    using wf by (simp_all add: metainfo_wf_def info_wf_def)
  have bs_eq: "bs = encode ?d"
    using bs metainfo_to_bytes_encode [OF raw] by simp
  note v = uniq_info_dict [of "info m"]
  note u = uniq_outer [OF v, of m]
  have dec: "decode bs = Ok (normal ?d, [])"
    using decode_encode_normal [OF u, of "[]"] len by (simp only: bs_eq append_Nil2)
  have inf_v: "parse_info (normal ?v) (encode ?v) = Ok (info m)"
    using parse_info_dict [OF iwf, of "encode ?v"] raw by (cases "info m") simp
  have get: "dict_get (normal ?d) (ascii ''info'') = Some (normal ?v)"
    unfolding dict_get_normal [OF u] outer_get(1) [OF v] by simp
  have "\<exists>es. normal ?d = Dict es" by simp
  then have "metainfo_from_bytes bs = Ok (metainfo_of (normal ?d) (info m))"
    unfolding metainfo_from_bytes_def dec
    using get find_raw_outer [OF v, of m] len inf_v bs_eq
    by (auto simp del: normal.simps dict_get_Dict)
  then show ?thesis
    unfolding metainfo_of_outer [OF wf v] by (cases m) simp
qed

text \<open>
  C37. Metainfo round trip. A well-formed metainfo whose raw info is the encoded info dictionary is
  serialized to bytes that the parser reads back field for field, the raw info bytes included;
  only the web seed lists are lost, because the serializer does not write them.
\<close>

theorem metainfo_roundtrip:
  assumes "metainfo_wf m" and "metainfo_to_bytes m = Some bs" and "length bs < 2 ^ 64"
  shows "metainfo_from_bytes bs = Ok (m\<lparr>url_list := [], httpseeds := []\<rparr>)"
  using assms by (rule metainfo_roundtrip_aux)

definition sample_metainfo :: Metainfo where
  "sample_metainfo =
     builder_finish (\<lambda>x. replicate 20 (of_nat (length x))) \<lparr>mb_piece_length = 4, mb_buf = [1, 2], mb_pieces = [], mb_total_length = 2\<rparr>
       (ascii ''http://t/'') (Single (ascii ''f'') 2) [ascii ''http://w/''] []"

lemma sample_metainfo_facts:
  "metainfo_wf sample_metainfo" "\<exists>bs. metainfo_to_bytes sample_metainfo = Some bs \<and> length bs < 2 ^ 64"
proof -
  show "metainfo_wf sample_metainfo"
    by (simp add: sample_metainfo_def builder_finish_def metainfo_wf_def info_wf_def info_dict_def opt_utf8_def ascii_def)
  have "map_option length (metainfo_to_bytes sample_metainfo) = Some 100" by code_simp
  then show "\<exists>bs. metainfo_to_bytes sample_metainfo = Some bs \<and> length bs < 2 ^ 64" by auto
qed

theorem metainfo_roundtrip_witness:
  "\<exists>bs. metainfo_to_bytes sample_metainfo = Some bs \<and>
     metainfo_from_bytes bs = Ok (sample_metainfo\<lparr>url_list := [], httpseeds := []\<rparr>)"
  using sample_metainfo_facts metainfo_roundtrip by blast

lemma sint_ucast_u32: "0 < pl \<Longrightarrow> 0 < sint (ucast (pl :: u32) :: i64)"
proof -
  assume "0 < pl"
  have "uint pl < 2 ^ 32" using uint_lt2p [of pl] by simp
  then have lt: "0 \<le> uint pl" "uint pl < 2 ^ 64" "uint pl < 2 ^ 63" by simp_all
  from lt(1) have ge: "- (2 ^ 63) \<le> uint pl" by (rule order_trans [rotated]) simp
  have "take_bit 64 (uint pl) = uint pl" using lt(1,2) by (rule take_bit_int_eq_self)
  moreover have "signed_take_bit 63 (uint pl) = uint pl" using ge lt(3) by (rule signed_take_bit_int_eq_self)
  ultimately have "sint (ucast pl :: i64) = uint pl"
    by (simp add: sint_uint unsigned_ucast_eq)
  with \<open>0 < pl\<close> show ?thesis by (simp add: word_less_def)
qed

text \<open>A created torrent is read back. The \<open>.torrent\<close> bytes of a metainfo finished by the builder
  parse to a metainfo with the same info (piece length, hashes, files, raw bytes), the same info
  hash and the same tracker.
\<close>

theorem created_torrent_parses:
  assumes "\<And>x. length (sha1 x) = 20" and "builder_new pl = Ok b0" and "add_all sha1 b0 ds = Some (Ok b)"
    and "length (concat ds) < 2 ^ 64" and "utf8_valid ann" and "mode_wf md"
    and "metainfo_to_bytes (builder_finish sha1 b ann md urls seeds) = Some bs" and "length bs < 2 ^ 64"
  shows "\<exists>m'. metainfo_from_bytes bs = Ok m' \<and> info m' = info (builder_finish sha1 b ann md urls seeds) \<and>
    announce m' = ann \<and> info_hash sha1 m' = info_hash sha1 (builder_finish sha1 b ann md urls seeds)"
proof -
  have pl: "0 < pl" using assms(2) by (simp add: builder_new_def split: if_splits)
  obtain b0' where "builder_new pl = Ok b0'" "builder_holds sha1 pl [] b0'"
    using builder_new_holds [OF pl] by blast
  with assms(2) have "builder_holds sha1 pl [] b0" by simp
  from add_all_holds [OF this pl, of ds] assms(3,4) have b: "builder_holds sha1 pl (concat ds) b" by simp
  let ?m = "builder_finish sha1 b ann md urls seeds"
  have "list_all (\<lambda>p. length p = 20) (pieces (info ?m))"
    using b assms(1) by (auto simp: builder_finish_def builder_holds_def Let_def list_all_iff)
  moreover have "0 < sint (piece_length (info ?m))"
    using b sint_ucast_u32 [OF pl] by (simp add: builder_finish_def builder_holds_def Let_def)
  ultimately have "metainfo_wf ?m"
    using assms(5,6)
    by (simp add: metainfo_wf_def info_wf_def info_dict_def opt_utf8_def builder_finish_def Let_def)
  from metainfo_roundtrip_aux [OF this assms(7,8)] show ?thesis
    by (simp add: info_hash_def) (simp add: builder_finish_def Let_def)
qed

theorem created_torrent_parses_witness:
  "\<exists>b0 b bs m'. builder_new 4 = Ok b0 \<and> add_all (\<lambda>_. replicate 20 7) b0 [[1], [2]] = Some (Ok b) \<and>
     metainfo_to_bytes (builder_finish (\<lambda>_. replicate 20 7) b (ascii ''http://t/'') (Single (ascii ''f'') 2) [] []) = Some bs \<and>
     metainfo_from_bytes bs = Ok m' \<and> announce m' = ascii ''http://t/''"
proof -
  let ?sha = "\<lambda>_. replicate 20 7" let ?start = "\<lparr>mb_piece_length = 4, mb_buf = [], mb_pieces = [], mb_total_length = 0\<rparr>"
  let ?fed = "\<lparr>mb_piece_length = 4, mb_buf = [1, 2], mb_pieces = [], mb_total_length = 2\<rparr>"
  let ?m = "builder_finish ?sha ?fed (ascii ''http://t/'') (Single (ascii ''f'') 2) [] []"
  have new: "builder_new 4 = Ok ?start" by (simp add: builder_new_def)
  have add: "add_all ?sha ?start [[1], [2]] = Some (Ok ?fed)"
    by (simp add: builder_add_data_def checked_add_def drain_pieces.simps)
  have "map_option length (metainfo_to_bytes ?m) = Some 100" by code_simp
  then obtain bs where bs: "metainfo_to_bytes ?m = Some bs" "length bs < 2 ^ 64" by auto
  have "utf8_valid (ascii ''http://t/'')" "mode_wf (Single (ascii ''f'') 2)" by (simp_all add: ascii_def)
  from created_torrent_parses [OF _ new add _ this bs]
  obtain m' where "metainfo_from_bytes bs = Ok m'" "announce m' = ascii ''http://t/''" by auto
  with new add bs(1) show ?thesis by (intro exI conjI)
qed

end
