(* ===== verification/Peer_Ext.thy ===== *)
theory Peer_Ext
  imports Tracker "HOL-Library.AList"
begin

section \<open>Extension messages between peers\<close>

text \<open>
  \<open>peer/extension.rs\<close> (the LTEP handshake of BEP 10), \<open>peer/metadata.rs\<close> (metadata pieces of
  BEP 9), \<open>peer/pex.rs\<close> (peer exchange of BEP 11) and \<open>PeerId\<close> of \<open>peer/mod.rs\<close>. A \<open>HashMap\<close>
  is an association list in some iteration order.
\<close>

subsection \<open>Peer IDs\<close>

definition CHARSET :: bytes where
  "CHARSET = ascii ''0123456789ABCDEFGHIJKLMNOPQRSTUVWXYZabcdefghijklmnopqrstuvwxyz''"

text \<open>\<open>rng k n\<close> is draw number \<open>k\<close> of \<open>random_range(0..n)\<close>.\<close>

definition peer_id_random :: "(nat \<Rightarrow> nat \<Rightarrow> nat) \<Rightarrow> bytes" where
  "peer_id_random rng = ascii ''-TR1000-'' @ map (\<lambda>k. CHARSET ! rng k (length CHARSET)) [0..<12]"

datatype PeerState = PsHandshake | PsInit | PsUnchoked | PsChoked | PsClosed

subsection \<open>The extension handshake\<close>

record ExtensionNegotiation =
  en_m :: "(rstring \<times> u8) list"
  en_v :: "rstring option"
  en_yourip :: "rstring option"
  en_metadata_size :: "i64 option"
  en_reqq :: "i64 option"

definition extension_new :: ExtensionNegotiation where
  "extension_new = \<lparr>en_m = [], en_v = None, en_yourip = None, en_metadata_size = None, en_reqq = None\<rparr>"

definition add_extension :: "ExtensionNegotiation \<Rightarrow> rstring \<Rightarrow> u8 \<Rightarrow> ExtensionNegotiation result" where
  "add_extension n name eid =
     (if eid \<noteq> 0 then Ok (n\<lparr>en_m := AList.update name eid (en_m n)\<rparr>) else Panic)"

definition opt_field :: "bytes \<Rightarrow> ('a \<Rightarrow> bencode) \<Rightarrow> 'a option \<Rightarrow> (bytes \<times> bencode) list" where
  "opt_field key f v = (case v of Some x \<Rightarrow> [(key, f x)] | None \<Rightarrow> [])"

definition extension_to_bencode :: "ExtensionNegotiation \<Rightarrow> bencode" where
  "extension_to_bencode n =
     (let m_entries = sort_key fst (map (\<lambda>(name, eid). (name, Integer (ucast eid))) (en_m n));
          entries = [(ascii ''m'', Dict m_entries)] @
            opt_field (ascii ''v'') Bytes (en_v n) @
            opt_field (ascii ''yourip'') Bytes (en_yourip n) @
            opt_field (ascii ''metadata_size'') Integer (en_metadata_size n) @
            opt_field (ascii ''reqq'') Integer (en_reqq n)
      in Dict (sort_key fst entries))"

definition u8_try_from :: "i64 \<Rightarrow> u8 option" where
  "u8_try_from i = (if 0 \<le> sint i \<and> sint i < 256 then Some (ucast i) else None)"

fun parse_m :: "(bytes \<times> bencode) list \<Rightarrow> (rstring \<times> u8) list \<Rightarrow> (rstring \<times> u8) list result" where
  "parse_m [] acc = Ok acc"
| "parse_m ((key, v) # es) acc =
     and_then (ok_or PeerInvalidExtendedMessage (from_utf8 key)) (\<lambda>name.
     and_then (case v of
         Integer i \<Rightarrow> ok_or PeerInvalidExtendedMessage (u8_try_from i)
       | _ \<Rightarrow> Err PeerInvalidExtendedMessage) (\<lambda>eid.
       if eid = 0 then parse_m es acc else parse_m es (AList.update name eid acc)))"

definition extension_from_bencode :: "bencode \<Rightarrow> ExtensionNegotiation result" where
  "extension_from_bencode val =
     (case val of
        Dict _ \<Rightarrow>
          and_then
            (case dict_get val (ascii ''m'') of
               Some (Dict m_entries) \<Rightarrow> parse_m m_entries []
             | _ \<Rightarrow> Err PeerInvalidExtendedMessage) (\<lambda>m.
          Ok \<lparr>en_m = m,
              en_v = Option.bind (dict_get_bytes val (ascii ''v'')) from_utf8,
              en_yourip = Option.bind (dict_get_bytes val (ascii ''yourip'')) from_utf8,
              en_metadata_size = dict_get_int val (ascii ''metadata_size''),
              en_reqq = dict_get_int val (ascii ''reqq'')\<rparr>)
      | _ \<Rightarrow> Err PeerInvalidExtendedMessage)"

subsection \<open>Metadata pieces\<close>

definition METADATA_PIECE_SIZE :: nat where
  "METADATA_PIECE_SIZE = 16 * 1024"

record MetadataRequest =
  mr_piece :: u32

record Metadata =
  md_piece :: u32
  md_total_size :: u64
  md_data :: bytes

definition metadata_request_to_bencode :: "MetadataRequest \<Rightarrow> bencode" where
  "metadata_request_to_bencode r =
     Dict [(ascii ''msg_type'', Integer 0), (ascii ''piece'', Integer (ucast (mr_piece r)))]"

definition metadata_request_from_bencode :: "bencode \<Rightarrow> MetadataRequest result" where
  "metadata_request_from_bencode val =
     and_then (ok_or PeerInvalidExtendedMessage (dict_get_int val (ascii ''msg_type''))) (\<lambda>t.
     if t \<noteq> 0 then Err PeerInvalidExtendedMessage else
     and_then (ok_or PeerInvalidExtendedMessage (dict_get_int val (ascii ''piece''))) (\<lambda>p.
       Ok \<lparr>mr_piece = ucast p\<rparr>))"

definition metadata_to_bencode :: "Metadata \<Rightarrow> bencode" where
  "metadata_to_bencode m =
     Dict [(ascii ''msg_type'', Integer 1), (ascii ''piece'', Integer (ucast (md_piece m))),
           (ascii ''total_size'', Integer (md_total_size m))]"

definition metadata_from_bencode :: "bencode \<Rightarrow> bytes \<Rightarrow> Metadata result" where
  "metadata_from_bencode val raw_data =
     and_then (ok_or PeerInvalidExtendedMessage (dict_get_int val (ascii ''msg_type''))) (\<lambda>t.
     if t \<noteq> 1 then Err PeerInvalidExtendedMessage else
     and_then (ok_or PeerInvalidExtendedMessage (dict_get_int val (ascii ''piece''))) (\<lambda>p.
     and_then (ok_or PeerInvalidExtendedMessage (dict_get_int val (ascii ''total_size''))) (\<lambda>n.
       Ok \<lparr>md_piece = ucast p, md_total_size = n, md_data = raw_data\<rparr>)))"

definition is_reject :: "bencode \<Rightarrow> bool" where
  "is_reject val \<longleftrightarrow> dict_get_int val (ascii ''msg_type'') = Some 2"

subsection \<open>Peer exchange\<close>

record PexMessage =
  pex_added :: "SocketAddr list"
  pex_dropped :: "SocketAddr list"
  pex_added6 :: "SocketAddr list"
  pex_dropped6 :: "SocketAddr list"

definition pex_new :: PexMessage where
  "pex_new = \<lparr>pex_added = [], pex_dropped = [], pex_added6 = [], pex_dropped6 = []\<rparr>"

definition pex_field :: "bytes \<Rightarrow> (SocketAddr list \<Rightarrow> bytes) \<Rightarrow> SocketAddr list \<Rightarrow> (bytes \<times> bencode) list" where
  "pex_field key enc ps = (if ps \<noteq> [] then [(key, Bytes (enc ps))] else [])"

definition pex_to_bencode :: "PexMessage \<Rightarrow> bencode" where
  "pex_to_bencode m =
     Dict (sort_key fst
       (pex_field (ascii ''added'') encode_compact_peers_ipv4 (pex_added m) @
        pex_field (ascii ''added6'') encode_compact_peers_ipv6 (pex_added6 m) @
        pex_field (ascii ''dropped'') encode_compact_peers_ipv4 (pex_dropped m) @
        pex_field (ascii ''dropped6'') encode_compact_peers_ipv6 (pex_dropped6 m)))"

definition pex_get :: "bencode \<Rightarrow> bytes \<Rightarrow> (bytes \<Rightarrow> SocketAddr list result) \<Rightarrow> SocketAddr list" where
  "pex_get val key dec =
     (case dict_get_bytes val key of
        Some b \<Rightarrow> (case dec b of Ok ps \<Rightarrow> ps | _ \<Rightarrow> [])
      | None \<Rightarrow> [])"

definition pex_from_bencode :: "bencode \<Rightarrow> PexMessage result" where
  "pex_from_bencode val =
     (case val of
        Dict _ \<Rightarrow>
          Ok \<lparr>pex_added = pex_get val (ascii ''added'') parse_compact_peers_ipv4,
              pex_dropped = pex_get val (ascii ''dropped'') parse_compact_peers_ipv4,
              pex_added6 = pex_get val (ascii ''added6'') parse_compact_peers_ipv6,
              pex_dropped6 = pex_get val (ascii ''dropped6'') parse_compact_peers_ipv6\<rparr>
      | _ \<Rightarrow> Err PeerInvalidPexMessage)"

subsection \<open>The extension handshake round trip\<close>

text \<open>\<open>via_wire v\<close>: the value the other side decodes from the encoding of \<open>v\<close>.\<close>

definition via_wire :: "bencode \<Rightarrow> bencode result" where
  "via_wire v = and_then (decode (encode v)) (\<lambda>(w, _). Ok w)"

lemma via_wire_normal: "uniq_keys v \<Longrightarrow> length (encode v) < 2 ^ 64 \<Longrightarrow> via_wire v = Ok (normal v)"
  using decode_encode_normal [of v "[]"] by (simp add: via_wire_def)

lemma canonical_sorted:
  "canonical (Dict (sort_key fst es)) \<longleftrightarrow> distinct (map fst es) \<and> list_all (\<lambda>(k, v). canonical v) es"
  by simp

lemma dict_get_sorted: "distinct (map fst es) \<Longrightarrow> dict_get (Dict (sort_key fst es)) key = map_of es key"
  by (simp add: map_of_sort_key)

lemma via_wire_canonical: "canonical v \<Longrightarrow> length (encode v) < 2 ^ 64 \<Longrightarrow> via_wire v = Ok v"
  by (simp add: via_wire_normal canonical_uniq_keys normal_canonical)

definition extension_wf :: "ExtensionNegotiation \<Rightarrow> bool" where
  "extension_wf n \<longleftrightarrow> distinct (map fst (en_m n)) \<and>
     (\<forall>(name, eid) \<in> set (en_m n). utf8_valid name \<and> eid \<noteq> 0) \<and>
     (\<forall>s \<in> set_option (en_v n) \<union> set_option (en_yourip n). utf8_valid s)"

lemma sint_ucast_up:
  assumes "LENGTH('a) < LENGTH('b)"
  shows "sint (ucast (w :: 'a::len word) :: 'b::len word) = uint w"
proof -
  let ?n = "LENGTH('b) - Suc 0"
  have ge: "0 \<le> uint w" by simp
  have "uint w < 2 ^ LENGTH('a)" by (rule uint_lt2p)
  also have "(2 :: int) ^ LENGTH('a) \<le> 2 ^ ?n" using assms by (intro power_increasing) auto
  finally have lt: "uint w < 2 ^ ?n" .
  also have "(2 :: int) ^ ?n \<le> 2 ^ LENGTH('b)" by (intro power_increasing) auto
  finally have "take_bit LENGTH('b) (uint w) = uint w" using ge by (intro take_bit_int_eq_self)
  moreover have "signed_take_bit ?n (uint w) = uint w"
    using lt by (intro signed_take_bit_int_eq_self order_trans [OF _ ge]) simp_all
  ultimately show ?thesis by (simp add: sint_uint unsigned_ucast_eq)
qed

lemma u8_try_from_ucast: "u8_try_from (ucast (b :: u8)) = Some b"
proof -
  have "ucast (ucast b :: i64) = b"
    by (rule bit_word_eqI) (simp add: bit_simps)
  then show ?thesis using uint_lt2p [of b] by (simp add: u8_try_from_def sint_ucast_up)
qed

lemma AList_update_new: "k \<notin> fst ` set xs \<Longrightarrow> AList.update k v xs = xs @ [(k, v)]"
  by (induction xs) auto

lemma parse_m_entries:
  assumes "\<forall>(name, eid) \<in> set es. utf8_valid name \<and> eid \<noteq> 0" and "distinct (map fst es)"
    and "fst ` set es \<inter> fst ` set acc = {}"
  shows "parse_m (map (\<lambda>(name, eid). (name, Integer (ucast eid))) es) acc = Ok (acc @ es)"
  using assms
proof (induction es arbitrary: acc)
  case (Cons e es)
  obtain name eid where e: "e = (name, eid)" by (cases e)
  have new: "AList.update name eid acc = acc @ [(name, eid)]"
    using Cons.prems(3) e by (intro AList_update_new) auto
  show ?case
    using Cons.IH [of "acc @ [(name, eid)]"] Cons.prems new
    by (auto simp: e from_utf8_def u8_try_from_ucast)
qed simp

lemma extension_from_Dict:
  "val = Dict es \<Longrightarrow> extension_from_bencode val =
     and_then
       (case dict_get val (ascii ''m'') of
          Some (Dict m_entries) \<Rightarrow> parse_m m_entries []
        | _ \<Rightarrow> Err PeerInvalidExtendedMessage) (\<lambda>m.
     Ok \<lparr>en_m = m,
         en_v = Option.bind (dict_get_bytes val (ascii ''v'')) from_utf8,
         en_yourip = Option.bind (dict_get_bytes val (ascii ''yourip'')) from_utf8,
         en_metadata_size = dict_get_int val (ascii ''metadata_size''),
         en_reqq = dict_get_int val (ascii ''reqq'')\<rparr>)"
  by (simp add: extension_from_bencode_def)

lemma pex_from_Dict:
  "val = Dict es \<Longrightarrow> pex_from_bencode val =
     Ok \<lparr>pex_added = pex_get val (ascii ''added'') parse_compact_peers_ipv4,
         pex_dropped = pex_get val (ascii ''dropped'') parse_compact_peers_ipv4,
         pex_added6 = pex_get val (ascii ''added6'') parse_compact_peers_ipv6,
         pex_dropped6 = pex_get val (ascii ''dropped6'') parse_compact_peers_ipv6\<rparr>"
  by (simp add: pex_from_bencode_def)

lemma ext_entries_get:
  fixes n :: ExtensionNegotiation
  defines "d \<equiv> extension_to_bencode n"
  shows "canonical d \<longleftrightarrow> distinct (map fst (en_m n))"
    "dict_get d (ascii ''m'') = Some (Dict (sort_key fst (map (\<lambda>(name, eid). (name, Integer (ucast eid))) (en_m n))))"
    "dict_get_bytes d (ascii ''v'') = en_v n" "dict_get_bytes d (ascii ''yourip'') = en_yourip n"
    "dict_get_int d (ascii ''metadata_size'') = en_metadata_size n" "dict_get_int d (ascii ''reqq'') = en_reqq n"
proof -
  let ?m = "sort_key fst (map (\<lambda>(name, eid). (name, Integer (ucast eid :: i64))) (en_m n))"
  let ?es = "[(ascii ''m'', Dict ?m)] @ opt_field (ascii ''v'') Bytes (en_v n) @
            opt_field (ascii ''yourip'') Bytes (en_yourip n) @
            opt_field (ascii ''metadata_size'') Integer (en_metadata_size n) @
            opt_field (ascii ''reqq'') Integer (en_reqq n)"
  have d: "d = Dict (sort_key fst ?es)" by (simp add: d_def extension_to_bencode_def Let_def)
  have dist: "distinct (map fst ?es)"
    by (simp add: opt_field_def ascii_def split: option.split)
  have "list_all (\<lambda>(k, v). canonical v) (map (\<lambda>(name, eid). (name, Integer (ucast eid))) xs)" for xs :: "(rstring \<times> u8) list"
    by (auto simp: list_all_iff)
  then have m: "canonical (Dict ?m) \<longleftrightarrow> distinct (map fst (en_m n))"
    unfolding canonical_sorted by (simp only: map_fst_map_snd simp_thms)
  have leaf: "list_all (\<lambda>(k, v). canonical v) ?es \<longleftrightarrow> canonical (Dict ?m)"
    by (auto simp: opt_field_def list_all_iff split: option.split)
  show "canonical d \<longleftrightarrow> distinct (map fst (en_m n))"
    unfolding d canonical_sorted using dist leaf m by blast
  have get: "dict_get d key = map_of ?es key" for key
    unfolding d by (rule dict_get_sorted [OF dist])
  show "dict_get d (ascii ''m'') = Some (Dict ?m)" unfolding get by simp
  show "dict_get_bytes d (ascii ''v'') = en_v n" "dict_get_bytes d (ascii ''yourip'') = en_yourip n"
    "dict_get_int d (ascii ''metadata_size'') = en_metadata_size n" "dict_get_int d (ascii ''reqq'') = en_reqq n"
    unfolding dict_get_bytes_def dict_get_int_def get
    by (auto simp: opt_field_def ascii_def split: option.split)
qed

text \<open>The extension handshake round trip. A negotiation with distinct UTF-8 extension names, all
  enabled, survives encoding and decoding: the peer sees the same map of names to IDs (whatever
  the iteration order of the hash map was), the same client name, address, metadata size and
  queue depth.
\<close>

theorem extension_roundtrip:
  assumes "extension_wf n" and "length (encode (extension_to_bencode n)) < 2 ^ 64"
  shows "\<exists>n'. and_then (via_wire (extension_to_bencode n)) extension_from_bencode = Ok n' \<and>
    map_of (en_m n') = map_of (en_m n) \<and> en_v n' = en_v n \<and> en_yourip n' = en_yourip n \<and>
    en_metadata_size n' = en_metadata_size n \<and> en_reqq n' = en_reqq n"
proof -
  have dist: "distinct (map fst (en_m n))" using assms(1) by (simp add: extension_wf_def)
  let ?ms = "sort_key fst (en_m n)"
  have sorted: "sort_key fst (map (\<lambda>(name, eid). (name, Integer (ucast eid))) (en_m n))
      = map (\<lambda>(name, eid). (name, Integer (ucast eid))) ?ms"
    by (rule sort_key_map_snd)
  have "parse_m (map (\<lambda>(name, eid). (name, Integer (ucast eid))) ?ms) [] = Ok ([] @ ?ms)"
    using assms(1) by (intro parse_m_entries) (auto simp: extension_wf_def)
  moreover have "via_wire (extension_to_bencode n) = Ok (extension_to_bencode n)"
    using dist assms(2) by (simp add: via_wire_canonical ext_entries_get)
  moreover have "Option.bind (en_v n) from_utf8 = en_v n" "Option.bind (en_yourip n) from_utf8 = en_yourip n"
    using assms(1) by (cases "en_v n"; cases "en_yourip n"; auto simp: extension_wf_def from_utf8_def)+
  ultimately have "and_then (via_wire (extension_to_bencode n)) extension_from_bencode =
      Ok \<lparr>en_m = ?ms, en_v = en_v n, en_yourip = en_yourip n,
          en_metadata_size = en_metadata_size n, en_reqq = en_reqq n\<rparr>"
    by (simp add: extension_from_Dict [OF extension_to_bencode_def [unfolded Let_def]] ext_entries_get sorted
        del: dict_get_Dict)
  then show ?thesis
    using map_of_sort_key [OF dist]
    by (intro exI [of _ "\<lparr>en_m = ?ms, en_v = en_v n, en_yourip = en_yourip n,
          en_metadata_size = en_metadata_size n, en_reqq = en_reqq n\<rparr>"]) (simp del: and_then_eq_Ok)
qed

theorem extension_roundtrip_witness:
  "\<exists>n'. and_then (via_wire (extension_to_bencode
        \<lparr>en_m = [(ascii ''ut_pex'', 1), (ascii ''ut_metadata'', 2)], en_v = None, en_yourip = None,
         en_metadata_size = Some 5, en_reqq = None\<rparr>)) extension_from_bencode = Ok n' \<and>
     map_of (en_m n') (ascii ''ut_pex'') = Some 1 \<and> en_metadata_size n' = Some 5"
proof -
  let ?n = "\<lparr>en_m = [(ascii ''ut_pex'', 1), (ascii ''ut_metadata'', 2)], en_v = None, en_yourip = None,
         en_metadata_size = Some 5, en_reqq = None\<rparr>"
  have wf: "extension_wf ?n" by (simp add: extension_wf_def ascii_def)
  have "extension_to_bencode ?n = Dict [(ascii ''m'', Dict [(ascii ''ut_metadata'', Integer 2), (ascii ''ut_pex'', Integer 1)]),
      (ascii ''metadata_size'', Integer 5)]"
    by (simp add: extension_to_bencode_def opt_field_def ascii_def)
  moreover have "length (encode (Dict [(ascii ''m'', Dict [(ascii ''ut_metadata'', Integer 2), (ascii ''ut_pex'', Integer 1)]),
      (ascii ''metadata_size'', Integer 5)])) = 54" by code_simp
  ultimately have "length (encode (extension_to_bencode ?n)) < 2 ^ 64" by simp
  from extension_roundtrip [OF wf this] obtain n' where
    "and_then (via_wire (extension_to_bencode ?n)) extension_from_bencode = Ok n'"
    "map_of (en_m n') = map_of (en_m ?n)" "en_metadata_size n' = en_metadata_size ?n" by blast
  then show ?thesis by (intro exI [of _ n']) (simp del: and_then_eq_Ok)
qed

subsection \<open>Peer exchange round trip\<close>

definition pex_wf :: "PexMessage \<Rightarrow> bool" where
  "pex_wf m \<longleftrightarrow> list_all is_v4 (pex_added m) \<and> list_all is_v4 (pex_dropped m) \<and>
     list_all is_v6 (pex_added6 m) \<and> list_all is_v6 (pex_dropped6 m)"

lemma pex_wire:
  assumes "pex_wf m" and "length (encode (pex_to_bencode m)) < 2 ^ 64"
  shows "and_then (via_wire (pex_to_bencode m)) pex_from_bencode = Ok m"
proof -
  let ?es = "pex_field (ascii ''added'') encode_compact_peers_ipv4 (pex_added m) @
        pex_field (ascii ''added6'') encode_compact_peers_ipv6 (pex_added6 m) @
        pex_field (ascii ''dropped'') encode_compact_peers_ipv4 (pex_dropped m) @
        pex_field (ascii ''dropped6'') encode_compact_peers_ipv6 (pex_dropped6 m)"
  have dist: "distinct (map fst ?es)" by (simp add: pex_field_def ascii_def)
  have leaf: "list_all (\<lambda>(k, v). canonical v) ?es" by (simp add: pex_field_def)
  have "canonical (pex_to_bencode m)"
    unfolding pex_to_bencode_def canonical_sorted using dist leaf by blast
  then have wire: "via_wire (pex_to_bencode m) = Ok (pex_to_bencode m)"
    using assms(2) by (rule via_wire_canonical)
  have get: "dict_get (pex_to_bencode m) key = map_of ?es key" for key
    unfolding pex_to_bencode_def by (rule dict_get_sorted [OF dist])
  have bytes: "dict_get_bytes (pex_to_bencode m) (ascii ''added'') =
      (if pex_added m = [] then None else Some (encode_compact_peers_ipv4 (pex_added m)))"
    "dict_get_bytes (pex_to_bencode m) (ascii ''added6'') =
      (if pex_added6 m = [] then None else Some (encode_compact_peers_ipv6 (pex_added6 m)))"
    "dict_get_bytes (pex_to_bencode m) (ascii ''dropped'') =
      (if pex_dropped m = [] then None else Some (encode_compact_peers_ipv4 (pex_dropped m)))"
    "dict_get_bytes (pex_to_bencode m) (ascii ''dropped6'') =
      (if pex_dropped6 m = [] then None else Some (encode_compact_peers_ipv6 (pex_dropped6 m)))"
    unfolding dict_get_bytes_def get by (simp_all add: pex_field_def ascii_def)
  have "pex_from_bencode (pex_to_bencode m) = Ok m"
  proof -
    have "pex_get (pex_to_bencode m) (ascii ''added'') parse_compact_peers_ipv4 = pex_added m"
      "pex_get (pex_to_bencode m) (ascii ''dropped'') parse_compact_peers_ipv4 = pex_dropped m"
      "pex_get (pex_to_bencode m) (ascii ''added6'') parse_compact_peers_ipv6 = pex_added6 m"
      "pex_get (pex_to_bencode m) (ascii ''dropped6'') parse_compact_peers_ipv6 = pex_dropped6 m"
      using assms(1)
      by (simp_all add: pex_get_def bytes parse_encode_compact4 parse_encode_compact6 filter_all pex_wf_def)
    then show ?thesis by (simp add: pex_from_Dict [OF pex_to_bencode_def])
  qed
  with wire show ?thesis by simp
qed

text \<open>The peer exchange round trip. A PEX message whose lists hold addresses of the family of
  their field is decoded on the other side to exactly the same four lists.
\<close>

theorem pex_roundtrip:
  assumes "pex_wf m" and "length (encode (pex_to_bencode m)) < 2 ^ 64"
  shows "and_then (via_wire (pex_to_bencode m)) pex_from_bencode = Ok m"
  by (rule pex_wire [OF assms])

theorem pex_roundtrip_witness:
  "and_then (via_wire (pex_to_bencode (pex_new\<lparr>pex_added := [SocketAddr (V4 1) 80]\<rparr>))) pex_from_bencode
     = Ok (pex_new\<lparr>pex_added := [SocketAddr (V4 1) 80]\<rparr>)"
proof -
  let ?m = "pex_new\<lparr>pex_added := [SocketAddr (V4 1) 80]\<rparr>"
  have "encode_compact_peers_ipv4 [SocketAddr (V4 1) 80] = [0, 0, 0, 1, 0, 80]"
    by (simp add: encode_compact_peers_ipv4_def to_be_bytes_def to_be_numeral)
  then have "pex_to_bencode ?m = Dict [(ascii ''added'', Bytes [0, 0, 0, 1, 0, 80])]"
    by (simp add: pex_to_bencode_def pex_field_def pex_new_def)
  moreover have "length (encode (Dict [(ascii ''added'', Bytes [0, 0, 0, 1, 0, 80])])) = 17" by code_simp
  ultimately have "length (encode (pex_to_bencode ?m)) < 2 ^ 64" by simp
  then show ?thesis by (intro pex_roundtrip) (simp add: pex_wf_def pex_new_def)
qed

end
