(* ===== verification/Utp.thy ===== *)
theory Utp
  imports Rust_Prelude
begin

section \<open>uTP packets\<close>

text \<open>
  \<open>peer/utp/header.rs\<close> and \<open>peer/utp/selective_ack.rs\<close> of \<open>torrent-core\<close> (BEP 29): the packet
  header, the chain of extensions behind it and the selective acknowledgement bitmask.
\<close>

subsection \<open>The header\<close>

datatype UtpType = StData | StFin | StState | StReset | StSyn

definition UTP_HEADER_SIZE :: nat where
  "UTP_HEADER_SIZE = 20"

definition UTP_VERSION :: u8 where
  "UTP_VERSION = 1"

fun utp_type_code :: "UtpType \<Rightarrow> u8" where
  "utp_type_code StData = 0"
| "utp_type_code StFin = 1"
| "utp_type_code StState = 2"
| "utp_type_code StReset = 3"
| "utp_type_code StSyn = 4"

definition utp_type_from_u8 :: "u8 \<Rightarrow> UtpType option" where
  "utp_type_from_u8 v =
     (if v = 0 then Some StData else if v = 1 then Some StFin else if v = 2 then Some StState
      else if v = 3 then Some StReset else if v = 4 then Some StSyn else None)"

fun increments_seq_nr :: "UtpType \<Rightarrow> bool" where
  "increments_seq_nr StData = True"
| "increments_seq_nr StFin = True"
| "increments_seq_nr StSyn = True"
| "increments_seq_nr StState = False"
| "increments_seq_nr StReset = False"

record UtpHeader =
  uh_type :: UtpType
  uh_version :: u8
  uh_extension :: u8
  uh_connection_id :: u16
  uh_timestamp :: u32
  uh_timestamp_diff :: u32
  uh_wnd_size :: u32
  uh_seq_nr :: u16
  uh_ack_nr :: u16

definition utp_header_new :: "UtpType \<Rightarrow> u16 \<Rightarrow> u16 \<Rightarrow> u16 \<Rightarrow> UtpHeader" where
  "utp_header_new t cid seq ack =
     \<lparr>uh_type = t, uh_version = UTP_VERSION, uh_extension = 0, uh_connection_id = cid, uh_timestamp = 0,
      uh_timestamp_diff = 0, uh_wnd_size = 0, uh_seq_nr = seq, uh_ack_nr = ack\<rparr>"

definition utp_header_to_bytes :: "UtpHeader \<Rightarrow> bytes" where
  "utp_header_to_bytes h =
     [push_bit 4 (utp_type_code (uh_type h)) OR (uh_version h AND 0x0F), uh_extension h]
     @ to_be_bytes (uh_connection_id h) @ to_be_bytes (uh_timestamp h)
     @ to_be_bytes (uh_timestamp_diff h) @ to_be_bytes (uh_wnd_size h)
     @ to_be_bytes (uh_seq_nr h) @ to_be_bytes (uh_ack_nr h)"

definition utp_header_from_bytes :: "bytes \<Rightarrow> UtpHeader result" where
  "utp_header_from_bytes data =
     (let type_raw = drop_bit 4 (data ! 0); version = data ! 0 AND 0x0F in
      if version \<noteq> UTP_VERSION then Err PeerUtpInvalidHeader
      else and_then (ok_or PeerUtpInvalidHeader (utp_type_from_u8 type_raw)) (\<lambda>t.
        Ok \<lparr>uh_type = t, uh_version = version, uh_extension = data ! 1,
            uh_connection_id = from_be_bytes (take 2 (drop 2 data)),
            uh_timestamp = from_be_bytes (take 4 (drop 4 data)),
            uh_timestamp_diff = from_be_bytes (take 4 (drop 8 data)),
            uh_wnd_size = from_be_bytes (take 4 (drop 12 data)),
            uh_seq_nr = from_be_bytes (take 2 (drop 16 data)),
            uh_ack_nr = from_be_bytes (take 2 (drop 18 data))\<rparr>))"

subsection \<open>The selective acknowledgement\<close>

definition SELECTIVE_ACK_MIN_BYTES :: nat where
  "SELECTIVE_ACK_MIN_BYTES = 4"

record SelectiveAck =
  sa_next_extension :: u8
  sa_bitmask :: bytes

definition sack_new :: "u8 \<Rightarrow> SelectiveAck" where
  "sack_new nx = \<lparr>sa_next_extension = nx, sa_bitmask = replicate SELECTIVE_ACK_MIN_BYTES 0\<rparr>"

definition sack_from_bytes :: "u8 \<Rightarrow> bytes \<Rightarrow> SelectiveAck result" where
  "sack_from_bytes nx bm =
     (if length bm < SELECTIVE_ACK_MIN_BYTES \<or> length bm mod 4 \<noteq> 0 then Err PeerUtpInvalidHeader
      else Ok \<lparr>sa_next_extension = nx, sa_bitmask = bm\<rparr>)"

definition ensure_capacity :: "nat \<Rightarrow> SelectiveAck \<Rightarrow> SelectiveAck" where
  "ensure_capacity min_bytes s =
     (let bm = sa_bitmask s in
      if length bm < min_bytes
      then s\<lparr>sa_bitmask := bm @ replicate ((min_bytes + 3) div 4 * 4 - length bm) 0\<rparr> else s)"

definition sack_set :: "SelectiveAck \<Rightarrow> nat \<Rightarrow> SelectiveAck result" where
  "sack_set s offset =
     (let byte_idx = offset div 8; bit_in_byte = offset mod 8; s' = ensure_capacity (byte_idx + 1) s
      in and_then (update_at byte_idx (\<lambda>b. b OR push_bit bit_in_byte 1) (sa_bitmask s')) (\<lambda>bm.
           Ok (s'\<lparr>sa_bitmask := bm\<rparr>)))"

definition sack_clear :: "SelectiveAck \<Rightarrow> nat \<Rightarrow> SelectiveAck" where
  "sack_clear s offset =
     (let byte_idx = offset div 8; bm = sa_bitmask s in
      if byte_idx < length bm
      then s\<lparr>sa_bitmask := bm[byte_idx := bm ! byte_idx AND NOT (push_bit (offset mod 8) 1)]\<rparr> else s)"

definition acknowledges :: "SelectiveAck \<Rightarrow> nat \<Rightarrow> bool" where
  "acknowledges s offset =
     (let byte_idx = offset div 8 in
      if length (sa_bitmask s) \<le> byte_idx then False
      else drop_bit (offset mod 8) (sa_bitmask s ! byte_idx) AND 1 = 1)"

definition count_ones :: "byte \<Rightarrow> nat" where
  "count_ones b = length (filter (bit b) [0..<8])"

definition count_acked :: "SelectiveAck \<Rightarrow> nat" where
  "count_acked s = sum_list (map count_ones (sa_bitmask s))"

text \<open>The loop body: byte number \<open>i\<close> of the \<open>limit\<close> bytes that are visited.\<close>

definition count_in_byte :: "nat \<Rightarrow> nat \<Rightarrow> nat \<times> byte \<Rightarrow> nat" where
  "count_in_byte max_offset limit = (\<lambda>(i, b).
     let bits_in_this_byte = (if i = limit - 1 then min (max_offset - i * 8) 8 else 8);
         mask = (if bits_in_this_byte = 8 then 0xFF else push_bit bits_in_this_byte 1 - 1)
     in count_ones (b AND mask))"

definition count_acked_in_range :: "SelectiveAck \<Rightarrow> nat \<Rightarrow> nat" where
  "count_acked_in_range s max_offset =
     (let max_byte = (max_offset + 7) div 8; limit = min max_byte (length (sa_bitmask s))
      in sum_list (map (count_in_byte max_offset limit) (enumerate 0 (take limit (sa_bitmask s)))))"

definition to_extension_bytes :: "SelectiveAck \<Rightarrow> bytes" where
  "to_extension_bytes s =
     [sa_next_extension s, of_nat (length (sa_bitmask s))] @ sa_bitmask s"

definition bit_count :: "SelectiveAck \<Rightarrow> nat" where
  "bit_count s = length (sa_bitmask s) * 8"

definition iter_acked :: "SelectiveAck \<Rightarrow> nat list" where
  "iter_acked s =
     concat (map (\<lambda>(i, b). map (\<lambda>k. i * 8 + k) (filter (\<lambda>k. drop_bit k b AND 1 = 1) [0..<8]))
       (enumerate 0 (sa_bitmask s)))"

subsection \<open>The chain of extensions\<close>

text \<open>\<open>parse_extensions_loop\<close> runs on the bytes from the current offset on.\<close>

function parse_extensions :: "u8 \<Rightarrow> bytes \<Rightarrow> (u8 \<times> bytes) list result" where
  "parse_extensions ext_type data =
     (if ext_type = 0 then Ok []
      else if length data < 2 then Err PeerUtpInvalidHeader
      else
        let next_ext = data ! 0; len = unat (data ! 1); rest = drop 2 data in
        if length rest < len then Err PeerUtpInvalidHeader
        else and_then (parse_extensions next_ext (drop len rest)) (\<lambda>es.
               Ok ((ext_type, take len rest) # es)))"
  by pat_completeness auto
termination by (relation "measure (\<lambda>(_, data). length data)") auto

declare parse_extensions.simps [simp del]

definition parse_selective_ack :: "u8 \<Rightarrow> bytes \<Rightarrow> SelectiveAck result" where
  "parse_selective_ack nx data = sack_from_bytes nx data"

subsection \<open>Header round trip\<close>

lemma utp_type_code_inv: "utp_type_from_u8 (utp_type_code t) = Some t"
  by (cases t) (simp_all add: utp_type_from_u8_def)

lemma utp_type_from_Some: "utp_type_from_u8 v = Some t \<Longrightarrow> v = utp_type_code t"
  by (auto simp: utp_type_from_u8_def split: if_splits)

lemma utp_type_code_less: "utp_type_code t \<le> 4"
  by (cases t) simp_all

lemma first_byte_type: "drop_bit 4 (push_bit 4 (utp_type_code t) OR (v AND 0x0F)) = utp_type_code t"
proof -
  have "bit (utp_type_code t) n \<Longrightarrow> n < 4" for n
    by (cases t) (auto simp: bit_1_iff bit_numeral_rec split: nat.splits)
  then show ?thesis
    unfolding nibble_mask by (intro bit_word_eqI) (auto simp: bit_simps)
qed

lemma first_byte_version: "(push_bit 4 (c :: u8) OR (v AND 0x0F)) AND 0x0F = v AND 0x0F"
  unfolding nibble_mask by (intro bit_word_eqI) (auto simp: bit_simps)

lemma length_utp_header: "length (utp_header_to_bytes h) = UTP_HEADER_SIZE"
  by (simp add: utp_header_to_bytes_def UTP_HEADER_SIZE_def)

lemma utp_from_to:
  assumes "uh_version h = UTP_VERSION"
  shows "utp_header_from_bytes (utp_header_to_bytes h) = Ok h"
proof -
  have b0: "drop_bit 4 (push_bit 4 (utp_type_code t) OR 1) = utp_type_code t"
    "(push_bit 4 (utp_type_code t) OR 1) AND 0x0F = 1" for t
    using first_byte_type [of t 1] first_byte_version [of "utp_type_code t" 1] by simp_all
  with assms show ?thesis
    by (cases h) (simp add: utp_header_from_bytes_def utp_header_to_bytes_def b0 utp_type_code_inv
        UTP_VERSION_def codec_simps Let_def)
qed

lemma take_drop_step: "take n (drop k d) @ drop (k + n) d = drop k d"
  by (metis add.commute append_take_drop_id drop_drop)

lemma utp_to_from:
  assumes "length data = UTP_HEADER_SIZE" and "utp_header_from_bytes data = Ok h"
  shows "utp_header_to_bytes h = data"
proof -
  have len: "length data = 20" using assms(1) by (simp add: UTP_HEADER_SIZE_def)
  from assms(2) have h: "data ! 0 AND 0x0F = 1"
    "h = \<lparr>uh_type = uh_type h, uh_version = 1, uh_extension = data ! 1,
            uh_connection_id = from_be_bytes (take 2 (drop 2 data)),
            uh_timestamp = from_be_bytes (take 4 (drop 4 data)),
            uh_timestamp_diff = from_be_bytes (take 4 (drop 8 data)),
            uh_wnd_size = from_be_bytes (take 4 (drop 12 data)),
            uh_seq_nr = from_be_bytes (take 2 (drop 16 data)),
            uh_ack_nr = from_be_bytes (take 2 (drop 18 data))\<rparr>"
    "utp_type_from_u8 (drop_bit 4 (data ! 0)) = Some (uh_type h)"
    by (auto simp: utp_header_from_bytes_def UTP_VERSION_def Let_def split: if_splits)
  have b0: "push_bit 4 (utp_type_code (uh_type h)) OR 1 = data ! 0"
    using utp_type_from_Some [OF h(3)] nibble_join [of "data ! 0"] h(1) by simp
  have "drop 18 data = take 2 (drop 18 data)" using len by simp
  then have fields: "take 2 (drop 2 data) @ take 4 (drop 4 data) @ take 4 (drop 8 data) @ take 4 (drop 12 data)
      @ take 2 (drop 16 data) @ take 2 (drop 18 data) = drop 2 data"
    using take_drop_step [of 2 2 data] take_drop_step [of 4 4 data] take_drop_step [of 4 8 data]
      take_drop_step [of 4 12 data] take_drop_step [of 2 16 data] by simp
  have "data = data ! 0 # data ! 1 # drop 2 data"
    using len by (metis Cons_nth_drop_Suc One_nat_def Suc_1 drop0 less_Suc_eq_0_disj less_numeral_extra(1) numeral_eq_iff zero_less_numeral one_less_numeral_iff semiring_norm(76))
  moreover have "utp_header_to_bytes h = data ! 0 # data ! 1 # drop 2 data"
    unfolding utp_header_to_bytes_def
    by (subst (2 3 4 5 6 7 8 9) h(2)) (use b0 fields len in \<open>simp add: to_from_be_bytes\<close>)
  ultimately show ?thesis by simp
qed

text \<open>The uTP header round trip. A version 1 header is 20 bytes long and is read back field for
  field, and any 20 bytes that are accepted are exactly the encoding of what was read.
\<close>

theorem utp_header_roundtrip:
  assumes "uh_version h = UTP_VERSION" and "length data = UTP_HEADER_SIZE"
    and "utp_header_from_bytes data = Ok h'"
  shows "length (utp_header_to_bytes h) = UTP_HEADER_SIZE \<and>
    utp_header_from_bytes (utp_header_to_bytes h) = Ok h \<and> utp_header_to_bytes h' = data"
  using utp_from_to [OF assms(1)] utp_to_from [OF assms(2,3)] length_utp_header by blast

theorem utp_header_roundtrip_witness:
  "utp_header_from_bytes (utp_header_to_bytes (utp_header_new StSyn 0x1234 1 0)) = Ok (utp_header_new StSyn 0x1234 1 0)"
proof -
  let ?h = "utp_header_new StSyn 0x1234 1 0"
  have v: "uh_version ?h = UTP_VERSION" by (simp add: utp_header_new_def)
  from utp_header_roundtrip [OF v length_utp_header utp_from_to [OF v]] show ?thesis by simp
qed

subsection \<open>The bitmask\<close>

lemma acknowledges_bit:
  "acknowledges s k \<longleftrightarrow> k < bit_count s \<and> bit (sa_bitmask s ! (k div 8)) (k mod 8)"
proof -
  have "drop_bit n (b :: byte) AND 1 = 1 \<longleftrightarrow> bit b n" for n b
    by (simp add: bit_iff_odd_drop_bit and_one_eq odd_iff_mod_2_eq_one)
  moreover have "length (sa_bitmask s) \<le> k div 8 \<longleftrightarrow> \<not> k < bit_count s"
    by (auto simp: bit_count_def div_less_iff_less_mult not_less)
  ultimately show ?thesis by (auto simp: acknowledges_def Let_def)
qed

definition sack_wf :: "SelectiveAck \<Rightarrow> bool" where
  "sack_wf s \<longleftrightarrow> 4 \<le> length (sa_bitmask s) \<and> length (sa_bitmask s) mod 4 = 0"

lemma sack_wf_new: "sack_wf (sack_new nx)"
  by (simp add: sack_wf_def sack_new_def SELECTIVE_ACK_MIN_BYTES_def)

lemma ensure_capacity_props:
  assumes "sack_wf s"
  shows "sack_wf (ensure_capacity n s)" "n \<le> length (sa_bitmask (ensure_capacity n s))"
    "acknowledges (ensure_capacity n s) k = acknowledges s k"
    "sa_next_extension (ensure_capacity n s) = sa_next_extension s"
proof -
  let ?bm = "sa_bitmask s" let ?m = "(n + 3) div 4 * 4"
  have m: "n \<le> ?m" "?m mod 4 = 0" by simp_all
  show "sack_wf (ensure_capacity n s)" "n \<le> length (sa_bitmask (ensure_capacity n s))"
    using assms m by (auto simp: ensure_capacity_def sack_wf_def Let_def)
  show "acknowledges (ensure_capacity n s) k = acknowledges s k"
  proof (cases "length ?bm < n")
    case True
    have "bit ((?bm @ replicate (?m - length ?bm) 0) ! (k div 8)) (k mod 8) \<longleftrightarrow>
        k div 8 < length ?bm \<and> bit (?bm ! (k div 8)) (k mod 8)" if "k div 8 < ?m"
      using that by (auto simp: nth_append)
    with True m(1) show ?thesis
      by (auto simp: acknowledges_bit ensure_capacity_def bit_count_def div_less_iff_less_mult Let_def)
  qed (simp add: ensure_capacity_def)
  show "sa_next_extension (ensure_capacity n s) = sa_next_extension s"
    by (simp add: ensure_capacity_def Let_def)
qed

text \<open>The acknowledged set. On a well-formed bitmask (at least 4 bytes, a multiple of 4)
  \<open>set\<close> never fails, keeps it well formed and acknowledges exactly one more offset, growing the
  mask as needed; \<open>clear\<close> removes exactly one.
\<close>

theorem sack_set_clear_spec:
  assumes "sack_wf s"
  shows "(\<exists>s'. sack_set s k = Ok s' \<and> sack_wf s' \<and> (\<forall>j. acknowledges s' j \<longleftrightarrow> acknowledges s j \<or> j = k)) \<and>
    sack_wf (sack_clear s k) \<and> (\<forall>j. acknowledges (sack_clear s k) j \<longleftrightarrow> acknowledges s j \<and> j \<noteq> k)"
proof -
  have inj: "j div 8 = k div 8 \<and> j mod 8 = k mod 8 \<longleftrightarrow> j = k" for j
    by (metis div_mult_mod_eq)
  let ?s = "ensure_capacity (k div 8 + 1) s"
  let ?bm = "(sa_bitmask ?s)[k div 8 := sa_bitmask ?s ! (k div 8) OR push_bit (k mod 8) 1]"
  have cap: "k div 8 < length (sa_bitmask ?s)"
    using ensure_capacity_props(2) [OF assms, of "k div 8 + 1"] by simp
  have set: "sack_set s k = Ok (?s\<lparr>sa_bitmask := ?bm\<rparr>)"
    using cap by (simp add: sack_set_def update_at_def Let_def)
  have "k < bit_count ?s" using cap by (simp add: bit_count_def div_less_iff_less_mult)
  then have "acknowledges (?s\<lparr>sa_bitmask := ?bm\<rparr>) j \<longleftrightarrow> acknowledges ?s j \<or> j = k" for j
    using cap inj [of j]
    by (auto simp: acknowledges_bit bit_count_def nth_list_update bit_or_exp_one)
  moreover have "sack_wf (?s\<lparr>sa_bitmask := ?bm\<rparr>)"
    using ensure_capacity_props(1) [OF assms, of "k div 8 + 1"] by (simp add: sack_wf_def)
  moreover have "acknowledges (sack_clear s k) j \<longleftrightarrow> acknowledges s j \<and> j \<noteq> k" for j
    using inj [of j]
    by (auto simp: acknowledges_bit sack_clear_def bit_count_def nth_list_update bit_simps Let_def
        div_less_iff_less_mult)
  moreover have "sack_wf (sack_clear s k)"
    using assms by (simp add: sack_clear_def sack_wf_def Let_def)
  ultimately show ?thesis
    using set ensure_capacity_props(3) [OF assms] by auto
qed

theorem sack_set_clear_spec_witness:
  "\<exists>s'. sack_set (sack_new 0) 40 = Ok s' \<and> acknowledges s' 40 \<and> \<not> acknowledges s' 39"
proof -
  from sack_set_clear_spec [OF sack_wf_new, of 0 40] obtain s' where
    "sack_set (sack_new 0) 40 = Ok s'" "\<And>j. acknowledges s' j \<longleftrightarrow> acknowledges (sack_new 0) j \<or> j = 40"
    by blast
  moreover have "\<not> acknowledges (sack_new 0) 39"
    by (simp add: acknowledges_def sack_new_def SELECTIVE_ACK_MIN_BYTES_def)
  ultimately show ?thesis by (intro exI [of _ s']) simp
qed

subsubsection \<open>Counting\<close>

lemma filter_byte_blocks:
  "filter (\<lambda>j. P (j div 8) (j mod 8)) [0..<8 * n]
     = concat (map (\<lambda>i. map (\<lambda>k. i * 8 + k) (filter (P i) [0..<8])) [0..<n])"
proof (induction n)
  case (Suc n)
  have "[8 * n..<8 * n + 8] = map (\<lambda>k. n * 8 + k) [0..<8]"
    using map_add_upt [of "8 * n" 8] by (simp only: add.commute mult.commute)
  then have "[0..<8 * Suc n] = [0..<8 * n] @ map (\<lambda>k. n * 8 + k) [0..<8]"
    using upt_add_eq_append [of 0 "8 * n" 8] by (simp only: mult_Suc_right add.commute [of 8] le0)
  moreover have "filter (\<lambda>j. P (j div 8) (j mod 8)) (map (\<lambda>k. n * 8 + k) [0..<8])
      = map (\<lambda>k. n * 8 + k) (filter (P n) [0..<8])"
    unfolding filter_map by (intro arg_cong [where f = "map _"] filter_cong) simp_all
  ultimately show ?case using Suc.IH by simp
qed simp

lemma odd_drop_bit: "drop_bit n (b :: byte) AND 1 = 1 \<longleftrightarrow> bit b n"
  by (simp add: bit_iff_odd_drop_bit and_one_eq odd_iff_mod_2_eq_one)

lemma iter_acked_eq: "iter_acked s = filter (acknowledges s) [0..<bit_count s]"
proof -
  have "filter (acknowledges s) [0..<bit_count s]
      = filter (\<lambda>j. bit (sa_bitmask s ! (j div 8)) (j mod 8)) [0..<8 * length (sa_bitmask s)]"
    by (intro filter_cong) (auto simp: bit_count_def acknowledges_bit mult.commute)
  then show ?thesis
    by (simp add: iter_acked_def enumerate_map odd_drop_bit filter_byte_blocks [where P = "\<lambda>i. bit (sa_bitmask s ! i)"] comp_def)
qed

lemma length_filter_blocks:
  "length (filter (\<lambda>j. P (j div 8) (j mod 8)) [0..<8 * n]) = (\<Sum>i\<leftarrow>[0..<n]. length (filter (P i) [0..<8]))"
  by (simp add: filter_byte_blocks length_concat comp_def)

lemma count_acked_eq: "count_acked s = length (iter_acked s)"
proof -
  have "map count_ones (sa_bitmask s) = map (\<lambda>i. count_ones (sa_bitmask s ! i)) [0..<length (sa_bitmask s)]"
    by (rule nth_equalityI) simp_all
  moreover have "length (filter (acknowledges s) [0..<bit_count s])
      = length (filter (\<lambda>j. bit (sa_bitmask s ! (j div 8)) (j mod 8)) [0..<8 * length (sa_bitmask s)])"
    by (intro arg_cong [where f = length] filter_cong) (auto simp: bit_count_def acknowledges_bit mult.commute)
  ultimately show ?thesis
    by (simp add: count_acked_def iter_acked_eq count_ones_def
        length_filter_blocks [where P = "\<lambda>i. bit (sa_bitmask s ! i)"])
qed

lemma bit_byte_mask: "n \<le> 8 \<Longrightarrow> k < 8 \<Longrightarrow>
  bit (if n = 8 then 0xFF else push_bit n 1 - 1 :: byte) k \<longleftrightarrow> k < n"
proof (cases "n = 8")
  case True
  assume "k < 8"
  moreover have "bit (mask 8 :: byte) k \<longleftrightarrow> k < 8" by (auto simp: bit_mask_iff)
  moreover have "(0xFF :: byte) = mask 8" by (simp add: mask_eq_exp_minus_1)
  ultimately show ?thesis using True by (simp only: simp_thms if_True)
next
  case False
  assume "n \<le> 8" "k < 8"
  with False show ?thesis
    by (simp add: push_bit_of_1 bit_mask_iff flip: mask_eq_exp_minus_1)
qed

lemma count_in_byte_eq:
  assumes "i < limit" and "limit \<le> (mx + 7) div 8"
  shows "count_in_byte mx limit (i, b) = length (filter (\<lambda>k. bit b k \<and> i * 8 + k < mx) [0..<8])"
proof -
  let ?n = "if i = limit - 1 then min (mx - i * 8) 8 else 8"
  have lt: "i * 8 + k < mx \<longleftrightarrow> k < ?n" if "k < 8" for k
  proof (cases "i = limit - 1")
    case True
    then show ?thesis using that by auto
  next
    case False
    then have "i + 1 < limit" using assms(1) by simp
    then have "i + 1 < (mx + 7) div 8" using assms(2) by simp
    then have "(i + 2) * 8 \<le> mx + 7" by (simp add: less_eq_div_iff_mult_less_eq Suc_le_eq [symmetric])
    then show ?thesis using that False by simp
  qed
  have "count_ones (b AND (if ?n = 8 then 0xFF else push_bit ?n 1 - 1))
      = length (filter (\<lambda>k. bit b k \<and> i * 8 + k < mx) [0..<8])"
    unfolding count_ones_def
    by (intro arg_cong [where f = length] filter_cong refl, subst bit_and_iff, subst bit_byte_mask) (auto simp: lt)
  then show ?thesis by (simp only: count_in_byte_def Let_def prod.case)
qed

text \<open>Counting acknowledged packets. \<open>iter_acked\<close> lists the acknowledged offsets in increasing
  order, \<open>count_acked\<close> is their number, and \<open>count_acked_in_range\<close>, which masks the last byte it
  visits, is the number of those below the bound, for every bound.
\<close>

theorem sack_counting_spec:
  "iter_acked s = filter (acknowledges s) [0..<bit_count s] \<and> count_acked s = length (iter_acked s) \<and>
   count_acked_in_range s mx = length (filter (\<lambda>j. j < mx) (iter_acked s))"
proof -
  let ?bm = "sa_bitmask s" let ?limit = "min ((mx + 7) div 8) (length ?bm)"
  let ?P = "\<lambda>i k. bit (?bm ! i) k \<and> i * 8 + k < mx"
  have "count_acked_in_range s mx = (\<Sum>i\<leftarrow>[0..<?limit]. count_in_byte mx ?limit (i, ?bm ! i))"
    unfolding count_acked_in_range_def Let_def enumerate_map
    by (simp only: map_map length_take, intro arg_cong [where f = sum_list] map_cong) auto
  also have "\<dots> = (\<Sum>i\<leftarrow>[0..<?limit]. length (filter (?P i) [0..<8]))"
    by (intro arg_cong [where f = sum_list] map_cong refl count_in_byte_eq) auto
  also have "\<dots> = length (filter (\<lambda>j. ?P (j div 8) (j mod 8)) [0..<8 * ?limit])"
    by (rule length_filter_blocks [symmetric])
  also have "filter (\<lambda>j. ?P (j div 8) (j mod 8)) [0..<8 * ?limit]
      = filter (\<lambda>j. acknowledges s j \<and> j < mx) [0..<8 * ?limit]"
    by (intro filter_cong refl) (auto simp: acknowledges_bit bit_count_def)
  also have "\<dots> = filter (\<lambda>j. acknowledges s j \<and> j < mx) [0..<bit_count s]"
  proof -
    have "[0..<bit_count s] = [0..<8 * ?limit] @ [8 * ?limit..<bit_count s]"
      using upt_add_eq_append [of 0 "8 * ?limit" "bit_count s - 8 * ?limit"] by (simp add: bit_count_def)
    moreover have "filter (\<lambda>j. acknowledges s j \<and> j < mx) [8 * ?limit..<bit_count s] = []"
      by (auto simp: filter_empty_conv bit_count_def min_def split: if_splits)
    ultimately show ?thesis by simp
  qed
  finally show ?thesis by (simp add: iter_acked_eq count_acked_eq conj_commute)
qed

subsection \<open>The extension chain\<close>

text \<open>A chain of extensions as the sender writes it: each carries the type of the next.\<close>

fun chain_bytes :: "(u8 \<times> bytes) list \<Rightarrow> bytes" where
  "chain_bytes [] = []"
| "chain_bytes ((t, d) # es) =
     [case es of [] \<Rightarrow> 0 | (t', _) # _ \<Rightarrow> t', of_nat (length d)] @ d @ chain_bytes es"

definition chain_type :: "(u8 \<times> bytes) list \<Rightarrow> u8" where
  "chain_type es = (case es of [] \<Rightarrow> 0 | (t, _) # _ \<Rightarrow> t)"

lemma parse_extensions_chain:
  "list_all (\<lambda>(t, d). t \<noteq> 0 \<and> length d < 256) es \<Longrightarrow>
     parse_extensions (chain_type es) (chain_bytes es @ payload) = Ok es"
proof (induction es)
  case Nil
  then show ?case by (subst parse_extensions.simps) (simp add: chain_type_def)
next
  case (Cons e es)
  obtain t d where e: "e = (t, d)" by (cases e)
  have next_type: "(case es of [] \<Rightarrow> 0 | (t', _) # _ \<Rightarrow> t') = chain_type es" by (simp add: chain_type_def)
  have len: "unat (of_nat (length d) :: byte) = length d"
    using Cons.prems e by (simp add: unat_of_nat)
  show ?case
    using Cons e len
    by (subst parse_extensions.simps) (simp add: next_type chain_type_def [of "(t, d) # es"] Let_def)
qed

text \<open>Extensions are parsed from the wire. A chain of extensions with non-zero types and less
  than 256 bytes each, in front of any payload, is read back exactly; in particular a well-formed
  selective acknowledgement of less than 256 mask bytes is parsed back from its extension bytes.
\<close>

theorem extension_chain_roundtrip:
  assumes "list_all (\<lambda>(t, d). t \<noteq> 0 \<and> length d < 256) es"
    and "sack_wf s" and "length (sa_bitmask s) < 256" and "sa_next_extension s = 0" and "t \<noteq> 0"
  shows "parse_extensions (chain_type es) (chain_bytes es @ payload) = Ok es \<and>
    parse_extensions t (to_extension_bytes s @ payload) = Ok [(t, sa_bitmask s)] \<and>
    parse_selective_ack 0 (sa_bitmask s) = Ok s"
proof -
  have "to_extension_bytes s = chain_bytes [(t, sa_bitmask s)]"
    using assms(4) by (simp add: to_extension_bytes_def)
  then have "parse_extensions t (to_extension_bytes s @ payload) = Ok [(t, sa_bitmask s)]"
    using parse_extensions_chain [of "[(t, sa_bitmask s)]" payload] assms(3,5) by (simp add: chain_type_def)
  moreover have "parse_selective_ack 0 (sa_bitmask s) = Ok s"
    using assms(2,4) by (cases s) (simp add: parse_selective_ack_def sack_from_bytes_def sack_wf_def SELECTIVE_ACK_MIN_BYTES_def)
  ultimately show ?thesis using parse_extensions_chain [OF assms(1)] by blast
qed

theorem extension_chain_roundtrip_witness:
  "parse_extensions 1 (to_extension_bytes (sack_new 0) @ [9, 9]) = Ok [(1, [0, 0, 0, 0])]"
  using extension_chain_roundtrip [of "[]" "sack_new 0" 1 "[9, 9]", OF _ sack_wf_new]
  by (simp add: sack_new_def SELECTIVE_ACK_MIN_BYTES_def numeral_eq_Suc)

end
