(* ===== verification/Magnet.thy ===== *)
theory Magnet
  imports Rust_Prelude Metainfo
begin

section \<open>Magnet links\<close>

text \<open>
  \<open>magnet/mod.rs\<close> of \<open>torrent-core\<close> (BEP 9): the magnet URI, its parser and printer, the hexadecimal and
  base 32 forms of an info hash and the percent encoding. The string functions of the Rust
  standard library that the code calls (\<open>trim\<close>, \<open>split\<close>, \<open>split_once\<close>, \<open>strip_prefix\<close>,
  \<open>from_utf8_lossy\<close>) are written out on the UTF-8 bytes of the string.
\<close>

subsection \<open>String functions\<close>

definition strip_prefix :: "rstring \<Rightarrow> rstring \<Rightarrow> rstring option" where
  "strip_prefix p s = (if take (length p) s = p then Some (drop (length p) s) else None)"

fun split_on :: "byte \<Rightarrow> rstring \<Rightarrow> rstring list" where
  "split_on c [] = [[]]"
| "split_on c (x # xs) =
     (if x = c then [] # split_on c xs
      else case split_on c xs of [] \<Rightarrow> [[x]] | y # ys \<Rightarrow> (x # y) # ys)"

definition split_once :: "byte \<Rightarrow> rstring \<Rightarrow> (rstring \<times> rstring) option" where
  "split_once c s = (case position c s of None \<Rightarrow> None | Some i \<Rightarrow> Some (take i s, drop (i + 1) s))"

text \<open>The UTF-8 forms of the characters with the Unicode property White_Space.\<close>

definition white_space :: "bytes list" where
  "white_space = [[9], [10], [11], [12], [13], [32], [0xC2, 0x85], [0xC2, 0xA0], [0xE1, 0x9A, 0x80]]
     @ map (\<lambda>i. [0xE2, 0x80, 0x80 + of_nat i]) [0..<11]
     @ [[0xE2, 0x80, 0xA8], [0xE2, 0x80, 0xA9], [0xE2, 0x80, 0xAF], [0xE2, 0x81, 0x9F], [0xE3, 0x80, 0x80]]"

function trim_front :: "bytes list \<Rightarrow> rstring \<Rightarrow> rstring" where
  "trim_front ws s =
     (case find (\<lambda>w. w \<noteq> [] \<and> take (length w) s = w) ws of
        None \<Rightarrow> s
      | Some w \<Rightarrow> trim_front ws (drop (length w) s))"
  by pat_completeness auto
termination
  by (relation "measure (\<lambda>(_, s). length s)") (auto simp: find_Some_iff intro!: diff_less)

declare trim_front.simps [simp del]

definition trim :: "rstring \<Rightarrow> rstring" where
  "trim s = rev (trim_front (map rev white_space) (rev (trim_front white_space s)))"

definition ascii_lower :: "byte \<Rightarrow> byte" where
  "ascii_lower b = (if 65 \<le> b \<and> b \<le> 90 then b + 32 else b)"

definition eq_ignore_ascii_case :: "rstring \<Rightarrow> rstring \<Rightarrow> bool" where
  "eq_ignore_ascii_case a b \<longleftrightarrow> map ascii_lower a = map ascii_lower b"

text \<open>
  \<open>from_utf8_lossy\<close>: every maximal prefix of a well-formed sequence that is not completed, and
  every other byte that cannot start one, becomes one replacement character U+FFFD.
\<close>

definition replacement :: bytes where
  "replacement = [0xEF, 0xBF, 0xBD]"

definition second_ok :: "byte \<Rightarrow> byte \<Rightarrow> bool" where
  "second_ok a b \<longleftrightarrow> utf8_cont b \<and> (a = 224 \<longrightarrow> 160 \<le> b) \<and> (a = 237 \<longrightarrow> b \<le> 159) \<and>
     (a = 240 \<longrightarrow> 144 \<le> b) \<and> (a = 244 \<longrightarrow> b \<le> 143)"

fun utf8_lossy :: "bytes \<Rightarrow> rstring" where
  "utf8_lossy [] = []"
| "utf8_lossy (a # r) =
     (if a < 128 then a # utf8_lossy r
      else if 194 \<le> a \<and> a \<le> 223 then
        (case r of
           b # r1 \<Rightarrow> if utf8_cont b then a # b # utf8_lossy r1 else replacement @ utf8_lossy r
         | [] \<Rightarrow> replacement)
      else if 224 \<le> a \<and> a \<le> 239 then
        (case r of
           b # r1 \<Rightarrow>
             if second_ok a b then
               (case r1 of
                  c # r2 \<Rightarrow> if utf8_cont c then a # b # c # utf8_lossy r2 else replacement @ utf8_lossy r1
                | [] \<Rightarrow> replacement)
             else replacement @ utf8_lossy r
         | [] \<Rightarrow> replacement)
      else if 240 \<le> a \<and> a \<le> 244 then
        (case r of
           b # r1 \<Rightarrow>
             if second_ok a b then
               (case r1 of
                  c # r2 \<Rightarrow>
                    if utf8_cont c then
                      (case r2 of
                         d # r3 \<Rightarrow> if utf8_cont d then a # b # c # d # utf8_lossy r3
                                   else replacement @ utf8_lossy r2
                       | [] \<Rightarrow> replacement)
                    else replacement @ utf8_lossy r1
                | [] \<Rightarrow> replacement)
             else replacement @ utf8_lossy r
         | [] \<Rightarrow> replacement)
      else replacement @ utf8_lossy r)"

declare utf8_lossy.simps(2) [simp del]

subsection \<open>Hexadecimal and base 32\<close>

definition hex_digit :: "nat \<Rightarrow> byte \<Rightarrow> byte" where
  "hex_digit alpha v = (if v < 10 then 48 + v else of_nat alpha + (v - 10))"

text \<open>The formats \<open>{:02x}\<close> and \<open>{:02X}\<close> of a byte.\<close>

definition hex_lower :: "byte \<Rightarrow> rstring" where
  "hex_lower b = [hex_digit 97 (drop_bit 4 b), hex_digit 97 (b AND 15)]"

definition hex_upper :: "byte \<Rightarrow> rstring" where
  "hex_upper b = [hex_digit 65 (drop_bit 4 b), hex_digit 65 (b AND 15)]"

definition hex_encode :: "bytes \<Rightarrow> rstring" where
  "hex_encode bs = concat (map hex_lower bs)"

definition hex_val :: "byte \<Rightarrow> u8 result" where
  "hex_val b =
     (if 48 \<le> b \<and> b \<le> 57 then Ok (b - 48)
      else if 97 \<le> b \<and> b \<le> 102 then Ok (b - 97 + 10)
      else if 65 \<le> b \<and> b \<le> 70 then Ok (b - 65 + 10)
      else Err InvalidInput)"

text \<open>The loop over the two-byte chunks; \<open>hex_decode\<close> enters it with 40 bytes.\<close>

fun hex_chunks :: "bytes \<Rightarrow> bytes result" where
  "hex_chunks [] = Ok []"
| "hex_chunks [a] = Panic"
| "hex_chunks (a # b # r) =
     and_then (hex_val a) (\<lambda>hi.
     and_then (hex_val b) (\<lambda>lo.
     and_then (hex_chunks r) (\<lambda>out. Ok ((push_bit 4 hi OR lo) # out))))"

definition hex_decode :: "rstring \<Rightarrow> bytes result" where
  "hex_decode s = (if length s \<noteq> 40 then Err InvalidInput else hex_chunks s)"

definition base32_val :: "byte \<Rightarrow> u8 result" where
  "base32_val c =
     (if 65 \<le> c \<and> c \<le> 90 then Ok (c - 65)
      else if 97 \<le> c \<and> c \<le> 122 then Ok (c - 97)
      else if 50 \<le> c \<and> c \<le> 55 then Ok (c - 50 + 26)
      else Err InvalidInput)"

fun base32_buf :: "u64 \<Rightarrow> bytes \<Rightarrow> u64 result" where
  "base32_buf buf [] = Ok buf"
| "base32_buf buf (c # cs) =
     and_then (base32_val c) (\<lambda>v. base32_buf (push_bit 5 buf OR ucast v) cs)"

definition base32_group :: "bytes \<Rightarrow> bytes result" where
  "base32_group cs =
     and_then (base32_buf 0 cs) (\<lambda>buf.
       Ok [ucast (drop_bit 32 buf AND 0xFF), ucast (drop_bit 24 buf AND 0xFF),
           ucast (drop_bit 16 buf AND 0xFF), ucast (drop_bit 8 buf AND 0xFF), ucast (buf AND 0xFF)])"

fun base32_groups :: "bytes list \<Rightarrow> bytes result" where
  "base32_groups [] = Ok []"
| "base32_groups (g # gs) =
     and_then (base32_group g) (\<lambda>out. and_then (base32_groups gs) (\<lambda>rest. Ok (out @ rest)))"

definition base32_decode :: "rstring \<Rightarrow> bytes result" where
  "base32_decode s =
     (if length s \<noteq> 32 then Err InvalidInput else base32_groups (chunks_exact 8 s))"

subsection \<open>Percent encoding\<close>

text \<open>\<open>i + 2 < len\<close>: both digits of an escape have to be there.\<close>

fun url_bytes :: "bytes \<Rightarrow> bytes" where
  "url_bytes (b # h # l # r) =
     (if b = 37 then
        (case (hex_val h, hex_val l) of
           (Ok hi, Ok lo) \<Rightarrow> (push_bit 4 hi OR lo) # url_bytes r
         | _ \<Rightarrow> b # url_bytes (h # l # r))
      else b # url_bytes (h # l # r))"
| "url_bytes (b # r) = b # url_bytes r"
| "url_bytes [] = []"

definition url_decode :: "rstring \<Rightarrow> rstring" where
  "url_decode s = utf8_lossy (url_bytes s)"

definition unreserved :: "byte \<Rightarrow> bool" where
  "unreserved b \<longleftrightarrow> 65 \<le> b \<and> b \<le> 90 \<or> 97 \<le> b \<and> b \<le> 122 \<or> 48 \<le> b \<and> b \<le> 57 \<or>
     b = 45 \<or> b = 46 \<or> b = 95 \<or> b = 126"

definition url_encode :: "rstring \<Rightarrow> rstring" where
  "url_encode s = concat (map (\<lambda>b. if unreserved b then [b] else 37 # hex_upper b) s)"

subsection \<open>The magnet URI\<close>

record InfoHash =
  ih_bytes :: bytes
  ih_raw :: rstring

record MagnetUri =
  info_hashes :: "InfoHash list"
  display_name :: "rstring option"
  trackers :: "rstring list"
  web_seeds :: "rstring list"
  exact_source :: "rstring option"
  acceptable_source :: "rstring option"
  keyword_topic :: "rstring option"
  manifest_topic :: "rstring option"
  exact_length :: "u64 option"
  mag_peers :: "rstring list"

definition parse_xt :: "rstring \<Rightarrow> InfoHash option" where
  "parse_xt v =
     (case strip_prefix (ascii ''urn:btih:'') v of
        None \<Rightarrow> None
      | Some h \<Rightarrow>
          if length h = 40 then
            (case hex_decode h of Ok b \<Rightarrow> Some \<lparr>ih_bytes = b, ih_raw = h\<rparr> | _ \<Rightarrow> None)
          else if length h = 32 then
            (case base32_decode h of Ok b \<Rightarrow> Some \<lparr>ih_bytes = b, ih_raw = h\<rparr> | _ \<Rightarrow> None)
          else None)"

text \<open>The variables of \<open>from_str\<close> before the loop, and its body for one parameter.\<close>

definition magnet_start :: MagnetUri where
  "magnet_start =
     \<lparr>info_hashes = [], display_name = None, trackers = [], web_seeds = [], exact_source = None,
      acceptable_source = None, keyword_topic = None, manifest_topic = None, exact_length = None,
      mag_peers = []\<rparr>"

definition magnet_key :: "rstring \<Rightarrow> rstring \<Rightarrow> MagnetUri \<Rightarrow> MagnetUri" where
  "magnet_key key v u =
     (if key = ascii ''xt'' then
        (case parse_xt v of Some h \<Rightarrow> u\<lparr>info_hashes := info_hashes u @ [h]\<rparr> | None \<Rightarrow> u)
      else if key = ascii ''dn'' then u\<lparr>display_name := Some (url_decode v)\<rparr>
      else if key = ascii ''tr'' then u\<lparr>trackers := trackers u @ [url_decode v]\<rparr>
      else if key = ascii ''ws'' then u\<lparr>web_seeds := web_seeds u @ [url_decode v]\<rparr>
      else if key = ascii ''xs'' then u\<lparr>exact_source := Some (url_decode v)\<rparr>
      else if key = ascii ''as'' then u\<lparr>acceptable_source := Some (url_decode v)\<rparr>
      else if key = ascii ''kt'' then u\<lparr>keyword_topic := Some (url_decode v)\<rparr>
      else if key = ascii ''mt'' then u\<lparr>manifest_topic := Some (url_decode v)\<rparr>
      else if key = ascii ''x.pe'' then u\<lparr>mag_peers := mag_peers u @ [url_decode v]\<rparr>
      else if key = ascii ''xl'' then u\<lparr>exact_length := parse_unsigned v\<rparr>
      else u)"

definition magnet_param :: "rstring \<Rightarrow> MagnetUri \<Rightarrow> MagnetUri" where
  "magnet_param p u =
     (if p = [] then u
      else case split_once 61 p of None \<Rightarrow> u | Some (key, v) \<Rightarrow> magnet_key key v u)"

text \<open>The slice \<open>s[..7]\<close> panics when the byte at 7 continues a character.\<close>

definition magnet_scheme :: "rstring \<Rightarrow> rstring result" where
  "magnet_scheme s =
     (case strip_prefix (ascii ''magnet:'') s of
        Some r \<Rightarrow> Ok r
      | None \<Rightarrow>
          if 7 < length s then
            if utf8_cont (s ! 7) then Panic
            else if eq_ignore_ascii_case (take 7 s) (ascii ''magnet:'') then Ok (drop 7 s)
            else Err InvalidInput
          else Err InvalidInput)"

definition magnet_from_str :: "rstring \<Rightarrow> MagnetUri result" where
  "magnet_from_str s =
     and_then (magnet_scheme (trim s)) (\<lambda>r.
     and_then (ok_or InvalidInput (strip_prefix (ascii ''?'') r)) (\<lambda>body.
       let u = fold magnet_param (split_on 38 body) magnet_start in
       if info_hashes u = [] then Err InvalidInput else Ok u))"

text \<open>Printing: the first parameters watch the flag \<open>first\<close>, the later ones always write \<open>&\<close>.\<close>

definition write_first :: "rstring \<Rightarrow> rstring \<Rightarrow> bool \<times> rstring \<Rightarrow> bool \<times> rstring" where
  "write_first key v = (\<lambda>(first, out). (False, out @ (if first then [] else [38]) @ key @ v))"

definition write_amp :: "rstring \<Rightarrow> rstring \<Rightarrow> rstring" where
  "write_amp key v = [38] @ key @ v"

definition write_opt :: "rstring \<Rightarrow> rstring option \<Rightarrow> rstring" where
  "write_opt key v = (case v of Some s \<Rightarrow> write_amp key (url_encode s) | None \<Rightarrow> [])"

definition magnet_to_string :: "MagnetUri \<Rightarrow> rstring" where
  "magnet_to_string u =
     (let st = (True, ascii ''magnet:?'');
          st = fold (\<lambda>x. write_first (ascii ''xt=urn:btih:'') (ih_raw x)) (info_hashes u) st;
          st = (case display_name u of Some dn \<Rightarrow> write_first (ascii ''dn='') (url_encode dn) st | None \<Rightarrow> st);
          st = fold (\<lambda>tr. write_first (ascii ''tr='') (url_encode tr)) (trackers u) st
      in snd st
         @ concat (map (\<lambda>ws. write_amp (ascii ''ws='') (url_encode ws)) (web_seeds u))
         @ write_opt (ascii ''xs='') (exact_source u) @ write_opt (ascii ''as='') (acceptable_source u)
         @ write_opt (ascii ''kt='') (keyword_topic u) @ write_opt (ascii ''mt='') (manifest_topic u)
         @ concat (map (\<lambda>p. write_amp (ascii ''x.pe='') (url_encode p)) (mag_peers u))
         @ (case exact_length u of Some xl \<Rightarrow> write_amp (ascii ''xl='') (nat_to_string (unat xl)) | None \<Rightarrow> []))"

definition primary_info_hash :: "MagnetUri \<Rightarrow> bytes result" where
  "primary_info_hash u = and_then (index_at (info_hashes u) 0) (\<lambda>x. Ok (ih_bytes x))"

definition magnet_of_metainfo :: "(bytes \<Rightarrow> bytes) \<Rightarrow> Metainfo \<Rightarrow> MagnetUri result" where
  "magnet_of_metainfo sha1 meta =
     (let ih = info_hash sha1 meta in
      and_then (total_size (info meta)) (\<lambda>size.
        Ok \<lparr>info_hashes = [\<lparr>ih_bytes = ih, ih_raw = hex_encode ih\<rparr>],
            display_name = Some (case mode (info meta) of Single name _ \<Rightarrow> name | Multiple name _ \<Rightarrow> name),
            trackers = announce meta # concat (announce_list meta), web_seeds = [], exact_source = None,
            acceptable_source = None, keyword_topic = None, manifest_topic = None,
            exact_length = Some size, mag_peers = []\<rparr>))"


subsection \<open>Torrent specifications\<close>

text \<open>\<open>spec.rs\<close>: a torrent is added as complete metadata or as a magnet link.\<close>

datatype TorrentSpec = SpecMetainfo Metainfo | SpecMagnet MagnetUri

fun spec_info_hash :: "(bytes \<Rightarrow> bytes) \<Rightarrow> TorrentSpec \<Rightarrow> bytes result" where
  "spec_info_hash sha1 (SpecMetainfo m) = Ok (info_hash sha1 m)"
| "spec_info_hash sha1 (SpecMagnet u) = primary_info_hash u"

fun spec_name :: "TorrentSpec \<Rightarrow> rstring option" where
  "spec_name (SpecMetainfo m) = (case mode (info m) of Single name _ \<Rightarrow> Some name | Multiple name _ \<Rightarrow> Some name)"
| "spec_name (SpecMagnet u) = display_name u"

fun spec_trackers :: "TorrentSpec \<Rightarrow> rstring list" where
  "spec_trackers (SpecMetainfo m) = announce m # concat (announce_list m)"
| "spec_trackers (SpecMagnet u) = trackers u"

fun spec_web_seeds :: "TorrentSpec \<Rightarrow> rstring list" where
  "spec_web_seeds (SpecMetainfo m) = url_list m"
| "spec_web_seeds (SpecMagnet u) = web_seeds u"

fun spec_httpseeds :: "TorrentSpec \<Rightarrow> rstring list" where
  "spec_httpseeds (SpecMetainfo m) = httpseeds m"
| "spec_httpseeds (SpecMagnet u) = []"

subsection \<open>Strings are well-formed UTF-8\<close>

lemma utf8_valid_ConsE:
  assumes "utf8_valid (a # r)"
  obtains "a < 128" "utf8_valid r"
    | b s where "\<not> a < 128" "194 \<le> a \<and> a \<le> 223" "r = b # s" "utf8_cont b" "utf8_valid s"
    | b c s where "\<not> a < 128" "\<not> (194 \<le> a \<and> a \<le> 223)" "224 \<le> a \<and> a \<le> 239" "r = b # c # s"
        "second_ok a b" "utf8_cont c" "utf8_valid s"
    | b c d s where "\<not> a < 128" "\<not> (194 \<le> a \<and> a \<le> 223)" "\<not> (224 \<le> a \<and> a \<le> 239)" "240 \<le> a \<and> a \<le> 244"
        "r = b # c # d # s" "second_ok a b" "utf8_cont c" "utf8_cont d" "utf8_valid s"
proof -
  have "a \<noteq> 240 \<and> a \<noteq> 244" if "224 \<le> a \<and> a \<le> 239"
    using that by (auto simp: word_le_nat_alt)
  moreover have "a \<noteq> 224 \<and> a \<noteq> 237" if "240 \<le> a \<and> a \<le> 244"
    using that by (auto simp: word_le_nat_alt)
  ultimately show thesis
    using assms that unfolding utf8_valid.simps(2) [of a r] second_ok_def
    by (simp split: if_splits list.splits; metis)
qed

lemma utf8_lossy_valid: "utf8_valid s \<Longrightarrow> utf8_lossy s = s"
proof (induction s rule: length_induct)
  case (1 s)
  show ?case
  proof (cases s)
    case (Cons a r)
    with 1 have v: "utf8_valid (a # r)" by simp
    have IH: "utf8_lossy t = t" if "utf8_valid t" "length t \<le> length r" for t
      using 1 Cons that by simp
    from v show ?thesis
      unfolding Cons by (cases rule: utf8_valid_ConsE) (auto simp: utf8_lossy.simps(2) [of a] IH)
  qed simp
qed

lemma utf8_valid_replacement [simp]: "utf8_valid (replacement @ s) = utf8_valid s"
  by (simp add: replacement_def utf8_valid.simps(2) utf8_cont_def)

lemma utf8_valid_replacement_only: "utf8_valid replacement"
  using utf8_valid_replacement [of "[]"] by simp

lemma utf8_valid_lossy: "utf8_valid (utf8_lossy s)"
proof (induction s rule: utf8_lossy.induct)
  case (2 a r)
  then show ?case
    by (subst utf8_lossy.simps(2))
      (auto simp: second_ok_def utf8_valid.simps(2) [of a] utf8_valid_replacement_only split: list.splits)
qed simp

subsection \<open>Hexadecimal and percent encoding\<close>

lemma nibble_all:
  assumes "list_all P (map of_nat [0..<16])" and "v < 16"
  shows "P (v :: byte)"
proof -
  have "unat v < 16" using assms(2) by (simp add: word_less_nat_alt)
  then have "unat v \<in> set [0..<16]" by simp
  then have "P (of_nat (unat v))" using assms(1) by (simp only: list_all_iff set_map ball_simps image_iff)
  then show ?thesis by simp
qed

lemma hex_val_digit: "v < 16 \<Longrightarrow> hex_val (hex_digit 97 v) = Ok v \<and> hex_val (hex_digit 65 v) = Ok v"
  by (rule nibble_all [where P = "\<lambda>v. hex_val (hex_digit 97 v) = Ok v \<and> hex_val (hex_digit 65 v) = Ok v"])
    (code_simp, assumption)

lemma nibbles_less: "drop_bit 4 b < 16" "b AND 15 < 16" for b :: byte
proof -
  have "unat b < 256" using unat_lt2p_byte .
  then show "drop_bit 4 b < 16"
    by (simp add: word_less_nat_alt drop_bit_eq_div unat_div)
  have "b AND mask 4 < 2 ^ 4" by (intro and_mask_less') simp
  then show "b AND 15 < 16" by (simp add: mask_eq_exp_minus_1)
qed

lemma hex_chunks_encode: "hex_chunks (concat (map hex_lower bs)) = Ok bs"
  by (induction bs) (simp_all add: hex_lower_def hex_val_digit nibbles_less nibble_join)

lemma length_hex_encode: "length (hex_encode bs) = 2 * length bs"
  by (induction bs) (simp_all add: hex_encode_def hex_lower_def)

lemma hex_decode_encode: "length bs = 20 \<Longrightarrow> hex_decode (hex_encode bs) = Ok bs"
  by (simp add: hex_decode_def length_hex_encode) (simp add: hex_encode_def hex_chunks_encode)

lemma url_bytes_plain: "b \<noteq> 37 \<Longrightarrow> url_bytes (b # r) = b # url_bytes r"
  by (cases r; cases "tl r") auto

lemma url_bytes_encode: "url_bytes (url_encode s) = s"
proof (induction s)
  case (Cons b s)
  show ?case
  proof (cases "unreserved b")
    case True
    then have "b \<noteq> 37" by (auto simp: unreserved_def)
    with True Cons.IH show ?thesis by (simp add: url_encode_def url_bytes_plain)
  next
    case False
    with Cons.IH show ?thesis
      by (simp add: url_encode_def hex_upper_def hex_val_digit nibbles_less nibble_join)
  qed
qed (simp add: url_encode_def)

lemma url_decode_encode: "utf8_valid s \<Longrightarrow> url_decode (url_encode s) = s"
  by (simp add: url_decode_def url_bytes_encode utf8_lossy_valid)

text \<open>The bytes of a printed link: unreserved characters and the separators.\<close>

definition link_byte :: "byte \<Rightarrow> bool" where
  "link_byte b \<longleftrightarrow> 33 \<le> b \<and> b < 127 \<and> b \<noteq> 38"

lemma hex_digit_link: "v < 16 \<Longrightarrow> link_byte (hex_digit 97 v) \<and> link_byte (hex_digit 65 v)"
  by (rule nibble_all [where P = "\<lambda>v. link_byte (hex_digit 97 v) \<and> link_byte (hex_digit 65 v)"])
    (code_simp, assumption)

lemma hex_upper_link: "list_all link_byte (hex_upper b)"
  by (simp add: hex_upper_def hex_digit_link nibbles_less)

lemma unreserved_link: "unreserved b \<Longrightarrow> link_byte b"
  by (auto simp: unreserved_def link_byte_def word_le_nat_alt word_less_nat_alt)

lemma url_encode_link: "list_all link_byte (url_encode s)"
  by (induction s) (auto simp: url_encode_def unreserved_link hex_upper_link, simp add: link_byte_def)

lemma nat_to_string_link: "list_all link_byte (nat_to_string n)"
  using digits_nat_to_string [of n]
  by (auto simp: list_all_iff is_ascii_digit_def link_byte_def word_le_nat_alt word_less_nat_alt)


subsection \<open>Splitting and trimming\<close>

lemma split_on_neq_Nil [simp]: "split_on c xs \<noteq> []"
  by (cases xs) (auto split: list.splits)

lemma split_on_none: "c \<notin> set xs \<Longrightarrow> split_on c xs = [xs]"
  by (induction xs) auto

lemma split_on_append: "c \<notin> set xs \<Longrightarrow> split_on c (xs @ c # r) = xs # split_on c r"
  by (induction xs) auto

lemma split_on_join:
  "\<forall>p \<in> set (a # ps). c \<notin> set p \<Longrightarrow> split_on c (a @ concat (map ((#) c) ps)) = a # ps"
  by (induction ps arbitrary: a) (simp_all add: split_on_none split_on_append)

lemma split_once_append: "c \<notin> set k \<Longrightarrow> split_once c (k @ c # v) = Some (k, v)"
  by (simp add: split_once_def position_append)

lemma trim_front_printable:
  assumes "\<forall>w \<in> set ws. w = [] \<or> hd w < 33 \<or> 127 \<le> hd w"
    and "\<forall>b \<in> set s. 33 \<le> b \<and> b < 127"
  shows "trim_front ws s = s"
proof -
  have "\<not> (w \<noteq> [] \<and> take (length w) s = w)" if "w \<in> set ws" for w
  proof
    assume w: "w \<noteq> [] \<and> take (length w) s = w"
    then have "hd w \<in> set s" by (metis hd_in_set in_set_takeD)
    with assms that w show False by (metis leD)
  qed
  then have "find (\<lambda>w. w \<noteq> [] \<and> take (length w) s = w) ws = None"
    by (auto simp: find_None_iff)
  then show ?thesis by (subst trim_front.simps) simp
qed

lemma white_space_heads:
  "\<forall>w \<in> set white_space. w = [] \<or> hd w < 33 \<or> 127 \<le> hd w"
  "\<forall>w \<in> set (map rev white_space). w = [] \<or> hd w < 33 \<or> 127 \<le> hd w"
proof -
  have "list_all (\<lambda>w. w = [] \<or> hd w < 33 \<or> 127 \<le> hd w) white_space"
    "list_all (\<lambda>w. w = [] \<or> hd w < 33 \<or> 127 \<le> hd w) (map rev white_space)"
    by code_simp+
  then show "\<forall>w \<in> set white_space. w = [] \<or> hd w < 33 \<or> 127 \<le> hd w"
    "\<forall>w \<in> set (map rev white_space). w = [] \<or> hd w < 33 \<or> 127 \<le> hd w"
    by (simp_all only: list_all_iff)
qed

lemma trim_printable: "\<forall>b \<in> set s. 33 \<le> b \<and> b < 127 \<Longrightarrow> trim s = s"
  using trim_front_printable [OF white_space_heads(1), of s]
    trim_front_printable [OF white_space_heads(2), of "rev s"]
  by (simp add: trim_def)

subsection \<open>Printing as a list of parameters\<close>

definition magnet_params :: "MagnetUri \<Rightarrow> (rstring \<times> rstring) list" where
  "magnet_params u =
     map (\<lambda>x. (ascii ''xt'', ascii ''urn:btih:'' @ ih_raw x)) (info_hashes u)
     @ (case display_name u of Some s \<Rightarrow> [(ascii ''dn'', url_encode s)] | None \<Rightarrow> [])
     @ map (\<lambda>s. (ascii ''tr'', url_encode s)) (trackers u)
     @ map (\<lambda>s. (ascii ''ws'', url_encode s)) (web_seeds u)
     @ (case exact_source u of Some s \<Rightarrow> [(ascii ''xs'', url_encode s)] | None \<Rightarrow> [])
     @ (case acceptable_source u of Some s \<Rightarrow> [(ascii ''as'', url_encode s)] | None \<Rightarrow> [])
     @ (case keyword_topic u of Some s \<Rightarrow> [(ascii ''kt'', url_encode s)] | None \<Rightarrow> [])
     @ (case manifest_topic u of Some s \<Rightarrow> [(ascii ''mt'', url_encode s)] | None \<Rightarrow> [])
     @ map (\<lambda>s. (ascii ''x.pe'', url_encode s)) (mag_peers u)
     @ (case exact_length u of Some n \<Rightarrow> [(ascii ''xl'', nat_to_string (unat n))] | None \<Rightarrow> [])"

definition param_text :: "rstring \<times> rstring \<Rightarrow> rstring" where
  "param_text = (\<lambda>(k, v). k @ 61 # v)"

lemma fold_write_first:
  "fold (\<lambda>x. write_first k (f x)) xs (False, out) = (False, out @ concat (map (\<lambda>x. 38 # k @ f x) xs))"
  by (induction xs arbitrary: out) (simp_all add: write_first_def)

lemma magnet_to_string_params:
  assumes "info_hashes u \<noteq> []"
  shows "magnet_to_string u = ascii ''magnet:?'' @ param_text (hd (magnet_params u))
    @ concat (map ((#) 38) (map param_text (tl (magnet_params u))))"
proof -
  obtain x xs where u: "info_hashes u = x # xs" using assms by (cases "info_hashes u") auto
  have keys: "ascii ''xt=urn:btih:'' = ascii ''xt'' @ 61 # ascii ''urn:btih:''"
    "ascii ''dn='' = ascii ''dn'' @ [61]" "ascii ''tr='' = ascii ''tr'' @ [61]"
    "ascii ''ws='' = ascii ''ws'' @ [61]" "ascii ''xs='' = ascii ''xs'' @ [61]"
    "ascii ''as='' = ascii ''as'' @ [61]" "ascii ''kt='' = ascii ''kt'' @ [61]"
    "ascii ''mt='' = ascii ''mt'' @ [61]" "ascii ''x.pe='' = ascii ''x.pe'' @ [61]"
    "ascii ''xl='' = ascii ''xl'' @ [61]"
    by (simp_all add: ascii_def)
  have first: "write_first k v (True, out) = (False, out @ k @ v)" "write_first k v (False, out) = (False, out @ 38 # k @ v)"
    for k v out by (simp_all add: write_first_def)
  show ?thesis
    unfolding magnet_to_string_def magnet_params_def write_opt_def write_amp_def param_text_def u keys Let_def
    by (cases "display_name u"; cases "exact_source u"; cases "acceptable_source u"; cases "keyword_topic u";
        cases "manifest_topic u"; cases "exact_length u")
      (simp_all add: first fold_write_first comp_def)
qed


subsection \<open>Parsing what was printed\<close>

lemma magnet_param_text: "61 \<notin> set k \<Longrightarrow> magnet_param (param_text (k, v)) u = magnet_key k v u"
  by (simp add: magnet_param_def param_text_def split_once_append)

lemma magnet_key_simps:
  "magnet_key (ascii ''xt'') v u = (case parse_xt v of Some h \<Rightarrow> u\<lparr>info_hashes := info_hashes u @ [h]\<rparr> | None \<Rightarrow> u)"
  "magnet_key (ascii ''dn'') v u = u\<lparr>display_name := Some (url_decode v)\<rparr>"
  "magnet_key (ascii ''tr'') v u = u\<lparr>trackers := trackers u @ [url_decode v]\<rparr>"
  "magnet_key (ascii ''ws'') v u = u\<lparr>web_seeds := web_seeds u @ [url_decode v]\<rparr>"
  "magnet_key (ascii ''xs'') v u = u\<lparr>exact_source := Some (url_decode v)\<rparr>"
  "magnet_key (ascii ''as'') v u = u\<lparr>acceptable_source := Some (url_decode v)\<rparr>"
  "magnet_key (ascii ''kt'') v u = u\<lparr>keyword_topic := Some (url_decode v)\<rparr>"
  "magnet_key (ascii ''mt'') v u = u\<lparr>manifest_topic := Some (url_decode v)\<rparr>"
  "magnet_key (ascii ''x.pe'') v u = u\<lparr>mag_peers := mag_peers u @ [url_decode v]\<rparr>"
  "magnet_key (ascii ''xl'') v u = u\<lparr>exact_length := parse_unsigned v\<rparr>"
  by (simp_all add: magnet_key_def ascii_def)

lemma keys_no_separator:
  "61 \<notin> set (ascii ''xt'')" "61 \<notin> set (ascii ''dn'')" "61 \<notin> set (ascii ''tr'')" "61 \<notin> set (ascii ''ws'')"
  "61 \<notin> set (ascii ''xs'')" "61 \<notin> set (ascii ''as'')" "61 \<notin> set (ascii ''kt'')" "61 \<notin> set (ascii ''mt'')"
  "61 \<notin> set (ascii ''x.pe'')" "61 \<notin> set (ascii ''xl'')"
  by (simp_all add: ascii_def)

text \<open>A link that the printer can represent: its hashes are in a parsable form, its strings are strings.\<close>

definition magnet_strings_wf :: "MagnetUri \<Rightarrow> bool" where
  "magnet_strings_wf u \<longleftrightarrow>
     list_all (\<lambda>x. parse_xt (ascii ''urn:btih:'' @ ih_raw x) = Some x) (info_hashes u) \<and>
     list_all utf8_valid (trackers u @ web_seeds u @ mag_peers u) \<and>
     list_all (pred_option utf8_valid)
       [display_name u, exact_source u, acceptable_source u, keyword_topic u, manifest_topic u]"

definition magnet_wf :: "MagnetUri \<Rightarrow> bool" where
  "magnet_wf u \<longleftrightarrow> info_hashes u \<noteq> [] \<and> magnet_strings_wf u"

lemma fold_xt:
  "list_all (\<lambda>x. parse_xt (ascii ''urn:btih:'' @ ih_raw x) = Some x) xs \<Longrightarrow>
   fold magnet_param (map (\<lambda>x. param_text (ascii ''xt'', ascii ''urn:btih:'' @ ih_raw x)) xs) u
     = u\<lparr>info_hashes := info_hashes u @ xs\<rparr>"
  by (induction xs arbitrary: u) (simp_all add: magnet_param_text keys_no_separator magnet_key_simps)

lemma fold_strings:
  assumes "list_all utf8_valid xs"
  shows "fold magnet_param (map (\<lambda>s. param_text (ascii ''tr'', url_encode s)) xs) u = u\<lparr>trackers := trackers u @ xs\<rparr>"
    "fold magnet_param (map (\<lambda>s. param_text (ascii ''ws'', url_encode s)) xs) u = u\<lparr>web_seeds := web_seeds u @ xs\<rparr>"
    "fold magnet_param (map (\<lambda>s. param_text (ascii ''x.pe'', url_encode s)) xs) u = u\<lparr>mag_peers := mag_peers u @ xs\<rparr>"
  using assms
  by (induction xs arbitrary: u)
    (simp_all add: magnet_param_text keys_no_separator magnet_key_simps url_decode_encode)

lemma fold_opt:
  "fold magnet_param (map param_text (case v of Some s \<Rightarrow> [(k, f s)] | None \<Rightarrow> [])) u
     = (case v of Some s \<Rightarrow> magnet_param (param_text (k, f s)) u | None \<Rightarrow> u)"
  by (cases v) simp_all

lemma parse_unsigned_nat_to_string: "parse_unsigned (nat_to_string (unat n)) = Some n" for n :: u64
proof -
  have "hd (nat_to_string (unat n)) \<noteq> 43"
    using hd_nat_to_string [of "unat n"] by (auto simp: is_ascii_digit_def)
  then have "(case nat_to_string (unat n) of [] \<Rightarrow> [] | c # r \<Rightarrow> if c = 43 then r else nat_to_string (unat n))
      = nat_to_string (unat n)"
    by (cases "nat_to_string (unat n)") auto
  moreover have "unat n < 2 ^ LENGTH(64)" by (rule unsigned_less)
  ultimately show ?thesis by (simp add: parse_unsigned_def del: len_num0 len_num1)
qed

lemma fold_magnet_params:
  assumes "magnet_wf u"
  shows "fold magnet_param (map param_text (magnet_params u)) magnet_start = u"
proof -
  have hashes: "list_all (\<lambda>x. parse_xt (ascii ''urn:btih:'' @ ih_raw x) = Some x) (info_hashes u)"
    and lists: "list_all utf8_valid (trackers u)" "list_all utf8_valid (web_seeds u)" "list_all utf8_valid (mag_peers u)"
    and opts: "\<And>s. display_name u = Some s \<Longrightarrow> utf8_valid s" "\<And>s. exact_source u = Some s \<Longrightarrow> utf8_valid s"
      "\<And>s. acceptable_source u = Some s \<Longrightarrow> utf8_valid s" "\<And>s. keyword_topic u = Some s \<Longrightarrow> utf8_valid s"
      "\<And>s. manifest_topic u = Some s \<Longrightarrow> utf8_valid s"
    using assms by (auto simp: magnet_wf_def magnet_strings_wf_def)
  show ?thesis
    unfolding magnet_params_def map_append map_map comp_def fold_append fold_opt
      fold_xt [OF hashes] fold_strings(1) [OF lists(1)] fold_strings(2) [OF lists(2)] fold_strings(3) [OF lists(3)]
    by (auto simp: magnet_param_text keys_no_separator magnet_key_simps url_decode_encode opts
        parse_unsigned_nat_to_string magnet_start_def split: option.splits)
qed

subsection \<open>The bytes of a link\<close>

lemma hex_val_link: "hex_val b = Ok v \<Longrightarrow> link_byte b"
  by (auto simp: hex_val_def link_byte_def word_le_nat_alt word_less_nat_alt split: if_splits)

lemma base32_val_link: "base32_val b = Ok v \<Longrightarrow> link_byte b"
  by (auto simp: base32_val_def link_byte_def word_le_nat_alt word_less_nat_alt split: if_splits)

lemma hex_chunks_link: "hex_chunks bs = Ok out \<Longrightarrow> list_all link_byte bs"
  by (induction bs arbitrary: out rule: hex_chunks.induct) (auto dest: hex_val_link)

lemma base32_buf_link: "base32_buf buf cs = Ok v \<Longrightarrow> list_all link_byte cs"
  by (induction buf cs rule: base32_buf.induct) (auto dest: base32_val_link)

lemma base32_groups_link: "base32_groups gs = Ok out \<Longrightarrow> list_all link_byte (concat gs)"
  by (induction gs arbitrary: out) (auto simp: base32_group_def dest: base32_buf_link)

lemma strip_prefix_Some: "strip_prefix p v = Some h \<longleftrightarrow> v = p @ h"
  by (auto simp: strip_prefix_def intro: append_take_drop_id [symmetric]) (metis append_take_drop_id)

lemma parse_xt_Some:
  assumes "parse_xt v = Some x"
  shows "v = ascii ''urn:btih:'' @ ih_raw x" "list_all link_byte (ih_raw x)"
proof -
  from assms obtain h where h: "strip_prefix (ascii ''urn:btih:'') v = Some h" "ih_raw x = h"
    "(\<exists>b. length h = 40 \<and> hex_decode h = Ok b) \<or> (\<exists>b. length h = 32 \<and> base32_decode h = Ok b)"
    by (auto simp: parse_xt_def split: option.splits if_splits result.splits)
  then show "v = ascii ''urn:btih:'' @ ih_raw x"
    by (simp add: strip_prefix_Some)
  from h(3) show "list_all link_byte (ih_raw x)"
  proof (elim disjE exE conjE)
    fix b assume "length h = 40" "hex_decode h = Ok b"
    then show ?thesis using h(2) by (auto simp: hex_decode_def dest: hex_chunks_link)
  next
    fix b assume b: "length h = 32" "base32_decode h = Ok b"
    then have "list_all link_byte (concat (chunks_exact 8 h))"
      by (auto simp: base32_decode_def dest: base32_groups_link)
    then show ?thesis using b(1) h(2) by (simp add: concat_chunks_exact)
  qed
qed

lemma keys_link:
  "list_all link_byte (ascii ''xt'')" "list_all link_byte (ascii ''dn'')" "list_all link_byte (ascii ''tr'')"
  "list_all link_byte (ascii ''ws'')" "list_all link_byte (ascii ''xs'')" "list_all link_byte (ascii ''as'')"
  "list_all link_byte (ascii ''kt'')" "list_all link_byte (ascii ''mt'')" "list_all link_byte (ascii ''x.pe'')"
  "list_all link_byte (ascii ''xl'')" "list_all link_byte (ascii ''urn:btih:'')" "list_all link_byte (ascii ''magnet:?'')"
  by code_simp+

lemma param_link:
  assumes "magnet_wf u" and "p \<in> set (magnet_params u)"
  shows "list_all link_byte (param_text p)"
proof -
  have "link_byte 61" by (simp add: link_byte_def)
  moreover have "list_all link_byte (ih_raw x)" if "x \<in> set (info_hashes u)" for x
    using assms(1) that parse_xt_Some(2) by (auto simp: magnet_wf_def magnet_strings_wf_def list_all_iff)
  ultimately show ?thesis
    using assms(2) by (auto simp: magnet_params_def param_text_def keys_link url_encode_link nat_to_string_link split: option.splits)
qed

lemma magnet_from_to:
  assumes "magnet_wf u"
  shows "magnet_from_str (magnet_to_string u) = Ok u"
proof -
  have ne: "info_hashes u \<noteq> []" using assms by (simp add: magnet_wf_def magnet_strings_wf_def)
  then obtain p ps where ps: "magnet_params u = p # ps"
    by (cases "info_hashes u") (auto simp: magnet_params_def)
  let ?body = "param_text p @ concat (map ((#) 38) (map param_text ps))"
  have printed: "magnet_to_string u = ascii ''magnet:?'' @ ?body"
    using magnet_to_string_params [OF ne] ps by simp
  have link: "\<forall>q \<in> set (p # ps). \<forall>b \<in> set (param_text q). 33 \<le> b \<and> b < 127 \<and> b \<noteq> 38"
  proof (intro ballI)
    fix q b assume "q \<in> set (p # ps)" "b \<in> set (param_text q)"
    then show "33 \<le> b \<and> b < 127 \<and> b \<noteq> 38"
      using param_link [OF assms, of q] by (simp add: ps list_all_iff link_byte_def)
  qed
  have "33 \<le> b \<and> b < 127" if "b \<in> set (magnet_to_string u)" for b
  proof -
    from that consider "b \<in> set (ascii ''magnet:?'')" | "b = 38" | q where "q \<in> set (p # ps)" "b \<in> set (param_text q)"
      by (simp add: printed split: if_splits; blast)
    then show ?thesis
    proof cases
      case 1
      then show ?thesis using keys_link(12) by (simp add: list_all_iff link_byte_def)
    qed (use link in auto)
  qed
  then have "trim (magnet_to_string u) = magnet_to_string u" by (intro trim_printable) blast
  moreover have "magnet_scheme (ascii ''magnet:?'' @ ?body) = Ok (63 # ?body)"
    by (simp add: magnet_scheme_def strip_prefix_def ascii_def)
  moreover have "strip_prefix (ascii ''?'') (63 # ?body) = Some ?body"
    by (simp add: strip_prefix_def ascii_def)
  moreover have "split_on 38 ?body = map param_text (magnet_params u)"
    using split_on_join [of "param_text p" "map param_text ps" 38] link ps
    by auto
  ultimately show ?thesis
    using fold_magnet_params [OF assms] ne by (simp add: magnet_from_str_def printed Let_def)
qed


subsection \<open>What the parser accepts\<close>

lemma url_decode_valid: "utf8_valid (url_decode s)"
  by (simp add: url_decode_def utf8_valid_lossy)

lemma magnet_param_wf: "magnet_strings_wf u \<Longrightarrow> magnet_strings_wf (magnet_param p u)"
proof -
  assume u: "magnet_strings_wf u"
  have xt: "parse_xt (ascii ''urn:btih:'' @ ih_raw h) = Some h" if "parse_xt v = Some h" for v h
    using that parse_xt_Some(1) [OF that] by simp
  have "magnet_strings_wf (magnet_key k v u)" for k v
    using u xt [of v]
    by (simp add: magnet_key_def magnet_strings_wf_def url_decode_valid split: option.split)
  with u show ?thesis
    by (auto simp: magnet_param_def split: option.splits)
qed

lemma magnet_from_str_wf:
  assumes "magnet_from_str s = Ok u"
  shows "magnet_wf u"
proof -
  have "magnet_strings_wf (fold magnet_param ps v)" if "magnet_strings_wf v" for ps v
    using that by (induction ps arbitrary: v) (simp_all add: magnet_param_wf)
  moreover have "magnet_strings_wf magnet_start"
    by (simp add: magnet_strings_wf_def magnet_start_def)
  ultimately have "magnet_strings_wf u"
    using assms by (auto simp: magnet_from_str_def Let_def split: if_splits)
  moreover have "info_hashes u \<noteq> []"
    using assms by (auto simp: magnet_from_str_def Let_def split: if_splits)
  ultimately show ?thesis
    by (simp add: magnet_wf_def)
qed

text \<open>
  C39. Magnet links survive printing and parsing. Every link whose hashes are in a parsable
  form and whose strings are strings is read back as itself from its printed form, and every link
  the parser accepts is such a link: parsing, printing and parsing again changes nothing, although
  the text may change (case of the scheme, blanks, order and escapes of the parameters).
\<close>

theorem magnet_roundtrip:
  "(magnet_wf u \<longrightarrow> magnet_from_str (magnet_to_string u) = Ok u) \<and>
   (magnet_from_str s = Ok v \<longrightarrow> magnet_wf v \<and> magnet_from_str (magnet_to_string v) = Ok v)"
  using magnet_from_to magnet_from_str_wf by blast

theorem magnet_roundtrip_witness:
  "magnet_from_str (magnet_to_string
     (magnet_start\<lparr>info_hashes := [\<lparr>ih_bytes = replicate 20 0xAB, ih_raw = concat (replicate 20 (ascii ''aB''))\<rparr>],
        display_name := Some (ascii ''a b&c''), exact_length := Some 12\<rparr>))
   = Ok (magnet_start\<lparr>info_hashes := [\<lparr>ih_bytes = replicate 20 0xAB, ih_raw = concat (replicate 20 (ascii ''aB''))\<rparr>],
        display_name := Some (ascii ''a b&c''), exact_length := Some 12\<rparr>)"
  (is "magnet_from_str (magnet_to_string ?u) = Ok ?u")
proof -
  let ?h = "concat (replicate 20 (ascii ''aB''))"
  have "parse_xt (ascii ''urn:btih:'' @ ?h) = Some \<lparr>ih_bytes = replicate 20 0xAB, ih_raw = ?h\<rparr>" "utf8_valid (ascii ''a b&c'')"
    by code_simp+
  then have "magnet_wf ?u" by (simp add: magnet_wf_def magnet_strings_wf_def magnet_start_def)
  then show ?thesis using magnet_roundtrip [of ?u] by blast
qed

subsection \<open>Base 32\<close>

definition base32_value :: "byte \<Rightarrow> nat" where
  "base32_value c = (if 65 \<le> c \<and> c \<le> 90 then unat c - 65 else if 97 \<le> c \<and> c \<le> 122 then unat c - 97 else unat c - 24)"

definition base32_digit :: "byte \<Rightarrow> bool" where
  "base32_digit c \<longleftrightarrow> 65 \<le> c \<and> c \<le> 90 \<or> 97 \<le> c \<and> c \<le> 122 \<or> 50 \<le> c \<and> c \<le> 55"

definition base32_number :: "nat \<Rightarrow> bytes \<Rightarrow> nat" where
  "base32_number acc cs = foldl (\<lambda>acc c. acc * 32 + base32_value c) acc cs"

lemma base32_val_eq:
  "base32_val c = (if base32_digit c then Ok (of_nat (base32_value c)) else Err InvalidInput)"
  by (auto simp: base32_val_def base32_digit_def base32_value_def word_le_nat_alt of_nat_diff)

lemma base32_value_less: "base32_digit c \<Longrightarrow> base32_value c < 32"
  by (auto simp: base32_digit_def base32_value_def word_le_nat_alt)

lemma shift_or_add:
  assumes "unat buf < 2 ^ 59" and "v < 32"
  shows "unat (push_bit 5 buf OR ucast (of_nat v :: u8) :: u64) = unat buf * 32 + v"
proof -
  have v: "unat (ucast (of_nat v :: u8) :: u64) = v"
    using assms(2) by (simp add: unsigned_ucast_eq unat_of_nat take_bit_nat_eq_self)
  have "push_bit 5 buf AND ucast (of_nat v :: u8) = 0"
  proof (rule bit_word_eqI)
    fix n assume "n < LENGTH(64)"
    have "\<not> bit v n" if "5 \<le> n" for n
    proof -
      have "(2::nat) ^ 5 \<le> 2 ^ n" using that by (rule power_increasing) simp
      then have "v < 2 ^ n" using assms(2) by simp
      then show ?thesis by (simp add: bit_iff_odd)
    qed
    then show "bit (push_bit 5 buf AND ucast (of_nat v :: u8)) n = bit (0 :: u64) n"
      by (auto simp: bit_simps)
  qed
  then have "push_bit 5 buf OR ucast (of_nat v :: u8) = push_bit 5 buf + ucast (of_nat v :: u8)"
    by (simp add: disjunctive_add_eq_or)
  moreover have "unat (push_bit 5 buf) = unat buf * 32"
    using assms(1) by (simp add: push_bit_eq_mult unat_word_ariths)
  ultimately show ?thesis
    using v assms by (simp add: unat_word_ariths)
qed


lemma base32_number_Cons: "base32_number acc (c # cs) = base32_number (acc * 32 + base32_value c) cs"
  by (simp add: base32_number_def)

lemma base32_number_acc: "base32_number acc cs = acc * 32 ^ length cs + base32_number 0 cs"
proof (induction cs arbitrary: acc)
  case (Cons c cs)
  show ?case
    unfolding base32_number_Cons Cons.IH [of "acc * 32 + base32_value c"] Cons.IH [of "0 * 32 + base32_value c"]
    by (simp add: algebra_simps)
qed (simp add: base32_number_def)

lemma base32_number_append: "base32_number 0 (as @ bs) = base32_number 0 as * 32 ^ length bs + base32_number 0 bs"
  using base32_number_acc [of "base32_number 0 as" bs] by (simp add: base32_number_def)

lemma base32_number_less: "list_all base32_digit cs \<Longrightarrow> base32_number 0 cs < 32 ^ length cs"
proof (induction cs)
  case (Cons c cs)
  then have "base32_value c < 32" "base32_number 0 cs < 32 ^ length cs"
    using base32_value_less by simp_all
  then have "(base32_value c + 1) * 32 ^ length cs \<le> 32 * 32 ^ length cs"
    by (intro mult_right_mono) simp_all
  then have "base32_value c * 32 ^ length cs + 32 ^ length cs \<le> 32 * 32 ^ length cs"
    by (simp only: add_mult_distrib mult_1)
  with \<open>base32_number 0 cs < _\<close> have "base32_value c * 32 ^ length cs + base32_number 0 cs < 32 * 32 ^ length cs"
    by linarith
  then show ?case
    by (simp add: base32_number_Cons base32_number_acc [of "base32_value c"])
qed (simp add: base32_number_def)

lemma base32_buf_eq:
  assumes "unat buf < 32 ^ k" and "k + length cs \<le> 12"
  shows "if list_all base32_digit cs then \<exists>v. base32_buf buf cs = Ok v \<and> unat v = base32_number (unat buf) cs
    else base32_buf buf cs = Err InvalidInput"
  using assms
proof (induction cs arbitrary: buf k)
  case (Cons c cs)
  show ?case
  proof (cases "base32_digit c")
    case True
    let ?buf = "push_bit 5 buf OR ucast (of_nat (base32_value c) :: u8) :: u64"
    have "(32::nat) ^ k \<le> 32 ^ 11" using Cons.prems(2) by (intro power_increasing) simp_all
    with Cons.prems(1) have "unat buf < 2 ^ 59" by simp
    from shift_or_add [OF this base32_value_less [OF True]]
    have buf: "unat ?buf = unat buf * 32 + base32_value c" .
    moreover have "unat buf * 32 + base32_value c < 32 ^ Suc k"
      using Cons.prems(1) base32_value_less [OF True] by simp
    ultimately show ?thesis
      using Cons.IH [of ?buf "Suc k"] Cons.prems(2) True
      by (simp add: base32_val_eq base32_number_Cons split: if_splits)
  qed (simp add: base32_val_eq)
qed (simp add: base32_number_def)

lemma ucast_low_byte: "(ucast (drop_bit k buf AND 0xFF) :: u8) = of_nat (unat buf div 2 ^ k)" for buf :: u64
proof -
  have "w AND 0xFF = take_bit 8 w" for w :: u64
    by (simp add: take_bit_eq_mask mask_eq_exp_minus_1)
  then have "(ucast (drop_bit k buf AND 0xFF) :: u8) = ucast (drop_bit k buf)"
    by (simp only:, intro bit_word_eqI) (auto simp: bit_simps)
  also have "\<dots> = of_nat (unat (drop_bit k buf))" by simp
  also have "unat (drop_bit k buf) = unat buf div 2 ^ k"
    by (subst unat_drop_bit_eq) (rule drop_bit_eq_div)
  finally show ?thesis .
qed

lemma base32_group_eq:
  assumes "length cs = 8"
  shows "base32_group cs = (if list_all base32_digit cs then Ok (to_be 5 (base32_number 0 cs)) else Err InvalidInput)"
proof -
  have bytes: "[ucast (drop_bit 32 buf AND 0xFF), ucast (drop_bit 24 buf AND 0xFF), ucast (drop_bit 16 buf AND 0xFF),
      ucast (drop_bit 8 buf AND 0xFF), ucast (drop_bit 0 buf AND 0xFF)] = to_be 5 (unat buf)" for buf :: u64
    unfolding ucast_low_byte by (simp add: to_be_numeral div_mult2_eq [symmetric])
  show ?thesis
    using base32_buf_eq [of 0 0 cs] assms bytes
    by (auto simp: base32_group_def split: if_splits)
qed

lemma base32_groups_eq:
  assumes "\<forall>g \<in> set gs. length g = 8"
  shows "if list_all base32_digit (concat gs)
    then \<exists>out. base32_groups gs = Ok out \<and> length out = 5 * length gs \<and> be_val out = base32_number 0 (concat gs)
    else base32_groups gs = Err InvalidInput"
  using assms
proof (induction gs)
  case (Cons g gs)
  have len: "length (concat gs) = 8 * length gs" using Cons.prems by (induction gs) auto
  have pow: "(32::nat) ^ (8 * n) = 256 ^ (5 * n)" for n by (simp add: power_mult)
  have "be_val (to_be 5 (base32_number 0 g)) = base32_number 0 g" if "list_all base32_digit g"
    using base32_number_less [OF that] Cons.prems by (simp add: be_val_to_be)
  then show ?case
    using Cons len by (auto simp: base32_group_eq be_val_append base32_number_append pow split: if_splits)
qed (simp add: base32_number_def)

text \<open>Base 32 info hashes. Exactly the 32 letter strings over the RFC 4648 alphabet, in either
  case, are decoded, and the 20 bytes are the big-endian form of the number that the string
  denotes in base 32; everything else is rejected with \<open>InvalidInput\<close>.
\<close>

theorem base32_decode_spec:
  "base32_decode s = (if length s = 32 \<and> list_all base32_digit s
     then Ok (to_be 20 (base32_number 0 s)) else Err InvalidInput)"
proof (cases "length s = 32")
  case True
  then have gs: "concat (chunks_exact 8 s) = s" "\<forall>g \<in> set (chunks_exact 8 s). length g = 8"
    "length (chunks_exact 8 s) = 4"
    using length_chunk by (auto simp: concat_chunks_exact length_chunks_exact)
  have out: "out = to_be 20 (be_val out)" if "length out = 20" for out
    using to_be_be_val [of out] that by simp
  show ?thesis
    using base32_groups_eq [OF gs(2)] gs(1,3) True by (auto simp: base32_decode_def dest: out split: if_splits)
qed (simp add: base32_decode_def)


subsection \<open>The link of a torrent\<close>

lemma parse_xt_hex:
  assumes "length h = 20"
  shows "parse_xt (ascii ''urn:btih:'' @ hex_encode h) = Some \<lparr>ih_bytes = h, ih_raw = hex_encode h\<rparr>"
  using assms by (simp add: parse_xt_def strip_prefix_def length_hex_encode hex_decode_encode)

text \<open>The link of a torrent. The magnet link made from a metainfo is, after printing and parsing, the
  same link, and as a torrent specification it has the info hash, the name, the trackers and the
  size of the torrent; 20 bytes is the length of every SHA-1 hash. It drops the web seeds.
\<close>

theorem magnet_of_metainfo_spec:
  assumes "length (info_hash sha1 m) = 20" and "total_size (info m) = Ok n"
    and "utf8_valid (announce m)" and "list_all (list_all utf8_valid) (announce_list m)"
    and "case mode (info m) of Single name _ \<Rightarrow> utf8_valid name | Multiple name _ \<Rightarrow> utf8_valid name"
  shows "\<exists>u. magnet_of_metainfo sha1 m = Ok u \<and> magnet_from_str (magnet_to_string u) = Ok u \<and>
    spec_info_hash sha1 (SpecMagnet u) = spec_info_hash sha1 (SpecMetainfo m) \<and>
    spec_name (SpecMagnet u) = spec_name (SpecMetainfo m) \<and>
    spec_trackers (SpecMagnet u) = spec_trackers (SpecMetainfo m) \<and> exact_length u = Some n \<and> spec_web_seeds (SpecMagnet u) = []"
proof -
  obtain u where u: "magnet_of_metainfo sha1 m = Ok u"
    by (simp add: magnet_of_metainfo_def assms(2) Let_def)
  then have "magnet_wf u"
    using assms(3,4,5)
    by (auto simp: magnet_of_metainfo_def assms(2) Let_def magnet_wf_def magnet_strings_wf_def parse_xt_hex [OF assms(1)] list_all_iff
        split: Mode.splits)
  moreover have "spec_info_hash sha1 (SpecMagnet u) = spec_info_hash sha1 (SpecMetainfo m) \<and>
      spec_name (SpecMagnet u) = spec_name (SpecMetainfo m) \<and>
      spec_trackers (SpecMagnet u) = spec_trackers (SpecMetainfo m) \<and> exact_length u = Some n \<and> spec_web_seeds (SpecMagnet u) = []"
    using u by (auto simp: magnet_of_metainfo_def assms(2) Let_def primary_info_hash_def index_at_def split: Mode.splits)
  ultimately show ?thesis using u magnet_from_to by blast
qed

theorem magnet_of_metainfo_spec_witness:
  "\<exists>u. magnet_of_metainfo (\<lambda>_. replicate 20 7)
      \<lparr>announce = ascii ''udp://t'', announce_list = [[ascii ''a'']],
       info = \<lparr>piece_length = 4, pieces = [], mode = Single (ascii ''f'') 9, raw_info = RawBytes [1]\<rparr>,
       url_list = [], httpseeds = [], creation_date = None, comment = None, created_by = None, encoding = None\<rparr> = Ok u \<and>
     magnet_from_str (magnet_to_string u) = Ok u \<and> spec_info_hash (\<lambda>_. replicate 20 7) (SpecMagnet u) = Ok (replicate 20 7)"
proof -
  let ?m = "\<lparr>announce = ascii ''udp://t'', announce_list = [[ascii ''a'']],
       info = \<lparr>piece_length = 4, pieces = [], mode = Single (ascii ''f'') 9, raw_info = RawBytes [1]\<rparr>,
       url_list = [], httpseeds = [], creation_date = None, comment = None, created_by = None, encoding = None\<rparr>"
  have hash: "info_hash (\<lambda>_. replicate 20 7) ?m = replicate 20 7" by (simp add: info_hash_def)
  then have len: "length (info_hash (\<lambda>_. replicate 20 7) ?m) = 20" by simp
  have size: "total_size (info ?m) = Ok 9" by (simp add: total_size_def)
  have strings: "utf8_valid (announce ?m)" "list_all (list_all utf8_valid) (announce_list ?m)"
    "case mode (info ?m) of Single name _ \<Rightarrow> utf8_valid name | Multiple name _ \<Rightarrow> utf8_valid name"
    by code_simp+
  from magnet_of_metainfo_spec [OF len size strings] show ?thesis unfolding spec_info_hash.simps(1) hash by blast
qed


subsection \<open>Inputs that panic\<close>

text \<open>Inputs that panic. The parser panics on exactly those strings whose trimmed form does not begin
  with \<open>magnet:\<close>, is longer than 7 bytes and has a character that reaches across byte 7, because
  \<open>s[..7]\<close> is not a slice at a character boundary then; \<open>abcdef\<close> followed by an e acute is one. Every
  other input is parsed or refused with \<open>InvalidInput\<close>.
\<close>

theorem magnet_from_str_panic:
  "(magnet_from_str s = Panic \<longleftrightarrow>
     strip_prefix (ascii ''magnet:'') (trim s) = None \<and> 7 < length (trim s) \<and> utf8_cont (trim s ! 7)) \<and>
   (magnet_from_str s \<in> range Ok \<union> {Err InvalidInput, Panic}) \<and>
   magnet_from_str (ascii ''abcdef'' @ [0xC3, 0xA9]) = Panic"
proof -
  have scheme: "magnet_scheme r \<in> range Ok \<union> {Err InvalidInput, Panic}"
    "magnet_scheme r = Panic \<longleftrightarrow> strip_prefix (ascii ''magnet:'') r = None \<and> 7 < length r \<and> utf8_cont (r ! 7)" for r
    by (auto simp: magnet_scheme_def split: option.splits)
  have "magnet_from_str s = Panic \<longleftrightarrow> magnet_scheme (trim s) = Panic"
    by (auto simp: magnet_from_str_def Let_def split: if_splits)
  moreover have "magnet_from_str s \<in> range Ok \<union> {Err InvalidInput, Panic}"
    using scheme(1) [of "trim s"]
    by (auto simp: magnet_from_str_def Let_def; case_tac "strip_prefix (ascii ''?'') x"; auto split: if_splits)
  moreover have "magnet_from_str (ascii ''abcdef'' @ [0xC3, 0xA9]) = Panic" by code_simp
  ultimately show ?thesis using scheme(2) by blast
qed

end
