(* ===== verification/Storage.thy ===== *)
theory Storage
  imports Rust_Prelude Metainfo
begin

section \<open>File storage\<close>

text \<open>
  \<open>storage/mod.rs\<close> of \<open>torrent-core\<close> (the \<open>Storage\<close> trait) and \<open>storage/file_backend.rs\<close> of
  \<open>torrent\<close>: the layout of a torrent over files, and the reads and writes of byte ranges and
  pieces. A \<open>PathBuf\<close> is its text. The file system of the standard library is a finite map from
  files to contents; \<open>rs\<close> names the file that a path text denotes, so that two texts may denote
  the same file. A missing file and a short read are \<open>Io\<close> errors; the creation of parent
  directories and other failures of the disk are not in the model. An operation returns the file
  system with its result, so the writes made before an error are kept, as they are by the code.
\<close>

subsection \<open>Files\<close>

type_synonym 'f fs = "'f \<rightharpoonup> bytes"

definition file_read :: "(rstring \<Rightarrow> 'f) \<Rightarrow> 'f fs \<Rightarrow> rstring \<Rightarrow> nat \<Rightarrow> nat \<Rightarrow> bytes result" where
  "file_read rs fs path pos len =
     (case fs (rs path) of
        None \<Rightarrow> Err Io
      | Some bs \<Rightarrow> if len = 0 \<or> pos + len \<le> length bs then Ok (take len (drop pos bs)) else Err Io)"

definition write_at :: "nat \<Rightarrow> bytes \<Rightarrow> bytes \<Rightarrow> bytes" where
  "write_at pos data bs =
     (if data = [] then bs
      else take pos (bs @ replicate (pos - length bs) 0) @ data @ drop (pos + length data) bs)"

definition file_write :: "(rstring \<Rightarrow> 'f) \<Rightarrow> 'f fs \<Rightarrow> rstring \<Rightarrow> nat \<Rightarrow> bytes \<Rightarrow> 'f fs \<times> unit result" where
  "file_write rs fs path pos data =
     (case fs (rs path) of
        None \<Rightarrow> (fs, Err Io)
      | Some bs \<Rightarrow> (fs(rs path \<mapsto> write_at pos data bs), Ok ()))"

text \<open>\<open>create_new\<close> followed by \<open>set_len\<close>.\<close>

definition file_create :: "(rstring \<Rightarrow> 'f) \<Rightarrow> 'f fs \<Rightarrow> rstring \<Rightarrow> u64 \<Rightarrow> 'f fs \<times> unit result" where
  "file_create rs fs path len =
     (case fs (rs path) of
        None \<Rightarrow> (fs(rs path \<mapsto> replicate (unat len) 0), Ok ())
      | Some _ \<Rightarrow> (fs, Err Io))"

text \<open>\<open>PathBuf::push\<close> on Unix: an absolute component replaces the path.\<close>

definition path_push :: "rstring \<Rightarrow> rstring \<Rightarrow> rstring" where
  "path_push p c =
     (if c \<noteq> [] \<and> hd c = 47 then c
      else if p = [] \<or> last p = 47 then p @ c else p @ [47] @ c)"

subsection \<open>The layout\<close>

record StorageFile =
  sf_path :: rstring
  sf_length :: u64

datatype StorageMode = SingleFile rstring | MultiFile "StorageFile list"

record FileStorage =
  st_num_pieces :: nat
  st_piece_length :: u64
  st_total_size :: u64
  st_mode :: StorageMode

definition file_storage_new :: "Info \<Rightarrow> rstring \<Rightarrow> FileStorage result" where
  "file_storage_new i download_dir =
     and_then (total_size i) (\<lambda>total.
       Ok \<lparr>st_num_pieces = info_num_pieces i, st_piece_length = piece_length i, st_total_size = total,
           st_mode = (case mode i of
              Single name _ \<Rightarrow> SingleFile (path_push download_dir name)
            | Multiple name files \<Rightarrow>
                let dir = path_push download_dir name in
                MultiFile (map (\<lambda>f. \<lparr>sf_path = foldl path_push dir (fi_path f), sf_length = fi_length f\<rparr>) files))\<rparr>)"

definition sub_u64 :: "u64 \<Rightarrow> u64 \<Rightarrow> u64 result" where
  "sub_u64 a b = (if b \<le> a then Ok (a - b) else Panic)"

definition piece_offset :: "FileStorage \<Rightarrow> u32 \<Rightarrow> u64 result" where
  "piece_offset st index = mul_u64 (ucast index) (st_piece_length st)"

definition piece_len_for_index :: "FileStorage \<Rightarrow> u32 \<Rightarrow> u64 result" where
  "piece_len_for_index st index =
     (if st_num_pieces st \<le> unat index then Ok 0
      else and_then (mul_u64 (ucast index) (st_piece_length st)) (\<lambda>start.
        if unat index = st_num_pieces st - 1 then sub_u64 (st_total_size st) start
        else Ok (st_piece_length st)))"

text \<open>A mapped range: path, position in the file, length.\<close>

type_synonym file_range = "rstring \<times> u64 \<times> u64"

fun map_range_loop :: "u64 \<Rightarrow> u64 \<Rightarrow> u64 \<Rightarrow> StorageFile list \<Rightarrow> file_range list result" where
  "map_range_loop pos stop cur [] = Ok []"
| "map_range_loop pos stop cur (f # fs) =
     and_then (add_u64 cur (sf_length f)) (\<lambda>file_end.
       let r = (if pos < file_end \<and> cur < stop
                then [(sf_path f, max cur pos - cur, min file_end stop - cur - (max cur pos - cur))] else [])
       in if stop \<le> file_end then Ok r
          else and_then (map_range_loop pos stop file_end fs) (\<lambda>rest. Ok (r @ rest)))"

definition map_byte_range :: "u64 \<Rightarrow> u64 \<Rightarrow> StorageFile list \<Rightarrow> file_range list result" where
  "map_byte_range pos len files = and_then (add_u64 pos len) (\<lambda>stop. map_range_loop pos stop 0 files)"

subsection \<open>Ranges of bytes\<close>

fun read_ranges :: "(rstring \<Rightarrow> 'f) \<Rightarrow> 'f fs \<Rightarrow> bytes \<Rightarrow> nat \<Rightarrow> file_range list \<Rightarrow> bytes result" where
  "read_ranges rs fs buf buf_offset [] = Ok buf"
| "read_ranges rs fs buf buf_offset ((path, file_offset, read_len) # ranges) =
     (let upto = min (buf_offset + unat read_len) (length buf) in
      if upto < buf_offset then Panic
      else let actual_len = upto - buf_offset in
        if actual_len = 0 then Ok buf
        else and_then (file_read rs fs path (unat file_offset) actual_len) (\<lambda>data.
               read_ranges rs fs (take buf_offset buf @ data @ drop upto buf) (buf_offset + unat read_len) ranges))"

definition read_range :: "(rstring \<Rightarrow> 'f) \<Rightarrow> FileStorage \<Rightarrow> 'f fs \<Rightarrow> u64 \<Rightarrow> nat \<Rightarrow> bytes \<Rightarrow> bytes result" where
  "read_range rs st fs pos len buf =
     (case st_mode st of
        SingleFile path \<Rightarrow>
          and_then (file_read rs fs path (unat pos) len) (\<lambda>data.
            if length buf < length data then Panic else Ok (data @ drop (length data) buf))
      | MultiFile files \<Rightarrow>
          and_then (map_byte_range pos (of_nat len) files) (\<lambda>ranges. read_ranges rs fs buf 0 ranges))"

fun write_ranges :: "(rstring \<Rightarrow> 'f) \<Rightarrow> 'f fs \<Rightarrow> bytes \<Rightarrow> nat \<Rightarrow> file_range list \<Rightarrow> 'f fs \<times> unit result" where
  "write_ranges rs fs data data_offset [] = (fs, Ok ())"
| "write_ranges rs fs data data_offset ((path, file_offset, write_len) # ranges) =
     (let upto = min (data_offset + unat write_len) (length data) in
      if upto \<le> data_offset then (fs, Ok ())
      else case file_write rs fs path (unat file_offset) (take (upto - data_offset) (drop data_offset data)) of
             (fs', Ok _) \<Rightarrow> write_ranges rs fs' data (data_offset + unat write_len) ranges
           | (fs', r) \<Rightarrow> (fs', r))"

definition write_range :: "(rstring \<Rightarrow> 'f) \<Rightarrow> FileStorage \<Rightarrow> 'f fs \<Rightarrow> u64 \<Rightarrow> bytes \<Rightarrow> 'f fs \<times> unit result" where
  "write_range rs st fs pos data =
     (case st_mode st of
        SingleFile path \<Rightarrow> file_write rs fs path (unat pos) data
      | MultiFile files \<Rightarrow>
          (case map_byte_range pos (of_nat (length data)) files of
             Ok ranges \<Rightarrow> write_ranges rs fs data 0 ranges
           | Err e \<Rightarrow> (fs, Err e)
           | Panic \<Rightarrow> (fs, Panic)))"

subsection \<open>The \<open>Storage\<close> trait\<close>

definition block_offset :: "FileStorage \<Rightarrow> u32 \<Rightarrow> u32 \<Rightarrow> u64 result" where
  "block_offset st piece pos = and_then (piece_offset st piece) (\<lambda>p. add_u64 p (ucast pos))"

definition read_block :: "(rstring \<Rightarrow> 'f) \<Rightarrow> FileStorage \<Rightarrow> 'f fs \<Rightarrow> u32 \<Rightarrow> u32 \<Rightarrow> bytes \<Rightarrow> bytes result" where
  "read_block rs st fs piece pos buf =
     and_then (block_offset st piece pos) (\<lambda>g. read_range rs st fs g (length buf) buf)"

definition read_piece :: "(rstring \<Rightarrow> 'f) \<Rightarrow> FileStorage \<Rightarrow> 'f fs \<Rightarrow> u32 \<Rightarrow> bytes \<Rightarrow> bytes result" where
  "read_piece rs st fs index buf =
     and_then (piece_offset st index) (\<lambda>pos.
     and_then (piece_len_for_index st index) (\<lambda>len. read_range rs st fs pos (unat len) buf))"

definition write_block :: "(rstring \<Rightarrow> 'f) \<Rightarrow> FileStorage \<Rightarrow> 'f fs \<Rightarrow> u32 \<Rightarrow> u32 \<Rightarrow> bytes \<Rightarrow> 'f fs \<times> unit result" where
  "write_block rs st fs piece pos data =
     (case block_offset st piece pos of
        Ok g \<Rightarrow> write_range rs st fs g data
      | Err e \<Rightarrow> (fs, Err e)
      | Panic \<Rightarrow> (fs, Panic))"

definition write_piece :: "(rstring \<Rightarrow> 'f) \<Rightarrow> FileStorage \<Rightarrow> 'f fs \<Rightarrow> u32 \<Rightarrow> bytes \<Rightarrow> 'f fs \<times> unit result" where
  "write_piece rs st fs index data =
     (case piece_offset st index of
        Ok pos \<Rightarrow> write_range rs st fs pos data
      | Err e \<Rightarrow> (fs, Err e)
      | Panic \<Rightarrow> (fs, Panic))"

text \<open>The default \<open>write_piece\<close> of the trait, over any \<open>write_block\<close>: blocks of 16 KiB.\<close>

fun default_write_blocks ::
  "('s \<Rightarrow> u32 \<Rightarrow> u32 \<Rightarrow> bytes \<Rightarrow> 's \<times> unit result) \<Rightarrow> u32 \<Rightarrow> nat \<Rightarrow> bytes list \<Rightarrow> 's \<Rightarrow> 's \<times> unit result" where
  "default_write_blocks wb index i [] s = (s, Ok ())"
| "default_write_blocks wb index i (chunk # rest) s =
     (case wb s index (of_nat (i * 16384)) chunk of
        (s', Ok _) \<Rightarrow> default_write_blocks wb index (i + 1) rest s'
      | (s', r) \<Rightarrow> (s', r))"

function slice_chunks :: "nat \<Rightarrow> 'a list \<Rightarrow> 'a list list" where
  "slice_chunks n xs = (if n = 0 \<or> xs = [] then [] else take n xs # slice_chunks n (drop n xs))"
  by pat_completeness auto
termination by (relation "measure (\<lambda>(_, xs). length xs)") auto

declare slice_chunks.simps [simp del]

definition default_write_piece ::
  "('s \<Rightarrow> u32 \<Rightarrow> u32 \<Rightarrow> bytes \<Rightarrow> 's \<times> unit result) \<Rightarrow> u32 \<Rightarrow> bytes \<Rightarrow> 's \<Rightarrow> 's \<times> unit result" where
  "default_write_piece wb index data = default_write_blocks wb index 0 (slice_chunks 16384 data)"

fun create_files :: "(rstring \<Rightarrow> 'f) \<Rightarrow> 'f fs \<Rightarrow> StorageFile list \<Rightarrow> 'f fs \<times> unit result" where
  "create_files rs fs [] = (fs, Ok ())"
| "create_files rs fs (f # files) =
     (case file_create rs fs (sf_path f) (sf_length f) of
        (fs', Ok _) \<Rightarrow> create_files rs fs' files
      | (fs', r) \<Rightarrow> (fs', r))"

definition prepare_storage :: "(rstring \<Rightarrow> 'f) \<Rightarrow> FileStorage \<Rightarrow> 'f fs \<Rightarrow> 'f fs \<times> unit result" where
  "prepare_storage rs st fs =
     (case st_mode st of
        SingleFile path \<Rightarrow> file_create rs fs path (st_total_size st)
      | MultiFile files \<Rightarrow> create_files rs fs files)"


subsection \<open>Contents of a layout\<close>

definition store_files :: "FileStorage \<Rightarrow> StorageFile list" where
  "store_files st = (case st_mode st of
     SingleFile path \<Rightarrow> [\<lparr>sf_path = path, sf_length = st_total_size st\<rparr>] | MultiFile files \<Rightarrow> files)"

definition lens :: "StorageFile list \<Rightarrow> nat" where
  "lens files = sum_list (map (\<lambda>f. unat (sf_length f)) files)"

definition file_data :: "(rstring \<Rightarrow> 'f) \<Rightarrow> 'f fs \<Rightarrow> StorageFile \<Rightarrow> bytes" where
  "file_data rs fs f = (case fs (rs (sf_path f)) of Some bs \<Rightarrow> bs | None \<Rightarrow> [])"

definition contents :: "(rstring \<Rightarrow> 'f) \<Rightarrow> 'f fs \<Rightarrow> StorageFile list \<Rightarrow> bytes" where
  "contents rs fs files = concat (map (file_data rs fs) files)"

definition files_ok :: "(rstring \<Rightarrow> 'f) \<Rightarrow> 'f fs \<Rightarrow> StorageFile list \<Rightarrow> bool" where
  "files_ok rs fs files \<longleftrightarrow>
     (\<forall>f \<in> set files. \<exists>bs. fs (rs (sf_path f)) = Some bs \<and> length bs = unat (sf_length f) \<and> bs \<noteq> []) \<and>
     distinct (map (\<lambda>f. rs (sf_path f)) files)"

lemma files_ok_Cons:
  "files_ok rs fs (f # files) \<longleftrightarrow>
     (\<exists>bs. fs (rs (sf_path f)) = Some bs \<and> length bs = unat (sf_length f) \<and> bs \<noteq> []) \<and>
     rs (sf_path f) \<notin> (\<lambda>f. rs (sf_path f)) ` set files \<and> files_ok rs fs files"
  by (auto simp: files_ok_def)

lemma files_ok_upd:
  "files_ok rs fs files \<Longrightarrow> x \<notin> (\<lambda>f. rs (sf_path f)) ` set files \<Longrightarrow> files_ok rs (fs(x := v)) files"
  by (auto simp: files_ok_def)

lemma contents_Cons: "contents rs fs (f # files) = file_data rs fs f @ contents rs fs files"
  by (simp add: contents_def)

lemma contents_upd:
  "x \<notin> (\<lambda>f. rs (sf_path f)) ` set files \<Longrightarrow> contents rs (fs(x := v)) files = contents rs fs files"
  by (auto simp: contents_def file_data_def intro!: arg_cong [where f = concat] map_cong)

lemma lens_Cons: "lens (f # files) = unat (sf_length f) + lens files"
  by (simp add: lens_def)

lemma unat_min_max: "unat (min a b) = min (unat a) (unat b)" "unat (max a b) = max (unat a) (unat b)"
  for a b :: "'a::len word"
  by (auto simp: min_def max_def word_le_nat_alt)

lemma add_u64_Ok: "unat a + unat b < 2 ^ 64 \<Longrightarrow> \<exists>c. add_u64 a b = Ok c \<and> unat c = unat a + unat b"
  by (simp add: add_u64_def checked_add_def unat_word_ariths)

text \<open>The range of one file that meets \<open>[pos, stop)\<close>, on natural numbers.\<close>

lemma range_values:
  assumes "unat fe = unat cur + unat len" and "pos < fe" and "cur < stop" and "pos \<le> stop"
  shows "unat (max cur pos - cur) = unat pos - unat cur"
    "unat (min fe stop - cur - (max cur pos - cur)) = min (unat fe) (unat stop) - max (unat cur) (unat pos)"
proof -
  have le: "cur \<le> max cur pos" "cur \<le> min fe stop"
    using assms by (simp_all add: word_le_nat_alt word_less_nat_alt unat_min_max)
  show a: "unat (max cur pos - cur) = unat pos - unat cur"
    using le(1) by (simp add: unat_sub unat_min_max)
  have "max cur pos \<le> min fe stop"
    using assms by (simp add: word_le_nat_alt word_less_nat_alt unat_min_max)
  moreover have "min fe stop - cur - (max cur pos - cur) = min fe stop - max cur pos" by simp
  ultimately show "unat (min fe stop - cur - (max cur pos - cur)) = min (unat fe) (unat stop) - max (unat cur) (unat pos)"
    by (simp only: unat_sub unat_min_max)
qed

subsection \<open>Reading\<close>

lemma take_drop_across:
  "j \<le> length bs \<Longrightarrow> length bs - j \<le> n \<Longrightarrow> n - (length bs - j) = m \<Longrightarrow>
     take n (drop j (bs @ R)) = drop j bs @ take m R"
  by auto

lemma length_splice:
  "k + n \<le> length buf \<Longrightarrow> j + n \<le> length bs \<Longrightarrow>
     length (take k buf @ take n (drop j bs) @ drop (k + n) buf) = length buf"
  by simp

lemma read_ranges_step:
  assumes "fs (rs path) = Some bs" and "unat read_len \<noteq> 0" and "k + unat read_len \<le> length buf"
    and "unat file_offset + unat read_len \<le> length bs"
  shows "read_ranges rs fs buf k ((path, file_offset, read_len) # ranges)
    = read_ranges rs fs (take k buf @ take (unat read_len) (drop (unat file_offset) bs) @ drop (k + unat read_len) buf)
        (k + unat read_len) ranges"
  using assms by (simp add: file_read_def Let_def min_absorb1)

lemma read_ranges_contents:
  assumes "files_ok rs fs files" and "unat cur + lens files < 2 ^ 64" and "pos \<le> stop" and "cur \<le> stop"
    and "unat stop \<le> unat cur + lens files" and "length buf = unat stop - unat pos"
  shows "\<exists>ranges. map_range_loop pos stop cur files = Ok ranges \<and>
    read_ranges rs fs buf (unat cur - unat pos) ranges =
      Ok (take (unat cur - unat pos) buf
          @ take (unat stop - max (unat cur) (unat pos)) (drop (unat pos - unat cur) (contents rs fs files)))"
  using assms
proof (induction files arbitrary: cur buf)
  case Nil
  then have "unat cur = unat stop" by (simp add: lens_def word_le_nat_alt)
  with Nil show ?case by (simp add: contents_def word_le_nat_alt)
next
  case (Cons f files)
  let ?p = "unat pos" let ?e = "unat stop" let ?c = "unat cur"
  obtain bs where bs: "fs (rs (sf_path f)) = Some bs" "length bs = unat (sf_length f)" "bs \<noteq> []"
    and ok: "files_ok rs fs files"
    using Cons.prems(1) by (auto simp: files_ok_Cons)
  have part: "file_data rs fs f = bs" using bs(1) by (simp add: file_data_def)
  obtain fe where fe: "add_u64 cur (sf_length f) = Ok fe" "unat fe = ?c + length bs"
    using add_u64_Ok [of cur "sf_length f"] Cons.prems(2) bs(2) by (auto simp: lens_Cons)
  have pe: "?p \<le> ?e" "?c \<le> ?e" using Cons.prems(3,4) by (simp_all add: word_le_nat_alt)
  have rest: "unat fe + lens files < 2 ^ 64" "?e \<le> unat fe + lens files"
    using Cons.prems(2,5) fe(2) bs(2) by (simp_all add: lens_Cons)
  let ?R = "contents rs fs files"
  show ?case
  proof (cases "pos < fe \<and> cur < stop")
    case False
    then have out: "?e \<le> ?c \<or> unat fe \<le> ?p" by (auto simp: word_less_nat_alt)
    show ?thesis
    proof (cases "stop \<le> fe")
      case True
      then have "?e \<le> unat fe" by (simp add: word_le_nat_alt)
      with out pe have "?c = ?e \<or> ?p = ?e" by linarith
      with True False fe(1) Cons.prems(6) pe show ?thesis by (auto simp: Let_def)
    next
      case cont: False
      then have lt: "unat fe < ?e" by (simp add: word_le_nat_alt)
      with out fe(2) have fp: "unat fe \<le> ?p" by linarith
      have "fe \<le> stop" using cont by simp
      from Cons.IH [OF ok rest(1) Cons.prems(3) this rest(2) Cons.prems(6)] obtain ranges where
        "map_range_loop pos stop fe files = Ok ranges"
        "read_ranges rs fs buf (unat fe - ?p) ranges =
           Ok (take (unat fe - ?p) buf @ take (?e - max (unat fe) ?p) (drop (?p - unat fe) ?R))"
        by auto
      with False cont fe fp part show ?thesis by (auto simp: Let_def contents_Cons)
    qed
  next
    case True
    then have in_range: "?p < unat fe" "?c < ?e" by (simp_all add: word_less_nat_alt)
    let ?rl = "min (unat fe) ?e - max ?c ?p"
    let ?range = "(sf_path f, max cur pos - cur, min fe stop - cur - (max cur pos - cur))"
    have vals: "unat (max cur pos - cur) = ?p - ?c" "unat (min fe stop - cur - (max cur pos - cur)) = ?rl"
      using range_values [of fe cur "sf_length f" pos stop] True Cons.prems(3) fe(2) bs(2) by auto
    have bo: "?c - ?p + ?rl = min (unat fe) ?e - ?p" using in_range pe fe(2) by linarith
    have stop_len: "?p - ?c + ?rl \<le> length bs" using in_range pe fe(2) by linarith
    let ?data = "take ?rl (drop (?p - ?c) bs)"
    let ?buf = "take (?c - ?p) buf @ ?data @ drop (min (unat fe) ?e - ?p) buf"
    have fits: "?c - ?p + ?rl \<le> length buf"
      unfolding bo Cons.prems(6) by (simp add: diff_le_mono)
    have step: "read_ranges rs fs buf (?c - ?p) (?range # ranges)
        = read_ranges rs fs ?buf (min (unat fe) ?e - ?p) ranges" if "?rl \<noteq> 0" for ranges
      using read_ranges_step [of fs rs "sf_path f" bs _ "?c - ?p" buf, OF bs(1)] that fits stop_len
      unfolding vals(1) [symmetric] vals(2) [symmetric] bo [symmetric] by blast
    show ?thesis
    proof (cases "stop \<le> fe")
      case stop: True
      then have le: "?e \<le> unat fe" by (simp add: word_le_nat_alt)
      have res: "map_range_loop pos stop cur (f # files) = Ok [?range]" using True stop fe(1) by simp
      show ?thesis
      proof (cases "?rl = 0")
        case zero: True
        then have "?p = ?e" using in_range pe le by linarith
        with Cons.prems(6) pe show ?thesis
          by (intro exI [of _ "[?range]"] conjI, intro res) (simp add: vals Let_def)
      next
        case False
        then show ?thesis
          using le stop_len Cons.prems(6)
          by (intro exI [of _ "[?range]"] conjI, intro res, subst step) (simp_all add: contents_Cons part)
      qed
    next
      case cont: False
      have lt: "unat fe < ?e" using cont by (simp add: word_le_nat_alt)
      moreover have "0 < length bs" using bs(3) by simp
      ultimately have nz: "?rl \<noteq> 0" using in_range fe(2) by linarith
      have len: "length ?buf = ?e - ?p"
        using length_splice [OF fits stop_len] Cons.prems(6) unfolding bo by simp
      have "fe \<le> stop" using cont by simp
      from Cons.IH [OF ok rest(1) Cons.prems(3) this rest(2) len] obtain ranges where
        rec: "map_range_loop pos stop fe files = Ok ranges"
        "read_ranges rs fs ?buf (unat fe - ?p) ranges =
           Ok (take (unat fe - ?p) ?buf @ take (?e - max (unat fe) ?p) (drop (?p - unat fe) ?R))"
        by auto
      have res: "map_range_loop pos stop cur (f # files) = Ok (?range # ranges)"
        using True cont fe(1) rec(1) by simp
      have hb: "take (unat fe - ?p) ?buf = take (?c - ?p) buf @ drop (?p - ?c) bs"
        using in_range pe lt fe(2) Cons.prems(6) by simp
      have hr: "take (?e - max ?c ?p) (drop (?p - ?c) (bs @ ?R)) = drop (?p - ?c) bs @ take (?e - unat fe) ?R"
      proof -
        have "?e - max ?c ?p - (length bs - (?p - ?c)) = ?e - unat fe" "length bs - (?p - ?c) \<le> ?e - max ?c ?p"
          using in_range lt fe(2) by linarith+
        then show ?thesis using in_range fe(2) by (intro take_drop_across) linarith+
      qed
      have "max (unat fe) ?p = unat fe" "?p - unat fe = 0" using in_range by simp_all
      then have "read_ranges rs fs ?buf (unat fe - ?p) ranges
          = Ok (take (?c - ?p) buf @ drop (?p - ?c) bs @ take (?e - unat fe) ?R)"
        using rec(2) hb by (simp only: drop0 append_assoc)
      moreover have "min (unat fe) ?e - ?p = unat fe - ?p" using lt by simp
      ultimately have "read_ranges rs fs buf (?c - ?p) (?range # ranges)
          = Ok (take (?c - ?p) buf @ drop (?p - ?c) bs @ take (?e - unat fe) ?R)"
        using step [OF nz, of ranges] by (simp only:)
      with res show ?thesis unfolding contents_Cons part hr by blast
    qed
  qed
qed


subsection \<open>Writing\<close>

lemma take_drop_join: "take n (drop k d) @ drop (k + n) d = drop k d"
  by (metis add.commute append_take_drop_id drop_drop)

lemma write_ranges_step:
  assumes "fs (rs path) = Some bs" and "unat write_len \<noteq> 0" and "k + unat write_len \<le> length data"
    and "unat file_offset + unat write_len \<le> length bs"
  shows "write_ranges rs fs data k ((path, file_offset, write_len) # ranges)
    = write_ranges rs (fs(rs path \<mapsto> take (unat file_offset) bs @ take (unat write_len) (drop k data)
        @ drop (unat file_offset + unat write_len) bs)) data (k + unat write_len) ranges"
proof -
  have "take (unat write_len) (drop k data) \<noteq> []" using assms(2,3) by auto
  moreover have "length (take (unat write_len) (drop k data)) = unat write_len" using assms(3) by simp
  ultimately have "file_write rs fs path (unat file_offset) (take (unat write_len) (drop k data))
      = (fs(rs path \<mapsto> take (unat file_offset) bs @ take (unat write_len) (drop k data)
          @ drop (unat file_offset + unat write_len) bs), Ok ())"
    using assms(1,4) by (simp add: file_write_def write_at_def)
  then show ?thesis using assms(2,3) by (simp add: Let_def min_absorb1)
qed

lemma write_ranges_contents:
  assumes "files_ok rs fs files" and "unat cur + lens files < 2 ^ 64" and "pos \<le> stop" and "cur \<le> stop"
    and "unat stop \<le> unat cur + lens files" and "length data = unat stop - unat pos"
  shows "\<exists>ranges fs'. map_range_loop pos stop cur files = Ok ranges \<and>
    write_ranges rs fs data (unat cur - unat pos) ranges = (fs', Ok ()) \<and> files_ok rs fs' files \<and>
    contents rs fs' files = take (unat pos - unat cur) (contents rs fs files) @ drop (unat cur - unat pos) data
      @ drop (unat stop - unat cur) (contents rs fs files) \<and>
    (\<forall>x. x \<notin> (\<lambda>f. rs (sf_path f)) ` set files \<longrightarrow> fs' x = fs x)"
  using assms
proof (induction files arbitrary: cur fs)
  case Nil
  then have "unat cur = unat stop" by (simp add: lens_def word_le_nat_alt)
  with Nil show ?case by (simp add: contents_def word_le_nat_alt)
next
  case (Cons f files)
  let ?p = "unat pos" let ?e = "unat stop" let ?c = "unat cur"
  let ?x = "rs (sf_path f)" let ?P = "(\<lambda>f. rs (sf_path f)) ` set files"
  obtain bs where bs: "fs ?x = Some bs" "length bs = unat (sf_length f)" "bs \<noteq> []"
    and fresh: "?x \<notin> ?P" and ok: "files_ok rs fs files"
    using Cons.prems(1) by (auto simp: files_ok_Cons)
  have part: "file_data rs fs f = bs" using bs(1) by (simp add: file_data_def)
  obtain fe where fe: "add_u64 cur (sf_length f) = Ok fe" "unat fe = ?c + length bs"
    using add_u64_Ok [of cur "sf_length f"] Cons.prems(2) bs(2) by (auto simp: lens_Cons)
  have pe: "?p \<le> ?e" "?c \<le> ?e" using Cons.prems(3,4) by (simp_all add: word_le_nat_alt)
  have rest: "unat fe + lens files < 2 ^ 64" "?e \<le> unat fe + lens files"
    using Cons.prems(2,5) fe(2) bs(2) by (simp_all add: lens_Cons)
  let ?R = "contents rs fs files"
  show ?case
  proof (cases "pos < fe \<and> cur < stop")
    case False
    then have out: "?e \<le> ?c \<or> unat fe \<le> ?p" by (auto simp: word_less_nat_alt)
    show ?thesis
    proof (cases "stop \<le> fe")
      case True
      then have "?e \<le> unat fe" by (simp add: word_le_nat_alt)
      with out pe have "?c = ?e \<or> ?p = ?e" by linarith
      with True False fe(1) Cons.prems(1,6) pe show ?thesis by (auto simp: Let_def)
    next
      case cont: False
      then have lt: "unat fe < ?e" by (simp add: word_le_nat_alt)
      with out fe(2) have fp: "unat fe \<le> ?p" by linarith
      have "fe \<le> stop" using cont by simp
      from Cons.IH [OF ok rest(1) Cons.prems(3) this rest(2) Cons.prems(6)] obtain ranges fs' where
        rec: "map_range_loop pos stop fe files = Ok ranges"
        "write_ranges rs fs data (unat fe - ?p) ranges = (fs', Ok ())" "files_ok rs fs' files"
        "contents rs fs' files = take (?p - unat fe) ?R @ drop (unat fe - ?p) data @ drop (?e - unat fe) ?R"
        "\<forall>x. x \<notin> ?P \<longrightarrow> fs' x = fs x"
        by blast
      have "fs' ?x = Some bs" using rec(5) fresh bs(1) by simp
      with rec False cont fe fp lt part fresh bs show ?thesis
        by (auto simp: Let_def contents_Cons files_ok_Cons file_data_def)
    qed
  next
    case True
    then have in_range: "?p < unat fe" "?c < ?e" by (simp_all add: word_less_nat_alt)
    let ?rl = "min (unat fe) ?e - max ?c ?p"
    let ?range = "(sf_path f, max cur pos - cur, min fe stop - cur - (max cur pos - cur))"
    have vals: "unat (max cur pos - cur) = ?p - ?c" "unat (min fe stop - cur - (max cur pos - cur)) = ?rl"
      using range_values [of fe cur "sf_length f" pos stop] True Cons.prems(3) fe(2) bs(2) by auto
    have bo: "?c - ?p + ?rl = min (unat fe) ?e - ?p" using in_range pe fe(2) by linarith
    let ?chunk = "take ?rl (drop (?c - ?p) data)"
    let ?new = "take (?p - ?c) bs @ ?chunk @ drop (?p - ?c + ?rl) bs"
    let ?fs = "fs(?x \<mapsto> ?new)"
    have stop_len: "?p - ?c + ?rl \<le> length bs" using in_range pe fe(2) by linarith
    have fits: "?c - ?p + ?rl \<le> length data"
      unfolding bo Cons.prems(6) by (simp add: diff_le_mono)
    have newlen: "length ?new = length bs" by (rule length_splice [OF stop_len fits])
    have newlen': "length ?new = unat (sf_length f) \<and> ?new \<noteq> []"
      using newlen bs(2,3) by (metis length_0_conv)
    have ok': "files_ok rs ?fs files" using files_ok_upd [OF ok fresh] .
    have R': "contents rs ?fs files = ?R" using contents_upd [OF fresh] .
    have step: "write_ranges rs fs data (?c - ?p) (?range # ranges)
        = write_ranges rs ?fs data (min (unat fe) ?e - ?p) ranges" if "?rl \<noteq> 0" for ranges
      using write_ranges_step [of fs rs "sf_path f" bs _ "?c - ?p" data, OF bs(1)] that fits stop_len
      unfolding vals(1) [symmetric] vals(2) [symmetric] bo [symmetric] by blast
    show ?thesis
    proof (cases "stop \<le> fe")
      case stop: True
      then have le: "?e \<le> unat fe" by (simp add: word_le_nat_alt)
      have res: "map_range_loop pos stop cur (f # files) = Ok [?range]" using True stop fe(1) by simp
      show ?thesis
      proof (cases "?rl = 0")
        case zero: True
        then have "?p = ?e" using in_range pe le by linarith
        with Cons.prems(1,6) pe show ?thesis
          by (intro exI [of _ "[?range]"] exI [of _ fs] conjI, intro res) (simp_all add: vals Let_def)
      next
        case False
        have new: "?new = take (?p - ?c) bs @ drop (?c - ?p) data @ drop (?e - ?c) bs"
        proof -
          have e: "?rl = length data - (?c - ?p)" "?p - ?c + ?rl = ?e - ?c"
            unfolding Cons.prems(6) using le in_range pe by linarith+
          have "?chunk = drop (?c - ?p) data" by (rule take_all) (simp only: length_drop e(1) order_refl)
          then show ?thesis by (simp only: e(2))
        qed
        have c1: "files_ok rs ?fs (f # files)" 
          unfolding files_ok_Cons fun_upd_same using ok' newlen' fresh by blast
        have "?new @ ?R = take (?p - ?c) (bs @ ?R) @ drop (?c - ?p) data @ drop (?e - ?c) (bs @ ?R)"
          unfolding new using le fe(2) pe in_range by simp
        then have c2: "contents rs ?fs (f # files) = take (?p - ?c) (contents rs fs (f # files))
            @ drop (?c - ?p) data @ drop (?e - ?c) (contents rs fs (f # files))"
          unfolding contents_Cons part R' by (simp only: file_data_def fun_upd_same option.case)
        have c3: "\<forall>x. x \<notin> (\<lambda>f. rs (sf_path f)) ` set (f # files) \<longrightarrow> ?fs x = fs x" by simp
        have "write_ranges rs fs data (?c - ?p) [?range] = (?fs, Ok ())"
          by (subst step [OF False]) (simp only: write_ranges.simps)
        with res c1 c2 c3 show ?thesis by blast
      qed
    next
      case cont: False
      have lt: "unat fe < ?e" using cont by (simp add: word_le_nat_alt)
      moreover have "0 < length bs" using bs(3) by simp
      ultimately have nz: "?rl \<noteq> 0" using in_range fe(2) by linarith
      have "fe \<le> stop" using cont by simp
      from Cons.IH [OF ok' rest(1) Cons.prems(3) this rest(2) Cons.prems(6)] obtain ranges fs' where
        rec: "map_range_loop pos stop fe files = Ok ranges"
        "write_ranges rs ?fs data (unat fe - ?p) ranges = (fs', Ok ())" "files_ok rs fs' files"
        "contents rs fs' files = take (?p - unat fe) ?R @ drop (unat fe - ?p) data @ drop (?e - unat fe) ?R"
        "\<forall>x. x \<notin> ?P \<longrightarrow> fs' x = ?fs x"
        unfolding R' by blast
      have res: "map_range_loop pos stop cur (f # files) = Ok (?range # ranges)"
        using True cont fe(1) rec(1) by simp
      have x: "fs' ?x = Some ?new" using rec(5) fresh by simp
      have new: "?new = take (?p - ?c) bs @ ?chunk"
      proof -
        have "length bs \<le> ?p - ?c + ?rl" using in_range lt fe(2) by linarith
        then show ?thesis by (simp only: drop_all append_Nil2)
      qed
      have tail: "?chunk @ drop (unat fe - ?p) data = drop (?c - ?p) data"
      proof -
        have "unat fe - ?p = ?c - ?p + ?rl" unfolding bo using lt by simp
        then show ?thesis by (simp only: take_drop_join)
      qed
      have "take (?p - ?c) bs @ drop (?c - ?p) data @ drop (?e - unat fe) ?R
          = take (?p - ?c) (bs @ ?R) @ drop (?c - ?p) data @ drop (?e - ?c) (bs @ ?R)"
        using lt in_range fe(2) by simp
      moreover have "contents rs fs' (f # files) = take (?p - ?c) bs @ drop (?c - ?p) data @ drop (?e - unat fe) ?R"
        using rec(4) x new tail in_range by (simp add: contents_Cons file_data_def)
      ultimately have c2: "contents rs fs' (f # files) = take (?p - ?c) (contents rs fs (f # files))
          @ drop (?c - ?p) data @ drop (?e - ?c) (contents rs fs (f # files))"
        unfolding contents_Cons part by (simp only:)
      have c1: "files_ok rs fs' (f # files)" unfolding files_ok_Cons using rec(3) x newlen' fresh by blast
      have c3: "\<forall>x. x \<notin> (\<lambda>f. rs (sf_path f)) ` set (f # files) \<longrightarrow> fs' x = fs x" using rec(5) by simp
      have m: "min (unat fe) ?e - ?p = unat fe - ?p" using lt by simp
      have "write_ranges rs fs data (?c - ?p) (?range # ranges) = (fs', Ok ())"
        by (subst step [OF nz]) (simp only: m rec(2))
      with res c1 c2 c3 show ?thesis by blast
    qed
  qed
qed


subsection \<open>A flat array of bytes\<close>

text \<open>
  The invariant of a prepared storage: every file is there with its length, none is empty and no
  two are the same file. The abstract value of the storage is the concatenation of its files.
\<close>

definition storage_inv :: "(rstring \<Rightarrow> 'f) \<Rightarrow> FileStorage \<Rightarrow> 'f fs \<Rightarrow> bool" where
  "storage_inv rs st fs \<longleftrightarrow>
     files_ok rs fs (store_files st) \<and> lens (store_files st) = unat (st_total_size st)"

definition flat :: "(rstring \<Rightarrow> 'f) \<Rightarrow> FileStorage \<Rightarrow> 'f fs \<Rightarrow> bytes" where
  "flat rs st fs = contents rs fs (store_files st)"

lemma length_contents: "files_ok rs fs files \<Longrightarrow> length (contents rs fs files) = lens files"
  by (induction files) (auto simp: contents_def lens_def files_ok_Cons file_data_def)

lemma length_flat: "storage_inv rs st fs \<Longrightarrow> length (flat rs st fs) = unat (st_total_size st)"
  by (simp add: storage_inv_def flat_def length_contents)

lemma total_less: "unat (w :: u64) < 2 ^ 64"
  using unsigned_less [of w, where ?'a = nat] by simp

lemma storage_inv_single:
  assumes "storage_inv rs st fs" and "st_mode st = SingleFile path"
  shows "fs (rs path) = Some (flat rs st fs)"
  using assms by (auto simp: storage_inv_def flat_def store_files_def files_ok_def contents_def file_data_def)

lemma map_byte_range_Ok:
  assumes "unat pos + n \<le> unat (t :: u64)"
  obtains stop where "add_u64 pos (of_nat n) = Ok stop" "unat stop = unat pos + n" "pos \<le> stop"
proof -
  have lt: "unat pos + n < 2 ^ 64" using assms total_less [of t] by linarith
  then have n: "unat (of_nat n :: u64) = n" by (simp add: unat_of_nat)
  with lt obtain c where "add_u64 pos (of_nat n) = Ok c" "unat c = unat pos + n"
    using add_u64_Ok [of pos "of_nat n"] by auto
  then show thesis by (intro that [of c]) (simp_all add: word_le_nat_alt)
qed

lemma read_range_flat:
  assumes "storage_inv rs st fs" and "unat pos + len \<le> unat (st_total_size st)" and "length buf = len"
  shows "read_range rs st fs pos len buf = Ok (take len (drop (unat pos) (flat rs st fs)))"
proof (cases "st_mode st")
  case (SingleFile path)
  then show ?thesis
    using assms storage_inv_single [OF assms(1) SingleFile] length_flat [OF assms(1)]
    by (simp add: read_range_def file_read_def)
next
  case (MultiFile files)
  obtain stop where stop: "add_u64 pos (of_nat len) = Ok stop" "unat stop = unat pos + len" "pos \<le> stop"
    using map_byte_range_Ok [OF assms(2)] .
  have files: "files_ok rs fs files" "lens files = unat (st_total_size st)" "flat rs st fs = contents rs fs files"
    using assms(1) MultiFile by (simp_all add: storage_inv_def store_files_def flat_def)
  have "unat (0 :: u64) + lens files < 2 ^ 64" using files(2) total_less by simp
  moreover have "unat stop \<le> unat (0 :: u64) + lens files" using assms(2) files(2) stop(2) by simp
  moreover have "length buf = unat stop - unat pos" using assms(3) stop(2) by simp
  ultimately obtain ranges where "map_range_loop pos stop 0 files = Ok ranges"
    "read_ranges rs fs buf (unat (0 :: u64) - unat pos) ranges =
      Ok (take (unat (0 :: u64) - unat pos) buf
          @ take (unat stop - max (unat (0 :: u64)) (unat pos)) (drop (unat pos - unat (0 :: u64)) (contents rs fs files)))"
    using read_ranges_contents [OF files(1) _ stop(3) word_zero_le] by blast
  then show ?thesis
    using stop(2) by (simp add: read_range_def MultiFile map_byte_range_def stop(1) files(3))
qed

lemma write_range_flat:
  assumes "storage_inv rs st fs" and "unat pos + length data \<le> unat (st_total_size st)"
  shows "\<exists>fs'. write_range rs st fs pos data = (fs', Ok ()) \<and> storage_inv rs st fs' \<and>
    flat rs st fs' = take (unat pos) (flat rs st fs) @ data @ drop (unat pos + length data) (flat rs st fs) \<and>
    (\<forall>x. x \<notin> (\<lambda>f. rs (sf_path f)) ` set (store_files st) \<longrightarrow> fs' x = fs x)"
proof (cases "st_mode st")
  case (SingleFile path)
  have fs: "fs (rs path) = Some (flat rs st fs)" by (rule storage_inv_single [OF assms(1) SingleFile])
  let ?new = "write_at (unat pos) data (flat rs st fs)"
  have len: "length (flat rs st fs) = unat (st_total_size st)" by (rule length_flat [OF assms(1)])
  have new: "?new = take (unat pos) (flat rs st fs) @ data @ drop (unat pos + length data) (flat rs st fs)"
    using assms(2) len by (simp add: write_at_def)
  have "length ?new = unat (st_total_size st)" unfolding new using assms(2) len by simp
  moreover have "flat rs st fs \<noteq> []"
    using assms(1) fs by (simp add: storage_inv_def store_files_def SingleFile files_ok_def)
  then have "unat (st_total_size st) \<noteq> 0" using len by (metis length_0_conv)
  ultimately have "storage_inv rs st (fs(rs path \<mapsto> ?new))"
    by (auto simp: storage_inv_def store_files_def SingleFile files_ok_def lens_def)
  moreover have "flat rs st (fs(rs path \<mapsto> ?new)) = ?new"
    by (simp add: flat_def store_files_def SingleFile contents_def file_data_def)
  moreover have "write_range rs st fs pos data = (fs(rs path \<mapsto> ?new), Ok ())"
    by (simp add: write_range_def SingleFile file_write_def fs)
  ultimately show ?thesis using new by (auto simp: store_files_def SingleFile)
next
  case (MultiFile files)
  obtain stop where stop: "add_u64 pos (of_nat (length data)) = Ok stop" "unat stop = unat pos + length data" "pos \<le> stop"
    using map_byte_range_Ok [OF assms(2)] .
  have files: "files_ok rs fs files" "lens files = unat (st_total_size st)" "flat rs st = (\<lambda>fs. contents rs fs files)"
    using assms(1) MultiFile by (simp_all add: storage_inv_def store_files_def flat_def fun_eq_iff)
  have "unat (0 :: u64) + lens files < 2 ^ 64" using files(2) total_less by simp
  moreover have "unat stop \<le> unat (0 :: u64) + lens files" using assms(2) files(2) stop(2) by simp
  moreover have "length data = unat stop - unat pos" using stop(2) by simp
  ultimately obtain ranges fs' where "map_range_loop pos stop 0 files = Ok ranges"
    "write_ranges rs fs data (unat (0 :: u64) - unat pos) ranges = (fs', Ok ())" "files_ok rs fs' files"
    "contents rs fs' files = take (unat pos - unat (0 :: u64)) (contents rs fs files)
       @ drop (unat (0 :: u64) - unat pos) data @ drop (unat stop - unat (0 :: u64)) (contents rs fs files)"
    "\<forall>x. x \<notin> (\<lambda>f. rs (sf_path f)) ` set files \<longrightarrow> fs' x = fs x"
    using write_ranges_contents [OF files(1) _ stop(3) word_zero_le] by blast
  then show ?thesis
    using stop(2) files(2)
    by (simp add: write_range_def MultiFile map_byte_range_def stop(1) files(3) storage_inv_def store_files_def)
qed

text \<open>
  C14. The file storage refines a flat array of bytes. On a prepared storage of non-empty distinct
  files, a read inside the torrent answers exactly those bytes of the concatenated files, and a
  write inside it succeeds, keeps every file's length, replaces exactly those bytes and changes no
  other file, however the range falls over the files.
\<close>

theorem storage_range_refines:
  assumes "storage_inv rs st fs" and "unat pos + length data \<le> unat (st_total_size st)"
  shows "read_range rs st fs pos (length data) data = Ok (take (length data) (drop (unat pos) (flat rs st fs))) \<and>
    (\<exists>fs'. write_range rs st fs pos data = (fs', Ok ()) \<and> storage_inv rs st fs' \<and>
      flat rs st fs' = take (unat pos) (flat rs st fs) @ data @ drop (unat pos + length data) (flat rs st fs) \<and>
      (\<forall>x. x \<notin> (\<lambda>f. rs (sf_path f)) ` set (store_files st) \<longrightarrow> fs' x = fs x))"
  using read_range_flat [OF assms refl] write_range_flat [OF assms] by blast

theorem storage_range_refines_witness:
  "\<exists>fs'. write_range id
      \<lparr>st_num_pieces = 1, st_piece_length = 4, st_total_size = 4,
       st_mode = MultiFile [\<lparr>sf_path = [97], sf_length = 1\<rparr>, \<lparr>sf_path = [98], sf_length = 3\<rparr>]\<rparr>
      [[97] \<mapsto> [0], [98] \<mapsto> [0, 0, 0]] 0 [5, 6] = (fs', Ok ()) \<and> fs' [97] = Some [5] \<and> fs' [98] = Some [6, 0, 0]"
proof -
  let ?files = "[\<lparr>sf_path = [97], sf_length = 1\<rparr>, \<lparr>sf_path = [98], sf_length = 3\<rparr>]"
  let ?st = "\<lparr>st_num_pieces = 1, st_piece_length = 4, st_total_size = 4, st_mode = MultiFile ?files\<rparr>"
  let ?fs = "[[97] \<mapsto> [0], [98] \<mapsto> [0, 0, 0]] :: bytes fs"
  have "storage_inv id ?st ?fs"
    by (simp add: storage_inv_def store_files_def files_ok_def lens_def)
  moreover have "unat (0 :: u64) + length [5, 6 :: byte] \<le> unat (st_total_size ?st)" by simp
  moreover have f0: "flat id ?st ?fs = [0, 0, 0, 0]"
    by (simp add: flat_def store_files_def contents_def file_data_def)
  ultimately obtain fs' where
    fs': "write_range id ?st ?fs 0 [5, 6] = (fs', Ok ())" "storage_inv id ?st fs'"
    "flat id ?st fs' = take (unat (0 :: u64)) [0, 0, 0, 0] @ [5, 6] @ drop (unat (0 :: u64) + length [5, 6 :: byte]) [0, 0, 0, 0]"
    using storage_range_refines [of id ?st ?fs 0 "[5, 6]"] unfolding f0 by blast
  then have "fs' [97] = Some [5] \<and> fs' [98] = Some [6, 0, 0]"
    by (auto simp: storage_inv_def store_files_def files_ok_def flat_def contents_def file_data_def length_Suc_conv numeral_eq_Suc)
  with fs'(1) show ?thesis by blast
qed


subsection \<open>The contract of a flat store\<close>

text \<open>
  What the clients of a storage rely on: reads and writes inside an array of bytes. The laws are
  those of \<open>read_range\<close> and \<open>write_range\<close>; the lemmas hold for every backend that has them.
\<close>

fun write_all :: "('s \<Rightarrow> nat \<Rightarrow> bytes \<Rightarrow> 's \<times> unit result) \<Rightarrow> (nat \<times> bytes) list \<Rightarrow> 's \<Rightarrow> 's \<times> unit result" where
  "write_all wr [] s = (s, Ok ())"
| "write_all wr ((pos, data) # ws) s =
     (case wr s pos data of (s', Ok _) \<Rightarrow> write_all wr ws s' | (s', r) \<Rightarrow> (s', r))"

locale flat_store =
  fixes inv :: "'s \<Rightarrow> bool" and bytes_of :: "'s \<Rightarrow> bytes"
    and rd :: "'s \<Rightarrow> nat \<Rightarrow> nat \<Rightarrow> bytes result" and wr :: "'s \<Rightarrow> nat \<Rightarrow> bytes \<Rightarrow> 's \<times> unit result"
  assumes rd_inside: "inv s \<Longrightarrow> pos + len \<le> length (bytes_of s) \<Longrightarrow>
      rd s pos len = Ok (take len (drop pos (bytes_of s)))"
    and wr_inside: "inv s \<Longrightarrow> pos + length data \<le> length (bytes_of s) \<Longrightarrow>
      \<exists>s'. wr s pos data = (s', Ok ()) \<and> inv s' \<and>
        bytes_of s' = take pos (bytes_of s) @ data @ drop (pos + length data) (bytes_of s)"
begin

lemma wr_nth:
  assumes "inv s" and "pos + length data \<le> length (bytes_of s)"
  shows "\<exists>s'. wr s pos data = (s', Ok ()) \<and> inv s' \<and> length (bytes_of s') = length (bytes_of s) \<and>
    (\<forall>k < length (bytes_of s). bytes_of s' ! k
       = (if pos \<le> k \<and> k < pos + length data then data ! (k - pos) else bytes_of s ! k))"
proof -
  from wr_inside [OF assms] obtain s' where "wr s pos data = (s', Ok ())" "inv s'"
    "bytes_of s' = take pos (bytes_of s) @ data @ drop (pos + length data) (bytes_of s)" by blast
  with assms(2) show ?thesis by (auto simp: nth_append)
qed

lemma read_after_write:
  assumes "inv s" and "pos + length data \<le> length (bytes_of s)"
  shows "\<exists>s'. wr s pos data = (s', Ok ()) \<and> rd s' pos (length data) = Ok data"
proof -
  from wr_inside [OF assms] obtain s' where s': "wr s pos data = (s', Ok ())" "inv s'"
    "bytes_of s' = take pos (bytes_of s) @ data @ drop (pos + length data) (bytes_of s)" by blast
  then have "pos + length data \<le> length (bytes_of s')" using assms(2) by simp
  from rd_inside [OF s'(2) this] s' assms(2) show ?thesis by auto
qed

text \<open>Writing parts of \<open>goal\<close> in any order and with repetitions makes every byte they cover right.\<close>

lemma write_all_parts:
  assumes "inv s" and "length goal = length (bytes_of s)"
    and "\<forall>(pos, data) \<in> set ws. pos + length data \<le> length goal \<and> take (length data) (drop pos goal) = data"
  shows "\<exists>s'. write_all wr ws s = (s', Ok ()) \<and> inv s' \<and> length (bytes_of s') = length goal \<and>
    (\<forall>k < length goal. (\<exists>(pos, data) \<in> set ws. pos \<le> k \<and> k < pos + length data) \<or> bytes_of s ! k = goal ! k
       \<longrightarrow> bytes_of s' ! k = goal ! k)"
  using assms
proof (induction ws arbitrary: s)
  case (Cons w ws)
  obtain pos data where w: "w = (pos, data)" by (cases w)
  have inside: "pos + length data \<le> length (bytes_of s)" and part: "take (length data) (drop pos goal) = data"
    using Cons.prems w by auto
  from wr_nth [OF Cons.prems(1) inside] obtain s1 where s1: "wr s pos data = (s1, Ok ())" "inv s1"
    "length (bytes_of s1) = length (bytes_of s)"
    "\<forall>k < length (bytes_of s). bytes_of s1 ! k
       = (if pos \<le> k \<and> k < pos + length data then data ! (k - pos) else bytes_of s ! k)" by blast
  have data: "data ! (k - pos) = goal ! k" if "pos \<le> k" "k < pos + length data" for k
  proof -
    have "data ! (k - pos) = take (length data) (drop pos goal) ! (k - pos)" by (simp only: part)
    then show ?thesis using that inside Cons.prems(2) by simp
  qed
  have "\<exists>s'. write_all wr ws s1 = (s', Ok ()) \<and> inv s' \<and> length (bytes_of s') = length goal \<and>
    (\<forall>k < length goal. (\<exists>(pos, data) \<in> set ws. pos \<le> k \<and> k < pos + length data) \<or> bytes_of s1 ! k = goal ! k
       \<longrightarrow> bytes_of s' ! k = goal ! k)"
    using Cons.prems s1(2,3) by (intro Cons.IH) auto
  then obtain s' where s': "write_all wr ws s1 = (s', Ok ())" "inv s'" "length (bytes_of s') = length goal"
    "\<And>k. k < length goal \<Longrightarrow> (\<exists>(pos, data) \<in> set ws. pos \<le> k \<and> k < pos + length data) \<or> bytes_of s1 ! k = goal ! k
       \<Longrightarrow> bytes_of s' ! k = goal ! k" by blast
  have "bytes_of s' ! k = goal ! k" if k: "k < length goal"
    "(\<exists>(pos, data) \<in> set (w # ws). pos \<le> k \<and> k < pos + length data) \<or> bytes_of s ! k = goal ! k" for k
  proof (rule s'(4) [OF k(1)])
    show "(\<exists>(pos, data) \<in> set ws. pos \<le> k \<and> k < pos + length data) \<or> bytes_of s1 ! k = goal ! k"
      using k s1(4) data Cons.prems(2) w by auto
  qed
  with s'(1-3) s1(1) w show ?case by auto
qed simp

lemma write_all_covering:
  assumes "inv s" and "length goal = length (bytes_of s)"
    and "\<forall>(pos, data) \<in> set ws. pos + length data \<le> length goal \<and> take (length data) (drop pos goal) = data"
    and "\<And>k. k < length goal \<Longrightarrow> \<exists>(pos, data) \<in> set ws. pos \<le> k \<and> k < pos + length data"
  shows "\<exists>s'. write_all wr ws s = (s', Ok ()) \<and> inv s' \<and> bytes_of s' = goal"
proof -
  from write_all_parts [OF assms(1-3)] obtain s' where s': "write_all wr ws s = (s', Ok ())" "inv s'"
    "length (bytes_of s') = length goal"
    "\<forall>k < length goal. (\<exists>(pos, data) \<in> set ws. pos \<le> k \<and> k < pos + length data) \<or> bytes_of s ! k = goal ! k
       \<longrightarrow> bytes_of s' ! k = goal ! k" by blast
  have "bytes_of s' = goal"
    by (rule nth_equalityI) (use s'(3,4) assms(4) in auto)
  with s' show ?thesis by blast
qed

end

text \<open>The file storage provides the contract.\<close>

definition fs_read :: "(rstring \<Rightarrow> 'f) \<Rightarrow> FileStorage \<Rightarrow> 'f fs \<Rightarrow> nat \<Rightarrow> nat \<Rightarrow> bytes result" where
  "fs_read rs st fs pos len = read_range rs st fs (of_nat pos) len (replicate len 0)"

definition fs_write :: "(rstring \<Rightarrow> 'f) \<Rightarrow> FileStorage \<Rightarrow> 'f fs \<Rightarrow> nat \<Rightarrow> bytes \<Rightarrow> 'f fs \<times> unit result" where
  "fs_write rs st fs pos data = write_range rs st fs (of_nat pos) data"

lemma unat_of_nat_u64: "n \<le> unat (t :: u64) \<Longrightarrow> unat (of_nat n :: u64) = n"
  using total_less [of t] by (simp add: unat_of_nat)

interpretation files: flat_store "storage_inv rs st" "flat rs st" "fs_read rs st" "fs_write rs st" for rs st
proof
  fix s pos len
  assume inv: "storage_inv rs st s" and "pos + len \<le> length (flat rs st s)"
  then have le: "pos + len \<le> unat (st_total_size st)" by (simp add: length_flat)
  then have "unat (of_nat pos :: u64) = pos" by (intro unat_of_nat_u64 [of _ "st_total_size st"]) simp
  with le show "fs_read rs st s pos len = Ok (take len (drop pos (flat rs st s)))"
    unfolding fs_read_def using read_range_flat [OF inv, of "of_nat pos" len] by simp
next
  fix s pos and data :: bytes
  assume inv: "storage_inv rs st s" and "pos + length data \<le> length (flat rs st s)"
  then have le: "pos + length data \<le> unat (st_total_size st)" by (simp add: length_flat)
  then have "unat (of_nat pos :: u64) = pos" by (intro unat_of_nat_u64 [of _ "st_total_size st"]) simp
  with le show "\<exists>s'. fs_write rs st s pos data = (s', Ok ()) \<and> storage_inv rs st s' \<and>
      flat rs st s' = take pos (flat rs st s) @ data @ drop (pos + length data) (flat rs st s)"
    unfolding fs_write_def using write_range_flat [OF inv, of "of_nat pos" data] by auto
qed

subsection \<open>Pieces\<close>

definition piece_of :: "FileStorage \<Rightarrow> bytes \<Rightarrow> u32 \<Rightarrow> bytes" where
  "piece_of st goal i =
     take (unat (st_piece_length st)) (drop (unat i * unat (st_piece_length st)) goal)"

fun write_pieces :: "(rstring \<Rightarrow> 'f) \<Rightarrow> FileStorage \<Rightarrow> (u32 \<times> bytes) list \<Rightarrow> 'f fs \<Rightarrow> 'f fs \<times> unit result" where
  "write_pieces rs st [] fs = (fs, Ok ())"
| "write_pieces rs st ((i, data) # ps) fs =
     (case write_piece rs st fs i data of (fs', Ok _) \<Rightarrow> write_pieces rs st ps fs' | (fs', r) \<Rightarrow> (fs', r))"

lemma piece_offset_Ok:
  assumes "unat i * unat (st_piece_length st) < 2 ^ 64"
  shows "piece_offset st i = Ok (of_nat (unat i * unat (st_piece_length st)))"
proof -
  have i: "unat (ucast i :: u64) = unat i" 
    by (simp add: unsigned_ucast_eq take_bit_nat_eq_self unsigned_less [THEN order_less_le_trans])
  have "(of_nat (unat i * unat (st_piece_length st)) :: u64) = ucast i * st_piece_length st"
    by (simp add: of_nat_mult)
  then show ?thesis
    using assms i by (simp add: piece_offset_def mul_u64_def checked_mul_def)
qed

lemma write_pieces_eq:
  assumes "\<forall>(i, data) \<in> set ps. unat i * unat (st_piece_length st) < 2 ^ 64"
  shows "write_pieces rs st ps fs
    = write_all (fs_write rs st) (map (\<lambda>(i, data). (unat i * unat (st_piece_length st), data)) ps) fs"
  using assms
proof (induction ps arbitrary: fs)
  case (Cons p ps)
  obtain i data where p: "p = (i, data)" by (cases p)
  then have "piece_offset st i = Ok (of_nat (unat i * unat (st_piece_length st)))"
    using Cons.prems by (intro piece_offset_Ok) auto
  then have "write_piece rs st fs i data = fs_write rs st fs (unat i * unat (st_piece_length st)) data" for fs
    by (simp add: write_piece_def fs_write_def)
  with Cons p show ?case by (auto split: prod.split result.split)
qed simp

text \<open>The number of pieces that the size and the piece length call for.\<close>

definition pieces_ok :: "FileStorage \<Rightarrow> bool" where
  "pieces_ok st \<longleftrightarrow> 0 < unat (st_piece_length st) \<and> 0 < unat (st_total_size st) \<and>
     (st_num_pieces st - 1) * unat (st_piece_length st) < unat (st_total_size st) \<and>
     unat (st_total_size st) \<le> st_num_pieces st * unat (st_piece_length st)"

lemma pieces_ok_less:
  assumes "pieces_ok st" and "unat i < st_num_pieces st"
  shows "unat i * unat (st_piece_length st) < unat (st_total_size st)"
proof -
  have "unat i \<le> st_num_pieces st - 1" using assms(2) by simp
  then have "unat i * unat (st_piece_length st) \<le> (st_num_pieces st - 1) * unat (st_piece_length st)"
    by (rule mult_right_mono) simp
  with assms(1) show ?thesis unfolding pieces_ok_def by linarith
qed

lemma piece_len_of:
  assumes "pieces_ok st" and "unat i < st_num_pieces st" and "length goal = unat (st_total_size st)"
  shows "\<exists>len. piece_len_for_index st i = Ok len \<and> unat len = length (piece_of st goal i)"
proof -
  let ?pl = "unat (st_piece_length st)"
  have lt: "unat i * ?pl < unat (st_total_size st)" by (rule pieces_ok_less [OF assms(1,2)])
  then have "unat i * ?pl < 2 ^ 64" using total_less [of "st_total_size st"] by linarith
  then have off: "mul_u64 (ucast i) (st_piece_length st) = Ok (of_nat (unat i * ?pl))"
    using piece_offset_Ok by (simp add: piece_offset_def)
  have start: "unat (of_nat (unat i * ?pl) :: u64) = unat i * ?pl"
    using lt by (intro unat_of_nat_u64 [of _ "st_total_size st"]) simp
  have len: "length (piece_of st goal i) = min (unat (st_total_size st) - unat i * ?pl) ?pl"
    by (simp add: piece_of_def assms(3))
  show ?thesis
  proof (cases "unat i = st_num_pieces st - 1")
    case True
    have "unat (st_total_size st) \<le> (unat i + 1) * ?pl"
      using assms(1,2) True by (simp add: pieces_ok_def)
    then have "length (piece_of st goal i) = unat (st_total_size st) - unat i * ?pl"
      unfolding len by simp
    moreover have "(of_nat (unat i * ?pl) :: u64) \<le> st_total_size st"
      using lt start by (simp add: word_le_nat_alt)
    ultimately show ?thesis
      using True assms(2) off start by (simp add: piece_len_for_index_def sub_u64_def unat_sub)
  next
    case False
    then have "unat i + 1 \<le> st_num_pieces st - 1" using assms(2) by simp
    then have "(unat i + 1) * ?pl \<le> (st_num_pieces st - 1) * ?pl" by (rule mult_right_mono) simp
    also have "\<dots> < unat (st_total_size st)" using assms(1) by (simp add: pieces_ok_def)
    finally have "length (piece_of st goal i) = ?pl" unfolding len by simp
    then show ?thesis
      using False assms(2) off by (simp add: piece_len_for_index_def)
  qed
qed


lemma take_length_take: "take (length (take n xs)) xs = take n xs"
  by (cases "n \<le> length xs") simp_all

lemma piece_part:
  assumes "pieces_ok st" and "unat i < st_num_pieces st" and "length goal = unat (st_total_size st)"
  shows "unat i * unat (st_piece_length st) + length (piece_of st goal i) \<le> length goal"
    "take (length (piece_of st goal i)) (drop (unat i * unat (st_piece_length st)) goal) = piece_of st goal i"
  using pieces_ok_less [OF assms(1,2)] assms(3) by (simp add: piece_of_def) (simp only: piece_of_def take_length_take)

lemma byte_in_piece:
  assumes "pieces_ok st" and "k < unat (st_total_size st)" and "length goal = unat (st_total_size st)"
    and "unat ` set js = {..<st_num_pieces st}"
  shows "\<exists>i \<in> set js. unat i * unat (st_piece_length st) \<le> k \<and>
    k < unat i * unat (st_piece_length st) + length (piece_of st goal i)"
proof -
  let ?pl = "unat (st_piece_length st)"
  have pl: "0 < ?pl" using assms(1) by (simp add: pieces_ok_def)
  have "k < st_num_pieces st * ?pl" using assms(1,2) by (simp add: pieces_ok_def)
  then have "k div ?pl < st_num_pieces st" using pl by (simp add: div_less_iff_less_mult)
  then have "k div ?pl \<in> unat ` set js" using assms(4) by simp
  then obtain i where i: "i \<in> set js" "unat i = k div ?pl" by force
  have "k = k div ?pl * ?pl + k mod ?pl" by simp
  moreover have "k mod ?pl < ?pl" using pl by simp
  ultimately have "unat i * ?pl \<le> k" "k < unat i * ?pl + ?pl" unfolding i(2) by linarith+
  with i(1) assms(2,3) show ?thesis by (intro bexI [of _ i]) (auto simp: piece_of_def)
qed

text \<open>A download in any order. When every piece of some data is written, in any order and however
  often, the storage holds exactly that data: each file its own bytes, and each piece reads back as
  the piece.
\<close>

theorem pieces_any_order:
  assumes "storage_inv rs st fs" and "pieces_ok st" and "length goal = unat (st_total_size st)"
    and "unat ` set js = {..<st_num_pieces st}"
  shows "\<exists>fs'. write_pieces rs st (map (\<lambda>i. (i, piece_of st goal i)) js) fs = (fs', Ok ()) \<and>
    storage_inv rs st fs' \<and> flat rs st fs' = goal \<and>
    list_all (\<lambda>i. read_piece rs st fs' i (piece_of st goal i) = Ok (piece_of st goal i)) js"
proof -
  let ?pl = "unat (st_piece_length st)"
  let ?ps = "map (\<lambda>i. (i, piece_of st goal i)) js"
  have idx: "unat i < st_num_pieces st" if "i \<in> set js" for i using that assms(4) by force
  have bound: "unat i * ?pl < 2 ^ 64" if "i \<in> set js" for i
    using pieces_ok_less [OF assms(2) idx [OF that]] total_less [of "st_total_size st"] by linarith
  let ?ws = "map (\<lambda>(i, data). (unat i * ?pl, data)) ?ps"
  have eq: "write_pieces rs st ?ps fs = write_all (fs_write rs st) ?ws fs"
    using bound by (intro write_pieces_eq) auto
  have "\<exists>fs'. write_all (fs_write rs st) ?ws fs = (fs', Ok ()) \<and> storage_inv rs st fs' \<and> flat rs st fs' = goal"
  proof (rule files.write_all_covering [OF assms(1)])
    show "length goal = length (flat rs st fs)" using assms(3) length_flat [OF assms(1)] by simp
    show "\<forall>(pos, data) \<in> set ?ws. pos + length data \<le> length goal \<and> take (length data) (drop pos goal) = data"
      using piece_part [OF assms(2) idx assms(3)] by auto
    show "\<exists>(pos, data) \<in> set ?ws. pos \<le> k \<and> k < pos + length data" if "k < length goal" for k
      using byte_in_piece [OF assms(2) _ assms(3,4), of k] that assms(3) by auto
  qed
  then obtain fs' where fs': "write_pieces rs st ?ps fs = (fs', Ok ())" "storage_inv rs st fs'" "flat rs st fs' = goal"
    unfolding eq by blast
  have "read_piece rs st fs' i (piece_of st goal i) = Ok (piece_of st goal i)" if mem: "i \<in> set js" for i
  proof -
    obtain len where len: "piece_len_for_index st i = Ok len" "unat len = length (piece_of st goal i)"
      using piece_len_of [OF assms(2) idx [OF mem] assms(3)] by blast
    have le: "unat i * ?pl \<le> unat (st_total_size st)" using pieces_ok_less [OF assms(2) idx [OF mem]] by simp
    have pos: "unat (of_nat (unat i * ?pl) :: u64) = unat i * ?pl" by (rule unat_of_nat_u64 [OF le])
    have "unat (of_nat (unat i * ?pl) :: u64) + length (piece_of st goal i) \<le> unat (st_total_size st)"
      unfolding pos using piece_part(1) [OF assms(2) idx [OF mem] assms(3)] assms(3) by simp
    from read_range_flat [OF fs'(2) this refl] show ?thesis
      using piece_offset_Ok [OF bound [OF mem]] len piece_part(2) [OF assms(2) idx [OF mem] assms(3)]
      by (simp add: read_piece_def pos fs'(3) del: of_nat_mult)
  qed
  with fs' show ?thesis by (auto simp: list_all_iff)
qed

theorem pieces_any_order_witness:
  "\<exists>fs'. write_pieces id
      \<lparr>st_num_pieces = 2, st_piece_length = 2, st_total_size = 3,
       st_mode = MultiFile [\<lparr>sf_path = [97], sf_length = 1\<rparr>, \<lparr>sf_path = [98], sf_length = 2\<rparr>]\<rparr>
      [(1, [9]), (0, [7, 8])] [[97] \<mapsto> [0], [98] \<mapsto> [0, 0]] = (fs', Ok ()) \<and> fs' [97] = Some [7] \<and> fs' [98] = Some [8, 9]"
proof -
  let ?files = "[\<lparr>sf_path = [97], sf_length = 1\<rparr>, \<lparr>sf_path = [98], sf_length = 2\<rparr>]"
  let ?st = "\<lparr>st_num_pieces = 2, st_piece_length = 2, st_total_size = 3, st_mode = MultiFile ?files\<rparr>"
  let ?fs = "[[97] \<mapsto> [0], [98] \<mapsto> [0, 0]] :: bytes fs"
  have inv: "storage_inv id ?st ?fs" by (simp add: storage_inv_def store_files_def files_ok_def lens_def)
  have ok: "pieces_ok ?st" by (simp add: pieces_ok_def)
  have len: "length [7, 8, 9 :: byte] = unat (st_total_size ?st)" by simp
  have idx: "unat ` set [1, 0 :: u32] = {..<st_num_pieces ?st}" by (auto simp: numeral_eq_Suc less_Suc_eq)
  have parts: "map (\<lambda>i. (i, piece_of ?st [7, 8, 9] i)) [1, 0 :: u32] = [(1, [9]), (0, [7, 8])]"
    by (simp add: piece_of_def)
  from pieces_any_order [OF inv ok len idx] obtain fs' where
    fs': "write_pieces id ?st [(1, [9]), (0, [7, 8])] ?fs = (fs', Ok ())" "storage_inv id ?st fs'" "flat id ?st fs' = [7, 8, 9]"
    unfolding parts by blast
  then have "fs' [97] = Some [7] \<and> fs' [98] = Some [8, 9]"
    by (auto simp: storage_inv_def store_files_def files_ok_def flat_def contents_def file_data_def length_Suc_conv numeral_eq_Suc)
  with fs'(1) show ?thesis by blast
qed

subsection \<open>The default \<open>write_piece\<close>\<close>

lemma contents_inj:
  assumes "files_ok rs fs files" and "files_ok rs fs' files" and "contents rs fs files = contents rs fs' files"
    and "f \<in> set files"
  shows "fs (rs (sf_path f)) = fs' (rs (sf_path f))"
  using assms
proof (induction files)
  case (Cons g files)
  obtain bs bs' where b: "fs (rs (sf_path g)) = Some bs" "fs' (rs (sf_path g)) = Some bs'" "length bs = length bs'"
    using Cons.prems(1,2) by (auto simp: files_ok_Cons)
  then have "bs = bs' \<and> contents rs fs files = contents rs fs' files"
    using Cons.prems(3) by (simp add: contents_Cons file_data_def)
  with Cons b show ?case by (auto simp: files_ok_Cons)
qed simp

lemma slice_chunks_Nil [simp]: "slice_chunks n [] = []"
  by (subst slice_chunks.simps) simp

lemma slice_chunks_Cons: "0 < n \<Longrightarrow> xs \<noteq> [] \<Longrightarrow> slice_chunks n xs = take n xs # slice_chunks n (drop n xs)"
  by (subst slice_chunks.simps) simp

text \<open>A write in two steps is one write of both parts.\<close>

lemma splice_twice:
  assumes "p + length a + length b \<le> length F"
  shows "take (p + length a) (take p F @ a @ drop (p + length a) F) @ b
      @ drop (p + length a + length b) (take p F @ a @ drop (p + length a) F)
    = take p F @ (a @ b) @ drop (p + length (a @ b)) F"
  using assms by (simp add: ac_simps)

lemma write_block_range:
  assumes "unat i * unat (st_piece_length st) + unat pos < 2 ^ 64"
  shows "write_block rs st fs i pos data = write_range rs st fs (of_nat (unat i * unat (st_piece_length st) + unat pos)) data"
proof -
  let ?o = "unat i * unat (st_piece_length st)"
  have "piece_offset st i = Ok (of_nat ?o)" using assms by (intro piece_offset_Ok) simp
  moreover have pos: "unat (ucast pos :: u64) = unat pos"
    by (simp add: unsigned_ucast_eq take_bit_nat_eq_self unsigned_less [THEN order_less_le_trans])
  moreover have o: "unat (of_nat ?o :: u64) = ?o" using assms by (simp add: unat_of_nat del: of_nat_mult)
  moreover have "(of_nat ?o :: u64) + ucast pos = of_nat (?o + unat pos)" by (simp del: of_nat_mult)
  moreover have "LENGTH(64) = 64" by simp
  ultimately have "block_offset st i pos = Ok (of_nat (?o + unat pos))"
    unfolding block_offset_def add_u64_def checked_add_def using assms
    by (simp only: and_then.simps if_True option.case)
  then show ?thesis by (simp only: write_block_def result.case)
qed

lemma default_write_blocks_flat:
  assumes "storage_inv rs st fs" and "unat i * unat (st_piece_length st) + k * 16384 + length data \<le> unat (st_total_size st)"
    and "k * 16384 + length data \<le> 2 ^ 32"
  shows "\<exists>fs'. default_write_blocks (write_block rs st) i k (slice_chunks 16384 data) fs = (fs', Ok ()) \<and>
    storage_inv rs st fs' \<and>
    flat rs st fs' = take (unat i * unat (st_piece_length st) + k * 16384) (flat rs st fs) @ data
      @ drop (unat i * unat (st_piece_length st) + k * 16384 + length data) (flat rs st fs) \<and>
    (\<forall>x. x \<notin> (\<lambda>f. rs (sf_path f)) ` set (store_files st) \<longrightarrow> fs' x = fs x)"
  using assms
proof (induction "length data" arbitrary: data k fs rule: less_induct)
  case less
  let ?p = "unat i * unat (st_piece_length st) + k * 16384"
  show ?case
  proof (cases "data = []")
    case True
    with less.prems(1) show ?thesis by simp
  next
    case False
    let ?a = "take 16384 data" let ?b = "drop 16384 data"
    have k: "k * 16384 < 2 ^ 32" using less.prems(3) False by (cases data) auto
    then have pos: "unat (of_nat (k * 16384) :: u32) = k * 16384" by (simp add: unat_of_nat del: of_nat_mult)
    have le: "?p + length ?a \<le> unat (st_total_size st)" using less.prems(2) by simp
    then have "?p < 2 ^ 64" using total_less [of "st_total_size st"] by linarith
    then have block: "write_block rs st fs i (of_nat (k * 16384)) ?a = write_range rs st fs (of_nat ?p) ?a"
      using write_block_range [of i st "of_nat (k * 16384)"] unfolding pos by blast
    have off: "unat (of_nat ?p :: u64) = ?p"
      using le by (intro unat_of_nat_u64 [of _ "st_total_size st"]) simp
    from write_range_flat [OF less.prems(1), of "of_nat ?p" ?a] le obtain fs1 where
      fs1: "write_range rs st fs (of_nat ?p) ?a = (fs1, Ok ())" "storage_inv rs st fs1"
      "flat rs st fs1 = take ?p (flat rs st fs) @ ?a @ drop (?p + length ?a) (flat rs st fs)"
      "\<forall>x. x \<notin> (\<lambda>f. rs (sf_path f)) ` set (store_files st) \<longrightarrow> fs1 x = fs x"
      unfolding off by blast
    have step: "default_write_blocks (write_block rs st) i k (slice_chunks 16384 data) fs
        = default_write_blocks (write_block rs st) i (k + 1) (slice_chunks 16384 ?b) fs1"
      using False block fs1(1) by (simp add: slice_chunks_Cons del: of_nat_mult)
    show ?thesis
    proof (cases "?b = []")
      case True
      then have "?a = data" by simp
      with fs1 show ?thesis unfolding step True by simp
    next
      case cont: False
      then have "length ?a = 16384" by simp
      then have p1: "?p + length ?a = unat i * unat (st_piece_length st) + (k + 1) * 16384" by simp
      have "length ?b < length data" using False by simp
      moreover have "unat i * unat (st_piece_length st) + (k + 1) * 16384 + length ?b \<le> unat (st_total_size st)"
        "(k + 1) * 16384 + length ?b \<le> 2 ^ 32"
        using less.prems(2,3) cont by simp_all
      ultimately obtain fs' where
        fs': "default_write_blocks (write_block rs st) i (k + 1) (slice_chunks 16384 ?b) fs1 = (fs', Ok ())"
        "storage_inv rs st fs'"
        "flat rs st fs' = take (?p + length ?a) (flat rs st fs1) @ ?b @ drop (?p + length ?a + length ?b) (flat rs st fs1)"
        "\<forall>x. x \<notin> (\<lambda>f. rs (sf_path f)) ` set (store_files st) \<longrightarrow> fs' x = fs1 x"
        using less.hyps [of ?b fs1 "k + 1"] fs1(2) unfolding p1 by blast
      have "?p + length ?a + length ?b \<le> length (flat rs st fs)"
        using less.prems(2) length_flat [OF less.prems(1)] by simp
      from splice_twice [OF this] have "flat rs st fs' = take ?p (flat rs st fs) @ data @ drop (?p + length data) (flat rs st fs)"
        unfolding fs'(3) fs1(3) by (simp only: append_take_drop_id)
      with fs' fs1(4) show ?thesis unfolding step by auto
    qed
  qed
qed

text \<open>The override of \<open>write_piece\<close> agrees with the default of the trait. Writing a piece of up to
  4 GiB block by block, 16 KiB at a time, and writing it at once have the same result and leave
  the same file system.
\<close>

theorem default_write_piece_eq:
  assumes "storage_inv rs st fs" and "unat i * unat (st_piece_length st) + length data \<le> unat (st_total_size st)"
    and "length data \<le> 2 ^ 32"
  shows "default_write_piece (write_block rs st) i data fs = write_piece rs st fs i data"
proof -
  let ?p = "unat i * unat (st_piece_length st)"
  obtain fs1 where fs1: "default_write_piece (write_block rs st) i data fs = (fs1, Ok ())" "storage_inv rs st fs1"
    "flat rs st fs1 = take ?p (flat rs st fs) @ data @ drop (?p + length data) (flat rs st fs)"
    "\<forall>x. x \<notin> (\<lambda>f. rs (sf_path f)) ` set (store_files st) \<longrightarrow> fs1 x = fs x"
    using default_write_blocks_flat [OF assms(1), of i 0 data] assms(2,3) by (auto simp: default_write_piece_def)
  have "?p < 2 ^ 64" using assms(2) total_less [of "st_total_size st"] by linarith
  then have piece: "write_piece rs st fs i data = write_range rs st fs (of_nat ?p) data"
    by (simp add: write_piece_def piece_offset_Ok)
  have off: "unat (of_nat ?p :: u64) = ?p"
    using assms(2) by (intro unat_of_nat_u64 [of _ "st_total_size st"]) simp
  from write_range_flat [OF assms(1), of "of_nat ?p" data] assms(2) obtain fs2 where
    fs2: "write_range rs st fs (of_nat ?p) data = (fs2, Ok ())" "storage_inv rs st fs2"
    "flat rs st fs2 = take ?p (flat rs st fs) @ data @ drop (?p + length data) (flat rs st fs)"
    "\<forall>x. x \<notin> (\<lambda>f. rs (sf_path f)) ` set (store_files st) \<longrightarrow> fs2 x = fs x"
    unfolding off by blast
  have "fs1 = fs2"
  proof
    fix x
    show "fs1 x = fs2 x"
    proof (cases "x \<in> (\<lambda>f. rs (sf_path f)) ` set (store_files st)")
      case True
      then obtain f where f: "f \<in> set (store_files st)" "x = rs (sf_path f)" by blast
      have "contents rs fs1 (store_files st) = contents rs fs2 (store_files st)"
        using fs1(3) fs2(3) by (simp add: flat_def)
      from contents_inj [OF _ _ this f(1)] fs1(2) fs2(2) f(2) show ?thesis by (simp add: storage_inv_def)
    qed (use fs1(4) fs2(4) in auto)
  qed
  then show ?thesis using fs1(1) fs2(1) piece by simp
qed


theorem default_write_piece_eq_witness:
  "default_write_piece (write_block id
      \<lparr>st_num_pieces = 2, st_piece_length = 2, st_total_size = 3, st_mode = SingleFile [97]\<rparr>) 1 [9] [[97] \<mapsto> [0, 0, 0]]
   = write_piece id \<lparr>st_num_pieces = 2, st_piece_length = 2, st_total_size = 3, st_mode = SingleFile [97]\<rparr>
      [[97] \<mapsto> [0, 0, 0]] 1 [9]"
proof (rule default_write_piece_eq)
  show "storage_inv id \<lparr>st_num_pieces = 2, st_piece_length = 2, st_total_size = 3, st_mode = SingleFile [97]\<rparr>
      [[97] \<mapsto> [0, 0, 0]]"
    by (simp add: storage_inv_def store_files_def files_ok_def lens_def)
qed simp_all

subsection \<open>Preparing the files\<close>

lemma sum_lengths_lens:
  "sum_lengths acc files = Ok t \<Longrightarrow> unat t = unat acc + sum_list (map (\<lambda>f. unat (fi_length f)) files)"
  by (induction files arbitrary: acc)
    (auto simp: add_u64_def dest!: unat_checked_add split: option.splits)

lemma file_storage_new_lens:
  assumes "file_storage_new i dir = Ok st"
  shows "lens (store_files st) = unat (st_total_size st)"
proof -
  obtain t where t: "total_size i = Ok t" using assms by (auto simp: file_storage_new_def)
  show ?thesis
  proof (cases "mode i")
    case (Single name len)
    with assms show ?thesis by (auto simp: file_storage_new_def store_files_def lens_def)
  next
    case (Multiple name files)
    with t have "unat t = sum_list (map (\<lambda>f. unat (fi_length f)) files)"
      using sum_lengths_lens [of 0 files t] by (simp add: total_size_def)
    with assms t Multiple show ?thesis
      by (auto simp: file_storage_new_def store_files_def lens_def comp_def Let_def)
  qed
qed

lemma create_files_spec:
  assumes "distinct (map (\<lambda>f. rs (sf_path f)) files)"
  shows "if \<forall>f \<in> set files. fs (rs (sf_path f)) = None
    then \<exists>fs'. create_files rs fs files = (fs', Ok ()) \<and>
      (\<forall>f \<in> set files. fs' (rs (sf_path f)) = Some (replicate (unat (sf_length f)) 0)) \<and>
      (\<forall>x. x \<notin> (\<lambda>f. rs (sf_path f)) ` set files \<longrightarrow> fs' x = fs x)
    else snd (create_files rs fs files) = Err Io"
  using assms
proof (induction files arbitrary: fs)
  case (Cons f files)
  show ?case
  proof (cases "fs (rs (sf_path f))")
    case None
    let ?fs = "fs(rs (sf_path f) \<mapsto> replicate (unat (sf_length f)) 0)"
    have same: "?fs (rs (sf_path g)) = fs (rs (sf_path g))" if "g \<in> set files" for g
      using Cons.prems that by (auto simp: fun_upd_def image_iff)
    from Cons.IH [of ?fs] Cons.prems have IH: "if \<forall>g \<in> set files. fs (rs (sf_path g)) = None
      then \<exists>fs'. create_files rs ?fs files = (fs', Ok ()) \<and>
        (\<forall>g \<in> set files. fs' (rs (sf_path g)) = Some (replicate (unat (sf_length g)) 0)) \<and>
        (\<forall>x. x \<notin> (\<lambda>f. rs (sf_path f)) ` set files \<longrightarrow> fs' x = ?fs x)
      else snd (create_files rs ?fs files) = Err Io"
      using same by (simp cong: ball_cong)
    have fresh: "rs (sf_path f) \<notin> (\<lambda>f. rs (sf_path f)) ` set files" using Cons.prems by (auto simp: image_iff)
    show ?thesis
    proof (cases "\<forall>g \<in> set files. fs (rs (sf_path g)) = None")
      case True
      with IH obtain fs' where "create_files rs ?fs files = (fs', Ok ())"
        "\<forall>g \<in> set files. fs' (rs (sf_path g)) = Some (replicate (unat (sf_length g)) 0)"
        "\<forall>x. x \<notin> (\<lambda>f. rs (sf_path f)) ` set files \<longrightarrow> fs' x = ?fs x" by auto
      with None True fresh show ?thesis by (auto simp: file_create_def)
    next
      case False
      with IH None show ?thesis by (auto simp: file_create_def)
    qed
  qed (simp add: file_create_def)
qed simp

lemma prepare_storage_files:
  "prepare_storage rs st fs = create_files rs fs (store_files st)"
  by (cases "st_mode st") (simp_all add: prepare_storage_def store_files_def file_create_def split: option.split)

text \<open>Preparing a storage. For the layout of a torrent whose files are not empty and are all
  different, \<open>prepare\<close> creates every file with its length of zeros and touches no other file, and
  the invariant of the reads and writes holds from then on; when one of the files exists already it
  ends with an \<open>Io\<close> error instead of overwriting it.
\<close>

theorem prepare_storage_spec:
  assumes "file_storage_new i dir = Ok st" and "distinct (map (\<lambda>f. rs (sf_path f)) (store_files st))"
    and "list_all (\<lambda>f. sf_length f \<noteq> 0) (store_files st)"
  shows "if list_all (\<lambda>f. fs (rs (sf_path f)) = None) (store_files st)
    then \<exists>fs'. prepare_storage rs st fs = (fs', Ok ()) \<and> storage_inv rs st fs' \<and>
      flat rs st fs' = replicate (unat (st_total_size st)) 0 \<and>
      (\<forall>x. x \<notin> (\<lambda>f. rs (sf_path f)) ` set (store_files st) \<longrightarrow> fs' x = fs x)
    else snd (prepare_storage rs st fs) = Err Io"
proof (cases "list_all (\<lambda>f. fs (rs (sf_path f)) = None) (store_files st)")
  case True
  then obtain fs' where fs': "prepare_storage rs st fs = (fs', Ok ())"
    "\<forall>f \<in> set (store_files st). fs' (rs (sf_path f)) = Some (replicate (unat (sf_length f)) 0)"
    "\<forall>x. x \<notin> (\<lambda>f. rs (sf_path f)) ` set (store_files st) \<longrightarrow> fs' x = fs x"
    using create_files_spec [OF assms(2), of fs] by (auto simp: prepare_storage_files list_all_iff)
  have "unat (sf_length f) \<noteq> 0" if "f \<in> set (store_files st)" for f
    using assms(3) that by (simp add: list_all_iff unat_eq_0)
  then have inv: "storage_inv rs st fs'"
    using fs'(2) assms(2) file_storage_new_lens [OF assms(1)] by (auto simp: storage_inv_def files_ok_def)
  have "contents rs fs' files = replicate (lens files) 0"
    if "\<forall>f \<in> set files. fs' (rs (sf_path f)) = Some (replicate (unat (sf_length f)) 0)" for files
    using that by (induction files) (simp_all add: contents_def lens_def file_data_def replicate_add)
  then have "flat rs st fs' = replicate (unat (st_total_size st)) 0"
    using fs'(2) file_storage_new_lens [OF assms(1)] by (simp add: flat_def)
  with True fs' inv show ?thesis by auto
next
  case False
  with create_files_spec [OF assms(2), of fs] show ?thesis
    by (auto simp: prepare_storage_files list_all_iff)
qed

theorem prepare_storage_spec_witness:
  "\<exists>st fs'. file_storage_new \<lparr>piece_length = 2, pieces = [[]], mode = Multiple [100] [\<lparr>fi_length = 2, fi_path = [[97]]\<rparr>],
        raw_info = RawHash []\<rparr> [47] = Ok st \<and>
     prepare_storage id st Map.empty = (fs', Ok ()) \<and> fs' [47, 100, 47, 97] = Some [0, 0]"
proof -
  let ?i = "\<lparr>piece_length = 2, pieces = [[]], mode = Multiple [100] [\<lparr>fi_length = 2, fi_path = [[97]]\<rparr>], raw_info = RawHash []\<rparr>"
  let ?st = "\<lparr>st_num_pieces = 1, st_piece_length = 2, st_total_size = 2,
     st_mode = MultiFile [\<lparr>sf_path = [47, 100, 47, 97], sf_length = 2\<rparr>]\<rparr>"
  have new: "file_storage_new ?i [47] = Ok ?st"
    by (simp add: file_storage_new_def total_size_def add_u64_def checked_add_def info_num_pieces_def path_push_def)
  have files: "distinct (map (\<lambda>f. id (sf_path f)) (store_files ?st))" "list_all (\<lambda>f. sf_length f \<noteq> 0) (store_files ?st)"
    "list_all (\<lambda>f. (Map.empty :: bytes fs) (id (sf_path f)) = None) (store_files ?st)"
    by (simp_all add: store_files_def)
  from prepare_storage_spec [OF new files(1,2), of Map.empty] files(3) obtain fs' where
    fs': "prepare_storage id ?st Map.empty = (fs', Ok ())" "storage_inv id ?st fs'"
    "flat id ?st fs' = replicate (unat (st_total_size ?st)) 0" by auto
  then have "fs' [47, 100, 47, 97] = Some (replicate 2 0)"
    by (auto simp: storage_inv_def store_files_def files_ok_def flat_def contents_def file_data_def)
  then have "fs' [47, 100, 47, 97] = Some [0, 0]" by (simp add: numeral_2_eq_2)
  with new fs'(1) show ?thesis by blast
qed

subsection \<open>Empty files and absolute names\<close>

text \<open>Empty files lose data. A file of length 0 strictly inside a range is mapped to a range of
  length 0, on which both loops stop: the write reports success although the bytes behind the empty
  file are not written, and the read leaves the rest of the buffer as it was and reports success.
\<close>

theorem empty_file_stops_io:
  "let files = [\<lparr>sf_path = [97], sf_length = 2\<rparr>, \<lparr>sf_path = [98], sf_length = 0\<rparr>, \<lparr>sf_path = [99], sf_length = 2\<rparr>];
       st = \<lparr>st_num_pieces = 1, st_piece_length = 4, st_total_size = 4, st_mode = MultiFile files\<rparr>;
       fs = [[97] \<mapsto> [0, 0], [98] \<mapsto> [], [99] \<mapsto> [5, 6]]
   in write_piece id st fs 0 [1, 2, 3, 4] = (fs([97] \<mapsto> [1, 2]), Ok ()) \<and>
      read_piece id st fs 0 [9, 9, 9, 9] = Ok [0, 0, 9, 9]"
proof -
  have add: "add_u64 a b = Ok (a + b)" if "unat a + unat b < 2 ^ 64" for a b
    using that by (simp add: add_u64_def checked_add_def)
  have mul: "mul_u64 0 4 = Ok 0" by (simp add: mul_u64_def checked_mul_def)
  show ?thesis
    by (simp add: Let_def write_piece_def read_piece_def piece_offset_def piece_len_for_index_def mul sub_u64_def
        write_range_def read_range_def map_byte_range_def add file_write_def file_read_def write_at_def)
qed

text \<open>
  Names from the torrent can leave the download directory. An absolute file name replaces the
  download directory, and components that are not plain names are appended as they are, so the
  layout of \<open>../x\<close> is outside of it too.
\<close>

theorem absolute_name_escapes:
  assumes "mode i = Single (47 # name) len"
  shows "\<exists>st. file_storage_new i dir = Ok st \<and> st_mode st = SingleFile (47 # name)"
  using assms by (simp add: file_storage_new_def total_size_def path_push_def)

theorem absolute_name_escapes_witness:
  "\<exists>st. file_storage_new \<lparr>piece_length = 2, pieces = [], mode = Single [47, 120] 1, raw_info = RawHash []\<rparr> [47, 100] = Ok st \<and>
     st_mode st = SingleFile [47, 120]"
  by (rule absolute_name_escapes) simp


subsection \<open>A store of pieces\<close>

text \<open>
  What a client that writes whole pieces relies on: a piece of the right length is stored, and no
  other piece changes.
\<close>

locale piece_store =
  fixes ok :: "'st \<Rightarrow> bool" and slot :: "u32 \<Rightarrow> bool" and size_of :: "u32 \<Rightarrow> nat"
    and stored :: "'st \<Rightarrow> u32 \<Rightarrow> bytes" and put :: "'st \<Rightarrow> u32 \<Rightarrow> bytes \<Rightarrow> 'st \<times> unit result"
  assumes put_ok: "ok st \<Longrightarrow> slot i \<Longrightarrow> length data = size_of i \<Longrightarrow>
    \<exists>st'. put st i data = (st', Ok ()) \<and> ok st' \<and> stored st' i = data \<and> (\<forall>j. j \<noteq> i \<longrightarrow> stored st' j = stored st j)"

definition piece_size :: "FileStorage \<Rightarrow> u32 \<Rightarrow> nat" where
  "piece_size st i = min (unat (st_total_size st) - unat i * unat (st_piece_length st)) (unat (st_piece_length st))"

definition stored_piece :: "(rstring \<Rightarrow> 'f) \<Rightarrow> FileStorage \<Rightarrow> 'f fs \<Rightarrow> u32 \<Rightarrow> bytes" where
  "stored_piece rs st fs i = piece_of st (flat rs st fs) i"

lemma splice_pieces:
  fixes flat :: "'a list"
  assumes "i * pl < length flat" and "length d = min (length flat - i * pl) pl"
  shows "take pl (drop (j * pl) (take (i * pl) flat @ d @ drop (i * pl + length d) flat)) =
    (if j = i then d else take pl (drop (j * pl) flat))"
proof -
  consider "j = i" | "j < i" | "i < j" by linarith
  then show ?thesis
  proof cases
    case 1
    with assms show ?thesis by (auto simp: min_def)
  next
    case 2
    then have "(j + 1) * pl \<le> i * pl" by (intro mult_right_mono) simp_all
    then have le: "j * pl + pl \<le> i * pl" by simp
    have "take pl (drop (j * pl) (take (i * pl) flat @ R)) = take pl (drop (j * pl) flat)" for R
    proof -
      have "take pl (drop (j * pl) (take (i * pl) flat @ R)) = take pl (drop (j * pl) (take (i * pl) flat))"
        using le assms(1) by simp
      also have "\<dots> = take pl (drop (j * pl) flat)" using le by (simp add: drop_take)
      finally show ?thesis .
    qed
    from this [of "d @ drop (i * pl + length d) flat"] 2 show ?thesis by (simp only: if_False less_irrefl less_imp_neq)
  next
    case 3
    then have "(i + 1) * pl \<le> j * pl" by (intro mult_right_mono) simp_all
    then have le: "i * pl + pl \<le> j * pl" by simp
    show ?thesis
    proof (cases "pl \<le> length flat - i * pl")
      case True
      with assms have "length (take (i * pl) flat @ d) = i * pl + pl" by simp
      with le True assms 3 show ?thesis by (simp add: drop_append)
    next
      case False
      with assms le 3 show ?thesis by simp
    qed
  qed
qed

interpretation disk: piece_store "\<lambda>fs. storage_inv rs st fs \<and> pieces_ok st" "\<lambda>i. unat i < st_num_pieces st"
  "piece_size st" "stored_piece rs st" "write_piece rs st"
  for rs :: "rstring \<Rightarrow> 'f" and st
proof
  fix fs :: "'f fs" and i :: u32 and data :: bytes
  assume "storage_inv rs st fs \<and> pieces_ok st" and i: "unat i < st_num_pieces st" and len: "length data = piece_size st i"
  then have inv: "storage_inv rs st fs" "pieces_ok st" by simp_all
  let ?p = "unat i * unat (st_piece_length st)"
  have lt: "?p < unat (st_total_size st)" by (rule pieces_ok_less [OF inv(2) i])
  then have "?p < 2 ^ 64" using total_less [of "st_total_size st"] by linarith
  then have w: "write_piece rs st fs i data = write_range rs st fs (of_nat ?p) data"
    by (simp add: write_piece_def piece_offset_Ok)
  have off: "unat (of_nat ?p :: u64) = ?p" using lt by (intro unat_of_nat_u64 [of _ "st_total_size st"]) simp
  have "unat (of_nat ?p :: u64) + length data \<le> unat (st_total_size st)" using lt len unfolding off by (simp add: piece_size_def)
  from write_range_flat [OF inv(1) this] obtain fs' where fs': "write_range rs st fs (of_nat ?p) data = (fs', Ok ())"
    "storage_inv rs st fs'" "flat rs st fs' = take ?p (flat rs st fs) @ data @ drop (?p + length data) (flat rs st fs)"
    unfolding off by blast
  have "stored_piece rs st fs' j = (if j = i then data else stored_piece rs st fs j)" for j
  proof -
    have "?p < length (flat rs st fs)" "length data = min (length (flat rs st fs) - ?p) (unat (st_piece_length st))"
      using lt len length_flat [OF inv(1)] by (simp_all add: piece_size_def)
    from splice_pieces [OF this, of "unat j"] show ?thesis
      unfolding stored_piece_def piece_of_def fs'(3) by (simp only: unsigned_word_eqI word_unat_eq_iff)
  qed
  with fs'(1,2) inv(2) w show "\<exists>fs'. write_piece rs st fs i data = (fs', Ok ()) \<and> (storage_inv rs st fs' \<and> pieces_ok st) \<and>
      stored_piece rs st fs' i = data \<and> (\<forall>j. j \<noteq> i \<longrightarrow> stored_piece rs st fs' j = stored_piece rs st fs j)"
    by simp
qed

end
