(* ===== verification/F64.thy ===== *)
theory F64
  imports Complex_Main "HOL-Library.Log_Nat"
begin

section \<open>Double precision arithmetic\<close>

text \<open>
  The \<open>f64\<close> operations of the code, on rational numbers: the exact result of an operation is rounded
  to 53 significant bits, half to even, as IEEE 754 prescribes. The values that occur are far
  from overflow and from the subnormal numbers, so no infinities, NaNs or minimal exponents are
  needed.
\<close>

definition round_half_even :: "rat \<Rightarrow> int" where
  "round_half_even x =
     (let n = \<lfloor>x\<rfloor>; d = x - of_int n
      in if d < 1 / 2 \<or> d = 1 / 2 \<and> even n then n else n + 1)"

text \<open>The distance of neighbouring doubles in the binade of \<open>x\<close>.\<close>

definition ulp :: "rat \<Rightarrow> rat" where
  "ulp x =
     (if 1 \<le> \<bar>x\<bar> then 2 ^ (floorlog 2 (nat \<lfloor>\<bar>x\<bar>\<rfloor>) - 1) else 1 / 2 ^ floorlog 2 (nat (\<lceil>1 / \<bar>x\<bar>\<rceil> - 1))) / 2 ^ 52"

definition f64 :: "rat \<Rightarrow> rat" where
  "f64 x = of_int (round_half_even (x / ulp x)) * ulp x"

text \<open>\<open>as i64\<close> and \<open>as u32\<close> trunc toward zero; the values are in range.\<close>

definition trunc :: "rat \<Rightarrow> int" where
  "trunc x = (if 0 \<le> x then \<lfloor>x\<rfloor> else \<lceil>x\<rceil>)"

lemma round_half_even_ge: "of_int n \<le> x \<Longrightarrow> n \<le> round_half_even x"
  by (auto simp: round_half_even_def Let_def le_floor_iff intro: add_increasing2)

lemma round_half_even_le: "x \<le> of_int n \<Longrightarrow> round_half_even x \<le> n"
proof -
  assume x: "x \<le> of_int n"
  then have f: "\<lfloor>x\<rfloor> \<le> n" by linarith
  show ?thesis
  proof (cases "\<lfloor>x\<rfloor> = n")
    case True
    then have "x = of_int n" using x by linarith
    then show ?thesis by (simp add: round_half_even_def)
  next
    case False
    with f show ?thesis by (simp add: round_half_even_def Let_def)
  qed
qed

lemma ulp_pos: "0 < ulp x"
  by (simp add: ulp_def)

text \<open>A double has 53 significant bits.\<close>

lemma ulp_binade:
  assumes "x \<noteq> 0"
  shows "2 ^ 52 * ulp x \<le> \<bar>x\<bar> \<and> \<bar>x\<bar> < 2 ^ 53 * ulp x"
proof (cases "1 \<le> \<bar>x\<bar>")
  case True
  let ?a = "nat \<lfloor>\<bar>x\<bar>\<rfloor>" let ?l = "floorlog 2 ?a"
  have "1 \<le> \<lfloor>\<bar>x\<bar>\<rfloor>" using True by simp
  then have a: "0 < ?a" "int ?a = \<lfloor>\<bar>x\<bar>\<rfloor>" by linarith+
  have l: "2 ^ (?l - 1) \<le> ?a" "?a < 2 ^ ?l" using floorlog_bounds [of ?a 2] a(1) by simp_all
  have "int (2 ^ (?l - 1)) \<le> int ?a" "int ?a < int (2 ^ ?l)"
    using l by (simp_all only: of_nat_le_iff of_nat_less_iff)
  then have "(2 :: int) ^ (?l - 1) \<le> \<lfloor>\<bar>x\<bar>\<rfloor>" "\<lfloor>\<bar>x\<bar>\<rfloor> < 2 ^ ?l"
    unfolding a(2) by (simp_all only: of_nat_power of_nat_numeral)
  then have "2 ^ (?l - 1) \<le> \<bar>x\<bar>" "\<bar>x\<bar> < 2 ^ ?l"
    by (simp_all add: le_floor_iff floor_less_iff)
  moreover have "?l \<noteq> 0" using l a(1) by (cases ?l) auto
  then have "(2 :: rat) ^ ?l = 2 * 2 ^ (?l - 1)" by (cases ?l) simp_all
  ultimately show ?thesis using True by (simp add: ulp_def)
next
  case False
  then have y: "1 < 1 / \<bar>x\<bar>" using assms by simp
  let ?c = "\<lceil>1 / \<bar>x\<bar>\<rceil>" let ?a = "nat (?c - 1)" let ?l = "floorlog 2 ?a"
  have "1 < ?c" using y by (simp add: less_ceiling_iff)
  then have a: "0 < ?a" "int ?a = ?c - 1" by linarith+
  have l: "2 ^ (?l - 1) \<le> ?a" "?a < 2 ^ ?l" using floorlog_bounds [of ?a 2] a(1) by simp_all
  have "int (2 ^ (?l - 1)) \<le> int ?a" "int ?a < int (2 ^ ?l)"
    using l by (simp_all only: of_nat_le_iff of_nat_less_iff)
  then have "(2 :: int) ^ (?l - 1) \<le> ?c - 1" "?c - 1 < 2 ^ ?l"
    unfolding a(2) by (simp_all only: of_nat_power of_nat_numeral)
  then have "(2 :: int) ^ (?l - 1) < ?c" "?c \<le> 2 ^ ?l" by linarith+
  then have "2 ^ (?l - 1) < 1 / \<bar>x\<bar>" "1 / \<bar>x\<bar> \<le> 2 ^ ?l"
    by (simp_all add: less_ceiling_iff ceiling_le_iff)
  moreover have "?l \<noteq> 0" using l a(1) by (cases ?l) auto
  then have "(2 :: rat) ^ ?l = 2 * 2 ^ (?l - 1)" by (cases ?l) simp_all
  ultimately show ?thesis using False assms by (simp add: ulp_def field_simps)
qed

text \<open>Naturals up to \<open>2 ^ 52\<close> are representable, and rounding cannot cross a representable number.\<close>

lemma nat_multiple_of_ulp:
  assumes "n \<le> 2 ^ 52" and "\<bar>x\<bar> \<le> 2 ^ 52"
  shows "\<exists>m :: int. of_nat n = of_int m * ulp x"
proof (cases "1 \<le> \<bar>x\<bar>")
  case True
  let ?a = "nat \<lfloor>\<bar>x\<bar>\<rfloor>" let ?k = "floorlog 2 ?a - 1"
  have "1 \<le> \<lfloor>\<bar>x\<bar>\<rfloor>" using True by simp
  then have a: "0 < ?a" by linarith
  have "?a \<le> 2 ^ 52"
  proof -
    have "\<lfloor>\<bar>x\<bar>\<rfloor> \<le> 2 ^ 52" using assms(2) by (simp add: floor_le_iff)
    then show ?thesis by (simp add: nat_le_iff)
  qed
  moreover have "2 ^ ?k \<le> ?a" using floorlog_bounds [of ?a 2] a by simp
  ultimately have "(2 :: nat) ^ ?k \<le> 2 ^ 52" by linarith
  then have k: "?k \<le> 52" by (rule power_le_imp_le_exp [rotated]) simp
  then have "(2 :: rat) ^ 52 = 2 ^ (52 - ?k) * 2 ^ ?k" by (simp flip: power_add)
  then have "of_nat n = of_int (int n * 2 ^ (52 - ?k)) * ulp x"
    using True by (simp add: ulp_def)
  then show ?thesis by blast
next
  case False
  then have "of_nat n = of_int (int n * 2 ^ (52 + floorlog 2 (nat (\<lceil>1 / \<bar>x\<bar>\<rceil> - 1)))) * ulp x"
    by (simp add: ulp_def power_add)
  then show ?thesis by blast
qed

lemma f64_le:
  assumes "x \<le> of_nat n" and "n \<le> 2 ^ 52" and "- (2 ^ 52) \<le> x"
  shows "f64 x \<le> of_nat n"
proof -
  have "(of_nat n :: rat) \<le> 2 ^ 52" using assms(2) by (metis of_nat_le_iff of_nat_numeral of_nat_power)
  then obtain m where m: "of_nat n = of_int m * ulp x"
    using nat_multiple_of_ulp [of n x] assms by force
  then have "x / ulp x \<le> of_int m" using assms(1) ulp_pos [of x] by (simp add: divide_le_eq)
  then have "round_half_even (x / ulp x) \<le> m" by (rule round_half_even_le)
  then have "of_int (round_half_even (x / ulp x)) * ulp x \<le> of_int m * ulp x"
    using ulp_pos [of x] by (intro mult_right_mono) simp_all
  then show ?thesis by (simp add: f64_def m)
qed

lemma f64_ge:
  assumes "of_nat n \<le> x" and "x \<le> 2 ^ 52"
  shows "of_nat n \<le> f64 x"
proof -
  have "(of_nat n :: rat) \<le> 2 ^ 52" using assms by linarith
  then have n: "n \<le> 2 ^ 52" by (metis of_nat_le_iff of_nat_numeral of_nat_power)
  have "0 \<le> x" using assms(1) by (meson of_nat_0_le_iff order_trans)
  then have "\<bar>x\<bar> \<le> 2 ^ 52" using assms(2) by simp
  then obtain m where m: "of_nat n = of_int m * ulp x"
    using nat_multiple_of_ulp [OF n] by blast
  then have "of_int m \<le> x / ulp x" using assms(1) ulp_pos [of x] by (simp add: le_divide_eq)
  then have "m \<le> round_half_even (x / ulp x)" by (rule round_half_even_ge)
  then have "of_int m * ulp x \<le> of_int (round_half_even (x / ulp x)) * ulp x"
    using ulp_pos [of x] by (intro mult_right_mono) simp_all
  then show ?thesis using assms(1) by (simp add: f64_def m)
qed

lemma f64_nonneg: "0 \<le> x \<Longrightarrow> 0 \<le> f64 x"
  using round_half_even_ge [of 0 "x / ulp x"] ulp_pos [of x] by (simp add: f64_def)

lemma f64_nonpos: "x \<le> 0 \<Longrightarrow> f64 x \<le> 0"
  using round_half_even_le [of "x / ulp x" 0] ulp_pos [of x]
  by (auto simp: f64_def divide_le_0_iff mult_le_0_iff)

end
