(* ===== verification/Congestion.thy ===== *)
theory Congestion
  imports Rust_Prelude F64 "HOL-Library.Signed_Division"
begin

section \<open>uTP congestion control\<close>

text \<open>
  \<open>peer/utp/congestion.rs\<close> of \<open>torrent-core\<close> (BEP 29): the delay based congestion window of one
  connection. An \<open>Instant\<close> is a number of microseconds, its subtractions do not underflow; \<open>u32\<close>
  additions panic on overflow, the \<open>i64\<close> intermediate values of \<open>update_rtt\<close> cannot overflow and
  are integers with truncating division; the \<open>f64\<close> arithmetic is that of theory \<open>F64\<close>.
\<close>

subsection \<open>State\<close>

definition CCONTROL_TARGET :: u32 where "CCONTROL_TARGET = 100000"
definition MAX_CWND_INCREASE_BYTES_PER_RTT :: u32 where "MAX_CWND_INCREASE_BYTES_PER_RTT = 3000"
definition BASE_DELAY_WINDOW :: int where "BASE_DELAY_WINDOW = 120000000"
definition MIN_TIMEOUT_MS :: u32 where "MIN_TIMEOUT_MS = 500"
definition INITIAL_TIMEOUT_MS :: u32 where "INITIAL_TIMEOUT_MS = 1000"
definition MIN_PACKET_SIZE :: u32 where "MIN_PACKET_SIZE = 150"
definition U32_MAX :: u32 where "U32_MAX = 0xFFFFFFFF"

lemmas cc_constants = CCONTROL_TARGET_def MAX_CWND_INCREASE_BYTES_PER_RTT_def BASE_DELAY_WINDOW_def
  MIN_TIMEOUT_MS_def INITIAL_TIMEOUT_MS_def MIN_PACKET_SIZE_def U32_MAX_def

record DelaySample =
  ds_time :: int
  ds_value :: u32

record UtpCongestionControl =
  cc_max_window :: u32
  cc_cur_window :: u32
  cc_base_delay :: u32
  cc_our_delay :: u32
  cc_reply_micro :: u32
  cc_rtt :: u32
  cc_rtt_var :: u32
  cc_timeout :: u32
  cc_packet_size :: u32
  cc_consecutive :: u32
  cc_history :: "DelaySample list"

definition cc_new :: UtpCongestionControl where
  "cc_new = \<lparr>cc_max_window = 0, cc_cur_window = 0, cc_base_delay = U32_MAX, cc_our_delay = 0,
     cc_reply_micro = 0, cc_rtt = 0, cc_rtt_var = 0, cc_timeout = INITIAL_TIMEOUT_MS,
     cc_packet_size = MIN_PACKET_SIZE, cc_consecutive = 0, cc_history = []\<rparr>"

subsection \<open>Arithmetic\<close>

definition add_u32 :: "u32 \<Rightarrow> u32 \<Rightarrow> u32 result" where
  "add_u32 a b = (case checked_add a b of Some c \<Rightarrow> Ok c | None \<Rightarrow> Panic)"

definition mul_u32 :: "u32 \<Rightarrow> u32 \<Rightarrow> u32 result" where
  "mul_u32 a b = (case checked_mul a b of Some c \<Rightarrow> Ok c | None \<Rightarrow> Panic)"

definition saturating_add :: "u32 \<Rightarrow> u32 \<Rightarrow> u32" where
  "saturating_add a b = (case checked_add a b of Some c \<Rightarrow> c | None \<Rightarrow> U32_MAX)"

definition saturating_sub :: "u32 \<Rightarrow> u32 \<Rightarrow> u32" where
  "saturating_sub a b = (if b \<le> a then a - b else 0)"

definition saturating_mul :: "u32 \<Rightarrow> u32 \<Rightarrow> u32" where
  "saturating_mul a b = (case checked_mul a b of Some c \<Rightarrow> c | None \<Rightarrow> U32_MAX)"

text \<open>\<open>x as u32\<close> for an \<open>i64\<close> and for an \<open>f64\<close>: the first keeps the low bits, the second saturates.\<close>

definition i64_as_u32 :: "int \<Rightarrow> u32" where
  "i64_as_u32 i = of_int i"

definition f64_as_u32 :: "rat \<Rightarrow> u32" where
  "f64_as_u32 x = of_int (max 0 (min (2 ^ 32 - 1) (trunc x)))"

text \<open>\<open>i64::saturating_add\<close>, and the saturating \<open>f64 as i64\<close>.\<close>

definition sat_i64 :: "int \<Rightarrow> int" where
  "sat_i64 i = max (- (2 ^ 63)) (min (2 ^ 63 - 1) i)"

subsection \<open>Operations\<close>

definition set_cur_window :: "u32 \<Rightarrow> UtpCongestionControl \<Rightarrow> UtpCongestionControl" where
  "set_cur_window n c = c\<lparr>cc_cur_window := n\<rparr>"

definition add_in_flight :: "u32 \<Rightarrow> UtpCongestionControl \<Rightarrow> UtpCongestionControl" where
  "add_in_flight n c = c\<lparr>cc_cur_window := saturating_add (cc_cur_window c) n\<rparr>"

definition remove_in_flight :: "u32 \<Rightarrow> UtpCongestionControl \<Rightarrow> UtpCongestionControl" where
  "remove_in_flight n c = c\<lparr>cc_cur_window := saturating_sub (cc_cur_window c) n\<rparr>"

definition update_delay :: "u32 \<Rightarrow> int \<Rightarrow> UtpCongestionControl \<Rightarrow> UtpCongestionControl" where
  "update_delay reply now c =
     (let history = cc_history c @ [\<lparr>ds_time = now, ds_value = reply\<rparr>];
          cutoff = now - BASE_DELAY_WINDOW;
          history = dropWhile (\<lambda>s. ds_time s < cutoff) history;
          base = (case map ds_value history of [] \<Rightarrow> U32_MAX | v # vs \<Rightarrow> foldl min v vs)
      in c\<lparr>cc_reply_micro := reply, cc_history := history, cc_base_delay := base,
           cc_our_delay := saturating_sub reply base\<rparr>)"

definition update_rtt :: "u32 \<Rightarrow> UtpCongestionControl \<Rightarrow> UtpCongestionControl result" where
  "update_rtt packet_rtt c =
     (let (rtt', var') =
        (if cc_rtt c = 0 then (packet_rtt, packet_rtt div 2)
         else
           let rtt = uint (cc_rtt c); pkt = uint packet_rtt; var = uint (cc_rtt_var c);
               delta_abs = \<bar>rtt - pkt\<bar>;
               new_var = var + ((delta_abs - var) sdiv 4);
               new_rtt = rtt + ((pkt - rtt) sdiv 8)
           in (i64_as_u32 (max new_rtt 0), i64_as_u32 (max new_var 0)))
      in and_then (mul_u32 var' 4) (\<lambda>v4. and_then (add_u32 rtt' v4) (\<lambda>t.
           Ok (c\<lparr>cc_rtt := rtt', cc_rtt_var := var', cc_timeout := max t MIN_TIMEOUT_MS, cc_consecutive := 0\<rparr>))))"

definition f64_of_u32 :: "u32 \<Rightarrow> rat" where
  "f64_of_u32 w = of_int (uint w)"

definition update_packet_size :: "UtpCongestionControl \<Rightarrow> UtpCongestionControl" where
  "update_packet_size c =
     (let scale = max 1 (min 10 (f64 (f64_of_u32 (cc_max_window c) / 1500)))
      in c\<lparr>cc_packet_size := f64_as_u32 (f64 (f64_of_u32 MIN_PACKET_SIZE * scale))\<rparr>)"

definition scaled_gain :: "u32 \<Rightarrow> u32 \<Rightarrow> u32 \<Rightarrow> rat" where
  "scaled_gain our_delay cur_window max_window =
     (let off_target = uint CCONTROL_TARGET - uint our_delay;
          delay_factor = f64 (of_int off_target / f64_of_u32 CCONTROL_TARGET);
          window_factor = min (f64 (f64_of_u32 cur_window / f64_of_u32 (max max_window 1))) 1
      in f64 (f64 (f64_of_u32 MAX_CWND_INCREASE_BYTES_PER_RTT * delay_factor) * window_factor))"

definition adjust_window :: "UtpCongestionControl \<Rightarrow> UtpCongestionControl" where
  "adjust_window c =
     (if cc_base_delay c = U32_MAX then c\<lparr>cc_max_window := max (cc_max_window c) (MIN_PACKET_SIZE * 2)\<rparr>
      else
        let gain = sat_i64 (trunc (scaled_gain (cc_our_delay c) (cc_cur_window c) (cc_max_window c)));
            new_window = i64_as_u32 (max 0 (sat_i64 (uint (cc_max_window c) + gain)))
        in update_packet_size (c\<lparr>cc_max_window := max new_window MIN_PACKET_SIZE\<rparr>))"

definition on_packet_loss :: "UtpCongestionControl \<Rightarrow> UtpCongestionControl" where
  "on_packet_loss c = update_packet_size (c\<lparr>cc_max_window := max (cc_max_window c div 2) MIN_PACKET_SIZE\<rparr>)"

definition on_timeout :: "UtpCongestionControl \<Rightarrow> UtpCongestionControl result" where
  "on_timeout c =
     and_then (add_u32 (cc_consecutive c) 1) (\<lambda>n.
       Ok (c\<lparr>cc_packet_size := MIN_PACKET_SIZE, cc_max_window := MIN_PACKET_SIZE, cc_consecutive := n,
             cc_timeout := saturating_mul (cc_timeout c) (2 ^ unat (min n 6))\<rparr>))"

definition reset_timeouts :: "UtpCongestionControl \<Rightarrow> UtpCongestionControl" where
  "reset_timeouts c = c\<lparr>cc_consecutive := 0\<rparr>"

definition can_send :: "u32 \<Rightarrow> u32 \<Rightarrow> UtpCongestionControl \<Rightarrow> bool" where
  "can_send packet_size remote_wnd c \<longleftrightarrow>
     saturating_add (cc_cur_window c) packet_size \<le> min (cc_max_window c) remote_wnd"


subsection \<open>The base delay is a windowed minimum\<close>

lemma dropWhile_sorted_filter:
  "sorted (map f xs) \<Longrightarrow> dropWhile (\<lambda>x. f x < a) xs = filter (\<lambda>x. a \<le> f x) xs" for a :: "'b::linorder"
proof (induction xs)
  case (Cons x xs)
  show ?case
  proof (cases "f x < a")
    case False
    then have "\<forall>y \<in> set xs. a \<le> f y" using Cons.prems by (auto simp: not_less)
    then have "filter (\<lambda>x. a \<le> f x) xs = xs" by (rule filter_True)
    with False show ?thesis by simp
  qed (use Cons in simp)
qed simp

lemma foldl_min: "foldl min v vs = Min (set (v # vs))" for v :: "'a::linorder"
proof -
  have "foldl min v vs = fold min vs v"
    by (induction vs arbitrary: v) (simp_all add: min.commute)
  then show ?thesis by (simp only: Min.set_eq_fold)
qed

text \<open>The samples \<open>(time, value)\<close> are fed one after the other.\<close>

definition feed_delays :: "(int \<times> u32) list \<Rightarrow> UtpCongestionControl \<Rightarrow> UtpCongestionControl" where
  "feed_delays samples c = fold (\<lambda>(now, v). update_delay v now) samples c"

definition recent :: "(int \<times> u32) list \<Rightarrow> (int \<times> u32) list" where
  "recent samples = filter (\<lambda>(t, v). fst (last samples) - BASE_DELAY_WINDOW \<le> t) samples"

lemma feed_delays_snoc: "feed_delays (xs @ [(t, v)]) c = update_delay v t (feed_delays xs c)"
  by (simp add: feed_delays_def)

lemma update_delay_history:
  "cc_history (update_delay v t c) = dropWhile (\<lambda>s. ds_time s < t - BASE_DELAY_WINDOW)
     (cc_history c @ [\<lparr>ds_time = t, ds_value = v\<rparr>])"
  by (simp add: update_delay_def Let_def)

lemma feed_delays_history:
  assumes "sorted (map fst samples)" and "cc_history c = []"
  shows "cc_history (feed_delays samples c) = map (\<lambda>(t, v). \<lparr>ds_time = t, ds_value = v\<rparr>) (recent samples)"
  using assms
proof (induction samples rule: rev_induct)
  case Nil
  then show ?case by (simp add: feed_delays_def recent_def)
next
  case (snoc s xs)
  obtain t v where s: "s = (t, v)" by (cases s)
  let ?mk = "\<lambda>(t, v). \<lparr>ds_time = t, ds_value = v\<rparr>"
  have sorted: "sorted (map fst xs)" and le: "\<forall>x \<in> set xs. fst x \<le> t"
    using snoc.prems s by (auto simp: sorted_append)
  have IH: "cc_history (feed_delays xs c) = map ?mk (recent xs)" using snoc.IH sorted snoc.prems by simp
  let ?h = "map ?mk (recent xs) @ [\<lparr>ds_time = t, ds_value = v\<rparr>]"
  have mk: "map ds_time (map ?mk ys) = map fst ys" for ys by (induction ys) auto
  have h: "map ds_time ?h = map fst (recent xs) @ [t]" unfolding map_append mk by simp
  have "sorted (map fst (recent xs))" using sorted unfolding recent_def by (rule sorted_filter)
  moreover have "\<forall>x \<in> set (recent xs). fst x \<le> t" using le by (simp add: recent_def)
  ultimately have "sorted (map ds_time ?h)" unfolding h by (auto simp: sorted_append)
  from dropWhile_sorted_filter [OF this, of "t - BASE_DELAY_WINDOW"]
  have "cc_history (feed_delays (xs @ [s]) c) = filter (\<lambda>x. t - BASE_DELAY_WINDOW \<le> ds_time x) ?h"
    unfolding s feed_delays_snoc update_delay_history IH .
  also have "\<dots> = map ?mk (filter (\<lambda>(u, w). t - BASE_DELAY_WINDOW \<le> u) (recent xs)) @ [?mk (t, v)]"
    by (simp add: filter_map comp_def case_prod_unfold BASE_DELAY_WINDOW_def)
  also have "filter (\<lambda>(u, w). t - BASE_DELAY_WINDOW \<le> u) (recent xs) = filter (\<lambda>(u, w). t - BASE_DELAY_WINDOW \<le> u) xs"
  proof (cases xs rule: rev_cases)
    case (snoc ys y)
    then have "fst (last xs) \<le> t" using le by simp
    then show ?thesis unfolding recent_def by (auto simp: filter_filter intro!: filter_cong)
  qed (simp add: recent_def)
  finally show ?case by (simp add: s recent_def BASE_DELAY_WINDOW_def)
qed

text \<open>
  C33. The base delay is a windowed minimum. After any sequence of samples with times in order, the
  incrementally pruned history is the list of the samples of the last two minutes, the base
  delay is the least of their values, and the buffering delay is what the last value exceeds it by.
\<close>

theorem base_delay_windowed_min:
  assumes "sorted (map fst samples)" and "samples \<noteq> []" and "cc_history c = []"
  shows "cc_history (feed_delays samples c) = map (\<lambda>(t, v). \<lparr>ds_time = t, ds_value = v\<rparr>) (recent samples) \<and>
    cc_base_delay (feed_delays samples c) = Min (snd ` set (recent samples)) \<and>
    unat (cc_our_delay (feed_delays samples c)) = unat (snd (last samples)) - unat (Min (snd ` set (recent samples)))"
proof -
  obtain xs t v where s: "samples = xs @ [(t, v)]" using assms(2) by (cases samples rule: rev_cases) auto
  let ?c = "feed_delays samples c"
  have hist: "cc_history ?c = map (\<lambda>(t, v). \<lparr>ds_time = t, ds_value = v\<rparr>) (recent samples)"
    by (rule feed_delays_history [OF assms(1,3)])
  have "(t, v) \<in> set (recent samples)" by (simp add: s recent_def BASE_DELAY_WINDOW_def)
  then obtain y ys where ys: "map ds_value (cc_history ?c) = y # ys"
    unfolding hist by (cases "recent samples") auto
  have vals: "set (map ds_value (cc_history ?c)) = snd ` set (recent samples)"
    unfolding hist by (force simp: image_iff)
  have base: "cc_base_delay ?c = Min (snd ` set (recent samples))"
    using ys vals foldl_min [of y ys] unfolding s feed_delays_snoc
    by (simp add: update_delay_def Let_def)
  have "Min (snd ` set (recent samples)) \<le> v"
    using \<open>(t, v) \<in> _\<close> by (intro Min_le) force+
  moreover have "cc_our_delay ?c = saturating_sub v (cc_base_delay ?c)"
    unfolding s feed_delays_snoc by (simp add: update_delay_def Let_def)
  ultimately have "unat (cc_our_delay ?c) = unat v - unat (Min (snd ` set (recent samples)))"
    using base by (simp add: saturating_sub_def unat_sub)
  with hist base show ?thesis by (simp add: s)
qed

theorem base_delay_windowed_min_witness:
  "cc_base_delay (feed_delays [(0, 5), (1000000, 9), (121000000, 7)] cc_new) = 7"
proof -
  have "sorted (map fst [(0 :: int, 5 :: u32), (1000000, 9), (121000000, 7)])" by simp
  from base_delay_windowed_min [OF this, of cc_new]
  have "cc_base_delay (feed_delays [(0, 5), (1000000, 9), (121000000, 7)] cc_new)
      = Min (snd ` set (recent [(0, 5), (1000000, 9), (121000000, 7)]))" by (simp add: cc_new_def)
  also have "recent [(0, 5), (1000000, 9), (121000000, 7)] = [(1000000, 9), (121000000, 7)]"
    by (simp add: recent_def BASE_DELAY_WINDOW_def)
  finally show ?thesis by simp
qed

subsection \<open>Round trip times\<close>

lemma sdiv_int:
  "0 \<le> x \<Longrightarrow> 0 < k \<Longrightarrow> x sdiv k = x div (k :: int)"
  "x < 0 \<Longrightarrow> 0 < k \<Longrightarrow> x sdiv k = - ((- x) div (k :: int))"
  by (auto simp: signed_divide_int_def sgn_if)

lemma quot_between:
  assumes "0 < k"
  shows "min v d \<le> v + ((d - v) sdiv (k :: int))" "v + ((d - v) sdiv k) \<le> max v d"
proof -
  have div_le: "x div k \<le> x" "0 \<le> x div k" if "0 \<le> x" for x
    using that assms by (simp_all add: pos_imp_zdiv_nonneg_iff) (use div_by_1 [of x] zdiv_mono2 [of x 1 k] assms in simp)
  show "min v d \<le> v + ((d - v) sdiv k)" "v + ((d - v) sdiv k) \<le> max v d"
    using div_le [of "d - v"] div_le [of "v - d"] assms
    by (cases "v \<le> d"; simp add: sdiv_int min_def max_def)+
qed

lemma uint_i64_as_u32: "0 \<le> i \<Longrightarrow> i < 2 ^ 32 \<Longrightarrow> uint (i64_as_u32 i) = i"
  by (simp add: i64_as_u32_def unsigned_of_int take_bit_int_eq_self)

lemma moved_estimate:
  assumes "0 \<le> a" and "a \<le> B" and "0 \<le> b" and "b \<le> B" and "B < 2 ^ 32" and "0 < k"
  shows "uint (i64_as_u32 (max (a + ((b - a) sdiv k)) 0)) = a + ((b - a) sdiv k)"
    and "min a b \<le> a + ((b - a) sdiv k)" and "a + ((b - a) sdiv k) \<le> max a b"
proof -
  let ?n = "a + ((b - a) sdiv k)"
  show n: "min a b \<le> ?n" "?n \<le> max a b" using quot_between [OF assms(6)] by blast+
  have "0 \<le> min a b" "max a b < 2 ^ 32" using assms(1-5) by simp_all
  with n have "0 \<le> ?n" "?n < 2 ^ 32" by linarith+
  then show "uint (i64_as_u32 (max ?n 0)) = ?n" by (subst uint_i64_as_u32) simp_all
qed

lemma timeout_fits:
  assumes "uint r \<le> B" and "uint v \<le> B" and "5 * B < 2 ^ 32"
  obtains v4 t where "mul_u32 v 4 = Ok v4" and "add_u32 r v4 = Ok t" and "uint t = uint r + 4 * uint v"
proof -
  have nat: "uint w = int (unat w)" for w :: u32 by simp
  have "5 * B < 4294967296" using assms(3) by simp
  moreover have "int (unat r) \<le> B" "int (unat v) \<le> B" unfolding nat [symmetric] by (fact assms)+
  ultimately have "int (unat v * 4) < 4294967296" "int (unat r + unat v * 4) < 4294967296"
    unfolding of_nat_add of_nat_mult of_nat_numeral by linarith+
  then have "unat v * 4 < 4294967296" "unat r + unat v * 4 < 4294967296" by linarith+
  then have fits: "unat v * unat (4 :: u32) < 2 ^ LENGTH(32)" "unat r + unat v * 4 < 2 ^ LENGTH(32)"
    by simp_all
  obtain v4 where v4: "mul_u32 v 4 = Ok v4" "unat v4 = unat v * 4"
    using fits(1) by (auto simp: mul_u32_def checked_mul_def unat_word_ariths)
  obtain t where t: "add_u32 r v4 = Ok t" "unat t = unat r + unat v * 4"
    using fits(2) v4(2) by (auto simp: add_u32_def checked_add_def unat_word_ariths)
  have "uint t = uint r + 4 * uint v" unfolding nat using t(2) by simp
  with that v4(1) t(1) show ?thesis by blast
qed

text \<open>Round trip estimation stays in bounds. While all samples and the estimates so far are at most
  \<open>B\<close> and \<open>5 B\<close> fits 32 bits, an update does not overflow; the new estimate lies between the old one
  and the sample (the first sample is taken as it is), the variance stays below the bound, and
  the timeout is \<open>max (rtt + 4 rtt_var) 500\<close> without consecutive timeouts.
\<close>

theorem update_rtt_spec:
  assumes "uint (cc_rtt c) \<le> B" and "uint (cc_rtt_var c) \<le> B" and "uint r \<le> B" and "5 * B < 2 ^ 32"
  shows "\<exists>c'. update_rtt r c = Ok c' \<and>
    (if cc_rtt c = 0 then cc_rtt c' = r else
       min (uint (cc_rtt c)) (uint r) \<le> uint (cc_rtt c') \<and> uint (cc_rtt c') \<le> max (uint (cc_rtt c)) (uint r)) \<and>
    uint (cc_rtt c') \<le> B \<and> uint (cc_rtt_var c') \<le> B \<and>
    uint (cc_timeout c') = max (uint (cc_rtt c') + 4 * uint (cc_rtt_var c')) 500 \<and> cc_consecutive c' = 0"
proof -
  let ?a = "uint (cc_rtt c)" let ?v = "uint (cc_rtt_var c)" let ?d = "\<bar>?a - uint r\<bar>"
  have B: "0 \<le> B" "B < 2 ^ 32" using assms(1,4) uint_nonnegative [of "cc_rtt c"] by linarith+
  have d: "0 \<le> ?d" "?d \<le> B" using assms(1,3) uint_nonnegative [of "cc_rtt c"] uint_nonnegative [of r] by linarith+
  define rv where "rv = (if cc_rtt c = 0 then (r, r div 2)
     else (i64_as_u32 (max (?a + ((uint r - ?a) sdiv 8)) 0), i64_as_u32 (max (?v + ((?d - ?v) sdiv 4)) 0)))"
  note moved = moved_estimate [of ?a B "uint r" 8] moved_estimate [of ?v B ?d 4]
  have rtt: "if cc_rtt c = 0 then fst rv = r else min ?a (uint r) \<le> uint (fst rv) \<and> uint (fst rv) \<le> max ?a (uint r)"
    using moved(1-3) assms(1,3) B by (simp add: rv_def)
  then have rtt_B: "uint (fst rv) \<le> B" using assms(1,3) by (auto split: if_splits)
  have "uint r div 2 \<le> B" using assms(3) uint_nonnegative [of r] by linarith
  then have half: "uint (r div 2) \<le> B" by (simp add: uint_div)
  have "max ?v ?d \<le> B" using assms(2) d(2) by simp
  then have "?v + ((?d - ?v) sdiv 4) \<le> B"
    using moved(6) [OF uint_nonnegative assms(2) d B(2)] by linarith
  then have var_B: "uint (snd rv) \<le> B"
    using half moved(4) [OF uint_nonnegative assms(2) d B(2)] by (simp add: rv_def)
  obtain v4 t where t: "mul_u32 (snd rv) 4 = Ok v4" "add_u32 (fst rv) v4 = Ok t"
      "uint t = uint (fst rv) + 4 * uint (snd rv)"
    using timeout_fits [OF rtt_B var_B assms(4)] .
  let ?c = "c\<lparr>cc_rtt := fst rv, cc_rtt_var := snd rv, cc_timeout := max t MIN_TIMEOUT_MS, cc_consecutive := 0\<rparr>"
  have "update_rtt r c = and_then (mul_u32 (snd rv) 4) (\<lambda>v4. and_then (add_u32 (fst rv) v4) (\<lambda>t.
           Ok (c\<lparr>cc_rtt := fst rv, cc_rtt_var := snd rv, cc_timeout := max t MIN_TIMEOUT_MS, cc_consecutive := 0\<rparr>)))"
    by (simp add: update_rtt_def rv_def Let_def)
  then have res: "update_rtt r c = Ok ?c" using t(1,2) by simp
  have "uint (max t MIN_TIMEOUT_MS) = max (uint (fst rv) + 4 * uint (snd rv)) 500"
    using t(3) by (auto simp: max_def word_le_def MIN_TIMEOUT_MS_def)
  with res rtt rtt_B var_B show ?thesis by (intro exI [of _ ?c]) simp
qed

theorem update_rtt_spec_witness:
  "\<exists>c'. update_rtt 80 (cc_new\<lparr>cc_rtt := 100, cc_rtt_var := 50\<rparr>) = Ok c' \<and> uint (cc_rtt c') \<in> {80..100} \<and> cc_consecutive c' = 0"
  using update_rtt_spec [of "cc_new\<lparr>cc_rtt := 100, cc_rtt_var := 50\<rparr>" 1000 80] by auto


subsection \<open>The window\<close>

lemma f64_of_u32_range: "0 \<le> f64_of_u32 w" "f64_of_u32 w < 2 ^ 32"
proof -
  show "0 \<le> f64_of_u32 w"
    unfolding f64_of_u32_def by (simp only: of_int_0_le_iff uint_nonnegative)
  have "uint w < 2 ^ 32" using unsigned_less [of w, where ?'a = int] by simp
  then have "(of_int (uint w) :: rat) < of_int (2 ^ 32)" by (simp only: of_int_less_iff)
  then show "f64_of_u32 w < 2 ^ 32" by (simp add: f64_of_u32_def)
qed

lemma trunc_between: "of_int a \<le> x \<Longrightarrow> x \<le> of_int b \<Longrightarrow> 0 \<le> a \<Longrightarrow> a \<le> trunc x \<and> trunc x \<le> b"
proof -
  assume x: "of_int a \<le> x" "x \<le> of_int b" "0 \<le> a"
  then have "0 \<le> x" by (metis of_int_0_le_iff order_trans)
  moreover have "a \<le> \<lfloor>x\<rfloor>" using x(1) by (simp add: le_floor_iff)
  moreover have "\<lfloor>x\<rfloor> \<le> b" using x(2) by linarith
  ultimately show ?thesis by (simp add: trunc_def)
qed

lemma trunc_nonpos: "x \<le> 0 \<Longrightarrow> trunc x \<le> 0"
  by (auto simp: trunc_def)

lemma uint_f64_as_u32: "0 \<le> trunc x \<Longrightarrow> trunc x < 2 ^ 32 \<Longrightarrow> uint (f64_as_u32 x) = trunc x"
  by (simp add: f64_as_u32_def unsigned_of_int take_bit_int_eq_self)

lemma packet_size_bounds:
  "150 \<le> uint (cc_packet_size (update_packet_size c)) \<and> uint (cc_packet_size (update_packet_size c)) \<le> 1500"
proof -
  define scale where "scale = max 1 (min 10 (f64 (f64_of_u32 (cc_max_window c) / 1500)))"
  have s: "1 \<le> scale" "scale \<le> 10" by (simp_all add: scale_def)
  have "f64_of_u32 MIN_PACKET_SIZE = 150" by (simp add: f64_of_u32_def MIN_PACKET_SIZE_def)
  moreover have "of_nat 150 \<le> f64 (150 * scale)" using s by (intro f64_ge) simp_all
  moreover have "f64 (150 * scale) \<le> of_nat 1500" using s by (intro f64_le) simp_all
  ultimately have "150 \<le> trunc (f64 (150 * scale)) \<and> trunc (f64 (150 * scale)) \<le> 1500"
    by (intro trunc_between) simp_all
  then show ?thesis
    using \<open>f64_of_u32 _ = 150\<close> by (simp add: update_packet_size_def Let_def uint_f64_as_u32 flip: scale_def)
qed

lemma scaled_gain_bounds:
  assumes "our \<le> CCONTROL_TARGET"
  shows "0 \<le> scaled_gain our cur mx \<and> scaled_gain our cur mx \<le> 3000"
proof -
  define df where "df = f64 (of_int (uint CCONTROL_TARGET - uint our) / f64_of_u32 CCONTROL_TARGET)"
  define wf where "wf = min (f64 (f64_of_u32 cur / f64_of_u32 (max mx 1))) 1"
  have target: "f64_of_u32 CCONTROL_TARGET = 100000" "uint CCONTROL_TARGET = 100000"
    by (simp_all add: f64_of_u32_def CCONTROL_TARGET_def)
  have our: "uint our \<le> 100000" using assms by (simp add: word_le_def target)
  then obtain d where d: "100000 - uint our = d" "0 \<le> d" "d \<le> 100000"
    using uint_nonnegative [of our] by auto
  then have q: "0 \<le> (of_int d / 100000 :: rat)" "(of_int d / 100000 :: rat) \<le> 1"
    by (simp_all add: divide_le_eq)
  have df: "0 \<le> df" "df \<le> 1"
    unfolding df_def target d(1) using f64_nonneg [OF q(1)] f64_le [of _ 1] q by simp_all
  have wf: "0 \<le> wf" "wf \<le> 1"
    unfolding wf_def using f64_nonneg f64_of_u32_range by (simp_all add: divide_nonneg_nonneg)
  define g where "g = f64 (3000 * df)"
  have g: "0 \<le> g" "g \<le> 3000"
    unfolding g_def using f64_nonneg [of "3000 * df"] f64_le [of "3000 * df" 3000] df by simp_all
  have "g * wf \<le> 3000 * 1" using g wf by (intro mult_mono) simp_all
  moreover have "0 \<le> g * wf" using g wf by simp
  moreover from this have "- (2 ^ 52) \<le> g * wf" by simp
  ultimately have "0 \<le> f64 (g * wf) \<and> f64 (g * wf) \<le> 3000"
    using f64_nonneg [of "g * wf"] f64_le [of "g * wf" 3000] by simp
  moreover have "scaled_gain our cur mx = f64 (g * wf)"
    by (simp add: scaled_gain_def Let_def g_def df_def wf_def f64_of_u32_def MAX_CWND_INCREASE_BYTES_PER_RTT_def)
  ultimately show ?thesis by simp
qed

lemma scaled_gain_nonpos:
  assumes "CCONTROL_TARGET \<le> our"
  shows "scaled_gain our cur mx \<le> 0"
proof -
  define df where "df = f64 (of_int (uint CCONTROL_TARGET - uint our) / f64_of_u32 CCONTROL_TARGET)"
  define wf where "wf = min (f64 (f64_of_u32 cur / f64_of_u32 (max mx 1))) 1"
  have "uint CCONTROL_TARGET - uint our \<le> 0" using assms by (simp add: word_le_def)
  then have "(of_int (uint CCONTROL_TARGET - uint our) :: rat) \<le> 0"
    by (simp only: of_int_le_0_iff)
  then have "df \<le> 0"
    unfolding df_def using f64_of_u32_range by (intro f64_nonpos divide_nonpos_nonneg)
  then have "f64 (3000 * df) \<le> 0" by (intro f64_nonpos) simp
  moreover have "0 \<le> wf"
    unfolding wf_def using f64_nonneg f64_of_u32_range by (simp add: divide_nonneg_nonneg)
  ultimately have "f64 (f64 (3000 * df) * wf) \<le> 0"
    by (intro f64_nonpos) (simp add: mult_nonpos_nonneg)
  then show ?thesis
    by (simp add: scaled_gain_def Let_def df_def wf_def f64_of_u32_def MAX_CWND_INCREASE_BYTES_PER_RTT_def)
qed

lemma sat_i64_id: "- (2 ^ 63) \<le> i \<Longrightarrow> i \<le> 2 ^ 63 - 1 \<Longrightarrow> sat_i64 i = i"
  by (simp add: sat_i64_def)

lemma sat_i64_le: "- (2 ^ 63) \<le> k \<Longrightarrow> i \<le> k \<Longrightarrow> sat_i64 i \<le> k"
  by (simp add: sat_i64_def min_le_iff_disj)

lemma max_window_update [simp]: "cc_max_window (update_packet_size c) = cc_max_window c"
  by (simp add: update_packet_size_def Let_def)

lemma clamped_gain_bounds:
  defines "g c \<equiv> sat_i64 (trunc (scaled_gain (cc_our_delay c) (cc_cur_window c) (cc_max_window c)))"
  shows "if cc_our_delay c \<le> CCONTROL_TARGET then 0 \<le> g c \<and> g c \<le> 3000 else g c \<le> 0"
proof (cases "cc_our_delay c \<le> CCONTROL_TARGET")
  case True
  let ?t = "trunc (scaled_gain (cc_our_delay c) (cc_cur_window c) (cc_max_window c))"
  have "0 \<le> ?t \<and> ?t \<le> 3000"
    using scaled_gain_bounds [OF True, of "cc_cur_window c" "cc_max_window c"] by (intro trunc_between) simp_all
  moreover from this have "g c = ?t" unfolding g_def by (intro sat_i64_id) simp_all
  ultimately show ?thesis using True by simp
next
  case False
  then have "scaled_gain (cc_our_delay c) (cc_cur_window c) (cc_max_window c) \<le> 0"
    by (intro scaled_gain_nonpos) simp
  from trunc_nonpos [OF this] have "g c \<le> 0" unfolding g_def by (intro sat_i64_le) simp_all
  with False show ?thesis by simp
qed

text \<open>
  C34. The window reacts to the delay. Once a delay was measured, an adjustment below the target of
  100 ms grows the window by at most 3000 bytes and never shrinks it, an adjustment above the target
  never grows it, and it does not fall below one packet; the packet size stays between 150 and 1500
  bytes. The hypothesis on the size is needed: near 2^32 the new window is cut to 32 bits.
\<close>

theorem adjust_window_spec:
  assumes "cc_base_delay c \<noteq> U32_MAX" and "uint (cc_max_window c) + 3000 < 2 ^ 32"
  shows "(if cc_our_delay c \<le> CCONTROL_TARGET
      then uint (cc_max_window c) \<le> uint (cc_max_window (adjust_window c)) \<and>
        uint (cc_max_window (adjust_window c)) \<le> max (uint (cc_max_window c) + 3000) 150
      else uint (cc_max_window (adjust_window c)) \<le> max (uint (cc_max_window c)) 150) \<and>
    150 \<le> uint (cc_max_window (adjust_window c)) \<and>
    150 \<le> uint (cc_packet_size (adjust_window c)) \<and> uint (cc_packet_size (adjust_window c)) \<le> 1500"
proof -
  let ?g = "sat_i64 (trunc (scaled_gain (cc_our_delay c) (cc_cur_window c) (cc_max_window c)))"
  let ?m = "uint (cc_max_window c)"
  let ?new = "max 0 (sat_i64 (?m + ?g))"
  have m: "0 \<le> ?m" "?m < 2 ^ 32" using assms(2) by simp_all
  have max': "cc_max_window (adjust_window c) = max (i64_as_u32 ?new) MIN_PACKET_SIZE"
    using assms(1) by (simp add: adjust_window_def Let_def)
  have g: "if cc_our_delay c \<le> CCONTROL_TARGET then 0 \<le> ?g \<and> ?g \<le> 3000 else ?g \<le> 0"
    by (rule clamped_gain_bounds)
  have new: "?new = ?m + ?g" if "cc_our_delay c \<le> CCONTROL_TARGET"
  proof -
    have "0 \<le> ?g" "?g \<le> 3000" using g that by simp_all
    then have sum: "0 \<le> ?m + ?g" "?m + ?g < 2 ^ 32" using m assms(2) by linarith+
    then have "sat_i64 (?m + ?g) = ?m + ?g" by (intro sat_i64_id) simp_all
    then show ?thesis using sum(1) by simp
  qed
  have new': "?new \<le> ?m" if "\<not> cc_our_delay c \<le> CCONTROL_TARGET"
  proof -
    have "?m + ?g \<le> ?m" using g that by simp
    then have "sat_i64 (?m + ?g) \<le> ?m" using order_trans [OF _ m(1), of "- (2 ^ 63)"] by (intro sat_i64_le) simp_all
    then show ?thesis using m by simp
  qed
  have range: "0 \<le> ?new" "?new < 2 ^ 32"
    using new new' g m assms(2) by (auto split: if_splits)
  have "uint (cc_max_window (adjust_window c)) = max ?new 150"
    unfolding max' using uint_i64_as_u32 [OF range]
    by (auto simp: max_def word_le_def MIN_PACKET_SIZE_def)
  moreover have "adjust_window c = update_packet_size (c\<lparr>cc_max_window := max (i64_as_u32 ?new) MIN_PACKET_SIZE\<rparr>)"
    using assms(1) by (simp add: adjust_window_def Let_def)
  moreover note packet_size_bounds [of "c\<lparr>cc_max_window := max (i64_as_u32 ?new) MIN_PACKET_SIZE\<rparr>"]
  ultimately show ?thesis using g new new' m by (auto split: if_splits)
qed

theorem adjust_window_spec_witness:
  "uint (cc_max_window (adjust_window (cc_new\<lparr>cc_max_window := 6000, cc_base_delay := 5, cc_our_delay := 200000\<rparr>))) \<le> 6000"
  using adjust_window_spec [of "cc_new\<lparr>cc_max_window := 6000, cc_base_delay := 5, cc_our_delay := 200000\<rparr>"]
  by (simp add: cc_constants)

subsection \<open>Reachable states\<close>

text \<open>What a connection does to its congestion state; the second argument is the latest time seen.\<close>

inductive cc_reach :: "UtpCongestionControl \<Rightarrow> int \<Rightarrow> bool" where
  start: "cc_reach cc_new t"
| delay: "cc_reach c t \<Longrightarrow> t \<le> now \<Longrightarrow> cc_reach (update_delay v now c) now"
| rtt: "cc_reach c t \<Longrightarrow> update_rtt r c = Ok c' \<Longrightarrow> cc_reach c' t"
| adjust: "cc_reach c t \<Longrightarrow> cc_reach (adjust_window c) t"
| loss: "cc_reach c t \<Longrightarrow> cc_reach (on_packet_loss c) t"
| timeout: "cc_reach c t \<Longrightarrow> on_timeout c = Ok c' \<Longrightarrow> cc_reach c' t"
| sent: "cc_reach c t \<Longrightarrow> cc_reach (add_in_flight n c) t"
| acked: "cc_reach c t \<Longrightarrow> cc_reach (remove_in_flight n c) t"
| window: "cc_reach c t \<Longrightarrow> cc_reach (set_cur_window n c) t"
| received: "cc_reach c t \<Longrightarrow> cc_reach (reset_timeouts c) t"

definition cc_inv :: "UtpCongestionControl \<Rightarrow> int \<Rightarrow> bool" where
  "cc_inv c t \<longleftrightarrow>
     150 \<le> uint (cc_packet_size c) \<and> uint (cc_packet_size c) \<le> 1500 \<and>
     (cc_max_window c = 0 \<or> 150 \<le> uint (cc_max_window c)) \<and> 500 \<le> uint (cc_timeout c) \<and>
     sorted (map ds_time (cc_history c)) \<and> (\<forall>s \<in> set (cc_history c). ds_time s \<le> t) \<and>
     cc_base_delay c = (if cc_history c = [] then U32_MAX else Min (ds_value ` set (cc_history c))) \<and>
     cc_our_delay c \<le> cc_reply_micro c"

lemma saturating_mul_ge: "1 \<le> uint b \<Longrightarrow> uint a \<le> uint (saturating_mul a b)"
proof (cases "checked_mul a b")
  case None
  have "uint a \<le> 2 ^ 32 - 1" using unsigned_less [of a, where ?'a = int] by simp
  with None show ?thesis by (simp add: saturating_mul_def U32_MAX_def)
next
  case (Some c)
  assume "1 \<le> uint b"
  then have "int 1 \<le> int (unat b)" by simp
  then have "1 \<le> unat b" by (simp only: of_nat_le_iff)
  then have "unat a * 1 \<le> unat a * unat b" by (intro mult_left_mono) simp_all
  with unat_checked_mul [OF Some] have "unat a \<le> unat c" by simp
  then have "a \<le> c" by (simp only: word_le_nat_alt)
  then show ?thesis unfolding saturating_mul_def Some by (simp only: option.case word_le_def)
qed

lemma cc_inv_reach: "cc_reach c t \<Longrightarrow> cc_inv c t"
proof (induction rule: cc_reach.induct)
  case (start t)
  show ?case by (simp add: cc_inv_def cc_new_def cc_constants)
next
  case (delay c t now v)
  let ?h = "cc_history c @ [\<lparr>ds_time = now, ds_value = v\<rparr>]"
  let ?c = "update_delay v now c"
  have hist: "cc_history ?c = dropWhile (\<lambda>s. ds_time s < now - BASE_DELAY_WINDOW) ?h"
    by (rule update_delay_history)
  have h: "sorted (map ds_time ?h)" "\<forall>s \<in> set ?h. ds_time s \<le> now"
    using delay.IH delay.hyps(2) by (auto simp: cc_inv_def sorted_append)
  from dropWhile_sorted_filter [OF h(1)] have flt: "cc_history ?c = filter (\<lambda>s. now - BASE_DELAY_WINDOW \<le> ds_time s) ?h"
    using hist by simp
  have sorted: "sorted (map ds_time (cc_history ?c))" unfolding flt using h(1) by (rule sorted_filter)
  have le: "\<forall>s \<in> set (cc_history ?c). ds_time s \<le> now" unfolding flt using h(2) by auto
  have mem: "\<lparr>ds_time = now, ds_value = v\<rparr> \<in> set (cc_history ?c)" unfolding flt by (simp add: BASE_DELAY_WINDOW_def)
  then obtain y ys where ys: "map ds_value (cc_history ?c) = y # ys" by (cases "cc_history ?c") auto
  have base: "cc_base_delay ?c = Min (ds_value ` set (cc_history ?c))"
  proof -
    have "cc_base_delay ?c = foldl min y ys" using ys by (simp add: update_delay_def Let_def)
    also have "\<dots> = Min (set (map ds_value (cc_history ?c)))" unfolding ys by (rule foldl_min)
    finally show ?thesis by simp
  qed
  have same: "cc_packet_size ?c = cc_packet_size c" "cc_max_window ?c = cc_max_window c" "cc_timeout ?c = cc_timeout c"
    "cc_reply_micro ?c = v" "cc_our_delay ?c = saturating_sub v (cc_base_delay ?c)"
    by (simp_all add: update_delay_def Let_def)
  have "saturating_sub v w \<le> v" for w
    by (simp add: saturating_sub_def word_le_nat_alt unat_sub)
  then show ?case
    using delay.IH sorted le base mem unfolding cc_inv_def same by auto
next
  case (rtt c t r c')
  then have "\<exists>a b d e. c' = c\<lparr>cc_rtt := a, cc_rtt_var := b, cc_timeout := max d MIN_TIMEOUT_MS, cc_consecutive := e\<rparr>"
    by (auto simp: update_rtt_def Let_def split: prod.splits)
  with rtt.IH show ?case by (auto simp: cc_inv_def MIN_TIMEOUT_MS_def max_def word_le_def)
next
  case (adjust c t)
  have "cc_inv (update_packet_size c') t" if "cc_inv c t" "c' = c\<lparr>cc_max_window := max w MIN_PACKET_SIZE\<rparr>" for c' w
    using that packet_size_bounds [of c']
    by (auto simp: cc_inv_def update_packet_size_def Let_def MIN_PACKET_SIZE_def max_def word_le_def)
  moreover have "cc_inv (c\<lparr>cc_max_window := max (cc_max_window c) (MIN_PACKET_SIZE * 2)\<rparr>) t"
    using adjust.IH by (auto simp: cc_inv_def MIN_PACKET_SIZE_def max_def word_le_def)
  ultimately show ?case using adjust.IH by (simp add: adjust_window_def Let_def)
next
  case (loss c t)
  let ?c = "c\<lparr>cc_max_window := max (cc_max_window c div 2) MIN_PACKET_SIZE\<rparr>"
  from loss.IH packet_size_bounds [of ?c] show ?case
    unfolding on_packet_loss_def
    by (auto simp: cc_inv_def update_packet_size_def Let_def MIN_PACKET_SIZE_def max_def word_le_def)
next
  case (timeout c t c')
  then obtain n where c': "c' = c\<lparr>cc_packet_size := MIN_PACKET_SIZE, cc_max_window := MIN_PACKET_SIZE, cc_consecutive := n,
      cc_timeout := saturating_mul (cc_timeout c) (2 ^ unat (min n 6))\<rparr>"
    by (auto simp: on_timeout_def)
  have "unat (min n 6) < 32" using word_le_nat_alt [of "min n 6" 6] by simp
  then have "(2 ^ unat (min n 6) :: u32) \<noteq> 0" by simp
  then have "uint (2 ^ unat (min n 6) :: u32) \<noteq> 0" by (simp only: uint_0_iff) simp
  then have "1 \<le> uint (2 ^ unat (min n 6) :: u32)"
    using uint_nonnegative [of "2 ^ unat (min n 6) :: u32"] by linarith
  from saturating_mul_ge [OF this, of "cc_timeout c"] timeout.IH show ?case
    unfolding c' by (auto simp: cc_inv_def MIN_PACKET_SIZE_def)
qed (auto simp: cc_inv_def add_in_flight_def remove_in_flight_def set_cur_window_def reset_timeouts_def)


lemma can_send_fits:
  assumes "can_send p w c"
  shows "unat (cc_cur_window c) + unat p \<le> unat (min (cc_max_window c) w) \<or> min (cc_max_window c) w = U32_MAX"
proof (cases "checked_add (cc_cur_window c) p")
  case None
  with assms have "U32_MAX \<le> min (cc_max_window c) w" by (simp add: can_send_def saturating_add_def)
  moreover have "x \<le> U32_MAX" for x :: u32
    using unsigned_less [of x, where ?'a = nat] by (simp add: U32_MAX_def word_le_nat_alt)
  ultimately show ?thesis by (metis order_antisym)
next
  case (Some s)
  then have "s \<le> min (cc_max_window c) w" using assms by (simp add: can_send_def saturating_add_def)
  with unat_checked_add [OF Some] show ?thesis by (simp add: word_le_nat_alt)
qed

text \<open>
  C32. Reachable congestion states are sound. Whatever sequence of delay samples, round trips,
  adjustments, losses, timeouts and in-flight updates a connection makes, with a clock that does not go back:
  the packet size is between 150 and 1500 bytes, the window is 0 (before the first adjustment) or at least one
  minimal packet, the timeout is at least 500 ms, the samples of the history are in the order of their times, none
  later than now, the base delay is the least of them (or the largest 32 bit number when there is none), and
  the estimate of the queueing delay is at most the last delay the peer reported. Nothing here bounds what is sent: the
  senders of the code do not ask \<open>can_send\<close>.
\<close>

theorem cc_reach_sound:
  assumes "cc_reach c t"
  shows "150 \<le> uint (cc_packet_size c) \<and> uint (cc_packet_size c) \<le> 1500 \<and>
    (cc_max_window c = 0 \<or> 150 \<le> uint (cc_max_window c)) \<and> 500 \<le> uint (cc_timeout c) \<and>
    sorted (map ds_time (cc_history c)) \<and> (\<forall>s \<in> set (cc_history c). ds_time s \<le> t) \<and>
    cc_base_delay c = (if cc_history c = [] then 0xFFFFFFFF else Min (ds_value ` set (cc_history c))) \<and>
    cc_our_delay c \<le> cc_reply_micro c"
  using cc_inv_reach [OF assms] unfolding cc_inv_def U32_MAX_def by simp

theorem cc_reach_sound_witness:
  "let c = on_packet_loss (adjust_window (update_delay 20000 5 cc_new))
   in 150 \<le> uint (cc_packet_size c) \<and> 500 \<le> uint (cc_timeout c) \<and> (\<forall>s \<in> set (cc_history c). ds_time s \<le> 5)"
  using cc_reach_sound [OF cc_reach.loss [OF cc_reach.adjust [OF cc_reach.delay [OF cc_reach.start [of 0], of 5 20000]]]]
  by (simp add: Let_def)

text \<open>
  The backoff of \<open>on_timeout\<close> compounds: the third consecutive timeout waits 64 seconds, where
  doubling at each timeout would wait 8.
\<close>

theorem timeout_backoff_compounds:
  "and_then (on_timeout cc_new) (\<lambda>c. and_then (on_timeout c) (\<lambda>c. and_then (on_timeout c) (\<lambda>c. Ok (cc_timeout c))))
     = Ok 64000"
  by (simp add: on_timeout_def cc_new_def add_u32_def checked_add_def saturating_mul_def checked_mul_def cc_constants)

text \<open>
  An estimate near the largest 32 bit number overflows: one sample of about 24 days panics.
\<close>

theorem update_rtt_overflow: "update_rtt 0x7FFFFFFF cc_new = Panic"
  by (simp add: update_rtt_def cc_new_def mul_u32_def add_u32_def checked_mul_def checked_add_def Let_def)

end
