(* ===== verification/Peer_Manager.thy ===== *)
theory Peer_Manager
  imports Net_Addr "HOL-Library.AList"
begin

section \<open>Pending peers, connections and upload slots\<close>

text \<open>
  The session's bookkeeping of peers: \<open>UniDeque\<close> (\<open>session/uni_deque.rs\<close>), a queue without
  duplicates, \<open>PeerManager\<close> (\<open>session/peer_mgr.rs\<close>), which dials from it with retries and a
  cooldown, and \<open>UploadManager\<close> (\<open>session/upload_mgr.rs\<close>). A \<open>HashMap\<close> is an association list
  with distinct keys, its order that of an iteration. \<open>Instant\<close> and \<open>Duration\<close> are numbers of
  one clock unit; \<open>Instant::now()\<close> is an argument. The type of a connection is a parameter.
\<close>

subsection \<open>A queue without duplicates\<close>

record 'a UniDeque =
  ud_queue :: "'a list"
  ud_set :: "'a set"

definition uni_new :: "'a UniDeque" where
  "uni_new = \<lparr>ud_queue = [], ud_set = {}\<rparr>"

definition push_unique :: "'a \<Rightarrow> 'a UniDeque \<Rightarrow> 'a UniDeque \<times> bool" where
  "push_unique value d =
     (let new = (value \<notin> ud_set d);
          d = d\<lparr>ud_set := insert value (ud_set d)\<rparr>
      in (if new then d\<lparr>ud_queue := ud_queue d @ [value]\<rparr> else d, new))"

definition uni_len :: "'a UniDeque \<Rightarrow> nat" where
  "uni_len d = length (ud_queue d)"

definition drain_first_n :: "nat \<Rightarrow> 'a UniDeque \<Rightarrow> 'a UniDeque \<times> 'a list" where
  "drain_first_n n d =
     (let n = min n (uni_len d); drained = take n (ud_queue d)
      in (\<lparr>ud_queue = drop n (ud_queue d), ud_set = foldl (\<lambda>s x. s - {x}) (ud_set d) drained\<rparr>, drained))"

definition uni_contains :: "'a UniDeque \<Rightarrow> 'a \<Rightarrow> bool" where
  "uni_contains d value \<longleftrightarrow> value \<in> ud_set d"

definition uni_inv :: "'a UniDeque \<Rightarrow> bool" where
  "uni_inv d \<longleftrightarrow> distinct (ud_queue d) \<and> ud_set d = set (ud_queue d)"

text \<open>What a client of such a queue relies on.\<close>

locale unique_fifo =
  fixes inv :: "'d \<Rightarrow> bool" and items :: "'d \<Rightarrow> 'a list" and new :: 'd
    and push :: "'a \<Rightarrow> 'd \<Rightarrow> 'd \<times> bool" and drain :: "nat \<Rightarrow> 'd \<Rightarrow> 'd \<times> 'a list"
  assumes inv_new: "inv new" and items_new: "items new = []"
    and inv_distinct: "inv d \<Longrightarrow> distinct (items d)"
    and inv_push: "inv d \<Longrightarrow> inv (fst (push x d))"
    and items_push: "inv d \<Longrightarrow> items (fst (push x d)) = (if x \<in> set (items d) then items d else items d @ [x])"
    and push_result: "inv d \<Longrightarrow> snd (push x d) \<longleftrightarrow> x \<notin> set (items d)"
    and inv_drain: "inv d \<Longrightarrow> inv (fst (drain n d))"
    and items_drain: "inv d \<Longrightarrow> items (fst (drain n d)) = drop n (items d)"
    and drained: "inv d \<Longrightarrow> snd (drain n d) = take n (items d)"
begin

definition push_all :: "'a list \<Rightarrow> 'd \<Rightarrow> 'd" where
  "push_all xs d = foldl (\<lambda>d x. fst (push x d)) d xs"

lemma push_all_spec:
  "inv d \<Longrightarrow> inv (push_all xs d) \<and> set (items (push_all xs d)) = set (items d) \<union> set xs \<and>
     (\<exists>ys. items (push_all xs d) = items d @ ys)"
proof (induction xs arbitrary: d)
  case (Cons x xs)
  let ?d = "fst (push x d)"
  have "inv ?d" using Cons.prems by (rule inv_push)
  from Cons.IH [OF this] items_push [OF Cons.prems, of x] show ?case
    by (auto simp: push_all_def)
qed (simp add: push_all_def)

lemma drain_rest: "inv d \<Longrightarrow> snd (drain n d) @ items (fst (drain n d)) = items d"
  by (simp add: items_drain drained)

lemma drained_fresh: "inv d \<Longrightarrow> x \<in> set (snd (drain n d)) \<Longrightarrow> x \<notin> set (items (fst (drain n d)))"
  using inv_distinct [of d] set_take_disj_set_drop_if_distinct [of "items d" n n]
  by (auto simp: items_drain drained)

lemma distinct_drained: "inv d \<Longrightarrow> distinct (snd (drain n d))"
  by (simp add: drained inv_distinct)

lemma length_drained: "inv d \<Longrightarrow> length (snd (drain n d)) = min n (length (items d))"
  by (simp add: drained)

end

lemma foldl_diff: "foldl (\<lambda>s x. s - {x}) A xs = A - set xs"
  by (induction xs arbitrary: A) auto

interpretation uniq: unique_fifo uni_inv ud_queue uni_new push_unique drain_first_n
proof
  fix d :: "'a UniDeque" and n
  assume inv: "uni_inv d"
  have take_min: "take (min n (length xs)) xs = take n xs" "drop (min n (length xs)) xs = drop n xs" for xs :: "'a list"
    by (simp_all add: min_def)
  show "snd (drain_first_n n d) = take n (ud_queue d)" "ud_queue (fst (drain_first_n n d)) = drop n (ud_queue d)"
    by (simp_all add: drain_first_n_def uni_len_def Let_def take_min)
  have "set (ud_queue d) = set (take n (ud_queue d)) \<union> set (drop n (ud_queue d))"
    by (metis append_take_drop_id set_append)
  moreover have "set (take n (ud_queue d)) \<inter> set (drop n (ud_queue d)) = {}"
    using inv by (simp add: uni_inv_def set_take_disj_set_drop_if_distinct)
  ultimately have "set (ud_queue d) - set (take n (ud_queue d)) = set (drop n (ud_queue d))" by blast
  with inv show "uni_inv (fst (drain_first_n n d))"
    by (simp add: uni_inv_def drain_first_n_def uni_len_def Let_def foldl_diff take_min)
qed (auto simp: uni_inv_def uni_new_def push_unique_def Let_def)


subsection \<open>The peer manager\<close>

record BackoffState =
  attempts :: u32
  cooldown_until :: nat

definition backoff_new :: "nat \<Rightarrow> nat \<Rightarrow> BackoffState" where
  "backoff_new now cooldown = \<lparr>attempts = 0, cooldown_until = now + cooldown\<rparr>"

definition backoff_increment :: "nat \<Rightarrow> nat \<Rightarrow> BackoffState \<Rightarrow> BackoffState" where
  "backoff_increment now cooldown s = \<lparr>attempts = attempts s + 1, cooldown_until = now + cooldown\<rparr>"

record 'c PeerManager =
  pr_peer_id :: bytes
  pr_info_hash :: bytes
  connections :: "(SocketAddr \<times> 'c) list"
  pending :: "SocketAddr UniDeque"
  max_connections :: u32
  backoff :: "(SocketAddr \<times> BackoffState) list"
  connect_timeout :: nat
  max_retries :: u32
  cooldown :: nat

definition peer_manager_new :: "bytes \<Rightarrow> bytes \<Rightarrow> u32 \<Rightarrow> nat \<Rightarrow> u32 \<Rightarrow> nat \<Rightarrow> 'c PeerManager" where
  "peer_manager_new info_hash peer_id max_conns timeout retries cool =
     \<lparr>pr_peer_id = peer_id, pr_info_hash = info_hash, connections = [], pending = uni_new,
      max_connections = max_conns, backoff = [], connect_timeout = timeout, max_retries = retries,
      cooldown = cool\<rparr>"

definition add_peers :: "SocketAddr list \<Rightarrow> 'c PeerManager \<Rightarrow> 'c PeerManager" where
  "add_peers addrs pm =
     foldl (\<lambda>pm addr. if addr \<in> fst ` set (connections pm) then pm
                      else pm\<lparr>pending := fst (push_unique addr (pending pm))\<rparr>) pm addrs"

definition remove_peer :: "SocketAddr \<Rightarrow> 'c PeerManager \<Rightarrow> 'c PeerManager" where
  "remove_peer addr pm =
     pm\<lparr>connections := AList.delete addr (connections pm), backoff := AList.delete addr (backoff pm)\<rparr>"

definition num_connections :: "'c PeerManager \<Rightarrow> nat" where
  "num_connections pm = length (connections pm)"

definition connection :: "SocketAddr \<Rightarrow> 'c PeerManager \<Rightarrow> 'c option" where
  "connection addr pm = map_of (connections pm) addr"

definition connection_addrs :: "'c PeerManager \<Rightarrow> SocketAddr list" where
  "connection_addrs pm = map fst (connections pm)"

text \<open>
  \<open>send_to\<close> answers \<open>Ok\<close> when there is no connection to the address. What a connection does with a
  message is network input and output, here a function \<open>send\<close>.
\<close>

definition send_to :: "('c \<Rightarrow> 'm \<Rightarrow> unit result) \<Rightarrow> 'c PeerManager \<Rightarrow> SocketAddr \<Rightarrow> 'm \<Rightarrow> unit result" where
  "send_to send pm addr msg =
     (case map_of (connections pm) addr of Some conn \<Rightarrow> send conn msg | None \<Rightarrow> Ok ())"

fun drain_batch_loop ::
  "nat \<Rightarrow> (SocketAddr \<times> BackoffState) list \<Rightarrow> SocketAddr list \<Rightarrow> SocketAddr UniDeque \<Rightarrow> SocketAddr list
   \<Rightarrow> SocketAddr UniDeque \<times> SocketAddr list" where
  "drain_batch_loop now bo [] pend batch = (pend, batch)"
| "drain_batch_loop now bo (addr # raw) pend batch =
     (case map_of bo addr of
        Some state \<Rightarrow>
          if now < cooldown_until state then drain_batch_loop now bo raw (fst (push_unique addr pend)) batch
          else drain_batch_loop now bo raw pend (batch @ [addr])
      | None \<Rightarrow> drain_batch_loop now bo raw pend (batch @ [addr]))"

definition drain_pending_batch :: "nat \<Rightarrow> 'c PeerManager \<Rightarrow> 'c PeerManager \<times> SocketAddr list" where
  "drain_pending_batch now pm =
     (let batch_size = unat (max_connections pm) - length (connections pm);
          (pend, raw_batch) = drain_first_n batch_size (pending pm)
      in if raw_batch = [] then (pm\<lparr>pending := pend\<rparr>, [])
         else let (pend, batch) = drain_batch_loop now (backoff pm) raw_batch pend []
              in (pm\<lparr>pending := pend\<rparr>, batch))"

text \<open>
  The results of a batch of connection attempts. The debug assertion that a retried address is
  not pending yet is no part of a release build.
\<close>

fun apply_outcome ::
  "nat \<Rightarrow> 'c PeerManager \<times> SocketAddr list \<Rightarrow> SocketAddr \<times> (ErrorKind + 'c) \<Rightarrow> 'c PeerManager \<times> SocketAddr list" where
  "apply_outcome now (pm, connected) (addr, Inr conn) =
     (pm\<lparr>connections := AList.update addr conn (connections pm), backoff := AList.delete addr (backoff pm)\<rparr>,
      connected @ [addr])"
| "apply_outcome now (pm, connected) (addr, Inl e) =
     (let state = (case map_of (backoff pm) addr of Some s \<Rightarrow> s | None \<Rightarrow> backoff_new now (cooldown pm))
      in (if attempts state < max_retries pm
          then pm\<lparr>backoff := AList.update addr (backoff_increment now (cooldown pm) state) (backoff pm),
                  pending := fst (push_unique addr (pending pm))\<rparr>
          else pm\<lparr>backoff := AList.delete addr (backoff pm)\<rparr>, connected))"

definition apply_connect_results ::
  "nat \<Rightarrow> (SocketAddr \<times> (ErrorKind + 'c)) list \<Rightarrow> SocketAddr list \<Rightarrow> 'c PeerManager
   \<Rightarrow> 'c PeerManager \<times> SocketAddr list" where
  "apply_connect_results now outcomes batch pm =
     (let processed = fst ` set outcomes;
          (pm, connected) = foldl (apply_outcome now) (pm, []) outcomes;
          pm = foldl (\<lambda>pm addr. if addr \<in> processed then pm
                                else pm\<lparr>pending := fst (push_unique addr (pending pm))\<rparr>) pm batch
      in (pm, connected))"

subsection \<open>Upload slots\<close>

record UploadManager =
  max_uploads :: u32
  unchoked :: "SocketAddr list"

definition upload_new :: "u32 \<Rightarrow> UploadManager" where
  "upload_new n = \<lparr>max_uploads = n, unchoked = []\<rparr>"

definition is_unchoked :: "SocketAddr \<Rightarrow> UploadManager \<Rightarrow> bool" where
  "is_unchoked addr um \<longleftrightarrow> addr \<in> set (unchoked um)"

definition um_choke :: "SocketAddr \<Rightarrow> UploadManager \<Rightarrow> UploadManager" where
  "um_choke addr um = um\<lparr>unchoked := removeAll addr (unchoked um)\<rparr>"

definition um_unchoke :: "SocketAddr \<Rightarrow> UploadManager \<Rightarrow> UploadManager" where
  "um_unchoke addr um =
     (if length (unchoked um) < unat (max_uploads um) then um\<lparr>unchoked := List.insert addr (unchoked um)\<rparr>
      else um)"


subsection \<open>The invariant of the peer manager\<close>

definition pr_inv :: "'c PeerManager \<Rightarrow> bool" where
  "pr_inv pm \<longleftrightarrow> uni_inv (pending pm) \<and> distinct (map fst (connections pm)) \<and>
     distinct (map fst (backoff pm)) \<and> list_all (\<lambda>(_, s). attempts s \<le> max_retries pm) (backoff pm)"

definition cooling :: "nat \<Rightarrow> (SocketAddr \<times> BackoffState) list \<Rightarrow> SocketAddr \<Rightarrow> bool" where
  "cooling now bo addr = (case map_of bo addr of Some s \<Rightarrow> now < cooldown_until s | None \<Rightarrow> False)"

lemma pr_inv_new [simp]: "pr_inv (peer_manager_new ih pid mc t mr cd)"
  by (simp add: pr_inv_def peer_manager_new_def uniq.inv_new)

lemma drain_batch_loop_eq:
  "drain_batch_loop now bo raw pend batch =
     (uniq.push_all (filter (cooling now bo) raw) pend, batch @ filter (\<lambda>a. \<not> cooling now bo a) raw)"
  by (induction raw arbitrary: pend batch)
     (auto simp: cooling_def uniq.push_all_def split: option.splits)

lemma add_peers_eq:
  "add_peers addrs pm =
     pm\<lparr>pending := uniq.push_all (filter (\<lambda>a. a \<notin> fst ` set (connections pm)) addrs) (pending pm)\<rparr>"
  by (induction addrs arbitrary: pm) (simp_all add: add_peers_def uniq.push_all_def)

lemma requeue_eq:
  "foldl (\<lambda>pm addr. if addr \<in> processed then pm else pm\<lparr>pending := fst (push_unique addr (pending pm))\<rparr>) pm batch
     = pm\<lparr>pending := uniq.push_all (filter (\<lambda>a. a \<notin> processed) batch) (pending pm)\<rparr>"
  by (induction batch arbitrary: pm) (simp_all add: uniq.push_all_def)

lemmas push_all_facts = uniq.push_all_spec [THEN conjunct1] uniq.push_all_spec [THEN conjunct2, THEN conjunct1]

lemma pr_inv_pending: "pr_inv pm \<Longrightarrow> uni_inv d \<Longrightarrow> pr_inv (pm\<lparr>pending := d\<rparr>)"
  by (simp add: pr_inv_def)

lemma add_peers_inv: "pr_inv pm \<Longrightarrow> pr_inv (add_peers addrs pm)"
  by (simp add: add_peers_eq pr_inv_pending push_all_facts pr_inv_def)

lemma list_all_delete: "list_all P xs \<Longrightarrow> list_all P (AList.delete k xs)"
  by (auto simp: AList.delete_eq list_all_iff)

lemma list_all_update: "list_all P xs \<Longrightarrow> P (k, v) \<Longrightarrow> list_all P (AList.update k v xs)"
  by (induction xs) auto

lemmas alist_inv = AList.distinct_delete AList.distinct_update list_all_delete list_all_update

lemma remove_peer_inv: "pr_inv pm \<Longrightarrow> pr_inv (remove_peer addr pm)"
  by (simp add: pr_inv_def remove_peer_def alist_inv)

lemma drain_pending_batch_spec:
  assumes "pr_inv pm" and "drain_pending_batch now pm = (pm', batch)"
  shows "pr_inv pm'" and "pm' = pm\<lparr>pending := pending pm'\<rparr>"
    and "length batch \<le> unat (max_connections pm) - length (connections pm)" and "distinct batch"
    and "set batch \<union> set (ud_queue (pending pm')) = set (ud_queue (pending pm))"
    and "set batch \<inter> set (ud_queue (pending pm')) = {}"
    and "\<forall>a. a \<in> set batch \<longrightarrow> \<not> cooling now (backoff pm) a"
proof -
  let ?n = "unat (max_connections pm) - length (connections pm)"
  obtain pend raw where d: "drain_first_n ?n (pending pm) = (pend, raw)" by force
  have inv: "uni_inv (pending pm)" using assms(1) by (simp add: pr_inv_def)
  note dr = uniq.inv_drain [OF inv, of ?n] uniq.drain_rest [OF inv, of ?n] uniq.length_drained [OF inv, of ?n]
    uniq.distinct_drained [OF inv, of ?n] uniq.drained_fresh [OF inv, of _ ?n]
  let ?pend = "uniq.push_all (filter (cooling now (backoff pm)) raw) pend"
  have res: "pm' = pm\<lparr>pending := ?pend\<rparr>" "batch = filter (\<lambda>a. \<not> cooling now (backoff pm) a) raw"
    using assms(2) d by (auto simp: drain_pending_batch_def drain_batch_loop_eq uniq.push_all_def split: if_splits)
  have pend: "uni_inv pend" using dr(1) d by simp
  note q = push_all_facts [OF pend, of "filter (cooling now (backoff pm)) raw"]
  show "pr_inv pm'" using assms(1) q(1) by (simp add: res pr_inv_pending)
  show "pm' = pm\<lparr>pending := pending pm'\<rparr>" by (simp add: res)
  show "length batch \<le> ?n" using dr(3) d length_filter_le [of "\<lambda>a. \<not> cooling now (backoff pm) a" raw]
    by (simp add: res(2))
  show "distinct batch" using dr(4) d by (simp add: res(2))
  have "set raw \<union> set (ud_queue pend) = set (ud_queue (pending pm))"
    using arg_cong [OF dr(2), of set] d by simp
  then show "set batch \<union> set (ud_queue (pending pm')) = set (ud_queue (pending pm))"
    using q(2) by (auto simp: res)
  show "set batch \<inter> set (ud_queue (pending pm')) = {}"
    using q(2) dr(5) d by (auto simp: res)
  show "\<forall>a. a \<in> set batch \<longrightarrow> \<not> cooling now (backoff pm) a" by (simp add: res(2))
qed


lemma length_update: "length (AList.update k v xs) = (if k \<in> fst ` set xs then length xs else Suc (length xs))"
  by (induction xs) auto

lemma u32_Suc_le: "a < (b :: u32) \<Longrightarrow> a + 1 \<le> b"
  by (rule inc_le)

lemma apply_outcome_inv:
  assumes "pr_inv pm" and "apply_outcome now (pm, con) oc = (pm', con')"
  shows "pr_inv pm' \<and> length (connections pm') \<le> Suc (length (connections pm)) \<and>
    max_connections pm' = max_connections pm \<and> max_retries pm' = max_retries pm \<and> cooldown pm' = cooldown pm"
proof (cases oc)
  case (Pair addr r)
  show ?thesis
  proof (cases r)
    case (Inl e)
    have "attempts s \<le> max_retries pm" if "map_of (backoff pm) addr = Some s" for s
      using assms(1) map_of_SomeD [OF that] by (auto simp: pr_inv_def list_all_iff)
    then show ?thesis
      using assms Inl Pair by (auto simp: pr_inv_def backoff_increment_def backoff_new_def Let_def uniq.inv_push
          intro!: alist_inv u32_Suc_le u32_Suc_le [of 0, simplified] split: if_splits option.splits)
  next
    case (Inr c)
    with assms Pair show ?thesis by (auto simp: pr_inv_def alist_inv length_update)
  qed
qed

lemma apply_outcomes_inv:
  assumes "pr_inv pm" and "foldl (apply_outcome now) (pm, con) outs = (pm', con')"
  shows "pr_inv pm' \<and> length (connections pm') \<le> length (connections pm) + length outs \<and>
    max_connections pm' = max_connections pm \<and> max_retries pm' = max_retries pm \<and> cooldown pm' = cooldown pm"
  using assms
proof (induction outs arbitrary: pm con)
  case (Cons oc outs)
  obtain pm1 con1 where 1: "apply_outcome now (pm, con) oc = (pm1, con1)" by force
  from apply_outcome_inv [OF Cons.prems(1) 1] Cons.IH [of pm1 con1] Cons.prems(2) 1
  show ?case by auto
qed simp

text \<open>
  The manager over time: peers may be added and removed at any moment, one batch of attempts is
  under way at most (\<open>connect_pending\<close> of the swarm loop waits for it), and its outcomes are for
  distinct addresses of the batch.
\<close>

inductive peer_run :: "u32 \<Rightarrow> u32 \<Rightarrow> 'c PeerManager \<times> SocketAddr list option \<Rightarrow> bool" for mc mr where
  start: "peer_run mc mr (peer_manager_new ih pid mc timeout mr cd, None)"
| add: "peer_run mc mr (pm, out) \<Longrightarrow> peer_run mc mr (add_peers addrs pm, out)"
| remove: "peer_run mc mr (pm, out) \<Longrightarrow> peer_run mc mr (remove_peer addr pm, out)"
| drain: "peer_run mc mr (pm, None) \<Longrightarrow> drain_pending_batch now pm = (pm', batch) \<Longrightarrow>
    peer_run mc mr (pm', Some batch)"
| results: "peer_run mc mr (pm, Some batch) \<Longrightarrow> distinct (map fst outs) \<Longrightarrow> fst ` set outs \<subseteq> set batch \<Longrightarrow>
    apply_connect_results now outs batch pm = (pm', con) \<Longrightarrow> peer_run mc mr (pm', None)"

definition in_flight :: "SocketAddr list option \<Rightarrow> nat" where
  "in_flight out = (case out of Some batch \<Rightarrow> length batch | None \<Rightarrow> 0)"

lemma length_delete_le: "length (AList.delete k xs) \<le> length xs"
  by (simp add: AList.delete_eq)

lemma connect_results_inv:
  assumes "pr_inv pm" and "apply_connect_results now outs batch pm = (pm', con)"
  shows "pr_inv pm' \<and> length (connections pm') \<le> length (connections pm) + length outs \<and>
    max_connections pm' = max_connections pm \<and> max_retries pm' = max_retries pm"
proof -
  obtain pm1 c1 where 1: "foldl (apply_outcome now) (pm, []) outs = (pm1, c1)" by force
  with apply_outcomes_inv [OF assms(1) 1] assms(2) show ?thesis
    by (auto simp: apply_connect_results_def requeue_eq Let_def pr_inv_pending push_all_facts pr_inv_def)
qed

lemma peer_run_inv:
  assumes "peer_run mc mr (pm, out)"
  shows "pr_inv pm \<and> length (connections pm) + in_flight out \<le> unat mc \<and> max_connections pm = mc \<and> max_retries pm = mr"
  using assms
proof (induction "(pm, out)" arbitrary: pm out)
  case (start ih pid timeout cd)
  then show ?case by (simp add: in_flight_def, simp add: peer_manager_new_def)
next
  case (add pm out addrs)
  then show ?case by (simp add: add_peers_inv, simp add: add_peers_eq)
next
  case (remove pm out addr)
  with length_delete_le [of addr "connections pm"] show ?case
    by (simp add: remove_peer_inv, simp add: remove_peer_def)
next
  case (drain pm now pm' batch)
  then have inv: "pr_inv pm" by simp
  note d = drain_pending_batch_spec [OF inv drain.hyps(3)]
  have "connections pm' = connections pm \<and> max_connections pm' = max_connections pm \<and> max_retries pm' = max_retries pm"
    by (subst d(2), subst (2) d(2), subst (3) d(2)) simp
  with d(1,3) drain.hyps(2) show ?case by (auto simp: in_flight_def)
next
  case (results pm batch outs now pm' con)
  then have "length outs \<le> length batch"
    by (metis card_mono card_length distinct_card finite_set le_trans length_map set_map)
  with results connect_results_inv [of pm now outs batch pm' con] show ?case by (simp add: in_flight_def)
qed


subsection \<open>What becomes of an address\<close>

definition tries :: "'c PeerManager \<Rightarrow> SocketAddr \<Rightarrow> u32" where
  "tries pm addr = (case map_of (backoff pm) addr of Some s \<Rightarrow> attempts s | None \<Rightarrow> 0)"

definition is_retry :: "'c PeerManager \<Rightarrow> (SocketAddr \<times> (ErrorKind + 'c)) list \<Rightarrow> SocketAddr \<Rightarrow> bool" where
  "is_retry pm outs a \<longleftrightarrow> (\<exists>e. map_of outs a = Some (Inl e)) \<and> tries pm a < max_retries pm"

definition backoff_after :: "nat \<Rightarrow> 'c PeerManager \<Rightarrow> (SocketAddr \<times> (ErrorKind + 'c)) list \<Rightarrow> SocketAddr \<Rightarrow> BackoffState option" where
  "backoff_after now pm outs a =
     (case map_of outs a of
        None \<Rightarrow> map_of (backoff pm) a
      | Some (Inr c) \<Rightarrow> None
      | Some (Inl e) \<Rightarrow> if tries pm a < max_retries pm
                        then Some \<lparr>attempts = tries pm a + 1, cooldown_until = now + cooldown pm\<rparr> else None)"

definition connected_after :: "'c PeerManager \<Rightarrow> (SocketAddr \<times> (ErrorKind + 'c)) list \<Rightarrow> SocketAddr \<Rightarrow> 'c option" where
  "connected_after pm outs a =
     (case map_of outs a of Some (Inr c) \<Rightarrow> Some c | _ \<Rightarrow> map_of (connections pm) a)"

definition connected_list :: "(SocketAddr \<times> (ErrorKind + 'c)) list \<Rightarrow> SocketAddr list" where
  "connected_list outs = map fst (filter (\<lambda>(_, r). \<not> isl r) outs)"

lemma map_of_delete: "map_of (AList.delete k xs) = (map_of xs)(k := None)"
  by (rule AList.delete_conv')

lemma map_of_update: "map_of (AList.update k v xs) = (map_of xs)(k \<mapsto> v)"
  by (rule AList.update_conv')

lemma apply_outcome_spec:
  assumes "pr_inv pm" and "apply_outcome now (pm, con) oc = (pm', con')"
  shows "map_of (connections pm') a = connected_after pm [oc] a"
    and "map_of (backoff pm') a = backoff_after now pm [oc] a"
    and "a \<in> set (ud_queue (pending pm')) \<longleftrightarrow> a \<in> set (ud_queue (pending pm)) \<or> is_retry pm [oc] a"
    and "con' = con @ connected_list [oc]"
proof -
  have "uni_inv (pending pm)" using assms(1) by (simp add: pr_inv_def)
  note push = uniq.items_push [OF this]
  obtain addr r where oc: "oc = (addr, r)" by force
  show "map_of (connections pm') a = connected_after pm [oc] a" "map_of (backoff pm') a = backoff_after now pm [oc] a"
    "a \<in> set (ud_queue (pending pm')) \<longleftrightarrow> a \<in> set (ud_queue (pending pm)) \<or> is_retry pm [oc] a"
    "con' = con @ connected_list [oc]"
    using assms(2) oc
    by (cases r; cases "map_of (backoff pm) addr";
        force simp: connected_after_def backoff_after_def is_retry_def connected_list_def tries_def push Let_def
          map_of_delete map_of_update backoff_new_def backoff_increment_def split: if_splits)+
qed

lemma apply_outcomes_spec:
  assumes "pr_inv pm" and "distinct (map fst outs)" and "foldl (apply_outcome now) (pm, con) outs = (pm', con')"
  shows "map_of (connections pm') a = connected_after pm outs a \<and>
    map_of (backoff pm') a = backoff_after now pm outs a \<and>
    (a \<in> set (ud_queue (pending pm')) \<longleftrightarrow> a \<in> set (ud_queue (pending pm)) \<or> is_retry pm outs a) \<and>
    con' = con @ connected_list outs"
  using assms
proof (induction outs arbitrary: pm con)
  case Nil
  then show ?case by (simp add: connected_after_def backoff_after_def is_retry_def connected_list_def)
next
  case (Cons oc outs)
  obtain pm1 con1 where 1: "apply_outcome now (pm, con) oc = (pm1, con1)" by force
  note one = apply_outcome_spec [OF Cons.prems(1) 1] apply_outcome_inv [OF Cons.prems(1) 1]
  from Cons.IH [of pm1 con1] Cons.prems one(5) 1
  have IH: "map_of (connections pm') a = connected_after pm1 outs a" "map_of (backoff pm') a = backoff_after now pm1 outs a"
    "a \<in> set (ud_queue (pending pm')) \<longleftrightarrow> a \<in> set (ud_queue (pending pm1)) \<or> is_retry pm1 outs a"
    "con' = con1 @ connected_list outs" by simp_all
  have other: "map_of outs (fst oc) = None" using Cons.prems(2) by (simp add: map_of_eq_None_iff)
  have con': "con' = con @ connected_list (oc # outs)"
    using IH(4) one(4) by (simp add: connected_list_def)
  note defs = connected_after_def backoff_after_def is_retry_def
  show ?case
  proof (cases "a = fst oc")
    case True
    have "map_of (oc # outs) a = map_of [oc] a" "map_of outs a = None"
      using True other by simp_all
    with IH(1-3) one(1-3) [of a] show ?thesis
      by (simp add: defs con' del: map_of.simps)
  next
    case False
    then have m: "map_of (oc # outs) a = map_of outs a" "map_of [oc] a = None" by (cases oc; simp)+
    with one(1-3) [of a] have
      "map_of (connections pm1) a = map_of (connections pm) a" "map_of (backoff pm1) a = map_of (backoff pm) a"
      "a \<in> set (ud_queue (pending pm1)) \<longleftrightarrow> a \<in> set (ud_queue (pending pm))"
      by (simp_all add: defs del: map_of.simps)
    moreover from this(2) have "tries pm1 a = tries pm a" by (simp add: tries_def)
    ultimately show ?thesis
      using IH(1-3) m(1) one(5) by (auto simp: defs con' simp del: map_of.simps split: option.split sum.split)
  qed
qed


lemma connect_results_spec:
  assumes "pr_inv pm" and "distinct (map fst outs)" and "apply_connect_results now outs batch pm = (pm', con)"
  shows "map_of (connections pm') a = connected_after pm outs a"
    and "map_of (backoff pm') a = backoff_after now pm outs a"
    and "a \<in> set (ud_queue (pending pm')) \<longleftrightarrow>
      a \<in> set (ud_queue (pending pm)) \<or> is_retry pm outs a \<or> a \<in> set batch \<and> map_of outs a = None"
    and "con = connected_list outs"
proof -
  obtain pm1 c1 where 1: "foldl (apply_outcome now) (pm, []) outs = (pm1, c1)" by force
  note s = apply_outcomes_spec [OF assms(1,2) 1]
  have uni: "uni_inv (pending pm1)" using apply_outcomes_inv [OF assms(1) 1] by (simp add: pr_inv_def)
  have res: "con = c1" "pm' = pm1\<lparr>pending := uniq.push_all (filter (\<lambda>a. a \<notin> fst ` set outs) batch) (pending pm1)\<rparr>"
    using assms(3) 1 by (simp_all add: apply_connect_results_def requeue_eq Let_def)
  show "map_of (connections pm') a = connected_after pm outs a" "map_of (backoff pm') a = backoff_after now pm outs a"
    "con = connected_list outs"
    using s by (simp_all add: res)
  show "a \<in> set (ud_queue (pending pm')) \<longleftrightarrow>
      a \<in> set (ud_queue (pending pm)) \<or> is_retry pm outs a \<or> a \<in> set batch \<and> map_of outs a = None"
    using s push_all_facts(2) [OF uni] by (auto simp: res map_of_eq_None_iff)
qed

text \<open>
  C25. No address is lost. In a round of connection attempts (\<open>drain_pending_batch\<close>, then
  \<open>apply_connect_results\<close> with one outcome at most per address of the batch) a pending address
  whose attempt succeeded is connected, one whose attempt failed is pending again with one more
  attempt counted and a new cooldown, unless its retries are used up, and every other one, an
  attempt that timed out without an outcome included, is pending as before.
\<close>

theorem dial_round_spec:
  assumes "pr_inv pm" and "drain_pending_batch now pm = (pm1, batch)" and "distinct (map fst outs)"
    and "fst ` set outs \<subseteq> set batch" and "apply_connect_results now' outs batch pm1 = (pm2, con)"
  shows "pr_inv pm2 \<and> con = connected_list outs \<and> map_of (connections pm2) a = connected_after pm outs a \<and>
    map_of (backoff pm2) a = backoff_after now' pm outs a \<and>
    (a \<in> set (ud_queue (pending pm2)) \<longleftrightarrow>
       a \<in> set (ud_queue (pending pm)) \<and> (map_of outs a = None \<or> is_retry pm outs a))"
proof -
  note d = drain_pending_batch_spec [OF assms(1,2)]
  note r = connect_results_spec(1-3) [OF d(1) assms(3,5), of a] connect_results_spec(4) [OF d(1) assms(3,5)]
  have eq: "connections pm1 = connections pm" "backoff pm1 = backoff pm" "max_retries pm1 = max_retries pm"
      "cooldown pm1 = cooldown pm"
    by (subst d(2), simp)+
  have same: "connected_after pm1 outs a = connected_after pm outs a"
      "backoff_after now' pm1 outs a = backoff_after now' pm outs a" "is_retry pm1 outs a = is_retry pm outs a"
    unfolding connected_after_def backoff_after_def is_retry_def tries_def eq by (rule refl)+
  have "a \<in> set batch" if "map_of outs a \<noteq> None"
    using that assms(4) by (auto simp: map_of_eq_None_iff)
  moreover have "is_retry pm outs a \<Longrightarrow> map_of outs a \<noteq> None" by (auto simp: is_retry_def)
  ultimately show ?thesis
    using connect_results_inv [OF d(1) assms(5)] r d(5,6) unfolding same by blast
qed

text \<open>
  C24. Connections stay within the limit. Whatever peers are added and removed in between, the
  connections and the attempts under way never exceed \<open>max_connections\<close>, no address is pending
  twice or connected twice, and no retry count exceeds \<open>max_retries\<close>.
\<close>

theorem peer_run_sound:
  assumes "peer_run mc mr (pm, out)"
  shows "num_connections pm + in_flight out \<le> unat mc \<and> distinct (connection_addrs pm) \<and>
    distinct (ud_queue (pending pm)) \<and> ud_set (pending pm) = set (ud_queue (pending pm)) \<and>
    list_all (\<lambda>(_, s). attempts s \<le> mr) (backoff pm)"
  using peer_run_inv [OF assms]
  by (auto simp: num_connections_def connection_addrs_def pr_inv_def uni_inv_def)

subsection \<open>Giving up\<close>

definition fail_round :: "nat \<times> nat \<Rightarrow> 'c PeerManager \<Rightarrow> 'c PeerManager \<times> SocketAddr list" where
  "fail_round = (\<lambda>(now, now') pm.
     let (pm1, batch) = drain_pending_batch now pm;
         (pm2, con) = apply_connect_results now' (map (\<lambda>a. (a, Inl PeerConnectionClosed)) batch) batch pm1
     in (pm2, batch))"

fun fail_rounds :: "(nat \<times> nat) list \<Rightarrow> 'c PeerManager \<Rightarrow> 'c PeerManager \<times> SocketAddr list" where
  "fail_rounds [] pm = (pm, [])"
| "fail_rounds (t # ts) pm =
     (let (pm1, dialed) = fail_round t pm; (pm2, more) = fail_rounds ts pm1 in (pm2, dialed @ more))"

definition dial_budget :: "SocketAddr \<Rightarrow> 'c PeerManager \<Rightarrow> nat" where
  "dial_budget a pm =
     (if a \<in> set (ud_queue (pending pm)) then unat (max_retries pm) + 1 - unat (tries pm a) else 0)"

lemma map_of_const: "map_of (map (\<lambda>a. (a, v)) xs) a = (if a \<in> set xs then Some v else None)"
  by (induction xs) auto

lemma tries_le: "pr_inv pm \<Longrightarrow> unat (tries pm a) \<le> unat (max_retries pm)"
  by (auto simp: tries_def pr_inv_def list_all_iff word_le_nat_alt dest!: map_of_SomeD split: option.split)

lemma unat_Suc_less: "a < (b :: u32) \<Longrightarrow> unat (a + 1) = unat a + 1"
  using unsigned_less [of b, where 'a = nat] by (simp add: word_less_nat_alt unat_word_ariths)

lemma count_list_distinct: "distinct xs \<Longrightarrow> count_list xs a = (if a \<in> set xs then 1 else 0)"
  by (induction xs) (auto simp: count_list_0_iff)

lemma fail_round_budget:
  assumes "pr_inv pm" and "fail_round t pm = (pm', dialed)"
  shows "pr_inv pm'" and "count_list dialed a + dial_budget a pm' = dial_budget a pm"
proof -
  obtain now now' where t: "t = (now, now')" by force
  obtain pm1 where d: "drain_pending_batch now pm = (pm1, dialed)"
    and r: "fst (apply_connect_results now' (map (\<lambda>a. (a, Inl PeerConnectionClosed)) dialed) dialed pm1) = pm'"
    using assms(2) by (auto simp: fail_round_def t split: prod.splits)
  note ds = drain_pending_batch_spec [OF assms(1) d]
  let ?outs = "map (\<lambda>a. (a, Inl PeerConnectionClosed)) dialed :: (SocketAddr \<times> (ErrorKind + 'a)) list"
  obtain con where r': "apply_connect_results now' ?outs dialed pm1 = (pm', con)" using r by (metis prod.collapse)
  have outs: "distinct (map fst ?outs)" "fst ` set ?outs \<subseteq> set dialed"
    using ds(4) by (auto simp: comp_def)
  note s = dial_round_spec [OF assms(1) d outs r', of a]
  show "pr_inv pm'" using s by simp
  have same: "max_retries pm' = max_retries pm"
    using connect_results_inv [OF ds(1) r'] ds(2) by (metis PeerManager.select_convs(8) PeerManager.surjective PeerManager.update_convs(4))
  have count: "count_list dialed a = (if a \<in> set dialed then 1 else 0)"
    using ds(4) by (rule count_list_distinct)
  show "count_list dialed a + dial_budget a pm' = dial_budget a pm"
  proof (cases "a \<in> set dialed")
    case True
    then have m: "map_of ?outs a = Some (Inl PeerConnectionClosed)" "a \<in> set (ud_queue (pending pm))"
      using ds(5) by (auto simp: map_of_const)
    show ?thesis
    proof (cases "tries pm a < max_retries pm")
      case lt: True
      then have "tries pm' a = tries pm a + 1" using s m(1) by (simp add: tries_def [of pm'] backoff_after_def)
      with lt s m True same unat_Suc_less [OF lt] show ?thesis
        by (simp add: dial_budget_def is_retry_def count word_less_nat_alt)
    next
      case False
      with tries_le [OF assms(1), of a] have "unat (tries pm a) = unat (max_retries pm)"
        by (simp add: word_less_nat_alt)
      with False s m True show ?thesis by (simp add: dial_budget_def is_retry_def count)
    qed
  next
    case False
    then have m: "map_of ?outs a = None" by (simp add: map_of_const)
    then have "tries pm' a = tries pm a" using s by (simp add: tries_def backoff_after_def)
    with s m False same show ?thesis by (simp add: dial_budget_def count is_retry_def)
  qed
qed

text \<open>
  C26. A failing address is given up. If every attempt fails, an address that was pending is dialed
  at most \<open>max_retries + 1\<close> times more, less the retries counted already, however many rounds
  follow and at whatever times: each attempt uses up one unit of its budget, and the address is
  pending exactly as long as budget is left.
\<close>

theorem failing_peer_given_up:
  assumes "pr_inv pm" and "fail_rounds ts pm = (pm', dialed)"
  shows "count_list dialed a + dial_budget a pm' = dial_budget a pm \<and>
    dial_budget a pm \<le> unat (max_retries pm) + 1 \<and>
    (a \<in> set (ud_queue (pending pm')) \<longleftrightarrow> count_list dialed a < dial_budget a pm)"
proof -
  have "pr_inv pm' \<and> count_list dialed a + dial_budget a pm' = dial_budget a pm"
    using assms
  proof (induction ts arbitrary: pm dialed)
    case (Cons t ts)
    obtain pm1 d1 where 1: "fail_round t pm = (pm1, d1)" by force
    obtain pm2 d2 where 2: "fail_rounds ts pm1 = (pm2, d2)" by force
    have "pm' = pm2" "dialed = d1 @ d2" using Cons.prems(2) 1 2 by simp_all
    with Cons.IH [of pm1 d2] 2 fail_round_budget(1) [OF Cons.prems(1) 1] fail_round_budget(2) [OF Cons.prems(1) 1, of a]
    show ?case by (simp flip: add.assoc)
  qed simp
  moreover from this have "dial_budget a pm' = 0 \<longleftrightarrow> a \<notin> set (ud_queue (pending pm'))"
    using tries_le [of pm' a] by (auto simp: dial_budget_def)
  ultimately show ?thesis by (auto simp: dial_budget_def)
qed


subsection \<open>Concrete runs\<close>

definition sample_peer :: "u16 \<Rightarrow> SocketAddr" where
  "sample_peer p = SocketAddr (V4 1) p"

definition sample_manager :: "u32 \<Rightarrow> bool PeerManager" where
  "sample_manager retries = add_peers [sample_peer 1, sample_peer 2, sample_peer 3] (peer_manager_new [] [] 2 5 retries 30)"

lemma sample_manager_eq:
  "sample_manager r = (peer_manager_new [] [] 2 5 r 30)
     \<lparr>pending := \<lparr>ud_queue = [sample_peer 1, sample_peer 2, sample_peer 3], ud_set = {sample_peer 3, sample_peer 2, sample_peer 1}\<rparr>\<rparr>"
  by (simp add: sample_manager_def add_peers_def peer_manager_new_def push_unique_def Let_def uni_new_def sample_peer_def)

lemma sample_manager_inv: "pr_inv (sample_manager r)"
  unfolding sample_manager_def by (intro add_peers_inv pr_inv_new)

lemmas peer_eval = sample_manager_eq peer_manager_new_def drain_pending_batch_def drain_first_n_def uni_len_def Let_def
  apply_connect_results_def push_unique_def backoff_new_def backoff_increment_def sample_peer_def

lemma sample_drain:
  "drain_pending_batch 0 (sample_manager 3) =
     ((sample_manager 3)\<lparr>pending := \<lparr>ud_queue = [sample_peer 3], ud_set = {sample_peer 3}\<rparr>\<rparr>, [sample_peer 1, sample_peer 2])"
  by (simp add: peer_eval) auto

theorem dial_round_spec_witness:
  "ud_queue (pending (fst (apply_connect_results 1 [(sample_peer 1, Inr True), (sample_peer 2, Inl PeerConnectionClosed)]
       [sample_peer 1, sample_peer 2] (fst (drain_pending_batch 0 (sample_manager 3)))))) = [sample_peer 3, sample_peer 2] \<and>
   sample_peer 2 \<in> set (ud_queue (pending (fst (apply_connect_results 1
       [(sample_peer 1, Inr True), (sample_peer 2, Inl PeerConnectionClosed)]
       [sample_peer 1, sample_peer 2] (fst (drain_pending_batch 0 (sample_manager 3)))))))"
  (is "ud_queue (pending (fst ?r)) = _ \<and> _")
proof -
  have q: "ud_queue (pending (fst ?r)) = [sample_peer 3, sample_peer 2]"
    by (simp add: sample_drain, simp add: peer_eval)
  obtain pm1 where d: "drain_pending_batch 0 (sample_manager 3) = (pm1, [sample_peer 1, sample_peer 2])"
    using sample_drain by blast
  obtain pm2 con where r: "?r = (pm2, con)" by force
  have "sample_peer 2 \<in> set (ud_queue (pending pm2))"
    using dial_round_spec [OF sample_manager_inv d _ _ r [unfolded d fst_conv], of "sample_peer 2"]
    by (simp add: is_retry_def tries_def sample_manager_eq sample_peer_def peer_manager_new_def)
  with q r show ?thesis by simp
qed

theorem peer_run_sound_witness:
  "num_connections (fst (drain_pending_batch 0 (sample_manager 3))) + in_flight (Some [sample_peer 1, sample_peer 2]) \<le> unat (2 :: u32)"
proof -
  have "peer_run 2 3 (sample_manager 3, None)"
    unfolding sample_manager_def by (intro peer_run.add peer_run.start)
  from peer_run_sound [OF peer_run.drain [OF this sample_drain]] show ?thesis by (simp add: sample_drain)
qed

theorem failing_peer_given_up_witness:
  "count_list (snd (fail_rounds [(0, 1), (31, 32), (62, 63), (93, 94)] (sample_manager 1))) (sample_peer 1) = 2 \<and>
   dial_budget (sample_peer 1) (sample_manager 1) \<le> unat (1 :: u32) + 1"
proof
  show "count_list (snd (fail_rounds [(0, 1), (31, 32), (62, 63), (93, 94)] (sample_manager 1))) (sample_peer 1) = 2"
    by (simp add: fail_round_def peer_eval)
  show "dial_budget (sample_peer 1) (sample_manager 1) \<le> unat (1 :: u32) + 1"
    using failing_peer_given_up [OF sample_manager_inv fail_rounds.simps(1), of "sample_peer 1" 1]
    by (simp add: sample_manager_eq peer_manager_new_def)
qed

end
