(* ===== verification/Swarm_Types.thy ===== *)
theory Swarm_Types
  imports Piece Peer_Wire Metainfo Peer_Manager
begin

section \<open>Per-peer state and piece assembly\<close>

text \<open>
  \<open>session/swarm/types.rs\<close>: what the swarm loop keeps of a peer (\<open>PeerInfo\<close>) and of a piece under
  way (\<open>ActiveDownload\<close>), and the decoder of bitfield messages. \<open>session/webseed/gap.rs\<close>: the
  search for runs of missing pieces. The block size of an \<open>ActiveDownload\<close> is never zero: every one
  is made with \<open>BLOCK_SIZE\<close>, which the invariant of the swarm loop carries along; a zero one would
  panic in the divisions below.
\<close>

subsection \<open>PeerInfo\<close>

definition PIPELINE_SIZE :: nat where "PIPELINE_SIZE = 5"

definition BLOCK_SIZE :: u32 where "BLOCK_SIZE = 16384"

record PeerInfo =
  pi_bitfield :: "bool list"
  pi_pipeline :: "(u32 \<times> u32 \<times> nat) option list"
  pi_am_choked :: bool
  pi_am_interested :: bool
  pi_interested :: bool
  pi_uploaded_bytes :: u64
  pi_uploaded_round :: u64
  pi_downloaded_bytes :: u64
  pi_downloaded_round :: u64
  pi_corrupt_blocks :: u32
  pi_last_data :: "nat option"
  pi_remote_extension_ids :: "(rstring \<times> u8) list"
  pi_our_extension_ids :: "(rstring \<times> u8) list"
  pi_last_pex_sent :: "nat option"
  pi_last_pex_received :: "nat option"
  pi_max_requests :: nat
  pi_client_version :: "rstring option"
  pi_metadata_size :: "i64 option"
  pi_our_allowed_fast :: "u32 list"
  pi_peer_allowed_fast :: "u32 list"

definition peer_info_new :: PeerInfo where
  "peer_info_new =
     \<lparr>pi_bitfield = [], pi_pipeline = replicate PIPELINE_SIZE None, pi_am_choked = True,
      pi_am_interested = False, pi_interested = False, pi_uploaded_bytes = 0, pi_uploaded_round = 0,
      pi_downloaded_bytes = 0, pi_downloaded_round = 0, pi_corrupt_blocks = 0, pi_last_data = None,
      pi_remote_extension_ids = [], pi_our_extension_ids = [], pi_last_pex_sent = None,
      pi_last_pex_received = None, pi_max_requests = PIPELINE_SIZE, pi_client_version = None,
      pi_metadata_size = None, pi_our_allowed_fast = [], pi_peer_allowed_fast = []\<rparr>"

definition can_request :: "PeerInfo \<Rightarrow> bool" where
  "can_request p =
     (if pi_am_choked p then False
      else length (filter (\<lambda>s. s \<noteq> None) (pi_pipeline p)) < pi_max_requests p)"

text \<open>The first free slot, if there is one.\<close>

fun fill_slot :: "'a \<Rightarrow> 'a option list \<Rightarrow> 'a option list" where
  "fill_slot v [] = []"
| "fill_slot v (None # slots) = Some v # slots"
| "fill_slot v (Some x # slots) = Some x # fill_slot v slots"

definition push_request :: "nat \<Rightarrow> u32 \<Rightarrow> u32 \<Rightarrow> PeerInfo \<Rightarrow> PeerInfo" where
  "push_request now index begin p = p\<lparr>pi_pipeline := fill_slot (index, begin, now) (pi_pipeline p)\<rparr>"

fun clear_slot :: "u32 \<Rightarrow> u32 \<Rightarrow> (u32 \<times> u32 \<times> nat) option list \<Rightarrow> (u32 \<times> u32 \<times> nat) option list" where
  "clear_slot index begin [] = []"
| "clear_slot index begin (None # slots) = None # clear_slot index begin slots"
| "clear_slot index begin (Some (i, b, t) # slots) =
     (if i = index \<and> b = begin then None # slots else Some (i, b, t) # clear_slot index begin slots)"

definition remove_request :: "u32 \<Rightarrow> u32 \<Rightarrow> PeerInfo \<Rightarrow> PeerInfo" where
  "remove_request index begin p = p\<lparr>pi_pipeline := clear_slot index begin (pi_pipeline p)\<rparr>"

subsection \<open>ActiveDownload\<close>

record ActiveDownload =
  ad_index :: u32
  ad_data :: bytes
  ad_requested :: "SocketAddr option list"
  ad_received :: "bool list"
  ad_block_size :: u32
  ad_num_blocks :: nat

definition div_ceil :: "nat \<Rightarrow> nat \<Rightarrow> nat" where
  "div_ceil a b = (a + b - 1) div b"

definition active_new :: "u32 \<Rightarrow> u64 \<Rightarrow> u32 \<Rightarrow> ActiveDownload" where
  "active_new index piece_len block_size =
     (let num_blocks = div_ceil (unat piece_len) (unat block_size) in
      \<lparr>ad_index = index, ad_data = replicate (unat piece_len) 0, ad_requested = replicate num_blocks None,
       ad_received = replicate num_blocks False, ad_block_size = block_size, ad_num_blocks = num_blocks\<rparr>)"

text \<open>\<open>i as u32 * self.block_size\<close> overflows beyond four gigabytes.\<close>

definition next_unrequested :: "ActiveDownload \<Rightarrow> u32 option result" where
  "next_unrequested dl =
     (case position None (ad_requested dl) of
        None \<Rightarrow> Ok None
      | Some i \<Rightarrow> (case checked_mul (of_nat i) (ad_block_size dl) of Some b \<Rightarrow> Ok (Some b) | None \<Rightarrow> Panic))"

definition block_len :: "u32 \<Rightarrow> ActiveDownload \<Rightarrow> u32" where
  "block_len begin dl =
     (let remaining = length (ad_data dl) - unat begin
      in of_nat (min remaining (unat (ad_block_size dl))))"

definition block_idx :: "u32 \<Rightarrow> ActiveDownload \<Rightarrow> nat" where
  "block_idx begin dl = unat (begin div ad_block_size dl)"

definition mark_requested :: "u32 \<Rightarrow> SocketAddr \<Rightarrow> ActiveDownload \<Rightarrow> ActiveDownload" where
  "mark_requested begin addr dl =
     (if block_idx begin dl < length (ad_requested dl)
      then dl\<lparr>ad_requested := (ad_requested dl)[block_idx begin dl := Some addr]\<rparr> else dl)"

definition mark_received :: "u32 \<Rightarrow> bytes \<Rightarrow> ActiveDownload \<Rightarrow> ActiveDownload \<times> bool" where
  "mark_received begin data dl =
     (let i = block_idx begin dl;
          dl' = (if i < length (ad_received dl) \<and> \<not> ad_received dl ! i
                 then let start = unat begin; stop = start + length data;
                          buf = (if stop \<le> length (ad_data dl)
                                 then take start (ad_data dl) @ data @ drop stop (ad_data dl) else ad_data dl)
                      in dl\<lparr>ad_data := buf, ad_received := (ad_received dl)[i := True]\<rparr>
                 else dl)
      in (dl', list_all id (ad_received dl')))"

text \<open>
  The assignment of a block is dropped (the statement repeated in the handlers of the loop).
\<close>

definition unassign :: "u32 \<Rightarrow> ActiveDownload \<Rightarrow> ActiveDownload" where
  "unassign begin dl =
     (if block_idx begin dl < length (ad_requested dl)
      then dl\<lparr>ad_requested := (ad_requested dl)[block_idx begin dl := None]\<rparr> else dl)"

subsection \<open>Bitfields\<close>

definition parse_bitfield :: "bytes \<Rightarrow> nat \<Rightarrow> bool list" where
  "parse_bitfield bs n =
     map (\<lambda>i. let byte = i div 8; bit = 7 - i mod 8
              in if byte < length bs then bs ! byte AND push_bit bit 1 \<noteq> 0 else False) [0..<n]"

subsection \<open>Gaps\<close>

text \<open>The locals of \<open>find_largest_gap\<close>: the best run so far and the current one.\<close>

type_synonym gap_state = "u32 option \<times> u32 \<times> u32 option \<times> u32"

definition close_gap :: "gap_state \<Rightarrow> gap_state" where
  "close_gap = (\<lambda>(best_start, best_size, gap_start, gap_size).
     case gap_start of
       Some start \<Rightarrow> if best_size < gap_size then (Some start, gap_size, gap_start, gap_size)
                     else (best_start, best_size, gap_start, gap_size)
     | None \<Rightarrow> (best_start, best_size, gap_start, gap_size))"

definition gap_step :: "gap_state \<Rightarrow> nat \<times> bool \<Rightarrow> gap_state" where
  "gap_step = (\<lambda>(best_start, best_size, gap_start, gap_size) (i, has).
     if \<not> has then
       (best_start, best_size, (case gap_start of None \<Rightarrow> Some (of_nat i) | Some g \<Rightarrow> Some g), gap_size + 1)
     else case gap_start of
       Some start \<Rightarrow>
         (let (best_start, best_size, _, _) = close_gap (best_start, best_size, gap_start, gap_size)
          in (best_start, best_size, None, 0))
     | None \<Rightarrow> (best_start, best_size, None, gap_size))"

definition find_largest_gap :: "bool list \<Rightarrow> (u32 \<times> u32) option" where
  "find_largest_gap bf =
     (let (best_start, best_size, _, _) = close_gap (foldl gap_step (None, 0, None, 0) (enumerate 0 bf))
      in map_option (\<lambda>s. (s, best_size)) best_start)"


subsection \<open>Blocks in any order\<close>

text \<open>Block \<open>k\<close> of a piece \<open>d\<close>, and a sequence of received blocks.\<close>

definition block_of :: "u32 \<Rightarrow> bytes \<Rightarrow> nat \<Rightarrow> u32 \<times> bytes" where
  "block_of bs d k = (of_nat (k * unat bs), take (unat bs) (drop (k * unat bs) d))"

definition receive_blocks :: "(u32 \<times> bytes) list \<Rightarrow> ActiveDownload \<Rightarrow> ActiveDownload" where
  "receive_blocks blocks dl = foldl (\<lambda>dl (begin, data). fst (mark_received begin data dl)) dl blocks"

definition assembling :: "u32 \<Rightarrow> bytes \<Rightarrow> nat set \<Rightarrow> ActiveDownload \<Rightarrow> bool" where
  "assembling bs d K dl \<longleftrightarrow>
     length (ad_data dl) = length d \<and> length (ad_received dl) = div_ceil (length d) (unat bs) \<and> ad_block_size dl = bs \<and>
     (\<forall>k < div_ceil (length d) (unat bs). ad_received dl ! k \<longleftrightarrow> k \<in> K) \<and>
     (\<forall>j < length d. j div unat bs \<in> K \<longrightarrow> ad_data dl ! j = d ! j)"

lemma div_ceil_less:
  assumes "0 < b" and "j < a"
  shows "j div b < div_ceil a b"
proof -
  have "(j + b) div b \<le> (a + b - 1) div b" using assms by (intro div_le_mono) simp
  moreover have "(j + b) div b = Suc (j div b)" using div_add_self2 [of b j] assms(1) by simp
  ultimately show ?thesis by (simp add: div_ceil_def)
qed

lemma div_ceil_start:
  assumes "0 < b" and "k < div_ceil a b"
  shows "k * b < a"
proof -
  have "(k + 1) * b \<le> (a + b - 1) div b * b" using assms(2) unfolding div_ceil_def by (intro mult_right_mono) auto
  also have "\<dots> \<le> a + b - 1" by simp
  finally show ?thesis using assms(1) by simp
qed

lemma assembling_new: "length d = unat len \<Longrightarrow> assembling bs d {} (active_new index len bs)"
  by (simp add: assembling_def active_new_def Let_def)

lemma nth_splice:
  "j < length xs \<Longrightarrow> s + length ys \<le> length xs \<Longrightarrow>
     (take s xs @ ys @ drop (s + length ys) xs) ! j = (if s \<le> j \<and> j < s + length ys then ys ! (j - s) else xs ! j)"
  by (auto simp: nth_append)

lemma block_start:
  assumes "bs \<noteq> 0" and "k < div_ceil (length d) (unat bs)" and "length d < 2 ^ 32"
  shows "k * unat bs < length d" and "unat (fst (block_of bs d k)) = k * unat bs"
    and "ad_block_size dl = bs \<Longrightarrow> block_idx (fst (block_of bs d k)) dl = k"
proof -
  have b: "0 < unat bs" using assms(1) by (simp add: unat_gt_0)
  show start: "k * unat bs < length d" using div_ceil_start [OF b assms(2)] .
  show u: "unat (fst (block_of bs d k)) = k * unat bs"
    using start assms(3) by (simp add: block_of_def unat_of_nat del: of_nat_mult)
  show "ad_block_size dl = bs \<Longrightarrow> block_idx (fst (block_of bs d k)) dl = k"
    using b by (simp add: block_idx_def unat_div u)
qed

lemma assembling_step:
  assumes asm: "assembling bs d K dl" and bs: "bs \<noteq> 0"
    and k: "k < div_ceil (length d) (unat bs)" and len: "length d < 2 ^ 32"
  shows "assembling bs d (insert k K) (fst (mark_received (fst (block_of bs d k)) (snd (block_of bs d k)) dl))"
proof -
  note start = block_start [OF bs k len]
  have idx: "block_idx (fst (block_of bs d k)) dl = k" using start(3) asm by (simp add: assembling_def)
  let ?blk = "snd (block_of bs d k)" let ?s = "k * unat bs"
  let ?dl = "fst (mark_received (fst (block_of bs d k)) ?blk dl)"
  show ?thesis
  proof (cases "ad_received dl ! k")
    case True
    with asm k have "insert k K = K" by (auto simp: assembling_def)
    with True asm idx show ?thesis by (simp add: mark_received_def Let_def)
  next
    case False
    have len_blk: "length ?blk = min (unat bs) (length d - ?s)" by (simp add: block_of_def)
    then have fits: "?s + length ?blk \<le> length (ad_data dl)" using asm start(1) by (simp add: assembling_def)
    have dl: "?dl = dl\<lparr>ad_data := take ?s (ad_data dl) @ ?blk @ drop (?s + length ?blk) (ad_data dl),
                       ad_received := (ad_received dl)[k := True]\<rparr>"
      using False asm k fits by (simp add: mark_received_def Let_def idx start(2) assembling_def)
    have "ad_data ?dl ! j = d ! j" if j: "j < length d" "j div unat bs \<in> insert k K" for j
    proof (cases "?s \<le> j \<and> j < ?s + length ?blk")
      case True
      then have "?blk ! (j - ?s) = d ! j" using j(1) by (auto simp: block_of_def)
      with True fits j(1) asm show ?thesis unfolding dl by (simp add: nth_splice assembling_def)
    next
      case out: False
      have "j div unat bs \<noteq> k"
      proof
        assume "j div unat bs = k"
        then have "?s \<le> j" "j < ?s + unat bs"
          using bs dividend_less_div_times [of "unat bs" j] by (auto simp: unat_gt_0)
        with out j(1) len_blk show False by auto
      qed
      with out fits j asm show ?thesis unfolding dl by (auto simp: nth_splice assembling_def)
    qed
    with asm k fits show ?thesis by (auto simp: dl assembling_def nth_list_update)
  qed
qed

lemma receive_blocks_assembling:
  assumes "assembling bs d K dl" and "bs \<noteq> 0" and "\<forall>k \<in> set ks. k < div_ceil (length d) (unat bs)"
    and "length d < 2 ^ 32"
  shows "assembling bs d (set ks \<union> K) (receive_blocks (map (block_of bs d) ks) dl)"
  using assms
proof (induction ks arbitrary: dl K)
  case (Cons k ks)
  have "assembling bs d (insert k K) (fst (mark_received (fst (block_of bs d k)) (snd (block_of bs d k)) dl))"
    using Cons.prems by (intro assembling_step) simp_all
  from Cons.IH [OF this] Cons.prems show ?case by (simp add: receive_blocks_def case_prod_unfold)
qed (simp add: receive_blocks_def)

lemma assembling_complete:
  assumes "assembling bs d K dl" and "bs \<noteq> 0" and "K \<subseteq> {..<div_ceil (length d) (unat bs)}"
  shows "list_all id (ad_received dl) \<longleftrightarrow> K = {..<div_ceil (length d) (unat bs)}"
    and "list_all id (ad_received dl) \<Longrightarrow> ad_data dl = d"
proof -
  show iff: "list_all id (ad_received dl) \<longleftrightarrow> K = {..<div_ceil (length d) (unat bs)}"
    using assms(1,3) by (auto simp: assembling_def list_all_length)
  assume "list_all id (ad_received dl)"
  with iff have "K = {..<div_ceil (length d) (unat bs)}" by simp
  with assms(1,2) div_ceil_less [of "unat bs"] show "ad_data dl = d"
    by (intro nth_equalityI) (auto simp: assembling_def unat_gt_0)
qed

text \<open>Blocks assemble to the piece in any order. If the blocks of a piece of less than four
  gigabytes arrive in any order and any of them repeatedly, the download is complete exactly when
  every block has arrived, and its buffer is then the piece.
\<close>

theorem blocks_assemble:
  assumes "bs \<noteq> 0" and "length d = unat len" and "length d < 2 ^ 32"
    and "\<forall>k \<in> set ks. k < div_ceil (length d) (unat bs)"
    and "dl = receive_blocks (map (block_of bs d) ks) (active_new index len bs)"
  shows "(list_all id (ad_received dl) \<longleftrightarrow> set ks = {..<div_ceil (length d) (unat bs)}) \<and>
    (list_all id (ad_received dl) \<longrightarrow> ad_data dl = d)"
proof -
  have "assembling bs d (set ks) dl"
    using receive_blocks_assembling [OF assembling_new [OF assms(2)] assms(1,4,3)] by (simp add: assms(5))
  from assembling_complete [OF this assms(1)] assms(4) show ?thesis by auto
qed

theorem blocks_assemble_witness:
  "ad_data (receive_blocks (map (block_of 2 [1, 2, 3]) [1, 0, 1]) (active_new 7 3 2)) = [1, 2, 3]"
proof -
  have "set [1, 0, 1] = {..<div_ceil (length [1, 2, 3 :: byte]) (unat (2 :: u32))}"
    by (auto simp: div_ceil_def)
  with blocks_assemble [of 2 "[1, 2, 3]" 3 "[1, 0, 1]" _ 7, OF _ _ _ _ refl] show ?thesis
    by (simp add: div_ceil_def)
qed

text \<open>
  A block that does not fit the piece, or whose offset is no multiple of the block size, is marked
  received like any other; the first is not copied, so the buffer keeps its zeros.
\<close>

lemma oversized_block_counts:
  "mark_received 0 [1, 2, 3] (active_new 0 2 2) = ((active_new 0 2 2)\<lparr>ad_received := [True]\<rparr>, True)"
  by (simp add: mark_received_def active_new_def div_ceil_def block_idx_def Let_def)


subsection \<open>Bitfield messages\<close>

lemma and_exp_one: "(w :: 'a::len word) AND 2 ^ n \<noteq> 0 \<longleftrightarrow> bit w n"
  by (simp add: and_exp_eq_0_iff_not_bit)

text \<open>Bitfield messages carry the bitfield. What a client decodes from the bitfield message of
  another (\<open>parse_bitfield\<close> of \<open>to_bitfield\<close>) is that client's bitfield, for every number of pieces.
\<close>

theorem bitfield_message_roundtrip:
  assumes "pm_wf pm" and "to_bitfield pm = Ok bs"
  shows "parse_bitfield bs (num_pieces pm) = bitfield pm"
proof (rule nth_equalityI)
  show "length (parse_bitfield bs (num_pieces pm)) = length (bitfield pm)"
    using assms(1) by (simp add: parse_bitfield_def pm_wf_def)
  fix i assume "i < length (parse_bitfield bs (num_pieces pm))"
  then have i: "i < num_pieces pm" by (simp add: parse_bitfield_def)
  from to_bitfield_bits [OF assms(1)] assms(2) have bs: "length bs = (num_pieces pm + 7) div 8"
    "\<forall>j < 8 * length bs. bit (bs ! (j div 8)) (7 - j mod 8) \<longleftrightarrow> j < num_pieces pm \<and> bitfield pm ! j" by auto
  with i have "i < 8 * length bs" "i div 8 < length bs" by auto
  with bs(2) i show "parse_bitfield bs (num_pieces pm) ! i = bitfield pm ! i"
    by (simp add: parse_bitfield_def and_exp_one Let_def)
qed

theorem bitfield_message_roundtrip_witness:
  "parse_bitfield [0xA0] 3 = [True, False, True]"
proof -
  have "to_bitfield \<lparr>num_pieces = 3, bitfield = [True, False, True]\<rparr> = Ok [0xA0]"
    by (simp add: to_bitfield_def update_at_def Let_def numeral_3_eq_3 [symmetric] eval_nat_numeral(3) [of Num.One, symmetric])
  with bitfield_message_roundtrip [of "\<lparr>num_pieces = 3, bitfield = [True, False, True]\<rparr>" "[0xA0]"]
  show ?thesis by (simp add: pm_wf_def)
qed

subsection \<open>The largest gap\<close>

definition missing_run :: "bool list \<Rightarrow> nat \<Rightarrow> nat \<Rightarrow> bool" where
  "missing_run bf a m \<longleftrightarrow> a + m \<le> length bf \<and> (\<forall>k. a \<le> k \<and> k < a + m \<longrightarrow> \<not> bf ! k)"

definition gap_inv :: "bool list \<Rightarrow> nat \<Rightarrow> gap_state \<Rightarrow> bool" where
  "gap_inv bf i = (\<lambda>(best_start, best_size, gap_start, gap_size).
     (let e = i - unat gap_size in
       unat gap_size \<le> i \<and> (gap_start = None \<longleftrightarrow> gap_size = 0) \<and> (\<forall>g. gap_start = Some g \<longrightarrow> unat g = e) \<and>
       (\<forall>k. e \<le> k \<and> k < i \<longrightarrow> \<not> bf ! k) \<and> (e = 0 \<or> bf ! (e - 1)) \<and>
       (\<forall>a m. missing_run bf a m \<and> a + m \<le> e \<longrightarrow> m \<le> unat best_size) \<and>
       (best_start = None \<longleftrightarrow> best_size = 0) \<and>
       (\<forall>s. best_start = Some s \<longrightarrow> missing_run bf (unat s) (unat best_size) \<and> unat s + unat best_size \<le> e \<and>
          (\<forall>a. missing_run bf a (unat best_size) \<and> a + unat best_size \<le> e \<longrightarrow> unat s \<le> a))))"

lemma run_split:
  assumes "missing_run bf a m" and "a + m \<le> i" and "e = 0 \<or> bf ! (e - 1)" and "m \<noteq> 0"
  shows "a + m \<le> e \<or> e \<le> a"
proof (rule ccontr)
  assume "\<not> (a + m \<le> e \<or> e \<le> a)"
  then have "a \<le> e - 1" "e - 1 < a + m" "e \<noteq> 0" by auto
  with assms(1,3) show False by (auto simp: missing_run_def)
qed

lemma close_gap_best:
  assumes inv: "gap_inv bf i (best_start, best_size, gap_start, gap_size)" and i: "i \<le> length bf"
    and res: "close_gap (best_start, best_size, gap_start, gap_size) = (bs, bz, gs, gz)"
  shows "(\<forall>a m. missing_run bf a m \<and> a + m \<le> i \<longrightarrow> m \<le> unat bz) \<and> (bs = None \<longleftrightarrow> bz = 0) \<and>
    (\<forall>s. bs = Some s \<longrightarrow> missing_run bf (unat s) (unat bz) \<and> unat s + unat bz \<le> i \<and>
       (\<forall>a. missing_run bf a (unat bz) \<and> a + unat bz \<le> i \<longrightarrow> unat s \<le> a))"
proof -
  define e where "e = i - unat gap_size"
  have gz: "unat gap_size \<le> i" and none: "gap_start = None \<longleftrightarrow> gap_size = 0"
    and g: "\<And>g. gap_start = Some g \<Longrightarrow> unat g = e"
    and cur: "\<forall>k. e \<le> k \<and> k < i \<longrightarrow> \<not> bf ! k" and e0: "e = 0 \<or> bf ! (e - 1)"
    and most: "\<And>a m. missing_run bf a m \<Longrightarrow> a + m \<le> e \<Longrightarrow> m \<le> unat best_size"
    and bnone: "best_start = None \<longleftrightarrow> best_size = 0"
    and best: "\<And>s. best_start = Some s \<Longrightarrow> missing_run bf (unat s) (unat best_size) \<and> unat s + unat best_size \<le> e \<and>
          (\<forall>a. missing_run bf a (unat best_size) \<and> a + unat best_size \<le> e \<longrightarrow> unat s \<le> a)"
    using inv by (auto simp: gap_inv_def Let_def e_def)
  have split: "m \<le> unat best_size \<or> e \<le> a \<and> m \<le> unat gap_size" if "missing_run bf a m" "a + m \<le> i" for a m
  proof (cases "m = 0")
    case False
    from run_split [OF that e0 False] show ?thesis using most [OF that(1)] that(2) gz by (auto simp: e_def)
  qed simp
  show ?thesis
  proof (cases "best_size < gap_size")
    case True
    then have "gap_size \<noteq> 0" by auto
    with none obtain g' where g': "gap_start = Some g'" by auto
    have r: "bs = Some g'" "bz = gap_size" using res True g' by (simp_all add: close_gap_def)
    have lt: "unat best_size < unat gap_size" using True by (simp add: word_less_nat_alt)
    have "missing_run bf e (unat gap_size)" using cur i gz by (auto simp: missing_run_def e_def)
    moreover have "e \<le> a" if "missing_run bf a (unat gap_size)" "a + unat gap_size \<le> i" for a
      using split [OF that] lt by auto
    moreover have "e + unat gap_size \<le> i" using gz by (simp add: e_def)
    moreover have "m \<le> unat gap_size" if "missing_run bf a m" "a + m \<le> i" for a m
      using split [OF that] lt by auto
    ultimately show ?thesis
      using \<open>gap_size \<noteq> 0\<close> g [OF g'] by (auto simp: r)
  next
    case False
    then have r: "bs = best_start" "bz = best_size" using res by (auto simp: close_gap_def split: option.splits)
    have le: "unat gap_size \<le> unat best_size" using False by (simp add: word_le_nat_alt not_less)
    have most': "m \<le> unat best_size" if "missing_run bf a m" "a + m \<le> i" for a m
      using split [OF that] le by auto
    have "unat s \<le> a" if s: "best_start = Some s" and a: "missing_run bf a (unat best_size)" "a + unat best_size \<le> i" for s a
    proof -
      have "unat best_size \<noteq> 0" using bnone s by (simp add: unat_eq_zero)
      from run_split [OF a e0 this] best [OF s] show ?thesis using a by auto
    qed
    with most' best bnone show ?thesis unfolding r by (auto simp: e_def)
  qed
qed

lemma gap_inv_step:
  assumes inv: "gap_inv bf i st" and i: "i < length bf" and len: "length bf < 2 ^ 32"
  shows "gap_inv bf (Suc i) (gap_step st (i, bf ! i))"
proof -
  obtain best_start best_size gap_start gap_size where st: "st = (best_start, best_size, gap_start, gap_size)"
    by (cases st) auto
  show ?thesis
  proof (cases "bf ! i")
    case False
    have gz: "unat gap_size \<le> i" using inv by (simp add: st gap_inv_def Let_def)
    then have s: "unat (gap_size + 1) = Suc (unat gap_size)" using i len by (simp add: unat_word_ariths)
    have "unat (of_nat i :: u32) = i" using i len by (simp add: unat_of_nat)
    moreover have "gap_size + 1 \<noteq> 0" using s by (metis nat.distinct(1) unat_0)
    moreover have "i - unat gap_size = i" if "gap_start = None" using inv that by (auto simp: st gap_inv_def Let_def)
    ultimately show ?thesis
      using inv False s by (auto simp: st gap_inv_def gap_step_def Let_def less_Suc_eq split: option.splits)
  next
    case True
    obtain bs bz gs gz where c: "close_gap (best_start, best_size, gap_start, gap_size) = (bs, bz, gs, gz)"
      by (metis prod_cases4)
    note best = close_gap_best [OF inv [unfolded st] less_imp_le [OF i] c]
    have step: "gap_step st (i, bf ! i) = (bs, bz, None, 0)"
      using True c inv by (auto simp: st gap_step_def gap_inv_def Let_def close_gap_def split: option.splits)
    have "a + m \<le> i" if "missing_run bf a m" "a + m \<le> Suc i" "m \<noteq> 0" for a m
    proof (rule ccontr)
      assume "\<not> a + m \<le> i"
      with that have "a \<le> i" "i < a + m" by auto
      with that(1) True show False by (auto simp: missing_run_def)
    qed
    then have runs: "m = 0 \<or> a + m \<le> i" if "missing_run bf a m" "a + m \<le> Suc i" for a m using that by blast
    have "m \<le> unat bz" if "missing_run bf a m" "a + m \<le> Suc i" for a m
      using runs [OF that] best that(1) by auto
    moreover have "unat s \<le> a" if s: "bs = Some s" and a: "missing_run bf a (unat bz)" "a + unat bz \<le> Suc i" for s a
    proof -
      have "unat bz \<noteq> 0" using best s by (simp add: unat_eq_zero)
      with runs [OF a] best s a(1) show ?thesis by auto
    qed
    ultimately show ?thesis using best True unfolding step by (auto simp: gap_inv_def le_SucI)
  qed
qed

lemma gap_inv_fold:
  assumes "length bf < 2 ^ 32"
  shows "n \<le> length bf \<Longrightarrow> gap_inv bf n (foldl gap_step (None, 0, None, 0) (map (\<lambda>i. (i, bf ! i)) [0..<n]))"
proof (induction n)
  case 0
  then show ?case by (simp add: gap_inv_def)
next
  case (Suc n)
  with gap_inv_step [OF Suc.IH, of] assms show ?case by simp
qed

text \<open>The largest gap. The result is the leftmost of the longest runs of missing pieces, and there
  is none only when no piece is missing.
\<close>

theorem find_largest_gap_spec:
  assumes "length bf < 2 ^ 32"
  shows "case find_largest_gap bf of
      None \<Rightarrow> list_all id bf
    | Some (s, n) \<Rightarrow> missing_run bf (unat s) (unat n) \<and> n \<noteq> 0 \<and>
        (\<forall>a m. missing_run bf a m \<longrightarrow> m \<le> unat n) \<and> (\<forall>a. missing_run bf a (unat n) \<longrightarrow> unat s \<le> a)"
proof -
  obtain bs bz gs gz where st: "foldl gap_step (None, 0, None, 0) (enumerate 0 bf) = (bs, bz, gs, gz)"
    by (metis prod_cases4)
  obtain bs' bz' gs' gz' where c: "close_gap (bs, bz, gs, gz) = (bs', bz', gs', gz')" by (metis prod_cases4)
  have "gap_inv bf (length bf) (bs, bz, gs, gz)" using gap_inv_fold [OF assms le_refl] st by (simp add: enumerate_map)
  from close_gap_best [OF this le_refl c] have best: "\<forall>a m. missing_run bf a m \<longrightarrow> m \<le> unat bz'"
    "bs' = None \<longleftrightarrow> bz' = 0"
    "\<forall>s. bs' = Some s \<longrightarrow> missing_run bf (unat s) (unat bz') \<and> (\<forall>a. missing_run bf a (unat bz') \<longrightarrow> unat s \<le> a)"
    by (auto simp: missing_run_def)
  have res: "find_largest_gap bf = map_option (\<lambda>s. (s, bz')) bs'" by (simp add: find_largest_gap_def st c)
  show ?thesis
  proof (cases bs')
    case None
    with best have no: "missing_run bf a m \<Longrightarrow> m = 0" for a m by auto
    have "bf ! k" if "k < length bf" for k
    proof (rule ccontr)
      assume "\<not> bf ! k"
      then have "missing_run bf k 1" using that by (auto simp: missing_run_def less_Suc_eq_le dest: le_antisym)
      from no [OF this] show False by simp
    qed
    with None show ?thesis by (simp add: res list_all_length)
  next
    case (Some s)
    with best show ?thesis by (simp add: res)
  qed
qed

theorem find_largest_gap_spec_witness:
  "find_largest_gap [False, True, False, False] = Some (2, 2) \<and> missing_run [False, True, False, False] 2 2"
proof -
  have e: "find_largest_gap [False, True, False, False] = Some (2, 2)"
    by (simp add: find_largest_gap_def gap_step_def close_gap_def)
  with find_largest_gap_spec [of "[False, True, False, False]"] show ?thesis by simp
qed


subsection \<open>Gaps within one file\<close>

definition offer_gap :: "u32 \<Rightarrow> u32 option \<Rightarrow> u32 \<Rightarrow> (u32 \<times> u32) option \<Rightarrow> (u32 \<times> u32) option" where
  "offer_gap min_gap gap_start gap_size best =
     (case gap_start of
        Some start \<Rightarrow> if (case best of Some (_, s) \<Rightarrow> s | None \<Rightarrow> 0) < gap_size \<and> min_gap \<le> gap_size
                      then Some (start, gap_size) else best
      | None \<Rightarrow> best)"

fun gap_file_loop ::
  "u32 \<Rightarrow> bool list \<Rightarrow> nat list \<Rightarrow> (u32 \<times> u32) option \<Rightarrow> u32 option \<Rightarrow> u32 \<Rightarrow> (u32 \<times> u32) option result" where
  "gap_file_loop min_gap bf [] best gap_start gap_size = Ok (offer_gap min_gap gap_start gap_size best)"
| "gap_file_loop min_gap bf (idx # rest) best gap_start gap_size =
     and_then (index_at bf idx) (\<lambda>has.
       if \<not> has then
         gap_file_loop min_gap bf rest best (case gap_start of None \<Rightarrow> Some (of_nat idx) | Some g \<Rightarrow> Some g) (gap_size + 1)
       else case gap_start of
         Some start \<Rightarrow> gap_file_loop min_gap bf rest (offer_gap min_gap gap_start gap_size best) None 0
       | None \<Rightarrow> gap_file_loop min_gap bf rest best None gap_size)"

fun gap_files_loop ::
  "u32 \<Rightarrow> bool list \<Rightarrow> u64 \<Rightarrow> FileOffset list \<Rightarrow> (u32 \<times> u32) option \<Rightarrow> (u32 \<times> u32) option result" where
  "gap_files_loop min_gap bf plen [] best = Ok best"
| "gap_files_loop min_gap bf plen (fo # fos) best =
     (if plen = 0 then Panic
      else
        and_then (add_u64 (fo_offset fo) (fo_length fo)) (\<lambda>upto.
          let first_piece = ucast (fo_offset fo div plen) :: u32;
              last_piece = ucast ((if upto = 0 then 0 else upto - 1) div plen) :: u32;
              last_piece = min last_piece (of_nat (length bf - 1))
          in and_then (gap_file_loop min_gap bf [unat first_piece..<Suc (unat last_piece)] best None 0)
               (gap_files_loop min_gap bf plen fos)))"

definition gap_within_file :: "bool list \<Rightarrow> Info \<Rightarrow> u64 \<Rightarrow> u32 \<Rightarrow> (u32 \<times> u32) option result" where
  "gap_within_file bf i plen min_gap =
     and_then (file_offsets i) (\<lambda>fos. gap_files_loop min_gap bf plen fos None)"

definition gap_ok :: "u32 \<Rightarrow> bool list \<Rightarrow> (u32 \<times> u32) option \<Rightarrow> bool" where
  "gap_ok min_gap bf best \<longleftrightarrow>
     (\<forall>s n. best = Some (s, n) \<longrightarrow> missing_run bf (unat s) (unat n) \<and> min_gap \<le> n \<and> n \<noteq> 0)"

lemma gap_ok_offer:
  assumes "gap_ok min_gap bf best" and "\<And>g. gap_start = Some g \<Longrightarrow> missing_run bf (unat g) (unat gap_size)"
  shows "gap_ok min_gap bf (offer_gap min_gap gap_start gap_size best)"
  using assms by (auto simp: gap_ok_def offer_gap_def split: option.splits prod.splits if_splits)

lemma missing_run_snoc: "missing_run bf a m \<Longrightarrow> a + m < length bf \<Longrightarrow> \<not> bf ! (a + m) \<Longrightarrow> missing_run bf a (Suc m)"
  by (auto simp: missing_run_def less_Suc_eq)

lemma gap_file_loop_ok:
  assumes "gap_ok min_gap bf best" and "gap_start = None \<longrightarrow> gap_size = 0" and "length bf < 2 ^ 32"
    and "\<forall>g. gap_start = Some g \<longrightarrow> missing_run bf (unat g) (unat gap_size) \<and> (a \<le> b \<longrightarrow> unat g + unat gap_size = a)"
    and "gap_file_loop min_gap bf [a..<b] best gap_start gap_size = Ok best'"
  shows "gap_ok min_gap bf best'"
  using assms
proof (induction "b - a" arbitrary: a best gap_start gap_size)
  case 0
  then show ?case by (auto intro!: gap_ok_offer)
next
  case (Suc n)
  then have ab: "a < b" by simp
  have upt: "[a..<b] = a # [Suc a..<b]" by (rule upt_conv_Cons [OF ab])
  obtain has where i: "index_at bf a = Ok has" using Suc.prems(5) by (auto simp: upt)
  then have a: "a < length bf" "has = bf ! a" by (auto simp: index_at_def split: if_splits)
  have of_a: "unat (of_nat a :: u32) = a" using a(1) Suc.prems(3) by (simp add: unat_of_nat)
  show ?case
  proof (cases "bf ! a")
    case True
    then have "gap_file_loop min_gap bf [Suc a..<b] (offer_gap min_gap gap_start gap_size best) None 0 = Ok best'"
      using Suc.prems(2,5) i a by (auto simp: upt offer_gap_def split: option.splits)
    moreover have "gap_ok min_gap bf (offer_gap min_gap gap_start gap_size best)"
      using Suc.prems(1,4) by (intro gap_ok_offer) auto
    ultimately show ?thesis using Suc.hyps Suc.prems(3) by (intro Suc.hyps(1)) auto
  next
    case False
    define gs where "gs = (case gap_start of None \<Rightarrow> Some (of_nat a) | Some g \<Rightarrow> Some g)"
    have size: "unat (gap_size + 1) = Suc (unat gap_size)" if "unat gap_size < length bf"
      using that Suc.prems(3) by (simp add: unat_word_ariths)
    have g: "missing_run bf (unat g) (unat (gap_size + 1)) \<and> unat g + unat (gap_size + 1) = Suc a" if "gs = Some g" for g
    proof (cases gap_start)
      case None
      with Suc.prems(2) that have "gap_size = 0" "g = of_nat a" by (simp_all add: gs_def)
      with False a(1) show ?thesis by (auto simp: of_a missing_run_def less_Suc_eq)
    next
      case (Some g')
      with that Suc.prems(4) ab have r: "missing_run bf (unat g) (unat gap_size)" "unat g + unat gap_size = a"
        by (simp_all add: gs_def)
      then have "unat gap_size < length bf" using a(1) by simp
      with missing_run_snoc [OF r(1)] r(2) False a(1) show ?thesis by (simp add: size)
    qed
    have "gap_file_loop min_gap bf [Suc a..<b] best gs (gap_size + 1) = Ok best'"
      using Suc.prems(5) i a False by (simp add: upt gs_def)
    moreover have "gs \<noteq> None" by (auto simp: gs_def split: option.splits)
    ultimately show ?thesis
      using g Suc.hyps Suc.prems(1,3) by (intro Suc.hyps(1) [of "Suc a" best gs "gap_size + 1"]) auto
  qed
qed

text \<open>
  A gap found within a file is a run of missing pieces of the asked size at least. On an empty
  bitfield the search fails: the last index saturates to 0 and the access panics.
\<close>

lemma gap_within_file_ok:
  assumes "gap_within_file bf i plen min_gap = Ok best" and "length bf < 2 ^ 32"
  shows "gap_ok min_gap bf best"
proof -
  have "gap_ok min_gap bf best'" if "gap_ok min_gap bf best" "gap_files_loop min_gap bf plen fos best = Ok best'" for fos best best'
    using that
  proof (induction fos arbitrary: best)
    case (Cons fo fos)
    then show ?case
      by (auto simp: Let_def split: if_splits simp del: upt_Suc gap_file_loop.simps
          intro: gap_file_loop_ok [where gap_start = None and gap_size = 0, OF _ _ assms(2)] elim!: Cons.IH [rotated])
  qed simp
  from this [of None] assms(1) show ?thesis by (auto simp: gap_within_file_def gap_ok_def)
qed

lemma gap_within_file_empty:
  "gap_within_file [] \<lparr>piece_length = 4, pieces = [], mode = Single [97] 5, raw_info = RawHash []\<rparr> 4 1 = Panic"
  by (simp add: gap_within_file_def file_offsets_def Let_def index_at_def add_u64_def checked_add_def)

end
