(* ===== verification/Effects.thy ===== *)
theory Effects
  imports Rust_Prelude
begin

section \<open>Actions: state changes with a result\<close>

text \<open>
  An asynchronous method that takes \<open>&mut self\<close> and returns a \<open>Result\<close> is an action: a function from
  the state to the next state and the result. The changes made before an error or a panic are
  kept, as they are by the code, and \<open>act_bind\<close> is \<open>?\<close>: it stops at the first failure.
\<close>

type_synonym ('s, 'a) act = "'s \<Rightarrow> 's \<times> 'a result"

definition act_return :: "'a \<Rightarrow> ('s, 'a) act" where
  "act_return a = (\<lambda>s. (s, Ok a))"

definition act_lift :: "'a result \<Rightarrow> ('s, 'a) act" where
  "act_lift r = (\<lambda>s. (s, r))"

definition act_update :: "('s \<Rightarrow> 's) \<Rightarrow> ('s, unit) act" where
  "act_update f = (\<lambda>s. (f s, Ok ()))"

definition act_read :: "('s \<Rightarrow> ('s, 'a) act) \<Rightarrow> ('s, 'a) act" where
  "act_read f = (\<lambda>s. f s s)"

definition act_bind :: "('s, 'a) act \<Rightarrow> ('a \<Rightarrow> ('s, 'b) act) \<Rightarrow> ('s, 'b) act" where
  "act_bind m f = (\<lambda>s. case m s of
     (s', Ok a) \<Rightarrow> f a s'
   | (s', Err e) \<Rightarrow> (s', Err e)
   | (s', Panic) \<Rightarrow> (s', Panic))"

definition act_seq :: "('s, 'a) act \<Rightarrow> ('s, 'b) act \<Rightarrow> ('s, 'b) act" where
  "act_seq m n = act_bind m (\<lambda>_. n)"

text \<open>\<open>let _ = m\<close>: an error is dropped, a panic is not. A handler for the error is \<open>act_catch\<close>.\<close>

definition act_catch :: "('s, 'a) act \<Rightarrow> (ErrorKind \<Rightarrow> ('s, 'a) act) \<Rightarrow> ('s, 'a) act" where
  "act_catch m h = (\<lambda>s. case m s of (s', Err e) \<Rightarrow> h e s' | r \<Rightarrow> r)"

definition act_ignore :: "('s, unit) act \<Rightarrow> ('s, unit) act" where
  "act_ignore m = act_catch m (\<lambda>_. act_return ())"

fun for_each :: "('x \<Rightarrow> ('s, unit) act) \<Rightarrow> 'x list \<Rightarrow> ('s, unit) act" where
  "for_each f [] = act_return ()"
| "for_each f (x # xs) = act_seq (f x) (for_each f xs)"

subsection \<open>Invariants of actions\<close>

text \<open>
  \<open>keeps I m\<close>: from a state with \<open>I\<close> the action does not panic and its next state has \<open>I\<close>, whether
  it succeeds or fails. The rules follow the structure of an action.
\<close>

definition keeps :: "('s \<Rightarrow> bool) \<Rightarrow> ('s, 'a) act \<Rightarrow> bool" where
  "keeps I m \<longleftrightarrow> (\<forall>s. I s \<longrightarrow> I (fst (m s)) \<and> snd (m s) \<noteq> Panic)"

named_theorems keeps_intros

lemma keepsD: "keeps I m \<Longrightarrow> I s \<Longrightarrow> I (fst (m s)) \<and> snd (m s) \<noteq> Panic"
  by (simp add: keeps_def)

lemma keepsI: "(\<And>s. I s \<Longrightarrow> I (fst (m s)) \<and> snd (m s) \<noteq> Panic) \<Longrightarrow> keeps I m"
  by (simp add: keeps_def)

lemma keeps_return [keeps_intros]: "keeps I (act_return a)"
  by (simp add: keeps_def act_return_def)

lemma keeps_lift [keeps_intros]: "r \<noteq> Panic \<Longrightarrow> keeps I (act_lift r)"
  by (simp add: keeps_def act_lift_def)

lemma keeps_update [keeps_intros]: "(\<And>s. I s \<Longrightarrow> I (f s)) \<Longrightarrow> keeps I (act_update f)"
  by (simp add: keeps_def act_update_def)

lemma keeps_bind: "keeps I m \<Longrightarrow> (\<And>a. keeps I (f a)) \<Longrightarrow> keeps I (act_bind m f)"
  by (fastforce simp: keeps_def act_bind_def split: prod.split result.split)

text \<open>A result that is only looked at: the rest may assume that it was \<open>Ok\<close>.\<close>

lemma keeps_bind_lift [keeps_intros]:
  "r \<noteq> Panic \<Longrightarrow> (\<And>a. r = Ok a \<Longrightarrow> keeps I (f a)) \<Longrightarrow> keeps I (act_bind (act_lift r) f)"
  by (cases r) (auto simp: keeps_def act_bind_def act_lift_def)

lemma keeps_seq [keeps_intros]: "keeps I m \<Longrightarrow> keeps I n \<Longrightarrow> keeps I (act_seq m n)"
  by (simp add: act_seq_def keeps_bind)

lemma keeps_catch [keeps_intros]: "keeps I m \<Longrightarrow> (\<And>e. keeps I (h e)) \<Longrightarrow> keeps I (act_catch m h)"
  by (fastforce simp: keeps_def act_catch_def split: prod.split result.split)

lemma keeps_ignore [keeps_intros]: "keeps I m \<Longrightarrow> keeps I (act_ignore m)"
  by (simp add: act_ignore_def keeps_catch keeps_return)

lemma keeps_for_each [keeps_intros]: "(\<And>x. x \<in> set xs \<Longrightarrow> keeps I (f x)) \<Longrightarrow> keeps I (for_each f xs)"
  by (induction xs) (auto intro: keeps_return keeps_seq)

lemma keeps_read: "(\<And>s. I s \<Longrightarrow> I (fst (f s s)) \<and> snd (f s s) \<noteq> Panic) \<Longrightarrow> keeps I (act_read f)"
  by (simp add: keeps_def act_read_def)

lemma keeps_if [keeps_intros]: "(b \<Longrightarrow> keeps I m) \<Longrightarrow> (\<not> b \<Longrightarrow> keeps I n) \<Longrightarrow> keeps I (if b then m else n)"
  by simp

text \<open>
  The state read by \<open>act_read\<close> satisfies the invariant: a rule that keeps this fact for the rest.
\<close>

lemma keeps_read_state [keeps_intros]: "(\<And>s. I s \<Longrightarrow> keeps I (f s)) \<Longrightarrow> keeps I (act_read f)"
  by (rule keeps_read) (auto dest: keepsD)

subsection \<open>Parts of the state an action leaves alone\<close>

definition leaves :: "('s \<Rightarrow> 'v) \<Rightarrow> ('s, 'a) act \<Rightarrow> bool" where
  "leaves f m \<longleftrightarrow> (\<forall>s. f (fst (m s)) = f s)"

named_theorems leaves_intros

lemma leavesD: "leaves f m \<Longrightarrow> f (fst (m s)) = f s"
  by (simp add: leaves_def)

lemma leaves_return [leaves_intros]: "leaves f (act_return a)"
  by (simp add: leaves_def act_return_def)

lemma leaves_lift [leaves_intros]: "leaves f (act_lift r)"
  by (simp add: leaves_def act_lift_def)

lemma leaves_update [leaves_intros]: "(\<And>s. f (g s) = f s) \<Longrightarrow> leaves f (act_update g)"
  by (simp add: leaves_def act_update_def)

lemma leaves_bind [leaves_intros]: "leaves f m \<Longrightarrow> (\<And>a. leaves f (g a)) \<Longrightarrow> leaves f (act_bind m g)"
  unfolding leaves_def act_bind_def by (auto split: prod.split result.split) (metis fst_conv)+

lemma leaves_seq [leaves_intros]: "leaves f m \<Longrightarrow> leaves f n \<Longrightarrow> leaves f (act_seq m n)"
  by (simp add: act_seq_def leaves_bind)

lemma leaves_catch [leaves_intros]: "leaves f m \<Longrightarrow> (\<And>e. leaves f (h e)) \<Longrightarrow> leaves f (act_catch m h)"
  unfolding leaves_def act_catch_def by (auto split: prod.split result.split) (metis fst_conv)+

lemma leaves_ignore [leaves_intros]: "leaves f m \<Longrightarrow> leaves f (act_ignore m)"
  by (simp add: act_ignore_def leaves_catch leaves_return)

lemma leaves_for_each [leaves_intros]: "(\<And>x. x \<in> set xs \<Longrightarrow> leaves f (g x)) \<Longrightarrow> leaves f (for_each g xs)"
  by (induction xs) (auto intro: leaves_return leaves_seq)

lemma leaves_read [leaves_intros]: "(\<And>s. leaves f (g s)) \<Longrightarrow> leaves f (act_read g)"
  by (simp add: leaves_def act_read_def)

lemma leaves_if [leaves_intros]: "(b \<Longrightarrow> leaves f m) \<Longrightarrow> (\<not> b \<Longrightarrow> leaves f n) \<Longrightarrow> leaves f (if b then m else n)"
  by simp

lemma keeps_with: "keeps I m \<Longrightarrow> leaves f m \<Longrightarrow> keeps (\<lambda>s. I s \<and> P (f s)) m"
  by (simp add: keeps_def leaves_def)

text \<open>
  \<open>stays I m\<close>: the next state has \<open>I\<close> when the state had it, also after an error or a panic.
\<close>

definition stays :: "('s \<Rightarrow> bool) \<Rightarrow> ('s, 'a) act \<Rightarrow> bool" where
  "stays I m \<longleftrightarrow> (\<forall>s. I s \<longrightarrow> I (fst (m s)))"

named_theorems stays_intros

lemma staysD: "stays I m \<Longrightarrow> I s \<Longrightarrow> I (fst (m s))"
  by (simp add: stays_def)

lemma stays_return [stays_intros]: "stays I (act_return a)"
  by (simp add: stays_def act_return_def)

lemma stays_lift [stays_intros]: "stays I (act_lift r)"
  by (simp add: stays_def act_lift_def)

lemma stays_update [stays_intros]: "(\<And>s. I s \<Longrightarrow> I (f s)) \<Longrightarrow> stays I (act_update f)"
  by (simp add: stays_def act_update_def)

lemma stays_bind: "stays I m \<Longrightarrow> (\<And>a. stays I (f a)) \<Longrightarrow> stays I (act_bind m f)"
  by (fastforce simp: stays_def act_bind_def split: prod.split result.split)

lemma stays_bind_lift [stays_intros]: "(\<And>a. r = Ok a \<Longrightarrow> stays I (f a)) \<Longrightarrow> stays I (act_bind (act_lift r) f)"
  by (cases r) (auto simp: stays_def act_bind_def act_lift_def)

lemma stays_seq [stays_intros]: "stays I m \<Longrightarrow> stays I n \<Longrightarrow> stays I (act_seq m n)"
  by (simp add: act_seq_def stays_bind)

lemma stays_catch [stays_intros]: "stays I m \<Longrightarrow> (\<And>e. stays I (h e)) \<Longrightarrow> stays I (act_catch m h)"
  by (fastforce simp: stays_def act_catch_def split: prod.split result.split)

lemma stays_ignore [stays_intros]: "stays I m \<Longrightarrow> stays I (act_ignore m)"
  by (simp add: act_ignore_def stays_catch stays_return)

lemma stays_for_each [stays_intros]: "(\<And>x. x \<in> set xs \<Longrightarrow> stays I (f x)) \<Longrightarrow> stays I (for_each f xs)"
  by (induction xs) (auto intro: stays_return stays_seq)

lemma stays_read [stays_intros]: "(\<And>s. I s \<Longrightarrow> stays I (f s)) \<Longrightarrow> stays I (act_read f)"
  by (simp add: stays_def act_read_def)

lemma stays_if [stays_intros]: "(b \<Longrightarrow> stays I m) \<Longrightarrow> (\<not> b \<Longrightarrow> stays I n) \<Longrightarrow> stays I (if b then m else n)"
  by simp

lemma stays_leaves: "leaves f m \<Longrightarrow> stays (\<lambda>s. P (f s)) m"
  by (simp add: stays_def leaves_def)

lemma act_bind_Ok: "m s = (s', Ok a) \<Longrightarrow> act_bind m f s = f a s'"
  by (simp add: act_bind_def)

lemma act_seq_Ok: "m s = (s', Ok a) \<Longrightarrow> act_seq m n s = n s'"
  by (simp add: act_seq_def act_bind_def)

lemma act_seq_update: "act_seq (act_update f) n s = n (f s)"
  by (simp add: act_seq_def act_bind_def act_update_def)

end
