(* ===== verification/Swarm.thy ===== *)
theory Swarm
  imports Swarm_Types Storage F64 Peer_Ext Effects
begin

section \<open>The swarm loop\<close>

text \<open>
  The engine of one torrent: \<open>session/swarm/mod.rs\<close> (the state and its event loop),
  \<open>swarm/peer.rs\<close> (peer messages), \<open>swarm/pieces.rs\<close> (verification of pieces),
  \<open>swarm/piece_pipeline.rs\<close> (requests) and \<open>swarm/choke.rs\<close> (unchoke rounds). Every handler is an
  action on the state of the loop. The locks are not modelled: one task runs the handlers, and each
  handler here is atomic. What lies outside is the record \<open>env\<close>: the digest, the sending of a
  message on a connection and what the handshake of a connection said, and the storage backend.
  \<open>sw_sent\<close> and \<open>sw_events\<close> are the messages handed to connections and the events of the broadcast
  channel, in order. A \<open>HashMap\<close> or \<open>HashSet\<close> is a list in the order of its iteration. The traffic
  and strike counters wrap around.
\<close>

subsection \<open>State\<close>

datatype TorrentState = Registered | Downloading | Seeding | Paused | Checking | Error

datatype TorrentEvent =
    StateChanged TorrentState TorrentState
  | PieceCompleted u32
  | PieceFailed u32
  | TorrentFinished
  | PeerConnected SocketAddr "rstring option"
  | PeerDisconnected SocketAddr
  | TrackerAnnounced nat
  | TrackerError rstring
  | FileCompleted "rstring list"

datatype PeerEvent = Message PeerMessage | Disconnected

record ('c, 'st) env =
  e_sha1 :: "bytes \<Rightarrow> bytes"
  e_send :: "'c \<Rightarrow> PeerMessage \<Rightarrow> unit result"
  e_reserved :: "'c \<Rightarrow> bytes"
  e_mask :: "bytes \<Rightarrow> bytes"
  e_client_version :: rstring
  e_write :: "'st \<Rightarrow> u32 \<Rightarrow> bytes \<Rightarrow> 'st \<times> unit result"
  e_read :: "'st \<Rightarrow> u32 \<Rightarrow> u32 \<Rightarrow> bytes \<Rightarrow> bytes result"

record ('c, 'st) swarm =
  sw_meta :: Metainfo
  sw_storage :: 'st
  sw_piece_mgr :: PieceManager
  sw_peer_mgr :: "'c PeerManager"
  sw_peers :: "(SocketAddr \<times> PeerInfo) list"
  sw_active :: "(u32 \<times> ActiveDownload) list"
  sw_selector :: "bool list \<Rightarrow> nat list \<Rightarrow> u32 option"
  sw_max_pieces :: nat
  sw_endgame_threshold :: nat
  sw_request_timeout :: nat
  sw_upload_mgr :: UploadManager
  sw_snub_timeout :: nat
  sw_ban_threshold :: u32
  sw_cache_size :: nat
  sw_cache :: "(u32 \<times> bytes) list"
  sw_total_uploaded :: u64
  sw_total_wasted :: u64
  sw_completed_files :: "rstring list list"
  sw_blocked :: "(u32 \<times> SocketAddr) list"
  sw_our_extensions :: "(rstring \<times> u8) list"
  sw_events :: "TorrentEvent list"
  sw_sent :: "(SocketAddr \<times> PeerMessage) list"

subsection \<open>Small updates\<close>

definition update_peer :: "SocketAddr \<Rightarrow> (PeerInfo \<Rightarrow> PeerInfo) \<Rightarrow> ('c, 'st) swarm \<Rightarrow> ('c, 'st) swarm" where
  "update_peer addr f s =
     (case map_of (sw_peers s) addr of
        Some p \<Rightarrow> s\<lparr>sw_peers := AList.update addr (f p) (sw_peers s)\<rparr>
      | None \<Rightarrow> s)"

definition update_download :: "u32 \<Rightarrow> (ActiveDownload \<Rightarrow> ActiveDownload) \<Rightarrow> ('c, 'st) swarm \<Rightarrow> ('c, 'st) swarm" where
  "update_download index f s =
     (case map_of (sw_active s) index of
        Some dl \<Rightarrow> s\<lparr>sw_active := AList.update index (f dl) (sw_active s)\<rparr>
      | None \<Rightarrow> s)"

definition emit :: "TorrentEvent \<Rightarrow> ('c, 'st) swarm \<Rightarrow> ('c, 'st) swarm" where
  "emit e s = s\<lparr>sw_events := sw_events s @ [e]\<rparr>"

definition send_msg :: "('c, 'st) env \<Rightarrow> SocketAddr \<Rightarrow> PeerMessage \<Rightarrow> (('c, 'st) swarm, unit) act" where
  "send_msg E addr msg = (\<lambda>s.
     ((case connection addr (sw_peer_mgr s) of
         Some _ \<Rightarrow> s\<lparr>sw_sent := sw_sent s @ [(addr, msg)]\<rparr> | None \<Rightarrow> s),
      send_to (e_send E) (sw_peer_mgr s) addr msg))"

text \<open>A peer is dropped from the loop's map and from the peer manager.\<close>

definition drop_peer :: "SocketAddr \<Rightarrow> ('c, 'st) swarm \<Rightarrow> ('c, 'st) swarm" where
  "drop_peer addr s =
     s\<lparr>sw_peers := AList.delete addr (sw_peers s), sw_peer_mgr := remove_peer addr (sw_peer_mgr s)\<rparr>"

text \<open>The assignment of a block is dropped in the download of its piece, if there is one.\<close>

definition release_block :: "u32 \<Rightarrow> u32 \<Rightarrow> ('c, 'st) swarm \<Rightarrow> ('c, 'st) swarm" where
  "release_block index begin s = update_download index (unassign begin) s"

text \<open>The blocks of the requests in a pipeline, released one after the other.\<close>

definition release_slots :: "(u32 \<times> u32 \<times> nat) option list \<Rightarrow> ('c, 'st) swarm \<Rightarrow> ('c, 'st) swarm" where
  "release_slots slots s =
     foldl (\<lambda>s slot. case slot of Some (index, begin, _) \<Rightarrow> release_block index begin s | None \<Rightarrow> s) s slots"

subsection \<open>Verification of pieces\<close>

definition piece_len_at :: "Metainfo \<Rightarrow> u32 \<Rightarrow> u64 result" where
  "piece_len_at m index =
     (let idx = ucast index :: u64; n = info_num_pieces (info m); plen = piece_length (info m) in
      if n \<le> unat index then Ok 0
      else and_then (mul_u64 idx plen) (\<lambda>start.
        if unat index = n - 1 then and_then (total_size (info m)) (\<lambda>total. sub_u64 total start)
        else Ok plen))"

definition verify_piece_hash :: "(bytes \<Rightarrow> bytes) \<Rightarrow> bytes \<Rightarrow> bytes \<Rightarrow> bool" where
  "verify_piece_hash sha1 data expected \<longleftrightarrow> sha1 data = expected"

text \<open>\<open>progress >= 1.0\<close> for a file that is not empty; the quotient is an \<open>f64\<close>.\<close>

definition file_complete :: "FileStatus \<Rightarrow> bool" where
  "file_complete f \<longleftrightarrow>
     0 < fs_length f \<and> 1 \<le> f64 (f64 (of_int (uint (fs_downloaded f))) / f64 (of_int (uint (fs_length f))))"

definition report_file :: "FileStatus \<Rightarrow> ('c, 'st) swarm \<Rightarrow> ('c, 'st) swarm" where
  "report_file f s =
     (if file_complete f \<and> fs_path f \<notin> set (sw_completed_files s)
      then emit (FileCompleted (fs_path f)) (s\<lparr>sw_completed_files := sw_completed_files s @ [fs_path f]\<rparr>)
      else s)"

definition report_files :: "(('c, 'st) swarm, unit) act" where
  "report_files = act_read (\<lambda>s.
     act_bind (act_lift (file_offsets (info (sw_meta s)))) (\<lambda>offs.
       if length (sw_completed_files s) < length offs then
         act_bind (act_lift (file_status (info (sw_meta s)) (bitfield (sw_piece_mgr s)))) (\<lambda>fs.
           act_update (\<lambda>s. foldl (\<lambda>s f. report_file f s) s fs))
       else act_return ()))"

text \<open>\<open>Vec::remove(0)\<close> panics on an empty vector.\<close>

definition cache_piece :: "u32 \<Rightarrow> bytes \<Rightarrow> (('c, 'st) swarm, unit) act" where
  "cache_piece index data = act_read (\<lambda>s.
     act_seq
       (if sw_cache_size s \<le> length (sw_cache s) then
          act_bind (act_lift (if sw_cache s = [] then Panic else Ok (tl (sw_cache s)))) (\<lambda>c.
            act_update (\<lambda>s. s\<lparr>sw_cache := c\<rparr>))
        else act_return ())
       (act_update (\<lambda>s. s\<lparr>sw_cache := sw_cache s @ [(index, data)]\<rparr>)))"

definition complete_piece :: "('c, 'st) env \<Rightarrow> u32 \<Rightarrow> bytes \<Rightarrow> (('c, 'st) swarm, bool) act" where
  "complete_piece E index data =
     act_seq (\<lambda>s. let (st, r) = e_write E (sw_storage s) index data in (s\<lparr>sw_storage := st\<rparr>, r))
     (act_seq (\<lambda>s. case set_piece (sw_piece_mgr s) index of
                     Ok pm \<Rightarrow> (s\<lparr>sw_piece_mgr := pm\<rparr>, Ok ()) | Err e \<Rightarrow> (s, Err e) | Panic \<Rightarrow> (s, Panic))
     (act_seq (act_update (emit (PieceCompleted index)))
     (act_seq report_files
     (act_seq (cache_piece index data)
     (act_seq (act_update (\<lambda>s. s\<lparr>sw_active := AList.delete index (sw_active s)\<rparr>))
     (act_return True))))))"

text \<open>One strike for every peer a block is assigned to, then the bans.\<close>

definition strike :: "SocketAddr \<Rightarrow> ('c, 'st) swarm \<Rightarrow> ('c, 'st) swarm" where
  "strike addr s = update_peer addr (\<lambda>p. p\<lparr>pi_corrupt_blocks := pi_corrupt_blocks p + 1\<rparr>) s"

definition contributors :: "ActiveDownload \<Rightarrow> SocketAddr list" where
  "contributors dl = rev (remdups (rev (map the (filter (\<lambda>r. r \<noteq> None) (ad_requested dl)))))"

definition reject_piece :: "u32 \<Rightarrow> u64 \<Rightarrow> ('c, 'st) swarm \<Rightarrow> ('c, 'st) swarm" where
  "reject_piece index len s =
     (let s = s\<lparr>sw_total_wasted := sw_total_wasted s + len\<rparr>;
          s = (case map_of (sw_active s) index of
                 Some dl \<Rightarrow> foldl (\<lambda>s addr. strike addr s) s (contributors dl) | None \<Rightarrow> s);
          ban = map fst (filter (\<lambda>(_, p). sw_ban_threshold s \<le> pi_corrupt_blocks p) (sw_peers s));
          s = foldl (\<lambda>s addr. drop_peer addr s) s ban
      in emit (PieceFailed index) (s\<lparr>sw_active := AList.delete index (sw_active s)\<rparr>))"

definition verify_and_complete_piece :: "('c, 'st) env \<Rightarrow> u32 \<Rightarrow> (('c, 'st) swarm, bool) act" where
  "verify_and_complete_piece E index = act_read (\<lambda>s.
     act_bind (act_lift (piece_len_at (sw_meta s) index)) (\<lambda>len.
       if length (pieces (info (sw_meta s))) \<le> unat index then act_return False
       else case map_of (sw_active s) index of
         None \<Rightarrow> act_return False
       | Some dl \<Rightarrow>
           act_bind (act_lift (if length (ad_data dl) < unat len then Panic else Ok (take (unat len) (ad_data dl)))) (\<lambda>data.
             if verify_piece_hash (e_sha1 E) data (pieces (info (sw_meta s)) ! unat index)
             then complete_piece E index data
             else act_seq (act_update (reject_piece index len)) (act_return False))))"

definition broadcast_have :: "('c, 'st) env \<Rightarrow> u32 \<Rightarrow> (('c, 'st) swarm, unit) act" where
  "broadcast_have E index = act_read (\<lambda>s.
     for_each (\<lambda>addr. act_ignore (send_msg E addr (Have index))) (connection_addrs (sw_peer_mgr s)))"


subsection \<open>The request pipeline\<close>

definition count_availability :: "nat list \<Rightarrow> PeerInfo \<Rightarrow> nat list" where
  "count_availability avail p =
     (if pi_am_choked p \<or> pi_bitfield p = [] then avail
      else map (\<lambda>(i, n). if i < length (pi_bitfield p) \<and> pi_bitfield p ! i then n + 1 else n) (enumerate 0 avail))"

fun find_block_loop ::
  "(u32 \<times> ActiveDownload) list \<Rightarrow> u32 list \<Rightarrow> bool \<Rightarrow> u32 list \<Rightarrow> (u32 \<times> u32) option result" where
  "find_block_loop act fast_set only_fast [] = Ok None"
| "find_block_loop act fast_set only_fast (index # rest) =
     (if only_fast \<and> index \<notin> set fast_set then find_block_loop act fast_set only_fast rest
      else case map_of act index of
        None \<Rightarrow> find_block_loop act fast_set only_fast rest
      | Some dl \<Rightarrow>
          and_then (next_unrequested dl) (\<lambda>b. case b of
            Some begin \<Rightarrow> Ok (Some (index, begin))
          | None \<Rightarrow> find_block_loop act fast_set only_fast rest))"

definition find_block_for_peer ::
  "PeerInfo \<Rightarrow> (u32 \<times> ActiveDownload) list \<Rightarrow> bool \<Rightarrow> (u32 \<times> u32) option result" where
  "find_block_for_peer p act only_fast =
     find_block_loop act (pi_peer_allowed_fast p) only_fast
       (map (\<lambda>(i, _). of_nat i) (filter (\<lambda>(_, h). h) (enumerate 0 (pi_bitfield p))))"

definition request_block :: "('c, 'st) env \<Rightarrow> nat \<Rightarrow> SocketAddr \<Rightarrow> u32 \<Rightarrow> u32 \<Rightarrow> (('c, 'st) swarm, unit) act" where
  "request_block E now addr index begin = act_read (\<lambda>s.
     case map_of (sw_active s) index of
       None \<Rightarrow> act_return ()
     | Some dl \<Rightarrow>
         if block_len begin dl = 0 then act_return ()
         else act_seq (send_msg E addr (Request index begin (block_len begin dl)))
             (act_seq (act_update (update_peer addr (push_request now index begin)))
                (act_update (update_download index (mark_requested begin addr)))))"

definition start_piece ::
  "('c, 'st) env \<Rightarrow> nat \<Rightarrow> SocketAddr \<Rightarrow> bool list \<Rightarrow> nat list \<Rightarrow> (('c, 'st) swarm, unit) act" where
  "start_piece E now addr our_bf avail = act_read (\<lambda>s.
     case sw_selector s our_bf avail of
       None \<Rightarrow> act_return ()
     | Some idx \<Rightarrow>
         if idx \<in> fst ` set (sw_active s) then act_return ()
         else act_bind (act_lift (piece_len_at (sw_meta s) idx)) (\<lambda>len.
           if len = 0 then act_return ()
           else let dl = active_new idx len BLOCK_SIZE in
             act_bind (act_lift (and_then (next_unrequested dl) (\<lambda>b. case b of Some b \<Rightarrow> Ok b | None \<Rightarrow> Panic))) (\<lambda>begin.
               act_seq (act_update (\<lambda>s. s\<lparr>sw_active := AList.update idx dl (sw_active s)\<rparr>))
                 (request_block E now addr idx begin))))"

definition fill_peer ::
  "('c, 'st) env \<Rightarrow> nat \<Rightarrow> bool list \<Rightarrow> nat list \<Rightarrow> SocketAddr \<Rightarrow> (('c, 'st) swarm, unit) act" where
  "fill_peer E now our_bf avail addr = act_read (\<lambda>s.
     case map_of (sw_peers s) addr of
       None \<Rightarrow> act_return ()
     | Some p \<Rightarrow>
         let can_req_normal = can_request p;
             can_req_fast = (pi_am_choked p \<and> pi_peer_allowed_fast p \<noteq> [])
         in if \<not> can_req_normal \<and> \<not> can_req_fast then act_return ()
            else act_bind (act_lift (find_block_for_peer p (sw_active s) (\<not> can_req_normal \<and> can_req_fast))) (\<lambda>blk.
              case blk of
                Some (index, begin) \<Rightarrow> request_block E now addr index begin
              | None \<Rightarrow>
                  if length (sw_active s) < sw_max_pieces s then
                    if pi_bitfield p = [] then act_return () else start_piece E now addr our_bf avail
                  else act_return ()))"

definition fill :: "('c, 'st) env \<Rightarrow> nat \<Rightarrow> (('c, 'st) swarm, unit) act" where
  "fill E now = act_read (\<lambda>s.
     let avail = foldl count_availability (replicate (info_num_pieces (info (sw_meta s))) 0) (map snd (sw_peers s));
         our_bf = bitfield (sw_piece_mgr s);
         missing_count = length (filter Not our_bf)
     in act_seq
          (act_update (\<lambda>s. if 0 < missing_count \<and> missing_count < sw_endgame_threshold s
                           then s\<lparr>sw_selector := end_game\<rparr> else s))
          (for_each (fill_peer E now our_bf avail) (map fst (sw_peers s))))"

text \<open>Expiry: the slots that timed out are emptied and their blocks released.\<close>

definition expired :: "nat \<Rightarrow> nat \<Rightarrow> (u32 \<times> u32 \<times> nat) option \<Rightarrow> bool" where
  "expired now timeout slot = (case slot of Some (_, _, sent_at) \<Rightarrow> timeout < now - sent_at | None \<Rightarrow> False)"

definition expire_peer :: "nat \<Rightarrow> SocketAddr \<times> PeerInfo \<Rightarrow> ('c, 'st) swarm \<times> SocketAddr list \<Rightarrow> ('c, 'st) swarm \<times> SocketAddr list" where
  "expire_peer now = (\<lambda>(addr, p) (s, dead).
     if \<not> list_ex (\<lambda>slot. slot \<noteq> None) (pi_pipeline p) then (s, dead)
     else
       let out = filter (expired now (sw_request_timeout s)) (pi_pipeline p);
           slots = map (\<lambda>slot. if expired now (sw_request_timeout s) slot then None else slot) (pi_pipeline p);
           s = release_slots out s;
           s = update_peer addr (\<lambda>p. p\<lparr>pi_pipeline := slots\<rparr>) s
       in (s, if list_all (\<lambda>slot. slot = None) slots then dead @ [addr] else dead))"

definition unassign_peer :: "SocketAddr \<Rightarrow> ActiveDownload \<Rightarrow> ActiveDownload" where
  "unassign_peer addr dl =
     dl\<lparr>ad_requested := map (\<lambda>r. if r = Some addr then None else r) (ad_requested dl)\<rparr>"

definition expire_stale :: "nat \<Rightarrow> ('c, 'st) swarm \<Rightarrow> ('c, 'st) swarm" where
  "expire_stale now s =
     (let (s, dead) = foldl (\<lambda>sd ap. expire_peer now ap sd) (s, []) (sw_peers s)
      in foldl (\<lambda>s addr.
           drop_peer addr (s\<lparr>sw_active := map (\<lambda>(i, dl). (i, unassign_peer addr dl)) (sw_active s)\<rparr>)) s dead)"

subsection \<open>Peer messages\<close>

text \<open>The slots of requests for pieces outside a set are emptied, their blocks released.\<close>

definition drop_requests :: "(PeerInfo \<Rightarrow> u32 list) \<Rightarrow> SocketAddr \<Rightarrow> ('c, 'st) swarm \<Rightarrow> ('c, 'st) swarm" where
  "drop_requests fast addr s =
     (case map_of (sw_peers s) addr of
        None \<Rightarrow> s
      | Some p \<Rightarrow>
          let goes = (\<lambda>slot. case slot of Some (index, _, _) \<Rightarrow> index \<notin> set (fast p) | None \<Rightarrow> False)
          in update_peer addr (\<lambda>p. p\<lparr>pi_pipeline := map (\<lambda>slot. if goes slot then None else slot) (pi_pipeline p)\<rparr>)
               (release_slots (filter goes (pi_pipeline p)) s))"

definition receive_piece :: "('c, 'st) env \<Rightarrow> nat \<Rightarrow> SocketAddr \<Rightarrow> u32 \<Rightarrow> u32 \<Rightarrow> bytes \<Rightarrow> (('c, 'st) swarm, unit) act" where
  "receive_piece E now addr index begin data =
     act_seq (act_update (update_peer addr (\<lambda>p. p\<lparr>pi_downloaded_bytes := pi_downloaded_bytes p + of_nat (length data),
        pi_downloaded_round := pi_downloaded_round p + of_nat (length data), pi_last_data := Some now\<rparr>)))
     (act_seq (act_update (update_peer addr (remove_request index begin)))
     (act_read (\<lambda>s.
        case map_of (sw_active s) index of
          None \<Rightarrow> act_return ()
        | Some dl \<Rightarrow>
            act_seq (act_update (update_download index (\<lambda>dl. fst (mark_received begin data dl))))
              (if snd (mark_received begin data dl) then
                 act_bind (verify_and_complete_piece E index) (\<lambda>ok.
                   if ok then broadcast_have E index else act_return ())
               else act_return ()))))"

text \<open>
  A slice \<open>[start..end]\<close> of a cached piece with \<open>start > end\<close> panics; \<open>end\<close> is cut to the length of
  the piece, \<open>start\<close> is not.
\<close>

definition cached_slice :: "bytes \<Rightarrow> u32 \<Rightarrow> u32 \<Rightarrow> bytes result" where
  "cached_slice cached begin len =
     (let start = unat begin; stop = min (start + unat len) (length cached)
      in if stop < start then Panic else Ok (take (stop - start) (drop start cached)))"

definition serve_request :: "('c, 'st) env \<Rightarrow> SocketAddr \<Rightarrow> u32 \<Rightarrow> u32 \<Rightarrow> u32 \<Rightarrow> (('c, 'st) swarm, unit) act" where
  "serve_request E addr index begin len = act_read (\<lambda>s.
     let allowed_fast = (case map_of (sw_peers s) addr of Some p \<Rightarrow> index \<in> set (pi_our_allowed_fast p) | None \<Rightarrow> False)
     in if \<not> is_unchoked addr (sw_upload_mgr s) \<and> \<not> allowed_fast then act_return ()
        else if (index, addr) \<in> set (sw_blocked s) then act_return ()
        else act_bind (act_lift (case map_of (sw_cache s) index of
                 Some cached \<Rightarrow> cached_slice cached begin len
               | None \<Rightarrow> e_read E (sw_storage s) index begin (replicate (unat len) 0))) (\<lambda>data.
          if data = [] then act_return ()
          else act_seq (send_msg E addr (Piece index begin data))
              (act_update (\<lambda>s. update_peer addr (\<lambda>p. p\<lparr>pi_uploaded_bytes := pi_uploaded_bytes p + of_nat (length data),
                 pi_uploaded_round := pi_uploaded_round p + of_nat (length data)\<rparr>)
                 (s\<lparr>sw_total_uploaded := sw_total_uploaded s + of_nat (length data)\<rparr>)))))"

definition withdraw_request :: "SocketAddr \<Rightarrow> u32 \<Rightarrow> u32 \<Rightarrow> ('c, 'st) swarm \<Rightarrow> ('c, 'st) swarm" where
  "withdraw_request addr index begin s = release_block index begin (update_peer addr (remove_request index begin) s)"

fun handle_message :: "('c, 'st) env \<Rightarrow> nat \<Rightarrow> SocketAddr \<Rightarrow> PeerMessage \<Rightarrow> (('c, 'st) swarm, unit) act" where
  "handle_message E now addr KeepAlive = act_return ()"
| "handle_message E now addr Choke =
     act_seq (act_update (update_peer addr (\<lambda>p. p\<lparr>pi_am_choked := True\<rparr>)))
       (act_update (drop_requests pi_peer_allowed_fast addr))"
| "handle_message E now addr Unchoke = act_update (update_peer addr (\<lambda>p. p\<lparr>pi_am_choked := False\<rparr>))"
| "handle_message E now addr Interested = act_update (update_peer addr (\<lambda>p. p\<lparr>pi_interested := True\<rparr>))"
| "handle_message E now addr NotInterested = act_update (update_peer addr (\<lambda>p. p\<lparr>pi_interested := False\<rparr>))"
| "handle_message E now addr (Have index) =
     act_update (update_peer addr (\<lambda>p. if unat index < length (pi_bitfield p)
       then p\<lparr>pi_bitfield := (pi_bitfield p)[unat index := True]\<rparr> else p))"
| "handle_message E now addr (Bitfield bs) = act_read (\<lambda>s.
     act_update (update_peer addr (\<lambda>p. p\<lparr>pi_bitfield := parse_bitfield bs (info_num_pieces (info (sw_meta s)))\<rparr>)))"
| "handle_message E now addr (Piece index begin data) = receive_piece E now addr index begin data"
| "handle_message E now addr (Request index begin len) = serve_request E addr index begin len"
| "handle_message E now addr (Cancel index begin _) = act_update (withdraw_request addr index begin)"
| "handle_message E now addr (Port _) = act_return ()"
| "handle_message E now addr (Extended _ _) = act_return ()"
| "handle_message E now addr (Suggest _) = act_return ()"
| "handle_message E now addr HaveAll = act_read (\<lambda>s.
     act_update (update_peer addr (\<lambda>p. p\<lparr>pi_bitfield := replicate (info_num_pieces (info (sw_meta s))) True\<rparr>)))"
| "handle_message E now addr HaveNone = act_read (\<lambda>s.
     act_update (update_peer addr (\<lambda>p. p\<lparr>pi_bitfield := replicate (info_num_pieces (info (sw_meta s))) False\<rparr>)))"
| "handle_message E now addr (Reject index begin _) = act_update (withdraw_request addr index begin)"
| "handle_message E now addr (AllowedFast index) =
     act_update (update_peer addr (\<lambda>p. if index \<in> set (pi_peer_allowed_fast p) then p
       else p\<lparr>pi_peer_allowed_fast := pi_peer_allowed_fast p @ [index]\<rparr>))"
| "handle_message E now addr (Unknown _ _) = act_return ()"

definition handle_peer_message :: "('c, 'st) env \<Rightarrow> nat \<Rightarrow> SocketAddr \<Rightarrow> PeerMessage \<Rightarrow> (('c, 'st) swarm, unit) act" where
  "handle_peer_message E now addr msg = act_read (\<lambda>s.
     if addr \<in> fst ` set (sw_peers s) then handle_message E now addr msg else act_return ())"

text \<open>Disconnection, and the same clean-up after a failed message.\<close>

definition peer_gone :: "SocketAddr \<Rightarrow> ('c, 'st) swarm \<Rightarrow> ('c, 'st) swarm" where
  "peer_gone addr s =
     (let s = (case map_of (sw_peers s) addr of Some p \<Rightarrow> release_slots (pi_pipeline p) s | None \<Rightarrow> s)
      in emit (PeerDisconnected addr) (drop_peer addr s))"

fun handle_peer_event :: "('c, 'st) env \<Rightarrow> nat \<Rightarrow> SocketAddr \<Rightarrow> PeerEvent \<Rightarrow> (('c, 'st) swarm, unit) act" where
  "handle_peer_event E now addr Disconnected = act_update (peer_gone addr)"
| "handle_peer_event E now addr (Message msg) =
     act_catch (handle_peer_message E now addr msg) (\<lambda>_. act_update (peer_gone addr))"


subsection \<open>Unchoke rounds\<close>

definition peer_active :: "nat \<Rightarrow> nat \<Rightarrow> (SocketAddr \<times> PeerInfo) list \<Rightarrow> SocketAddr \<Rightarrow> bool" where
  "peer_active now snub ps addr =
     (case map_of ps addr of
        None \<Rightarrow> True
      | Some p \<Rightarrow> (case pi_last_data p of Some t \<Rightarrow> now - t < snub | None \<Rightarrow> False))"

definition peer_wants :: "(SocketAddr \<times> PeerInfo) list \<Rightarrow> SocketAddr \<Rightarrow> bool" where
  "peer_wants ps addr = (case map_of ps addr of Some p \<Rightarrow> pi_interested p | None \<Rightarrow> False)"

definition choke_stats :: "bool \<Rightarrow> (SocketAddr \<times> PeerInfo) list \<Rightarrow> (SocketAddr \<times> u64) list" where
  "choke_stats seeding ps =
     sort_key (\<lambda>(_, u). - uint u)
       (if seeding then map (\<lambda>(a, p). (a, pi_uploaded_round p)) (filter (\<lambda>(_, p). pi_interested p) ps)
        else map (\<lambda>(a, p). (a, pi_downloaded_round p)) ps)"

text \<open>The addresses to unchoke: the best, one drawn by \<open>rng\<close>, and more while slots are left.\<close>

definition choose_unchoked ::
  "(nat \<Rightarrow> nat) \<Rightarrow> nat \<Rightarrow> (SocketAddr \<Rightarrow> bool) \<Rightarrow> SocketAddr list \<Rightarrow> SocketAddr list" where
  "choose_unchoked rng slots keep stats =
     (let top_count = min (slots - 1) (length stats);
          chosen = take top_count stats;
          candidates = drop top_count stats;
          chosen = (if candidates = [] then chosen else List.insert (candidates ! rng (length candidates)) chosen);
          chosen = filter keep chosen
      in foldl (\<lambda>c addr. if slots \<le> length c then c else if keep addr then List.insert addr c else c) chosen stats)"

definition unchoke_peer :: "('c, 'st) env \<Rightarrow> SocketAddr \<Rightarrow> (('c, 'st) swarm, unit) act" where
  "unchoke_peer E addr = act_read (\<lambda>s.
     if is_unchoked addr (sw_upload_mgr s) then act_return ()
     else act_seq (act_update (\<lambda>s. s\<lparr>sw_upload_mgr := um_unchoke addr (sw_upload_mgr s)\<rparr>))
            (act_ignore (send_msg E addr Unchoke)))"

definition cancel_len :: "(u32 \<times> ActiveDownload) list \<Rightarrow> u32 \<Rightarrow> u32 \<Rightarrow> u32" where
  "cancel_len act index begin = (case map_of act index of Some dl \<Rightarrow> block_len begin dl | None \<Rightarrow> BLOCK_SIZE)"

definition choke_peer :: "('c, 'st) env \<Rightarrow> SocketAddr \<Rightarrow> (('c, 'st) swarm, unit) act" where
  "choke_peer E addr = act_read (\<lambda>s.
     act_seq
       (case map_of (sw_peers s) addr of
          None \<Rightarrow> act_return ()
        | Some p \<Rightarrow>
            for_each (\<lambda>(index, begin, _). act_ignore (send_msg E addr (Cancel index begin (cancel_len (sw_active s) index begin))))
              (filter (\<lambda>(index, _, _). index \<notin> set (pi_our_allowed_fast p)) (map the (filter (\<lambda>slot. slot \<noteq> None) (pi_pipeline p)))))
     (act_seq (act_update (drop_requests pi_our_allowed_fast addr))
     (act_seq (act_update (\<lambda>s. s\<lparr>sw_upload_mgr := um_choke addr (sw_upload_mgr s)\<rparr>))
       (act_ignore (send_msg E addr Choke)))))"

definition run_round :: "('c, 'st) env \<Rightarrow> nat \<Rightarrow> (nat \<Rightarrow> nat) \<Rightarrow> (('c, 'st) swarm, unit) act" where
  "run_round E now rng = act_read (\<lambda>s.
     let slots = unat (max_uploads (sw_upload_mgr s)) in
     if slots = 0 then act_return ()
     else
       let seeding = (missing_pieces (sw_piece_mgr s) = []);
           keep = (if seeding then peer_wants (sw_peers s) else peer_active now (sw_snub_timeout s) (sw_peers s));
           to_unchoke = choose_unchoked rng slots keep (map fst (choke_stats seeding (sw_peers s)))
       in act_seq (for_each (unchoke_peer E) to_unchoke)
         (act_seq (act_read (\<lambda>s. for_each (choke_peer E) (filter (\<lambda>a. a \<notin> set to_unchoke) (unchoked (sw_upload_mgr s)))))
           (act_update (\<lambda>s. s\<lparr>sw_peers := map (\<lambda>(a, p). (a, p\<lparr>pi_uploaded_round := 0, pi_downloaded_round := 0\<rparr>)) (sw_peers s)\<rparr>))))"

subsection \<open>New peers\<close>

text \<open>\<open>PeerConnection::remote_has_extension\<close> on the reserved bytes of the handshake.\<close>

definition remote_has_extension :: "bytes \<Rightarrow> nat \<Rightarrow> bool" where
  "remote_has_extension reserved n =
     (if 64 \<le> n then False else test_bit_at (reserved ! (n div 8)) (7 - n mod 8))"

definition ip_octets :: "SocketAddr \<Rightarrow> bytes" where
  "ip_octets addr = (case sa_ip addr of V4 ip \<Rightarrow> to_be_bytes ip | V6 ip \<Rightarrow> to_be_bytes ip)"

fun add_extensions :: "(rstring \<times> u8) list \<Rightarrow> ExtensionNegotiation \<Rightarrow> ExtensionNegotiation result" where
  "add_extensions [] n = Ok n"
| "add_extensions ((name, eid) # rest) n = and_then (add_extension n name eid) (add_extensions rest)"

definition send_extended_handshake ::
  "('c, 'st) env \<Rightarrow> SocketAddr \<Rightarrow> (rstring \<times> u8) list \<Rightarrow> (('c, 'st) swarm, unit) act" where
  "send_extended_handshake E addr our_ids =
     act_bind (act_lift (add_extensions our_ids extension_new)) (\<lambda>neg.
       act_ignore (send_msg E addr (Extended 0 (encode (extension_to_bencode (neg\<lparr>en_v := Some (e_client_version E)\<rparr>))))))"

definition send_bitfield :: "('c, 'st) env \<Rightarrow> SocketAddr \<Rightarrow> (('c, 'st) swarm, unit) act" where
  "send_bitfield E addr = act_read (\<lambda>s.
     act_bind (act_lift (to_bitfield (sw_piece_mgr s))) (\<lambda>bf.
       let bf_bytes = e_mask E bf;
           have_all = (missing_pieces (sw_piece_mgr s) = []);
           fast_enabled = (case connection addr (sw_peer_mgr s) of
             Some c \<Rightarrow> remote_has_extension (e_reserved E c) 44 | None \<Rightarrow> False);
           any = list_ex (\<lambda>b. b \<noteq> 0) bf_bytes
       in act_seq
           (if fast_enabled then
              if have_all then send_msg E addr HaveAll
              else if \<not> any then send_msg E addr HaveNone
              else send_msg E addr (Bitfield bf_bytes)
            else if any then send_msg E addr (Bitfield bf_bytes) else act_return ())
           (if \<not> have_all then send_msg E addr Interested else act_return ())))"

definition register_new_peer :: "('c, 'st) env \<Rightarrow> SocketAddr \<Rightarrow> 'c \<Rightarrow> (('c, 'st) swarm, unit) act" where
  "register_new_peer E addr conn = act_read (\<lambda>s.
     if connection addr (sw_peer_mgr s) \<noteq> None then act_return ()
     else if unat (max_connections (sw_peer_mgr s)) \<le> num_connections (sw_peer_mgr s) then act_return ()
     else
       let ours = sw_our_extensions s; reserved = e_reserved E conn;
           remote_ltep = (reserved ! 5 AND 0x10 \<noteq> 0 \<or> remote_has_extension reserved 63)
       in act_seq (if ours \<noteq> [] \<and> remote_ltep then send_extended_handshake E addr ours else act_return ())
         (act_bind
           (act_lift (if remote_has_extension reserved 44
              then compute_allowed_fast_set (e_sha1 E) (info_hash (e_sha1 E) (sw_meta s)) (ip_octets addr)
                     (of_nat (info_num_pieces (info (sw_meta s)))) 10
              else Ok []))
           (\<lambda>fast_set.
             act_seq (for_each (\<lambda>piece. act_ignore (send_msg E addr (AllowedFast piece))) fast_set)
             (act_seq (act_update (\<lambda>s. emit (PeerConnected addr None)
                (s\<lparr>sw_peers := AList.update addr (peer_info_new\<lparr>pi_our_extension_ids := ours, pi_our_allowed_fast := fast_set\<rparr>)
                   (sw_peers s)\<rparr>)))
               (send_bitfield E addr)))))"

text \<open>
  \<open>connect_pending\<close>: a batch is drained, attempts are made without the lock (their outcomes are an
  argument), the results are applied, and the new connections are registered.
\<close>

definition connect_pending ::
  "('c, 'st) env \<Rightarrow> nat \<Rightarrow> nat \<Rightarrow> (SocketAddr list \<Rightarrow> (SocketAddr \<times> (ErrorKind + 'c)) list) \<Rightarrow> (('c, 'st) swarm, unit) act" where
  "connect_pending E now now' attempt = act_read (\<lambda>s.
     let (pm1, batch) = drain_pending_batch now (sw_peer_mgr s) in
     if batch = [] then act_update (\<lambda>s. s\<lparr>sw_peer_mgr := pm1\<rparr>)
     else
       let (pm2, newly_connected) = apply_connect_results now' (attempt batch) batch pm1
       in act_seq (act_update (\<lambda>s. s\<lparr>sw_peer_mgr := pm2\<rparr>))
            (for_each (\<lambda>addr. act_read (\<lambda>s.
               case connection addr (sw_peer_mgr s) of
                 Some conn \<Rightarrow> register_new_peer E addr conn | None \<Rightarrow> act_return ())) newly_connected))"

subsection \<open>The event loop\<close>

text \<open>
  One turn of \<open>select!\<close>. The extensions run before a peer event; what they leave for the core is the
  set of blocked requests and the pieces to announce. The status turn is its part that connects
  pending peers; adding peers comes from the tracker, the DHT and peer exchange.
\<close>

datatype 'c loop_event =
    Inbound SocketAddr 'c
  | OnPeer nat SocketAddr PeerEvent "(u32 \<times> SocketAddr) list" "u32 list"
  | StatusTick nat nat "SocketAddr list \<Rightarrow> (SocketAddr \<times> (ErrorKind + 'c)) list"
  | ChokeTick nat "nat \<Rightarrow> nat"
  | StaleTick nat
  | AddPeers "SocketAddr list"

fun loop_turn :: "('c, 'st) env \<Rightarrow> 'c loop_event \<Rightarrow> (('c, 'st) swarm, unit) act" where
  "loop_turn E (Inbound addr conn) = act_ignore (register_new_peer E addr conn)"
| "loop_turn E (OnPeer now addr ev blocked haves) =
     act_seq (act_update (\<lambda>s. s\<lparr>sw_blocked := blocked\<rparr>))
     (act_seq (for_each (\<lambda>i. act_ignore (broadcast_have E i)) haves)
     (act_seq (handle_peer_event E now addr ev)
       (act_read (\<lambda>s. if missing_pieces (sw_piece_mgr s) \<noteq> [] then act_ignore (fill E now) else act_return ()))))"
| "loop_turn E (StatusTick now now' attempt) = act_ignore (connect_pending E now now' attempt)"
| "loop_turn E (ChokeTick now rng) = act_ignore (run_round E now rng)"
| "loop_turn E (StaleTick now) = act_update (expire_stale now)"
| "loop_turn E (AddPeers addrs) = act_update (\<lambda>s. s\<lparr>sw_peer_mgr := add_peers addrs (sw_peer_mgr s)\<rparr>)"

end
