(* ===== verification/Swarm_Inv.thy ===== *)
theory Swarm_Inv
  imports Swarm
begin

section \<open>The invariant of the swarm loop\<close>

text \<open>
  What every turn of the swarm loop keeps: downloads, pipelines, the peer manager, the upload slots
  and the messages sent are well formed. One preservation lemma per operation, then the summary for
  a turn and for every reachable state.
\<close>


subsection \<open>Well-formed states\<close>

definition meta_ok :: "Metainfo \<Rightarrow> bool" where
  "meta_ok m \<longleftrightarrow>
     (\<exists>total. total_size (info m) = Ok total \<and>
        (let n = info_num_pieces (info m); plen = unat (piece_length (info m)) in
          plen < 2 ^ 32 \<and> n < 2 ^ 30 \<and> (n - 1) * plen \<le> unat total \<and> unat total - (n - 1) * plen < 2 ^ 32))"

definition download_ok :: "Metainfo \<Rightarrow> u32 \<Rightarrow> ActiveDownload \<Rightarrow> bool" where
  "download_ok m i dl \<longleftrightarrow>
     ad_block_size dl = BLOCK_SIZE \<and> unat i < info_num_pieces (info m) \<and>
     piece_len_at m i = Ok (of_nat (length (ad_data dl))) \<and> length (ad_data dl) < 2 ^ 32 \<and>
     length (ad_requested dl) = div_ceil (length (ad_data dl)) (unat BLOCK_SIZE) \<and>
     length (ad_received dl) = length (ad_requested dl)"

text \<open>A request stays within its piece and asks for one block at most.\<close>

definition request_ok :: "Metainfo \<Rightarrow> PeerMessage \<Rightarrow> bool" where
  "request_ok m msg \<longleftrightarrow>
     (\<forall>index begin len. msg = Request index begin len \<longrightarrow>
        len \<noteq> 0 \<and> len \<le> BLOCK_SIZE \<and> unat index < info_num_pieces (info m) \<and>
        (\<exists>plen. piece_len_at m index = Ok plen \<and> unat begin + unat len \<le> unat plen))"

definition swarm_inv :: "('c, 'st) swarm \<Rightarrow> bool" where
  "swarm_inv s \<longleftrightarrow>
     meta_ok (sw_meta s) \<and> pm_wf (sw_piece_mgr s) \<and>
     num_pieces (sw_piece_mgr s) = info_num_pieces (info (sw_meta s)) \<and>
     distinct (map fst (sw_active s)) \<and> list_all (\<lambda>(i, dl). download_ok (sw_meta s) i dl) (sw_active s) \<and>
     distinct (map fst (sw_peers s)) \<and> list_all (\<lambda>(_, p). length (pi_pipeline p) = PIPELINE_SIZE) (sw_peers s) \<and>
     pr_inv (sw_peer_mgr s) \<and> 0 < sw_cache_size s \<and> list_all (\<lambda>(_, eid). eid \<noteq> 0) (sw_our_extensions s) \<and>
     distinct (unchoked (sw_upload_mgr s)) \<and> length (unchoked (sw_upload_mgr s)) \<le> unat (max_uploads (sw_upload_mgr s)) \<and>
     list_all (\<lambda>(_, msg). request_ok (sw_meta s) msg) (sw_sent s)"

definition env_ok :: "('c, 'st) env \<Rightarrow> bool" where
  "env_ok E \<longleftrightarrow>
     (\<forall>c msg. e_send E c msg \<noteq> Panic) \<and> (\<forall>st i d. snd (e_write E st i d) \<noteq> Panic) \<and>
     (\<forall>st i b buf. e_read E st i b buf \<noteq> Panic)"

text \<open>Lengths of pieces.\<close>

lemma meta_ok_num_pieces: "meta_ok m \<Longrightarrow> info_num_pieces (info m) < 2 ^ 30"
  by (auto simp: meta_ok_def Let_def)

lemma piece_len_at_Ok:
  assumes "meta_ok m"
  shows "\<exists>len. piece_len_at m i = Ok len \<and> unat len < 2 ^ 32"
proof (cases "info_num_pieces (info m) \<le> unat i")
  case True
  then show ?thesis by (simp add: piece_len_at_def)
next
  case False
  let ?n = "info_num_pieces (info m)" let ?p = "unat (piece_length (info m))"
  from assms obtain total where t: "total_size (info m) = Ok total" "?p < 2 ^ 32" "?n < 2 ^ 30"
    "(?n - 1) * ?p \<le> unat total" "unat total - (?n - 1) * ?p < 2 ^ 32"
    by (auto simp: meta_ok_def Let_def)
  have i: "unat (ucast i :: u64) = unat i" 
    by (simp add: unsigned_ucast_eq take_bit_nat_eq_self unsigned_less [THEN order_less_le_trans])
  have "unat i * ?p < 2 ^ 30 * 2 ^ 32"
    using t(2,3) False by (intro mult_strict_mono) auto
  then obtain start where start: "mul_u64 (ucast i) (piece_length (info m)) = Ok start" "unat start = unat i * ?p"
    by (auto simp: mul_u64_def checked_mul_def i unat_word_ariths)
  show ?thesis
  proof (cases "unat i = ?n - 1")
    case True
    with t start have "start \<le> total" by (simp add: word_le_nat_alt)
    with True False t start show ?thesis by (simp add: piece_len_at_def Let_def sub_u64_def unat_sub)
  next
    case False
    with t start show ?thesis by (simp add: piece_len_at_def Let_def)
  qed
qed

lemma BLOCK_SIZE_simps [simp]: "BLOCK_SIZE \<noteq> 0" "unat BLOCK_SIZE = 16384"
  by (simp_all add: BLOCK_SIZE_def)

lemma download_ok_new:
  assumes "piece_len_at m i = Ok len" and "unat len < 2 ^ 32" and "unat i < info_num_pieces (info m)"
  shows "download_ok m i (active_new i len BLOCK_SIZE)"
  using assms by (simp add: download_ok_def active_new_def Let_def)

lemma download_ok_unassign: "download_ok m i dl \<Longrightarrow> download_ok m i (unassign begin dl)"
  by (simp add: download_ok_def unassign_def)

lemma download_ok_unassign_peer: "download_ok m i dl \<Longrightarrow> download_ok m i (unassign_peer addr dl)"
  by (simp add: download_ok_def unassign_peer_def)

lemma download_ok_requested: "download_ok m i dl \<Longrightarrow> download_ok m i (mark_requested begin addr dl)"
  by (simp add: download_ok_def mark_requested_def)

lemma download_ok_received: "download_ok m i dl \<Longrightarrow> download_ok m i (fst (mark_received begin data dl))"
  by (simp add: download_ok_def mark_received_def Let_def)

lemmas download_intros = download_ok_unassign download_ok_unassign_peer download_ok_requested download_ok_received

text \<open>The next block of a sound download exists within the piece.\<close>

lemma next_unrequested_ok:
  assumes "download_ok m i dl"
  shows "next_unrequested dl \<noteq> Panic"
    and "next_unrequested dl = Ok (Some begin) \<Longrightarrow> unat begin < length (ad_data dl)"
proof -
  have dl: "ad_block_size dl = BLOCK_SIZE" "length (ad_data dl) < 2 ^ 32"
    "length (ad_requested dl) = div_ceil (length (ad_data dl)) 16384"
    using assms by (auto simp: download_ok_def)
  have fits: "k * 16384 < length (ad_data dl)" if "position None (ad_requested dl) = Some k" for k
    using position_less [OF that] dl(3) div_ceil_start [of 16384 k] by simp
  have mul: "\<exists>b. checked_mul (of_nat k :: u32) BLOCK_SIZE = Some b \<and> unat b = k * 16384"
    if "position None (ad_requested dl) = Some k" for k
  proof -
    have k: "k * 16384 < 2 ^ 32" using fits [OF that] dl(2) by simp
    then have "unat (of_nat k :: u32) = k" by (simp add: unat_of_nat)
    with k show ?thesis by (simp add: checked_mul_def unat_word_ariths)
  qed
  show "next_unrequested dl \<noteq> Panic" using mul by (auto simp: next_unrequested_def dl(1) split: option.splits)
  show "unat begin < length (ad_data dl)" if "next_unrequested dl = Ok (Some begin)"
    using that mul fits by (auto simp: next_unrequested_def dl(1) split: option.splits)
qed

lemma request_ok_block:
  assumes "download_ok m i dl" and "block_len begin dl \<noteq> 0"
  shows "request_ok m (Request i begin (block_len begin dl))"
proof -
  have len: "length (ad_data dl) < 2 ^ 32" "piece_len_at m i = Ok (of_nat (length (ad_data dl)))"
    "ad_block_size dl = BLOCK_SIZE" "unat i < info_num_pieces (info m)"
    using assms(1) by (auto simp: download_ok_def)
  have b: "unat (block_len begin dl) = min (length (ad_data dl) - unat begin) 16384"
    using len by (simp add: block_len_def unat_of_nat min_def)
  have "unat (block_len begin dl) \<noteq> 0" using assms(2) by (metis unat_eq_zero)
  then have "unat begin < length (ad_data dl)" unfolding b by linarith
  then have "unat begin + unat (block_len begin dl) \<le> length (ad_data dl)" unfolding b by linarith
  moreover have "block_len begin dl \<le> BLOCK_SIZE" using b by (simp add: word_le_nat_alt)
  moreover have "unat (of_nat (length (ad_data dl)) :: u64) = length (ad_data dl)" using len(1) by (simp add: unat_of_nat)
  ultimately show ?thesis using len assms(2) by (auto simp: request_ok_def)
qed


subsection \<open>Updates keep the invariant\<close>

text \<open>The fields the invariant does not look at.\<close>

lemma swarm_inv_other [simp]:
  "swarm_inv (s\<lparr>sw_storage := st\<rparr>) = swarm_inv s" "swarm_inv (s\<lparr>sw_events := es\<rparr>) = swarm_inv s"
  "swarm_inv (s\<lparr>sw_cache := c\<rparr>) = swarm_inv s" "swarm_inv (s\<lparr>sw_total_uploaded := u\<rparr>) = swarm_inv s"
  "swarm_inv (s\<lparr>sw_total_wasted := u\<rparr>) = swarm_inv s" "swarm_inv (s\<lparr>sw_completed_files := fs\<rparr>) = swarm_inv s"
  "swarm_inv (s\<lparr>sw_blocked := b\<rparr>) = swarm_inv s" "swarm_inv (s\<lparr>sw_selector := sel\<rparr>) = swarm_inv s"
  by (simp_all add: swarm_inv_def)

lemma swarm_inv_peers:
  "swarm_inv s \<Longrightarrow> distinct (map fst ps) \<Longrightarrow> list_all (\<lambda>(_, p). length (pi_pipeline p) = PIPELINE_SIZE) ps \<Longrightarrow>
     swarm_inv (s\<lparr>sw_peers := ps\<rparr>)"
  by (simp add: swarm_inv_def)

lemma swarm_inv_active:
  "swarm_inv s \<Longrightarrow> distinct (map fst act) \<Longrightarrow> list_all (\<lambda>(i, dl). download_ok (sw_meta s) i dl) act \<Longrightarrow>
     swarm_inv (s\<lparr>sw_active := act\<rparr>)"
  by (simp add: swarm_inv_def)

lemma swarm_invD:
  assumes "swarm_inv s"
  shows "meta_ok (sw_meta s)" "distinct (map fst (sw_active s))"
    "list_all (\<lambda>(i, dl). download_ok (sw_meta s) i dl) (sw_active s)"
    "distinct (map fst (sw_peers s))" "list_all (\<lambda>(_, p). length (pi_pipeline p) = PIPELINE_SIZE) (sw_peers s)"
    "pr_inv (sw_peer_mgr s)" "pm_wf (sw_piece_mgr s)"
    "num_pieces (sw_piece_mgr s) = info_num_pieces (info (sw_meta s))" "0 < sw_cache_size s"
    "list_all (\<lambda>(_, eid). eid \<noteq> 0) (sw_our_extensions s)"
  using assms by (simp_all add: swarm_inv_def)

lemma emit_inv [simp]: "swarm_inv (emit e s) = swarm_inv s"
  by (simp add: emit_def)

lemma emit_simps [simp]:
  "sw_meta (emit e s) = sw_meta s" "sw_piece_mgr (emit e s) = sw_piece_mgr s" "sw_active (emit e s) = sw_active s"
  "sw_peers (emit e s) = sw_peers s" "sw_peer_mgr (emit e s) = sw_peer_mgr s" "sw_storage (emit e s) = sw_storage s"
  "sw_cache (emit e s) = sw_cache s" "sw_sent (emit e s) = sw_sent s"
  by (simp_all add: emit_def)

lemma list_all_map_of: "list_all P xs \<Longrightarrow> map_of xs k = Some v \<Longrightarrow> P (k, v)"
  by (auto simp: list_all_iff dest: map_of_SomeD)

lemma active_ok: "swarm_inv s \<Longrightarrow> map_of (sw_active s) i = Some dl \<Longrightarrow> download_ok (sw_meta s) i dl"
  using list_all_map_of [OF swarm_invD(3)] by fastforce

lemma update_peer_inv:
  assumes "swarm_inv s" and "\<And>p. length (pi_pipeline p) = PIPELINE_SIZE \<Longrightarrow> length (pi_pipeline (f p)) = PIPELINE_SIZE"
  shows "swarm_inv (update_peer addr f s)"
proof (cases "map_of (sw_peers s) addr")
  case (Some p)
  then have "length (pi_pipeline (f p)) = PIPELINE_SIZE"
    using assms(2) list_all_map_of [OF swarm_invD(5) [OF assms(1)]] by fastforce
  with assms(1) show ?thesis
    by (auto simp: update_peer_def Some intro!: swarm_inv_peers alist_inv swarm_invD)
qed (simp add: update_peer_def assms)

lemma update_download_inv:
  assumes "swarm_inv s" and "\<And>dl. download_ok (sw_meta s) index dl \<Longrightarrow> download_ok (sw_meta s) index (f dl)"
  shows "swarm_inv (update_download index f s)"
proof (cases "map_of (sw_active s) index")
  case (Some dl)
  with assms active_ok [OF assms(1) Some] show ?thesis
    by (auto simp: update_download_def intro!: swarm_inv_active alist_inv swarm_invD)
qed (simp add: update_download_def assms)

lemma update_peer_simps [simp]:
  "sw_meta (update_peer a f s) = sw_meta s" "sw_piece_mgr (update_peer a f s) = sw_piece_mgr s"
  "sw_active (update_peer a f s) = sw_active s" "sw_peer_mgr (update_peer a f s) = sw_peer_mgr s"
  "sw_storage (update_peer a f s) = sw_storage s" "sw_cache (update_peer a f s) = sw_cache s"
  "sw_sent (update_peer a f s) = sw_sent s" "sw_upload_mgr (update_peer a f s) = sw_upload_mgr s"
  by (simp_all add: update_peer_def split: option.split)

lemma update_download_simps [simp]:
  "sw_meta (update_download i g s) = sw_meta s" "sw_piece_mgr (update_download i g s) = sw_piece_mgr s"
  "sw_peers (update_download i g s) = sw_peers s" "sw_peer_mgr (update_download i g s) = sw_peer_mgr s"
  "sw_storage (update_download i g s) = sw_storage s" "sw_cache (update_download i g s) = sw_cache s"
  "sw_sent (update_download i g s) = sw_sent s" "sw_upload_mgr (update_download i g s) = sw_upload_mgr s"
  by (simp_all add: update_download_def split: option.split)

lemma foldl_inv: "I s \<Longrightarrow> (\<And>s x. x \<in> set xs \<Longrightarrow> I s \<Longrightarrow> I (f s x)) \<Longrightarrow> I (foldl f s xs)"
  by (induction xs arbitrary: s) auto

lemma release_block_inv: "swarm_inv s \<Longrightarrow> swarm_inv (release_block i b s)"
  unfolding release_block_def by (rule update_download_inv) (auto intro: download_intros)

lemma release_slots_inv: "swarm_inv s \<Longrightarrow> swarm_inv (release_slots slots s)"
  unfolding release_slots_def by (rule foldl_inv) (auto simp: release_block_inv split: option.split)

lemma drop_peer_inv: "swarm_inv s \<Longrightarrow> swarm_inv (drop_peer addr s)"
  by (simp add: swarm_inv_def drop_peer_def alist_inv remove_peer_inv)

lemma length_fill_slot [simp]: "length (fill_slot v xs) = length xs"
  by (induction v xs rule: fill_slot.induct) auto

lemma length_clear_slot [simp]: "length (clear_slot i b xs) = length xs"
  by (induction i b xs rule: clear_slot.induct) auto

lemma drop_requests_inv: "swarm_inv s \<Longrightarrow> swarm_inv (drop_requests fast addr s)"
  by (auto simp: drop_requests_def Let_def intro!: update_peer_inv release_slots_inv split: option.split)

lemma withdraw_request_inv: "swarm_inv s \<Longrightarrow> swarm_inv (withdraw_request addr i b s)"
  by (auto simp: withdraw_request_def remove_request_def intro!: release_block_inv update_peer_inv)

lemma peer_gone_inv: "swarm_inv s \<Longrightarrow> swarm_inv (peer_gone addr s)"
  by (auto simp: peer_gone_def Let_def intro!: drop_peer_inv release_slots_inv split: option.split)

lemma delete_active_inv: "swarm_inv s \<Longrightarrow> swarm_inv (s\<lparr>sw_active := AList.delete i (sw_active s)\<rparr>)"
  by (auto intro!: swarm_inv_active alist_inv swarm_invD)

lemma strike_inv: "swarm_inv s \<Longrightarrow> swarm_inv (strike addr s)"
  unfolding strike_def by (rule update_peer_inv) simp_all

lemma reject_piece_inv: "swarm_inv s \<Longrightarrow> swarm_inv (reject_piece i len s)"
  by (auto simp: reject_piece_def Let_def intro!: delete_active_inv foldl_inv [where I = swarm_inv] drop_peer_inv strike_inv split: option.split)

lemma expire_peer_inv: "swarm_inv s \<Longrightarrow> length (pi_pipeline p) = PIPELINE_SIZE \<Longrightarrow> swarm_inv (fst (expire_peer now (addr, p) (s, dead)))"
  by (auto simp: expire_peer_def Let_def intro!: update_peer_inv release_slots_inv)

lemma unassign_all_inv:
  assumes "swarm_inv s"
  shows "swarm_inv (s\<lparr>sw_active := map (\<lambda>(i, dl). (i, unassign_peer addr dl)) (sw_active s)\<rparr>)"
proof (rule swarm_inv_active [OF assms])
  have keys: "map fst (map (\<lambda>(i, dl). (i, unassign_peer addr dl)) (sw_active s)) = map fst (sw_active s)" by auto
  show "distinct (map fst (map (\<lambda>(i, dl). (i, unassign_peer addr dl)) (sw_active s)))"
    unfolding keys by (rule swarm_invD(2) [OF assms])
  show "list_all (\<lambda>(i, dl). download_ok (sw_meta s) i dl) (map (\<lambda>(i, dl). (i, unassign_peer addr dl)) (sw_active s))"
    using swarm_invD(3) [OF assms] by (auto simp: list_all_iff intro!: download_ok_unassign_peer)
qed

lemma expire_stale_inv:
  assumes "swarm_inv s"
  shows "swarm_inv (expire_stale now s)"
proof -
  have "swarm_inv (fst (foldl (\<lambda>sd ap. expire_peer now ap sd) (s, []) (sw_peers s)))"
    using assms swarm_invD(5) [OF assms]
    by (intro foldl_inv [where I = "\<lambda>sd. swarm_inv (fst sd)"]) (auto simp: list_all_iff intro: expire_peer_inv)
  then show ?thesis
    by (auto simp: expire_stale_def Let_def split: prod.split intro!: foldl_inv [where I = swarm_inv] drop_peer_inv unassign_all_inv)
qed


subsection \<open>File status does not overflow\<close>

lemma file_offsets_loop_ok:
  "sum_lengths a fs = Ok t \<Longrightarrow>
     \<exists>fos. file_offsets_loop a fs = Ok fos \<and> list_all (\<lambda>fo. unat (fo_offset fo) + unat (fo_length fo) < 2 ^ 64) fos"
proof (induction fs arbitrary: a)
  case (Cons f fs)
  then obtain b where b: "add_u64 a (fi_length f) = Ok b" "sum_lengths b fs = Ok t" by auto
  then have "checked_add a (fi_length f) = Some b" by (auto simp: add_u64_def split: option.splits)
  then have "unat b = unat a + unat (fi_length f)" by (rule unat_checked_add)
  then have "unat a + unat (fi_length f) < 2 ^ 64" using unsigned_less [of b, where 'a = nat] by simp
  with Cons.IH [OF b(2)] b(1) show ?case by auto
qed simp

lemma file_offsets_ok:
  assumes "total_size i = Ok tot"
  shows "\<exists>fos. file_offsets i = Ok fos \<and> list_all (\<lambda>fo. unat (fo_offset fo) + unat (fo_length fo) < 2 ^ 64) fos"
proof (cases "mode i")
  case (Single name len)
  then show ?thesis using unsigned_less [of len, where 'a = nat] by (simp add: file_offsets_def)
next
  case (Multiple name files)
  with assms file_offsets_loop_ok [of 0 files tot] show ?thesis by (simp add: file_offsets_def total_size_def)
qed

lemma unat_diff_le: "unat (a - b :: u64) = unat a - unat b" if "b \<le> a"
  using that by (simp add: unat_sub)

lemma credit_files_ok:
  assumes "list_all (\<lambda>fo. unat (fo_offset fo) + unat (fo_length fo) < 2 ^ 64) fos" and "ps \<le> pe"
    and "list_all (\<lambda>d. unat d \<le> B) ds" and "B + (unat pe - unat ps) < 2 ^ 64"
  shows "\<exists>ds'. credit_files ps pe fos ds = Ok ds' \<and> length ds' = length ds \<and>
    list_all (\<lambda>d. unat d \<le> B + (unat pe - unat ps)) ds'"
  using assms
proof (induction ps pe fos ds rule: credit_files.induct)
  case (1 ps pe fo fos d ds)
  obtain fe where fe: "add_u64 (fo_offset fo) (fo_length fo) = Ok fe"
    using "1.prems"(1) add_u64_Ok by fastforce
  let ?os = "max ps (fo_offset fo)" let ?oe = "min pe fe"
  have "\<exists>d'. (if ?os < ?oe then add_u64 d (?oe - ?os) else Ok d) = Ok d' \<and> unat d' \<le> B + (unat pe - unat ps)"
  proof (cases "?os < ?oe")
    case True
    then have "unat (?oe - ?os) = unat ?oe - unat ?os" by (intro unat_diff_le less_imp_le)
    moreover have "unat ?oe \<le> unat pe" "unat ps \<le> unat ?os" by (simp_all add: unat_min_max)
    ultimately have le: "unat (?oe - ?os) \<le> unat pe - unat ps" by linarith
    then have "unat d + unat (?oe - ?os) < 2 ^ 64" using "1.prems"(3,4) by simp
    from add_u64_Ok [OF this] True le "1.prems"(3) show ?thesis by auto
  next
    case False
    with "1.prems"(3) show ?thesis by (intro exI [of _ d]) auto
  qed
  then obtain d' where d': "(if ?os < ?oe then add_u64 d (?oe - ?os) else Ok d) = Ok d'" "unat d' \<le> B + (unat pe - unat ps)"
    by blast
  have rest: "list_all (\<lambda>d. unat d \<le> B + (unat pe - unat ps)) ds"
    using "1.prems"(3) by (auto simp: list_all_iff)
  show ?case
  proof (cases "pe \<le> fe")
    case True
    then show ?thesis unfolding credit_files.simps Let_def fe and_then.simps d'(1) using d'(2) rest by simp
  next
    case False
    from "1.IH" [OF fe refl refl d'(1) False] "1.prems" obtain ds' where
      "credit_files ps pe fos ds = Ok ds'" "length ds' = length ds" "list_all (\<lambda>d. unat d \<le> B + (unat pe - unat ps)) ds'"
      by auto
    with False show ?thesis unfolding credit_files.simps Let_def fe and_then.simps d'(1) using d'(2) by simp
  qed
qed (auto simp: list_all_iff intro: trans_le_add1)

lemma credit_pieces_ok:
  assumes "list_all (\<lambda>fo. unat (fo_offset fo) + unat (fo_length fo) < 2 ^ 64) fos" and "unat plen < 2 ^ 32"
    and "i + length bf \<le> 2 ^ 32" and "list_all (\<lambda>d. unat d \<le> i * unat plen) ds"
  shows "\<exists>ds'. credit_pieces tot plen fos i bf ds = Ok ds'"
  using assms(3,4)
proof (induction bf arbitrary: i ds)
  case (Cons h bf)
  have next_ok: "list_all (\<lambda>d. unat d \<le> Suc i * unat plen) ds"
    using Cons.prems(2) by (auto simp: list_all_iff intro: trans_le_add2)
  show ?case
  proof (cases h)
    case False
    with Cons.IH [of "Suc i" ds] Cons.prems(1) next_ok show ?thesis by simp
  next
    case True
    have i: "i < 2 ^ 32" "unat (of_nat i :: u64) = i" using Cons.prems(1) by (simp_all add: unat_of_nat)
    have "Suc i * unat plen < 2 ^ 32 * 2 ^ 32"
      using i(1) assms(2) by (intro le_less_trans [OF mult_right_mono [of "Suc i" "2 ^ 32"]]) auto
    then have b: "i * unat plen + unat plen < 2 ^ 64" by simp
    then obtain ps where ps: "mul_u64 (of_nat i) plen = Ok ps" "unat ps = i * unat plen"
      by (auto simp: mul_u64_def checked_mul_def i(2) unat_word_ariths)
    obtain e where e: "add_u64 ps plen = Ok e" "unat e = i * unat plen + unat plen"
      using add_u64_Ok [of ps plen] ps(2) b by auto
    let ?pe = "min tot e"
    show ?thesis
    proof (cases "?pe \<le> ps")
      case True
      with \<open>h\<close> ps e show ?thesis by (simp add: Let_def)
    next
      case False
      have "unat ?pe \<le> i * unat plen + unat plen" by (simp add: unat_min_max e(2))
      then have len: "unat ?pe - unat ps \<le> unat plen" using ps(2) by simp
      have "ps \<le> ?pe" using False by (simp only: not_le less_imp_le)
      from credit_files_ok [OF assms(1) this, of "i * unat plen" ds] Cons.prems(2) len b
      obtain ds' where ds': "credit_files ps ?pe fos ds = Ok ds'"
        "list_all (\<lambda>d. unat d \<le> i * unat plen + (unat ?pe - unat ps)) ds'" by auto
      with len have "list_all (\<lambda>d. unat d \<le> Suc i * unat plen) ds'" by (auto simp: list_all_iff)
      with Cons.IH [of "Suc i" ds'] Cons.prems(1) \<open>h\<close> False ps e ds' show ?thesis by (simp add: Let_def)
    qed
  qed
qed simp

lemma file_status_Ok:
  assumes "total_size i = Ok tot" and "length bf = info_num_pieces i" and "info_num_pieces i < 2 ^ 32"
    and "unat (piece_length i) < 2 ^ 32"
  shows "\<exists>fs. file_status i bf = Ok fs"
proof -
  obtain fos where fos: "file_offsets i = Ok fos"
    "list_all (\<lambda>fo. unat (fo_offset fo) + unat (fo_length fo) < 2 ^ 64) fos"
    using file_offsets_ok [OF assms(1)] by blast
  from credit_pieces_ok [OF fos(2) assms(4), of 0 bf "replicate (length fos) 0" tot] assms(2,3)
  show ?thesis by (auto simp: file_status_def assms(1) fos(1) list_all_iff)
qed

lemma file_status_ok:
  assumes "total_size i = Ok tot" and "length bf = info_num_pieces i" and "info_num_pieces i < 2 ^ 32"
    and "unat (piece_length i) < 2 ^ 32"
  shows "file_status i bf \<noteq> Panic"
  using file_status_Ok [OF assms] by auto


subsection \<open>Actions keep the invariant\<close>

text \<open>The metainfo never changes, so the invariant of the actions fixes it.\<close>

definition inv_at :: "Metainfo \<Rightarrow> ('c, 'st) swarm \<Rightarrow> bool" where
  "inv_at m s \<longleftrightarrow> swarm_inv s \<and> sw_meta s = m"

lemma inv_atD: "inv_at m s \<Longrightarrow> swarm_inv s" "inv_at m s \<Longrightarrow> sw_meta s = m"
  by (simp_all add: inv_at_def)

lemma keeps_inv_update:
  "(\<And>s. swarm_inv s \<Longrightarrow> swarm_inv (f s)) \<Longrightarrow> (\<And>s. sw_meta (f s) = sw_meta s) \<Longrightarrow> keeps (inv_at m) (act_update f)"
  by (rule keeps_update) (simp add: inv_at_def)

lemma release_block_meta [simp]: "sw_meta (release_block i b s) = sw_meta s"
  by (simp add: release_block_def)

lemma foldl_same: "(\<And>s x. g (f s x) = g s) \<Longrightarrow> g (foldl f s xs) = g s"
  by (induction xs arbitrary: s) auto

lemma release_slots_meta [simp]: "sw_meta (release_slots slots s) = sw_meta s"
  unfolding release_slots_def by (rule foldl_same) (auto split: option.split)

lemma drop_peer_meta [simp]: "sw_meta (drop_peer a s) = sw_meta s"
  by (simp add: drop_peer_def)

lemma drop_requests_meta [simp]: "sw_meta (drop_requests fast a s) = sw_meta s"
  by (simp add: drop_requests_def Let_def split: option.split)

lemma peer_gone_meta [simp]: "sw_meta (peer_gone a s) = sw_meta s"
  by (simp add: peer_gone_def Let_def split: option.split)

lemma withdraw_request_meta [simp]: "sw_meta (withdraw_request a i b s) = sw_meta s"
  by (simp add: withdraw_request_def)

lemma strike_meta [simp]: "sw_meta (strike a s) = sw_meta s"
  by (simp add: strike_def)

lemma reject_piece_meta [simp]: "sw_meta (reject_piece i len s) = sw_meta s"
  by (simp add: reject_piece_def Let_def foldl_same [where g = sw_meta] split: option.split)

lemma expire_peer_meta: "sw_meta (fst (expire_peer now ap sd)) = sw_meta (fst sd)"
  by (simp add: expire_peer_def Let_def split: prod.split)

lemma expire_stale_meta [simp]: "sw_meta (expire_stale now s) = sw_meta s"
  using foldl_same [where g = "\<lambda>sd. sw_meta (fst sd)" and f = "\<lambda>sd ap. expire_peer now ap sd" and s = "(s, [])"]
  by (simp add: expire_stale_def Let_def foldl_same [where g = sw_meta] expire_peer_meta split: prod.split) (metis fst_conv)

lemma report_file_inv: "swarm_inv s \<Longrightarrow> swarm_inv (report_file f s)"
  by (simp add: report_file_def)

lemma report_file_meta [simp]: "sw_meta (report_file f s) = sw_meta s"
  by (simp add: report_file_def)

subsubsection \<open>Sending\<close>

lemma send_msg_keeps [keeps_intros]:
  fixes E :: "('c, 'st) env"
  assumes "env_ok E" and "request_ok m msg"
  shows "keeps (inv_at m) (send_msg E addr msg)"
  using assms by (auto intro!: keepsI simp: send_msg_def send_to_def env_ok_def inv_at_def swarm_inv_def split: option.splits)

lemma request_ok_other [simp]:
  "request_ok m (Have i)" "request_ok m (Cancel i b l)" "request_ok m Choke" "request_ok m Unchoke"
  "request_ok m Interested" "request_ok m (Piece i b d)" "request_ok m (Bitfield bs)" "request_ok m HaveAll"
  "request_ok m HaveNone" "request_ok m (AllowedFast i)" "request_ok m (Extended e d)"
  by (simp_all add: request_ok_def)

lemma broadcast_have_keeps [keeps_intros]: "env_ok E \<Longrightarrow> keeps (inv_at m) (broadcast_have E i)"
  unfolding broadcast_have_def by (intro keeps_intros) simp_all

subsubsection \<open>Pieces\<close>

lemma report_files_keeps [keeps_intros]: "keeps (inv_at m) report_files"
  unfolding report_files_def
proof (intro keeps_intros)
  fix s :: "('c, 'st) swarm" assume s: "inv_at m s"
  then obtain tot where t: "total_size (info (sw_meta s)) = Ok tot" "info_num_pieces (info (sw_meta s)) < 2 ^ 30"
    "unat (piece_length (info (sw_meta s))) < 2 ^ 32"
    using swarm_invD(1) by (fastforce simp: inv_at_def meta_ok_def Let_def)
  show "file_offsets (info (sw_meta s)) \<noteq> Panic" using file_offsets_ok [OF t(1)] by auto
  have "length (bitfield (sw_piece_mgr s)) = info_num_pieces (info (sw_meta s))"
    using swarm_invD(7,8) [OF inv_atD(1) [OF s]] by (simp add: pm_wf_def)
  with t show "file_status (info (sw_meta s)) (bitfield (sw_piece_mgr s)) \<noteq> Panic"
    by (intro file_status_ok) simp_all
  show "\<And>fs s. inv_at m s \<Longrightarrow> inv_at m (foldl (\<lambda>s f. report_file f s) s fs)"
    by (auto simp: inv_at_def foldl_same [where g = sw_meta] intro!: foldl_inv [where I = swarm_inv] report_file_inv)
qed

lemma cache_piece_keeps [keeps_intros]: "keeps (inv_at m) (cache_piece i data)"
  unfolding cache_piece_def
  by (intro keeps_intros) (auto simp: inv_at_def dest: swarm_invD(9))

lemma set_piece_keeps:
  "keeps (inv_at m) (\<lambda>s. case set_piece (sw_piece_mgr s) i of
     Ok pm \<Rightarrow> (s\<lparr>sw_piece_mgr := pm\<rparr>, Ok ()) | Err e \<Rightarrow> (s, Err e) | Panic \<Rightarrow> (s, Panic))"
  (is "keeps _ ?f")
proof -
  have "inv_at m (fst (?f s)) \<and> snd (?f s) \<noteq> Panic" if s: "inv_at m s" for s
  proof -
    obtain pm' where "set_piece (sw_piece_mgr s) i = Ok pm'" "pm_wf pm'" "num_pieces pm' = num_pieces (sw_piece_mgr s)"
      using set_piece_wf [OF swarm_invD(7) [OF inv_atD(1) [OF s]]] by blast
    with s show ?thesis by (auto simp: inv_at_def swarm_inv_def)
  qed
  then show ?thesis by (simp add: keeps_def)
qed

lemma complete_piece_keeps [keeps_intros]:
  fixes E :: "('c, 'st) env"
  assumes "env_ok E"
  shows "keeps (inv_at m) (complete_piece E i data)"
  unfolding complete_piece_def
proof (intro keeps_intros)
  show "keeps (inv_at m) (\<lambda>s. let (st, r) = e_write E (sw_storage s) i data in (s\<lparr>sw_storage := st\<rparr>, r))"
    using assms by (intro keepsI) (simp add: env_ok_def inv_at_def case_prod_unfold Let_def)
  show "keeps (inv_at m) (\<lambda>s. case set_piece (sw_piece_mgr s) i of
      Ok pm \<Rightarrow> (s\<lparr>sw_piece_mgr := pm\<rparr>, Ok ()) | Err e \<Rightarrow> (s, Err e) | Panic \<Rightarrow> (s, Panic))"
    by (rule set_piece_keeps)
qed (simp_all add: inv_at_def delete_active_inv)

lemma verify_and_complete_keeps [keeps_intros]:
  fixes E :: "('c, 'st) env"
  assumes "env_ok E"
  shows "keeps (inv_at m) (verify_and_complete_piece E i)"
  unfolding verify_and_complete_piece_def
proof (rule keeps_read_state)
  fix s :: "('c, 'st) swarm" assume s: "inv_at m s"
  show "keeps (inv_at m) (act_bind (act_lift (piece_len_at (sw_meta s) i)) (\<lambda>len.
       if length (pieces (info (sw_meta s))) \<le> unat i then act_return False
       else case map_of (sw_active s) i of
         None \<Rightarrow> act_return False
       | Some dl \<Rightarrow>
           act_bind (act_lift (if length (ad_data dl) < unat len then Panic else Ok (take (unat len) (ad_data dl)))) (\<lambda>data.
             if verify_piece_hash (e_sha1 E) data (pieces (info (sw_meta s)) ! unat i)
             then complete_piece E i data
             else act_seq (act_update (reject_piece i len)) (act_return False))))"
  proof (cases "map_of (sw_active s) i")
    case None
    then show ?thesis using piece_len_at_Ok [OF swarm_invD(1) [OF inv_atD(1) [OF s]], of i]
      by (auto intro!: keeps_intros)
  next
    case (Some dl)
    have dl: "piece_len_at (sw_meta s) i = Ok (of_nat (length (ad_data dl)))" "length (ad_data dl) < 2 ^ 32"
      using active_ok [OF inv_atD(1) [OF s] Some] by (simp_all add: download_ok_def)
    then have "unat (of_nat (length (ad_data dl)) :: u64) = length (ad_data dl)" by (simp add: unat_of_nat)
    then show ?thesis unfolding Some dl(1) option.case
      by (intro keeps_intros keeps_inv_update assms reject_piece_inv) auto
  qed
qed


subsubsection \<open>The pipeline\<close>

lemma find_block_loop_ok:
  assumes "list_all (\<lambda>(i, dl). download_ok m i dl) act"
  shows "find_block_loop act fast only is \<noteq> Panic"
proof (induction "is")
  case (Cons i "is")
  then show ?case
    using list_all_map_of [OF assms, of i] next_unrequested_ok(1)
    by (auto split: option.split)
qed simp

lemma update_download_meta_inv:
  assumes "\<And>m dl. download_ok m i dl \<Longrightarrow> download_ok m i (f dl)"
  shows "keeps (inv_at m) (act_update (update_download i f))"
  using assms by (intro keeps_inv_update update_download_inv) simp_all

lemma update_peer_keeps [keeps_intros]:
  assumes "\<And>p. length (pi_pipeline p) = PIPELINE_SIZE \<Longrightarrow> length (pi_pipeline (f p)) = PIPELINE_SIZE"
  shows "keeps (inv_at m) (act_update (update_peer a f))"
  using assms by (intro keeps_inv_update update_peer_inv) simp_all

lemma request_block_keeps [keeps_intros]:
  fixes E :: "('c, 'st) env"
  assumes "env_ok E"
  shows "keeps (inv_at m) (request_block E now addr i b)"
  unfolding request_block_def
proof (rule keeps_read_state)
  fix s :: "('c, 'st) swarm" assume s: "inv_at m s"
  show "keeps (inv_at m) (case map_of (sw_active s) i of
       None \<Rightarrow> act_return ()
     | Some dl \<Rightarrow>
         if block_len b dl = 0 then act_return ()
         else act_seq (send_msg E addr (Request i b (block_len b dl)))
             (act_seq (act_update (update_peer addr (push_request now i b)))
                (act_update (update_download i (mark_requested b addr)))))"
  proof (cases "map_of (sw_active s) i")
    case (Some dl)
    have "download_ok m i dl" using active_ok [OF inv_atD(1) [OF s] Some] inv_atD(2) [OF s] by simp
    with Some show ?thesis
      by (auto intro!: keeps_intros update_download_meta_inv download_intros request_ok_block assms simp: push_request_def)
  qed (simp add: keeps_return)
qed

lemma start_piece_keeps [keeps_intros]:
  fixes E :: "('c, 'st) env"
  assumes "env_ok E"
  shows "keeps (inv_at m) (start_piece E now addr bf avail)"
  unfolding start_piece_def
proof (rule keeps_read_state)
  fix s :: "('c, 'st) swarm" assume s: "inv_at m s"
  have new: "download_ok m i (active_new i len BLOCK_SIZE)" if "piece_len_at (sw_meta s) i = Ok len" "len \<noteq> 0" for i len
  proof -
    have "unat len < 2 ^ 32" using piece_len_at_Ok [OF swarm_invD(1) [OF inv_atD(1) [OF s]], of i] that(1) by auto
    moreover have "unat i < info_num_pieces (info (sw_meta s))"
      using that by (auto simp: piece_len_at_def Let_def split: if_splits)
    ultimately show ?thesis using download_ok_new [OF that(1)] inv_atD(2) [OF s] by simp
  qed
  have first: "\<exists>b. next_unrequested (active_new i len BLOCK_SIZE) = Ok (Some b)" if "piece_len_at (sw_meta s) i = Ok len" "len \<noteq> 0" for i len
  proof -
    have "div_ceil (unat len) 16384 \<noteq> 0" using that(2) div_ceil_less [of 16384 0 "unat len"] by (simp add: unat_gt_0)
    then have "position None (ad_requested (active_new i len BLOCK_SIZE)) \<noteq> None"
      by (auto simp: active_new_def Let_def position_def takeWhile_replicate)
    with next_unrequested_ok(1) [OF new [OF that]] show ?thesis
      by (auto simp: next_unrequested_def split: option.splits)
  qed
  show "keeps (inv_at m) (case sw_selector s bf avail of
       None \<Rightarrow> act_return ()
     | Some idx \<Rightarrow>
         if idx \<in> fst ` set (sw_active s) then act_return ()
         else act_bind (act_lift (piece_len_at (sw_meta s) idx)) (\<lambda>len.
           if len = 0 then act_return ()
           else let dl = active_new idx len BLOCK_SIZE in
             act_bind (act_lift (and_then (next_unrequested dl) (\<lambda>b. case b of Some b \<Rightarrow> Ok b | None \<Rightarrow> Panic))) (\<lambda>begin.
               act_seq (act_update (\<lambda>s. s\<lparr>sw_active := AList.update idx dl (sw_active s)\<rparr>))
                 (request_block E now addr idx begin))))"
  proof (cases "sw_selector s bf avail")
    case (Some i)
    have insert: "keeps (inv_at m) (act_update (\<lambda>s. s\<lparr>sw_active := AList.update i dl (sw_active s)\<rparr>))"
      if "download_ok m i dl" for dl
      using that by (intro keeps_update) (auto simp: inv_at_def intro!: swarm_inv_active alist_inv swarm_invD)
    show ?thesis
      unfolding Some option.case Let_def
      using piece_len_at_Ok [OF swarm_invD(1) [OF inv_atD(1) [OF s]], of i] first [of i]
      by (intro keeps_intros insert new assms) (auto split: option.split)
  qed (simp add: keeps_return)
qed

lemma fill_keeps [keeps_intros]:
  fixes E :: "('c, 'st) env"
  assumes "env_ok E"
  shows "keeps (inv_at m) (fill E now)"
proof -
  have peer: "keeps (inv_at m) (fill_peer E now bf avail addr)" for bf avail addr
    unfolding fill_peer_def
  proof (rule keeps_read_state)
    fix s :: "('c, 'st) swarm" assume s: "inv_at m s"
    have blk: "find_block_for_peer p (sw_active s) only \<noteq> Panic" for p only
      unfolding find_block_for_peer_def using find_block_loop_ok [OF swarm_invD(3) [OF inv_atD(1) [OF s]]] .
    show "keeps (inv_at m) (case map_of (sw_peers s) addr of
       None \<Rightarrow> act_return ()
     | Some p \<Rightarrow>
         let can_req_normal = can_request p;
             can_req_fast = (pi_am_choked p \<and> pi_peer_allowed_fast p \<noteq> [])
         in if \<not> can_req_normal \<and> \<not> can_req_fast then act_return ()
            else act_bind (act_lift (find_block_for_peer p (sw_active s) (\<not> can_req_normal \<and> can_req_fast))) (\<lambda>blk.
              case blk of
                Some (index, begin) \<Rightarrow> request_block E now addr index begin
              | None \<Rightarrow>
                  if length (sw_active s) < sw_max_pieces s then
                    if pi_bitfield p = [] then act_return () else start_piece E now addr bf avail
                  else act_return ()))"
      by (auto simp: Let_def intro!: keeps_intros assms blk split: option.split)
  qed
  show ?thesis
    unfolding fill_def Let_def by (intro keeps_intros peer) (simp add: inv_at_def)
qed

subsubsection \<open>Messages\<close>

lemma receive_piece_keeps [keeps_intros]:
  fixes E :: "('c, 'st) env"
  assumes "env_ok E"
  shows "keeps (inv_at m) (receive_piece E now addr i b data)"
proof -
  have verify: "keeps (inv_at m) (act_bind (verify_and_complete_piece E i) (\<lambda>ok. if ok then broadcast_have E i else act_return ()))"
    by (rule keeps_bind) (auto intro!: keeps_intros assms)
  have "keeps (inv_at m) (case map_of (sw_active s) i of
          None \<Rightarrow> act_return ()
        | Some dl \<Rightarrow>
            act_seq (act_update (update_download i (\<lambda>dl. fst (mark_received b data dl))))
              (if snd (mark_received b data dl) then
                 act_bind (verify_and_complete_piece E i) (\<lambda>ok.
                   if ok then broadcast_have E i else act_return ())
               else act_return ()))" for s :: "('c, 'st) swarm"
    using verify by (auto intro!: keeps_intros update_download_meta_inv download_intros split: option.split)
  then show ?thesis
    unfolding receive_piece_def by (intro keeps_intros) (simp_all add: remove_request_def)
qed

text \<open>A request is safe if it starts within the cached piece, when the piece is cached.\<close>

definition request_in_cache :: "PeerMessage \<Rightarrow> ('c, 'st) swarm \<Rightarrow> bool" where
  "request_in_cache msg s \<longleftrightarrow>
     (\<forall>i b l cached. msg = Request i b l \<and> map_of (sw_cache s) i = Some cached \<longrightarrow> unat b \<le> length cached)"

lemma serve_request_inv:
  fixes E :: "('c, 'st) env"
  assumes "env_ok E" and "inv_at m s"
  shows "inv_at m (fst (serve_request E addr i b l s))"
    and "request_in_cache (Request i b l) s \<Longrightarrow> snd (serve_request E addr i b l s) \<noteq> Panic"
proof -
  let ?r = "case map_of (sw_cache s) i of Some cached \<Rightarrow> cached_slice cached b l
               | None \<Rightarrow> e_read E (sw_storage s) i b (replicate (unat l) 0)"
  have send: "keeps (inv_at m) (if data = [] then act_return ()
          else act_seq (send_msg E addr (Piece i b data))
              (act_update (\<lambda>s. update_peer addr (\<lambda>p. p\<lparr>pi_uploaded_bytes := pi_uploaded_bytes p + of_nat (length data),
                 pi_uploaded_round := pi_uploaded_round p + of_nat (length data)\<rparr>)
                 (s\<lparr>sw_total_uploaded := sw_total_uploaded s + of_nat (length data)\<rparr>))))" for data
    by (intro keeps_intros keeps_inv_update update_peer_inv assms) simp_all
  show "inv_at m (fst (serve_request E addr i b l s))"
    using assms(2) keepsD [OF send assms(2)]
    by (cases ?r) (auto simp: serve_request_def act_read_def act_return_def act_bind_def act_lift_def Let_def)
  assume "request_in_cache (Request i b l) s"
  then have "?r \<noteq> Panic"
    using assms(1) by (auto simp: request_in_cache_def cached_slice_def Let_def env_ok_def split: option.split)
  then show "snd (serve_request E addr i b l s) \<noteq> Panic"
    using keepsD [OF send assms(2)]
    by (cases ?r) (auto simp: serve_request_def act_read_def act_return_def act_bind_def act_lift_def Let_def)
qed

lemma handle_message_keeps:
  fixes E :: "('c, 'st) env"
  assumes "env_ok E" and "\<And>i b l. msg \<noteq> Request i b l"
  shows "keeps (inv_at m) (handle_message E now addr msg)"
proof (cases msg)
  case (Request i b l)
  then show ?thesis using assms(2) [of i b l] by blast
qed (auto intro!: keeps_intros drop_requests_inv withdraw_request_inv assms(1) simp: inv_at_def)

lemma handle_peer_message_inv:
  fixes E :: "('c, 'st) env"
  assumes "env_ok E" and "inv_at m s"
  shows "inv_at m (fst (handle_peer_message E now addr msg s))"
    and "request_in_cache msg s \<Longrightarrow> snd (handle_peer_message E now addr msg s) \<noteq> Panic"
proof -
  have "inv_at m (fst (handle_message E now addr msg s)) \<and>
    (request_in_cache msg s \<longrightarrow> snd (handle_message E now addr msg s) \<noteq> Panic)"
  proof (cases "\<exists>i b l. msg = Request i b l")
    case True
    then show ?thesis using serve_request_inv [OF assms] by auto
  next
    case False
    then show ?thesis using keepsD [OF handle_message_keeps [OF assms(1)] assms(2)] by blast
  qed
  with assms(2) show "inv_at m (fst (handle_peer_message E now addr msg s))"
    "request_in_cache msg s \<Longrightarrow> snd (handle_peer_message E now addr msg s) \<noteq> Panic"
    by (auto simp: handle_peer_message_def act_read_def act_return_def)
qed

lemma handle_peer_event_inv:
  fixes E :: "('c, 'st) env"
  assumes "env_ok E" and "inv_at m s"
  shows "inv_at m (fst (handle_peer_event E now addr ev s))"
    and "(\<And>msg. ev = Message msg \<Longrightarrow> request_in_cache msg s) \<Longrightarrow> snd (handle_peer_event E now addr ev s) \<noteq> Panic"
proof -
  have gone: "inv_at m (peer_gone addr s')" if "inv_at m s'" for s'
    using that by (simp add: inv_at_def peer_gone_inv)
  show "inv_at m (fst (handle_peer_event E now addr ev s))"
    using assms(2) gone handle_peer_message_inv(1) [OF assms]
    by (cases ev) (auto simp: act_update_def act_catch_def split: prod.split result.split, metis fst_conv, metis fst_conv, metis fst_conv)
  show "(\<And>msg. ev = Message msg \<Longrightarrow> request_in_cache msg s) \<Longrightarrow> snd (handle_peer_event E now addr ev s) \<noteq> Panic"
    using handle_peer_message_inv(2) [OF assms]
    by (cases ev) (auto simp: act_update_def act_catch_def split: prod.split result.split, metis snd_conv)
qed


subsubsection \<open>Unchoke rounds\<close>

lemma um_unchoke_keeps:
  assumes "swarm_inv s"
  shows "swarm_inv (s\<lparr>sw_upload_mgr := um_unchoke addr (sw_upload_mgr s)\<rparr>)"
  using assms by (auto simp: swarm_inv_def um_unchoke_def List.insert_def)

lemma um_choke_keeps:
  assumes "swarm_inv s"
  shows "swarm_inv (s\<lparr>sw_upload_mgr := um_choke addr (sw_upload_mgr s)\<rparr>)"
  using assms by (auto simp: swarm_inv_def um_choke_def distinct_removeAll intro: order_trans [OF length_removeAll_less_eq])

lemma run_round_keeps [keeps_intros]:
  fixes E :: "('c, 'st) env"
  assumes "env_ok E"
  shows "keeps (inv_at m) (run_round E now rng)"
proof -
  have un: "keeps (inv_at m) (unchoke_peer E addr)" for addr
    unfolding unchoke_peer_def by (intro keeps_intros assms) (simp_all add: inv_at_def um_unchoke_keeps)
  have cancels: "keeps (inv_at m) (for_each (\<lambda>(index, begin, _). act_ignore (send_msg E addr (Cancel index begin (cancel_len act index begin)))) xs)"
    for addr act and xs :: "(u32 \<times> u32 \<times> nat) list"
    by (intro keeps_intros) (auto intro!: keeps_intros assms split: prod.split)
  have ch: "keeps (inv_at m) (choke_peer E addr)" for addr
    unfolding choke_peer_def
    using cancels
    by (intro keeps_intros assms)
      (auto simp: inv_at_def um_choke_keeps intro!: drop_requests_inv keeps_return split: option.split)
  show ?thesis
    unfolding run_round_def Let_def
  proof (intro keeps_intros un ch)
    fix s :: "('c, 'st) swarm" assume s: "inv_at m s"
    have "map fst (map (\<lambda>(a, p). (a, p\<lparr>pi_uploaded_round := 0, pi_downloaded_round := 0\<rparr>)) (sw_peers s)) = map fst (sw_peers s)"
      by auto
    then have "distinct (map fst (map (\<lambda>(a, p). (a, p\<lparr>pi_uploaded_round := 0, pi_downloaded_round := 0\<rparr>)) (sw_peers s)))"
      using swarm_invD(4) [OF inv_atD(1) [OF s]] by (simp only:)
    moreover have "list_all (\<lambda>(_, p). length (pi_pipeline p) = PIPELINE_SIZE)
        (map (\<lambda>(a, p). (a, p\<lparr>pi_uploaded_round := 0, pi_downloaded_round := 0\<rparr>)) (sw_peers s))"
      using swarm_invD(5) [OF inv_atD(1) [OF s]] by (auto simp: list_all_iff)
    ultimately show "inv_at m (s\<lparr>sw_peers := map (\<lambda>(a, p). (a, p\<lparr>pi_uploaded_round := 0, pi_downloaded_round := 0\<rparr>)) (sw_peers s)\<rparr>)"
      using s swarm_inv_peers [OF inv_atD(1) [OF s]] by (simp add: inv_at_def)
  qed
qed

subsubsection \<open>New peers\<close>

lemma add_extensions_ok: "list_all (\<lambda>(_, eid). eid \<noteq> 0) xs \<Longrightarrow> add_extensions xs n \<noteq> Panic"
  by (induction xs n rule: add_extensions.induct) (auto simp: add_extension_def)

lemma allowed_fast_ok: "n * 4 < 2 ^ 32 - 1 \<Longrightarrow> compute_allowed_fast_set sha1 ih ip (of_nat n) k \<noteq> Panic"
proof -
  assume n: "n * 4 < 2 ^ 32 - 1"
  then have u: "unat (of_nat n :: u32) = n" by (simp add: unat_of_nat)
  show ?thesis
    using allowed_fast_loop_spec [of "of_nat n" 0 "{}" "[]" k sha1 ih ip] n
    by (auto simp: compute_allowed_fast_set_def u)
qed

lemma send_bitfield_keeps [keeps_intros]:
  fixes E :: "('c, 'st) env"
  assumes "env_ok E"
  shows "keeps (inv_at m) (send_bitfield E addr)"
  unfolding send_bitfield_def Let_def
proof (intro keeps_intros assms)
  fix s :: "('c, 'st) swarm" assume s: "inv_at m s"
  show "to_bitfield (sw_piece_mgr s) \<noteq> Panic"
    using to_bitfield_bits [OF swarm_invD(7) [OF inv_atD(1) [OF s]]] by auto
qed simp_all

lemma register_new_peer_keeps [keeps_intros]:
  fixes E :: "('c, 'st) env"
  assumes "env_ok E"
  shows "keeps (inv_at m) (register_new_peer E addr conn)"
  unfolding register_new_peer_def Let_def send_extended_handshake_def
proof (intro keeps_intros assms)
  fix s :: "('c, 'st) swarm" assume s: "inv_at m s"
  show "add_extensions (sw_our_extensions s) extension_new \<noteq> Panic"
    using add_extensions_ok swarm_invD(10) [OF inv_atD(1) [OF s]] by blast
  have "info_num_pieces (info (sw_meta s)) * 4 < 2 ^ 32 - 1"
    using meta_ok_num_pieces [OF swarm_invD(1) [OF inv_atD(1) [OF s]]] by simp
  then show "(if remote_has_extension (e_reserved E conn) 44
      then compute_allowed_fast_set (e_sha1 E) (info_hash (e_sha1 E) (sw_meta s)) (ip_octets addr)
             (of_nat (info_num_pieces (info (sw_meta s)))) 10
      else Ok []) \<noteq> Panic"
    using allowed_fast_ok by auto
qed (auto simp: inv_at_def peer_info_new_def intro!: swarm_inv_peers alist_inv dest: swarm_invD(4,5))

lemma connect_pending_keeps [keeps_intros]:
  fixes E :: "('c, 'st) env"
  assumes "env_ok E"
  shows "keeps (inv_at m) (connect_pending E now now' attempt)"
  unfolding connect_pending_def Let_def
proof (rule keeps_read)
  fix s :: "('c, 'st) swarm" assume s: "inv_at m s"
  obtain pm1 batch where d: "drain_pending_batch now (sw_peer_mgr s) = (pm1, batch)" by force
  obtain pm2 con where r: "apply_connect_results now' (attempt batch) batch pm1 = (pm2, con)" by force
  have pm1: "pr_inv pm1" by (rule drain_pending_batch_spec(1) [OF swarm_invD(6) [OF inv_atD(1) [OF s]] d])
  have pm2: "pr_inv pm2" using connect_results_inv [OF pm1 r] by simp
  have set: "keeps (inv_at m) (act_update (\<lambda>s. s\<lparr>sw_peer_mgr := pm\<rparr>))" if "pr_inv pm" for pm :: "'c PeerManager"
    using that by (intro keeps_update) (auto simp: inv_at_def swarm_inv_def)
  have reg: "keeps (inv_at m) (act_read (\<lambda>s. case connection addr (sw_peer_mgr s) of
        Some conn \<Rightarrow> register_new_peer E addr conn | None \<Rightarrow> act_return ()))" for addr
    by (intro keeps_intros) (auto intro!: keeps_intros assms split: option.split)
  show "inv_at m (fst ((case drain_pending_batch now (sw_peer_mgr s) of (pm1, batch) \<Rightarrow>
       if batch = [] then act_update (\<lambda>s. s\<lparr>sw_peer_mgr := pm1\<rparr>)
       else case apply_connect_results now' (attempt batch) batch pm1 of (pm2, newly_connected) \<Rightarrow>
         act_seq (act_update (\<lambda>s. s\<lparr>sw_peer_mgr := pm2\<rparr>))
            (for_each (\<lambda>addr. act_read (\<lambda>s.
               case connection addr (sw_peer_mgr s) of
                 Some conn \<Rightarrow> register_new_peer E addr conn | None \<Rightarrow> act_return ())) newly_connected)) s)) \<and>
     snd ((case drain_pending_batch now (sw_peer_mgr s) of (pm1, batch) \<Rightarrow>
       if batch = [] then act_update (\<lambda>s. s\<lparr>sw_peer_mgr := pm1\<rparr>)
       else case apply_connect_results now' (attempt batch) batch pm1 of (pm2, newly_connected) \<Rightarrow>
         act_seq (act_update (\<lambda>s. s\<lparr>sw_peer_mgr := pm2\<rparr>))
            (for_each (\<lambda>addr. act_read (\<lambda>s.
               case connection addr (sw_peer_mgr s) of
                 Some conn \<Rightarrow> register_new_peer E addr conn | None \<Rightarrow> act_return ())) newly_connected)) s) \<noteq> Panic"
    unfolding d r prod.case
    by (rule keepsD [where I = "inv_at m", OF _ s]) (intro keeps_intros set pm1 pm2 reg)
qed

subsubsection \<open>Turns of the loop\<close>

definition turn_ok :: "('c, 'st) swarm \<Rightarrow> 'c loop_event \<Rightarrow> bool" where
  "turn_ok s ev = (case ev of OnPeer now addr (Message msg) blocked haves \<Rightarrow> request_in_cache msg s | _ \<Rightarrow> True)"

lemma send_msg_cache [leaves_intros]: "leaves sw_cache (send_msg E addr msg)"
  by (simp add: leaves_def send_msg_def split: option.split)

lemma broadcasts_keep_cache:
  assumes "env_ok E"
  shows "keeps (\<lambda>s. inv_at m s \<and> P (sw_cache s)) (for_each (\<lambda>i. act_ignore (broadcast_have E i)) haves)"
  by (intro keeps_with keeps_intros assms) (simp_all add: broadcast_have_def leaves_intros)

lemma on_peer_inv:
  fixes E :: "('c, 'st) env"
  assumes "env_ok E" and "inv_at m s" and "turn_ok s (OnPeer now addr ev blocked haves)"
  shows "inv_at m (fst (loop_turn E (OnPeer now addr ev blocked haves) s)) \<and>
    snd (loop_turn E (OnPeer now addr ev blocked haves) s) \<noteq> Panic"
proof -
  define P where "P c \<longleftrightarrow> (\<forall>msg i b l cached. ev = Message msg \<and> msg = Request i b l \<and> map_of c i = Some cached \<longrightarrow> unat b \<le> length cached)"
    for c :: "(u32 \<times> bytes) list"
  have P: "P (sw_cache s') \<Longrightarrow> ev = Message msg \<Longrightarrow> request_in_cache msg s'" for s' :: "('c, 'st) swarm" and msg
    by (auto simp: P_def request_in_cache_def)
  have "P (sw_cache s)"
    using assms(3) by (cases ev) (auto simp: turn_ok_def P_def request_in_cache_def)
  then have start: "inv_at m s \<and> P (sw_cache s)" using assms(2) by simp
  have upd: "keeps (\<lambda>s. inv_at m s \<and> P (sw_cache s)) (act_update (\<lambda>s. s\<lparr>sw_blocked := blocked\<rparr>))"
    by (intro keeps_update) (simp add: inv_at_def)
  have ev: "keeps (\<lambda>s. inv_at m s \<and> P (sw_cache s)) (act_seq (act_update (\<lambda>s. s\<lparr>sw_blocked := blocked\<rparr>))
     (for_each (\<lambda>i. act_ignore (broadcast_have E i)) haves))"
    by (intro keeps_seq upd broadcasts_keep_cache assms(1))
  obtain s1 r1 where 1: "act_seq (act_update (\<lambda>s. s\<lparr>sw_blocked := blocked\<rparr>))
     (for_each (\<lambda>i. act_ignore (broadcast_have E i)) haves) s = (s1, r1)" by force
  with keepsD [OF ev start] have s1: "inv_at m s1" "P (sw_cache s1)" "r1 \<noteq> Panic" by simp_all
  have fill: "keeps (inv_at m) (act_read (\<lambda>s. if missing_pieces (sw_piece_mgr s) \<noteq> [] then act_ignore (fill E now) else act_return ()))"
    by (intro keeps_intros assms)
  obtain s2 r2 where 2: "handle_peer_event E now addr ev s1 = (s2, r2)" by force
  with handle_peer_event_inv [OF assms(1) s1(1), where now = now and addr = addr and ev = ev] P [OF s1(2)]
  have s2: "inv_at m s2" "r2 \<noteq> Panic" by auto
  show ?thesis
    using 1 2 s1 s2 keepsD [OF fill s2(1)]
    by (cases r1; cases r2) (auto simp: act_seq_def act_bind_def act_update_def split: prod.splits result.splits)
qed

lemma add_peers_swarm_inv:
  "swarm_inv s \<Longrightarrow> swarm_inv (s\<lparr>sw_peer_mgr := add_peers addrs (sw_peer_mgr s)\<rparr>)"
  by (simp add: swarm_inv_def add_peers_inv)

lemma loop_turn_inv:
  fixes E :: "('c, 'st) env"
  assumes "env_ok E" and "swarm_inv s" and "turn_ok s ev"
  shows "swarm_inv (fst (loop_turn E ev s)) \<and> sw_meta (fst (loop_turn E ev s)) = sw_meta s \<and>
    snd (loop_turn E ev s) \<noteq> Panic"
proof -
  let ?m = "sw_meta s"
  have s: "inv_at ?m s" using assms(2) by (simp add: inv_at_def)
  have "inv_at ?m (fst (loop_turn E ev s)) \<and> snd (loop_turn E ev s) \<noteq> Panic"
  proof (cases "\<exists>now addr e blocked haves. ev = OnPeer now addr e blocked haves")
    case True
    with on_peer_inv [OF assms(1) s] assms(3) show ?thesis by blast
  next
    case False
    then have "keeps (inv_at ?m) (loop_turn E ev)"
      by (cases ev) (auto intro!: keeps_intros assms(1) expire_stale_inv add_peers_swarm_inv simp: inv_at_def)
    with s show ?thesis by (rule keepsD [rotated])
  qed
  then show ?thesis by (simp add: inv_at_def)
qed

text \<open>The swarm loop keeps its state well formed and does not panic. For a torrent whose pieces are
  shorter than four gigabytes and match the total size, and a backend that does not panic, every
  turn of the loop (an inbound peer, a peer event followed by the filling of the pipelines, a status,
  choke or stale tick, new addresses) keeps the invariant, whether its operations succeed or fail,
  and does not panic, unless a peer requests a block behind the end of a cached piece. Every request
  sent asks for one block at most within its piece, and no more peers are unchoked than slots exist.
\<close>

theorem loop_turn_sound:
  fixes E :: "('c, 'st) env"
  assumes "env_ok E" and "swarm_inv s" and "turn_ok s ev"
  shows "swarm_inv (fst (loop_turn E ev s)) \<and> sw_meta (fst (loop_turn E ev s)) = sw_meta s \<and>
    snd (loop_turn E ev s) \<noteq> Panic"
  by (rule loop_turn_inv [OF assms])


subsection \<open>A small torrent\<close>

text \<open>One file of twelve bytes in three pieces; sending and writing succeed.\<close>

definition small_meta :: Metainfo where
  "small_meta = \<lparr>announce = [], announce_list = [],
     info = \<lparr>piece_length = 5, pieces = [[1], [2], [3]], mode = Single [] 12, raw_info = RawHash []\<rparr>,
     url_list = [], httpseeds = [], creation_date = None, comment = None, created_by = None, encoding = None\<rparr>"

definition small_env :: "(unit, unit) env" where
  "small_env = \<lparr>e_sha1 = (\<lambda>bs. [of_nat (length bs)]), e_send = (\<lambda>_ _. Ok ()), e_reserved = (\<lambda>_. replicate 8 0),
     e_mask = (\<lambda>bf. bf), e_client_version = [], e_write = (\<lambda>st _ _. (st, Ok ())), e_read = (\<lambda>_ _ _ buf. Ok buf)\<rparr>"

definition small_addr :: SocketAddr where
  "small_addr = SocketAddr (V4 5) 6"

definition small_swarm :: "(unit, unit) swarm" where
  "small_swarm = \<lparr>sw_meta = small_meta, sw_storage = (), sw_piece_mgr = piece_manager_new 3,
     sw_peer_mgr = (peer_manager_new [] [] 5 10 3 60)\<lparr>connections := [(small_addr, ())]\<rparr>,
     sw_peers = [(small_addr, peer_info_new\<lparr>pi_bitfield := [True, True, True], pi_am_choked := False\<rparr>)], sw_active = [], sw_selector = rarest_first,
     sw_max_pieces = 4, sw_endgame_threshold = 1, sw_request_timeout = 30, sw_upload_mgr = \<lparr>max_uploads = 2, unchoked = []\<rparr>,
     sw_snub_timeout = 60, sw_ban_threshold = 3, sw_cache_size = 2, sw_cache = [], sw_total_uploaded = 0,
     sw_total_wasted = 0, sw_completed_files = [], sw_blocked = [], sw_our_extensions = [], sw_events = [], sw_sent = []\<rparr>"

lemma small_env_ok: "env_ok small_env"
  by (simp add: env_ok_def small_env_def)

lemma small_swarm_inv: "swarm_inv small_swarm"
  by (simp add: swarm_inv_def small_swarm_def meta_ok_def small_meta_def total_size_def info_num_pieces_def
    piece_manager_new_def pm_wf_def peer_info_new_def pr_inv_def peer_manager_new_def uniq.inv_new  Let_def)


subsection \<open>Runs of the loop\<close>

inductive swarm_run :: "('c, 'st) env \<Rightarrow> ('c, 'st) swarm \<Rightarrow> ('c, 'st) swarm \<Rightarrow> bool"
  for E :: "('c, 'st) env" and s0 :: "('c, 'st) swarm" where
  swarm_start: "swarm_run E s0 s0"
| swarm_turn: "swarm_run E s0 s \<Longrightarrow> turn_ok s ev \<Longrightarrow> loop_turn E ev s = (s', r) \<Longrightarrow> swarm_run E s0 s'"

lemma swarm_run_inv:
  assumes "swarm_run E s0 s" and "env_ok E" and "swarm_inv s0"
  shows "swarm_inv s \<and> sw_meta s = sw_meta s0"
  using assms(1)
proof (induction rule: swarm_run.induct)
  case swarm_start
  with assms(3) show ?case by simp
next
  case (swarm_turn s ev s' r)
  with loop_turn_inv [OF assms(2) _ swarm_turn.hyps(2)] show ?case by (metis fst_conv)
qed

text \<open>
  C11. Requests stay within their pieces. In every state the loop reaches from a well-formed one, by any
  sequence of peer events, ticks, inbound peers and results of dialling, each request it has sent
  asks for at least one byte and at most one block, of a piece of the torrent, and ends within the
  length of this piece (the last one is shorter).
\<close>

theorem requests_within_pieces:
  assumes "env_ok E" and "swarm_inv s0" and "swarm_run E s0 s" and "(addr, Request index begin len) \<in> set (sw_sent s)"
  shows "0 < unat len \<and> unat len \<le> 16384 \<and> unat index < info_num_pieces (info (sw_meta s0)) \<and>
    (\<exists>plen. piece_len_at (sw_meta s0) index = Ok plen \<and> unat begin + unat len \<le> unat plen)"
proof -
  have "request_ok (sw_meta s0) (Request index begin len)"
    using swarm_run_inv [OF assms(3,1,2)] assms(4) by (fastforce simp: swarm_inv_def list_all_iff)
  then show ?thesis by (auto simp: request_ok_def unat_gt_0 word_le_nat_alt)
qed




lemmas act_eval = act_seq_def act_bind_def act_update_def act_return_def act_read_def act_ignore_def act_catch_def act_lift_def


lemma small_peer:
  "can_request (peer_info_new\<lparr>pi_bitfield := [True, True, True], pi_am_choked := False\<rparr>)"
  "find_block_for_peer (peer_info_new\<lparr>pi_bitfield := [True, True, True], pi_am_choked := False\<rparr>) [] only = Ok None"
  by (simp_all add: can_request_def peer_info_new_def PIPELINE_SIZE_def find_block_for_peer_def enumerate_eq_zip upt_rec)

lemma small_select: "rarest_first [False, False, False] [Suc 0, Suc 0, Suc 0] = Some 0"
  by (simp add: rarest_first_def rarest_step_def upt_rec)

lemma small_block:
  "next_unrequested (active_new 0 5 BLOCK_SIZE) = Ok (Some 0)" "block_len 0 (active_new 0 5 BLOCK_SIZE) = 5"
  by (simp_all add: next_unrequested_def active_new_def Let_def BLOCK_SIZE_def div_ceil_def position_def block_len_def checked_mul_def)

lemma small_start:
  "sw_sent (fst (start_piece small_env 2 small_addr [False, False, False] [Suc 0, Suc 0, Suc 0] small_swarm)) =
     [(small_addr, Request 0 0 5)]"
  by (simp add: start_piece_def act_eval small_swarm_def small_select piece_len_at_def small_meta_def info_num_pieces_def Let_def
     mul_u64_def checked_mul_def small_block request_block_def send_msg_def send_to_def connection_def peer_manager_new_def small_env_def
     update_download_def update_peer_def)

lemma small_turn:
  "sw_sent (fst (loop_turn small_env (OnPeer 2 small_addr (Message KeepAlive) [] []) small_swarm)) =
     [(small_addr, Request 0 0 5)]"
proof -
  have p: "sw_peers small_swarm = [(small_addr, peer_info_new\<lparr>pi_bitfield := [True, True, True], pi_am_choked := False\<rparr>)]"
    by (simp add: small_swarm_def)
  have e: "small_swarm\<lparr>sw_blocked := []\<rparr> = small_swarm" by (simp add: small_swarm_def)
  have pm: "bitfield (sw_piece_mgr small_swarm) = [False, False, False]" "info_num_pieces (info (sw_meta small_swarm)) = 3"
     "sw_endgame_threshold small_swarm = 1" "sw_active small_swarm = []" "sw_max_pieces small_swarm = 4"
    by (simp_all add: small_swarm_def piece_manager_new_def small_meta_def info_num_pieces_def numeral_3_eq_3)
  have "missing_pieces (sw_piece_mgr small_swarm) \<noteq> []" by (simp add: missing_pieces_def pm enumerate_eq_zip upt_rec)
  moreover have "foldl count_availability (replicate 3 0)
      [peer_info_new\<lparr>pi_bitfield := [True, True, True], pi_am_choked := False\<rparr>] = [Suc 0, Suc 0, Suc 0]"
    by (simp add: count_availability_def numeral_3_eq_3 enumerate_eq_zip upt_rec)
  moreover obtain r where "start_piece small_env 2 small_addr [False, False, False] [Suc 0, Suc 0, Suc 0] small_swarm = r" by simp
  ultimately show ?thesis
    using small_start
    by (cases r; cases "snd r") (simp_all add: act_eval e handle_peer_message_def p fill_def pm fill_peer_def Let_def small_peer split: prod.splits result.splits)
qed

theorem requests_within_pieces_witness:
  "(small_addr, Request 0 0 5) \<in> set (sw_sent (fst (loop_turn small_env (OnPeer 2 small_addr (Message KeepAlive) [] []) small_swarm))) \<and>
   unat (5 :: u32) \<le> 16384 \<and> (\<exists>plen. piece_len_at (sw_meta small_swarm) 0 = Ok plen \<and> unat (0 :: u32) + unat (5 :: u32) \<le> unat plen)"
proof -
  obtain s r where t: "loop_turn small_env (OnPeer 2 small_addr (Message KeepAlive) [] []) small_swarm = (s, r)" by force
  have run: "swarm_run small_env small_swarm s"
    by (rule swarm_turn [OF swarm_start _ t]) (simp add: turn_ok_def request_in_cache_def)
  have sent: "(small_addr, Request 0 0 5) \<in> set (sw_sent s)" using small_turn t by simp
  from requests_within_pieces [OF small_env_ok small_swarm_inv run sent] sent t show ?thesis by simp
qed

theorem loop_turn_sound_witness:
  "swarm_inv (fst (loop_turn small_env (OnPeer 1 small_addr (Message Unchoke) [] []) small_swarm)) \<and>
   snd (loop_turn small_env (OnPeer 1 small_addr (Message Unchoke) [] []) small_swarm) \<noteq> Panic"
  using loop_turn_sound [OF small_env_ok small_swarm_inv, of "OnPeer 1 small_addr (Message Unchoke) [] []"]
  by (simp add: turn_ok_def request_in_cache_def)

end
