(* ===== verification/Swarm_Results.thy ===== *)
theory Swarm_Results
  imports Swarm_Inv
begin

section \<open>What the swarm loop achieves\<close>

text \<open>
  Consequences for the model of the swarm loop: the registration of peers, the integrity of the
  pieces on disk and in the cache, the outcome of a completed piece, and the unchoke rounds. The
  state changes are followed with \<open>stays\<close> (an invariant of the next state, whatever the result) and
  \<open>leaves\<close>.
\<close>

subsection \<open>New peers\<close>

lemma send_msg_unconnected: "connection addr (sw_peer_mgr s) = None \<Longrightarrow> send_msg E addr msg s = (s, Ok ())"
  by (simp add: send_msg_def send_to_def connection_def)

lemma register_connected:
  "connection addr (sw_peer_mgr s) = Some c \<Longrightarrow> register_new_peer E addr conn s = (s, Ok ())"
  by (simp add: register_new_peer_def act_read_def act_return_def)

lemma for_each_skip: "(\<And>x. x \<in> set xs \<Longrightarrow> f x s = (s, Ok ())) \<Longrightarrow> for_each f xs s = (s, Ok ())"
  by (induction xs) (simp_all add: act_return_def act_seq_Ok)

lemma connect_pending_eq:
  "\<exists>pm. connect_pending E now now' attempt s = (s\<lparr>sw_peer_mgr := pm\<rparr>, Ok ())"
proof -
  obtain pm1 batch where d: "drain_pending_batch now (sw_peer_mgr s) = (pm1, batch)" by force
  obtain pm2 con where r: "apply_connect_results now' (attempt batch) batch pm1 = (pm2, con)" by force
  let ?s = "s\<lparr>sw_peer_mgr := pm2\<rparr>"
  have "for_each (\<lambda>addr. act_read (\<lambda>s. case connection addr (sw_peer_mgr s) of
         Some conn \<Rightarrow> register_new_peer E addr conn | None \<Rightarrow> act_return ())) con ?s = (?s, Ok ())"
    by (rule for_each_skip) (auto simp: act_read_def act_return_def register_connected split: option.split)
  then show ?thesis
    by (auto simp: connect_pending_def act_read_def d r act_update_def act_seq_def act_bind_def)
qed

lemma register_sends_nothing:
  fixes s :: "('c, 'st) swarm"
  shows "sw_sent (fst (register_new_peer E addr conn s)) = sw_sent s \<and>
    sw_peer_mgr (fst (register_new_peer E addr conn s)) = sw_peer_mgr s"
proof (cases "connection addr (sw_peer_mgr s)")
  case None
  let ?I = "\<lambda>t :: ('c, 'st) swarm. sw_sent t = sw_sent s \<and> sw_peer_mgr t = sw_peer_mgr s"
  have send: "stays ?I (send_msg E addr msg)" for msg
    using None by (simp add: stays_def send_msg_unconnected)
  have "stays ?I (register_new_peer E addr conn)"
    unfolding register_new_peer_def send_extended_handshake_def send_bitfield_def Let_def
    by (intro stays_intros stays_bind send) auto
  then show ?thesis by (rule staysD) simp
qed (simp add: register_connected)

text \<open>A new peer is never greeted. Connecting the pending peers registers none of those that
  connected: their connection is stored first, and registration skips an address that has one, so
  no peer state, event or message results. Registering a connection, an inbound one included, hands
  no message to any peer and stores no connection.
\<close>

theorem new_peers_ignored:
  "(\<exists>pm. connect_pending E now now' attempt s = (s\<lparr>sw_peer_mgr := pm\<rparr>, Ok ())) \<and>
   sw_sent (fst (register_new_peer E addr conn s)) = sw_sent s \<and>
   sw_peer_mgr (fst (register_new_peer E addr conn s)) = sw_peer_mgr s"
  by (rule conjI [OF connect_pending_eq register_sends_nothing])

subsection \<open>Verified pieces\<close>

text \<open>
  The part of the state that only the completion of a piece changes: the torrent, the piece
  manager, the storage and the cache.
\<close>

definition core :: "('c, 'st) swarm \<Rightarrow> Metainfo \<times> PieceManager \<times> 'st \<times> (u32 \<times> bytes) list" where
  "core s = (sw_meta s, sw_piece_mgr s, sw_storage s, sw_cache s)"

lemma core_updates [simp]:
  "core (s\<lparr>sw_peer_mgr := pm\<rparr>) = core s" "core (s\<lparr>sw_peers := ps\<rparr>) = core s" "core (s\<lparr>sw_active := act\<rparr>) = core s"
  "core (s\<lparr>sw_selector := sel\<rparr>) = core s" "core (s\<lparr>sw_upload_mgr := um\<rparr>) = core s"
  "core (s\<lparr>sw_total_uploaded := u\<rparr>) = core s" "core (s\<lparr>sw_total_wasted := u\<rparr>) = core s"
  "core (s\<lparr>sw_completed_files := fs\<rparr>) = core s" "core (s\<lparr>sw_blocked := b\<rparr>) = core s"
  "core (s\<lparr>sw_events := es\<rparr>) = core s" "core (s\<lparr>sw_sent := ms\<rparr>) = core s"
  by (simp_all add: core_def)

lemma core_small [simp]:
  "core (update_peer a f s) = core s" "core (update_download i g s) = core s" "core (emit e s) = core s"
  "core (drop_peer a s) = core s" "core (release_block i b s) = core s" "core (strike a s) = core s"
  "core (report_file f' s) = core s"
  by (simp_all add: update_peer_def update_download_def emit_def drop_peer_def release_block_def strike_def report_file_def
    split: option.split)

lemma core_foldl: "(\<And>s x. core (f s x) = core s) \<Longrightarrow> core (foldl f s xs) = core s"
  by (induction xs arbitrary: s) simp_all

lemma core_larger [simp]:
  "core (release_slots slots s) = core s" "core (drop_requests fast a s) = core s" "core (withdraw_request a i b s) = core s"
  "core (peer_gone a s) = core s" "core (reject_piece i len s) = core s"
proof -
  show slots: "core (release_slots slots s) = core s" for slots and s :: "('c, 'st) swarm"
    unfolding release_slots_def by (rule core_foldl) (simp split: option.split)
  show "core (drop_requests fast a s) = core s" "core (withdraw_request a i b s) = core s" "core (peer_gone a s) = core s"
    by (simp_all add: drop_requests_def withdraw_request_def peer_gone_def slots Let_def split: option.split)
  show "core (reject_piece i len s) = core s"
    by (simp add: reject_piece_def Let_def core_foldl split: option.split)
qed

lemma core_expire [simp]: "core (expire_stale now s) = core s"
proof -
  have step: "core (fst (expire_peer now ap sd)) = core (fst sd)" for ap and sd :: "('c, 'st) swarm \<times> SocketAddr list"
    by (simp add: expire_peer_def Let_def split: prod.split)
  have "core (fst (foldl (\<lambda>sd ap. expire_peer now ap sd) sd xs)) = core (fst sd)" for sd :: "('c, 'st) swarm \<times> SocketAddr list" and xs
    by (induction xs arbitrary: sd) (simp_all add: step)
  from this [of "(s, [])" "sw_peers s"] show ?thesis
    by (simp add: expire_stale_def Let_def core_foldl split: prod.split) (metis fst_conv)
qed

lemma core_send [leaves_intros]: "leaves core (send_msg E addr msg)"
  by (simp add: leaves_def send_msg_def split: option.split)

lemma core_broadcast [leaves_intros]: "leaves core (broadcast_have E i)"
  unfolding broadcast_have_def by (intro leaves_intros)

lemma core_request_block [leaves_intros]: "leaves core (request_block E now addr i b)"
  unfolding request_block_def by (intro leaves_intros) (auto intro!: leaves_intros split: option.split)

lemma core_start_piece [leaves_intros]: "leaves core (start_piece E now addr bf av)"
  unfolding start_piece_def Let_def by (intro leaves_intros) (auto intro!: leaves_intros split: option.split)

lemma core_fill [leaves_intros]: "leaves core (fill E now)"
  unfolding fill_def fill_peer_def Let_def
  by (intro leaves_intros) (auto intro!: leaves_intros split: option.split)

lemma core_round [leaves_intros]: "leaves core (run_round E now rng)"
  unfolding run_round_def unchoke_peer_def choke_peer_def Let_def
  by (intro leaves_intros) (auto intro!: leaves_intros split: option.split prod.split)

lemma core_register [leaves_intros]: "leaves core (register_new_peer E addr conn)"
  unfolding register_new_peer_def send_extended_handshake_def send_bitfield_def Let_def
  by (intro leaves_intros) auto

lemma core_connect [leaves_intros]: "leaves core (connect_pending E now now' attempt)"
  unfolding leaves_def using connect_pending_eq [of E now now' attempt] by (metis core_updates(1) fst_conv)

lemma core_serve [leaves_intros]: "leaves core (serve_request E addr i b len)"
  unfolding serve_request_def Let_def by (intro leaves_intros) auto

text \<open>
  Every piece the bitfield has is stored with the expected digest, and so is every cached piece.
\<close>

definition pieces_verified :: "('c, 'st) env \<Rightarrow> ('st \<Rightarrow> u32 \<Rightarrow> bytes) \<Rightarrow> ('c, 'st) swarm \<Rightarrow> bool" where
  "pieces_verified E content s \<longleftrightarrow>
     list_all (\<lambda>i. bitfield (sw_piece_mgr s) ! i \<longrightarrow>
         e_sha1 E (content (sw_storage s) (of_nat i)) = pieces (info (sw_meta s)) ! i)
       [0..<length (bitfield (sw_piece_mgr s))] \<and>
     list_all (\<lambda>(i, data). unat i < length (bitfield (sw_piece_mgr s)) \<and> bitfield (sw_piece_mgr s) ! unat i \<and>
         e_sha1 E data = pieces (info (sw_meta s)) ! unat i) (sw_cache s)"

context piece_store
begin

definition sound_at :: "Metainfo \<Rightarrow> ('c, 'st) env \<Rightarrow> ('c, 'st) swarm \<Rightarrow> bool" where
  "sound_at m E s \<longleftrightarrow> sw_meta s = m \<and> pm_wf (sw_piece_mgr s) \<and> num_pieces (sw_piece_mgr s) = info_num_pieces (info m) \<and>
     ok (sw_storage s) \<and> pieces_verified E stored s"

text \<open>The torrent and the store agree on the pieces, whose indices fit an index word.\<close>

definition fits :: "Metainfo \<Rightarrow> bool" where
  "fits m \<longleftrightarrow> info_num_pieces (info m) \<le> 2 ^ 32 \<and>
     (\<forall>i. unat i < info_num_pieces (info m) \<longrightarrow> slot i \<and> (\<forall>len. piece_len_at m i = Ok len \<longrightarrow> unat len = size_of i))"

lemma sound_at_core: "sound_at m E s \<longleftrightarrow> (\<lambda>(m', pm, st, c). m' = m \<and> pm_wf pm \<and> num_pieces pm = info_num_pieces (info m) \<and> ok st \<and>
   list_all (\<lambda>i. bitfield pm ! i \<longrightarrow> e_sha1 E (stored st (of_nat i)) = pieces (info m') ! i) [0..<length (bitfield pm)] \<and>
   list_all (\<lambda>(i, data). unat i < length (bitfield pm) \<and> bitfield pm ! unat i \<and> e_sha1 E data = pieces (info m') ! unat i) c) (core s)"
  by (simp add: sound_at_def core_def pieces_verified_def)

lemma leaves_sound: "leaves core a \<Longrightarrow> stays (sound_at m E) a"
  unfolding sound_at_core [abs_def] by (rule stays_leaves)

lemma stays_core: "(\<And>s. core (f s) = core s) \<Longrightarrow> stays (sound_at m E) (act_update f)"
  by (intro leaves_sound leaves_update)

text \<open>The manager after a piece is recorded, and the cache.\<close>

lemma set_piece_sound:
  assumes s: "sound_at m E s" and fits: "fits m" and i: "unat index < info_num_pieces (info m)"
    and len: "length data = size_of index" and digest: "e_sha1 E data = pieces (info m) ! unat index"
  shows "\<exists>st pm. put (sw_storage s) index data = (st, Ok ()) \<and> set_piece (sw_piece_mgr s) index = Ok pm \<and>
    sound_at m E (s\<lparr>sw_storage := st, sw_piece_mgr := pm\<rparr>) \<and> unat index < length (bitfield pm) \<and> bitfield pm ! unat index"
proof -
  have slot: "slot index" using fits i by (simp add: fits_def)
  obtain st where st: "put (sw_storage s) index data = (st, Ok ())" "ok st" "stored st index = data"
    "\<And>j. j \<noteq> index \<Longrightarrow> stored st j = stored (sw_storage s) j"
    using put_ok [of "sw_storage s", OF _ slot len] s by (auto simp: sound_at_def)
  let ?bf = "(bitfield (sw_piece_mgr s))[unat index := True]"
  have n: "length (bitfield (sw_piece_mgr s)) = info_num_pieces (info m)" using s by (simp add: sound_at_def pm_wf_def)
  then have pm: "set_piece (sw_piece_mgr s) index = Ok ((sw_piece_mgr s)\<lparr>bitfield := ?bf\<rparr>)"
    using s i by (simp add: set_piece_def sound_at_def update_at_def)
  have "e_sha1 E (stored st (of_nat k)) = pieces (info m) ! k" if "k < info_num_pieces (info m)" "?bf ! k" for k
  proof (cases "k = unat index")
    case True
    with st(3) digest show ?thesis by simp
  next
    case False
    have "k < 2 ^ 32" using that(1) fits by (simp add: fits_def)
    with False have "(of_nat k :: u32) \<noteq> index" by (auto simp: unat_of_nat)
    with st(4) False that s n show ?thesis by (auto simp: sound_at_def pieces_verified_def list_all_iff)
  qed
  then have "list_all (\<lambda>k. ?bf ! k \<longrightarrow> e_sha1 E (stored st (of_nat k)) = pieces (info m) ! k) [0..<length ?bf]"
    by (simp add: list_all_iff n)
  moreover have "list_all (\<lambda>(i, d). unat i < length ?bf \<and> ?bf ! unat i \<and> e_sha1 E d = pieces (info m) ! unat i) (sw_cache s)"
    using s n i unfolding sound_at_def pieces_verified_def list_all_iff
    by (cases "\<forall>x. unat (fst x :: u32) \<noteq> unat index") (auto simp: nth_list_update)
  ultimately have "sound_at m E (s\<lparr>sw_storage := st, sw_piece_mgr := (sw_piece_mgr s)\<lparr>bitfield := ?bf\<rparr>\<rparr>)"
    using s st(2) by (simp add: sound_at_def pieces_verified_def pm_wf_def)
  with st(1) pm n i show ?thesis by auto
qed

lemma complete_piece_sound:
  fixes E :: "('c, 'st) env"
  assumes "e_write E = put" and "fits m" and "unat index < info_num_pieces (info m)"
    and "piece_len_at m index = Ok len" and "length data = unat len" and "e_sha1 E data = pieces (info m) ! unat index"
  shows "stays (sound_at m E) (complete_piece E index data)"
  unfolding stays_def
proof (intro allI impI)
  fix s assume s: "sound_at m E s"
  have "length data = size_of index" using assms(2-5) by (auto simp: fits_def)
  from set_piece_sound [OF s assms(2,3) this assms(6)] obtain st pm where 1:
    "put (sw_storage s) index data = (st, Ok ())" "set_piece (sw_piece_mgr s) index = Ok pm"
    "sound_at m E (s\<lparr>sw_storage := st, sw_piece_mgr := pm\<rparr>)" "unat index < length (bitfield pm)" "bitfield pm ! unat index"
    by blast
  let ?J = "\<lambda>t :: ('c, 'st) swarm. sound_at m E t \<and> sw_piece_mgr t = pm"
  have core: "stays ?J a" if "leaves core a" for a
  proof -
    have "core (fst (a t)) = core t" for t using leavesD [OF that] .
    then have "sound_at m E (fst (a t)) = sound_at m E t" "sw_piece_mgr (fst (a t)) = sw_piece_mgr t" for t
      unfolding sound_at_core by (simp_all add: core_def)
    then show ?thesis by (simp add: stays_def)
  qed
  have cache: "stays ?J (cache_piece index data)"
    unfolding cache_piece_def
    by (intro stays_read stays_seq stays_if stays_bind_lift stays_update stays_return)
      (use assms(6) 1(4,5) in \<open>auto simp: sound_at_def pieces_verified_def list_all_iff dest: list.set_sel(2) split: if_splits\<close>)
  have rest: "stays ?J (act_seq (act_update (emit (PieceCompleted index)))
     (act_seq report_files (act_seq (cache_piece index data)
       (act_seq (act_update (\<lambda>s. s\<lparr>sw_active := AList.delete index (sw_active s)\<rparr>)) (act_return True)))))"
    by (intro stays_seq cache core stays_return)
      (auto simp: report_files_def intro!: leaves_intros core_foldl)
  let ?s = "s\<lparr>sw_storage := st, sw_piece_mgr := pm\<rparr>"
  have "fst (complete_piece E index data s) = fst (act_seq (act_update (emit (PieceCompleted index)))
     (act_seq report_files (act_seq (cache_piece index data)
       (act_seq (act_update (\<lambda>s. s\<lparr>sw_active := AList.delete index (sw_active s)\<rparr>)) (act_return True)))) ?s)"
    unfolding complete_piece_def assms(1) by (subst act_seq_Ok, simp add: 1(1) Let_def, subst act_seq_Ok, simp add: 1(2)) simp
  with staysD [OF rest, of ?s] 1(3) show "sound_at m E (fst (complete_piece E index data s))" by simp
qed

lemma verify_sound [stays_intros]:
  assumes "e_write E = put" and "fits m"
  shows "stays (sound_at m E) (verify_and_complete_piece E index)"
  unfolding verify_and_complete_piece_def
proof (intro stays_read)
  fix s assume "sound_at m E s"
  then have m: "sw_meta s = m" by (simp add: sound_at_def)
  show "stays (sound_at m E) (act_bind (act_lift (piece_len_at (sw_meta s) index)) (\<lambda>len.
       if length (pieces (info (sw_meta s))) \<le> unat index then act_return False
       else case map_of (sw_active s) index of
         None \<Rightarrow> act_return False
       | Some dl \<Rightarrow>
           act_bind (act_lift (if length (ad_data dl) < unat len then Panic else Ok (take (unat len) (ad_data dl)))) (\<lambda>data.
             if verify_piece_hash (e_sha1 E) data (pieces (info (sw_meta s)) ! unat index)
             then complete_piece E index data
             else act_seq (act_update (reject_piece index len)) (act_return False))))"
    unfolding m
    by (intro stays_intros)
       (auto intro!: stays_return stays_lift stays_bind_lift stays_if stays_seq stays_core complete_piece_sound assms
         simp: verify_piece_hash_def info_num_pieces_def split: option.split if_splits)
qed

lemma message_sound:
  assumes "e_write E = put" and "fits m"
  shows "stays (sound_at m E) (handle_message E now addr msg)"
proof (cases msg)
  case (Piece i b data)
  show ?thesis
    unfolding Piece handle_message.simps receive_piece_def
    by (intro stays_seq stays_core stays_read)
      (auto intro!: stays_return stays_if stays_seq stays_core stays_bind verify_sound assms leaves_sound [OF core_broadcast]
        split: option.split)
next
  case (Request i b len)
  then show ?thesis by (simp add: leaves_sound leaves_intros)
qed (auto intro!: leaves_sound leaves_intros)

lemma turn_sound:
  assumes "e_write E = put" and "fits m"
  shows "stays (sound_at m E) (loop_turn E ev)"
proof (cases ev)
  case (OnPeer now addr e blocked haves)
  have "stays (sound_at m E) (handle_peer_event E now addr e)"
    by (cases e) (auto simp: handle_peer_message_def intro!: stays_intros message_sound assms leaves_sound [of "act_update f" for f] leaves_intros)
  then show ?thesis
    unfolding OnPeer loop_turn.simps
    by (intro stays_intros leaves_sound [of "act_update f" for f] leaves_sound [OF core_broadcast] leaves_sound [OF core_fill]) (auto intro: leaves_intros)
qed (auto intro!: leaves_sound leaves_intros)

lemma run_sound:
  assumes "swarm_run E s0 s" and "e_write E = put" and "fits m" and "sound_at m E s0"
  shows "sound_at m E s"
  using assms(1)
proof (induction rule: swarm_run.induct)
  case (swarm_turn s ev s' r)
  with staysD [OF turn_sound [OF assms(2,3)], of s ev] show ?case by simp
qed (rule assms(4))

end


subsection \<open>The outcome of a complete piece\<close>

lemma report_file_form:
  "\<exists>es fs. foldl (\<lambda>s f. report_file f s) s xs = s\<lparr>sw_events := sw_events s @ es, sw_completed_files := fs\<rparr>"
proof (induction xs arbitrary: s)
  case Nil
  show ?case by (rule exI [of _ "[]"], rule exI [of _ "sw_completed_files s"]) simp
next
  case (Cons f xs)
  show ?case
  proof (cases "file_complete f \<and> fs_path f \<notin> set (sw_completed_files s)")
    case True
    from Cons.IH [of "report_file f s"] obtain es fs where
      "foldl (\<lambda>s f. report_file f s) (report_file f s) xs =
        (report_file f s)\<lparr>sw_events := sw_events (report_file f s) @ es, sw_completed_files := fs\<rparr>" by blast
    with True show ?thesis
      by (intro exI [of _ "FileCompleted (fs_path f) # es"] exI [of _ fs]) (simp add: report_file_def emit_def)
  next
    case False
    then have "report_file f s = s" by (auto simp: report_file_def)
    with Cons.IH [of s] show ?thesis by simp
  qed
qed

lemma report_files_eq:
  assumes "swarm_inv s"
  shows "\<exists>es fs. report_files s = (s\<lparr>sw_events := sw_events s @ es, sw_completed_files := fs\<rparr>, Ok ())"
proof -
  obtain tot where t: "total_size (info (sw_meta s)) = Ok tot" "info_num_pieces (info (sw_meta s)) < 2 ^ 30"
    "unat (piece_length (info (sw_meta s))) < 2 ^ 32"
    using swarm_invD(1) [OF assms] by (auto simp: meta_ok_def Let_def)
  obtain fos where fos: "file_offsets (info (sw_meta s)) = Ok fos" using file_offsets_ok [OF t(1)] by blast
  obtain fs where fs: "file_status (info (sw_meta s)) (bitfield (sw_piece_mgr s)) = Ok fs"
    using file_status_Ok [OF t(1), of "bitfield (sw_piece_mgr s)"] swarm_invD(7,8) [OF assms] t by (auto simp: pm_wf_def)
  have "\<exists>es cs. s = s\<lparr>sw_events := sw_events s @ es, sw_completed_files := cs\<rparr>"
    by (rule exI [of _ "[]"], rule exI [of _ "sw_completed_files s"]) simp
  with report_file_form [of s fs] show ?thesis
    by (simp add: report_files_def act_read_def act_bind_def act_lift_def act_update_def act_return_def fos fs)
qed

lemma cache_piece_eq:
  "0 < sw_cache_size s \<Longrightarrow> cache_piece i data s =
     (s\<lparr>sw_cache := (if sw_cache_size s \<le> length (sw_cache s) then tl (sw_cache s) else sw_cache s) @ [(i, data)]\<rparr>, Ok ())"
  by (auto simp: cache_piece_def act_read_def act_seq_def act_bind_def act_lift_def act_update_def act_return_def)

lemma complete_piece_eq:
  assumes "swarm_inv s" and "e_write E (sw_storage s) i data = (st, Ok ())" and "unat i < info_num_pieces (info (sw_meta s))"
  shows "\<exists>es fs. complete_piece E i data s =
    (s\<lparr>sw_storage := st, sw_piece_mgr := (sw_piece_mgr s)\<lparr>bitfield := (bitfield (sw_piece_mgr s))[unat i := True]\<rparr>,
       sw_events := sw_events s @ PieceCompleted i # es, sw_completed_files := fs,
       sw_cache := (if sw_cache_size s \<le> length (sw_cache s) then tl (sw_cache s) else sw_cache s) @ [(i, data)],
       sw_active := AList.delete i (sw_active s)\<rparr>, Ok True)"
proof -
  let ?pm = "(sw_piece_mgr s)\<lparr>bitfield := (bitfield (sw_piece_mgr s))[unat i := True]\<rparr>"
  let ?s1 = "s\<lparr>sw_storage := st, sw_piece_mgr := ?pm\<rparr>" let ?s2 = "emit (PieceCompleted i) ?s1"
  have pm: "set_piece (sw_piece_mgr s) i = Ok ?pm"
    using swarm_invD(7,8) [OF assms(1)] assms(3) by (simp add: set_piece_def pm_wf_def update_at_def)
  have "swarm_inv ?s1" using assms(1) by (simp add: swarm_inv_def pm_wf_def)
  then have "swarm_inv ?s2" by simp
  then obtain es fs where rep: "report_files ?s2 = (?s2\<lparr>sw_events := sw_events ?s2 @ es, sw_completed_files := fs\<rparr>, Ok ())"
    using report_files_eq by blast
  let ?s3 = "?s2\<lparr>sw_events := sw_events ?s2 @ es, sw_completed_files := fs\<rparr>"
  have "complete_piece E i data s = act_seq (cache_piece i data)
     (act_seq (act_update (\<lambda>s. s\<lparr>sw_active := AList.delete i (sw_active s)\<rparr>)) (act_return True)) ?s3"
    unfolding complete_piece_def
    by (subst act_seq_Ok, simp add: assms(2), subst act_seq_Ok, simp add: pm, subst act_seq_Ok,
        simp add: act_update_def, subst act_seq_Ok, rule rep) simp
  then show ?thesis
    using swarm_invD(9) [OF assms(1)]
    by (simp add: act_seq_Ok [OF cache_piece_eq] emit_def)
      (simp add: act_seq_def act_bind_def act_update_def act_return_def, blast)
qed

text \<open>Strikes and bans.\<close>

definition struck :: "SocketAddr set \<Rightarrow> SocketAddr \<Rightarrow> PeerInfo \<Rightarrow> PeerInfo" where
  "struck guilty a p = (if a \<in> guilty then p\<lparr>pi_corrupt_blocks := pi_corrupt_blocks p + 1\<rparr> else p)"

lemma strikes_peers:
  assumes "distinct xs"
  shows "map_of (sw_peers (foldl (\<lambda>s a. strike a s) s xs)) a = map_option (struck (set xs) a) (map_of (sw_peers s) a)"
  using assms
proof (induction xs arbitrary: s)
  case (Cons x xs)
  have "map_of (sw_peers (strike x s)) a = map_option (struck {x} a) (map_of (sw_peers s) a)"
    by (cases "map_of (sw_peers s) a"; cases "a = x")
      (auto simp: strike_def update_peer_def struck_def update_conv' split: option.split)
  with Cons show ?case
    by (cases "map_of (sw_peers s) a") (auto simp: struck_def)
next
  case Nil
  show ?case by (cases "map_of (sw_peers s) a") (simp_all add: struck_def)
qed

lemma drops_peers:
  "map_of (sw_peers (foldl (\<lambda>s a. drop_peer a s) s xs)) a = (if a \<in> set xs then None else map_of (sw_peers s) a)"
  by (induction xs arbitrary: s) (simp_all add: drop_peer_def delete_conv')

lemma contributors_spec: "distinct (contributors dl)" "set (contributors dl) = {a. Some a \<in> set (ad_requested dl)}"
  by (auto simp: contributors_def image_iff) (metis option.sel option.distinct(1))

lemma strike_frame:
  "sw_ban_threshold (strike a s) = sw_ban_threshold s" "map fst (sw_peers (strike a s)) = map fst (sw_peers s)"
  "sw_active (strike a s) = sw_active s" "sw_total_wasted (strike a s) = sw_total_wasted s"
  by (cases "map_of (sw_peers s) a"; force simp: strike_def update_peer_def update_keys dest: map_of_SomeD)+

definition kept_peer :: "u32 \<Rightarrow> SocketAddr set \<Rightarrow> SocketAddr \<Rightarrow> PeerInfo \<Rightarrow> PeerInfo option" where
  "kept_peer threshold guilty a p =
     (if threshold \<le> pi_corrupt_blocks (struck guilty a p) then None else Some (struck guilty a p))"

lemma reject_piece_peers:
  assumes "map_of (sw_active s) i = Some dl" and "distinct (map fst (sw_peers s))"
  shows "map_of (sw_peers (reject_piece i len s)) a =
    Option.bind (map_of (sw_peers s) a) (kept_peer (sw_ban_threshold s) {b. Some b \<in> set (ad_requested dl)} a)"
proof -
  let ?s1 = "foldl (\<lambda>s a. strike a s) (s\<lparr>sw_total_wasted := sw_total_wasted s + len\<rparr>) (contributors dl)"
  have thr: "sw_ban_threshold ?s1 = sw_ban_threshold s"
    by (subst foldl_same [where g = sw_ban_threshold]) (simp_all add: strike_frame)
  have "map fst (sw_peers ?s1) = map fst (sw_peers s)"
    by (subst foldl_same [where g = "\<lambda>s. map fst (sw_peers s)"]) (simp_all add: strike_frame)
  then have dist: "distinct (map fst (sw_peers ?s1))" using assms(2) by simp
  have peers: "map_of (sw_peers ?s1) a = map_option (struck {b. Some b \<in> set (ad_requested dl)} a) (map_of (sw_peers s) a)"
    using strikes_peers [OF contributors_spec(1), of "s\<lparr>sw_total_wasted := sw_total_wasted s + len\<rparr>" dl]
    by (simp add: contributors_spec(2))
  have "a \<in> set (map fst (filter (\<lambda>(_, p). sw_ban_threshold s \<le> pi_corrupt_blocks p) (sw_peers ?s1))) \<longleftrightarrow>
      (\<exists>p. map_of (sw_peers ?s1) a = Some p \<and> sw_ban_threshold s \<le> pi_corrupt_blocks p)"
    using map_of_eq_Some_iff [OF dist] by force
  then show ?thesis
    using assms(1) by (cases "map_of (sw_peers s) a") (auto simp: reject_piece_def Let_def thr drops_peers peers kept_peer_def)
qed

lemma reject_piece_frame:
  fixes s :: "('c, 'st) swarm"
  shows "sw_storage (reject_piece i len s) = sw_storage s" "sw_piece_mgr (reject_piece i len s) = sw_piece_mgr s"
  "sw_active (reject_piece i len s) = AList.delete i (sw_active s)"
  "sw_events (reject_piece i len s) = sw_events s @ [PieceFailed i]"
  "sw_total_wasted (reject_piece i len s) = sw_total_wasted s + len"
proof -
  have *: "sw_active (drop_peer a s) = sw_active s" "sw_active (strike a s) = sw_active s" "sw_events (drop_peer a s) = sw_events s"
    "sw_events (strike a s) = sw_events s" "sw_total_wasted (drop_peer a s) = sw_total_wasted s"
    "sw_total_wasted (strike a s) = sw_total_wasted s" for a and s :: "('c, 'st) swarm"
    by (simp_all add: drop_peer_def strike_def update_peer_def split: option.split)
  have "core (reject_piece i len s) = core s" by simp
  then show "sw_storage (reject_piece i len s) = sw_storage s" "sw_piece_mgr (reject_piece i len s) = sw_piece_mgr s"
    by (simp_all add: core_def)
  show "sw_active (reject_piece i len s) = AList.delete i (sw_active s)"
    "sw_events (reject_piece i len s) = sw_events s @ [PieceFailed i]"
    "sw_total_wasted (reject_piece i len s) = sw_total_wasted s + len"
    by (simp_all add: reject_piece_def Let_def emit_def foldl_same [where g = sw_active] foldl_same [where g = sw_events]
      foldl_same [where g = sw_total_wasted] * split: option.split)
qed

lemma verify_unfold:
  assumes "swarm_inv s" and "map_of (sw_active s) i = Some dl"
  shows "verify_and_complete_piece E i s =
    (if e_sha1 E (ad_data dl) = pieces (info (sw_meta s)) ! unat i then complete_piece E i (ad_data dl) s
     else (reject_piece i (of_nat (length (ad_data dl))) s, Ok False))"
proof -
  have dl: "piece_len_at (sw_meta s) i = Ok (of_nat (length (ad_data dl)))" "length (ad_data dl) < 2 ^ 32"
    "unat i < info_num_pieces (info (sw_meta s))"
    using active_ok [OF assms] by (simp_all add: download_ok_def)
  then have "unat (of_nat (length (ad_data dl)) :: u64) = length (ad_data dl)" by (simp add: unat_of_nat)
  with dl(1,3) assms(2) show ?thesis
    by (simp add: verify_and_complete_piece_def act_read_def act_bind_def act_lift_def act_seq_def act_update_def
      act_return_def verify_piece_hash_def info_num_pieces_def)
qed

lemma failed_write:
  assumes "e_write E (sw_storage s) i data = (st, Err e)"
  shows "complete_piece E i data s = (s\<lparr>sw_storage := st\<rparr>, Err e)"
  using assms by (simp add: complete_piece_def act_seq_def act_bind_def Let_def)

text \<open>
  C13. What becomes of a complete piece. When the digest of the data differs from the one in the
  torrent, the download is dropped, its length is counted as wasted, every peer that a block is
  assigned to gets one strike, and exactly the peers whose strikes reach the threshold are dropped;
  disk and bitfield stay. When it agrees and the write succeeds, the data is on disk and newest in
  the cache, the bit is set, the event is sent and the download removed. When the write fails, its
  error is returned and the download stays with all its blocks received.
\<close>

theorem piece_outcome:
  assumes "swarm_inv s" and "map_of (sw_active s) i = Some dl" and "verify_and_complete_piece E i s = (s', r)"
  shows "if e_sha1 E (ad_data dl) \<noteq> pieces (info (sw_meta s)) ! unat i then
      r = Ok False \<and> sw_storage s' = sw_storage s \<and> sw_piece_mgr s' = sw_piece_mgr s \<and>
      sw_active s' = AList.delete i (sw_active s) \<and> sw_events s' = sw_events s @ [PieceFailed i] \<and>
      sw_total_wasted s' = sw_total_wasted s + of_nat (length (ad_data dl)) \<and>
      (\<forall>a. map_of (sw_peers s') a =
        Option.bind (map_of (sw_peers s) a) (kept_peer (sw_ban_threshold s) {b. Some b \<in> set (ad_requested dl)} a))
    else case e_write E (sw_storage s) i (ad_data dl) of
      (st, Ok _) \<Rightarrow> r = Ok True \<and> sw_storage s' = st \<and>
        sw_piece_mgr s' = (sw_piece_mgr s)\<lparr>bitfield := (bitfield (sw_piece_mgr s))[unat i := True]\<rparr> \<and>
        sw_active s' = AList.delete i (sw_active s) \<and> last (sw_cache s') = (i, ad_data dl) \<and>
        PieceCompleted i \<in> set (sw_events s') \<and> sw_peers s' = sw_peers s
    | (st, Err e) \<Rightarrow> r = Err e \<and> s' = s\<lparr>sw_storage := st\<rparr>
    | (st, Panic) \<Rightarrow> r = Panic"
proof (cases "e_sha1 E (ad_data dl) = pieces (info (sw_meta s)) ! unat i")
  case False
  with assms verify_unfold [OF assms(1,2)] reject_piece_peers [OF assms(2) swarm_invD(4) [OF assms(1)]] show ?thesis
    by (auto simp: reject_piece_frame)
next
  case True
  have i: "unat i < info_num_pieces (info (sw_meta s))" using active_ok [OF assms(1,2)] by (simp add: download_ok_def)
  from True assms(3) verify_unfold [OF assms(1,2)] have run: "complete_piece E i (ad_data dl) s = (s', r)" by simp
  obtain st w where w: "e_write E (sw_storage s) i (ad_data dl) = (st, w)" by force
  show ?thesis
  proof (cases w)
    case (Ok u)
    with w complete_piece_eq [OF assms(1) _ i, of E "ad_data dl" st] run True show ?thesis by auto
  next
    case (Err e)
    with w failed_write run True show ?thesis by fastforce
  next
    case Panic
    with w run True show ?thesis by (auto simp: complete_piece_def act_seq_def act_bind_def Let_def)
  qed
qed


subsection \<open>The last block of a piece\<close>

lemma send_msg_connected:
  assumes "env_ok E" and "a \<in> set (connection_addrs (sw_peer_mgr s))"
  shows "act_ignore (send_msg E a msg) s = (s\<lparr>sw_sent := sw_sent s @ [(a, msg)]\<rparr>, Ok ())"
proof -
  obtain c where c: "map_of (connections (sw_peer_mgr s)) a = Some c"
    using assms(2) by (cases "map_of (connections (sw_peer_mgr s)) a") (auto simp: connection_addrs_def map_of_eq_None_iff)
  have "e_send E c msg \<noteq> Panic" using assms(1) by (simp add: env_ok_def)
  with c show ?thesis
    by (cases "e_send E c msg")
      (auto simp: act_ignore_def act_catch_def act_return_def send_msg_def send_to_def connection_def)
qed

lemma sends_eq:
  assumes "env_ok E" and "set as \<subseteq> set (connection_addrs (sw_peer_mgr s))"
  shows "for_each (\<lambda>a. act_ignore (send_msg E a msg)) as s = (s\<lparr>sw_sent := sw_sent s @ map (\<lambda>a. (a, msg)) as\<rparr>, Ok ())"
  using assms(2)
proof (induction "as" arbitrary: s)
  case (Cons a as)
  with send_msg_connected [OF assms(1), of a s] show ?case
    by (simp add: act_seq_Ok)
qed (simp add: act_return_def)

lemma broadcast_have_eq:
  assumes "env_ok E"
  shows "broadcast_have E i s =
    (s\<lparr>sw_sent := sw_sent s @ map (\<lambda>a. (a, Have i)) (connection_addrs (sw_peer_mgr s))\<rparr>, Ok ())"
  using sends_eq [OF assms order_refl] by (simp add: broadcast_have_def act_read_def)

lemma last_block:
  fixes s :: "('c, 'st) swarm"
  assumes "env_ok E" and "swarm_inv s" and "addr \<in> fst ` set (sw_peers s)" and "map_of (sw_active s) i = Some dl"
    and "mark_received b data dl = (dl', True)" and "e_sha1 E (ad_data dl') = pieces (info (sw_meta s)) ! unat i"
    and "e_write E (sw_storage s) i (ad_data dl') = (st, Ok ())"
    and "handle_peer_message E now addr (Piece i b data) s = (s', r)"
  shows "r = Ok () \<and> sw_storage s' = st \<and>
    sw_piece_mgr s' = (sw_piece_mgr s)\<lparr>bitfield := (bitfield (sw_piece_mgr s))[unat i := True]\<rparr> \<and>
    map_of (sw_active s') i = None \<and> sw_sent s' = sw_sent s @ map (\<lambda>a. (a, Have i)) (connection_addrs (sw_peer_mgr s))"
proof -
  let ?f = "\<lambda>p. p\<lparr>pi_downloaded_bytes := pi_downloaded_bytes p + of_nat (length data),
    pi_downloaded_round := pi_downloaded_round p + of_nat (length data), pi_last_data := Some now\<rparr>"
  define s1 where "s1 = update_peer addr (remove_request i b) (update_peer addr ?f s)"
  define s2 where "s2 = update_download i (\<lambda>dl. fst (mark_received b data dl)) s1"
  have s1: "sw_active s1 = sw_active s" "sw_peer_mgr s1 = sw_peer_mgr s" "sw_sent s1 = sw_sent s" "core s1 = core s"
    by (simp_all add: s1_def)
  have inv1: "swarm_inv s1"
    unfolding s1_def by (intro update_peer_inv assms(2)) (simp_all add: remove_request_def)
  have inv2: "swarm_inv s2"
    unfolding s2_def by (rule update_download_inv [OF inv1]) (rule download_ok_received)
  have act: "map_of (sw_active s2) i = Some dl'"
    using assms(4,5) by (simp add: s2_def update_download_def s1 update_conv')
  have s2: "sw_peer_mgr s2 = sw_peer_mgr s" "sw_sent s2 = sw_sent s" "core s2 = core s"
    by (simp_all add: s2_def s1)
  then have parts: "sw_meta s2 = sw_meta s" "sw_piece_mgr s2 = sw_piece_mgr s" "sw_storage s2 = sw_storage s" "sw_cache s2 = sw_cache s"
    by (simp_all add: core_def)
  have i: "unat i < info_num_pieces (info (sw_meta s2))" using active_ok [OF inv2 act] by (simp add: download_ok_def)
  have verify: "verify_and_complete_piece E i s2 = complete_piece E i (ad_data dl') s2"
    using verify_unfold [OF inv2 act, of E] assms(6) by (simp add: parts)
  obtain es fs where "complete_piece E i (ad_data dl') s2 =
    (s2\<lparr>sw_storage := st, sw_piece_mgr := (sw_piece_mgr s2)\<lparr>bitfield := (bitfield (sw_piece_mgr s2))[unat i := True]\<rparr>,
       sw_events := sw_events s2 @ PieceCompleted i # es, sw_completed_files := fs,
       sw_cache := (if sw_cache_size s2 \<le> length (sw_cache s2) then tl (sw_cache s2) else sw_cache s2) @ [(i, ad_data dl')],
       sw_active := AList.delete i (sw_active s2)\<rparr>, Ok True)" (is "_ = (?s3, _)")
    using complete_piece_eq [OF inv2 _ i, of E "ad_data dl'" st] assms(7) parts(3) by auto
  then have "act_bind (verify_and_complete_piece E i) (\<lambda>ok. if ok then broadcast_have E i else act_return ()) s2 =
      broadcast_have E i ?s3"
    by (simp add: verify act_bind_Ok)
  moreover have "handle_peer_message E now addr (Piece i b data) s =
      act_bind (verify_and_complete_piece E i) (\<lambda>ok. if ok then broadcast_have E i else act_return ()) s2"
    using assms(3-5) unfolding s2_def
    by (simp add: handle_peer_message_def receive_piece_def act_read_def act_seq_update s1_def [symmetric] s1)
  ultimately have "(s', r) = broadcast_have E i ?s3" using assms(8) by simp
  then show ?thesis by (simp add: broadcast_have_eq [OF assms(1)] s2 parts delete_conv')
qed


text \<open>
  C12. The last block of a piece. When the block that completes a download arrives from a registered
  peer, the data has the expected digest and the write succeeds, then the message is handled without
  an error, the piece is recorded and its data handed to the storage, the download is finished, and
  every connected peer is sent a Have of this piece.
\<close>

theorem last_block_completes:
  fixes s :: "('c, 'st) swarm"
  assumes "env_ok E" and "swarm_inv s" and "addr \<in> fst ` set (sw_peers s)" and "map_of (sw_active s) i = Some dl"
    and "mark_received b data dl = (dl', True)" and "e_sha1 E (ad_data dl') = pieces (info (sw_meta s)) ! unat i"
    and "e_write E (sw_storage s) i (ad_data dl') = (st, Ok ())"
    and "handle_peer_message E now addr (Piece i b data) s = (s', r)"
  shows "r = Ok () \<and> sw_storage s' = st \<and>
    sw_piece_mgr s' = (sw_piece_mgr s)\<lparr>bitfield := (bitfield (sw_piece_mgr s))[unat i := True]\<rparr> \<and>
    map_of (sw_active s') i = None \<and> sw_sent s' = sw_sent s @ map (\<lambda>a. (a, Have i)) (connection_addrs (sw_peer_mgr s))"
  by (rule last_block [OF assms])


subsection \<open>Pieces on disk\<close>

lemma piece_len_at_storage:
  assumes "file_storage_new (info m) dir = Ok st"
  shows "piece_len_at m i = piece_len_for_index st i" "info_num_pieces (info m) = st_num_pieces st"
proof -
  obtain total where t: "total_size (info m) = Ok total"
    using assms by (cases "total_size (info m)") (simp_all add: file_storage_new_def)
  have st: "info_num_pieces (info m) = st_num_pieces st" "piece_length (info m) = st_piece_length st" "total = st_total_size st"
    using assms by (auto simp: file_storage_new_def t)
  show "piece_len_at m i = piece_len_for_index st i"
    by (simp add: piece_len_at_def piece_len_for_index_def Let_def t st cong: if_cong)
  show "info_num_pieces (info m) = st_num_pieces st" by (rule st(1))
qed

lemma disk_fits:
  assumes "file_storage_new (info m) dir = Ok st" and "pieces_ok st" and "st_num_pieces st \<le> 2 ^ 32"
  shows "disk.fits st m"
proof -
  have "unat len = piece_size st i" if i: "unat i < st_num_pieces st" and len: "piece_len_at m i = Ok len" for i len
  proof -
    let ?goal = "replicate (unat (st_total_size st)) (0 :: byte)"
    obtain len' where "piece_len_for_index st i = Ok len'" "unat len' = length (piece_of st ?goal i)"
      using piece_len_of [OF assms(2) i, of ?goal] by auto
    with len show ?thesis by (simp add: piece_len_at_storage [OF assms(1)] piece_of_def piece_size_def)
  qed
  with assms(3) show ?thesis by (simp add: disk.fits_def piece_len_at_storage(2) [OF assms(1)])
qed

text \<open>What the client has is on disk and verified. In every state the loop reaches, by any sequence
  of turns and whatever the peers send, the files of the torrent keep their lengths, every piece
  whose bit is set (the pieces the client announces and stops downloading) is stored there with the
  digest of the torrent, and so is every piece in the cache that requests are served from.
\<close>

theorem pieces_on_disk_verified:
  assumes "file_storage_new (info (sw_meta s0)) dir = Ok st" and "pieces_ok st" and "st_num_pieces st \<le> 2 ^ 32"
    and "e_write E = write_piece rs st" and "storage_inv rs st (sw_storage s0)"
    and "pm_wf (sw_piece_mgr s0)" and "num_pieces (sw_piece_mgr s0) = st_num_pieces st"
    and "pieces_verified E (stored_piece rs st) s0" and "swarm_run E s0 s"
  shows "storage_inv rs st (sw_storage s) \<and> pieces_verified E (stored_piece rs st) s \<and> sw_meta s = sw_meta s0"
proof -
  have "disk.sound_at rs st (sw_meta s0) E s0"
    using assms(2,5-8) unfolding disk.sound_at_def by (simp add: piece_len_at_storage(2) [OF assms(1)])
  from disk.run_sound [OF assms(9,4) disk_fits [OF assms(1-3)] this] show ?thesis
    unfolding disk.sound_at_def by simp
qed

text \<open>The small torrent on disk: the last block of its last piece arrives.\<close>

definition disk_layout :: FileStorage where
  "disk_layout = \<lparr>st_num_pieces = 3, st_piece_length = 5, st_total_size = 12, st_mode = SingleFile [47, 120]\<rparr>"

definition disk_meta :: Metainfo where
  "disk_meta = small_meta\<lparr>info := (info small_meta)\<lparr>pieces := [[], [], [8, 9]], mode := Single [120] 12\<rparr>\<rparr>"

definition disk_env :: "(unit, bytes fs) env" where
  "disk_env = \<lparr>e_sha1 = (\<lambda>bs. bs), e_send = (\<lambda>_ _. Ok ()), e_reserved = (\<lambda>_. replicate 8 0), e_mask = (\<lambda>bf. bf),
     e_client_version = [], e_write = write_piece id disk_layout, e_read = read_block id disk_layout\<rparr>"

definition disk_download :: ActiveDownload where
  "disk_download = \<lparr>ad_index = 2, ad_data = [0, 0], ad_requested = [Some small_addr], ad_received = [False],
     ad_block_size = BLOCK_SIZE, ad_num_blocks = 1\<rparr>"

definition disk_swarm :: "(unit, bytes fs) swarm" where
  "disk_swarm = \<lparr>sw_meta = disk_meta, sw_storage = [[47, 120] \<mapsto> replicate 12 0], sw_piece_mgr = piece_manager_new 3,
     sw_peer_mgr = (peer_manager_new [] [] 5 10 3 60)\<lparr>connections := [(small_addr, ())]\<rparr>,
     sw_peers = [(small_addr, peer_info_new)], sw_active = [(2, disk_download)], sw_selector = rarest_first,
     sw_max_pieces = 4, sw_endgame_threshold = 1, sw_request_timeout = 30, sw_upload_mgr = \<lparr>max_uploads = 2, unchoked = []\<rparr>,
     sw_snub_timeout = 60, sw_ban_threshold = 3, sw_cache_size = 2, sw_cache = [], sw_total_uploaded = 0,
     sw_total_wasted = 0, sw_completed_files = [], sw_blocked = [], sw_our_extensions = [], sw_events = [], sw_sent = []\<rparr>"

lemma disk_write:
  "write_piece id disk_layout [[47, 120] \<mapsto> replicate 12 0] 2 [8, 9] = ([[47, 120] \<mapsto> replicate 10 0 @ [8, 9]], Ok ())"
  by (simp add: write_piece_def piece_offset_def mul_u64_def checked_mul_def disk_layout_def write_range_def file_write_def
     write_at_def) 

lemma disk_swarm_simps:
  "sw_meta disk_swarm = disk_meta" "sw_storage disk_swarm = [[47, 120] \<mapsto> replicate 12 0]"
  "sw_piece_mgr disk_swarm = piece_manager_new 3" "sw_peers disk_swarm = [(small_addr, peer_info_new)]"
  "sw_active disk_swarm = [(2, disk_download)]" "connection_addrs (sw_peer_mgr disk_swarm) = [small_addr]"
  "sw_sent disk_swarm = []" "sw_cache disk_swarm = []"
  by (simp_all add: disk_swarm_def connection_addrs_def peer_manager_new_def)

lemma disk_meta_simps:
  "info_num_pieces (info disk_meta) = 3" "pieces (info disk_meta) ! 2 = [8, 9]" "total_size (info disk_meta) = Ok 12"
  "piece_length (info disk_meta) = 5" "piece_len_at disk_meta 2 = Ok 2"
  by (simp_all add: disk_meta_def small_meta_def info_num_pieces_def total_size_def piece_len_at_def mul_u64_def
    checked_mul_def sub_u64_def Let_def)

lemma disk_env_ok: "env_ok disk_env"
proof -
  have off: "piece_offset disk_layout i = Ok (of_nat (unat i * 5))" for i :: u32
  proof -
    have "unat i < 2 ^ 32" using unsigned_less [of i, where 'a = nat] by simp
    then show ?thesis using piece_offset_Ok [of i disk_layout] by (simp add: disk_layout_def del: of_nat_mult)
  qed
  have mode: "st_mode disk_layout = SingleFile [47, 120]" by (simp add: disk_layout_def)
  have w: "snd (file_write id fs path pos data) \<noteq> Panic" for fs path pos and data :: bytes
    by (simp add: file_write_def split: option.split)
  have r: "read_range id disk_layout fs pos (length buf) buf \<noteq> Panic" for fs pos buf
    by (auto simp: read_range_def disk_layout_def file_read_def split: option.split)
  have b: "block_offset disk_layout i p \<noteq> Panic" for i p
  proof -
    have i: "unat i < 2 ^ 32" and p: "unat p < 2 ^ 32"
      using unsigned_less [of i, where 'a = nat] unsigned_less [of p, where 'a = nat] by simp_all
    have "unat (of_nat (unat i * 5) :: u64) = unat i * 5" using i by (simp add: unat_of_nat del: of_nat_mult)
    moreover have "unat (ucast p :: u64) = unat p"
      using p by (simp add: unsigned_ucast_eq take_bit_nat_eq_self)
    ultimately obtain c where "add_u64 (of_nat (unat i * 5)) (ucast p) = Ok c"
      using add_u64_Ok [of "of_nat (unat i * 5)" "ucast p"] i p by auto
    then show ?thesis by (simp add: block_offset_def off del: of_nat_mult)
  qed
  have "read_block id disk_layout fs i p buf \<noteq> Panic" for fs i p buf
    using b [of i p] r by (cases "block_offset disk_layout i p") (simp_all add: read_block_def)
  moreover have "snd (write_piece id disk_layout fs i data) \<noteq> Panic" for fs i data
    using w mode by (simp add: write_piece_def off write_range_def del: of_nat_mult)
  ultimately show ?thesis by (simp add: env_ok_def disk_env_def)
qed

lemma disk_swarm_inv: "swarm_inv disk_swarm"
  by (simp add: swarm_inv_def disk_swarm_def disk_meta_simps meta_ok_def download_ok_def disk_download_def
    piece_manager_new_def pm_wf_def peer_info_new_def pr_inv_def peer_manager_new_def uniq.inv_new Let_def div_ceil_def)

lemma disk_last_block:
  "mark_received 0 [8, 9] disk_download = (disk_download\<lparr>ad_data := [8, 9], ad_received := [True]\<rparr>, True)"
  by (simp add: mark_received_def disk_download_def block_idx_def Let_def)

lemma disk_block_facts:
  "small_addr \<in> fst ` set (sw_peers disk_swarm)" "map_of (sw_active disk_swarm) 2 = Some disk_download"
  "e_sha1 disk_env (ad_data (disk_download\<lparr>ad_data := [8, 9], ad_received := [True]\<rparr>)) = pieces (info (sw_meta disk_swarm)) ! unat (2 :: u32)"
  "e_write disk_env (sw_storage disk_swarm) 2 (ad_data (disk_download\<lparr>ad_data := [8, 9], ad_received := [True]\<rparr>)) =
     ([[47, 120] \<mapsto> replicate 10 0 @ [8, 9]], Ok ())"
  by (simp_all add: disk_env_def disk_swarm_simps disk_meta_simps disk_write)

lemma last_block_turn:
  "\<exists>s'. handle_peer_message disk_env 2 small_addr (Piece 2 0 [8, 9]) disk_swarm = (s', Ok ()) \<and>
     bitfield (sw_piece_mgr s') = [False, False, True]"
proof -
  obtain s' r where run: "handle_peer_message disk_env 2 small_addr (Piece 2 0 [8, 9]) disk_swarm = (s', r)" by force
  from last_block [OF disk_env_ok disk_swarm_inv disk_block_facts(1,2) disk_last_block disk_block_facts(3,4) run] run
  show ?thesis by (simp add: disk_swarm_simps piece_manager_new_def numeral_3_eq_3)
qed

theorem last_block_completes_witness:
  "\<exists>s'. handle_peer_message disk_env 2 small_addr (Piece 2 0 [8, 9]) disk_swarm = (s', Ok ()) \<and>
     sw_storage s' [47, 120] = Some (replicate 10 0 @ [8, 9]) \<and> sw_sent s' = [(small_addr, Have 2)]"
proof -
  obtain s' r where run: "handle_peer_message disk_env 2 small_addr (Piece 2 0 [8, 9]) disk_swarm = (s', r)" by force
  from last_block_completes [OF disk_env_ok disk_swarm_inv disk_block_facts(1,2) disk_last_block disk_block_facts(3,4) run] run
  show ?thesis by (simp add: disk_swarm_simps)
qed

theorem piece_outcome_witness:
  "\<exists>s' r. verify_and_complete_piece disk_env 2 disk_swarm = (s', r) \<and> r = Ok False \<and> sw_active s' = [] \<and>
     sw_events s' = [PieceFailed 2] \<and> map_of (sw_peers s') small_addr = Some (peer_info_new\<lparr>pi_corrupt_blocks := 1\<rparr>)"
proof -
  obtain s' r where run: "verify_and_complete_piece disk_env 2 disk_swarm = (s', r)" by force
  have dl: "map_of (sw_active disk_swarm) 2 = Some disk_download" by (simp add: disk_swarm_simps)
  have bad: "e_sha1 disk_env (ad_data disk_download) \<noteq> pieces (info (sw_meta disk_swarm)) ! unat (2 :: u32)"
    by (simp add: disk_env_def disk_swarm_simps disk_meta_simps disk_download_def)
  from piece_outcome [OF disk_swarm_inv dl run] bad
  have out: "r = Ok False" "sw_active s' = AList.delete 2 (sw_active disk_swarm)" "sw_events s' = sw_events disk_swarm @ [PieceFailed 2]"
    "map_of (sw_peers s') small_addr = Option.bind (map_of (sw_peers disk_swarm) small_addr)
       (kept_peer (sw_ban_threshold disk_swarm) {b. Some b \<in> set (ad_requested disk_download)} small_addr)"
    by (simp_all only: if_True not_False_eq_True simp_thms)
  have "sw_ban_threshold disk_swarm = 3" "sw_events disk_swarm = []" "pi_corrupt_blocks peer_info_new = 0"
    by (simp_all add: disk_swarm_def peer_info_new_def)
  with out run show ?thesis by (simp add: disk_swarm_simps kept_peer_def struck_def disk_download_def word_le_nat_alt)
qed

theorem pieces_on_disk_verified_witness:
  "\<exists>s. swarm_run disk_env disk_swarm s \<and> bitfield (sw_piece_mgr s) ! 2 \<and>
     pieces_verified disk_env (stored_piece id disk_layout) s \<and> storage_inv id disk_layout (sw_storage s)"
proof -
  let ?ev = "OnPeer 2 small_addr (Message (Piece 2 0 [8, 9])) [] []"
  obtain s r where t: "loop_turn disk_env ?ev disk_swarm = (s, r)" by force
  have run: "swarm_run disk_env disk_swarm s"
    by (rule swarm_turn [OF swarm_start _ t]) (simp add: turn_ok_def request_in_cache_def)
  have new: "file_storage_new (info (sw_meta disk_swarm)) [47] = Ok disk_layout"
    by (simp add: file_storage_new_def disk_swarm_simps disk_meta_simps disk_layout_def)
       (simp add: disk_meta_def path_push_def)
  have ok: "pieces_ok disk_layout" "st_num_pieces disk_layout \<le> 2 ^ 32" "e_write disk_env = write_piece id disk_layout"
    "storage_inv id disk_layout (sw_storage disk_swarm)" "pm_wf (sw_piece_mgr disk_swarm)"
    "num_pieces (sw_piece_mgr disk_swarm) = st_num_pieces disk_layout" "pieces_verified disk_env (stored_piece id disk_layout) disk_swarm"
    by (simp_all add: pieces_ok_def disk_layout_def disk_env_def disk_swarm_simps storage_inv_def store_files_def files_ok_def lens_def
      piece_manager_new_def pm_wf_def pieces_verified_def list_all_iff)
  have same: "disk_swarm\<lparr>sw_blocked := []\<rparr> = disk_swarm" by (simp add: disk_swarm_def)
  from last_block_turn obtain s1 where s1: "handle_peer_message disk_env 2 small_addr (Piece 2 0 [8, 9]) disk_swarm = (s1, Ok ())"
    "bitfield (sw_piece_mgr s1) = [False, False, True]" by blast
  have "s = fst (act_read (\<lambda>s. if missing_pieces (sw_piece_mgr s) \<noteq> [] then act_ignore (fill disk_env 2) else act_return ()) s1)"
    using t by (simp add: act_seq_update same) (simp add: act_seq_def act_bind_def act_return_def act_catch_def s1(1))
  also have "core \<dots> = core s1" by (rule leavesD) (intro leaves_intros)
  finally have "bitfield (sw_piece_mgr s) ! 2" using s1(2) by (simp add: core_def)
  with run pieces_on_disk_verified [OF new ok run] show ?thesis by blast
qed


subsection \<open>The choice of peers to unchoke\<close>

definition fill_slots :: "nat \<Rightarrow> (SocketAddr \<Rightarrow> bool) \<Rightarrow> SocketAddr list \<Rightarrow> SocketAddr list \<Rightarrow> SocketAddr list" where
  "fill_slots slots keep stats c =
     foldl (\<lambda>c addr. if slots \<le> length c then c else if keep addr then List.insert addr c else c) c stats"

lemma fill_slots_full: "slots \<le> length c \<Longrightarrow> fill_slots slots keep stats c = c"
  by (induction stats) (simp_all add: fill_slots_def)

lemma fill_slots_Cons:
  "length c < slots \<Longrightarrow> fill_slots slots keep (a # stats) c =
     fill_slots slots keep stats (if keep a then List.insert a c else c)"
  by (simp add: fill_slots_def)

lemma fill_slots_spec:
  assumes "distinct c" and "length c \<le> slots"
  shows "distinct (fill_slots slots keep stats c) \<and> length (fill_slots slots keep stats c) \<le> slots \<and>
    set c \<subseteq> set (fill_slots slots keep stats c) \<and> set (fill_slots slots keep stats c) \<subseteq> set c \<union> {a \<in> set stats. keep a} \<and>
    (length (fill_slots slots keep stats c) < slots \<longrightarrow> {a \<in> set stats. keep a} \<subseteq> set (fill_slots slots keep stats c))"
  using assms
proof (induction stats arbitrary: c)
  case (Cons a stats)
  show ?case
  proof (cases "slots \<le> length c")
    case True
    then show ?thesis using Cons.prems fill_slots_full [OF True, of keep "a # stats"] by simp
  next
    case False
    let ?c = "if keep a then List.insert a c else c"
    have "distinct ?c" "length ?c \<le> slots" using Cons.prems False by (simp_all add: List.insert_def)
    from Cons.IH [OF this] have IH: "distinct (fill_slots slots keep stats ?c)" "length (fill_slots slots keep stats ?c) \<le> slots"
      "set ?c \<subseteq> set (fill_slots slots keep stats ?c)" "set (fill_slots slots keep stats ?c) \<subseteq> set ?c \<union> {b \<in> set stats. keep b}"
      "length (fill_slots slots keep stats ?c) < slots \<longrightarrow> {b \<in> set stats. keep b} \<subseteq> set (fill_slots slots keep stats ?c)"
      by blast+
    have c: "set ?c = set c \<union> {b. b = a \<and> keep b}" by auto
    have "{b \<in> set (a # stats). keep b} = {b. b = a \<and> keep b} \<union> {b \<in> set stats. keep b}" by auto
    with IH show ?thesis using False unfolding fill_slots_Cons [OF False [unfolded not_le]] c by blast
  qed
qed (simp add: fill_slots_def)

lemma choose_unchoked_list:
  assumes "distinct stats" and "0 < slots" and "\<forall>n. 0 < n \<longrightarrow> rng n < n"
  shows "distinct (choose_unchoked rng slots keep stats) \<and> length (choose_unchoked rng slots keep stats) \<le> slots \<and>
    set (choose_unchoked rng slots keep stats) \<subseteq> {a \<in> set stats. keep a} \<and>
    {a \<in> set (take (slots - 1) stats). keep a} \<subseteq> set (choose_unchoked rng slots keep stats) \<and>
    (length (choose_unchoked rng slots keep stats) < slots \<longrightarrow>
       set (choose_unchoked rng slots keep stats) = {a \<in> set stats. keep a})"
proof -
  define k where "k = min (slots - 1) (length stats)"
  define c0 where "c0 = (if drop k stats = [] then take k stats
    else List.insert (drop k stats ! rng (length (drop k stats))) (take k stats))"
  have c: "choose_unchoked rng slots keep stats = fill_slots slots keep stats (filter keep c0)"
    by (simp add: choose_unchoked_def fill_slots_def c0_def k_def Let_def)
  let ?x = "drop k stats ! rng (length (drop k stats))"
  have x: "?x \<in> set stats" if "drop k stats \<noteq> []"
  proof -
    have "rng (length (drop k stats)) < length (drop k stats)"
      by (rule assms(3) [rule_format]) (use that in simp)
    then show ?thesis by (rule in_set_dropD [OF nth_mem])
  qed
  have "k \<le> slots - 1" by (simp add: k_def)
  then have len: "length (take k stats) \<le> slots - 1" by simp
  have c0: "distinct c0 \<and> length c0 \<le> slots \<and> set c0 \<subseteq> set stats \<and> set (take k stats) \<subseteq> set c0"
  proof (cases "drop k stats = []")
    case True
    then have "c0 = take k stats" unfolding c0_def by (rule if_P)
    then show ?thesis using distinct_take [OF assms(1), of k] len set_take_subset [of k stats] by (metis diff_le_self order_refl order_trans)
  next
    case False
    then have c0: "c0 = List.insert ?x (take k stats)" unfolding c0_def by (rule if_not_P)
    have "length (List.insert ?x (take k stats)) \<le> Suc (length (take k stats))" by (simp add: List.insert_def)
    with len assms(2) have "length (List.insert ?x (take k stats)) \<le> slots" by linarith
    moreover have "set (List.insert ?x (take k stats)) = insert ?x (set (take k stats))" by (rule set_insert)
    ultimately show ?thesis
      using distinct_take [OF assms(1), of k] x [OF False] set_take_subset [of k stats] unfolding c0
      by (simp only: distinct_insert) blast
  qed
  have "distinct (filter keep c0)" "length (filter keep c0) \<le> slots"
    using c0 le_trans [OF length_filter_le, of c0 slots keep] by simp_all
  note spec = fill_slots_spec [OF this, where stats = stats and keep = keep]
  have "take (slots - 1) stats = take k stats" by (simp add: k_def min_def)
  with spec c0 show ?thesis unfolding c by (simp only: set_filter) blast
qed

text \<open>The slots that are left go to the best of the rest.\<close>

lemma fill_slots_best:
  fixes rate :: "SocketAddr \<Rightarrow> nat"
  assumes "sorted_wrt (\<lambda>a b. rate b \<le> rate a) stats" and "distinct c" and "length c \<le> slots"
    and "a \<in> set (fill_slots slots keep stats c)" and "a \<notin> set c" and "b \<in> set stats" and "keep b"
    and "b \<notin> set (fill_slots slots keep stats c)"
  shows "rate b \<le> rate a"
  using assms
proof (induction stats arbitrary: c)
  case (Cons x stats)
  show ?case
  proof (cases "slots \<le> length c")
    case True
    then show ?thesis using Cons.prems(4,5) fill_slots_full [OF True, of keep "x # stats"] by simp
  next
    case False
    let ?c = "if keep x then List.insert x c else c"
    have step: "fill_slots slots keep (x # stats) c = fill_slots slots keep stats ?c"
      using False by (intro fill_slots_Cons) simp
    have ok: "distinct ?c" "length ?c \<le> slots" using Cons.prems(2,3) False by (simp_all add: List.insert_def)
    have sub: "set ?c \<subseteq> set (fill_slots slots keep stats ?c)" using fill_slots_spec [OF ok] by blast
    have b: "b \<in> set stats"
      using Cons.prems(6-8) sub unfolding step by (cases "b = x") auto
    show ?thesis
    proof (cases "a \<in> set ?c")
      case True
      then have "a = x" using Cons.prems(5) by (simp split: if_splits)
      then show ?thesis using b Cons.prems(1) by simp
    next
      case False
      show ?thesis
        by (rule Cons.IH [OF _ ok _ False b]) (use Cons.prems(1,4,7,8) in \<open>simp_all add: step\<close>)
    qed
  qed
qed (simp add: fill_slots_def)

lemma sorted_take_drop:
  assumes "sorted_wrt R xs" and "a \<in> set (take k xs)" and "b \<in> set (drop k xs)"
  shows "R a b"
proof -
  have "sorted_wrt R (take k xs @ drop k xs)" using assms(1) by simp
  then show ?thesis using assms(2,3) unfolding sorted_wrt_append by blast
qed

lemma choose_unchoked_best:
  fixes rate :: "SocketAddr \<Rightarrow> nat"
  assumes "distinct stats" and "0 < slots" and "\<forall>n. 0 < n \<longrightarrow> rng n < n" and "sorted_wrt (\<lambda>a b. rate b \<le> rate a) stats"
  shows "\<exists>opt. \<forall>a \<in> set (choose_unchoked rng slots keep stats) - {opt}. \<forall>b \<in> set stats.
    keep b \<and> b \<notin> set (choose_unchoked rng slots keep stats) \<longrightarrow> rate b \<le> rate a"
proof -
  define k where "k = min (slots - 1) (length stats)"
  let ?x = "drop k stats ! rng (length (drop k stats))"
  define c0 where "c0 = (if drop k stats = [] then take k stats else List.insert ?x (take k stats))"
  have c: "choose_unchoked rng slots keep stats = fill_slots slots keep stats (filter keep c0)"
    by (simp add: choose_unchoked_def fill_slots_def c0_def k_def Let_def)
  have "length (take k stats) \<le> slots - 1" by (simp add: k_def)
  then have len: "length c0 \<le> slots" using assms(2) by (auto simp: c0_def List.insert_def)
  have "distinct c0" using assms(1) by (simp add: c0_def)
  then have ok: "distinct (filter keep c0)" "length (filter keep c0) \<le> slots"
    using len le_trans [OF length_filter_le] by simp_all
  note spec = fill_slots_spec [OF ok, where stats = stats and keep = keep]
  have "rate b \<le> rate a" if a: "a \<in> set (choose_unchoked rng slots keep stats)" "a \<noteq> ?x"
    and b: "b \<in> set stats" "keep b" "b \<notin> set (choose_unchoked rng slots keep stats)" for a b
  proof (cases "a \<in> set (filter keep c0)")
    case True
    then have "a \<in> set (take k stats)" using a(2) by (auto simp: c0_def split: if_splits)
    moreover have "b \<notin> set (take k stats)"
    proof
      assume "b \<in> set (take k stats)"
      then have "b \<in> set (filter keep c0)" using b(2) by (auto simp: c0_def dest: in_set_takeD)
      then show False using b(3) spec unfolding c by blast
    qed
    then have "b \<in> set (drop k stats)" using b(1) by (metis Un_iff append_take_drop_id set_append)
    ultimately show ?thesis using sorted_take_drop [OF assms(4)] by blast
  next
    case False
    show ?thesis
      by (rule fill_slots_best [where keep = keep, OF assms(4) ok _ False b(1,2)]) (use a(1) b(3) in \<open>simp_all add: c\<close>)
  qed
  then show ?thesis by (intro exI [of _ ?x]) blast
qed

text \<open>The statistics: the peers that are looked at, with their rates, best first.\<close>

definition round_rate :: "bool \<Rightarrow> (SocketAddr \<times> PeerInfo) list \<Rightarrow> SocketAddr \<Rightarrow> nat" where
  "round_rate seeding ps a =
     (case map_of ps a of Some p \<Rightarrow> unat (if seeding then pi_uploaded_round p else pi_downloaded_round p) | None \<Rightarrow> 0)"

lemma choke_stats_spec:
  assumes "distinct (map fst ps)"
  shows "distinct (map fst (choke_stats seeding ps))"
    and "set (map fst (choke_stats seeding ps)) = {a \<in> fst ` set ps. seeding \<longrightarrow> peer_wants ps a}"
    and "sorted_wrt (\<lambda>a b. round_rate seeding ps b \<le> round_rate seeding ps a) (map fst (choke_stats seeding ps))"
proof -
  let ?raw = "if seeding then map (\<lambda>(a, p). (a, pi_uploaded_round p)) (filter (\<lambda>(_, p). pi_interested p) ps)
        else map (\<lambda>(a, p). (a, pi_downloaded_round p)) ps"
  have fst: "map fst ?raw = map fst (if seeding then filter (\<lambda>(_, p). pi_interested p) ps else ps)"
    by (simp add: comp_def split_def)
  have "distinct (map fst ?raw)" unfolding fst using assms by (simp add: distinct_map_filter)
  then show "distinct (map fst (choke_stats seeding ps))"
    by (simp only: choke_stats_def distinct_map distinct_sort set_sort)
  have m: "map_of ps a = Some p" if "(a, p) \<in> set ps" for a p using assms that by simp
  show "set (map fst (choke_stats seeding ps)) = {a \<in> fst ` set ps. seeding \<longrightarrow> peer_wants ps a}"
    by (force simp: choke_stats_def peer_wants_def m)
  have "sorted (map (\<lambda>(_, u). - uint u) (choke_stats seeding ps))" by (simp add: choke_stats_def)
  then have "sorted_wrt (\<lambda>x y. - uint (snd x) \<le> - uint (snd y)) (choke_stats seeding ps)"
    by (simp add: sorted_map split_def)
  then have "sorted_wrt (\<lambda>x y. round_rate seeding ps (fst y) \<le> round_rate seeding ps (fst x)) (choke_stats seeding ps)"
  proof (rule sorted_wrt_mono_rel [rotated])
    fix x y assume x: "x \<in> set (choke_stats seeding ps)" "y \<in> set (choke_stats seeding ps)" and "- uint (snd x) \<le> - uint (snd y)"
    then have "unat (snd y) \<le> unat (snd x)" by (simp only: neg_le_iff_le flip: word_le_def word_le_nat_alt)
    moreover have "unat (snd z) = round_rate seeding ps (fst z)" if "z \<in> set (choke_stats seeding ps)" for z
      using that by (auto simp: choke_stats_def round_rate_def m split: if_splits)
    ultimately show "round_rate seeding ps (fst y) \<le> round_rate seeding ps (fst x)" using x by simp
  qed
  then show "sorted_wrt (\<lambda>a b. round_rate seeding ps b \<le> round_rate seeding ps a) (map fst (choke_stats seeding ps))"
    by (simp add: sorted_wrt_map)
qed

text \<open>
  C31. The choice of peers to unchoke. With distinct peers and at least one slot, the choke round picks at most
  as many as there are slots, none twice and only peers that qualify: when seeding, those that are interested; otherwise those
  that sent data recently. A slot stays empty only when every qualifying peer has one. And the
  chosen ones are the best: with one exception, the optimistic one, no qualifying peer that is left out had a
  higher rate in this round (of bytes sent to it when seeding, received from it otherwise) than one that is
  picked.
\<close>

theorem unchoke_choice:
  fixes seeding :: bool and now timeout :: nat and ps :: "(SocketAddr \<times> PeerInfo) list"
  assumes "distinct (map fst ps)" and "0 < slots" and "\<forall>n. 0 < n \<longrightarrow> rng n < n"
  defines "qualified \<equiv> {a \<in> fst ` set ps. if seeding then peer_wants ps a else peer_active now timeout ps a}"
    and "rate \<equiv> \<lambda>a. case map_of ps a of Some p \<Rightarrow> unat (if seeding then pi_uploaded_round p else pi_downloaded_round p) | None \<Rightarrow> 0"
    and "chosen \<equiv> choose_unchoked rng slots (if seeding then peer_wants ps else peer_active now timeout ps)
      (map fst (choke_stats seeding ps))"
  shows "distinct chosen \<and> length chosen \<le> slots \<and> set chosen \<subseteq> qualified \<and>
    (length chosen < slots \<longrightarrow> set chosen = qualified) \<and>
    (\<exists>opt. \<forall>a \<in> set chosen - {opt}. \<forall>b \<in> qualified - set chosen. rate b \<le> rate a)"
proof -
  let ?keep = "if seeding then peer_wants ps else peer_active now timeout ps"
  note st = choke_stats_spec [OF assms(1), of seeding]
  have q: "qualified = {a \<in> set (map fst (choke_stats seeding ps)). ?keep a}" unfolding st(2) qualified_def by auto
  have rate: "rate = round_rate seeding ps" by (rule ext) (simp add: rate_def round_rate_def)
  note one = choose_unchoked_list [OF st(1) assms(2,3), of ?keep, folded chosen_def]
  obtain opt where opt: "\<forall>a \<in> set chosen - {opt}. \<forall>b \<in> set (map fst (choke_stats seeding ps)). ?keep b \<and> b \<notin> set chosen \<longrightarrow> rate b \<le> rate a"
    using choose_unchoked_best [OF st(1) assms(2,3) st(3), of ?keep] unfolding chosen_def rate by blast
  then have "\<forall>a \<in> set chosen - {opt}. \<forall>b \<in> qualified - set chosen. rate b \<le> rate a" unfolding q by blast
  then show ?thesis using one unfolding q by blast
qed

text \<open>Three interested peers and two slots: the best gets one, the draw of the second the other.\<close>

theorem unchoke_choice_witness:
  "let peer = (\<lambda>n. peer_info_new\<lparr>pi_interested := True, pi_uploaded_round := n\<rparr>);
       ps = [(SocketAddr (V4 1) 1, peer 3), (SocketAddr (V4 2) 1, peer 9), (SocketAddr (V4 3) 1, peer 5)];
       chosen = choose_unchoked (\<lambda>_. 0) 2 (peer_wants ps) (map fst (choke_stats True ps))
   in SocketAddr (V4 2) 1 \<in> set chosen \<and> length chosen = 2"
proof -
  define peer where "peer = (\<lambda>n. peer_info_new\<lparr>pi_interested := True, pi_uploaded_round := n\<rparr>)"
  let ?a = "SocketAddr (V4 1) 1" and ?b = "SocketAddr (V4 2) 1" and ?c = "SocketAddr (V4 3) 1"
  define ps where "ps = [(?a, peer 3), (?b, peer 9), (?c, peer 5)]"
  define chosen where "chosen = choose_unchoked (\<lambda>_. 0) 2 (peer_wants ps) (map fst (choke_stats True ps))"
  have d: "distinct (map fst ps)" by (simp add: ps_def)
  have q: "{a \<in> fst ` set ps. if True then peer_wants ps a else peer_active 0 0 ps a} = {?a, ?b, ?c}"
    by (auto simp: ps_def peer_def peer_wants_def)
  define rate where "rate = (\<lambda>a. case map_of ps a of Some p \<Rightarrow> unat (if True then pi_uploaded_round p else pi_downloaded_round p) | None \<Rightarrow> 0)"
  have rate: "rate ?a = 3" "rate ?b = 9" "rate ?c = 5" by (simp_all add: rate_def ps_def peer_def)
  have *: "distinct chosen \<and> length chosen \<le> 2 \<and> set chosen \<subseteq> {?a, ?b, ?c} \<and> (length chosen < 2 \<longrightarrow> set chosen = {?a, ?b, ?c}) \<and>
    (\<exists>opt. \<forall>a \<in> set chosen - {opt}. \<forall>b \<in> {?a, ?b, ?c} - set chosen. rate b \<le> rate a)"
    using unchoke_choice [OF d, of 2 "\<lambda>_. 0" True 0 0, unfolded q] unfolding chosen_def rate_def by simp
  have two: "length chosen = 2"
  proof (rule ccontr)
    assume "length chosen \<noteq> 2"
    then have "length chosen < 2" "set chosen = {?a, ?b, ?c}" using * by auto
    then have "card {?a, ?b, ?c} < 2" by (metis card_length le_less_trans)
    then show False by simp
  qed
  have "?b \<in> set chosen"
  proof (rule ccontr)
    assume b: "?b \<notin> set chosen"
    obtain opt where opt: "\<forall>a \<in> set chosen - {opt}. \<forall>b \<in> {?a, ?b, ?c} - set chosen. rate b \<le> rate a" using * by blast
    have "card (set chosen) = 2" using two * by (simp add: distinct_card)
    then have "set chosen - {opt} \<noteq> {}" by (metis card.empty card_Diff_singleton_if diff_is_0_eq' numeral_2_eq_2 n_not_Suc_n One_nat_def Suc_le_mono diff_Suc_1 nat.distinct(1) zero_neq_numeral)
    then obtain a where a: "a \<in> set chosen" "a \<noteq> opt" by blast
    then have "rate ?b \<le> rate a" using opt b by blast
    moreover have "a = ?a \<or> a = ?c" using a(1) b * by blast
    ultimately show False using rate by auto
  qed
  with two show ?thesis by (simp add: chosen_def ps_def peer_def Let_def)
qed

subsection \<open>Slots, requests and bans\<close>

text \<open>
  \<open>unchoke\<close> refuses a peer when all slots are taken, but the peer is sent the message all the same:
  its requests are then ignored. The round unchokes before it chokes, so this happens whenever
  the slots are full and the choice changes.
\<close>

lemma unchoked_without_slot:
  assumes "env_ok E" and "addr \<in> set (connection_addrs (sw_peer_mgr s))" and "\<not> is_unchoked addr (sw_upload_mgr s)"
    and "unat (max_uploads (sw_upload_mgr s)) \<le> length (unchoked (sw_upload_mgr s))"
  shows "unchoke_peer E addr s = (s\<lparr>sw_sent := sw_sent s @ [(addr, Unchoke)]\<rparr>, Ok ())"
proof -
  have "um_unchoke addr (sw_upload_mgr s) = sw_upload_mgr s" using assms(4) by (simp add: um_unchoke_def)
  then have "s\<lparr>sw_upload_mgr := um_unchoke addr (sw_upload_mgr s)\<rparr> = s" by simp
  then show ?thesis
    using assms(3) send_msg_connected [OF assms(1,2)] by (simp add: unchoke_peer_def act_read_def act_seq_update)
qed

lemma request_without_slot:
  assumes "\<not> is_unchoked addr (sw_upload_mgr s)" and "map_of (sw_peers s) addr = Some p" and "i \<notin> set (pi_our_allowed_fast p)"
  shows "handle_peer_message E now addr (Request i b len) s = (s, Ok ())"
  using assms map_of_SomeD [OF assms(2)]
  by (force simp: handle_peer_message_def serve_request_def act_read_def act_return_def)

text \<open>
  A request is answered without a look at the bitfield: a block of a piece the client does not have
  is read from the files and sent, zeros for instance.
\<close>

lemma missing_piece_served:
  assumes "map_of (sw_peers s) addr = Some p" and "is_unchoked addr (sw_upload_mgr s)" and "(i, addr) \<notin> set (sw_blocked s)"
    and "map_of (sw_cache s) i = None" and "connection addr (sw_peer_mgr s) = Some c" and "e_send E c (Piece i b data) = Ok ()"
    and "e_read E (sw_storage s) i b (replicate (unat len) 0) = Ok data" and "data \<noteq> []"
    and "handle_peer_message E now addr (Request i b len) s = (s', r)"
  shows "r = Ok () \<and> sw_sent s' = sw_sent s @ [(addr, Piece i b data)]"
proof -
  have "addr \<in> fst ` set (sw_peers s)" using map_of_SomeD [OF assms(1)] by force
  moreover have "send_msg E addr (Piece i b data) s = (s\<lparr>sw_sent := sw_sent s @ [(addr, Piece i b data)]\<rparr>, Ok ())"
    using assms(5,6) by (simp add: send_msg_def send_to_def connection_def)
  ultimately show ?thesis
    using assms
    by (simp add: handle_peer_message_def serve_request_def act_read_def act_bind_def act_lift_def act_seq_def act_update_def) auto
qed

text \<open>A ban leaves the banned peer's blocks in the other downloads assigned to it.\<close>

lemma ban_keeps_assignments:
  "j \<noteq> i \<Longrightarrow> map_of (sw_active (reject_piece i len s)) j = map_of (sw_active s) j"
  by (simp add: reject_piece_frame delete_conv')

text \<open>With a cache of size zero the first verified piece panics.\<close>

lemma cache_size_zero: "sw_cache_size s = 0 \<Longrightarrow> sw_cache s = [] \<Longrightarrow> snd (cache_piece i data s) = Panic"
  by (simp add: cache_piece_def act_read_def act_seq_def act_bind_def act_lift_def)

end
