(* ===== verification/Swarm_Ext.thy ===== *)
theory Swarm_Ext
  imports Swarm_Results
begin

section \<open>Extensions of the swarm loop\<close>

text \<open>
  \<open>session/swarm/pex.rs\<close> (peer exchange, with the handling of the extension handshake) and
  \<open>session/swarm/super_seed.rs\<close>. An extension has its own state and acts on the state of the loop:
  its hooks are actions on the swarm beside a change of the extension. An error of a hook is only
  logged. Iterations over the peers are in the order of their list.
\<close>

subsection \<open>Peer exchange\<close>

definition UT_PEX :: rstring where "UT_PEX = ascii ''ut_pex''"

definition UT_PEX_ID :: u8 where "UT_PEX_ID = 1"

record PexExtension =
  px_interval :: nat
  px_dropped :: "SocketAddr list"

definition pex_extension_new :: "nat \<Rightarrow> PexExtension" where
  "pex_extension_new interval = \<lparr>px_interval = interval, px_dropped = []\<rparr>"

definition pex_message :: "SocketAddr list \<Rightarrow> SocketAddr \<Rightarrow> SocketAddr list \<Rightarrow> PexMessage" where
  "pex_message conns addr dropped =
     (let others = filter (\<lambda>a. a \<noteq> addr) conns
      in \<lparr>pex_added = take 50 (filter is_v4 others), pex_dropped = filter is_v4 dropped,
          pex_added6 = take 50 (filter (\<lambda>a. \<not> is_v4 a) others), pex_dropped6 = filter (\<lambda>a. \<not> is_v4 a) dropped\<rparr>)"

definition pex_recently_sent :: "nat \<Rightarrow> nat \<Rightarrow> PeerInfo \<Rightarrow> bool" where
  "pex_recently_sent now interval p = (case pi_last_pex_sent p of Some t \<Rightarrow> now - t < interval | None \<Rightarrow> False)"

definition send_one ::
  "('c, 'st) env \<Rightarrow> nat \<Rightarrow> nat \<Rightarrow> SocketAddr \<Rightarrow> SocketAddr list \<Rightarrow> (('c, 'st) swarm, unit) act" where
  "send_one E now interval addr dropped = act_read (\<lambda>s.
     case map_of (sw_peers s) addr of
       None \<Rightarrow> act_return ()
     | Some p \<Rightarrow>
         (case map_of (pi_remote_extension_ids p) UT_PEX of
            None \<Rightarrow> act_return ()
          | Some pex_id \<Rightarrow>
              if pex_recently_sent now interval p then act_return ()
              else act_seq
                (send_msg E addr (Extended pex_id
                   (encode (pex_to_bencode (pex_message (connection_addrs (sw_peer_mgr s)) addr dropped)))))
                (act_update (update_peer addr (\<lambda>p. p\<lparr>pi_last_pex_sent := Some now\<rparr>)))))"

definition pex_broadcast :: "('c, 'st) env \<Rightarrow> nat \<Rightarrow> PexExtension \<Rightarrow> (('c, 'st) swarm, unit) act" where
  "pex_broadcast E now px = act_read (\<lambda>s.
     for_each (\<lambda>addr. act_ignore (send_one E now (px_interval px) addr (filter (\<lambda>a. a \<noteq> addr) (px_dropped px))))
       (map fst (filter (\<lambda>(_, p). map_of (pi_remote_extension_ids p) UT_PEX \<noteq> None) (sw_peers s))))"

definition pex_on_tick :: "('c, 'st) env \<Rightarrow> nat \<Rightarrow> PexExtension \<Rightarrow> PexExtension \<times> (('c, 'st) swarm, unit) act" where
  "pex_on_tick E now px = (px\<lparr>px_dropped := []\<rparr>, pex_broadcast E now px)"

text \<open>The extension handshake: both failures of the decoding become the same error.\<close>

definition as_error :: "ErrorKind \<Rightarrow> 'a result \<Rightarrow> 'a result" where
  "as_error e r = (case r of Err _ \<Rightarrow> Err e | r \<Rightarrow> r)"

definition learn_extensions :: "ExtensionNegotiation \<Rightarrow> PeerInfo \<Rightarrow> PeerInfo" where
  "learn_extensions neg p =
     p\<lparr>pi_remote_extension_ids := en_m neg, pi_client_version := en_v neg, pi_metadata_size := en_metadata_size neg,
       pi_max_requests := (case en_reqq neg of
          None \<Rightarrow> pi_max_requests p
        | Some reqq \<Rightarrow> min (if sint reqq < 0 then PIPELINE_SIZE else nat (sint reqq)) PIPELINE_SIZE)\<rparr>"

definition handle_ltep_handshake ::
  "('c, 'st) env \<Rightarrow> nat \<Rightarrow> nat \<Rightarrow> SocketAddr \<Rightarrow> bytes \<Rightarrow> (('c, 'st) swarm, unit) act" where
  "handle_ltep_handshake E now interval addr data =
     act_bind (act_lift (and_then (as_error PeerInvalidExtendedMessage (decode data)) (\<lambda>(v, _).
       as_error PeerInvalidExtendedMessage (extension_from_bencode v)))) (\<lambda>neg. act_read (\<lambda>s.
         if addr \<notin> fst ` set (sw_peers s) then act_return ()
         else act_seq (act_update (update_peer addr (learn_extensions neg))) (send_one E now interval addr [])))"

definition handle_incoming_pex :: "nat \<Rightarrow> SocketAddr \<Rightarrow> bytes \<Rightarrow> (('c, 'st) swarm, unit) act" where
  "handle_incoming_pex now addr data =
     act_bind (act_lift (and_then (as_error PeerInvalidPexMessage (decode data)) (\<lambda>(v, _). pex_from_bencode v))) (\<lambda>m.
       act_update (\<lambda>s.
         let pm = sw_peer_mgr s;
             pm = (if pex_added m = [] then pm else add_peers (pex_added m) pm);
             pm = (if pex_added6 m = [] then pm else add_peers (pex_added6 m) pm)
         in update_peer addr (\<lambda>p. p\<lparr>pi_last_pex_received := Some now\<rparr>) (s\<lparr>sw_peer_mgr := pm\<rparr>)))"

definition pex_message_event ::
  "('c, 'st) env \<Rightarrow> nat \<Rightarrow> nat \<Rightarrow> SocketAddr \<Rightarrow> PeerMessage \<Rightarrow> (('c, 'st) swarm, unit) act" where
  "pex_message_event E now interval addr msg =
     (case msg of
        Extended ext_id data \<Rightarrow>
          if ext_id = 0 then act_ignore (handle_ltep_handshake E now interval addr data)
          else act_read (\<lambda>s.
            case map_of (sw_peers s) addr of
              None \<Rightarrow> act_return ()
            | Some p \<Rightarrow>
                if map_of (pi_our_extension_ids p) UT_PEX = Some ext_id
                then act_ignore (handle_incoming_pex now addr data) else act_return ())
      | _ \<Rightarrow> act_return ())"

fun pex_on_peer_event ::
  "('c, 'st) env \<Rightarrow> nat \<Rightarrow> SocketAddr \<Rightarrow> PeerEvent \<Rightarrow> PexExtension \<Rightarrow> PexExtension \<times> (('c, 'st) swarm, unit) act" where
  "pex_on_peer_event E now addr Disconnected px = (px\<lparr>px_dropped := px_dropped px @ [addr]\<rparr>, act_return ())"
| "pex_on_peer_event E now addr (Message msg) px = (px, pex_message_event E now (px_interval px) addr msg)"

definition pex_ltep_extensions :: "(rstring \<times> u8) list" where
  "pex_ltep_extensions = [(UT_PEX, UT_PEX_ID)]"

subsection \<open>Super seeding\<close>

record SuperSeed =
  ss_assignments :: "(u32 \<times> SocketAddr) list"
  ss_unrevealed :: "u32 list"

definition super_seed_new :: SuperSeed where
  "super_seed_new = \<lparr>ss_assignments = [], ss_unrevealed = []\<rparr>"

definition count_holders :: "nat list \<Rightarrow> PeerInfo \<Rightarrow> nat list" where
  "count_holders avail p =
     (if pi_bitfield p = [] then avail
      else map (\<lambda>(i, n). if i < length (pi_bitfield p) \<and> pi_bitfield p ! i then n + 1 else n) (enumerate 0 avail))"

text \<open>The first piece we have that no peer has and that is not assigned yet.\<close>

fun find_hidden :: "nat list \<Rightarrow> SuperSeed \<Rightarrow> nat \<Rightarrow> bool list \<Rightarrow> u32 option result" where
  "find_hidden avail ss i [] = Ok None"
| "find_hidden avail ss i (have # bf) =
     (if \<not> have then find_hidden avail ss (Suc i) bf
      else and_then (index_at avail i) (\<lambda>n.
        if 0 < n then find_hidden avail ss (Suc i) bf
        else if of_nat i \<in> fst ` set (ss_assignments ss) \<or> of_nat i \<in> set (ss_unrevealed ss)
        then find_hidden avail ss (Suc i) bf
        else Ok (Some (of_nat i))))"

definition super_target :: "(SocketAddr \<times> PeerInfo) list \<Rightarrow> SuperSeed \<Rightarrow> SocketAddr option" where
  "super_target ps ss =
     map_option fst (find (\<lambda>(addr, p). pi_interested p \<and> \<not> pi_am_choked p \<and> addr \<notin> snd ` set (ss_assignments ss)) ps)"

definition select_piece :: "('c, 'st) swarm \<Rightarrow> SuperSeed \<Rightarrow> SuperSeed result" where
  "select_piece s ss =
     (let avail = foldl count_holders (replicate (info_num_pieces (info (sw_meta s))) 0) (map snd (sw_peers s)) in
      and_then (find_hidden avail ss 0 (bitfield (sw_piece_mgr s))) (\<lambda>found.
        case found of
          None \<Rightarrow> Ok ss
        | Some idx \<Rightarrow> (case super_target (sw_peers s) ss of
              None \<Rightarrow> Ok ss
            | Some addr \<Rightarrow> Ok \<lparr>ss_assignments = AList.update idx addr (ss_assignments ss),
                              ss_unrevealed = List.insert idx (ss_unrevealed ss)\<rparr>)))"

text \<open>A tick: the new state and what the status shows, the number of unrevealed pieces.\<close>

definition super_on_tick :: "('c, 'st) swarm \<Rightarrow> SuperSeed \<Rightarrow> (SuperSeed \<times> u32) result" where
  "super_on_tick s ss =
     and_then (if missing_pieces (sw_piece_mgr s) = [] then select_piece s ss else Ok ss) (\<lambda>ss.
       Ok (ss, of_nat (length (ss_unrevealed ss))))"

definition super_release :: "u32 \<Rightarrow> SuperSeed \<Rightarrow> SuperSeed" where
  "super_release idx ss =
     \<lparr>ss_assignments = AList.delete idx (ss_assignments ss), ss_unrevealed = removeAll idx (ss_unrevealed ss)\<rparr>"

text \<open>An event: the new state, the requests it blocks and the pieces to announce.\<close>

fun super_on_peer_event ::
  "SocketAddr \<Rightarrow> PeerEvent \<Rightarrow> SuperSeed \<Rightarrow> SuperSeed \<times> (u32 \<times> SocketAddr) list \<times> u32 list" where
  "super_on_peer_event addr Disconnected ss =
     (foldl (\<lambda>ss idx. super_release idx ss) ss (map fst (filter (\<lambda>(_, a). a = addr) (ss_assignments ss))), [], [])"
| "super_on_peer_event addr (Message msg) ss =
     (case msg of
        Request index _ _ \<Rightarrow>
          (ss, if index \<in> set (ss_unrevealed ss) \<and> map_of (ss_assignments ss) index \<noteq> Some addr
               then [(index, addr)] else [], [])
      | Have index \<Rightarrow>
          if map_of (ss_assignments ss) index = Some addr then (super_release index ss, [], [index]) else (ss, [], [])
      | _ \<Rightarrow> (ss, [], []))"

definition clear_bit :: "bytes \<Rightarrow> u32 \<Rightarrow> bytes" where
  "clear_bit bf idx =
     (let byte = unat idx div 8; pos = 7 - unat idx mod 8 in
      if byte < length bf then bf[byte := bf ! byte AND NOT (push_bit pos 1)] else bf)"

definition mask_bitfield :: "SuperSeed \<Rightarrow> bytes \<Rightarrow> bytes" where
  "mask_bitfield ss bf = foldl clear_bit bf (ss_unrevealed ss)"

subsection \<open>Super seeding gates its pieces\<close>

definition ss_inv :: "SuperSeed \<Rightarrow> bool" where
  "ss_inv ss \<longleftrightarrow> distinct (map fst (ss_assignments ss)) \<and> distinct (map snd (ss_assignments ss)) \<and>
     set (ss_unrevealed ss) = fst ` set (ss_assignments ss) \<and> distinct (ss_unrevealed ss)"

lemma ss_inv_new [simp]: "ss_inv super_seed_new"
  by (simp add: ss_inv_def super_seed_new_def)

lemma update_fresh: "k \<notin> fst ` set xs \<Longrightarrow> AList.update k v xs = xs @ [(k, v)]"
  by (induction xs) auto

lemma ss_inv_assign:
  assumes "ss_inv ss" and "idx \<notin> fst ` set (ss_assignments ss)" and "addr \<notin> snd ` set (ss_assignments ss)"
  shows "ss_inv \<lparr>ss_assignments = AList.update idx addr (ss_assignments ss), ss_unrevealed = List.insert idx (ss_unrevealed ss)\<rparr>"
  using assms by (auto simp: ss_inv_def update_fresh List.insert_def)

lemma ss_inv_release: "ss_inv ss \<Longrightarrow> ss_inv (super_release idx ss)"
  by (auto simp: ss_inv_def super_release_def AList.delete_eq distinct_removeAll intro: distinct_map_filter)

lemma find_hidden_fresh:
  "find_hidden avail ss i bf = Ok (Some idx) \<Longrightarrow> idx \<notin> fst ` set (ss_assignments ss) \<and> idx \<notin> set (ss_unrevealed ss)"
  by (induction avail ss i bf rule: find_hidden.induct) (auto split: if_splits simp: index_at_def)

lemma ss_inv_select:
  assumes "ss_inv ss" and "select_piece s ss = Ok ss'"
  shows "ss_inv ss'"
proof -
  let ?avail = "foldl count_holders (replicate (info_num_pieces (info (sw_meta s))) 0) (map snd (sw_peers s))"
  obtain found where f: "find_hidden ?avail ss 0 (bitfield (sw_piece_mgr s)) = Ok found"
    using assms(2) by (auto simp: select_piece_def Let_def)
  show ?thesis
  proof (cases "\<exists>idx addr. found = Some idx \<and> super_target (sw_peers s) ss = Some addr")
    case True
    then obtain idx addr where t: "found = Some idx" "super_target (sw_peers s) ss = Some addr" by blast
    have "addr \<notin> snd ` set (ss_assignments ss)"
      using t(2) by (force simp: super_target_def find_Some_iff)
    with ss_inv_assign [OF assms(1)] find_hidden_fresh [OF f [unfolded t(1)]] assms(2) f t show ?thesis
      by (auto simp: select_piece_def Let_def simp del: not_in_set_insert)
  next
    case False
    with assms f show ?thesis by (auto simp: select_piece_def Let_def split: option.splits)
  qed
qed

lemma ss_inv_tick: "ss_inv ss \<Longrightarrow> super_on_tick s ss = Ok (ss', n) \<Longrightarrow> ss_inv ss'"
  using ss_inv_select by (auto simp: super_on_tick_def split: if_splits)

lemma ss_inv_event: "ss_inv ss \<Longrightarrow> super_on_peer_event addr ev ss = (ss', blocked, haves) \<Longrightarrow> ss_inv ss'"
proof (cases ev)
  case Disconnected
  assume "ss_inv ss" and "super_on_peer_event addr ev ss = (ss', blocked, haves)"
  moreover have "ss_inv (foldl (\<lambda>ss idx. super_release idx ss) ss xs)" if "ss_inv ss" for ss xs
    using that by (induction xs arbitrary: ss) (simp_all add: ss_inv_release)
  ultimately show ?thesis by (auto simp: Disconnected)
next
  case (Message msg)
  assume "ss_inv ss" and "super_on_peer_event addr ev ss = (ss', blocked, haves)"
  then show ?thesis by (auto simp: Message ss_inv_release split: PeerMessage.splits if_splits)
qed

text \<open>Any ticks, on swarm states of \<open>S\<close>, and any events.\<close>

inductive super_run :: "('c, 'st) swarm set \<Rightarrow> SuperSeed \<Rightarrow> bool" for S :: "('c, 'st) swarm set" where
  super_start: "super_run S super_seed_new"
| super_tick: "super_run S ss \<Longrightarrow> s \<in> S \<Longrightarrow> super_on_tick s ss = Ok (ss', n) \<Longrightarrow> super_run S ss'"
| super_event: "super_run S ss \<Longrightarrow> super_on_peer_event addr ev ss = (ss', blocked, haves) \<Longrightarrow> super_run S ss'"

lemma super_run_inv: "super_run S ss \<Longrightarrow> ss_inv ss"
  by (induction rule: super_run.induct) (auto intro: ss_inv_tick ss_inv_event)

lemma blocked_request_ignored:
  "(index, addr) \<in> set (sw_blocked s) \<Longrightarrow> handle_peer_message E now addr (Request index b len) s = (s, Ok ())"
  by (simp add: handle_peer_message_def serve_request_def act_read_def act_return_def Let_def)

text \<open>
  C10. Super seeding uploads a hidden piece to one peer. In every state the extension reaches by ticks
  and peer events, each unrevealed piece is assigned to exactly one peer and no peer has two; when
  any other peer requests it, the extension blocks the request before the core sees it and the core
  then sends nothing. Only the assigned peer's own Have reveals the piece, and announces it once.
\<close>

theorem super_seed_exclusive:
  assumes "super_run S ss" and "index \<in> set (ss_unrevealed ss)"
  shows "\<exists>owner. map_of (ss_assignments ss) index = Some owner \<and>
    (\<forall>i. map_of (ss_assignments ss) i = Some owner \<longrightarrow> i = index) \<and>
    (\<forall>addr b len. addr \<noteq> owner \<longrightarrow> super_on_peer_event addr (Message (Request index b len)) ss = (ss, [(index, addr)], []) \<and>
       handle_peer_message E now addr (Request index b len) (s\<lparr>sw_blocked := [(index, addr)]\<rparr>) = (s\<lparr>sw_blocked := [(index, addr)]\<rparr>, Ok ()) \<and>
       super_on_peer_event addr (Message (Have index)) ss = (ss, [], [])) \<and>
    super_on_peer_event owner (Message (Have index)) ss = (super_release index ss, [], [index]) \<and>
    index \<notin> set (ss_unrevealed (super_release index ss))"
proof -
  have inv: "ss_inv ss" by (rule super_run_inv [OF assms(1)])
  then have "index \<in> fst ` set (ss_assignments ss)" using assms(2) by (simp add: ss_inv_def)
  then obtain owner where o: "map_of (ss_assignments ss) index = Some owner"
    by (cases "map_of (ss_assignments ss) index") (auto simp: map_of_eq_None_iff)
  have "i = index" if "map_of (ss_assignments ss) i = Some owner" for i
  proof -
    have "(i, owner) \<in> set (ss_assignments ss)" "(index, owner) \<in> set (ss_assignments ss)"
      using that o by (auto dest: map_of_SomeD)
    with inv show ?thesis by (force simp: ss_inv_def distinct_map inj_on_def)
  qed
  moreover have "super_on_peer_event addr (Message (Request index b len)) ss = (ss, [(index, addr)], [])"
    "super_on_peer_event addr (Message (Have index)) ss = (ss, [], [])" if "addr \<noteq> owner" for addr b len
    using o assms(2) that by auto
  moreover have "handle_peer_message E now addr (Request index b len) (s\<lparr>sw_blocked := [(index, addr)]\<rparr>) =
      (s\<lparr>sw_blocked := [(index, addr)]\<rparr>, Ok ())" for addr b len
    by (rule blocked_request_ignored) simp
  moreover have "super_on_peer_event owner (Message (Have index)) ss = (super_release index ss, [], [index])"
    "index \<notin> set (ss_unrevealed (super_release index ss))"
    using o by (simp_all add: super_release_def)
  ultimately show ?thesis using o by blast
qed

theorem super_seed_exclusive_witness:
  "\<exists>ss. super_run {disk_swarm\<lparr>sw_piece_mgr := \<lparr>num_pieces = 3, bitfield = [True, True, True]\<rparr>,
        sw_peers := [(small_addr, peer_info_new\<lparr>pi_interested := True, pi_am_choked := False\<rparr>)]\<rparr>} ss \<and>
     map_of (ss_assignments ss) 0 = Some small_addr \<and>
     super_on_peer_event (SocketAddr (V4 9) 9) (Message (Request 0 0 5)) ss = (ss, [(0, SocketAddr (V4 9) 9)], [])"
proof -
  let ?s = "disk_swarm\<lparr>sw_piece_mgr := \<lparr>num_pieces = 3, bitfield = [True, True, True]\<rparr>,
    sw_peers := [(small_addr, peer_info_new\<lparr>pi_interested := True, pi_am_choked := False\<rparr>)]\<rparr>"
  let ?ss = "\<lparr>ss_assignments = [(0, small_addr)], ss_unrevealed = [0]\<rparr>"
  have "super_on_tick ?s super_seed_new = Ok (?ss, 1)"
    by (simp add: super_on_tick_def missing_pieces_def enumerate_eq_zip upt_rec select_piece_def disk_swarm_simps disk_meta_simps
      count_holders_def peer_info_new_def super_seed_new_def index_at_def super_target_def numeral_3_eq_3)
  then have run: "super_run {?s} ?ss" by (rule super_tick [OF super_start, rotated]) simp
  have "0 \<in> set (ss_unrevealed ?ss)" by simp
  from super_seed_exclusive [OF run this] obtain owner where
    "map_of (ss_assignments ?ss) 0 = Some owner" "\<forall>addr b len. addr \<noteq> owner \<longrightarrow>
       super_on_peer_event addr (Message (Request 0 b len)) ?ss = (?ss, [(0, addr)], [])" by blast
  then show ?thesis using run by (intro exI [of _ ?ss]) (auto simp: small_addr_def)
qed

subsection \<open>The masked bitfield\<close>

lemma length_clear_bit [simp]: "length (clear_bit bf idx) = length bf"
  by (simp add: clear_bit_def Let_def)

lemma bit_and_not_push: "m < 8 \<Longrightarrow> bit (w AND NOT (push_bit n 1)) m \<longleftrightarrow> bit w m \<and> m \<noteq> n" for w :: byte
  by (auto simp: bit_and_iff bit_not_iff bit_exp_iff)

lemma bit_clear_bit:
  assumes "j < 8 * length bf"
  shows "bit (clear_bit bf idx ! (j div 8)) (7 - j mod 8) \<longleftrightarrow> bit (bf ! (j div 8)) (7 - j mod 8) \<and> j \<noteq> unat idx"
proof (cases "j div 8 = unat idx div 8")
  case True
  have "j div 8 < length bf" using assms by simp
  moreover have "7 - j mod 8 = 7 - unat idx mod 8 \<longleftrightarrow> j mod 8 = unat idx mod 8"
  proof -
    have "j mod 8 < 8" "unat idx mod 8 < 8" by simp_all
    then show ?thesis by linarith
  qed
  moreover have "j mod 8 = unat idx mod 8 \<longleftrightarrow> j = unat idx" using True by (metis div_mult_mod_eq)
  ultimately show ?thesis
    using True bit_and_not_push [of "7 - j mod 8" "bf ! (j div 8)" "7 - unat idx mod 8"]
    by (simp add: clear_bit_def Let_def del: push_bit_of_1)
next
  case False
  then have "j \<noteq> unat idx" by auto
  with False show ?thesis by (simp add: clear_bit_def Let_def)
qed

lemma bit_mask_bitfield:
  "j < 8 * length bf \<Longrightarrow> bit (mask_bitfield ss bf ! (j div 8)) (7 - j mod 8) \<longleftrightarrow>
     bit (bf ! (j div 8)) (7 - j mod 8) \<and> j \<notin> unat ` set (ss_unrevealed ss)"
proof -
  have "length (foldl clear_bit bf xs) = length bf" for xs by (induction xs arbitrary: bf) simp_all
  moreover have "j < 8 * length bf \<Longrightarrow> bit (foldl clear_bit bf xs ! (j div 8)) (7 - j mod 8) \<longleftrightarrow>
      bit (bf ! (j div 8)) (7 - j mod 8) \<and> j \<notin> unat ` set xs" for xs
    by (induction xs arbitrary: bf) (auto simp: bit_clear_bit)
  ultimately show "j < 8 * length bf \<Longrightarrow> ?thesis" by (simp add: mask_bitfield_def)
qed

lemma length_mask_bitfield [simp]: "length (mask_bitfield ss bf) = length bf"
proof -
  have "length (foldl clear_bit bf xs) = length bf" for xs by (induction xs arbitrary: bf) simp_all
  then show ?thesis by (simp add: mask_bitfield_def)
qed

text \<open>The masked bitfield. What a new peer decodes from the bitfield message of a super seed is the
  seed's bitfield without the unrevealed pieces: no hidden piece is announced and no other is lost.
\<close>

theorem mask_bitfield_spec:
  assumes "pm_wf pm" and "num_pieces pm \<le> 2 ^ 32" and "to_bitfield pm = Ok bs"
  shows "parse_bitfield (mask_bitfield ss bs) (num_pieces pm) =
    map (\<lambda>i. bitfield pm ! i \<and> of_nat i \<notin> set (ss_unrevealed ss)) [0..<num_pieces pm]"
proof (rule nth_equalityI)
  fix i assume "i < length (parse_bitfield (mask_bitfield ss bs) (num_pieces pm))"
  then have i: "i < num_pieces pm" by (simp add: parse_bitfield_def)
  from to_bitfield_bits [OF assms(1)] assms(3) have bs: "length bs = (num_pieces pm + 7) div 8"
    "\<forall>j < 8 * length bs. bit (bs ! (j div 8)) (7 - j mod 8) \<longleftrightarrow> j < num_pieces pm \<and> bitfield pm ! j" by auto
  with i have len: "i < 8 * length bs" "i div 8 < length bs" by auto
  have "unat (of_nat i :: u32) = i" using i assms(2) by (simp add: unat_of_nat)
  then have "i \<in> unat ` set (ss_unrevealed ss) \<longleftrightarrow> of_nat i \<in> set (ss_unrevealed ss)" by (auto simp: image_iff) (metis image_eqI)
  with bs(2) i len show "parse_bitfield (mask_bitfield ss bs) (num_pieces pm) ! i =
      map (\<lambda>i. bitfield pm ! i \<and> of_nat i \<notin> set (ss_unrevealed ss)) [0..<num_pieces pm] ! i"
    by (simp add: parse_bitfield_def and_exp_one Let_def bit_mask_bitfield)
qed (simp add: parse_bitfield_def)

theorem mask_bitfield_spec_witness:
  "parse_bitfield (mask_bitfield \<lparr>ss_assignments = [(2, small_addr)], ss_unrevealed = [2]\<rparr> [0xA0]) 3 = [True, False, False]"
proof -
  have "to_bitfield \<lparr>num_pieces = 3, bitfield = [True, False, True]\<rparr> = Ok [0xA0]"
    by (simp add: to_bitfield_def update_at_def Let_def numeral_3_eq_3 [symmetric] eval_nat_numeral(3) [of Num.One, symmetric])
  with mask_bitfield_spec [of "\<lparr>num_pieces = 3, bitfield = [True, False, True]\<rparr>" "[0xA0]"
      "\<lparr>ss_assignments = [(2, small_addr)], ss_unrevealed = [2]\<rparr>"]
  show ?thesis by (simp add: pm_wf_def upt_rec)
qed

text \<open>
  Complete and speaking to a peer with the fast extension, the client sends \<open>HaveAll\<close> whatever the
  mask hides.
\<close>

lemma have_all_ignores_mask:
  assumes "missing_pieces (sw_piece_mgr s) = []" and "to_bitfield (sw_piece_mgr s) = Ok bs"
    and "connection addr (sw_peer_mgr s) = Some c" and "remote_has_extension (e_reserved E c) 44"
  shows "send_bitfield E addr s = act_seq (send_msg E addr HaveAll) (act_return ()) s"
  using assms by (simp add: send_bitfield_def act_read_def act_bind_def act_lift_def Let_def)

subsection \<open>Peer exchange messages\<close>

lemma not_v4: "\<not> is_v4 a \<Longrightarrow> is_v6 a"
  by (cases a rule: is_v4.cases) simp_all

lemma pex_message_wf: "pex_wf (pex_message conns addr dropped)"
  by (auto simp: pex_wf_def pex_message_def Let_def list_all_iff not_v4 dest: in_set_takeD)

lemma pex_message_addresses:
  "set (pex_added (pex_message conns addr dropped)) \<union> set (pex_added6 (pex_message conns addr dropped)) \<subseteq> set conns - {addr}"
  "length (pex_added (pex_message conns addr dropped)) \<le> 50" "length (pex_added6 (pex_message conns addr dropped)) \<le> 50"
  by (auto simp: pex_message_def Let_def dest: in_set_takeD)

text \<open>What a peer receives by peer exchange. A message is sent to a peer that offers the extension and
  was not sent one within the interval; it arrives under the peer's own identifier and decodes to
  addresses of connected peers other than the receiver, at most fifty of each family, and to the
  dropped addresses. The time of sending is noted, so until the interval is over nothing more is
  sent to this peer.
\<close>

theorem pex_update_received:
  assumes "map_of (sw_peers s) addr = Some p" and "map_of (pi_remote_extension_ids p) UT_PEX = Some eid"
    and "\<not> pex_recently_sent now interval p" and "connection addr (sw_peer_mgr s) = Some c"
    and "\<forall>msg. e_send E c msg = Ok ()"
    and "length (encode (pex_to_bencode (pex_message (connection_addrs (sw_peer_mgr s)) addr dropped))) < 2 ^ 64"
  shows "\<exists>s' data m. send_one E now interval addr dropped s = (s', Ok ()) \<and>
    sw_sent s' = sw_sent s @ [(addr, Extended eid data)] \<and>
    and_then (decode data) (\<lambda>(v, _). pex_from_bencode v) = Ok m \<and>
    set (pex_added m) \<union> set (pex_added6 m) \<subseteq> set (connection_addrs (sw_peer_mgr s)) - {addr} \<and>
    length (pex_added m) \<le> 50 \<and> length (pex_added6 m) \<le> 50 \<and>
    set (pex_dropped m) \<union> set (pex_dropped6 m) = set dropped \<and>
    (now' - now < interval \<longrightarrow> send_one E now' interval addr dropped' s' = (s', Ok ()))"
proof -
  let ?m = "pex_message (connection_addrs (sw_peer_mgr s)) addr dropped"
  let ?data = "encode (pex_to_bencode ?m)"
  let ?s = "update_peer addr (\<lambda>p. p\<lparr>pi_last_pex_sent := Some now\<rparr>) (s\<lparr>sw_sent := sw_sent s @ [(addr, Extended eid ?data)]\<rparr>)"
  have send: "send_msg E addr (Extended eid ?data) s = (s\<lparr>sw_sent := sw_sent s @ [(addr, Extended eid ?data)]\<rparr>, Ok ())"
    using assms(4,5) by (simp add: send_msg_def send_to_def connection_def)
  have run: "send_one E now interval addr dropped s = (?s, Ok ())"
  proof -
    have "send_one E now interval addr dropped s =
        act_seq (send_msg E addr (Extended eid ?data)) (act_update (update_peer addr (\<lambda>p. p\<lparr>pi_last_pex_sent := Some now\<rparr>))) s"
      using assms(1-3) by (simp add: send_one_def act_read_def)
    also have "\<dots> = act_update (update_peer addr (\<lambda>p. p\<lparr>pi_last_pex_sent := Some now\<rparr>))
        (s\<lparr>sw_sent := sw_sent s @ [(addr, Extended eid ?data)]\<rparr>)"
      by (rule act_seq_Ok, rule send)
    finally show ?thesis by (simp add: act_update_def)
  qed
  have wire: "and_then (decode ?data) (\<lambda>(v, _). pex_from_bencode v) = Ok ?m"
    using pex_wire [OF pex_message_wf assms(6)]
    by (cases "decode ?data") (auto simp: via_wire_def split: prod.splits)
  have "map_of (sw_peers ?s) addr = Some (p\<lparr>pi_last_pex_sent := Some now\<rparr>)"
    using assms(1) by (simp add: update_peer_def update_conv')
  then have quiet: "send_one E now' interval addr dropped' ?s = (?s, Ok ())" if "now' - now < interval"
    using that assms(2) by (simp add: send_one_def act_read_def act_return_def pex_recently_sent_def)
  have "set (pex_dropped ?m) \<union> set (pex_dropped6 ?m) = set dropped" by (auto simp: pex_message_def Let_def)
  then show ?thesis
    using run wire quiet pex_message_addresses [of "connection_addrs (sw_peer_mgr s)" addr dropped]
    by (intro exI [of _ ?s] exI [of _ ?data] exI [of _ ?m]) simp
qed

theorem pex_update_received_witness:
  "\<exists>s' data m. send_one disk_env 5 60 small_addr []
      (disk_swarm\<lparr>sw_peers := [(small_addr, peer_info_new\<lparr>pi_remote_extension_ids := [(UT_PEX, 3)]\<rparr>)],
         sw_peer_mgr := (sw_peer_mgr disk_swarm)\<lparr>connections := [(small_addr, ()), (SocketAddr (V4 1) 80, ())]\<rparr>\<rparr>) = (s', Ok ()) \<and>
     sw_sent s' = [(small_addr, Extended 3 data)] \<and> and_then (decode data) (\<lambda>(v, _). pex_from_bencode v) = Ok m \<and>
     set (pex_added m) \<subseteq> {SocketAddr (V4 1) 80}"
proof -
  let ?p = "peer_info_new\<lparr>pi_remote_extension_ids := [(UT_PEX, 3)]\<rparr>"
  let ?s = "disk_swarm\<lparr>sw_peers := [(small_addr, ?p)],
     sw_peer_mgr := (sw_peer_mgr disk_swarm)\<lparr>connections := [(small_addr, ()), (SocketAddr (V4 1) 80, ())]\<rparr>\<rparr>"
  have conns: "connection_addrs (sw_peer_mgr ?s) = [small_addr, SocketAddr (V4 1) 80]" by (simp add: connection_addrs_def)
  have m: "pex_message [small_addr, SocketAddr (V4 1) 80] small_addr [] = pex_new\<lparr>pex_added := [SocketAddr (V4 1) 80]\<rparr>"
    by (simp add: pex_message_def small_addr_def pex_new_def)
  have "encode_compact_peers_ipv4 [SocketAddr (V4 1) 80] = [0, 0, 0, 1, 0, 80]"
    by (simp add: encode_compact_peers_ipv4_def to_be_bytes_def to_be_numeral)
  then have "pex_to_bencode (pex_new\<lparr>pex_added := [SocketAddr (V4 1) 80]\<rparr>) = Dict [(ascii ''added'', Bytes [0, 0, 0, 1, 0, 80])]"
    by (simp add: pex_to_bencode_def pex_field_def pex_new_def)
  moreover have "length (encode (Dict [(ascii ''added'', Bytes [0, 0, 0, 1, 0, 80])])) = 17" by code_simp
  ultimately have len: "length (encode (pex_to_bencode (pex_message (connection_addrs (sw_peer_mgr ?s)) small_addr []))) < 2 ^ 64"
    unfolding conns m by simp
  have "map_of (sw_peers ?s) small_addr = Some ?p" "map_of (pi_remote_extension_ids ?p) UT_PEX = Some 3"
    "\<not> pex_recently_sent 5 60 ?p" "connection small_addr (sw_peer_mgr ?s) = Some ()" "\<forall>msg. e_send disk_env () msg = Ok ()"
    by (simp_all add: pex_recently_sent_def peer_info_new_def connection_def disk_env_def)
  from pex_update_received [OF this len] obtain s' data m where
    "send_one disk_env 5 60 small_addr [] ?s = (s', Ok ())" "sw_sent s' = sw_sent ?s @ [(small_addr, Extended 3 data)]"
    "and_then (decode data) (\<lambda>(v, _). pex_from_bencode v) = Ok m"
    "set (pex_added m) \<union> set (pex_added6 m) \<subseteq> set (connection_addrs (sw_peer_mgr ?s)) - {small_addr}" by blast
  then show ?thesis unfolding conns by (intro exI [of _ s'] exI [of _ data] exI [of _ m]) (auto simp: disk_swarm_simps)
qed

text \<open>
  A tick takes the list of dropped peers even when every peer was sent a message within the interval:
  those entries are never sent to anyone.
\<close>

lemma pex_dropped_lost:
  assumes "list_all (\<lambda>(addr, p). map_of (pi_remote_extension_ids p) UT_PEX = None \<or> pex_recently_sent now (px_interval px) p) (sw_peers s)"
    and "distinct (map fst (sw_peers s))"
  shows "px_dropped (fst (pex_on_tick E now px)) = []" and "snd (pex_on_tick E now px) s = (s, Ok ())"
proof -
  have quiet: "act_ignore (send_one E now (px_interval px) addr dr) s = (s, Ok ())" if a: "addr \<in> fst ` set (sw_peers s)" for addr dr
  proof -
    obtain p where p: "map_of (sw_peers s) addr = Some p"
      using a by (cases "map_of (sw_peers s) addr") (auto simp: map_of_eq_None_iff)
    then have "(addr, p) \<in> set (sw_peers s)" by (rule map_of_SomeD)
    with assms(1) have "map_of (pi_remote_extension_ids p) UT_PEX = None \<or> pex_recently_sent now (px_interval px) p"
      by (auto simp: list_all_iff)
    with p show ?thesis by (auto simp: send_one_def act_ignore_def act_catch_def act_read_def act_return_def split: option.split)
  qed
  show "snd (pex_on_tick E now px) s = (s, Ok ())"
    unfolding pex_on_tick_def pex_broadcast_def act_read_def snd_conv by (rule for_each_skip) (rule quiet, force)
qed (simp add: pex_on_tick_def)

subsection \<open>The hooks keep the invariant and the pieces\<close>

lemma send_one_keeps [keeps_intros]: "env_ok E \<Longrightarrow> keeps (inv_at m) (send_one E now interval addr dropped)"
  unfolding send_one_def by (intro keeps_intros) (auto intro!: keeps_intros split: option.split)

lemma pex_broadcast_keeps [keeps_intros]: "env_ok E \<Longrightarrow> keeps (inv_at m) (pex_broadcast E now px)"
  unfolding pex_broadcast_def by (intro keeps_intros)

lemma ok_or_ok: "ok_or e v \<noteq> Panic"
  by (cases v) simp_all

lemma parse_m_ok: "parse_m es acc \<noteq> Panic"
proof (induction es acc rule: parse_m.induct)
  case (2 key v es acc)
  have "and_then r f \<noteq> Panic" if "r \<noteq> Panic" "\<And>x. r = Ok x \<Longrightarrow> f x \<noteq> Panic" for r :: "'x result" and f :: "'x \<Rightarrow> 'y result"
    using that by (cases r) auto
  with 2 show ?case by (simp only: parse_m.simps) (auto simp: ok_or_ok split: bencode.split)
qed simp

lemma extension_from_bencode_ok: "extension_from_bencode v \<noteq> Panic"
  using parse_m_ok by (auto simp: extension_from_bencode_def split: bencode.splits option.splits)

lemma learn_extensions_keeps: "keeps (inv_at m) (act_update (update_peer addr (learn_extensions neg)))"
  by (intro keeps_intros) (simp add: learn_extensions_def)

lemma handle_ltep_keeps [keeps_intros]:
  assumes "env_ok E" and "decode data \<noteq> Panic"
  shows "keeps (inv_at m) (handle_ltep_handshake E now interval addr data)"
proof -
  have "and_then (as_error PeerInvalidExtendedMessage (decode data)) (\<lambda>(v, _).
      as_error PeerInvalidExtendedMessage (extension_from_bencode v)) \<noteq> Panic"
  proof (cases "decode data")
    case (Ok x)
    then show ?thesis
      using extension_from_bencode_ok by (cases x) (auto simp: as_error_def split: result.splits)
  qed (use assms(2) in \<open>simp_all add: as_error_def\<close>)
  then show ?thesis unfolding handle_ltep_handshake_def by (intro keeps_intros assms learn_extensions_keeps)
qed

lemma learn_peers_inv:
  fixes s :: "('c, 'st) swarm"
  assumes "swarm_inv s"
  shows "swarm_inv (let pm = sw_peer_mgr s;
             pm = (if as = [] then pm else add_peers as pm); pm = (if bs = [] then pm else add_peers bs pm)
         in update_peer addr (\<lambda>p. p\<lparr>pi_last_pex_received := Some now\<rparr>) (s\<lparr>sw_peer_mgr := pm\<rparr>))"
proof -
  have step: "swarm_inv (s\<lparr>sw_peer_mgr := if xs = [] then pm else add_peers xs pm\<rparr>)" if "swarm_inv (s\<lparr>sw_peer_mgr := pm\<rparr>)"
    for xs and pm :: "'c PeerManager"
    using add_peers_swarm_inv [OF that, of xs] that by simp
  have "swarm_inv (s\<lparr>sw_peer_mgr := sw_peer_mgr s\<rparr>)" using assms by simp
  from step [OF step [OF this, of as], of bs] show ?thesis
    unfolding Let_def by (intro update_peer_inv) simp_all
qed

lemma handle_incoming_keeps [keeps_intros]:
  assumes "decode data \<noteq> Panic"
  shows "keeps (inv_at m) (handle_incoming_pex now addr data)"
proof -
  have "and_then (as_error PeerInvalidPexMessage (decode data)) (\<lambda>(v, _). pex_from_bencode v) \<noteq> Panic"
    using assms by (cases "decode data") (auto simp: as_error_def pex_from_bencode_def split: prod.splits bencode.splits)
  then show ?thesis
    unfolding handle_incoming_pex_def
    by (intro keeps_bind_lift keeps_inv_update learn_peers_inv) (simp_all add: Let_def)
qed

lemma pex_event_keeps:
  assumes "env_ok E" and "\<And>eid data. msg = Extended eid data \<Longrightarrow> decode data \<noteq> Panic"
  shows "keeps (inv_at m) (pex_message_event E now interval addr msg)"
  using assms(2) unfolding pex_message_event_def
  by (cases msg) (auto intro!: keeps_intros assms(1) split: option.split)

lemma core_pex [leaves_intros]:
  "leaves core (send_one E now interval addr dropped)" "leaves core (pex_broadcast E now px)"
  "leaves core (pex_message_event E now interval addr msg)"
proof -
  have one: "leaves core (send_one E now interval addr dropped)" for interval addr dropped
    unfolding send_one_def by (intro leaves_intros) (auto intro!: leaves_intros split: option.split)
  show "leaves core (send_one E now interval addr dropped)" by (rule one)
  show "leaves core (pex_broadcast E now px)"
    unfolding pex_broadcast_def by (intro leaves_intros one)
  show "leaves core (pex_message_event E now interval addr msg)"
    unfolding pex_message_event_def handle_ltep_handshake_def handle_incoming_pex_def
    by (cases msg) (auto simp: Let_def intro!: leaves_intros one split: option.split)
qed

end
