(* ===== verification/Swarm_Engine.thy ===== *)
theory Swarm_Engine
  imports Swarm_Ext Tracker
begin

section \<open>The engine of a torrent\<close>

text \<open>
  \<open>SwarmLoop\<close> as a whole: the core of theory Swarm together with the peer exchange and super seed
  extensions, the published status (\<open>update_status\<close> in \<open>session/swarm/mod.rs\<close>) and the announces
  (\<open>session/swarm/announce.rs\<close>), driven by the commands and ticks of \<open>SwarmLoop::run\<close>. Instants and
  durations count nanoseconds. What the tracker answers is a function of the request; an answer
  after the timeout is a failure. The web seed extension works in its own tasks and is not
  modelled.
\<close>

subsection \<open>Configuration and status\<close>

text \<open>Host and port of a node to start the DHT from, and the settings of a session.\<close>

record BootstrapNode =
  bn_host :: rstring
  bn_port :: u16

record SessionConfig =
  cf_listen_port :: u16
  cf_announce_ip :: "ipv4 option"
  cf_announce_ipv6 :: "ipv6 option"
  cf_max_connections :: u32
  cf_max_uploads :: u32
  cf_download_rate_limit :: "u64 option"
  cf_upload_rate_limit :: "u64 option"
  cf_max_active_torrents :: nat
  cf_max_concurrent_pieces :: nat
  cf_piece_cache_size :: nat
  cf_endgame_threshold :: nat
  cf_request_timeout :: nat
  cf_peer_connect_timeout :: nat
  cf_peer_max_retries :: u32
  cf_peer_cooldown :: nat
  cf_choke_interval :: nat
  cf_snub_timeout :: nat
  cf_corrupt_ban_threshold :: u32
  cf_announce_fallback_interval :: nat
  cf_tracker_timeout :: nat
  cf_dht_poll_interval :: nat
  cf_pex_enabled :: bool
  cf_pex_interval :: nat
  cf_lsd_enabled :: bool
  cf_lsd_interval :: nat
  cf_peer_msg_buffer_size :: nat
  cf_enable_utp :: bool
  cf_webseed_enabled :: bool
  cf_webseed_min_gap_pieces :: u32
  cf_webseed_max_range_bytes :: u64
  cf_webseed_concurrency :: nat
  cf_bootstrap_nodes :: "BootstrapNode list option"
  cf_bootstrap_nodes_v6 :: "BootstrapNode list option"
  cf_node_id :: "bytes option"

definition from_secs :: "nat \<Rightarrow> nat" where
  "from_secs n = n * 1000000000"

definition session_config_default :: SessionConfig where
  "session_config_default =
     \<lparr>cf_listen_port = 6881, cf_announce_ip = None, cf_announce_ipv6 = None, cf_max_connections = 50, cf_max_uploads = 8,
      cf_download_rate_limit = None, cf_upload_rate_limit = None, cf_max_active_torrents = 0,
      cf_max_concurrent_pieces = 5, cf_piece_cache_size = 256, cf_endgame_threshold = 10, cf_request_timeout = from_secs 60,
      cf_peer_connect_timeout = 500000000, cf_peer_max_retries = 3, cf_peer_cooldown = from_secs 30,
      cf_choke_interval = from_secs 10, cf_snub_timeout = from_secs 60, cf_corrupt_ban_threshold = 10,
      cf_announce_fallback_interval = from_secs 30, cf_tracker_timeout = from_secs 15, cf_dht_poll_interval = from_secs 30,
      cf_pex_enabled = True, cf_pex_interval = from_secs 60, cf_lsd_enabled = True, cf_lsd_interval = from_secs 300,
      cf_peer_msg_buffer_size = 256, cf_enable_utp = True, cf_webseed_enabled = True, cf_webseed_min_gap_pieces = 4,
      cf_webseed_max_range_bytes = 5 * 1024 * 1024, cf_webseed_concurrency = 8,
      cf_bootstrap_nodes = Some [\<lparr>bn_host = ascii ''router.bittorrent.com'', bn_port = 6881\<rparr>,
        \<lparr>bn_host = ascii ''dht.transmissionbt.com'', bn_port = 6881\<rparr>],
      cf_bootstrap_nodes_v6 = None, cf_node_id = None\<rparr>"

record TorrentStatus =
  ts_info_hash :: bytes
  ts_name :: rstring
  ts_progress :: rat
  ts_download_rate :: rat
  ts_upload_rate :: rat
  ts_num_peers :: nat
  ts_num_seeds :: nat
  ts_state :: TorrentState
  ts_total_size :: u64
  ts_total_downloaded :: u64
  ts_total_uploaded :: u64
  ts_num_pieces :: u32
  ts_pieces_completed :: u32
  ts_bitfield :: "bool list"
  ts_elapsed :: nat
  ts_error_message :: "rstring option"
  ts_total_wasted :: u64
  ts_super_seed_active :: bool
  ts_super_seed_remaining :: u32

record TrackerStatus =
  tk_url :: rstring
  tk_next_announce_in :: "nat option"
  tk_announce_interval :: nat
  tk_seeds_reported :: u32
  tk_leechers_reported :: u32
  tk_last_error :: "rstring option"

record PeerStatus =
  ps_addr :: SocketAddr
  ps_client_name :: "rstring option"
  ps_progress :: rat
  ps_download_rate :: rat
  ps_upload_rate :: rat
  ps_am_choked :: bool
  ps_peer_interested :: bool

text \<open>A registered torrent (\<open>TorrentHandle::register\<close>), and one activated with data that was verified.\<close>

definition register_status :: "bytes \<Rightarrow> rstring \<Rightarrow> nat \<Rightarrow> u64 \<Rightarrow> TorrentStatus" where
  "register_status ih name n tsize =
     \<lparr>ts_info_hash = ih, ts_name = name, ts_progress = 0, ts_download_rate = 0, ts_upload_rate = 0, ts_num_peers = 0,
      ts_num_seeds = 0, ts_state = Registered, ts_total_size = tsize, ts_total_downloaded = 0, ts_total_uploaded = 0,
      ts_num_pieces = of_nat n, ts_pieces_completed = 0, ts_bitfield = replicate n False, ts_elapsed = 0,
      ts_error_message = None, ts_total_wasted = 0, ts_super_seed_active = False, ts_super_seed_remaining = 0\<rparr>"

definition progress :: "PieceManager \<Rightarrow> rat" where
  "progress pm =
     (if num_pieces pm = 0 then 1
      else f64 (f64 (of_nat (length (filter (\<lambda>b. b) (bitfield pm)))) / f64 (of_nat (num_pieces pm))))"

definition seed_status :: "PieceManager \<Rightarrow> nat \<Rightarrow> u64 \<Rightarrow> TorrentStatus \<Rightarrow> TorrentStatus" where
  "seed_status pm n tsize ts =
     ts\<lparr>ts_total_size := tsize, ts_num_pieces := of_nat n, ts_pieces_completed := of_nat (length (completed_pieces pm)),
        ts_progress := progress pm, ts_bitfield := bitfield pm,
        ts_state := (if missing_pieces pm = [] then Seeding else Downloading)\<rparr>"

subsection \<open>State\<close>

record ('c, 'st) engine =
  en_swarm :: "('c, 'st) swarm"
  en_pex :: "PexExtension option"
  en_super :: "SuperSeed option"
  en_status :: TorrentStatus
  en_peer_statuses :: "PeerStatus list"
  en_tracker_status :: TrackerStatus
  en_started_at :: nat
  en_info_hash :: bytes
  en_peer_id :: bytes
  en_listen_port :: u16
  en_announce_ip :: "ipv4 option"
  en_announce_ipv6 :: "ipv6 option"
  en_fallback_interval :: nat
  en_has_tracker :: bool
  en_next_announce :: "nat option"
  en_has_announced :: bool
  en_announced_completed :: bool
  en_total_downloaded :: u64
  en_last_downloaded :: u64
  en_last_uploaded :: u64
  en_announces :: "AnnounceRequest list"

text \<open>\<open>spawn_swarm_loop\<close>; \<open>Tracker::from_torrent\<close> says whether there is a tracker.\<close>

definition swarm_new :: "SessionConfig \<Rightarrow> Metainfo \<Rightarrow> 'st \<Rightarrow> PieceManager \<Rightarrow> 'c PeerManager \<Rightarrow> ('c, 'st) swarm" where
  "swarm_new cf m st pm peers =
     \<lparr>sw_meta = m, sw_storage = st, sw_piece_mgr = pm, sw_peer_mgr = peers, sw_peers = [], sw_active = [],
      sw_selector = rarest_first, sw_max_pieces = cf_max_concurrent_pieces cf, sw_endgame_threshold = cf_endgame_threshold cf,
      sw_request_timeout = cf_request_timeout cf, sw_upload_mgr = upload_new (cf_max_uploads cf),
      sw_snub_timeout = cf_snub_timeout cf, sw_ban_threshold = cf_corrupt_ban_threshold cf,
      sw_cache_size = cf_piece_cache_size cf, sw_cache = [], sw_total_uploaded = 0, sw_total_wasted = 0,
      sw_completed_files = [], sw_blocked = [],
      sw_our_extensions = (if cf_pex_enabled cf then pex_ltep_extensions else []), sw_events = [], sw_sent = []\<rparr>"

definition engine_new ::
  "SessionConfig \<Rightarrow> Metainfo \<Rightarrow> bytes \<Rightarrow> bytes \<Rightarrow> 'st \<Rightarrow> PieceManager \<Rightarrow> 'c PeerManager \<Rightarrow> bool \<Rightarrow> bool \<Rightarrow> TorrentStatus \<Rightarrow> nat
   \<Rightarrow> ('c, 'st) engine" where
  "engine_new cf m ih peer_id st pm peers super_seed has_tracker status now =
     \<lparr>en_swarm = swarm_new cf m st pm peers,
      en_pex = (if cf_pex_enabled cf then Some (pex_extension_new (cf_pex_interval cf)) else None),
      en_super = (if super_seed then Some super_seed_new else None), en_status = status, en_peer_statuses = [],
      en_tracker_status = \<lparr>tk_url = announce m, tk_next_announce_in = None, tk_announce_interval = 0, tk_seeds_reported = 0,
        tk_leechers_reported = 0, tk_last_error = None\<rparr>,
      en_started_at = now, en_info_hash = ih, en_peer_id = peer_id, en_listen_port = cf_listen_port cf,
      en_announce_ip = cf_announce_ip cf, en_announce_ipv6 = cf_announce_ipv6 cf,
      en_fallback_interval = cf_announce_fallback_interval cf, en_has_tracker = has_tracker, en_next_announce = None,
      en_has_announced = False, en_announced_completed = False, en_total_downloaded = 0, en_last_downloaded = 0,
      en_last_uploaded = 0, en_announces = []\<rparr>"

text \<open>The core runs on its part of the engine.\<close>

definition on_swarm :: "(('c, 'st) swarm, 'a) act \<Rightarrow> (('c, 'st) engine, 'a) act" where
  "on_swarm a = (\<lambda>en. case a (en_swarm en) of (s, r) \<Rightarrow> (en\<lparr>en_swarm := s\<rparr>, r))"

definition set_state :: "TorrentState \<Rightarrow> ('c, 'st) engine \<Rightarrow> ('c, 'st) engine" where
  "set_state st en = en\<lparr>en_status := (en_status en)\<lparr>ts_state := st\<rparr>\<rparr>"

subsection \<open>Announces\<close>

text \<open>What is left: \<open>total_size - (progress * total_size as f64) as u64\<close>, not below zero.\<close>

definition as_u64 :: "rat \<Rightarrow> u64" where
  "as_u64 x = word_of_int (min (max 0 (trunc x)) (2 ^ 64 - 1))"

definition announce_left :: "Info \<Rightarrow> PieceManager \<Rightarrow> u64 result" where
  "announce_left i pm =
     and_then (total_size i) (\<lambda>total.
       let complete_bytes = as_u64 (f64 (progress pm * f64 (of_int (uint total))))
       in Ok (if complete_bytes \<le> total then total - complete_bytes else 0))"

type_synonym tracker_answer = "AnnounceRequest \<Rightarrow> rstring + AnnounceResponse"

definition announce_request :: "('c, 'st) engine \<Rightarrow> AnnounceEvent \<Rightarrow> u64 \<Rightarrow> AnnounceRequest" where
  "announce_request en ev left =
     (announce_request_new (en_info_hash en) (en_peer_id en) (en_listen_port en))
       \<lparr>rq_downloaded := en_total_downloaded en, rq_uploaded := sw_total_uploaded (en_swarm en), rq_left := left,
        rq_event := ev, rq_ip := en_announce_ip en, rq_ipv6 := en_announce_ipv6 en\<rparr>"

definition announce_done :: "nat \<Rightarrow> AnnounceResponse \<Rightarrow> ('c, 'st) engine \<Rightarrow> ('c, 'st) engine" where
  "announce_done now resp en =
     (let interval = from_secs (unat (case ar_min_interval resp of Some i \<Rightarrow> i | None \<Rightarrow> ar_interval resp));
          s = emit (TrackerAnnounced (length (ar_peers resp))) (en_swarm en)
      in en\<lparr>en_next_announce := Some (now + interval),
            en_tracker_status := (en_tracker_status en)\<lparr>tk_announce_interval := interval, tk_next_announce_in := Some interval,
              tk_seeds_reported := ar_complete resp, tk_leechers_reported := ar_incomplete resp, tk_last_error := None\<rparr>,
            en_swarm := (if ar_peers resp = [] then s
              else s\<lparr>sw_peer_mgr := add_peers (ar_peers resp) (sw_peer_mgr s)\<rparr>)\<rparr>)"

definition announce_failed :: "nat \<Rightarrow> rstring \<Rightarrow> ('c, 'st) engine \<Rightarrow> ('c, 'st) engine" where
  "announce_failed now message en =
     en\<lparr>en_next_announce := Some (now + en_fallback_interval en),
        en_tracker_status := (en_tracker_status en)\<lparr>tk_next_announce_in := Some (en_fallback_interval en), tk_last_error := Some message\<rparr>,
        en_swarm := emit (TrackerError message) (en_swarm en)\<rparr>"

definition announce_to_tracker :: "nat \<Rightarrow> tracker_answer \<Rightarrow> AnnounceEvent \<Rightarrow> (('c, 'st) engine, unit) act" where
  "announce_to_tracker now answer ev = act_read (\<lambda>en.
     if \<not> en_has_tracker en then act_return ()
     else act_bind (act_lift (announce_left (info (sw_meta (en_swarm en))) (sw_piece_mgr (en_swarm en)))) (\<lambda>left.
       let req = announce_request en ev left in
       act_seq (act_update (\<lambda>en. en\<lparr>en_announces := en_announces en @ [req]\<rparr>))
         (case answer req of
            Inr resp \<Rightarrow> act_update (announce_done now resp)
          | Inl message \<Rightarrow> act_seq (act_update (announce_failed now message)) (act_lift (Err TrackerRequestFailed)))))"

definition announce_due :: "nat \<Rightarrow> ('c, 'st) engine \<Rightarrow> bool" where
  "announce_due now en = (case en_next_announce en of None \<Rightarrow> True | Some t \<Rightarrow> t \<le> now)"

definition announce_if_needed :: "nat \<Rightarrow> tracker_answer \<Rightarrow> (('c, 'st) engine, unit) act" where
  "announce_if_needed now answer = act_read (\<lambda>en.
     if \<not> en_has_tracker en \<or> \<not> announce_due now en then act_return ()
     else act_ignore (act_seq
       (announce_to_tracker now answer (if en_has_announced en then EvNone else EvStarted))
       (act_update (\<lambda>en. en\<lparr>en_has_announced := True\<rparr>))))"

subsection \<open>The status tick\<close>

definition is_seed :: "nat \<Rightarrow> PeerInfo \<Rightarrow> bool" where
  "is_seed n p \<longleftrightarrow> pi_bitfield p \<noteq> [] \<and> n \<le> length (pi_bitfield p) \<and> list_all (\<lambda>b. b) (pi_bitfield p)"

definition peer_status :: "nat \<Rightarrow> SocketAddr \<times> PeerInfo \<Rightarrow> PeerStatus" where
  "peer_status n = (\<lambda>(addr, p).
     \<lparr>ps_addr = addr, ps_client_name = pi_client_version p,
      ps_progress = (if n \<le> length (pi_bitfield p) \<and> 0 < n
        then f64 (f64 (of_nat (length (filter (\<lambda>b. b) (pi_bitfield p)))) / f64 (of_nat n)) else 0),
      ps_download_rate = f64 (of_int (uint (pi_downloaded_round p))),
      ps_upload_rate = f64 (of_int (uint (pi_uploaded_round p))),
      ps_am_choked = pi_am_choked p, ps_peer_interested = pi_interested p\<rparr>)"

text \<open>The state after the snapshot, and the events of its change.\<close>

definition next_state :: "bool \<Rightarrow> TorrentState \<Rightarrow> TorrentState" where
  "next_state done st = (if done \<and> st \<noteq> Seeding then Seeding else st)"

definition state_events :: "TorrentState \<Rightarrow> TorrentState \<Rightarrow> TorrentEvent list" where
  "state_events old new =
     (if new \<noteq> old then StateChanged old new # (if new = Seeding then [TorrentFinished] else []) else [])"

definition snapshot :: "nat \<Rightarrow> u64 \<Rightarrow> u64 \<Rightarrow> u64 \<Rightarrow> ('c, 'st) engine \<Rightarrow> ('c, 'st) engine" where
  "snapshot now downloaded drate urate en =
     (let s = en_swarm en; pm = sw_piece_mgr s; n = info_num_pieces (info (sw_meta s));
          old = ts_state (en_status en); new = next_state (missing_pieces pm = []) old
      in en\<lparr>en_last_downloaded := downloaded, en_total_downloaded := downloaded, en_last_uploaded := sw_total_uploaded s,
            en_status := (en_status en)\<lparr>ts_progress := progress pm, ts_num_peers := num_connections (sw_peer_mgr s),
              ts_num_seeds := length (filter (\<lambda>(_, p). is_seed n p) (sw_peers s)),
              ts_download_rate := f64 (of_int (uint drate)), ts_upload_rate := f64 (of_int (uint urate)),
              ts_num_pieces := of_nat (num_pieces pm), ts_pieces_completed := of_nat (length (completed_pieces pm)),
              ts_total_downloaded := downloaded, ts_total_uploaded := sw_total_uploaded s, ts_bitfield := bitfield pm,
              ts_elapsed := now - en_started_at en, ts_total_wasted := sw_total_wasted s, ts_state := new\<rparr>,
            en_swarm := foldl (\<lambda>s e. emit e s) s (state_events old new),
            en_peer_statuses := map (peer_status n) (sw_peers s)\<rparr>)"

definition update_status :: "nat \<Rightarrow> tracker_answer \<Rightarrow> (('c, 'st) engine, unit) act" where
  "update_status now answer = act_read (\<lambda>en.
     let s = en_swarm en; i = info (sw_meta s); all = (missing_pieces (sw_piece_mgr s) = []) in
     act_bind (act_lift (total_size i)) (\<lambda>total.
     act_bind (act_lift (mul_u64 (ucast (of_nat (length (completed_pieces (sw_piece_mgr s))) :: u32)) (piece_length i))) (\<lambda>bytes.
     act_bind (act_lift (sub_u64 (min bytes total) (en_last_downloaded en))) (\<lambda>drate.
     act_bind (act_lift (sub_u64 (sw_total_uploaded s) (en_last_uploaded en))) (\<lambda>urate.
       act_seq (act_update (snapshot now (min bytes total) drate urate))
         (if all \<and> \<not> en_announced_completed en then
            act_seq (act_ignore (announce_to_tracker now answer EvCompleted))
              (act_update (\<lambda>en. en\<lparr>en_announced_completed := True\<rparr>))
          else act_return ()))))))"

subsection \<open>Turns of the loop\<close>

datatype 'c TorrentCommand = Pause | Resume | CancelTorrent | InboundPeer SocketAddr 'c

text \<open>
  What \<open>select!\<close> delivers. A status tick brings the time, the answers of the tracker and the outcomes
  of dialing; a closed command channel is None.
\<close>

datatype 'c engine_event =
    OnCommand nat tracker_answer "'c TorrentCommand option"
  | OnMessage nat SocketAddr PeerEvent
  | OnStatusTick nat tracker_answer "SocketAddr list \<Rightarrow> (SocketAddr \<times> (ErrorKind + 'c)) list"
  | OnChokeTick nat "nat \<Rightarrow> nat"
  | OnStaleTick nat

text \<open>The extensions mask the bitfield; the sending of the bitfield uses it.\<close>

definition masked :: "('c, 'st) env \<Rightarrow> ('c, 'st) engine \<Rightarrow> ('c, 'st) env" where
  "masked E en = E\<lparr>e_mask := (case en_super en of None \<Rightarrow> (\<lambda>bf. bf) | Some ss \<Rightarrow> mask_bitfield ss)\<rparr>"

definition pex_event_hook :: "('c, 'st) env \<Rightarrow> nat \<Rightarrow> SocketAddr \<Rightarrow> PeerEvent \<Rightarrow> (('c, 'st) engine, unit) act" where
  "pex_event_hook E now addr ev = act_read (\<lambda>en.
     case en_pex en of
       None \<Rightarrow> act_return ()
     | Some px \<Rightarrow>
         act_seq (on_swarm (snd (pex_on_peer_event E now addr ev px)))
           (act_update (\<lambda>en. en\<lparr>en_pex := Some (fst (pex_on_peer_event E now addr ev px))\<rparr>)))"

definition super_event_hook :: "SocketAddr \<Rightarrow> PeerEvent \<Rightarrow> ('c, 'st) engine \<Rightarrow> ('c, 'st) engine \<times> (u32 \<times> SocketAddr) list \<times> u32 list" where
  "super_event_hook addr ev en =
     (case en_super en of
        None \<Rightarrow> (en, [], [])
      | Some ss \<Rightarrow> (let (ss', blocked, haves) = super_on_peer_event addr ev ss in (en\<lparr>en_super := Some ss'\<rparr>, blocked, haves)))"

definition peer_turn :: "('c, 'st) env \<Rightarrow> nat \<Rightarrow> SocketAddr \<Rightarrow> PeerEvent \<Rightarrow> (('c, 'st) engine, unit) act" where
  "peer_turn E now addr ev =
     act_seq (pex_event_hook E now addr ev) (act_read (\<lambda>en.
       let (en', blocked, haves) = super_event_hook addr ev en
       in act_seq (act_update (\<lambda>en. en\<lparr>en_super := en_super en'\<rparr>)) (on_swarm (loop_turn E (OnPeer now addr ev blocked haves)))))"

definition pex_tick_hook :: "('c, 'st) env \<Rightarrow> nat \<Rightarrow> (('c, 'st) engine, unit) act" where
  "pex_tick_hook E now = act_read (\<lambda>en.
     case en_pex en of
       None \<Rightarrow> act_return ()
     | Some px \<Rightarrow>
         act_seq (on_swarm (snd (pex_on_tick E now px))) (act_update (\<lambda>en. en\<lparr>en_pex := Some (fst (pex_on_tick E now px))\<rparr>)))"

definition super_tick_hook :: "(('c, 'st) engine, unit) act" where
  "super_tick_hook = act_read (\<lambda>en.
     case en_super en of
       None \<Rightarrow> act_return ()
     | Some ss \<Rightarrow>
         act_bind (act_lift (super_on_tick (en_swarm en) ss)) (\<lambda>(ss', remaining).
           act_update (\<lambda>en. en\<lparr>en_super := Some ss',
             en_status := (en_status en)\<lparr>ts_super_seed_active := True, ts_super_seed_remaining := remaining\<rparr>\<rparr>)))"

definition status_turn ::
  "('c, 'st) env \<Rightarrow> nat \<Rightarrow> tracker_answer \<Rightarrow> (SocketAddr list \<Rightarrow> (SocketAddr \<times> (ErrorKind + 'c)) list) \<Rightarrow> (('c, 'st) engine, unit) act" where
  "status_turn E now answer attempt =
     act_seq (update_status now answer)
     (act_seq (announce_if_needed now answer)
     (act_seq (act_read (\<lambda>en. on_swarm (loop_turn (masked E en) (StatusTick now now attempt))))
     (act_seq (pex_tick_hook E now) super_tick_hook)))"

text \<open>One turn; the value says whether the loop goes on.\<close>

fun engine_turn :: "('c, 'st) env \<Rightarrow> 'c engine_event \<Rightarrow> (('c, 'st) engine, bool) act" where
  "engine_turn E (OnCommand now answer (Some Pause)) = act_seq (act_update (set_state Paused)) (act_return True)"
| "engine_turn E (OnCommand now answer (Some Resume)) = act_seq (act_update (set_state Downloading)) (act_return True)"
| "engine_turn E (OnCommand now answer (Some (InboundPeer addr conn))) =
     act_seq (act_read (\<lambda>en. on_swarm (loop_turn (masked E en) (Inbound addr conn)))) (act_return True)"
| "engine_turn E (OnCommand now answer (Some CancelTorrent)) =
     act_seq (act_ignore (announce_to_tracker now answer EvStopped)) (act_return False)"
| "engine_turn E (OnCommand now answer None) =
     act_seq (act_ignore (announce_to_tracker now answer EvStopped)) (act_return False)"
| "engine_turn E (OnMessage now addr ev) = act_seq (peer_turn E now addr ev) (act_return True)"
| "engine_turn E (OnStatusTick now answer attempt) = act_seq (status_turn E now answer attempt) (act_return True)"
| "engine_turn E (OnChokeTick now rng) = act_seq (on_swarm (loop_turn E (ChokeTick now rng))) (act_return True)"
| "engine_turn E (OnStaleTick now) = act_seq (on_swarm (loop_turn E (StaleTick now))) (act_return True)"

text \<open>\<open>run\<close> first sets the state.\<close>

definition engine_start :: "('c, 'st) engine \<Rightarrow> ('c, 'st) engine" where
  "engine_start en = set_state Downloading en"


subsection \<open>Pieces are never lost\<close>

definition have_count :: "PieceManager \<Rightarrow> nat" where
  "have_count pm = length (filter (\<lambda>b. b) (bitfield pm))"

lemma have_count_update: "have_count pm \<le> length (filter (\<lambda>b. b) ((bitfield pm)[i := True]))"
proof (cases "i < length (bitfield pm)")
  case True
  then have "bitfield pm = take i (bitfield pm) @ bitfield pm ! i # drop (Suc i) (bitfield pm)" by (rule id_take_nth_drop)
  then have "have_count pm = length (filter (\<lambda>b. b) (take i (bitfield pm) @ bitfield pm ! i # drop (Suc i) (bitfield pm)))"
    unfolding have_count_def by (rule arg_cong)
  with True show ?thesis by (simp add: upd_conv_take_nth_drop)
qed (simp add: have_count_def list_update_beyond not_less)

lemma count_core: "leaves core a \<Longrightarrow> stays (\<lambda>s. c \<le> have_count (sw_piece_mgr s)) a"
  using stays_leaves [of core a "\<lambda>(_, pm, _). c \<le> have_count pm"] by (simp add: core_def)

lemma count_update: "(\<And>s. core (f s) = core s) \<Longrightarrow> stays (\<lambda>s. c \<le> have_count (sw_piece_mgr s)) (act_update f)"
  by (intro count_core leaves_update)

lemma count_complete: "stays (\<lambda>s. c \<le> have_count (sw_piece_mgr s)) (complete_piece E i data)"
proof -
  have "stays (\<lambda>s. c \<le> have_count (sw_piece_mgr s)) (\<lambda>s. case set_piece (sw_piece_mgr s) i of
      Ok pm \<Rightarrow> (s\<lparr>sw_piece_mgr := pm\<rparr>, Ok ()) | Err e \<Rightarrow> (s, Err e) | Panic \<Rightarrow> (s, Panic))"
    using have_count_update by (fastforce simp: stays_def set_piece_def update_at_def Let_def have_count_def intro: order_trans split: result.split)
  moreover have "stays (\<lambda>s. c \<le> have_count (sw_piece_mgr s)) (\<lambda>s. let (st, r) = e_write E (sw_storage s) i data in (s\<lparr>sw_storage := st\<rparr>, r))"
    by (simp add: stays_def Let_def split: prod.split)
  ultimately show ?thesis
    unfolding complete_piece_def report_files_def cache_piece_def
    by (intro stays_seq stays_return stays_read stays_bind_lift stays_if stays_update) (auto simp: foldl_same [where g = sw_piece_mgr] report_file_def)
qed

lemma count_verify: "stays (\<lambda>s. c \<le> have_count (sw_piece_mgr s)) (verify_and_complete_piece E i)"
  unfolding verify_and_complete_piece_def
  by (intro stays_read stays_bind_lift stays_if) (auto intro!: stays_return stays_bind_lift stays_if stays_seq count_complete count_update split: option.split)

lemma count_message: "stays (\<lambda>s. c \<le> have_count (sw_piece_mgr s)) (handle_message E now addr msg)"
proof (cases msg)
  case (Piece i b data)
  show ?thesis
    unfolding Piece handle_message.simps receive_piece_def
    by (intro stays_seq count_update stays_read)
      (auto intro!: stays_return stays_if stays_seq count_update stays_bind count_verify count_core [OF core_broadcast] split: option.split)
next
  case (Request i b len)
  then show ?thesis by (simp add: count_core leaves_intros)
qed (auto intro!: count_core leaves_intros)

lemma count_turn: "stays (\<lambda>s. c \<le> have_count (sw_piece_mgr s)) (loop_turn E ev)"
proof (cases ev)
  case (OnPeer now addr e blocked haves)
  have "stays (\<lambda>s. c \<le> have_count (sw_piece_mgr s)) (handle_peer_event E now addr e)"
    by (cases e) (auto simp: handle_peer_message_def intro!: stays_catch stays_read stays_if stays_return count_message count_update)
  then show ?thesis
    unfolding OnPeer loop_turn.simps
    by (intro stays_intros count_update count_core [OF core_broadcast] count_core [OF core_fill]) (auto intro: leaves_intros)
qed (auto intro!: count_core leaves_intros)

end
