(* ===== verification/Engine_Inv.thy ===== *)
theory Engine_Inv
  imports Swarm_Engine
begin

section \<open>What the engine keeps\<close>

text \<open>
  The invariant of the whole engine, the integrity of the pieces in all its runs, the status it
  publishes and the sequence of its announces.
\<close>

subsection \<open>The core within the engine\<close>

lemma keeps_on_swarm:
  assumes "\<And>s. P s \<Longrightarrow> Q (fst (a s)) \<and> snd (a s) \<noteq> Panic" and "P (en_swarm en)"
  shows "Q (en_swarm (fst (on_swarm a en))) \<and> snd (on_swarm a en) \<noteq> Panic"
  using assms by (simp add: on_swarm_def split: prod.split) (metis fst_conv snd_conv)

lemma on_swarm_fst [simp]: "fst (on_swarm a en) = en\<lparr>en_swarm := fst (a (en_swarm en))\<rparr>"
  by (simp add: on_swarm_def split: prod.split)

lemma on_swarm_snd [simp]: "snd (on_swarm a en) = snd (a (en_swarm en))"
  by (simp add: on_swarm_def split: prod.split)

lemma stays_on_swarm: "stays P a \<Longrightarrow> stays (\<lambda>en. P (en_swarm en)) (on_swarm a)"
  by (simp add: stays_def)

definition engine_inv :: "Metainfo \<Rightarrow> ('c, 'st) engine \<Rightarrow> bool" where
  "engine_inv m en \<longleftrightarrow>
     inv_at m (en_swarm en) \<and> (case en_super en of None \<Rightarrow> True | Some ss \<Rightarrow> ss_inv ss) \<and>
     unat (en_last_downloaded en) \<le> have_count (sw_piece_mgr (en_swarm en)) * unat (piece_length (info m)) \<and>
     (\<forall>total. total_size (info m) = Ok total \<longrightarrow> en_last_downloaded en \<le> total)"

text \<open>A turn of the core within the engine.\<close>

lemma keeps_engine_on_swarm:
  fixes a :: "(('c, 'st) swarm, 'a) act"
  assumes "keeps (inv_at m) a" and "\<And>c. stays (\<lambda>s. c \<le> have_count (sw_piece_mgr s)) a"
  shows "keeps (engine_inv m) (on_swarm a)"
proof (rule keepsI)
  fix en :: "('c, 'st) engine" assume en: "engine_inv m en"
  let ?s = "en_swarm en"
  have "have_count (sw_piece_mgr ?s) \<le> have_count (sw_piece_mgr (fst (a ?s)))"
    using staysD [OF assms(2) [of "have_count (sw_piece_mgr ?s)"], of ?s] by simp
  then have "unat (en_last_downloaded en) \<le> have_count (sw_piece_mgr (fst (a ?s))) * unat (piece_length (info m))"
    using en by (meson engine_inv_def mult_le_mono1 order_trans)
  then show "engine_inv m (fst (on_swarm a en)) \<and> snd (on_swarm a en) \<noteq> Panic"
    using keepsD [OF assms(1), of ?s] en by (auto simp: engine_inv_def)
qed

lemma keeps_engine_update:
  assumes "\<And>en. engine_inv m en \<Longrightarrow> inv_at m (en_swarm (f en))"
    and "\<And>en. have_count (sw_piece_mgr (en_swarm (f en))) = have_count (sw_piece_mgr (en_swarm en))"
    and "\<And>en. en_super (f en) = en_super en" and "\<And>en. en_last_downloaded (f en) = en_last_downloaded en"
  shows "keeps (engine_inv m) (act_update f)"
  using assms by (intro keeps_update) (simp add: engine_inv_def)

lemma emit_inv_at: "inv_at m s \<Longrightarrow> inv_at m (emit e s)"
  by (auto simp: inv_at_def swarm_inv_def emit_def)

lemma add_peers_inv_at: "inv_at m s \<Longrightarrow> inv_at m (s\<lparr>sw_peer_mgr := add_peers xs (sw_peer_mgr s)\<rparr>)"
  by (simp add: inv_at_def add_peers_swarm_inv)

lemma add_peers_emit_inv: "inv_at m s \<Longrightarrow> inv_at m (emit e s\<lparr>sw_peer_mgr := add_peers xs (sw_peer_mgr s)\<rparr>)"
  using add_peers_inv_at [OF emit_inv_at] by (simp add: emit_def)

subsection \<open>Announces do not panic\<close>

lemma announce_left_Ok:
  assumes "total_size i = Ok tot"
  shows "\<exists>left. announce_left i pm = Ok left \<and> left \<le> tot"
  using assms by (auto simp: announce_left_def Let_def word_le_nat_alt unat_sub_if')

lemma announce_done_inv: "engine_inv m en \<Longrightarrow> inv_at m (en_swarm (announce_done now resp en))"
  by (auto simp: announce_done_def Let_def engine_inv_def intro: add_peers_emit_inv emit_inv_at)

lemma announce_to_tracker_keeps [keeps_intros]:
  fixes answer :: tracker_answer
  assumes "meta_ok m"
  shows "keeps (engine_inv m :: ('c, 'st) engine \<Rightarrow> bool) (announce_to_tracker now answer ev)"
proof -
  obtain total where total: "total_size (info m) = Ok total" using assms by (auto simp: meta_ok_def)
  have fin: "keeps (engine_inv m :: ('c, 'st) engine \<Rightarrow> bool) (act_update (announce_done now resp))" for resp
    by (rule keeps_engine_update [OF announce_done_inv]) (simp_all add: announce_done_def Let_def emit_def)
  have failed: "keeps (engine_inv m :: ('c, 'st) engine \<Rightarrow> bool) (act_update (announce_failed now message))" for message
    by (rule keeps_engine_update) (auto simp: announce_failed_def engine_inv_def intro: emit_inv_at)
  have push: "keeps (engine_inv m :: ('c, 'st) engine \<Rightarrow> bool) (act_update (\<lambda>en. en\<lparr>en_announces := en_announces en @ [req]\<rparr>))" for req
    by (rule keeps_engine_update) (auto simp: engine_inv_def)
  show ?thesis
    unfolding announce_to_tracker_def Let_def
  proof (intro keeps_intros push)
    fix en :: "('c, 'st) engine" assume "engine_inv m en"
    then show "announce_left (info (sw_meta (en_swarm en))) (sw_piece_mgr (en_swarm en)) \<noteq> Panic"
      using announce_left_Ok [OF total, of "sw_piece_mgr (en_swarm en)"] by (auto simp: engine_inv_def inv_at_def)
  qed (use push in \<open>auto intro!: keeps_intros fin failed simp: engine_inv_def split: sum.split\<close>)
qed

lemma announce_if_needed_keeps [keeps_intros]:
  assumes "meta_ok m"
  shows "keeps (engine_inv m) (announce_if_needed now answer)"
  unfolding announce_if_needed_def
  by (intro keeps_intros assms) (auto simp: engine_inv_def)


subsection \<open>The status\<close>

lemma length_completed: "length (completed_pieces pm) = have_count pm"
proof -
  have "length (filter (\<lambda>(_, have). have) (enumerate n xs)) = length (filter (\<lambda>b. b) xs)" for n xs
    by (induction xs arbitrary: n) simp_all
  then show ?thesis by (simp add: completed_pieces_def have_count_def)
qed

lemma have_count_le: "pm_wf pm \<Longrightarrow> have_count pm \<le> num_pieces pm"
  by (simp add: have_count_def pm_wf_def) (metis length_filter_le)

text \<open>The bytes of the complete pieces, which the engine counts as downloaded.\<close>

lemma downloaded_Ok:
  assumes "inv_at m s"
  shows "\<exists>bytes. mul_u64 (ucast (of_nat (length (completed_pieces (sw_piece_mgr s))) :: u32)) (piece_length (info (sw_meta s))) = Ok bytes \<and>
    unat bytes = have_count (sw_piece_mgr s) * unat (piece_length (info m))"
proof -
  let ?c = "have_count (sw_piece_mgr s)" and ?p = "piece_length (info m)"
  have s: "swarm_inv s" "sw_meta s = m" using assms by (auto simp: inv_at_def)
  have c: "?c < 2 ^ 30" and p: "unat ?p < 2 ^ 32"
    using s have_count_le [of "sw_piece_mgr s"] by (auto simp: swarm_inv_def meta_ok_def Let_def)
  have "unat (ucast (of_nat ?c :: u32) :: u64) = ?c"
    using c by (simp add: unsigned_ucast_eq unat_of_nat take_bit_nat_eq_self)
  moreover have "?c * unat ?p < 2 ^ 64"
    using mult_strict_mono [OF c p] by simp
  ultimately show ?thesis using s(2) by (simp add: mul_u64_def checked_mul_def length_completed unat_word_ariths)
qed


definition uploads_counted :: "('c, 'st) engine \<Rightarrow> bool" where
  "uploads_counted en \<longleftrightarrow> en_last_uploaded en \<le> sw_total_uploaded (en_swarm en)"

lemma snapshot_simps [simp]:
  "en_super (snapshot now d dr ur en) = en_super en" "en_last_downloaded (snapshot now d dr ur en) = d"
  "en_last_uploaded (snapshot now d dr ur en) = sw_total_uploaded (en_swarm en)"
  "en_announces (snapshot now d dr ur en) = en_announces en"
  "en_swarm (snapshot now d dr ur en) = foldl (\<lambda>s e. emit e s) (en_swarm en)
     (state_events (ts_state (en_status en)) (next_state (missing_pieces (sw_piece_mgr (en_swarm en)) = []) (ts_state (en_status en))))"
  by (simp_all add: snapshot_def Let_def)

lemma emits_inv: "inv_at m s \<Longrightarrow> inv_at m (foldl (\<lambda>s e. emit e s) s es)"
  by (induction es arbitrary: s) (simp_all add: emit_inv_at)

lemma emits_same: "(\<And>e s. g (emit e s) = g s) \<Longrightarrow> g (foldl (\<lambda>s e. emit e s) s es) = g s"
  by (rule foldl_same)

lemma snapshot_inv:
  assumes "engine_inv m en" and "unat d \<le> have_count (sw_piece_mgr (en_swarm en)) * unat (piece_length (info m))"
    and "\<And>total. total_size (info m) = Ok total \<Longrightarrow> d \<le> total"
  shows "engine_inv m (snapshot now d dr ur en)"
  using assms by (simp add: engine_inv_def emits_inv emits_same [where g = sw_piece_mgr])

text \<open>The part of a status tick that cannot fail, the rest being the announce of the completion.\<close>

lemma update_status_start:
  fixes en :: "('c, 'st) engine"
  assumes "engine_inv m en" and "uploads_counted en" and "total_size (info m) = Ok tot"
  defines "s \<equiv> en_swarm en"
  defines "d \<equiv> min (of_nat (have_count (sw_piece_mgr s) * unat (piece_length (info m)))) tot"
  shows "update_status now answer en =
    (if missing_pieces (sw_piece_mgr s) = [] \<and> \<not> en_announced_completed en then
       act_seq (act_ignore (announce_to_tracker now answer EvCompleted))
         (act_update (\<lambda>en. en\<lparr>en_announced_completed := True\<rparr>))
     else act_return ()) (snapshot now d (d - en_last_downloaded en) (sw_total_uploaded s - en_last_uploaded en) en)"
    and "unat d = min (have_count (sw_piece_mgr s) * unat (piece_length (info m))) (unat tot)"
    and "en_last_downloaded en \<le> d"
proof -
  have s: "inv_at m s" "sw_meta s = m" using assms(1) by (auto simp: engine_inv_def s_def inv_at_def)
  obtain bytes where b: "mul_u64 (ucast (of_nat (length (completed_pieces (sw_piece_mgr s))) :: u32)) (piece_length (info m)) = Ok bytes"
      "unat bytes = have_count (sw_piece_mgr s) * unat (piece_length (info m))"
    using downloaded_Ok [OF s(1)] s(2) by auto
  then have b': "bytes = of_nat (have_count (sw_piece_mgr s) * unat (piece_length (info m)))"
    by (simp flip: b(2))
  have dd: "d = min bytes tot" unfolding d_def b' [symmetric] ..
  have "unat d = min (unat bytes) (unat tot)" by (simp add: dd min_def word_le_nat_alt)
  then show d: "unat d = min (have_count (sw_piece_mgr s) * unat (piece_length (info m))) (unat tot)"
    unfolding b(2) .
  show le: "en_last_downloaded en \<le> d"
    using assms(1,3) d by (simp add: engine_inv_def s_def word_le_nat_alt)
  have up: "sub_u64 (sw_total_uploaded s) (en_last_uploaded en) = Ok (sw_total_uploaded s - en_last_uploaded en)"
    using assms(2) by (simp add: sub_u64_def uploads_counted_def s_def not_less)
  have down: "sub_u64 (min bytes tot) (en_last_downloaded en) = Ok (d - en_last_downloaded en)"
    using le by (simp add: sub_u64_def dd)
  show "update_status now answer en =
    (if missing_pieces (sw_piece_mgr s) = [] \<and> \<not> en_announced_completed en then
       act_seq (act_ignore (announce_to_tracker now answer EvCompleted))
         (act_update (\<lambda>en. en\<lparr>en_announced_completed := True\<rparr>))
     else act_return ()) (snapshot now d (d - en_last_downloaded en) (sw_total_uploaded s - en_last_uploaded en) en)"
    unfolding update_status_def act_read_def Let_def s_def [symmetric] s(2) assms(3) b(1)
    by (simp only: act_bind_def act_lift_def prod.case result.case up down act_seq_update dd)
qed


text \<open>What an announce does, and that a status tick does not fail.\<close>

lemma announce_to_tracker_eq:
  assumes "announce_left (info (sw_meta (en_swarm en))) (sw_piece_mgr (en_swarm en)) = Ok left"
  shows "announce_to_tracker now answer ev en =
    (if \<not> en_has_tracker en then (en, Ok ())
     else let req = announce_request en ev left; en' = en\<lparr>en_announces := en_announces en @ [req]\<rparr>
       in case answer req of Inr resp \<Rightarrow> (announce_done now resp en', Ok ())
          | Inl message \<Rightarrow> (announce_failed now message en', Err TrackerRequestFailed))"
  using assms
  by (auto simp: announce_to_tracker_def act_eval Let_def split: sum.split)

lemma update_status_keeps:
  assumes "engine_inv m en" and "uploads_counted en"
  shows "engine_inv m (fst (update_status now answer en)) \<and> snd (update_status now answer en) = Ok ()"
proof -
  have meta: "meta_ok m" using assms(1) by (auto simp: engine_inv_def inv_at_def swarm_inv_def)
  then obtain tot where tot: "total_size (info m) = Ok tot" by (auto simp: meta_ok_def)
  let ?s = "en_swarm en"
  let ?d = "min (of_nat (have_count (sw_piece_mgr ?s) * unat (piece_length (info m)))) tot"
  let ?en = "snapshot now ?d (?d - en_last_downloaded en) (sw_total_uploaded ?s - en_last_uploaded en) en"
  note start = update_status_start [OF assms tot]
  have inv: "engine_inv m ?en" 
    by (rule snapshot_inv [OF assms(1)]) (simp_all only: start(2) min.cobounded1 min.cobounded2 tot result.inject)
  let ?a = "act_seq (act_ignore (announce_to_tracker now answer EvCompleted)) (act_update (\<lambda>en. en\<lparr>en_announced_completed := True\<rparr>))"
  have "keeps (engine_inv m) ?a"
    by (intro keeps_intros meta) (simp add: engine_inv_def)
  with inv have a: "engine_inv m (fst (?a ?en)) \<and> snd (?a ?en) \<noteq> Panic" by (rule keepsD [rotated])
  have "snd (?a en') \<noteq> Err e" for en' :: "('a, 'b) engine" and e
    by (simp add: act_eval split: prod.split result.split)
  with a have "snd (?a ?en) = Ok ()" by (cases "snd (?a ?en)") auto
  with a inv show ?thesis by (auto simp: start(1) act_return_def)
qed


subsection \<open>Turns of the engine\<close>

text \<open>Actions that do not return an error.\<close>

definition never_fails :: "('s, 'a) act \<Rightarrow> bool" where
  "never_fails a \<longleftrightarrow> (\<forall>s e. snd (a s) \<noteq> Err e)"

lemma never_fails_basic:
  "never_fails (act_return x)" "never_fails (act_update f)" "never_fails (act_ignore b)"
  "never_fails a \<Longrightarrow> (\<And>x. never_fails (g x)) \<Longrightarrow> never_fails (act_bind a g)"
  "never_fails a \<Longrightarrow> never_fails c \<Longrightarrow> never_fails (act_seq a c)"
  "(\<And>e. never_fails (h e)) \<Longrightarrow> never_fails (act_catch a h)"
  "(\<And>s. never_fails (k s)) \<Longrightarrow> never_fails (act_read k)"
  "(\<And>e. r \<noteq> Err e) \<Longrightarrow> never_fails (act_lift r)"
  by (auto simp: never_fails_def act_eval split: prod.splits result.splits) (metis snd_conv)+

lemma never_fails_for_each: "(\<And>x. never_fails (g x)) \<Longrightarrow> never_fails (for_each g xs)"
  by (induction xs) (simp_all add: never_fails_basic)

lemma never_fails_on_swarm: "never_fails a \<Longrightarrow> never_fails (on_swarm a)"
  by (simp add: never_fails_def)

lemma never_fails_if: "never_fails a \<Longrightarrow> never_fails c \<Longrightarrow> never_fails (if b then a else c)"
  by simp

lemmas never_fails_intros = never_fails_basic never_fails_for_each never_fails_on_swarm never_fails_if

lemma loop_turn_never_fails: "never_fails (loop_turn E ev)"
proof (cases ev)
  case (OnPeer now addr e blocked haves)
  have "never_fails (handle_peer_event E now addr e)"
    by (cases e) (auto intro!: never_fails_intros)
  then show ?thesis unfolding OnPeer loop_turn.simps by (intro never_fails_intros)
qed (auto intro!: never_fails_intros)

lemma pex_event_never_fails: "never_fails (pex_message_event E now interval addr msg)"
  by (cases msg) (auto simp: pex_message_event_def intro!: never_fails_intros split: option.split)

lemma find_hidden_no_Err: "find_hidden avail ss i bf \<noteq> Err e"
  by (induction avail ss i bf rule: find_hidden.induct) (auto simp: index_at_def)

lemma super_on_tick_no_Err: "super_on_tick s ss \<noteq> Err e"
proof -
  have bind: "and_then r f \<noteq> Err e" if "r \<noteq> Err e" "\<And>x. f x \<noteq> Err e" for r :: "'x result" and f :: "'x \<Rightarrow> 'y result"
    using that by (cases r) auto
  have "select_piece s ss \<noteq> Err e"
    unfolding select_piece_def Let_def by (intro bind find_hidden_no_Err) (auto split: option.split)
  then show ?thesis unfolding super_on_tick_def by (intro bind) auto
qed

lemma hooks_never_fail:
  "never_fails (pex_event_hook E now addr ev)" "never_fails (pex_tick_hook E now)" "never_fails super_tick_hook"
proof -
  have "never_fails (snd (pex_on_peer_event E now addr ev px))" for px
    by (cases ev) (simp_all add: never_fails_intros pex_event_never_fails)
  then show "never_fails (pex_event_hook E now addr ev)"
    unfolding pex_event_hook_def by (intro never_fails_intros) (auto intro!: never_fails_intros split: option.split)
  have "never_fails (snd (pex_on_tick E now px))" for px
    unfolding pex_on_tick_def pex_broadcast_def snd_conv by (intro never_fails_intros)
  then show "never_fails (pex_tick_hook E now)"
    unfolding pex_tick_hook_def by (intro never_fails_intros) (auto intro!: never_fails_intros split: option.split)
  show "never_fails super_tick_hook"
    unfolding super_tick_hook_def using super_on_tick_no_Err
    by (intro never_fails_intros) (auto intro!: never_fails_intros split: option.split)
qed

text \<open>Extensions and the core.\<close>

lemma count_pex: "stays (\<lambda>s. c \<le> have_count (sw_piece_mgr s)) (snd (pex_on_peer_event E now addr ev px))"
  by (cases ev) (auto intro!: count_core leaves_intros)

lemma find_hidden_ok: "length bf + i \<le> length avail \<Longrightarrow> find_hidden avail ss i bf \<noteq> Panic"
  by (induction avail ss i bf rule: find_hidden.induct) (auto simp: index_at_def)

lemma super_on_tick_ok:
  assumes "swarm_inv s"
  shows "super_on_tick s ss \<noteq> Panic"
proof -
  let ?avail = "foldl count_holders (replicate (info_num_pieces (info (sw_meta s))) 0) (map snd (sw_peers s))"
  have "length (foldl count_holders xs ps) = length xs" for xs ps
    by (induction ps arbitrary: xs) (simp_all add: count_holders_def)
  then have "length ?avail = info_num_pieces (info (sw_meta s))" by simp
  then have "find_hidden ?avail ss 0 (bitfield (sw_piece_mgr s)) \<noteq> Panic"
    using assms by (intro find_hidden_ok) (simp add: swarm_inv_def pm_wf_def)
  then show ?thesis by (auto simp: super_on_tick_def select_piece_def Let_def split: option.splits)
qed

lemma pex_event_hook_keeps:
  assumes "env_ok E" and "\<And>msg eid data. ev = Message msg \<Longrightarrow> msg = Extended eid data \<Longrightarrow> decode data \<noteq> Panic"
  shows "keeps (engine_inv m) (pex_event_hook E now addr ev)"
proof -
  have "keeps (inv_at m) (snd (pex_on_peer_event E now addr ev px))" for px
    using assms(2) by (cases ev) (auto intro!: keeps_return pex_event_keeps [OF assms(1)])
  then have "keeps (engine_inv m) (on_swarm (snd (pex_on_peer_event E now addr ev px)))" for px
    by (rule keeps_engine_on_swarm [OF _ count_pex])
  then show ?thesis
    unfolding pex_event_hook_def
    by (intro keeps_intros) (auto simp: engine_inv_def intro!: keeps_intros split: option.split)
qed

lemma pex_tick_hook_keeps [keeps_intros]:
  assumes "env_ok E"
  shows "keeps (engine_inv m) (pex_tick_hook E now)"
proof -
  have "keeps (engine_inv m) (on_swarm (snd (pex_on_tick E now px)))" for px
    unfolding pex_on_tick_def snd_conv
    by (intro keeps_engine_on_swarm count_core keeps_intros leaves_intros assms)
  then show ?thesis
    unfolding pex_tick_hook_def
    by (intro keeps_intros) (auto simp: engine_inv_def intro!: keeps_intros split: option.split)
qed

lemma super_tick_hook_keeps [keeps_intros]: "keeps (engine_inv m) super_tick_hook"
proof (rule keepsI)
  fix en :: "('c, 'st) engine" assume en: "engine_inv m en"
  then have s: "swarm_inv (en_swarm en)" by (simp add: engine_inv_def inv_at_def)
  show "engine_inv m (fst (super_tick_hook en)) \<and> snd (super_tick_hook en) \<noteq> Panic"
    using en super_on_tick_ok [OF s] ss_inv_tick [of _ "en_swarm en"]
    by (auto simp: super_tick_hook_def act_eval engine_inv_def split: option.splits result.splits)
qed


subsection \<open>Sound events and runs\<close>

text \<open>
  A message may not make the decoder run out of its input (a length prefix near the largest word)
  nor request a block behind the end of a cached piece; the counter of uploads has not wrapped.
\<close>

definition engine_ok :: "('c, 'st) engine \<Rightarrow> 'c engine_event \<Rightarrow> bool" where
  "engine_ok en ev =
     (case ev of
        OnMessage _ _ (Message msg) \<Rightarrow>
          request_in_cache msg (en_swarm en) \<and> (case msg of Extended _ data \<Rightarrow> decode data \<noteq> Panic | _ \<Rightarrow> True)
      | OnStatusTick _ _ _ \<Rightarrow> uploads_counted en
      | _ \<Rightarrow> True)"

lemma masked_ok [simp]: "env_ok (masked E en) = env_ok E"
  by (simp add: env_ok_def masked_def)

lemma keeps_engine_turn:
  fixes E :: "('c, 'st) env"
  assumes "env_ok E" and "\<And>s :: ('c, 'st) swarm. turn_ok s ev"
  shows "keeps (engine_inv m) (on_swarm (loop_turn E ev))"
  using loop_turn_inv [OF assms(1) _ assms(2)]
  by (intro keeps_engine_on_swarm count_turn keepsI) (simp add: inv_at_def)

lemma request_in_cache_core: "core s = core s' \<Longrightarrow> request_in_cache msg s = request_in_cache msg s'"
  by (simp add: request_in_cache_def core_def)

lemma leaves_core_hook: "leaves (\<lambda>en. core (en_swarm en)) (pex_event_hook E now addr ev)"
proof -
  have "leaves (\<lambda>en. core (en_swarm en)) (on_swarm (snd (pex_on_peer_event E now addr ev px)))" for px
  proof -
    have "leaves core (snd (pex_on_peer_event E now addr ev px))" by (cases ev) (simp_all add: leaves_intros)
    then show ?thesis by (simp add: leaves_def)
  qed
  then show ?thesis
    unfolding pex_event_hook_def by (intro leaves_intros) (auto intro!: leaves_intros split: option.split)
qed

lemma super_event_hook_inv:
  assumes "engine_inv m en" and "super_event_hook addr ev en = (en', blocked, haves)"
  shows "case en_super en' of None \<Rightarrow> True | Some ss \<Rightarrow> ss_inv ss"
proof (cases "en_super en")
  case (Some ss)
  obtain ss' b h where e: "super_on_peer_event addr ev ss = (ss', b, h)" by (metis prod_cases3)
  moreover have "ss_inv ss" using assms(1) Some by (simp add: engine_inv_def)
  ultimately have "ss_inv ss'" by (rule ss_inv_event [rotated])
  with assms(2) Some e show ?thesis by (auto simp: super_event_hook_def)
qed (use assms(2) in \<open>auto simp: super_event_hook_def\<close>)

lemma peer_turn_keeps:
  fixes E :: "('c, 'st) env"
  assumes "env_ok E" and "engine_inv m en" and "engine_ok en (OnMessage now addr ev)"
  shows "engine_inv m (fst (peer_turn E now addr ev en)) \<and> snd (peer_turn E now addr ev en) = Ok ()"
proof -
  obtain en1 r1 where 1: "pex_event_hook E now addr ev en = (en1, r1)" by force
  have hook: "keeps (engine_inv m) (pex_event_hook E now addr ev)"
    using assms(3) by (intro pex_event_hook_keeps assms(1)) (auto simp: engine_ok_def)
  have en1: "engine_inv m en1" "r1 \<noteq> Panic" using keepsD [OF hook assms(2)] 1 by simp_all
  have "r1 \<noteq> Err e" for e using hooks_never_fail(1) 1 unfolding never_fails_def by (metis snd_conv)
  with en1(2) have r1: "r1 = Ok ()" by (cases r1) auto
  have same: "core (en_swarm en1) = core (en_swarm en)" using leavesD [OF leaves_core_hook] 1 by (metis fst_conv)
  obtain en' blocked haves where s: "super_event_hook addr ev en1 = (en', blocked, haves)" by (metis prod_cases3)
  let ?en = "en1\<lparr>en_super := en_super en'\<rparr>"
  have "case en_super en' of None \<Rightarrow> True | Some ss \<Rightarrow> ss_inv ss"
    using en1(1) s by (rule super_event_hook_inv)
  with en1(1) have inv: "engine_inv m ?en" by (simp add: engine_inv_def)
  let ?ev = "OnPeer now addr ev blocked haves"
  have ok: "turn_ok (en_swarm ?en) ?ev"
    using assms(3) request_in_cache_core [OF same] by (cases ev) (simp_all add: turn_ok_def engine_ok_def)
  let ?s = "en_swarm ?en"
  have t: "inv_at m (fst (loop_turn E ?ev ?s))" "snd (loop_turn E ?ev ?s) \<noteq> Panic"
    using on_peer_inv [OF assms(1) _ ok] inv by (auto simp: engine_inv_def)
  have "have_count (sw_piece_mgr ?s) \<le> have_count (sw_piece_mgr (fst (loop_turn E ?ev ?s)))"
    using staysD [OF count_turn [of "have_count (sw_piece_mgr ?s)" E ?ev], of ?s] by simp
  then have "unat (en_last_downloaded ?en) \<le> have_count (sw_piece_mgr (fst (loop_turn E ?ev ?s))) * unat (piece_length (info m))"
    using inv by (meson engine_inv_def mult_le_mono1 order_trans)
  then have fin: "engine_inv m (fst (on_swarm (loop_turn E ?ev) ?en))" using inv t(1) by (simp add: engine_inv_def)
  have "snd (on_swarm (loop_turn E ?ev) ?en) = Ok ()"
    using t(2) loop_turn_never_fails [of E ?ev] unfolding never_fails_def on_swarm_snd
    by (cases "snd (loop_turn E ?ev ?s)") auto
  moreover have "peer_turn E now addr ev en = on_swarm (loop_turn E ?ev) ?en"
    unfolding peer_turn_def by (subst act_seq_Ok, rule 1 [unfolded r1]) (simp only: act_read_def s Let_def prod.case act_seq_update)
  ultimately show ?thesis using fin by simp
qed

lemma status_turn_keeps:
  fixes E :: "('c, 'st) env"
  assumes "env_ok E" and "engine_inv m en" and "uploads_counted en"
  shows "engine_inv m (fst (status_turn E now answer attempt en)) \<and> snd (status_turn E now answer attempt en) = Ok ()"
proof -
  have meta: "meta_ok m" using assms(2) by (auto simp: engine_inv_def inv_at_def swarm_inv_def)
  obtain en1 where 1: "update_status now answer en = (en1, Ok ())" "engine_inv m en1"
    using update_status_keeps [OF assms(2,3)] by (metis prod.collapse)
  let ?rest = "act_seq (announce_if_needed now answer)
     (act_seq (act_read (\<lambda>en. on_swarm (loop_turn (masked E en) (StatusTick now now attempt))))
     (act_seq (pex_tick_hook E now) super_tick_hook))"
  have "keeps (engine_inv m) ?rest"
    by (intro keeps_intros keeps_engine_turn meta) (simp_all add: assms(1) turn_ok_def)
  with 1(2) have rest: "engine_inv m (fst (?rest en1)) \<and> snd (?rest en1) \<noteq> Panic" by (rule keepsD [rotated])
  have "never_fails ?rest"
    unfolding announce_if_needed_def by (intro never_fails_intros hooks_never_fail loop_turn_never_fails)
  with rest have "snd (?rest en1) = Ok ()" unfolding never_fails_def by (cases "snd (?rest en1)") auto
  moreover have "status_turn E now answer attempt en = ?rest en1"
    unfolding status_turn_def by (rule act_seq_Ok, rule 1(1))
  ultimately show ?thesis using rest by simp
qed

subsection \<open>The turns that panic\<close>

text \<open>
  The inputs on which a turn can panic: an extension message whose payload makes the decoder overflow, a
  request that begins behind the end of a cached piece, and a tick after the counter of uploads has wrapped.
\<close>

definition turn_fault :: "('c, 'st) engine \<Rightarrow> 'c engine_event \<Rightarrow> bool" where
  "turn_fault en ev =
     (case ev of
        OnMessage _ _ (Message (Extended _ data)) \<Rightarrow> decode data = Panic
      | OnMessage _ _ (Message (Request i b _)) \<Rightarrow>
          (case map_of (sw_cache (en_swarm en)) i of Some cached \<Rightarrow> length cached < unat b | None \<Rightarrow> False)
      | OnStatusTick _ _ _ \<Rightarrow> sw_total_uploaded (en_swarm en) < en_last_uploaded en
      | _ \<Rightarrow> False)"

lemma engine_ok_fault: "engine_ok en ev \<longleftrightarrow> \<not> turn_fault en ev"
  by (cases ev) (auto simp: engine_ok_def turn_fault_def request_in_cache_def uploads_counted_def not_less
    split: PeerEvent.split PeerMessage.split option.split)

lemma on_peer_stays:
  fixes E :: "('c, 'st) env"
  assumes "env_ok E"
  shows "stays (inv_at m) (loop_turn E (OnPeer now addr ev blocked haves))"
proof -
  have st: "stays (inv_at m) a" if "keeps (inv_at m) a" for a :: "(('c, 'st) swarm, 'x) act"
    using that by (simp add: stays_def keeps_def)
  have "stays (inv_at m :: ('c, 'st) swarm \<Rightarrow> bool) (for_each (\<lambda>i. act_ignore (broadcast_have E i)) haves)"
    by (intro st keeps_intros assms)
  moreover have "stays (inv_at m) (handle_peer_event E now addr ev)"
    using handle_peer_event_inv(1) [OF assms] by (simp add: stays_def)
  moreover have "stays (inv_at m :: ('c, 'st) swarm \<Rightarrow> bool)
      (act_read (\<lambda>s. if missing_pieces (sw_piece_mgr s) \<noteq> [] then act_ignore (fill E now) else act_return ()))"
    by (intro st keeps_intros assms)
  moreover have "stays (inv_at m :: ('c, 'st) swarm \<Rightarrow> bool) (act_update (\<lambda>s. s\<lparr>sw_blocked := blocked\<rparr>))"
    by (intro stays_update) (simp add: inv_at_def)
  ultimately show ?thesis
    unfolding loop_turn.simps by (intro stays_seq)
qed

lemma undecodable_event:
  assumes "decode data = Panic"
  shows "fst (pex_message_event E now interval addr (Extended eid data) s) = s"
  using assms by (auto simp: pex_message_event_def handle_ltep_handshake_def handle_incoming_pex_def as_error_def act_read_def act_return_def
    act_ignore_def act_catch_def act_bind_def act_lift_def split: option.split)

lemma pex_event_hook_stays:
  fixes E :: "('c, 'st) env"
  assumes "env_ok E"
  shows "stays (engine_inv m) (pex_event_hook E now addr ev)"
proof (cases "\<exists>eid data. ev = Message (Extended eid data) \<and> decode data = Panic")
  case False
  then have "keeps (engine_inv m) (pex_event_hook E now addr ev)" by (intro pex_event_hook_keeps assms) blast
  then show ?thesis by (simp add: stays_def keeps_def)
next
  case True
  then obtain eid data where ev: "ev = Message (Extended eid data)" and d: "decode data = Panic" by blast
  have "fst (pex_event_hook E now addr ev en) = en" for en
  proof (cases "en_pex en")
    case (Some px)
    have same: "on_swarm (pex_message_event E now (px_interval px) addr (Extended eid data)) en =
        (en, snd (pex_message_event E now (px_interval px) addr (Extended eid data) (en_swarm en)))"
      by (rule prod_eqI) (simp_all add: undecodable_event [OF d])
    show ?thesis
      by (simp add: pex_event_hook_def act_read_def Some ev act_seq_def act_bind_def same act_update_def split: result.split)
  qed (simp add: pex_event_hook_def act_read_def act_return_def)
  then show ?thesis by (simp add: stays_def)
qed

lemma peer_turn_stays:
  fixes E :: "('c, 'st) env"
  assumes "env_ok E"
  shows "stays (engine_inv m) (peer_turn E now addr ev)"
proof -
  have rest: "stays (engine_inv m) (act_read (\<lambda>en. let (en', blocked, haves) = super_event_hook addr ev en
      in act_seq (act_update (\<lambda>en. en\<lparr>en_super := en_super en'\<rparr>)) (on_swarm (loop_turn E (OnPeer now addr ev blocked haves)))))"
  proof (unfold stays_def act_read_def, intro allI impI)
    fix en :: "('c, 'st) engine" assume en: "engine_inv m en"
    obtain en' blocked haves where s: "super_event_hook addr ev en = (en', blocked, haves)" by (metis prod_cases3)
    let ?en = "en\<lparr>en_super := en_super en'\<rparr>" and ?a = "loop_turn E (OnPeer now addr ev blocked haves)"
    have inv: "engine_inv m ?en" using en super_event_hook_inv [OF en s] by (simp add: engine_inv_def)
    have "inv_at m (fst (?a (en_swarm en)))"
      using staysD [OF on_peer_stays [OF assms]] en by (simp add: engine_inv_def)
    moreover have "have_count (sw_piece_mgr (en_swarm en)) \<le> have_count (sw_piece_mgr (fst (?a (en_swarm en))))"
      using staysD [OF count_turn [of "have_count (sw_piece_mgr (en_swarm en))" E "OnPeer now addr ev blocked haves"], of "en_swarm en"] by simp
    then have "unat (en_last_downloaded en) \<le> have_count (sw_piece_mgr (fst (?a (en_swarm en)))) * unat (piece_length (info m))"
      using en by (meson engine_inv_def mult_le_mono1 order_trans)
    ultimately have "engine_inv m (fst (on_swarm ?a ?en))" using inv by (simp add: engine_inv_def)
    then show "engine_inv m (fst ((let (en', blocked, haves) = super_event_hook addr ev en
      in act_seq (act_update (\<lambda>en. en\<lparr>en_super := en_super en'\<rparr>)) (on_swarm (loop_turn E (OnPeer now addr ev blocked haves)))) en))"
      by (simp only: s Let_def prod.case act_seq_update)
  qed
  show ?thesis unfolding peer_turn_def by (intro stays_seq pex_event_hook_stays assms rest)
qed

lemma uncounted_tick:
  fixes E :: "('c, 'st) env"
  assumes "engine_inv m en" and "\<not> uploads_counted en"
  shows "fst (status_turn E now answer attempt en) = en"
proof -
  have up: "sub_u64 (sw_total_uploaded (en_swarm en)) (en_last_uploaded en) = Panic"
    using assms(2) by (simp add: sub_u64_def uploads_counted_def not_le)
  have "fst (update_status now answer en) = en \<and> snd (update_status now answer en) \<noteq> Ok ()"
    by (auto simp: update_status_def act_read_def Let_def act_bind_def act_lift_def up split: result.split)
  then obtain r where r: "update_status now answer en = (en, r)" "r \<noteq> Ok ()" by (metis prod.collapse)
  show ?thesis
    unfolding status_turn_def act_seq_def [of "update_status now answer"] act_bind_def [of "update_status now answer"] r(1) prod.case
    by (cases r) (use r(2) in simp_all)
qed

lemma status_turn_stays:
  fixes E :: "('c, 'st) env"
  assumes "env_ok E" and "engine_inv m en"
  shows "engine_inv m (fst (status_turn E now answer attempt en))"
  using status_turn_keeps [OF assms] uncounted_tick [OF assms(2)] assms(2) by (cases "uploads_counted en") auto

end
