(* ===== verification/Engine_Results.thy ===== *)
theory Engine_Results
  imports Engine_Inv
begin

section \<open>What the engine promises\<close>

text \<open>
  The runs of the engine: that they stop only on a cancel, a closed channel or one of the panics of \<open>turn_fault\<close>,
  that the pieces they have are on disk and verified, what a status tick publishes, and the sequence of the announces.
\<close>

subsection \<open>Runs\<close>

lemma keeps_Ok:
  assumes "keeps I a" and "never_fails a" and "I s"
  shows "I (fst (a s)) \<and> (\<exists>x. snd (a s) = Ok x)"
  using keepsD [OF assms(1,3)] assms(2) unfolding never_fails_def by (cases "snd (a s)") auto

lemma after_Ok:
  "I (fst (a s)) \<and> snd (a s) = Ok () \<Longrightarrow>
    I (fst (act_seq a (act_return x) s)) \<and> snd (act_seq a (act_return x) s) = Ok x"
  by (cases "a s") (simp add: act_seq_def act_bind_def act_return_def)

definition goes_on :: "'c engine_event \<Rightarrow> bool" where
  "goes_on ev = (case ev of OnCommand _ _ None \<Rightarrow> False | OnCommand _ _ (Some CancelTorrent) \<Rightarrow> False | _ \<Rightarrow> True)"

lemma engine_turn_inv:
  fixes E :: "('c, 'st) env"
  assumes "env_ok E" and "engine_inv m en" and "engine_ok en ev"
  shows "engine_inv m (fst (engine_turn E ev en)) \<and> snd (engine_turn E ev en) = Ok (goes_on ev)"
proof -
  have meta: "meta_ok m" using assms(2) by (auto simp: engine_inv_def inv_at_def swarm_inv_def)
  have unit: "engine_inv m (fst (a en)) \<and> snd (a en) = Ok ()" if "keeps (engine_inv m) a" and "never_fails a"
    for a :: "(('c, 'st) engine, unit) act"
    using keeps_Ok [OF that assms(2)] by simp
  have state: "engine_inv m (fst (act_update (set_state st) en)) \<and> snd (act_update (set_state st) en) = Ok ()" for st
    using assms(2) by (simp add: act_update_def set_state_def engine_inv_def)
  have stop: "engine_inv m (fst (act_ignore (announce_to_tracker now answer EvStopped) en)) \<and>
     snd (act_ignore (announce_to_tracker now answer EvStopped) en) = Ok ()" for now answer
    by (intro unit keeps_intros meta never_fails_intros)
  have turn: "engine_inv m (fst (act_read (\<lambda>en. on_swarm (loop_turn (E' en) e)) en)) \<and>
     snd (act_read (\<lambda>en. on_swarm (loop_turn (E' en) e)) en) = Ok ()" if "\<And>s :: ('c, 'st) swarm. turn_ok s e" "\<And>en. env_ok (E' en)" for E' e
    by (intro unit keeps_intros keeps_engine_turn that never_fails_intros loop_turn_never_fails)
  show ?thesis
  proof (cases ev)
    case (OnCommand now answer cmd)
    show ?thesis
    proof (cases cmd)
      case None
      show ?thesis unfolding OnCommand None engine_turn.simps goes_on_def by (simp, rule after_Ok, rule stop)
    next
      case (Some c)
      show ?thesis
      proof (cases c)
        case (InboundPeer addr conn)
        show ?thesis unfolding OnCommand Some InboundPeer engine_turn.simps goes_on_def
          by (simp only: engine_event.case option.case TorrentCommand.case, rule after_Ok, rule turn [of "Inbound addr conn" "masked E"]) (simp_all add: assms(1) turn_ok_def)
      qed (unfold OnCommand Some engine_turn.simps goes_on_def, (simp, rule after_Ok, rule state stop)+)
    qed
  next
    case (OnMessage now addr e)
    show ?thesis unfolding OnMessage engine_turn.simps goes_on_def engine_event.case
      by (rule after_Ok, rule peer_turn_keeps [OF assms(1,2) assms(3) [unfolded OnMessage]])
  next
    case (OnStatusTick now answer attempt)
    show ?thesis unfolding OnStatusTick engine_turn.simps goes_on_def engine_event.case
      by (rule after_Ok, rule status_turn_keeps [OF assms(1,2)]) (use assms(3) in \<open>simp add: engine_ok_def OnStatusTick\<close>)
  next
    case (OnChokeTick now rng)
    show ?thesis unfolding OnChokeTick engine_turn.simps goes_on_def engine_event.case
      by (rule after_Ok, rule turn [of "ChokeTick now rng" "\<lambda>_. E", unfolded act_read_def]) (simp_all add: assms(1) turn_ok_def)
  next
    case (OnStaleTick now)
    show ?thesis unfolding OnStaleTick engine_turn.simps goes_on_def engine_event.case
      by (rule after_Ok, rule turn [of "StaleTick now" "\<lambda>_. E", unfolded act_read_def]) (simp_all add: assms(1) turn_ok_def)
  qed
qed

text \<open>Every turn, whatever it is given: it can stop the loop by a panic, but only on a faulty input, and never fails.\<close>

lemma total_size_never_fails: "total_size i \<noteq> Err e"
proof -
  have "sum_lengths a fs \<noteq> Err e" for a fs
    by (induction fs arbitrary: a) (simp_all add: add_u64_def split: option.split result.split)
  then show ?thesis by (simp add: total_size_def split: Mode.split)
qed

lemma update_status_never_fails: "never_fails (update_status now answer)"
proof -
  have "total_size i \<noteq> Err e" "mul_u64 a b \<noteq> Err e" "sub_u64 a b \<noteq> Err e" for i e a b
    by (simp_all add: total_size_never_fails mul_u64_def sub_u64_def split: option.split)
  then show ?thesis
    unfolding update_status_def Let_def by (intro never_fails_intros)
qed

lemma turns_never_fail:
  fixes E :: "('c, 'st) env"
  shows "never_fails (peer_turn E now addr e)" and "never_fails (status_turn E now answer attempt)"
proof -
  have "never_fails (case super_event_hook addr e en of (en', blocked, haves) \<Rightarrow>
      act_seq (act_update (\<lambda>en. en\<lparr>en_super := en_super en'\<rparr>)) (on_swarm (loop_turn E (OnPeer now addr e blocked haves))))" for en :: "('c, 'st) engine"
    by (cases "super_event_hook addr e en") (simp only: prod.case, intro never_fails_intros loop_turn_never_fails)
  then show "never_fails (peer_turn E now addr e)"
    unfolding peer_turn_def Let_def by (intro never_fails_intros hooks_never_fail)
  show "never_fails (status_turn E now answer attempt)"
    unfolding status_turn_def announce_if_needed_def
    by (intro never_fails_intros update_status_never_fails hooks_never_fail loop_turn_never_fails)
qed

lemma returned_or_panicked:
  assumes "never_fails a"
  shows "fst (act_seq a (act_return b) en) = fst (a en) \<and>
    (snd (act_seq a (act_return b) en) = Ok b \<or> snd (act_seq a (act_return b) en) = Panic)"
  by (cases "a en"; cases "snd (a en)") (use assms in \<open>auto simp: never_fails_def act_seq_def act_bind_def act_return_def, metis snd_conv\<close>)

lemma engine_turn_total:
  fixes E :: "('c, 'st) env"
  assumes "env_ok E" and "engine_inv m en"
  shows "engine_inv m (fst (engine_turn E ev en)) \<and>
    (snd (engine_turn E ev en) = Ok (goes_on ev) \<or> snd (engine_turn E ev en) = Panic \<and> turn_fault en ev)"
proof (cases "turn_fault en ev")
  case False
  then show ?thesis using engine_turn_inv [OF assms, of ev] by (simp add: engine_ok_fault)
next
  case fault: True
  show ?thesis
  proof (cases ev)
    case (OnMessage now addr e)
    show ?thesis
      using returned_or_panicked [OF turns_never_fail(1) [of E now addr e], of True en] fault
        staysD [OF peer_turn_stays [OF assms(1)] assms(2), of now addr e]
      unfolding OnMessage engine_turn.simps goes_on_def engine_event.case by auto
  next
    case (OnStatusTick now answer attempt)
    show ?thesis
      using returned_or_panicked [OF turns_never_fail(2) [of E now answer attempt], of True en] fault
        status_turn_stays [OF assms, of now answer attempt]
      unfolding OnStatusTick engine_turn.simps goes_on_def engine_event.case by auto
  qed (use fault in \<open>simp_all add: turn_fault_def\<close>)
qed

text \<open>Runs: all the turns before the one that stops the loop.\<close>

inductive engine_run :: "('c, 'st) env \<Rightarrow> ('c, 'st) engine \<Rightarrow> ('c, 'st) engine \<Rightarrow> bool"
  for E :: "('c, 'st) env" and en0 :: "('c, 'st) engine" where
  engine_first: "engine_run E en0 (engine_start en0)"
| engine_next: "engine_run E en0 en \<Longrightarrow> engine_turn E ev en = (en', Ok True) \<Longrightarrow> engine_run E en0 en'"

lemma engine_run_inv:
  assumes "engine_run E en0 en" and "env_ok E" and "engine_inv m en0"
  shows "engine_inv m en"
  using assms(1)
proof (induction rule: engine_run.induct)
  case engine_first
  show ?case using assms(3) by (simp add: engine_start_def set_state_def engine_inv_def)
next
  case (engine_next en ev en')
  with engine_turn_total [OF assms(2), of m en ev] show ?case by simp
qed

text \<open>
  C3. The engine never fails and panics only in three known ways. From the well-formed state in which
  a torrent is activated, with a backend that does not panic, after any turns that went on, the next
  turn (a command, a peer event with the hooks of peer exchange and super seeding, a status tick with
  its announces, dialing and hooks, a choke or stale tick) keeps the invariant of the core and of the
  extensions, whatever its input. It returns no error: it says that the loop goes on, except on a
  cancel command or when the command channel is closed, which end the loop. Or it panics, which
  happens only for one of these inputs: an extension message whose payload makes the decoder
  overflow, a request that begins behind the end of a cached piece, or a status tick after the
  counter of uploaded bytes has wrapped.
\<close>

theorem engine_turn_sound:
  fixes E :: "('c, 'st) env"
  assumes "env_ok E" and "engine_inv m en0" and "engine_run E en0 en"
  shows "engine_inv m (fst (engine_turn E ev en)) \<and>
    (snd (engine_turn E ev en) = Ok (case ev of OnCommand _ _ cmd \<Rightarrow> cmd \<noteq> None \<and> cmd \<noteq> Some CancelTorrent | _ \<Rightarrow> True) \<or>
     snd (engine_turn E ev en) = Panic \<and>
       (case ev of
          OnMessage _ _ (Message (Extended _ data)) \<Rightarrow> decode data = Panic
        | OnMessage _ _ (Message (Request i b _)) \<Rightarrow> (\<exists>cached. map_of (sw_cache (en_swarm en)) i = Some cached \<and> length cached < unat b)
        | OnStatusTick _ _ _ \<Rightarrow> sw_total_uploaded (en_swarm en) < en_last_uploaded en
        | _ \<Rightarrow> False))"
proof -
  have "goes_on ev = (case ev of OnCommand _ _ cmd \<Rightarrow> cmd \<noteq> None \<and> cmd \<noteq> Some CancelTorrent | _ \<Rightarrow> True)"
    by (auto simp: goes_on_def split: engine_event.split option.split TorrentCommand.split)
  moreover have "(case map_of cache i of Some cached \<Rightarrow> length cached < unat b | None \<Rightarrow> False) \<longleftrightarrow>
      (\<exists>cached. map_of cache i = Some cached \<and> length cached < unat b)" for cache :: "(u32 \<times> bytes) list" and i and b :: u32
    by (simp split: option.split)
  ultimately show ?thesis
    using engine_turn_total [OF assms(1) engine_run_inv [OF assms(3,1,2)], of ev] by (simp only: turn_fault_def)
qed

text \<open>The state in which a torrent is activated.\<close>

lemma engine_new_inv:
  assumes "meta_ok m" and "pm_wf pm" and "num_pieces pm = info_num_pieces (info m)" and "pr_inv peers"
    and "0 < cf_piece_cache_size cf"
  shows "engine_inv m (engine_new cf m ih peer_id st pm peers super_seed has_tracker status now)"
  using assms
  by (simp add: engine_inv_def engine_new_def swarm_new_def inv_at_def swarm_inv_def upload_new_def pex_ltep_extensions_def
    UT_PEX_ID_def)

text \<open>The small torrent as an engine.\<close>

definition small_engine :: "(unit, unit) engine" where
  "small_engine = engine_new session_config_default small_meta [1] [2] () (piece_manager_new 3)
     ((peer_manager_new [] [] 5 10 3 60)\<lparr>connections := [(small_addr, ())]\<rparr>) True True (register_status [1] [] 3 12) 0"

lemma small_engine_inv: "engine_inv small_meta small_engine"
  unfolding small_engine_def
  by (rule engine_new_inv)
    (simp_all add: meta_ok_def small_meta_def total_size_def info_num_pieces_def piece_manager_new_def pm_wf_def
      pr_inv_def peer_manager_new_def uniq.inv_new Let_def session_config_default_def)

theorem engine_turn_sound_witness:
  "\<exists>en. engine_run small_env small_engine en \<and> ts_state (en_status en) = Paused \<and>
     (\<forall>answer attempt. snd (engine_turn small_env (OnStatusTick 5 answer attempt) en) = Ok True) \<and>
     (\<forall>answer. snd (engine_turn small_env (OnCommand 5 answer (Some CancelTorrent)) en) = Ok False)"
proof -
  let ?en = "set_state Paused (engine_start small_engine)"
  have run: "engine_run small_env small_engine ?en"
    by (rule engine_next [OF engine_first, where ev = "OnCommand 1 (\<lambda>_. Inl []) (Some Pause)"])
      (simp add: act_eval)
  have counted: "\<not> sw_total_uploaded (en_swarm ?en) < en_last_uploaded ?en"
    by (simp add: set_state_def engine_start_def small_engine_def engine_new_def swarm_new_def)
  note sound = engine_turn_sound [OF small_env_ok small_engine_inv run]
  have "snd (engine_turn small_env (OnStatusTick 5 answer attempt) ?en) = Ok True" for answer attempt
    using sound [of "OnStatusTick 5 answer attempt"] counted by simp
  moreover have "snd (engine_turn small_env (OnCommand 5 answer (Some CancelTorrent)) ?en) = Ok False" for answer
    using sound [of "OnCommand 5 answer (Some CancelTorrent)"] by simp
  ultimately show ?thesis using run by (intro exI [of _ ?en]) (simp add: set_state_def)
qed


subsection \<open>Pieces on disk, for the engine\<close>

definition en_core :: "('c, 'st) engine \<Rightarrow> Metainfo \<times> PieceManager \<times> 'st \<times> (u32 \<times> bytes) list" where
  "en_core en = core (en_swarm en)"

lemma leaves_en_core: "leaves core a \<Longrightarrow> leaves en_core (on_swarm a)"
  by (simp add: leaves_def en_core_def)

lemma core_emit [simp]: "core (emit e s) = core s"
  by (simp add: core_def)

lemma en_core_announce [leaves_intros]: "leaves en_core (announce_to_tracker now answer ev)"
proof -
  have "leaves en_core (act_update (announce_done now resp))" "leaves en_core (act_update (announce_failed now message))"
    "leaves en_core (act_update (\<lambda>en. en\<lparr>en_announces := en_announces en @ [req]\<rparr>))" for resp message req
    by (rule leaves_update, simp add: en_core_def announce_done_def announce_failed_def Let_def core_def)+
  then show ?thesis
    unfolding announce_to_tracker_def Let_def by (intro leaves_intros) (auto intro!: leaves_intros simp: en_core_def announce_done_def announce_failed_def Let_def split: sum.split)
qed

lemma core_emits: "core (foldl (\<lambda>s e. emit e s) s es) = core s"
  by (rule core_foldl) simp

lemma en_core_status [leaves_intros]: "leaves en_core (update_status now answer)"
  unfolding update_status_def Let_def
  by (intro leaves_intros) (simp_all add: en_core_def core_emits)

lemma en_core_if_needed [leaves_intros]: "leaves en_core (announce_if_needed now answer)"
  unfolding announce_if_needed_def by (intro leaves_intros) (simp add: en_core_def)

lemma en_core_hooks [leaves_intros]:
  "leaves en_core (pex_event_hook E now addr ev)" "leaves en_core (pex_tick_hook E now)" "leaves en_core super_tick_hook"
proof -
  show "leaves en_core (pex_event_hook E now addr ev)"
    using leaves_core_hook by (simp add: leaves_def en_core_def)
  have "leaves en_core (on_swarm (snd (pex_on_tick E now px)))" for px
    unfolding pex_on_tick_def snd_conv by (intro leaves_en_core leaves_intros)
  then show "leaves en_core (pex_tick_hook E now)"
    unfolding pex_tick_hook_def by (intro leaves_intros) (auto intro!: leaves_intros simp: en_core_def split: option.split)
  show "leaves en_core super_tick_hook"
    unfolding super_tick_hook_def
    by (intro leaves_intros) (auto intro!: leaves_intros simp: en_core_def split: option.split prod.split)
qed

context piece_store
begin

definition engine_sound :: "Metainfo \<Rightarrow> ('c, 'st) env \<Rightarrow> ('c, 'st) engine \<Rightarrow> bool" where
  "engine_sound m E en \<longleftrightarrow> sound_at m E (en_swarm en)"

lemma engine_sound_leaves: "leaves en_core a \<Longrightarrow> stays (engine_sound m E) a"
  unfolding engine_sound_def sound_at_core en_core_def [symmetric] by (rule stays_leaves)

lemma sound_masked: "sound_at m (masked E en) s = sound_at m E s"
  by (simp add: sound_at_def pieces_verified_def masked_def)

lemma engine_turn_stays:
  fixes E :: "('c, 'st) env"
  assumes "e_write E = put" and "fits m"
  shows "stays (engine_sound m E) (engine_turn E ev)"
proof -
  have turn: "stays (engine_sound m E) (on_swarm (loop_turn E e))" for e
    using turn_sound [OF assms, of e] by (simp add: stays_def engine_sound_def)
  have masked: "stays (engine_sound m E) (on_swarm (loop_turn (masked E en) e))" for e and en :: "('c, 'st) engine"
  proof -
    have "e_write (masked E en) = put" using assms(1) by (simp add: masked_def)
    from turn_sound [OF this assms(2), of e] show ?thesis by (simp add: stays_def engine_sound_def sound_masked)
  qed
  have update: "stays (engine_sound m E) (act_update f)" if "\<And>en. core (en_swarm (f en)) = core (en_swarm en)" for f :: "('c, 'st) engine \<Rightarrow> ('c, 'st) engine"
    by (intro engine_sound_leaves leaves_update) (simp add: en_core_def that)
  have stop: "stays (engine_sound m E) (act_seq (act_ignore (announce_to_tracker now answer e)) (act_return b))" for now answer e b
    by (intro engine_sound_leaves leaves_intros)
  show ?thesis
  proof (cases ev)
    case (OnCommand now answer cmd)
    show ?thesis
    proof (cases cmd)
      case None
      show ?thesis unfolding OnCommand None engine_turn.simps by (rule stop)
    next
      case (Some c)
      show ?thesis
      proof (cases c)
        case (InboundPeer addr conn)
        show ?thesis unfolding OnCommand Some InboundPeer engine_turn.simps
          by (intro stays_seq stays_read masked stays_return)
      next
        case CancelTorrent
        show ?thesis unfolding OnCommand Some CancelTorrent engine_turn.simps by (rule stop)
      qed (auto simp: OnCommand Some set_state_def intro!: stays_seq update stays_return)
    qed
  next
    case (OnMessage now addr e)
    show ?thesis unfolding OnMessage engine_turn.simps peer_turn_def
      by (intro stays_seq stays_read stays_return engine_sound_leaves [OF en_core_hooks(1)])
        (auto simp del: loop_turn.simps intro!: stays_seq update turn split: prod.split)
  next
    case (OnStatusTick now answer attempt)
    show ?thesis unfolding OnStatusTick engine_turn.simps status_turn_def
      by (intro stays_seq stays_read stays_return masked engine_sound_leaves leaves_intros)
  qed (auto simp del: loop_turn.simps intro!: stays_seq turn stays_return)
qed

lemma engine_run_sound:
  assumes "engine_run E en0 en" and "e_write E = put" and "fits m" and "engine_sound m E en0"
  shows "engine_sound m E en"
  using assms(1)
proof (induction rule: engine_run.induct)
  case engine_first
  show ?case using assms(4) by (simp add: engine_start_def set_state_def engine_sound_def)
next
  case (engine_next en ev en')
  with staysD [OF engine_turn_stays [OF assms(2,3)], of en ev] show ?case by simp
qed

end

text \<open>
  C1. What the client has is on disk and verified. In every state the engine reaches, by any sequence
  of commands, peer events, ticks, dial results and tracker answers, and whatever the peers and the
  extensions do, the files of the torrent keep their lengths, every piece whose bit is set (the
  pieces the client announces and stops downloading) is stored there with the digest of the torrent,
  and so is every piece in the cache that requests are served from.
\<close>

theorem engine_pieces_verified:
  fixes en0 en :: "('c, 'f fs) engine" and rs :: "rstring \<Rightarrow> 'f"
  assumes "file_storage_new (info (sw_meta (en_swarm en0))) dir = Ok st" and "pieces_ok st" and "st_num_pieces st \<le> 2 ^ 32"
    and "e_write E = write_piece rs st" and "storage_inv rs st (sw_storage (en_swarm en0))"
    and "pm_wf (sw_piece_mgr (en_swarm en0))" and "num_pieces (sw_piece_mgr (en_swarm en0)) = st_num_pieces st"
    and "pieces_verified E (stored_piece rs st) (en_swarm en0)" and "engine_run E en0 en"
  shows "storage_inv rs st (sw_storage (en_swarm en)) \<and> pieces_verified E (stored_piece rs st) (en_swarm en) \<and>
    sw_meta (en_swarm en) = sw_meta (en_swarm en0)"
proof -
  have "disk.engine_sound rs st (sw_meta (en_swarm en0)) E en0"
    using assms(2,5-8) unfolding disk.engine_sound_def disk.sound_at_def by (simp add: piece_len_at_storage(2) [OF assms(1)])
  from disk.engine_run_sound [OF assms(9,4) disk_fits [OF assms(1-3)] this] show ?thesis
    unfolding disk.engine_sound_def disk.sound_at_def by simp
qed


text \<open>The last block of the last piece arrives at the engine of the small torrent on disk.\<close>

definition disk_engine :: "(unit, bytes fs) engine" where
  "disk_engine = (engine_new session_config_default disk_meta [1] [2] [[47, 120] \<mapsto> replicate 12 0] (piece_manager_new 3)
     (peer_manager_new [] [] 5 10 3 60) True True (register_status [1] [] 3 12) 0)\<lparr>en_swarm := disk_swarm\<rparr>"

theorem engine_pieces_verified_witness:
  "\<exists>en. engine_run disk_env disk_engine en \<and> bitfield (sw_piece_mgr (en_swarm en)) ! 2 \<and>
     pieces_verified disk_env (stored_piece id disk_layout) (en_swarm en)"
proof -
  let ?msg = "Message (Piece 2 0 [8, 9])" and ?en = "engine_start disk_engine"
  let ?ev = "OnPeer 2 small_addr ?msg [] []"
  have en: "en_swarm ?en = disk_swarm" "en_super ?en = Some super_seed_new" "en_pex ?en = Some (pex_extension_new (from_secs 60))"
    by (simp_all add: engine_start_def set_state_def disk_engine_def engine_new_def session_config_default_def)
  have px: "pex_event_hook disk_env 2 small_addr ?msg ?en = (?en, Ok ())"
    by (simp add: pex_event_hook_def act_eval en on_swarm_def pex_message_event_def pex_extension_new_def)
  have ss: "super_event_hook small_addr ?msg ?en = (?en, [], [])"
    by (simp add: super_event_hook_def en)
  obtain s r where t: "loop_turn disk_env ?ev disk_swarm = (s, r)" by force
  have ok: "engine_ok ?en (OnMessage 2 small_addr ?msg)" by (simp add: engine_ok_def request_in_cache_def)
  let ?en' = "fst (engine_turn disk_env (OnMessage 2 small_addr ?msg) ?en)"
  have same: "disk_swarm\<lparr>sw_blocked := []\<rparr> = disk_swarm" by (simp add: disk_swarm_def)
  from last_block_turn obtain s1 where s1: "handle_peer_message disk_env 2 small_addr (Piece 2 0 [8, 9]) disk_swarm = (s1, Ok ())"
    "bitfield (sw_piece_mgr s1) = [False, False, True]" by blast
  have "s = fst (act_read (\<lambda>s. if missing_pieces (sw_piece_mgr s) \<noteq> [] then act_ignore (fill disk_env 2) else act_return ()) s1)"
    using t by (simp add: act_seq_update same) (simp add: act_seq_def act_bind_def act_return_def act_catch_def s1(1))
  also have "core \<dots> = core s1" by (rule leavesD) (intro leaves_intros)
  finally have bit: "bitfield (sw_piece_mgr s) ! 2" using s1(2) by (simp add: core_def)
  have inv: "engine_inv disk_meta disk_engine"
    using disk_swarm_inv
    by (simp add: engine_inv_def disk_engine_def engine_new_def inv_at_def disk_swarm_simps)
  have step: "engine_turn disk_env (OnMessage 2 small_addr ?msg) ?en = (?en', Ok True)"
    using engine_turn_inv [OF disk_env_ok engine_run_inv [OF engine_first disk_env_ok inv] ok] by (simp add: goes_on_def prod_eq_iff)
  have swarm: "en_swarm ?en' = s"
  proof -
    have "peer_turn disk_env 2 small_addr ?msg ?en = on_swarm (loop_turn disk_env ?ev) (?en\<lparr>en_super := en_super ?en\<rparr>)"
      unfolding peer_turn_def by (subst act_seq_Ok, rule px) (simp only: act_read_def ss Let_def prod.case act_seq_update)
    then have p: "en_swarm (fst (peer_turn disk_env 2 small_addr ?msg ?en)) = s"
      using t en(1) by (simp del: loop_turn.simps)
    have "fst (act_seq a (act_return True) en) = fst (a en)" for a :: "((unit, bytes fs) engine, unit) act" and en
      by (simp add: act_eval split: prod.split result.split)
    then show ?thesis using p by simp
  qed
  have run: "engine_run disk_env disk_engine ?en'" by (rule engine_next [OF engine_first step])
  have new: "file_storage_new (info (sw_meta (en_swarm disk_engine))) [47] = Ok disk_layout"
    by (simp add: disk_engine_def file_storage_new_def disk_swarm_simps disk_meta_simps disk_layout_def)
       (simp add: disk_meta_def path_push_def)
  have hyps: "pieces_ok disk_layout" "st_num_pieces disk_layout \<le> 2 ^ 32" "e_write disk_env = write_piece id disk_layout"
    "storage_inv id disk_layout (sw_storage (en_swarm disk_engine))" "pm_wf (sw_piece_mgr (en_swarm disk_engine))"
    "num_pieces (sw_piece_mgr (en_swarm disk_engine)) = st_num_pieces disk_layout"
    "pieces_verified disk_env (stored_piece id disk_layout) (en_swarm disk_engine)"
    by (simp_all add: disk_engine_def pieces_ok_def disk_layout_def disk_env_def disk_swarm_simps storage_inv_def store_files_def files_ok_def lens_def
      piece_manager_new_def pm_wf_def pieces_verified_def list_all_iff)
  from engine_pieces_verified [OF new hyps run] run bit swarm show ?thesis by (intro exI [of _ ?en']) simp
qed


subsection \<open>The published status\<close>

lemma announce_keeps_status:
  "leaves (\<lambda>en. (en_status en, en_last_downloaded en, en_last_uploaded en, en_announced_completed en, sw_piece_mgr (en_swarm en)))
     (announce_to_tracker now answer ev)"
  unfolding announce_to_tracker_def Let_def
  by (intro leaves_intros) (auto intro!: leaves_intros simp: announce_done_def announce_failed_def Let_def split: sum.split)

lemma snapshot_status:
  "ts_state (en_status (snapshot now d dr ur en)) = next_state (missing_pieces (sw_piece_mgr (en_swarm en)) = []) (ts_state (en_status en))"
  "ts_bitfield (en_status (snapshot now d dr ur en)) = bitfield (sw_piece_mgr (en_swarm en))"
  "ts_pieces_completed (en_status (snapshot now d dr ur en)) = of_nat (have_count (sw_piece_mgr (en_swarm en)))"
  "ts_total_downloaded (en_status (snapshot now d dr ur en)) = d"
  "en_announced_completed (snapshot now d dr ur en) = en_announced_completed en"
  "en_has_tracker (snapshot now d dr ur en) = en_has_tracker en"
  by (simp_all add: snapshot_def Let_def length_completed)

lemma emits_events: "sw_events (foldl (\<lambda>s e. emit e s) s es) = sw_events s @ es"
  by (induction es arbitrary: s) (simp_all add: emit_def)

text \<open>What an announce leaves: the request, and the events of its outcome.\<close>

lemma announce_effect:
  fixes en :: "('c, 'st) engine"
  assumes "announce_left (info (sw_meta (en_swarm en))) (sw_piece_mgr (en_swarm en)) = Ok left"
    and "announce_to_tracker now answer ev en = (en', r)"
  shows "r \<noteq> Panic"
    and "en_announces en' = en_announces en @ (if en_has_tracker en then [announce_request en ev left] else [])"
    and "\<exists>es. sw_events (en_swarm en') = sw_events (en_swarm en) @ es \<and> (es \<noteq> [] \<longrightarrow> en_has_tracker en)"
    and "en_status en' = en_status en" and "en_last_downloaded en' = en_last_downloaded en"
    and "sw_piece_mgr (en_swarm en') = sw_piece_mgr (en_swarm en)" and "en_announced_completed en' = en_announced_completed en"
    and "en_has_announced en' = en_has_announced en"
  using assms(2) unfolding announce_to_tracker_eq [OF assms(1)]
  by (auto simp: Let_def announce_done_def announce_failed_def emit_def split: if_splits sum.splits)

lemma update_status_after:
  fixes en :: "('c, 'st) engine"
  assumes "r1 \<noteq> Panic" and "announce_to_tracker now answer EvCompleted en = (en1, r1)"
  shows "act_seq (act_ignore (announce_to_tracker now answer EvCompleted)) (act_update (\<lambda>en. en\<lparr>en_announced_completed := True\<rparr>)) en =
    (en1\<lparr>en_announced_completed := True\<rparr>, Ok ())"
  using assms by (cases r1) (simp_all add: act_seq_def act_bind_def act_ignore_def act_catch_def act_update_def act_return_def)

text \<open>
  C8. What a status tick publishes. In any state of the engine the tick succeeds; the status has the
  bitfield of the piece manager, the number of set bits, and as downloaded the bytes of the complete
  pieces, at most the size of the torrent and never less than the tick before; the state becomes
  Seeding exactly when no piece is missing, and is kept otherwise. The events are the change of the
  state and, when it became Seeding, the end of the torrent, and then those of the tracker. The
  completion is announced, with the counters of this tick, exactly when no piece is missing and it
  was not announced before; afterwards it counts as announced.
\<close>

theorem status_tick_spec:
  fixes en :: "('c, 'st) engine"
  assumes "engine_inv m en" and "uploads_counted en" and "total_size (info m) = Ok tot"
    and "update_status now answer en = (en', r)"
  defines "pm \<equiv> sw_piece_mgr (en_swarm en)" and "ts \<equiv> en_status en'" and "old \<equiv> ts_state (en_status en)"
  defines "full \<equiv> missing_pieces (sw_piece_mgr (en_swarm en)) = []"
  shows "r = Ok () \<and> sw_piece_mgr (en_swarm en') = pm \<and> ts_bitfield ts = bitfield pm \<and>
    unat (ts_pieces_completed ts) = have_count pm \<and>
    unat (ts_total_downloaded ts) = min (have_count pm * unat (piece_length (info m))) (unat tot) \<and>
    en_last_downloaded en' = ts_total_downloaded ts \<and> en_last_downloaded en \<le> ts_total_downloaded ts \<and>
    ts_state ts = (if full then Seeding else old) \<and>
    (\<exists>es. sw_events (en_swarm en') = sw_events (en_swarm en) @
         (if full \<and> old \<noteq> Seeding then [StateChanged old Seeding, TorrentFinished] else []) @ es \<and>
       (es \<noteq> [] \<longrightarrow> full \<and> \<not> en_announced_completed en \<and> en_has_tracker en)) \<and>
    (\<exists>left. left \<le> tot \<and> map (\<lambda>q. (rq_event q, rq_downloaded q, rq_left q)) (en_announces en') =
       map (\<lambda>q. (rq_event q, rq_downloaded q, rq_left q)) (en_announces en) @
         (if full \<and> \<not> en_announced_completed en \<and> en_has_tracker en
          then [(EvCompleted, ts_total_downloaded ts, left)] else [])) \<and>
    (en_announced_completed en' \<longleftrightarrow> full \<or> en_announced_completed en)"
proof -
  let ?d = "min (of_nat (have_count pm * unat (piece_length (info m)))) tot :: u64"
  let ?en = "snapshot now ?d (?d - en_last_downloaded en) (sw_total_uploaded (en_swarm en) - en_last_uploaded en) en"
  note start = update_status_start [OF assms(1-3), folded pm_def full_def]
  have inv: "inv_at m (en_swarm en)" using assms(1) by (simp add: engine_inv_def)
  have pm': "sw_piece_mgr (en_swarm ?en) = pm" by (simp add: emits_same [where g = sw_piece_mgr] pm_def)
  have meta': "sw_meta (en_swarm ?en) = m" using inv by (simp add: emits_same [where g = sw_meta] inv_at_def)
  obtain left where left: "announce_left (info (sw_meta (en_swarm ?en))) (sw_piece_mgr (en_swarm ?en)) = Ok left" "left \<le> tot"
    using announce_left_Ok [OF assms(3)] meta' by metis
  note sent = announce_to_tracker_eq [OF left(1), of now answer EvCompleted]
  have count: "unat (of_nat (have_count pm) :: u32) = have_count pm"
  proof -
    have "have_count pm < 2 ^ 30"
      using inv have_count_le [of pm] unfolding pm_def by (auto simp: inv_at_def swarm_inv_def meta_ok_def Let_def)
    then show ?thesis by (simp add: unat_of_nat)
  qed
  have states: "state_events old (if full then Seeding else old) = (if full \<and> old \<noteq> Seeding then [StateChanged old Seeding, TorrentFinished] else [])"
    "next_state full old = (if full then Seeding else old)"
    by (simp_all add: state_events_def next_state_def)
  have f: "full = (missing_pieces pm = [])" by (simp only: full_def pm_def)
  have base: "ts_state (en_status ?en) = (if full then Seeding else old)" "ts_bitfield (en_status ?en) = bitfield pm"
    "unat (ts_pieces_completed (en_status ?en)) = have_count pm" "ts_total_downloaded (en_status ?en) = ?d"
    "en_announced_completed ?en = en_announced_completed en" "en_has_tracker ?en = en_has_tracker en" "en_announces ?en = en_announces en"
    "sw_events (en_swarm ?en) = sw_events (en_swarm en) @ (if full \<and> old \<noteq> Seeding then [StateChanged old Seeding, TorrentFinished] else [])"
    by (simp_all only: snapshot_status snapshot_simps emits_events states count flip: pm_def f old_def)
  obtain en1 r1 where 1: "announce_to_tracker now answer EvCompleted ?en = (en1, r1)" by force
  note eff = announce_effect [OF left(1) 1]
  have req: "(rq_event q, rq_downloaded q, rq_left q) = (EvCompleted, ?d, left)" if "q = announce_request ?en EvCompleted left" for q
    using that by (simp add: announce_request_def announce_request_new_def snapshot_def Let_def)
  show ?thesis
  proof (cases "full \<and> \<not> en_announced_completed en")
    case True
    have "(en', r) = (en1\<lparr>en_announced_completed := True\<rparr>, Ok ())"
      using assms(4) update_status_after [OF eff(1) 1] unfolding start(1) if_P [OF True] by simp
    then have en': "en' = en1\<lparr>en_announced_completed := True\<rparr>" "r = Ok ()" by simp_all
    obtain es where es: "sw_events (en_swarm en1) = sw_events (en_swarm ?en) @ es" "es \<noteq> [] \<longrightarrow> en_has_tracker ?en" using eff(3) by blast
    show ?thesis
      using True eff(2,4-7) base start(2,3) es pm' left(2) req
      by (intro conjI exI [of _ es] exI [of _ left]) (simp_all add: en' ts_def)
  next
    case False
    then have en': "en' = ?en" "r = Ok ()"
      using assms(4) unfolding start(1) if_not_P [OF False] by (simp_all add: act_return_def)
    show ?thesis
      using False base start(2,3) pm' left(2)
      by (intro conjI exI [of _ "[]"] exI [of _ left]) (auto simp: en' ts_def)
  qed
qed


text \<open>The small torrent with all its pieces.\<close>

definition full_engine :: "(unit, unit) engine" where
  "full_engine = engine_new session_config_default small_meta [1] [2] () ((piece_manager_new 3)\<lparr>bitfield := [True, True, True]\<rparr>)
     (peer_manager_new [] [] 5 10 3 60) False True (register_status [1] [] 3 12) 0"

lemma full_engine_inv: "engine_inv small_meta full_engine"
  unfolding full_engine_def
  by (rule engine_new_inv)
    (simp_all add: meta_ok_def small_meta_def total_size_def info_num_pieces_def piece_manager_new_def pm_wf_def
      pr_inv_def peer_manager_new_def uniq.inv_new Let_def session_config_default_def)

lemma full_engine_simps:
  "uploads_counted full_engine" "total_size (info small_meta) = Ok 12" "piece_length (info small_meta) = 5"
  "have_count (sw_piece_mgr (en_swarm full_engine)) = 3" "missing_pieces (sw_piece_mgr (en_swarm full_engine)) = []"
  "en_announced_completed full_engine = False" "en_has_tracker full_engine" "en_announces full_engine = []"
  "sw_events (en_swarm full_engine) = []" "ts_state (en_status full_engine) = Registered"
  by (simp_all add: uploads_counted_def full_engine_def engine_new_def swarm_new_def small_meta_def total_size_def have_count_def
    missing_pieces_def enumerate_eq_zip upt_rec register_status_def)

theorem status_tick_spec_witness:
  "\<exists>en' es left. update_status 5 (\<lambda>_. Inl []) full_engine = (en', Ok ()) \<and> ts_state (en_status en') = Seeding \<and>
     unat (ts_total_downloaded (en_status en')) = 12 \<and>
     sw_events (en_swarm en') = StateChanged Registered Seeding # TorrentFinished # es \<and>
     map (\<lambda>q. (rq_event q, rq_downloaded q, rq_left q)) (en_announces en') = [(EvCompleted, ts_total_downloaded (en_status en'), left)]"
proof -
  obtain en' r where run: "update_status 5 (\<lambda>_. Inl []) full_engine = (en', r)" by force
  have "unat (5 :: u64) = 5" "unat (12 :: u64) = 12" by simp_all
  with status_tick_spec [OF full_engine_inv full_engine_simps(1,2) run] run show ?thesis
    by (auto simp: full_engine_simps)
qed

subsection \<open>The sequence of announces\<close>

text \<open>
  What a tracker expects of a client: no plain update before it was started, one completion at most,
  and nothing after it stopped. The arguments say whether a start and a completion were seen.
\<close>

fun lifecycle :: "bool \<Rightarrow> bool \<Rightarrow> AnnounceEvent list \<Rightarrow> bool" where
  "lifecycle started done [] = True"
| "lifecycle started done (EvStarted # es) = lifecycle True done es"
| "lifecycle started done (EvCompleted # es) = (\<not> done \<and> lifecycle started True es)"
| "lifecycle started done (EvNone # es) = (started \<and> lifecycle started done es)"
| "lifecycle started done (EvStopped # es) = (es = [])"

lemma lifecycle_append:
  assumes "EvStopped \<notin> set es"
  shows "lifecycle started fin (es @ [e]) \<longleftrightarrow> lifecycle started fin es \<and>
    (e = EvNone \<longrightarrow> started \<or> EvStarted \<in> set es) \<and> (e = EvCompleted \<longrightarrow> \<not> fin \<and> EvCompleted \<notin> set es)"
  using assms
proof (induction es arbitrary: started fin)
  case Nil
  then show ?case by (cases e) simp_all
next
  case (Cons x es)
  then show ?case by (cases x) auto
qed

definition events_of :: "('c, 'st) engine \<Rightarrow> AnnounceEvent list" where
  "events_of en = map rq_event (en_announces en)"

definition announces_inv :: "('c, 'st) engine \<Rightarrow> bool" where
  "announces_inv en \<longleftrightarrow>
     lifecycle False False (events_of en) \<and> EvStopped \<notin> set (events_of en) \<and>
     (en_has_announced en \<longrightarrow> EvStarted \<in> set (events_of en)) \<and>
     (EvCompleted \<in> set (events_of en) \<longrightarrow> en_announced_completed en)"

definition announce_part :: "('c, 'st) engine \<Rightarrow> AnnounceRequest list \<times> bool \<times> bool \<times> bool" where
  "announce_part en = (en_announces en, en_has_announced en, en_announced_completed en, en_has_tracker en)"

lemma announces_inv_part: "announce_part en = announce_part en' \<Longrightarrow> announces_inv en = announces_inv en'"
  by (simp add: announce_part_def announces_inv_def events_of_def)

lemma part_on_swarm [leaves_intros]: "leaves announce_part (on_swarm a)"
  by (simp add: leaves_def announce_part_def)

lemma part_hooks [leaves_intros]:
  "leaves announce_part (pex_event_hook E now addr ev)" "leaves announce_part (pex_tick_hook E now)"
  "leaves announce_part super_tick_hook" "leaves announce_part (peer_turn E now addr ev)"
proof -
  show hook: "leaves announce_part (pex_event_hook E now addr ev)"
    unfolding pex_event_hook_def by (intro leaves_intros) (auto intro!: leaves_intros simp: announce_part_def split: option.split)
  show "leaves announce_part (pex_tick_hook E now)"
    unfolding pex_tick_hook_def by (intro leaves_intros) (auto intro!: leaves_intros simp: announce_part_def split: option.split)
  show "leaves announce_part super_tick_hook"
    unfolding super_tick_hook_def by (intro leaves_intros) (auto intro!: leaves_intros simp: announce_part_def split: option.split prod.split)
  show "leaves announce_part (peer_turn E now addr ev)"
    unfolding peer_turn_def
    by (intro leaves_intros hook) (auto simp del: loop_turn.simps intro!: leaves_intros simp: announce_part_def split: prod.split)
qed

lemma engine_left:
  fixes en :: "('c, 'st) engine"
  assumes "engine_inv m en"
  shows "\<exists>left. announce_left (info (sw_meta (en_swarm en))) (sw_piece_mgr (en_swarm en)) = Ok left"
proof -
  have "meta_ok m" "sw_meta (en_swarm en) = m" using assms by (auto simp: engine_inv_def inv_at_def swarm_inv_def)
  then obtain tot where "total_size (info (sw_meta (en_swarm en))) = Ok tot" by (auto simp: meta_ok_def)
  from announce_left_Ok [OF this] show ?thesis by blast
qed

lemma announce_events:
  fixes en :: "('c, 'st) engine"
  assumes "engine_inv m en" and "announce_to_tracker now answer ev en = (en', r)"
  shows "events_of en' = events_of en @ (if en_has_tracker en then [ev] else [])"
    and "en_has_announced en' = en_has_announced en" and "en_announced_completed en' = en_announced_completed en" and "r \<noteq> Panic"
proof -
  from engine_left [OF assms(1)] obtain left where
    l: "announce_left (info (sw_meta (en_swarm en))) (sw_piece_mgr (en_swarm en)) = Ok left" ..
  note eff = announce_effect [OF l assms(2)]
  show "events_of en' = events_of en @ (if en_has_tracker en then [ev] else [])"
    by (simp add: eff(2) events_of_def announce_request_def)
  show "en_has_announced en' = en_has_announced en" "en_announced_completed en' = en_announced_completed en" "r \<noteq> Panic"
    by (fact eff)+
qed


definition announces_ok :: "AnnounceEvent list \<Rightarrow> bool \<Rightarrow> bool \<Rightarrow> bool" where
  "announces_ok es started fin \<longleftrightarrow> lifecycle False False es \<and> EvStopped \<notin> set es \<and>
     (started \<longrightarrow> EvStarted \<in> set es) \<and> (EvCompleted \<in> set es \<longrightarrow> fin)"

lemma announces_inv_ok: "announces_inv en = announces_ok (events_of en) (en_has_announced en) (en_announced_completed en)"
  by (simp add: announces_inv_def announces_ok_def)

lemma announces_ok_completed: "announces_ok es started False \<Longrightarrow> announces_ok (es @ (if b then [EvCompleted] else [])) started True"
  by (auto simp: announces_ok_def lifecycle_append)

lemma announces_ok_update:
  "announces_ok es started fin \<Longrightarrow> announces_ok (es @ [if started then EvNone else EvStarted]) started' fin"
  by (cases started) (auto simp: announces_ok_def lifecycle_append)

lemma update_status_announces:
  fixes en :: "('c, 'st) engine"
  assumes "engine_inv m en" and "uploads_counted en" and "announces_inv en" and "update_status now answer en = (en', r)"
  shows "announces_inv en'"
proof -
  obtain tot where tot: "total_size (info m) = Ok tot"
    using assms(1) by (auto simp: engine_inv_def inv_at_def swarm_inv_def meta_ok_def)
  let ?d = "min (of_nat (have_count (sw_piece_mgr (en_swarm en)) * unat (piece_length (info m)))) tot :: u64"
  let ?en = "snapshot now ?d (?d - en_last_downloaded en) (sw_total_uploaded (en_swarm en) - en_last_uploaded en) en"
  note start = update_status_start [OF assms(1,2) tot]
  have inv: "engine_inv m ?en"
    by (rule snapshot_inv [OF assms(1)]) (simp_all only: start(2) min.cobounded1 min.cobounded2 tot result.inject)
  have part: "announce_part ?en = announce_part en" by (simp add: announce_part_def snapshot_def Let_def)
  have snap: "announces_inv ?en" using assms(3) announces_inv_part [OF part] by simp
  obtain en1 r1 where 1: "announce_to_tracker now answer EvCompleted ?en = (en1, r1)" by force
  note ev = announce_events [OF inv 1]
  show ?thesis
  proof (cases "missing_pieces (sw_piece_mgr (en_swarm en)) = [] \<and> \<not> en_announced_completed en")
    case True
    have "(en', r) = (en1\<lparr>en_announced_completed := True\<rparr>, Ok ())"
      using assms(4) update_status_after [OF ev(4) 1] unfolding start(1) if_P [OF True] by simp
    then have en': "events_of en' = events_of en1" "en_has_announced en' = en_has_announced en1" "en_announced_completed en'"
      by (simp_all add: events_of_def)
    have "announces_ok (events_of ?en) (en_has_announced ?en) False"
      using snap True unfolding announces_inv_ok by (simp only: snapshot_status(5))
    from announces_ok_completed [OF this, of "en_has_tracker ?en"] show ?thesis
      unfolding announces_inv_ok en'(1,2) ev(1,2) using en'(3) by simp
  next
    case False
    show ?thesis
      using assms(4) snap unfolding start(1) if_not_P [OF False] by (simp add: act_return_def)
  qed
qed

lemma announce_if_due:
  fixes en :: "('c, 'st) engine"
  assumes "en_has_tracker en \<and> announce_due now en"
    and "announce_to_tracker now answer (if en_has_announced en then EvNone else EvStarted) en = (en1, r1)"
  shows "announce_if_needed now answer en =
    (case r1 of Ok _ \<Rightarrow> (en1\<lparr>en_has_announced := True\<rparr>, Ok ()) | Err e \<Rightarrow> (en1, Ok ()) | Panic \<Rightarrow> (en1, Panic))"
proof -
  have "announce_if_needed now answer en =
      act_ignore (act_seq (announce_to_tracker now answer (if en_has_announced en then EvNone else EvStarted))
        (act_update (\<lambda>en. en\<lparr>en_has_announced := True\<rparr>))) en"
    using assms(1) by (simp only: announce_if_needed_def act_read_def) simp
  then show ?thesis
    unfolding act_ignore_def act_catch_def act_seq_def act_bind_def assms(2) act_update_def act_return_def by (cases r1) simp_all
qed

lemma announce_if_needed_announces:
  fixes en :: "('c, 'st) engine"
  assumes "engine_inv m en" and "announces_inv en" and "announce_if_needed now answer en = (en', r)"
  shows "announces_inv en'"
proof (cases "en_has_tracker en \<and> announce_due now en")
  case False
  then have "en' = en" using assms(3) by (auto simp: announce_if_needed_def act_read_def act_return_def split: if_splits)
  with assms(2) show ?thesis by simp
next
  case True
  let ?ev = "if en_has_announced en then EvNone else EvStarted"
  obtain en1 r1 where 1: "announce_to_tracker now answer ?ev en = (en1, r1)" by force
  note ev = announce_events [OF assms(1) 1]
  have "en' = (if r1 = Ok () then en1\<lparr>en_has_announced := True\<rparr> else en1)"
    using announce_if_due [OF True 1] assms(3) by (cases r1) auto
  moreover have part: "events_of (en1\<lparr>en_has_announced := True\<rparr>) = events_of en1" by (simp add: events_of_def)
  have sent: "events_of en1 = events_of en @ [?ev]" using ev(1) True by simp
  have ok: "announces_ok (events_of en1) b (en_announced_completed en1)" for b
    unfolding sent ev(3) by (rule announces_ok_update) (rule assms(2) [unfolded announces_inv_ok])
  moreover have "announces_inv (en1\<lparr>en_has_announced := True\<rparr>)"
    unfolding announces_inv_ok part using ok by simp
  ultimately show ?thesis using ok unfolding announces_inv_ok by simp
qed

lemma announces_stay: "leaves announce_part a \<Longrightarrow> announces_inv en \<Longrightarrow> announces_inv (fst (a en))"
  using announces_inv_part by (metis leavesD)

lemma status_turn_announces:
  fixes E :: "('c, 'st) env"
  assumes "env_ok E" and "engine_inv m en" and "announces_inv en"
  shows "announces_inv (fst (status_turn E now answer attempt en))"
proof (cases "uploads_counted en")
  case False
  then show ?thesis using uncounted_tick [OF assms(2)] assms(3) by simp
next
  case counted: True
  obtain en1 where 1: "update_status now answer en = (en1, Ok ())" "engine_inv m en1"
    using update_status_keeps [OF assms(2) counted] by (metis prod.collapse)
  obtain en2 r2 where 2: "announce_if_needed now answer en1 = (en2, r2)" by force
  have "announces_inv en2"
    by (rule announce_if_needed_announces [OF 1(2) update_status_announces [OF assms(2) counted assms(3) 1(1)] 2])
  moreover have "leaves announce_part (act_seq (act_read (\<lambda>en. on_swarm (loop_turn (masked E en) (StatusTick now now attempt))))
     (act_seq (pex_tick_hook E now) super_tick_hook))" (is "leaves _ ?rest")
    by (intro leaves_intros)
  ultimately have rest: "announces_inv (fst (?rest en2))" by (rule announces_stay [rotated])
  have "status_turn E now answer attempt en = act_seq (announce_if_needed now answer) ?rest en1"
    unfolding status_turn_def by (rule act_seq_Ok, rule 1(1))
  also have "\<dots> = (case r2 of Ok _ \<Rightarrow> ?rest en2 | Err e \<Rightarrow> (en2, Err e) | Panic \<Rightarrow> (en2, Panic))"
    by (simp only: act_seq_def act_bind_def 2 prod.case)
  finally show ?thesis using rest \<open>announces_inv en2\<close> by (cases r2) simp_all
qed

lemma engine_turn_announces:
  fixes E :: "('c, 'st) env"
  assumes "env_ok E" and "engine_inv m en" and "announces_inv en"
  shows "goes_on ev \<longrightarrow> announces_inv (fst (engine_turn E ev en))"
    and "\<not> goes_on ev \<longrightarrow> events_of (fst (engine_turn E ev en)) = events_of en @ (if en_has_tracker en then [EvStopped] else [])"
proof -
  have fst_seq: "fst (act_seq a (act_return b) en) = fst (a en)" for a :: "(('c, 'st) engine, unit) act" and b :: bool
    by (simp add: act_seq_def act_bind_def act_return_def split: prod.split result.split)
  have stop: "events_of (fst (act_ignore (announce_to_tracker now answer EvStopped) en)) =
      events_of en @ (if en_has_tracker en then [EvStopped] else [])" for now answer
  proof -
    obtain en1 r1 where 1: "announce_to_tracker now answer EvStopped en = (en1, r1)" by force
    have "fst (act_ignore (announce_to_tracker now answer EvStopped) en) = en1"
      using 1 by (cases r1) (simp_all add: act_ignore_def act_catch_def act_return_def)
    then show ?thesis
      using announce_events(1) [OF assms(2) 1] by simp
  qed
  have state: "announces_inv (fst (act_update (set_state st) en))" for st
    by (rule announces_stay [OF _ assms(3)]) (intro leaves_intros, simp add: announce_part_def set_state_def)
  have part: "announces_inv (fst (a en))" if "leaves announce_part a" for a :: "(('c, 'st) engine, unit) act"
    by (rule announces_stay [OF that assms(3)])
  have "if goes_on ev then announces_inv (fst (engine_turn E ev en)) 
    else events_of (fst (engine_turn E ev en)) = events_of en @ (if en_has_tracker en then [EvStopped] else [])"
  proof (cases ev)
    case (OnCommand now answer cmd)
    show ?thesis
    proof (cases cmd)
      case None
      then show ?thesis using stop by (simp add: OnCommand goes_on_def fst_seq)
    next
      case (Some c)
      then show ?thesis
        using stop state part
        by (cases c) (auto simp: OnCommand goes_on_def fst_seq simp del: loop_turn.simps intro!: part leaves_intros)
    qed
  next
    case (OnStatusTick now answer attempt)
    then show ?thesis
      using status_turn_announces [OF assms(1,2,3)] by (simp add: goes_on_def fst_seq)
  next
    case (OnMessage now addr e)
    show ?thesis unfolding OnMessage engine_turn.simps goes_on_def engine_event.case if_True fst_seq
      by (rule part [OF part_hooks(4)])
  next
    case (OnChokeTick now rng)
    show ?thesis unfolding OnChokeTick engine_turn.simps goes_on_def engine_event.case if_True fst_seq
      by (rule part [OF part_on_swarm])
  next
    case (OnStaleTick now)
    show ?thesis unfolding OnStaleTick engine_turn.simps goes_on_def engine_event.case if_True fst_seq
      by (rule part [OF part_on_swarm])
  qed
  then show "goes_on ev \<longrightarrow> announces_inv (fst (engine_turn E ev en))"
    "\<not> goes_on ev \<longrightarrow> events_of (fst (engine_turn E ev en)) = events_of en @ (if en_has_tracker en then [EvStopped] else [])"
    by (simp_all split: if_splits)
qed

lemma engine_run_announces:
  assumes "engine_run E en0 en" and "env_ok E" and "engine_inv m en0" and "announces_inv en0"
  shows "announces_inv en"
  using assms(1)
proof (induction rule: engine_run.induct)
  case engine_first
  have "announce_part (engine_start en0) = announce_part en0" by (simp add: announce_part_def engine_start_def set_state_def)
  with assms(4) show ?case using announces_inv_part by blast
next
  case (engine_next en ev en')
  have inv: "engine_inv m en" by (rule engine_run_inv [OF engine_next.hyps(1) assms(2,3)])
  have "goes_on ev" using engine_turn_total [OF assms(2) inv, of ev] engine_next.hyps(2) by simp
  with engine_turn_announces(1) [OF assms(2) inv engine_next.IH, of ev] engine_next.hyps(2) show ?case by simp
qed

text \<open>
  C9. The life cycle a tracker sees. For a torrent activated with any configuration, whatever happens
  to it and whatever the tracker answers, the sequence of its announces, the last turn included, has
  no plain update before it was started, announces the completion at most once, and has nothing
  after the announce that it stopped. That announce is made by no turn that goes on, and by every turn
  that ends the loop (a cancel, or the end of the command channel), when the torrent has a tracker.
\<close>

theorem announce_lifecycle:
  fixes E :: "('c, 'st) env" and ev :: "'c engine_event"
  assumes "env_ok E" and "engine_inv m en0" and "en_announces en0 = []" and "\<not> en_has_announced en0"
    and "engine_run E en0 en"
  defines "before \<equiv> map rq_event (en_announces en)" and "after \<equiv> map rq_event (en_announces (fst (engine_turn E ev en)))"
  shows "lifecycle False False after \<and>
    (if case ev of OnCommand _ _ cmd \<Rightarrow> cmd = None \<or> cmd = Some CancelTorrent | _ \<Rightarrow> False
     then after = before @ (if en_has_tracker en then [EvStopped] else []) else EvStopped \<notin> set after)"
proof -
  have start: "announces_inv en0" using assms(3,4) by (simp add: announces_inv_def events_of_def)
  have inv: "engine_inv m en" by (rule engine_run_inv [OF assms(5,1,2)])
  have ann: "announces_inv en" by (rule engine_run_announces [OF assms(5,1,2) start])
  have stop: "(case ev of OnCommand _ _ cmd \<Rightarrow> cmd = None \<or> cmd = Some CancelTorrent | _ \<Rightarrow> False) \<longleftrightarrow> \<not> goes_on ev"
    by (auto simp: goes_on_def split: engine_event.split option.split TorrentCommand.split)
  note turn = engine_turn_announces [OF assms(1) inv ann, of ev, unfolded events_of_def, folded before_def after_def]
  show ?thesis
  proof (cases "goes_on ev")
    case True
    then have "announces_inv (fst (engine_turn E ev en))" using turn(1) by blast
    then show ?thesis unfolding stop using True by (simp add: announces_inv_def events_of_def after_def)
  next
    case False
    have "lifecycle False False before" "EvStopped \<notin> set before" using ann by (simp_all add: announces_inv_def events_of_def before_def)
    then show ?thesis unfolding stop using False turn(2) by (simp add: lifecycle_append)
  qed
qed

text \<open>A tick completes the small torrent and starts it at the tracker, whose interval is zero; then it is cancelled.\<close>

definition zero_response :: AnnounceResponse where
  "zero_response = \<lparr>ar_interval = 0, ar_complete = 0, ar_incomplete = 0, ar_peers = [], ar_warning_message = None,
     ar_tracker_id = None, ar_min_interval = Some 0\<rparr>"

lemma full_tick_events:
  fixes E :: "(unit, unit) env"
  defines "en \<equiv> engine_start full_engine" and "answer \<equiv> \<lambda>_ :: AnnounceRequest. Inr zero_response :: rstring + AnnounceResponse"
  shows "events_of (fst (status_turn E 5 answer attempt en)) = [EvCompleted, EvStarted] \<and>
    en_has_tracker (fst (status_turn E 5 answer attempt en))"
proof -
  have inv: "engine_inv small_meta en" unfolding en_def by (rule engine_run_inv [OF engine_first small_env_ok full_engine_inv])
  have same: "uploads_counted en" "missing_pieces (sw_piece_mgr (en_swarm en)) = []" "\<not> en_announced_completed en"
    "en_has_tracker en" "\<not> en_has_announced en" "events_of en = []"
    using full_engine_simps(1,5-8)
    by (simp_all add: en_def engine_start_def set_state_def uploads_counted_def full_engine_def engine_new_def events_of_def)
  define d :: u64 where "d = min (of_nat (have_count (sw_piece_mgr (en_swarm en)) * unat (piece_length (info small_meta)))) 12"
  define dr where "dr = d - en_last_downloaded en"
  define ur where "ur = sw_total_uploaded (en_swarm en) - en_last_uploaded en"
  note start = update_status_start [OF inv same(1) full_engine_simps(2), folded d_def, folded dr_def ur_def]
  have u: "update_status 5 answer en = act_seq (act_ignore (announce_to_tracker 5 answer EvCompleted))
      (act_update (\<lambda>en. en\<lparr>en_announced_completed := True\<rparr>)) (snapshot 5 d dr ur en)"
    unfolding start(1) using same(2,3) by simp
  have snap: "engine_inv small_meta (snapshot 5 d dr ur en)"
    by (rule snapshot_inv [OF inv]) (simp_all only: start(2) min.cobounded1 full_engine_simps(2) result.inject, simp add: d_def)
  let ?sn = "snapshot 5 d dr ur en"
  obtain left where left: "announce_left (info (sw_meta (en_swarm ?sn))) (sw_piece_mgr (en_swarm ?sn)) = Ok left"
    using engine_left [OF snap] by blast
  have sn: "en_has_tracker ?sn" "\<not> en_has_announced ?sn" "events_of ?sn = []"
    using same(4-6) by (simp_all add: snapshot_def Let_def events_of_def)
  define en1 where "en1 = (announce_done 5 zero_response (?sn\<lparr>en_announces := en_announces ?sn @ [announce_request ?sn EvCompleted left]\<rparr>))
    \<lparr>en_announced_completed := True\<rparr>"
  have u1: "update_status 5 answer en = (en1, Ok ())"
    unfolding u en1_def
    by (rule update_status_after [where ?r1.0 = "Ok ()"]) (simp_all add: announce_to_tracker_eq [OF left] Let_def sn(1) answer_def)
  have inv1: "engine_inv small_meta en1" using update_status_keeps [OF inv same(1), of 5 answer] u1 by simp
  have en1: "en_has_tracker en1" "\<not> en_has_announced en1" "events_of en1 = [EvCompleted]" "announce_due 5 en1"
    using sn by (simp_all add: en1_def announce_done_def Let_def events_of_def announce_request_def announce_due_def zero_response_def from_secs_def)
  obtain left1 where left1: "announce_left (info (sw_meta (en_swarm en1))) (sw_piece_mgr (en_swarm en1)) = Ok left1"
    using engine_left [OF inv1] by blast
  let ?req = "announce_request en1 EvStarted left1"
  define en2 where "en2 = announce_done 5 zero_response (en1\<lparr>en_announces := en_announces en1 @ [?req]\<rparr>)"
  have a: "announce_to_tracker 5 answer EvStarted en1 = (en2, Ok ())"
    unfolding announce_to_tracker_eq [OF left1] en2_def using en1(1) by (simp add: answer_def Let_def)
  have t2: "en_has_tracker en2" using en1(1) by (simp add: en2_def announce_done_def Let_def)
  let ?en2 = "en2\<lparr>en_has_announced := True\<rparr>"
  have n: "announce_if_needed 5 answer en1 = (?en2, Ok ())"
    using announce_if_due [of en1 5 answer en2 "Ok ()"] a en1(1,2,4) by simp
  have e2: "events_of ?en2 = [EvCompleted, EvStarted]" using announce_events(1) [OF inv1 a] en1(1,3) by (simp add: events_of_def)
  let ?rest = "act_seq (act_read (\<lambda>en. on_swarm (loop_turn (masked E en) (StatusTick 5 5 attempt)))) (act_seq (pex_tick_hook E 5) super_tick_hook)"
  have "leaves announce_part ?rest" by (intro leaves_intros)
  then have "announce_part (fst (?rest ?en2)) = announce_part ?en2" by (rule leavesD)
  moreover have "status_turn E 5 answer attempt en = ?rest ?en2"
    unfolding status_turn_def by (subst act_seq_Ok, rule u1) (rule act_seq_Ok, rule n)
  ultimately show ?thesis using e2 t2 by (simp only: announce_part_def prod.inject events_of_def) simp
qed

theorem announce_lifecycle_witness:
  "\<exists>en. engine_run small_env full_engine en \<and> map rq_event (en_announces en) = [EvCompleted, EvStarted] \<and>
     map rq_event (en_announces (fst (engine_turn small_env (OnCommand 9 (\<lambda>_. Inl []) (Some CancelTorrent)) en))) =
       [EvCompleted, EvStarted, EvStopped] \<and> lifecycle False False [EvCompleted, EvStarted, EvStopped]"
proof -
  let ?ev = "OnStatusTick 5 (\<lambda>_. Inr zero_response) (\<lambda>_. []) :: unit engine_event"
  let ?en = "fst (engine_turn small_env ?ev (engine_start full_engine))"
  have none: "en_announces full_engine = []" "\<not> en_has_announced full_engine" by (simp_all add: full_engine_def engine_new_def)
  have counted: "\<not> turn_fault (engine_start full_engine) ?ev"
    by (simp add: turn_fault_def set_state_def engine_start_def full_engine_def engine_new_def swarm_new_def)
  have "snd (engine_turn small_env ?ev (engine_start full_engine)) = Ok True"
    using engine_turn_total [OF small_env_ok engine_run_inv [OF engine_first small_env_ok full_engine_inv], of ?ev] counted
    by (simp add: goes_on_def)
  then have run: "engine_run small_env full_engine ?en"
    by (intro engine_next [OF engine_first, where ev = ?ev]) (simp add: prod_eq_iff)
  have "?en = fst (status_turn small_env 5 (\<lambda>_. Inr zero_response) (\<lambda>_. []) (engine_start full_engine))"
    by (simp add: act_seq_def act_bind_def act_return_def split: prod.split result.split)
  then have "map rq_event (en_announces ?en) = [EvCompleted, EvStarted]" "en_has_tracker ?en"
    using full_tick_events by (simp_all only: events_of_def [symmetric])
  with run announce_lifecycle [OF small_env_ok full_engine_inv none run, of "OnCommand 9 (\<lambda>_. Inl []) (Some CancelTorrent)"]
  show ?thesis by (intro exI [of _ ?en]) (simp del: engine_turn.simps)
qed

end
