(* ===== verification/Utp_Conn.thy ===== *)
theory Utp_Conn
  imports Utp Congestion Effects Net_Addr
begin

section \<open>uTP connections\<close>

text \<open>
  \<open>peer/utp/connection.rs\<close>: the state machine of one connection, and the dispatch of datagrams to
  connections in \<open>peer/utp/socket.rs\<close>. Instants count microseconds; the instant and the clock are
  arguments of an operation, and \<open>sock\<close> says whether the socket takes a datagram. What was handed to
  the socket is recorded. A \<open>BTreeMap\<close> is an association list sorted by its keys.
\<close>

subsection \<open>Sorted maps and chunks\<close>

fun bt_insert :: "'k::linorder \<Rightarrow> 'v \<Rightarrow> ('k \<times> 'v) list \<Rightarrow> ('k \<times> 'v) list" where
  "bt_insert k v [] = [(k, v)]"
| "bt_insert k v ((k', v') # xs) =
     (if k < k' then (k, v) # (k', v') # xs else if k = k' then (k, v) # xs else (k', v') # bt_insert k v xs)"

definition bt_remove :: "'k \<Rightarrow> ('k \<times> 'v) list \<Rightarrow> ('k \<times> 'v) list" where
  "bt_remove k xs = filter (\<lambda>(k', _). k' \<noteq> k) xs"

definition bt_sorted :: "('k::linorder \<times> 'v) list \<Rightarrow> bool" where
  "bt_sorted xs \<longleftrightarrow> sorted_wrt (<) (map fst xs)"

function chunks :: "nat \<Rightarrow> 'a list \<Rightarrow> 'a list list" where
  "chunks n xs = (if n = 0 \<or> xs = [] then [] else take n xs # chunks n (drop n xs))"
  by pat_completeness auto
termination by (relation "measure (\<lambda>(n, xs). length xs)") auto

declare chunks.simps [simp del]

subsection \<open>State\<close>

definition MAX_RETRANSMIT :: u32 where "MAX_RETRANSMIT = 10"

definition MAX_READY_BYTES :: nat where "MAX_READY_BYTES = 2097152"

record SentPacket =
  sp_data :: bytes
  sp_seq_nr :: u16
  sp_send_time :: int
  sp_retransmit_count :: u32
  sp_rtt_measurable :: bool

record UtpIncoming =
  in_header :: UtpHeader
  in_payload :: bytes
  in_src :: SocketAddr

datatype ConnState = SynSent | SynRecv | Established | FinSent | FinRecv | Closed

record UtpConnection =
  uc_remote_addr :: SocketAddr
  uc_conn_id_send :: u16
  uc_conn_id_recv :: u16
  uc_state :: ConnState
  uc_seq_nr :: u16
  uc_ack_nr :: u16
  uc_eof_pkt :: "u16 option"
  uc_cc :: UtpCongestionControl
  uc_send_buffer :: "(u16 \<times> SentPacket) list"
  uc_recv_buffer :: "(u16 \<times> bytes) list"
  uc_ready_data :: bytes
  uc_last_activity :: int
  uc_out :: "(SocketAddr \<times> bytes) list"

text \<open>The clock of an operation: the instant, and the time of day in microseconds as \<open>u32\<close>.\<close>

record clock =
  ck_now :: int
  ck_time :: u32

subsection \<open>Sending\<close>

definition utp_datagram :: "UtpConnection \<Rightarrow> clock \<Rightarrow> UtpType \<Rightarrow> u16 \<Rightarrow> u16 \<Rightarrow> bytes \<Rightarrow> bytes" where
  "utp_datagram c ck t seq ack payload =
     utp_header_to_bytes \<lparr>uh_type = t, uh_version = 1, uh_extension = 0, uh_connection_id = uc_conn_id_send c,
       uh_timestamp = ck_time ck, uh_timestamp_diff = cc_reply_micro (uc_cc c), uh_wnd_size = 1000000,
       uh_seq_nr = seq, uh_ack_nr = ack\<rparr> @ payload"

definition sock_send :: "(bytes \<Rightarrow> bool) \<Rightarrow> bytes \<Rightarrow> (UtpConnection, unit) act" where
  "sock_send sock packet = act_read (\<lambda>c.
     if sock packet then act_update (\<lambda>c. c\<lparr>uc_out := uc_out c @ [(uc_remote_addr c, packet)]\<rparr>)
     else act_lift (Err PeerUtpConnectionFailed))"

definition send_raw :: "(bytes \<Rightarrow> bool) \<Rightarrow> clock \<Rightarrow> UtpType \<Rightarrow> u16 \<Rightarrow> u16 \<Rightarrow> bytes \<Rightarrow> (UtpConnection, unit) act" where
  "send_raw sock ck t seq ack payload = act_read (\<lambda>c.
     let packet = utp_datagram c ck t seq ack payload in
     act_seq (act_update (\<lambda>c. c\<lparr>uc_cc := add_in_flight (of_nat (length packet)) (uc_cc c),
         uc_send_buffer := bt_insert seq
           \<lparr>sp_data = packet, sp_seq_nr = seq, sp_send_time = ck_now ck, sp_retransmit_count = 0, sp_rtt_measurable = (t \<noteq> StSyn)\<rparr>
           (uc_send_buffer c)\<rparr>))
     (act_seq (sock_send sock packet)
       (act_update (\<lambda>c. c\<lparr>uc_last_activity := ck_now ck\<rparr>))))"

definition send_packet :: "(bytes \<Rightarrow> bool) \<Rightarrow> clock \<Rightarrow> UtpType \<Rightarrow> bytes \<Rightarrow> (UtpConnection, unit) act" where
  "send_packet sock ck t payload = act_read (\<lambda>c.
     act_seq (if increments_seq_nr t then act_update (\<lambda>c. c\<lparr>uc_seq_nr := uc_seq_nr c + 1\<rparr>) else act_return ())
       (send_raw sock ck t (uc_seq_nr c) (uc_ack_nr c) payload))"

definition connection_new :: "SocketAddr \<Rightarrow> u16 \<Rightarrow> u16 \<Rightarrow> ConnState \<Rightarrow> u16 \<Rightarrow> u16 \<Rightarrow> int \<Rightarrow> UtpConnection" where
  "connection_new addr id_send id_recv st seq ack now =
     \<lparr>uc_remote_addr = addr, uc_conn_id_send = id_send, uc_conn_id_recv = id_recv, uc_state = st, uc_seq_nr = seq,
      uc_ack_nr = ack, uc_eof_pkt = None, uc_cc = cc_new, uc_send_buffer = [], uc_recv_buffer = [], uc_ready_data = [],
      uc_last_activity = now, uc_out = []\<rparr>"

text \<open>The two ways a connection starts; \<open>i\<close> and \<open>seq\<close> are random.\<close>

definition utp_connect :: "(bytes \<Rightarrow> bool) \<Rightarrow> clock \<Rightarrow> SocketAddr \<Rightarrow> u16 \<Rightarrow> UtpConnection \<times> unit result" where
  "utp_connect sock ck addr i = send_packet sock ck StSyn [] (connection_new addr (i + 1) i SynSent 2 0 (ck_now ck))"

definition utp_accept :: "clock \<Rightarrow> UtpHeader \<Rightarrow> SocketAddr \<Rightarrow> u16 \<Rightarrow> UtpConnection" where
  "utp_accept ck syn addr seq =
     connection_new addr (uh_connection_id syn + 1) (uh_connection_id syn) SynRecv seq (uh_seq_nr syn) (ck_now ck)"

definition send_state_response :: "(bytes \<Rightarrow> bool) \<Rightarrow> clock \<Rightarrow> (UtpConnection, unit) act" where
  "send_state_response sock ck = act_read (\<lambda>c. send_raw sock ck StState (uc_seq_nr c) (uc_ack_nr c) [])"

subsection \<open>Receiving\<close>

definition acked_by :: "u16 \<Rightarrow> u16 \<Rightarrow> bool" where
  "acked_by ack seq \<longleftrightarrow> seq - ack = 0 \<or> 0x8000 < seq - ack"

definition ack_one :: "int \<Rightarrow> u16 \<Rightarrow> UtpConnection \<Rightarrow> UtpConnection result" where
  "ack_one now seq c =
     (case map_of (uc_send_buffer c) seq of
        None \<Rightarrow> Ok c
      | Some pkt \<Rightarrow>
          and_then (if sp_rtt_measurable pkt then update_rtt (of_int ((now - sp_send_time pkt) div 1000)) (uc_cc c) else Ok (uc_cc c)) (\<lambda>cc.
            Ok (c\<lparr>uc_send_buffer := bt_remove seq (uc_send_buffer c),
                  uc_cc := remove_in_flight (of_nat (length (sp_data pkt))) cc\<rparr>)))"

fun ack_each :: "int \<Rightarrow> u16 list \<Rightarrow> UtpConnection \<Rightarrow> UtpConnection result" where
  "ack_each now [] c = Ok c"
| "ack_each now (seq # seqs) c = and_then (ack_one now seq c) (ack_each now seqs)"

text \<open>A selective acknowledgement changes nothing.\<close>

definition handle_ack :: "int \<Rightarrow> UtpHeader \<Rightarrow> UtpConnection \<Rightarrow> UtpConnection result" where
  "handle_ack now header c =
     and_then (ack_each now (filter (acked_by (uh_ack_nr header)) (map fst (uc_send_buffer c))) c) (\<lambda>c.
       Ok (c\<lparr>uc_cc := adjust_window (uc_cc c)\<rparr>))"

text \<open>The packets in the buffer that follow without a gap. One that does not fit is dropped.\<close>

lemma bt_remove_shorter: "map_of xs k = Some v \<Longrightarrow> length (bt_remove k xs) < length xs"
proof -
  assume "map_of xs k = Some v"
  then have "(k, v) \<in> set xs" by (rule map_of_SomeD)
  then show ?thesis unfolding bt_remove_def by (rule length_filter_less) simp
qed

function deliver :: "u16 \<Rightarrow> UtpConnection \<Rightarrow> UtpConnection" where
  "deliver nx c =
     (case map_of (uc_recv_buffer c) nx of
        None \<Rightarrow> c
      | Some data \<Rightarrow>
          let c = c\<lparr>uc_recv_buffer := bt_remove nx (uc_recv_buffer c)\<rparr> in
          if MAX_READY_BYTES < length (uc_ready_data c) + length data then c
          else deliver (nx + 1) (c\<lparr>uc_ack_nr := nx, uc_ready_data := uc_ready_data c @ data\<rparr>))"
  by pat_completeness auto
termination by (relation "measure (\<lambda>(nx, c). length (uc_recv_buffer c))") (auto intro: bt_remove_shorter)

declare deliver.simps [simp del]

definition process_data :: "UtpHeader \<Rightarrow> bytes \<Rightarrow> UtpConnection \<Rightarrow> UtpConnection" where
  "process_data header payload c =
     (let seq = uh_seq_nr header in
      if seq \<le> uc_ack_nr c then c
      else if seq = uc_ack_nr c + 1 then
        if MAX_READY_BYTES < length (uc_ready_data c) + length payload then c\<lparr>uc_state := Closed\<rparr>
        else deliver (seq + 1) (c\<lparr>uc_ack_nr := seq, uc_ready_data := uc_ready_data c @ payload\<rparr>)
      else if uc_ack_nr c + 1 < seq then c\<lparr>uc_recv_buffer := bt_insert seq payload (uc_recv_buffer c)\<rparr>
      else c)"

definition process_data_packet :: "int \<Rightarrow> UtpHeader \<Rightarrow> bytes \<Rightarrow> UtpConnection \<Rightarrow> UtpConnection result" where
  "process_data_packet now header payload c = and_then (handle_ack now header c) (\<lambda>c. Ok (process_data header payload c))"

definition handle_fin :: "UtpHeader \<Rightarrow> UtpConnection \<Rightarrow> UtpConnection" where
  "handle_fin header c =
     (let c = c\<lparr>uc_eof_pkt := Some (uh_seq_nr header)\<rparr>
      in if uc_state c = Established then c\<lparr>uc_state := FinRecv\<rparr> else c)"

definition handle_packet :: "int \<Rightarrow> UtpHeader \<Rightarrow> bytes \<Rightarrow> UtpConnection \<Rightarrow> UtpConnection result" where
  "handle_packet now header payload c0 =
     (let c = c0\<lparr>uc_last_activity := now, uc_cc := update_delay (uh_timestamp_diff header) now (uc_cc c0)\<rparr>;
          t = uh_type header
      in case uc_state c of
           SynSent \<Rightarrow>
             if t = StState then Ok (c\<lparr>uc_state := Established, uc_ack_nr := uh_seq_nr header\<rparr>)
             else if t = StReset then Ok (c\<lparr>uc_state := Closed\<rparr>) else Ok c
         | SynRecv \<Rightarrow>
             if t = StData then process_data_packet now header payload (c\<lparr>uc_state := Established, uc_ack_nr := uh_seq_nr header\<rparr>)
             else if t = StFin then Ok (handle_fin header c) else Ok c
         | Established \<Rightarrow>
             (case t of
                StData \<Rightarrow> process_data_packet now header payload c
              | StState \<Rightarrow> handle_ack now header c
              | StFin \<Rightarrow> and_then (process_data_packet now header payload c) (\<lambda>c. Ok (handle_fin header c))
              | StReset \<Rightarrow> Ok (c\<lparr>uc_state := Closed\<rparr>)
              | StSyn \<Rightarrow> Ok c)
         | FinSent \<Rightarrow> handle_ack now header (if t = StFin then c\<lparr>uc_state := Closed\<rparr> else c)
         | FinRecv \<Rightarrow> and_then (handle_ack now header c) (\<lambda>c.
             Ok (if uc_send_buffer c = [] then c\<lparr>uc_state := Closed\<rparr> else c))
         | Closed \<Rightarrow> Ok c)"

subsection \<open>Application data and closing\<close>

definition utp_send :: "(bytes \<Rightarrow> bool) \<Rightarrow> clock \<Rightarrow> bytes \<Rightarrow> (UtpConnection, nat) act" where
  "utp_send sock ck data = act_read (\<lambda>c.
     if uc_state c \<noteq> Established then act_lift (Err PeerUtpProtocolError)
     else act_seq
       (for_each (\<lambda>chunk. act_read (\<lambda>c.
            act_seq (act_update (\<lambda>c. c\<lparr>uc_seq_nr := uc_seq_nr c + 1\<rparr>))
              (send_raw sock ck StData (uc_seq_nr c) (uc_ack_nr c) chunk)))
          (chunks (unat (max (cc_packet_size (uc_cc c)) 150)) data))
       (act_return (length data)))"

definition utp_close :: "(bytes \<Rightarrow> bool) \<Rightarrow> clock \<Rightarrow> (UtpConnection, unit) act" where
  "utp_close sock ck = act_read (\<lambda>c.
     if uc_state c = Established then
       act_seq (act_update (\<lambda>c. c\<lparr>uc_seq_nr := uc_seq_nr c + 1\<rparr>))
       (act_seq (send_raw sock ck StFin (uc_seq_nr c) (uc_ack_nr c) [])
         (act_update (\<lambda>c. c\<lparr>uc_state := FinSent\<rparr>)))
     else act_return ())"

definition utp_recv :: "UtpConnection \<Rightarrow> UtpConnection \<times> bytes" where
  "utp_recv c = (c\<lparr>uc_ready_data := []\<rparr>, uc_ready_data c)"

subsection \<open>Retransmission\<close>

definition retransmit_one :: "(bytes \<Rightarrow> bool) \<Rightarrow> int \<Rightarrow> u16 \<Rightarrow> (UtpConnection, unit) act" where
  "retransmit_one sock now seq = act_read (\<lambda>c.
     act_seq
       (case map_of (uc_send_buffer c) seq of
          None \<Rightarrow> act_return ()
        | Some pkt \<Rightarrow>
            if MAX_RETRANSMIT \<le> sp_retransmit_count pkt then
              act_seq (act_update (\<lambda>c. c\<lparr>uc_state := Closed\<rparr>)) (act_lift (Err PeerUtpProtocolError))
            else
              act_seq (act_update (\<lambda>c. c\<lparr>uc_send_buffer := bt_remove seq (uc_send_buffer c)\<rparr>))
              (act_seq (sock_send sock (sp_data pkt))
                (act_update (\<lambda>c. c\<lparr>uc_send_buffer := bt_insert seq
                   (pkt\<lparr>sp_retransmit_count := sp_retransmit_count pkt + 1, sp_rtt_measurable := False, sp_send_time := now\<rparr>)
                   (uc_send_buffer c)\<rparr>))))
       (act_read (\<lambda>c. act_bind (act_lift (on_timeout (uc_cc c))) (\<lambda>cc. act_update (\<lambda>c. c\<lparr>uc_cc := cc\<rparr>)))))"

definition check_retransmit :: "(bytes \<Rightarrow> bool) \<Rightarrow> clock \<Rightarrow> (UtpConnection, unit) act" where
  "check_retransmit sock ck = act_read (\<lambda>c.
     let now = ck_now ck; timeout = uint (cc_timeout (uc_cc c)) in
     if timeout * 4 < (now - uc_last_activity c) div 1000 then
       act_seq (act_update (\<lambda>c. c\<lparr>uc_state := Closed\<rparr>)) (act_lift (Err PeerUtpProtocolError))
     else act_seq
       (for_each (retransmit_one sock now)
          (map fst (filter (\<lambda>(_, pkt). timeout * 1000 \<le> now - sp_send_time pkt) (uc_send_buffer c))))
       (act_read (\<lambda>c.
          if uc_state c = SynSent \<and> uc_send_buffer c = [] \<and> timeout * 1000 < now - uc_last_activity c
          then send_packet sock ck StSyn [] else act_return ())))"

end
