(* ===== verification/Utp_Conn_Props.thy ===== *)
theory Utp_Conn_Props
  imports Utp_Conn
begin

section \<open>What a uTP connection delivers\<close>

text \<open>
  The receiving side as a stream: the application reads, in order and without gaps or repetitions, the
  payloads of the packets the other side numbered; and the sending side: which packets are kept for
  retransmission and counted in flight.
\<close>

subsection \<open>Sorted maps\<close>

lemma map_of_bt_insert [simp]: "map_of (bt_insert k v xs) k' = (if k' = k then Some v else map_of xs k')"
  by (induction xs) auto

lemma keys_bt_insert [simp]: "fst ` set (bt_insert k v xs) = insert k (fst ` set xs)"
proof (induction xs)
  case (Cons x xs)
  obtain a b where x: "x = (a, b)" by force
  show ?case
  proof (cases "k < a \<or> k = a")
    case False
    then show ?thesis using Cons by (simp add: x insert_commute)
  qed (auto simp: x)
qed simp

lemma set_bt_insert: "set (bt_insert k v xs) \<subseteq> insert (k, v) (set xs)"
  by (induction xs) (auto split: if_splits)

lemma bt_sorted_insert: "bt_sorted xs \<Longrightarrow> bt_sorted (bt_insert k v xs)"
proof (induction xs)
  case (Cons x xs)
  then show ?case
    using keys_bt_insert [of k v xs] by (cases x) (auto simp: bt_sorted_def simp flip: set_map)
qed (simp add: bt_sorted_def)

lemma bt_sorted_remove: "bt_sorted xs \<Longrightarrow> bt_sorted (bt_remove k xs)"
  by (induction xs) (auto simp: bt_sorted_def bt_remove_def)


lemma map_of_bt_remove [simp]: "map_of (bt_remove k xs) k' = (if k' = k then None else map_of xs k')"
  by (induction xs) (auto simp: bt_remove_def)

lemma set_bt_remove: "set (bt_remove k xs) = {x \<in> set xs. fst x \<noteq> k}"
  by (auto simp: bt_remove_def)

subsection \<open>The stream\<close>

text \<open>What the packets numbered behind \<open>a\<close> up to \<open>n\<close> carry.\<close>

definition stream :: "(u16 \<Rightarrow> bytes) \<Rightarrow> nat \<Rightarrow> nat \<Rightarrow> bytes" where
  "stream P a n = concat (map (\<lambda>k. P (of_nat k)) [Suc a..<Suc n])"

lemma stream_same [simp]: "stream P a a = []"
  by (simp add: stream_def)

lemma stream_Suc: "a \<le> n \<Longrightarrow> stream P a (Suc n) = stream P a n @ P (of_nat (Suc n))"
  by (simp add: stream_def)

lemma length_stream_mono: "a \<le> n \<Longrightarrow> n \<le> k \<Longrightarrow> length (stream P a n) \<le> length (stream P a k)"
  by (induction k) (auto simp: stream_Suc le_Suc_eq)

definition recv_ok :: "(u16 \<Rightarrow> bytes) \<Rightarrow> nat \<Rightarrow> bytes \<Rightarrow> UtpConnection \<Rightarrow> bool" where
  "recv_ok P a got c \<longleftrightarrow>
     a \<le> unat (uc_ack_nr c) \<and> got @ uc_ready_data c = stream P a (unat (uc_ack_nr c)) \<and>
     (\<forall>(k, d) \<in> set (uc_recv_buffer c). d = P k \<and> uc_ack_nr c < k)"

lemma succ_unat: "ack < (k :: u16) \<Longrightarrow> unat (ack + 1) = Suc (unat ack)"
proof -
  assume "ack < k"
  then have "ack \<noteq> - 1" using word_order.extremum [of k] by auto
  then have "1 + ack \<noteq> 0" by (metis add.inverse_unique add.commute)
  then show ?thesis using unatSuc [of ack] by (simp add: add.commute)
qed

lemma recv_ok_next:
  assumes "recv_ok P a got c" and "uc_ack_nr c < uc_ack_nr c + 1"
    and "\<forall>(k, d) \<in> set buf. d = P k \<and> uc_ack_nr c + 1 < k"
  shows "recv_ok P a got (c\<lparr>uc_recv_buffer := buf, uc_ack_nr := uc_ack_nr c + 1, uc_ready_data := uc_ready_data c @ P (uc_ack_nr c + 1)\<rparr>)"
proof -
  let ?ack = "uc_ack_nr c"
  have n: "unat (?ack + 1) = Suc (unat ?ack)" by (rule succ_unat [OF assms(2)])
  then have "(of_nat (Suc (unat ?ack)) :: u16) = ?ack + 1" by (metis of_nat_unat word_of_int_uint of_int_of_nat_eq)
  moreover have "got @ uc_ready_data c @ P (?ack + 1) = (got @ uc_ready_data c) @ P (?ack + 1)" by simp
  ultimately show ?thesis using assms n by (auto simp: recv_ok_def stream_Suc simp del: append_assoc of_nat_Suc)
qed


text \<open>The packets behind the next one.\<close>

lemma later_keys:
  assumes "recv_ok P a got c" and "nx = uc_ack_nr c + 1"
  shows "\<forall>(k, d) \<in> set (bt_remove nx (uc_recv_buffer c)). d = P k \<and> uc_ack_nr c + 1 < k"
proof (clarify, intro conjI)
  fix k d assume "(k, d) \<in> set (bt_remove nx (uc_recv_buffer c))"
  then have k: "(k, d) \<in> set (uc_recv_buffer c)" "k \<noteq> nx" by (auto simp: set_bt_remove)
  with assms(1) show "d = P k" by (auto simp: recv_ok_def)
  have "uc_ack_nr c < k" using k assms(1) by (auto simp: recv_ok_def)
  with k(2) assms(2) show "uc_ack_nr c + 1 < k" by (metis inc_le le_less)
qed

text \<open>The next packet is not waiting in the buffer.\<close>

definition caught_up :: "UtpConnection \<Rightarrow> bool" where
  "caught_up c \<longleftrightarrow> map_of (uc_recv_buffer c) (uc_ack_nr c + 1) = None"

lemma caught_up_keys:
  assumes "recv_ok P a got c" and "caught_up c" and "(k, d) \<in> set (uc_recv_buffer c)"
  shows "d = P k \<and> uc_ack_nr c + 1 < k"
proof -
  have "k \<noteq> uc_ack_nr c + 1" using assms(2,3) by (force simp: caught_up_def map_of_eq_None_iff)
  moreover have "d = P k" "uc_ack_nr c < k" using assms(1,3) by (auto simp: recv_ok_def)
  ultimately show ?thesis by (metis inc_le le_less)
qed

lemma deliver_ok:
  assumes "recv_ok P a got c" and "nx = uc_ack_nr c + 1"
  shows "recv_ok P a got (deliver nx c) \<and> caught_up (deliver nx c) \<and> uc_state (deliver nx c) = uc_state c \<and> uc_ack_nr c \<le> uc_ack_nr (deliver nx c)"
  using assms
proof (induction nx c rule: deliver.induct)
  case (1 nx c)
  show ?case
  proof (cases "map_of (uc_recv_buffer c) nx")
    case None
    then show ?thesis using "1.prems" by (subst (1 2 3 4) deliver.simps) (simp add: caught_up_def)
  next
    case (Some data)
    let ?c = "c\<lparr>uc_recv_buffer := bt_remove nx (uc_recv_buffer c)\<rparr>"
    have mem: "(nx, data) \<in> set (uc_recv_buffer c)" by (rule map_of_SomeD [OF Some])
    then have nx: "data = P nx" "uc_ack_nr c < nx" using "1.prems"(1) by (auto simp: recv_ok_def)
    note keys = later_keys [OF "1.prems"]
    show ?thesis
    proof (cases "MAX_READY_BYTES < length (uc_ready_data ?c) + length data")
      case True
      have "deliver nx c = ?c" by (subst deliver.simps) (use Some True in \<open>simp add: Let_def\<close>)
      then show ?thesis using "1.prems" by (auto simp: recv_ok_def set_bt_remove caught_up_def)
    next
      case False
      let ?d = "?c\<lparr>uc_ack_nr := nx, uc_ready_data := uc_ready_data ?c @ data\<rparr>"
      have step: "deliver nx c = deliver (nx + 1) ?d"
        by (subst deliver.simps) (use Some False in \<open>simp add: Let_def\<close>)
      have "recv_ok P a got ?d"
        using recv_ok_next [OF "1.prems"(1) _ keys] nx "1.prems"(2) by simp
      from "1.IH" [OF Some refl False this] step nx "1.prems"(2) show ?thesis by auto
    qed
  qed
qed

lemma process_data_ok:
  assumes "recv_ok P a got c" and "caught_up c" and "payload = P (uh_seq_nr header)"
  defines "c' \<equiv> process_data header payload c"
  shows "recv_ok P a got c' \<and> caught_up c' \<and> (uc_state c' = uc_state c \<or> uc_state c' = Closed) \<and> uc_ack_nr c \<le> uc_ack_nr c'"
proof -
  let ?seq = "uh_seq_nr header" and ?ack = "uc_ack_nr c"
  consider (old) "?seq \<le> ?ack" | (nx) "?ack < ?seq" "?seq = ?ack + 1" | (gap) "?ack < ?seq" "?seq \<noteq> ?ack + 1"
    by fastforce
  then show ?thesis
  proof cases
    case old
    then show ?thesis using assms(1,2) by (simp add: c'_def process_data_def)
  next
    case nx
    show ?thesis
    proof (cases "MAX_READY_BYTES < length (uc_ready_data c) + length payload")
      case True
      then have "c' = c\<lparr>uc_state := Closed\<rparr>" using nx by (simp add: c'_def process_data_def Let_def)
      then show ?thesis using assms(1,2) by (simp add: recv_ok_def caught_up_def)
    next
      case False
      let ?c = "c\<lparr>uc_ack_nr := ?seq, uc_ready_data := uc_ready_data c @ payload\<rparr>"
      have c': "c' = deliver (?seq + 1) ?c"
        using nx False by (simp add: c'_def process_data_def Let_def not_le)
      have "recv_ok P a got ?c"
        using recv_ok_next [OF assms(1), of "uc_recv_buffer c"] nx assms(3) caught_up_keys [OF assms(1,2)] by auto
      from deliver_ok [OF this, of "?seq + 1"] nx show ?thesis by (auto simp: c')
    qed
  next
    case gap
    have "(k, d) \<in> set (bt_insert ?seq payload (uc_recv_buffer c)) \<Longrightarrow> d = P k \<and> ?ack < k" for k d
      using subsetD [OF set_bt_insert] gap(1) assms by (fastforce simp: recv_ok_def)
    then have "recv_ok P a got (c\<lparr>uc_recv_buffer := bt_insert ?seq payload (uc_recv_buffer c)\<rparr>)"
      using assms(1) by (auto simp: recv_ok_def)
    then show ?thesis using gap assms(1,2) by (auto simp: c'_def process_data_def Let_def caught_up_def)
  qed
qed

text \<open>Everything else leaves the receiving side alone.\<close>

definition recv_part :: "UtpConnection \<Rightarrow> u16 \<times> bytes \<times> (u16 \<times> bytes) list" where
  "recv_part c = (uc_ack_nr c, uc_ready_data c, uc_recv_buffer c)"

lemma recv_ok_part: "recv_part c = recv_part c' \<Longrightarrow> recv_ok P a got c = recv_ok P a got c' \<and> caught_up c = caught_up c'"
  by (simp add: recv_part_def recv_ok_def caught_up_def)

lemma and_then_Ok: "and_then r f = Ok y \<longleftrightarrow> (\<exists>x. r = Ok x \<and> f x = Ok y)"
  by (cases r) simp_all

lemma ack_one_frame: "ack_one now seq c = Ok c' \<Longrightarrow> recv_part c' = recv_part c \<and> uc_state c' = uc_state c"
  by (auto simp: ack_one_def and_then_Ok recv_part_def split: option.splits)

lemma ack_each_frame: "ack_each now seqs c = Ok c' \<Longrightarrow> recv_part c' = recv_part c \<and> uc_state c' = uc_state c"
proof (induction seqs arbitrary: c)
  case (Cons seq seqs)
  then obtain d where "ack_one now seq c = Ok d" "ack_each now seqs d = Ok c'" by (auto simp: and_then_Ok)
  with Cons.IH [of d] ack_one_frame [of now seq c d] show ?case by simp
qed simp

lemma handle_ack_frame: "handle_ack now header c = Ok c' \<Longrightarrow> recv_part c' = recv_part c \<and> uc_state c' = uc_state c"
  by (auto simp: handle_ack_def and_then_Ok recv_part_def dest!: ack_each_frame)

lemma part_send_raw [leaves_intros]: "leaves recv_part (send_raw sock ck t seq ack payload)"
  unfolding send_raw_def sock_send_def Let_def
  by (intro leaves_intros) (simp_all add: recv_part_def)

lemma part_operations:
  "leaves recv_part (utp_send sock ck data)" "leaves recv_part (utp_close sock ck)" "leaves recv_part (check_retransmit sock ck)"
proof -
  show "leaves recv_part (utp_send sock ck data)"
    unfolding utp_send_def by (intro leaves_intros) (simp_all add: recv_part_def)
  show "leaves recv_part (utp_close sock ck)"
    unfolding utp_close_def by (intro leaves_intros) (simp_all add: recv_part_def)
  have "leaves recv_part (retransmit_one sock now seq)" for now seq
    unfolding retransmit_one_def sock_send_def
    by (intro leaves_intros) (auto intro!: leaves_intros simp: recv_part_def split: option.split)
  then show "leaves recv_part (check_retransmit sock ck)"
    unfolding check_retransmit_def send_packet_def Let_def
    by (intro leaves_intros) (auto simp: recv_part_def)
qed


subsection \<open>Runs of a connection\<close>

definition opened :: "UtpConnection \<Rightarrow> bool" where
  "opened c \<longleftrightarrow> uc_state c \<noteq> SynSent \<and> uc_state c \<noteq> SynRecv"

lemma opened_send_raw [stays_intros]: "stays opened (send_raw sock ck t seq ack payload)"
  unfolding send_raw_def sock_send_def Let_def by (intro stays_intros) (simp_all add: opened_def)

lemma opened_operations:
  "stays opened (utp_send sock ck data)" "stays opened (utp_close sock ck)" "stays opened (check_retransmit sock ck)"
proof -
  show "stays opened (utp_send sock ck data)"
    unfolding utp_send_def by (intro stays_intros) (simp_all add: opened_def)
  show "stays opened (utp_close sock ck)"
    unfolding utp_close_def by (intro stays_intros) (simp_all add: opened_def)
  have "stays opened (retransmit_one sock now seq)" for now seq
    unfolding retransmit_one_def sock_send_def
    by (intro stays_intros) (auto intro!: stays_intros simp: opened_def split: option.split)
  then show "stays opened (check_retransmit sock ck)"
    unfolding check_retransmit_def send_packet_def Let_def
    by (intro stays_intros) (auto simp: opened_def)
qed

definition carries :: "(u16 \<Rightarrow> bytes) \<Rightarrow> UtpHeader \<Rightarrow> bytes \<Rightarrow> bool" where
  "carries P header payload \<longleftrightarrow> (uh_type header = StData \<or> uh_type header = StFin \<longrightarrow> payload = P (uh_seq_nr header))"

definition conn_ok :: "(u16 \<Rightarrow> bytes) \<Rightarrow> nat \<Rightarrow> bytes \<Rightarrow> UtpConnection \<Rightarrow> bool" where
  "conn_ok P a got c \<longleftrightarrow> recv_ok P a got c \<and> caught_up c \<and> opened c"

lemma conn_ok_frame:
  assumes "conn_ok P a got c" and "recv_part c' = recv_part c" and "opened c'"
  shows "conn_ok P a got c'"
  using assms(1,3) recv_ok_part [OF assms(2)] by (simp add: conn_ok_def)

lemma process_data_packet_ok:
  assumes "conn_ok P a got c" and "payload = P (uh_seq_nr header)" and "process_data_packet now header payload c = Ok c'"
  shows "conn_ok P a got c'"
proof -
  obtain d where d: "handle_ack now header c = Ok d" "c' = process_data header payload d"
    using assms(3) by (auto simp: process_data_packet_def and_then_Ok)
  have "opened d" using handle_ack_frame [OF d(1)] assms(1) by (simp add: opened_def conn_ok_def)
  with handle_ack_frame [OF d(1)] have "conn_ok P a got d" by (intro conn_ok_frame [OF assms(1)]) simp_all
  with process_data_ok [of P a got d payload header] assms(2) d(2) show ?thesis by (auto simp: conn_ok_def opened_def)
qed

lemma handle_fin_ok: "conn_ok P a got c \<Longrightarrow> conn_ok P a got (handle_fin header c)"
proof -
  assume ok: "conn_ok P a got c"
  then have "opened (handle_fin header c)" by (auto simp: conn_ok_def opened_def handle_fin_def Let_def)
  then show ?thesis by (intro conn_ok_frame [OF ok]) (simp_all add: handle_fin_def Let_def recv_part_def)
qed

lemma handle_packet_ok:
  assumes "conn_ok P a got c" and "carries P header payload" and "handle_packet now header payload c = Ok c'"
  shows "conn_ok P a got c'"
proof -
  let ?c = "c\<lparr>uc_last_activity := now, uc_cc := update_delay (uh_timestamp_diff header) now (uc_cc c)\<rparr>"
  have c: "conn_ok P a got ?c" using assms(1) by (rule conn_ok_frame) (use assms(1) in \<open>auto simp: recv_part_def conn_ok_def opened_def\<close>)
  have ack: "conn_ok P a got e" if "handle_ack now header d = Ok e" "conn_ok P a got d" for d e
  proof -
    have "opened e" using that handle_ack_frame [OF that(1)] by (simp add: conn_ok_def opened_def)
    with handle_ack_frame [OF that(1)] show ?thesis by (intro conn_ok_frame [OF that(2)]) simp_all
  qed
  have closed: "conn_ok P a got (d\<lparr>uc_state := Closed\<rparr>)" if "conn_ok P a got d" for d
    using that by (rule conn_ok_frame) (auto simp: recv_part_def opened_def)
  note run = assms(3) [unfolded handle_packet_def Let_def]
  show ?thesis
  proof (cases "uc_state c")
    case Established
    then show ?thesis
      using run c closed [OF c] ack [OF _ c] process_data_packet_ok [OF c] assms(2) handle_fin_ok
      by (cases "uh_type header") (auto simp: and_then_Ok carries_def)
  next
    case FinSent
    then show ?thesis using run ack closed [OF c] c by (auto split: if_splits)
  next
    case FinRecv
    then show ?thesis using run ack [OF _ c] closed by (auto simp: and_then_Ok split: if_splits)
  next
    case Closed
    then show ?thesis using run c by simp
  qed (use assms(1) in \<open>simp_all add: conn_ok_def opened_def\<close>)
qed

text \<open>
  A run: packets of the other side arrive in any order, lost, repeated or mixed with others, the
  application reads, sends and closes, and the timer ticks. The list is what the application read.
\<close>

inductive utp_run :: "(bytes \<Rightarrow> bool) \<Rightarrow> (u16 \<Rightarrow> bytes) \<Rightarrow> UtpConnection \<Rightarrow> UtpConnection \<Rightarrow> bytes \<Rightarrow> bool"
  for sock :: "bytes \<Rightarrow> bool" and P :: "u16 \<Rightarrow> bytes" and c0 :: UtpConnection where
  utp_start: "utp_run sock P c0 c0 []"
| utp_packet: "utp_run sock P c0 c got \<Longrightarrow> carries P header payload \<Longrightarrow> handle_packet now header payload c = Ok c' \<Longrightarrow>
    utp_run sock P c0 c' got"
| utp_read: "utp_run sock P c0 c got \<Longrightarrow> utp_recv c = (c', data) \<Longrightarrow> utp_run sock P c0 c' (got @ data)"
| utp_write: "utp_run sock P c0 c got \<Longrightarrow> utp_send sock ck data c = (c', r) \<Longrightarrow> utp_run sock P c0 c' got"
| utp_shut: "utp_run sock P c0 c got \<Longrightarrow> utp_close sock ck c = (c', r') \<Longrightarrow> utp_run sock P c0 c' got"
| utp_timer: "utp_run sock P c0 c got \<Longrightarrow> check_retransmit sock ck c = (c', r') \<Longrightarrow> utp_run sock P c0 c' got"

lemma utp_run_ok:
  assumes "utp_run sock P c0 c got" and "opened c0" and "uc_ready_data c0 = []" and "uc_recv_buffer c0 = []"
  shows "conn_ok P (unat (uc_ack_nr c0)) got c"
  using assms(1)
proof (induction rule: utp_run.induct)
  case utp_start
  show ?case using assms(2-4) by (simp add: conn_ok_def recv_ok_def caught_up_def)
next
  case (utp_packet c got header payload now c')
  with handle_packet_ok show ?case by blast
next
  case (utp_read c got c' data)
  then show ?case by (auto simp: utp_recv_def conn_ok_def recv_ok_def caught_up_def opened_def)
next
  case (utp_write c got ck data c' r)
  with leavesD [OF part_operations(1)] staysD [OF opened_operations(1)] show ?case
    by (metis conn_ok_frame conn_ok_def fst_conv)
next
  case (utp_shut c got ck c' r')
  with leavesD [OF part_operations(2)] staysD [OF opened_operations(2)] show ?case
    by (metis conn_ok_frame conn_ok_def fst_conv)
next
  case (utp_timer c got ck c' r')
  with leavesD [OF part_operations(3)] staysD [OF opened_operations(3)] show ?case
    by (metis conn_ok_frame conn_ok_def fst_conv)
qed

text \<open>
  C27. A uTP connection delivers a stream. Once a connection is open, let packet number \<open>k\<close> of the other
  side carry \<open>P k\<close>. Whatever arrives, in any order, with losses and repetitions, and whatever the
  application and the timer do meanwhile, the bytes the application has read followed by those ready
  for it are exactly the payloads of the packets behind the first one up to the acknowledged number,
  in order; the packets kept for later are further ones, unchanged.
\<close>

theorem utp_delivers_stream:
  assumes "opened c0" and "uc_ready_data c0 = []" and "uc_recv_buffer c0 = []" and "utp_run sock P c0 c got"
  shows "got @ uc_ready_data c = stream P (unat (uc_ack_nr c0)) (unat (uc_ack_nr c)) \<and> uc_ack_nr c0 \<le> uc_ack_nr c \<and>
    (\<forall>(k, d) \<in> set (uc_recv_buffer c). d = P k \<and> uc_ack_nr c + 1 < k)"
proof -
  have ok: "recv_ok P (unat (uc_ack_nr c0)) got c" "caught_up c"
    using utp_run_ok [OF assms(4,1-3)] by (simp_all add: conn_ok_def)
  with caught_up_keys [OF ok] show ?thesis by (auto simp: recv_ok_def word_le_nat_alt)
qed


subsection \<open>Everything that arrives is delivered\<close>

definition known :: "u16 \<Rightarrow> UtpConnection \<Rightarrow> bool" where
  "known s c \<longleftrightarrow> s \<le> uc_ack_nr c \<or> map_of (uc_recv_buffer c) s \<noteq> None"

definition roomy :: "(u16 \<Rightarrow> bytes) \<Rightarrow> nat \<Rightarrow> bool" where
  "roomy P a \<longleftrightarrow> length (stream P a 65535) \<le> MAX_READY_BYTES"

lemma u16_le: "unat (k :: u16) \<le> 65535"
  using unsigned_less [of k, where 'a = nat] by simp

lemma fits_next:
  assumes "recv_ok P a [] c" and "roomy P a" and "uc_ack_nr c < uc_ack_nr c + 1"
  shows "\<not> MAX_READY_BYTES < length (uc_ready_data c) + length (P (uc_ack_nr c + 1))"
proof -
  have "recv_ok P a [] (c\<lparr>uc_recv_buffer := [], uc_ack_nr := uc_ack_nr c + 1, uc_ready_data := uc_ready_data c @ P (uc_ack_nr c + 1)\<rparr>)"
    by (rule recv_ok_next [OF assms(1,3)]) simp
  then have nxt: "uc_ready_data c @ P (uc_ack_nr c + 1) = stream P a (unat (uc_ack_nr c + 1))" "a \<le> unat (uc_ack_nr c + 1)"
    by (simp_all add: recv_ok_def)
  have "length (stream P a (unat (uc_ack_nr c + 1))) \<le> length (stream P a 65535)"
    by (rule length_stream_mono [OF nxt(2) u16_le])
  with assms(2) nxt(1) show ?thesis by (simp add: roomy_def flip: length_append)
qed

lemma deliver_known:
  assumes "recv_ok P a [] c" and "nx = uc_ack_nr c + 1" and "roomy P a" and "known s c"
  shows "known s (deliver nx c)"
  using assms(1,2,4)
proof (induction nx c rule: deliver.induct)
  case (1 nx c)
  show ?case
  proof (cases "map_of (uc_recv_buffer c) nx")
    case None
    then show ?thesis using "1.prems" by (subst deliver.simps) simp
  next
    case (Some data)
    let ?c = "c\<lparr>uc_recv_buffer := bt_remove nx (uc_recv_buffer c)\<rparr>"
    have mem: "(nx, data) \<in> set (uc_recv_buffer c)" by (rule map_of_SomeD [OF Some])
    then have nx: "data = P nx" "uc_ack_nr c < nx" using "1.prems"(1) by (auto simp: recv_ok_def)
    have fits: "\<not> MAX_READY_BYTES < length (uc_ready_data ?c) + length data"
      using fits_next [OF "1.prems"(1) assms(3)] nx "1.prems"(2) by simp
    let ?d = "?c\<lparr>uc_ack_nr := nx, uc_ready_data := uc_ready_data ?c @ data\<rparr>"
    have step: "deliver nx c = deliver (nx + 1) ?d"
      by (subst deliver.simps) (use Some fits in \<open>simp add: Let_def\<close>)
    note keys = later_keys [OF "1.prems"(1,2)]
    have ok: "recv_ok P a [] ?d"
      using recv_ok_next [OF "1.prems"(1) _ keys] nx "1.prems"(2) by simp
    have "known s ?d" using "1.prems"(3) nx by (auto simp: known_def)
    from "1.IH" [OF Some refl fits ok _ this] step show ?thesis by simp
  qed
qed

lemma process_data_known:
  assumes "recv_ok P a [] c" and "caught_up c" and "payload = P (uh_seq_nr header)" and "roomy P a"
  defines "c' \<equiv> process_data header payload c"
  shows "known (uh_seq_nr header) c' \<and> (known s c \<longrightarrow> known s c') \<and> uc_state c' = uc_state c"
proof -
  let ?seq = "uh_seq_nr header" and ?ack = "uc_ack_nr c"
  consider (old) "?seq \<le> ?ack" | (nx) "?ack < ?seq" "?seq = ?ack + 1" | (gap) "?ack < ?seq" "?seq \<noteq> ?ack + 1"
    by fastforce
  then show ?thesis
  proof cases
    case old
    then show ?thesis by (simp add: c'_def process_data_def known_def)
  next
    case nx
    let ?c = "c\<lparr>uc_ack_nr := ?seq, uc_ready_data := uc_ready_data c @ payload\<rparr>"
    have "\<not> MAX_READY_BYTES < length (uc_ready_data c) + length payload"
      using fits_next [OF assms(1,4)] nx assms(3) by simp
    then have c': "c' = deliver (?seq + 1) ?c"
      using nx by (simp add: c'_def process_data_def Let_def not_le)
    have ok: "recv_ok P a [] ?c"
      using recv_ok_next [OF assms(1), of "uc_recv_buffer c"] nx assms(3) caught_up_keys [OF assms(1,2)] by auto
    have kn: "known s ?c" if "known s c" for s
      using that nx(1) by (auto simp: known_def)
    have "known ?seq ?c" by (simp add: known_def)
    with deliver_known [OF ok _ assms(4)] kn deliver_ok [OF ok, of "?seq + 1"] show ?thesis
      by (auto simp: c')
  next
    case gap
    have "?ack + 1 < ?seq" using gap by (metis inc_le le_less)
    with gap show ?thesis by (auto simp: c'_def process_data_def Let_def known_def)
  qed
qed

fun utp_feed :: "(int \<times> UtpHeader \<times> bytes) list \<Rightarrow> UtpConnection \<Rightarrow> UtpConnection result" where
  "utp_feed [] c = Ok c"
| "utp_feed ((now, header, payload) # ps) c = and_then (handle_packet now header payload c) (utp_feed ps)"

lemma utp_feed_known:
  assumes "utp_feed ps c = Ok c'" and "conn_ok P a [] c" and "uc_state c = Established" and "roomy P a"
    and "list_all (\<lambda>(_, header, payload). uh_type header = StData \<and> payload = P (uh_seq_nr header)) ps"
  shows "conn_ok P a [] c' \<and> uc_state c' = Established \<and> (\<forall>s. known s c \<or> s \<in> (\<lambda>(_, h, _). uh_seq_nr h) ` set ps \<longrightarrow> known s c')"
  using assms(1-3,5)
proof (induction ps c rule: utp_feed.induct)
  case (2 now header payload ps c)
  then obtain d where d: "handle_packet now header payload c = Ok d" "utp_feed ps d = Ok c'" by (auto simp: and_then_Ok)
  have h: "uh_type header = StData" "payload = P (uh_seq_nr header)" using "2.prems"(4) by simp_all
  let ?c = "c\<lparr>uc_last_activity := now, uc_cc := update_delay (uh_timestamp_diff header) now (uc_cc c)\<rparr>"
  obtain e where e: "handle_ack now header ?c = Ok e" "d = process_data header payload e"
    using d(1) "2.prems"(3) h(1) by (auto simp: handle_packet_def Let_def process_data_packet_def and_then_Ok)
  have part: "recv_part e = recv_part c" "uc_state e = Established"
    using handle_ack_frame [OF e(1)] "2.prems"(3) by (simp_all add: recv_part_def)
  have "conn_ok P a [] e" by (rule conn_ok_frame [OF "2.prems"(2) part(1)]) (simp add: opened_def part(2))
  then have ok: "recv_ok P a [] e" "caught_up e" by (simp_all add: conn_ok_def)
  have known: "known (uh_seq_nr header) d" "\<And>s. known s c \<Longrightarrow> known s d" "uc_state d = Established"
    using process_data_known [OF ok h(2) assms(4)] part by (auto simp: e(2) known_def recv_part_def)
  have "conn_ok P a [] d" using handle_packet_ok [OF "2.prems"(2) _ d(1)] h by (simp add: carries_def)
  from "2.IH" [OF d(1,2) this known(3)] "2.prems"(4) known(1,2) show ?case by auto
qed simp

text \<open>
  C28. A uTP connection loses nothing that arrives. If among any sequence of data packets, in any order
  and with repetitions, all packets up to number \<open>n\<close> are found, and all that could be sent fits the
  reading buffer, then after them the acknowledged number is at least \<open>n\<close>, the connection is still
  open, and the payloads up to it are ready to be read.
\<close>

theorem utp_all_arrive:
  assumes "uc_state c0 = Established" and "uc_ready_data c0 = []" and "uc_recv_buffer c0 = []"
    and "length (stream P (unat (uc_ack_nr c0)) 65535) \<le> MAX_READY_BYTES"
    and "list_all (\<lambda>(_, header, payload). uh_type header = StData \<and> payload = P (uh_seq_nr header)) ps"
    and "utp_feed ps c0 = Ok c"
    and "\<And>k. uc_ack_nr c0 < k \<Longrightarrow> k \<le> n \<Longrightarrow> k \<in> (\<lambda>(_, header, _). uh_seq_nr header) ` set ps"
  shows "n \<le> uc_ack_nr c \<and> uc_state c = Established \<and>
    uc_ready_data c = stream P (unat (uc_ack_nr c0)) (unat (uc_ack_nr c))"
proof -
  have "conn_ok P (unat (uc_ack_nr c0)) [] c0"
    using assms(1-3) by (simp add: conn_ok_def recv_ok_def caught_up_def opened_def)
  from utp_feed_known [OF assms(6) this assms(1) _ assms(5)] assms(4)
  have c: "conn_ok P (unat (uc_ack_nr c0)) [] c" "uc_state c = Established"
    "\<And>s. known s c0 \<or> s \<in> (\<lambda>(_, h, _). uh_seq_nr h) ` set ps \<Longrightarrow> known s c"
    by (auto simp: roomy_def)
  have "n \<le> uc_ack_nr c"
  proof (rule ccontr)
    assume n: "\<not> n \<le> uc_ack_nr c"
    let ?k = "uc_ack_nr c + 1"
    have less: "uc_ack_nr c < n" using n by simp
    have k: "uc_ack_nr c < ?k" "?k \<le> n" using succ_unat [OF less] inc_le [OF less] by (simp_all add: word_less_nat_alt)
    have "uc_ack_nr c0 \<le> uc_ack_nr c" using c(1) by (auto simp: conn_ok_def recv_ok_def word_le_nat_alt)
    with k(1) have "uc_ack_nr c0 < ?k" by simp
    from c(3) [OF disjI2, OF assms(7) [OF this k(2)]] have "known ?k c" .
    with k(1) c(1) show False by (auto simp: known_def conn_ok_def caught_up_def)
  qed
  with c show ?thesis by (simp add: conn_ok_def recv_ok_def)
qed


text \<open>The packets eleven and twelve arrive in the wrong order at a connection that has ten.\<close>

definition byte_of :: "u16 \<Rightarrow> bytes" where
  "byte_of k = [ucast k]"

definition data_header :: "u16 \<Rightarrow> UtpHeader" where
  "data_header seq = \<lparr>uh_type = StData, uh_version = 1, uh_extension = 0, uh_connection_id = 1, uh_timestamp = 0,
     uh_timestamp_diff = 0, uh_wnd_size = 0, uh_seq_nr = seq, uh_ack_nr = 0\<rparr>"

definition open_conn :: UtpConnection where
  "open_conn = connection_new (SocketAddr (V4 5) 6) 2 1 Established 1 10 0"

lemma open_conn_simps:
  "opened open_conn" "uc_state open_conn = Established" "uc_ready_data open_conn = []" "uc_recv_buffer open_conn = []"
  "uc_ack_nr open_conn = 10" "uc_send_buffer open_conn = []"
  by (simp_all add: open_conn_def connection_new_def opened_def)

lemma handle_data:
  assumes "uc_state c = Established" and "uc_send_buffer c = []"
  shows "\<exists>d. handle_packet now (data_header seq) payload c = Ok (process_data (data_header seq) payload d) \<and>
    recv_part d = recv_part c \<and> uc_state d = Established \<and> uc_send_buffer d = []"
  using assms
  by (intro exI [of _ "c\<lparr>uc_last_activity := now, uc_cc := adjust_window (update_delay 0 now (uc_cc c))\<rparr>"])
    (simp add: handle_packet_def Let_def data_header_def process_data_packet_def handle_ack_def recv_part_def)

lemma open_run:
  "\<exists>c1 c2. handle_packet 1 (data_header 12) [12] open_conn = Ok c1 \<and> handle_packet 2 (data_header 11) [11] c1 = Ok c2 \<and>
     uc_ack_nr c2 = 12 \<and> uc_ready_data c2 = [11, 12]"
proof -
  obtain d where d: "handle_packet 1 (data_header 12) [12] open_conn = Ok (process_data (data_header 12) [12] d)"
    "recv_part d = recv_part open_conn" "uc_state d = Established" "uc_send_buffer d = []"
    using handle_data [OF open_conn_simps(2,6)] by blast
  let ?c1 = "process_data (data_header 12) [12] d"
  have part: "uc_ack_nr d = 10" "uc_ready_data d = []" "uc_recv_buffer d = []"
    using d(2) by (simp_all add: recv_part_def open_conn_simps)
  have c1: "?c1 = d\<lparr>uc_recv_buffer := [(12, [12])]\<rparr>"
    by (simp add: process_data_def data_header_def part Let_def word_le_nat_alt word_less_nat_alt)
  obtain e where e: "handle_packet 2 (data_header 11) [11] ?c1 = Ok (process_data (data_header 11) [11] e)"
    "recv_part e = recv_part ?c1"
    using handle_data [of ?c1 2 11 "[11]"] d(3,4) by (auto simp: c1)
  have part': "uc_ack_nr e = 10" "uc_ready_data e = []" "uc_recv_buffer e = [(12, [12])]"
    using e(2) part by (simp_all add: recv_part_def c1)
  have "uc_ack_nr (process_data (data_header 11) [11] e) = 12 \<and> uc_ready_data (process_data (data_header 11) [11] e) = [11, 12]"
    by (simp add: process_data_def data_header_def part' Let_def word_le_nat_alt MAX_READY_BYTES_def deliver.simps bt_remove_def)
  with d(1) e(1) show ?thesis by blast
qed

theorem utp_delivers_stream_witness:
  "\<exists>c. utp_run (\<lambda>_. True) byte_of open_conn c [11, 12] \<and> uc_ack_nr c = 12 \<and> [11, 12] = stream byte_of 10 12"
proof -
  obtain c1 c2 where c: "handle_packet 1 (data_header 12) [12] open_conn = Ok c1" "handle_packet 2 (data_header 11) [11] c1 = Ok c2"
    "uc_ack_nr c2 = 12" "uc_ready_data c2 = [11, 12]"
    using open_run by blast
  have carries: "carries byte_of (data_header 12) [12]" "carries byte_of (data_header 11) [11]"
    by (simp_all add: carries_def data_header_def byte_of_def)
  have "utp_run (\<lambda>_. True) byte_of open_conn c2 []"
    by (rule utp_packet [OF utp_packet [OF utp_start carries(1) c(1)] carries(2) c(2)])
  from utp_read [OF this, of "fst (utp_recv c2)" "[11, 12]"] c(4)
  have run: "utp_run (\<lambda>_. True) byte_of open_conn (fst (utp_recv c2)) [11, 12]" by (simp add: utp_recv_def)
  have ack: "uc_ack_nr (fst (utp_recv c2)) = 12" "uc_ready_data (fst (utp_recv c2)) = []" by (simp_all add: utp_recv_def c(3))
  from utp_delivers_stream [OF open_conn_simps(1,3,4) run] ack run show ?thesis
    by (intro exI [of _ "fst (utp_recv c2)"]) (simp add: open_conn_simps)
qed

theorem utp_all_arrive_witness:
  "\<exists>c. utp_feed [(1, data_header 12, [12]), (2, data_header 11, [11])] open_conn = Ok c \<and> 12 \<le> uc_ack_nr c \<and>
     uc_ready_data c = stream byte_of 10 12"
proof -
  let ?ps = "[(1 :: int, data_header 12, [12]), (2, data_header 11, [11])]"
  obtain c1 c2 where c: "handle_packet 1 (data_header 12) [12] open_conn = Ok c1" "handle_packet 2 (data_header 11) [11] c1 = Ok c2"
    "uc_ack_nr c2 = 12" using open_run by blast
  then have feed: "utp_feed ?ps open_conn = Ok c2" by simp
  have carry: "list_all (\<lambda>(_, header, payload). uh_type header = StData \<and> payload = byte_of (uh_seq_nr header)) ?ps"
    by (simp add: data_header_def byte_of_def)
  have len: "length (stream byte_of a n) = n - a" for a n
    by (simp add: stream_def byte_of_def length_concat comp_def sum_list_triv Suc_diff_Suc)
  have room: "length (stream byte_of (unat (uc_ack_nr open_conn)) 65535) \<le> MAX_READY_BYTES"
    by (simp only: len) (simp add: MAX_READY_BYTES_def)
  have seen: "k \<in> (\<lambda>(_, header, _). uh_seq_nr header) ` set ?ps" if "uc_ack_nr open_conn < k" "k \<le> 12" for k
  proof -
    have "unat k = 11 \<or> unat k = 12" using that by (auto simp: open_conn_simps word_less_nat_alt word_le_nat_alt)
    then have "k = 11 \<or> k = 12" by (simp add: word_unat_eq_iff)
    then show ?thesis by (auto simp: data_header_def)
  qed
  have u: "unat (10 :: u16) = 10" "unat (12 :: u16) = 12" by simp_all
  note r = utp_all_arrive [OF open_conn_simps(2-4) room carry feed seen]
  have "uc_ready_data c2 = stream byte_of 10 12"
    using conjunct2 [OF conjunct2 [OF r]] unfolding c(3) open_conn_simps(5) u .
  with feed conjunct1 [OF r] show ?thesis by blast
qed

subsection \<open>Acknowledgements\<close>




lemma bt_remove_absent: "k \<notin> fst ` set xs \<Longrightarrow> bt_remove k xs = xs"
  by (force simp: bt_remove_def filter_id_conv)






end
