(* ===== verification/Utp_Socket.thy ===== *)
theory Utp_Socket
  imports Utp_Conn_Props "HOL-Library.AList"
begin

section \<open>The uTP socket\<close>

text \<open>
  \<open>peer/utp/socket.rs\<close>: datagrams are dispatched to connections by their identifier, and the task of
  a connection feeds it packets, application data and timer ticks. A task is run when its input
  arrives; the channels between tasks are not modelled. A task that panics leaves its entry behind.
\<close>

record UtpSocket =
  us_connections :: "(u16 \<times> UtpConnection) list"
  us_out :: "(SocketAddr \<times> bytes) list"
  us_inbound :: "SocketAddr list"
  us_data :: "(u16 \<times> bytes) list"

definition utp_socket_new :: UtpSocket where
  "utp_socket_new = \<lparr>us_connections = [], us_out = [], us_inbound = [], us_data = []\<rparr>"

text \<open>What is left of a connection after a turn of its task.\<close>

definition task_end :: "u16 \<Rightarrow> UtpConnection \<times> 'a result \<Rightarrow> UtpSocket \<Rightarrow> UtpSocket" where
  "task_end i cr s =
     (case snd cr of
        Ok _ \<Rightarrow>
          if uc_state (fst cr) = Closed then s\<lparr>us_connections := AList.delete i (us_connections s)\<rparr>
          else s\<lparr>us_connections := AList.update i (fst cr) (us_connections s)\<rparr>
      | Err _ \<Rightarrow> s\<lparr>us_connections := AList.delete i (us_connections s)\<rparr>
      | Panic \<Rightarrow> s\<lparr>us_connections := AList.update i ((fst cr)\<lparr>uc_state := Closed\<rparr>) (us_connections s)\<rparr>)"

definition task_packet :: "u16 \<Rightarrow> UtpConnection \<Rightarrow> int \<Rightarrow> UtpIncoming \<Rightarrow> UtpSocket \<Rightarrow> UtpSocket" where
  "task_packet i c now p s =
     (case handle_packet now (in_header p) (in_payload p) c of
        Ok c' \<Rightarrow>
          (let (c', data) = utp_recv c';
               s = (if data = [] then s else s\<lparr>us_data := us_data s @ [(i, data)]\<rparr>)
           in task_end i (c', Ok ()) s)
      | Err e \<Rightarrow> task_end i (c, Err e :: unit result) s
      | Panic \<Rightarrow> task_end i (c, Panic :: unit result) s)"

definition task_data :: "(bytes \<Rightarrow> bool) \<Rightarrow> clock \<Rightarrow> u16 \<Rightarrow> bytes \<Rightarrow> UtpSocket \<Rightarrow> UtpSocket" where
  "task_data sock ck i data s =
     (case map_of (us_connections s) i of None \<Rightarrow> s | Some c \<Rightarrow> task_end i (utp_send sock ck data c) s)"

definition task_timer :: "(bytes \<Rightarrow> bool) \<Rightarrow> clock \<Rightarrow> u16 \<Rightarrow> UtpSocket \<Rightarrow> UtpSocket" where
  "task_timer sock ck i s =
     (case map_of (us_connections s) i of None \<Rightarrow> s | Some c \<Rightarrow> task_end i (check_retransmit sock ck c) s)"

definition socket_connect :: "(bytes \<Rightarrow> bool) \<Rightarrow> clock \<Rightarrow> SocketAddr \<Rightarrow> u16 \<Rightarrow> UtpSocket \<Rightarrow> UtpSocket \<times> unit result" where
  "socket_connect sock ck addr i s =
     (case utp_connect sock ck addr i of
        (c, Ok _) \<Rightarrow> (s\<lparr>us_connections := AList.update (uc_conn_id_recv c) c (us_connections s)\<rparr>, Ok ())
      | (_, r) \<Rightarrow> (s, r))"

definition accept_incoming :: "(bytes \<Rightarrow> bool) \<Rightarrow> clock \<Rightarrow> u16 \<Rightarrow> UtpHeader \<Rightarrow> SocketAddr \<Rightarrow> UtpSocket \<Rightarrow> UtpSocket" where
  "accept_incoming sock ck seq syn src s =
     (let conn = utp_accept ck syn src seq; i = uc_conn_id_recv conn in
      case send_state_response sock ck conn of
        (c, Ok _) \<Rightarrow> s\<lparr>us_connections := AList.update i c (us_connections s), us_inbound := us_inbound s @ [src]\<rparr>
      | (_, _) \<Rightarrow> s\<lparr>us_connections := AList.delete i (us_connections s)\<rparr>)"

definition send_reset :: "UtpHeader \<Rightarrow> SocketAddr \<Rightarrow> UtpSocket \<Rightarrow> UtpSocket" where
  "send_reset header dst s =
     s\<lparr>us_out := us_out s @ [(dst, utp_header_to_bytes
       \<lparr>uh_type = StReset, uh_version = 1, uh_extension = 0, uh_connection_id = uh_connection_id header, uh_timestamp = 0,
        uh_timestamp_diff = 0, uh_wnd_size = 0, uh_seq_nr = uh_ack_nr header, uh_ack_nr = uh_seq_nr header\<rparr>)]\<rparr>"

definition dispatch :: "(bytes \<Rightarrow> bool) \<Rightarrow> clock \<Rightarrow> u16 \<Rightarrow> SocketAddr \<Rightarrow> bytes \<Rightarrow> UtpSocket \<Rightarrow> UtpSocket" where
  "dispatch sock ck seq src data s =
     (if length data < 20 then s
      else case utp_header_from_bytes (take 20 data) of
        Ok header \<Rightarrow>
          (case map_of (us_connections s) (uh_connection_id header) of
             Some c \<Rightarrow> task_packet (uh_connection_id header) c (ck_now ck)
               \<lparr>in_header = header, in_payload = drop 20 data, in_src = src\<rparr> s
           | None \<Rightarrow>
               if uh_type header = StSyn then accept_incoming sock ck seq header src s
               else if uh_type header = StReset then s
               else send_reset header src s)
      | _ \<Rightarrow> s)"

subsection \<open>The handshake of two sockets\<close>

lemma datagram_header:
  "take 20 (utp_header_to_bytes h @ payload) = utp_header_to_bytes h" "drop 20 (utp_header_to_bytes h @ payload) = payload"
  "\<not> length (utp_header_to_bytes h @ payload) < 20"
  using length_utp_header [of h] by (simp_all add: UTP_HEADER_SIZE_def)

lemma from_to_v1: "uh_version h = 1 \<Longrightarrow> utp_header_from_bytes (utp_header_to_bytes h) = Ok h"
  using utp_from_to [of h] by (simp add: UTP_VERSION_def)


lemma send_raw_ok:
  "send_raw (\<lambda>_. True) ck t seq ack payload c =
     (let packet = utp_datagram c ck t seq ack payload in
      (c\<lparr>uc_cc := add_in_flight (of_nat (length packet)) (uc_cc c),
         uc_send_buffer := bt_insert seq
           \<lparr>sp_data = packet, sp_seq_nr = seq, sp_send_time = ck_now ck, sp_retransmit_count = 0, sp_rtt_measurable = (t \<noteq> StSyn)\<rparr>
           (uc_send_buffer c),
         uc_out := uc_out c @ [(uc_remote_addr c, packet)], uc_last_activity := ck_now ck\<rparr>, Ok ()))"
  by (simp add: send_raw_def sock_send_def act_read_def act_seq_def act_bind_def act_update_def Let_def)

lemma dispatch_datagram:
  assumes "uh_version h = 1"
  shows "dispatch sock ck seq src (utp_header_to_bytes h @ payload) s =
    (case map_of (us_connections s) (uh_connection_id h) of
       Some c \<Rightarrow> task_packet (uh_connection_id h) c (ck_now ck) \<lparr>in_header = h, in_payload = payload, in_src = src\<rparr> s
     | None \<Rightarrow>
         if uh_type h = StSyn then accept_incoming sock ck seq h src s
         else if uh_type h = StReset then s
         else send_reset h src s)"
  by (simp only: dispatch_def datagram_header from_to_v1 [OF assms] result.case if_False)

lemma task_end_other: "j \<noteq> k \<Longrightarrow> map_of (us_connections (task_end k cr s)) j = map_of (us_connections s) j"
  by (simp add: task_end_def delete_conv' update_conv' split: result.split)

lemma task_packet_other:
  assumes "j \<noteq> k"
  shows "map_of (us_connections (task_packet k c now p s)) j = map_of (us_connections s) j"
  by (simp add: task_packet_def task_end_other [OF assms] Let_def split: result.split prod.split)

lemma reset_connections [simp]: "us_connections (send_reset h dst s) = us_connections s"
  by (simp add: send_reset_def)

text \<open>A datagram changes no connection but the one it is numbered for, a SYN apart.\<close>

lemma dispatch_other:
  assumes "uh_version h = 1" and "j \<noteq> uh_connection_id h" and "uh_type h \<noteq> StSyn"
  shows "map_of (us_connections (dispatch sock ck seq src (utp_header_to_bytes h @ payload) s)) j = map_of (us_connections s) j"
  unfolding dispatch_datagram [OF assms(1)] using assms(2,3) by (simp add: task_packet_other split: option.split)

text \<open>
  C30. The answer to a SYN does not reach the connection that sent it. When a socket, whatever other connections
  it has, connects to another one under an identifier, the SYN carries the identifier plus one. If the other
  socket has no connection under that number, it registers one there, waiting for data; its answer carries the
  identifier plus two. So the answer, when it arrives at the first socket, leaves the new connection as it was,
  waiting for the answer to its SYN: it goes to whatever connection is registered under the identifier plus
  two. If there is none, the socket answers with a reset, which leaves the connection of the other
  socket as it was too.
\<close>

theorem utp_handshake_fails:
  assumes "map_of (us_connections B) (i + 1) = None"
  shows "let all = (\<lambda>_ :: bytes. True); A1 = fst (socket_connect all ck1 b i A)
   in \<exists>c d1 c' d2. map_of (us_connections A1) i = Some c \<and> uc_state c = SynSent \<and> uc_out c = [(b, d1)] \<and>
    map_of (us_connections (dispatch all ck2 seq a d1 B)) (i + 1) = Some c' \<and> uc_state c' = SynRecv \<and> uc_out c' = [(a, d2)] \<and>
    map_of (us_connections (dispatch all ck3 seq' b d2 A1)) i = Some c \<and>
    (map_of (us_connections A) (i + 2) = None \<longrightarrow>
      (\<exists>d3. us_out (dispatch all ck3 seq' b d2 A1) = us_out A @ [(b, d3)] \<and>
        map_of (us_connections (dispatch all ck4 seq' a d3 (dispatch all ck2 seq a d1 B))) (i + 1) = Some c'))"
proof -
  define all where "all = (\<lambda>_ :: bytes. True)"
  define A1 where "A1 = fst (socket_connect all ck1 b i A)"
  define h1 where "h1 = \<lparr>uh_type = StSyn, uh_version = 1, uh_extension = 0, uh_connection_id = i + 1, uh_timestamp = ck_time ck1,
     uh_timestamp_diff = 0, uh_wnd_size = 1000000, uh_seq_nr = 2, uh_ack_nr = 0\<rparr>"
  define h2 where "h2 = \<lparr>uh_type = StState, uh_version = 1, uh_extension = 0, uh_connection_id = i + 1 + 1, uh_timestamp = ck_time ck2,
     uh_timestamp_diff = 0, uh_wnd_size = 1000000, uh_seq_nr = seq, uh_ack_nr = 2\<rparr>"
  define h3 where "h3 = \<lparr>uh_type = StReset, uh_version = 1, uh_extension = 0, uh_connection_id = i + 1 + 1, uh_timestamp = 0,
     uh_timestamp_diff = 0, uh_wnd_size = 0, uh_seq_nr = 2, uh_ack_nr = seq\<rparr>"
  let ?d1 = "utp_header_to_bytes h1 @ []" and ?d2 = "utp_header_to_bytes h2 @ []" and ?d3 = "utp_header_to_bytes h3 @ []"
  have v: "uh_version h1 = 1" "uh_version h2 = 1" "uh_version h3 = 1" by (simp_all add: h1_def h2_def h3_def)
  define c where "c = fst (utp_connect all ck1 b i)"
  have c: "utp_connect all ck1 b i = (c, Ok ())" "uc_state c = SynSent" "uc_conn_id_recv c = i" "uc_out c = [(b, ?d1)]"
    by (simp_all add: c_def utp_connect_def send_packet_def all_def act_read_def act_seq_update send_raw_ok Let_def connection_new_def
      utp_datagram_def cc_new_def h1_def)
  have A1: "us_connections A1 = AList.update i c (us_connections A)" "us_out A1 = us_out A"
    by (simp_all add: A1_def socket_connect_def c(1,3))
  then have A1i: "map_of (us_connections A1) i = Some c" by (simp add: update_conv')
  define c' where "c' = fst (send_state_response all ck2 (utp_accept ck2 h1 a seq))"
  have c': "send_state_response all ck2 (utp_accept ck2 h1 a seq) = (c', Ok ())" "uc_state c' = SynRecv" "uc_out c' = [(a, ?d2)]"
    by (simp_all add: c'_def send_state_response_def act_read_def all_def send_raw_ok Let_def utp_accept_def connection_new_def
      utp_datagram_def cc_new_def h1_def h2_def)
  have recv: "uc_conn_id_recv (utp_accept ck2 h1 a seq) = i + 1" by (simp add: utp_accept_def connection_new_def h1_def)
  let ?B = "dispatch all ck2 seq a ?d1 B" and ?A = "dispatch all ck3 seq' b ?d2 A1"
  have "?B = accept_incoming all ck2 seq h1 a B"
    unfolding dispatch_datagram [OF v(1)] using assms by (simp add: h1_def)
  then have B: "map_of (us_connections ?B) (i + 1) = Some c'"
    by (simp add: accept_incoming_def Let_def c'(1) recv update_conv')
  have A2: "map_of (us_connections ?A) i = Some c"
    unfolding A1i [symmetric] by (rule dispatch_other [OF v(2)]) (simp_all add: h2_def)
  have "us_out ?A = us_out A @ [(b, ?d3)]" if "map_of (us_connections A) (i + 2) = None"
  proof -
    have "map_of (us_connections A1) (uh_connection_id h2) = None" using that by (simp add: A1 h2_def update_conv' add.commute)
    then show ?thesis unfolding dispatch_datagram [OF v(2)] by (simp add: send_reset_def A1 h2_def h3_def)
  qed
  moreover have "map_of (us_connections (dispatch all ck4 seq' a ?d3 ?B)) (i + 1) = Some c'"
    unfolding B [symmetric] by (rule dispatch_other [OF v(3)]) (simp_all add: h3_def)
  ultimately show ?thesis
    unfolding Let_def all_def [symmetric] A1_def [symmetric]
    using A1i c(2,4) B c'(2,3) A2 by (intro exI [of _ c] exI [of _ ?d1] exI [of _ c'] exI [of _ ?d2]) blast
qed

theorem utp_handshake_fails_witness:
  "\<forall>ck1 ck2 ck3 ck4 a b seq seq'. let all = (\<lambda>_. True); A1 = fst (socket_connect all ck1 b 65535 utp_socket_new)
   in \<exists>c d1 c' d2 d3. map_of (us_connections A1) 65535 = Some c \<and> uc_state c = SynSent \<and>
    map_of (us_connections (dispatch all ck2 seq a d1 utp_socket_new)) 0 = Some c' \<and> uc_state c' = SynRecv \<and> uc_out c' = [(a, d2)] \<and>
    map_of (us_connections (dispatch all ck3 seq' b d2 A1)) 65535 = Some c \<and>
    us_out (dispatch all ck3 seq' b d2 A1) = [(b, d3)] \<and>
    map_of (us_connections (dispatch all ck4 seq' a d3 (dispatch all ck2 seq a d1 utp_socket_new))) 0 = Some c'"
proof (intro allI)
  fix ck1 ck2 ck3 ck4 a b seq seq'
  have none: "map_of (us_connections utp_socket_new) (65535 + 1) = None" "map_of (us_connections utp_socket_new) (65535 + 2) = None"
    "us_out utp_socket_new = []" by (simp_all add: utp_socket_new_def)
  have zero: "65535 + 1 = (0 :: u16)" by simp
  show "let all = (\<lambda>_. True); A1 = fst (socket_connect all ck1 b 65535 utp_socket_new)
   in \<exists>c d1 c' d2 d3. map_of (us_connections A1) 65535 = Some c \<and> uc_state c = SynSent \<and>
    map_of (us_connections (dispatch all ck2 seq a d1 utp_socket_new)) 0 = Some c' \<and> uc_state c' = SynRecv \<and> uc_out c' = [(a, d2)] \<and>
    map_of (us_connections (dispatch all ck3 seq' b d2 A1)) 65535 = Some c \<and>
    us_out (dispatch all ck3 seq' b d2 A1) = [(b, d3)] \<and>
    map_of (us_connections (dispatch all ck4 seq' a d3 (dispatch all ck2 seq a d1 utp_socket_new))) 0 = Some c'"
    using utp_handshake_fails [OF none(1), of ck1 b utp_socket_new ck2 seq a ck3 seq' ck4] none(2)
    unfolding Let_def zero none(3) append_Nil by blast
qed

text \<open>The connection that is registered under the number of the answer takes it for its own.\<close>

lemma answer_taken_by_another:
  assumes "map_of (us_connections s) (uh_connection_id h) = Some c" and "uc_state c = SynSent" and "uh_type h = StState" and "uh_version h = 1"
    and "handle_packet (ck_now ck) h [] c = Ok c'"
  shows "dispatch sock ck seq src (utp_header_to_bytes h @ []) s =
    task_packet (uh_connection_id h) c (ck_now ck) \<lparr>in_header = h, in_payload = [], in_src = src\<rparr> s \<and> uc_state c' = Established"
proof -
  have "uc_state c' = Established"
    using assms(2,3,5) by (auto simp: handle_packet_def Let_def and_then_Ok dest!: handle_ack_frame)
  then show ?thesis unfolding dispatch_datagram [OF assms(4)] using assms(1) by simp
qed

text \<open>
  The first packet of data completes the handshake of the accepting side; its payload is acknowledged
  but not delivered. And numbers do not wrap around: behind the last one nothing is taken any more.
\<close>

lemma first_payload_lost:
  assumes "uc_state c = SynRecv" and "uh_type header = StData" and "handle_packet now header payload c = Ok c'"
  shows "uc_ack_nr c' = uh_seq_nr header \<and> uc_ready_data c' = uc_ready_data c \<and> uc_state c' = Established"
proof -
  let ?c = "c\<lparr>uc_last_activity := now, uc_cc := update_delay (uh_timestamp_diff header) now (uc_cc c), uc_state := Established,
     uc_ack_nr := uh_seq_nr header\<rparr>"
  obtain d where d: "handle_ack now header ?c = Ok d" "c' = process_data header payload d"
    using assms by (auto simp: handle_packet_def Let_def process_data_packet_def and_then_Ok)
  with handle_ack_frame [OF d(1)] show ?thesis by (simp add: process_data_def recv_part_def)
qed

lemma nothing_after_wrap: "uc_ack_nr c = 65535 \<Longrightarrow> process_data header payload c = c"
  using u16_le [of "uh_seq_nr header"] by (simp add: process_data_def word_le_nat_alt Let_def)

end
