(* ===== verification/Udp_Tracker.thy ===== *)
theory Udp_Tracker
  imports Tracker Effects
begin

section \<open>The UDP tracker client\<close>

text \<open>
  \<open>tracker/udp.rs\<close>: the packets of BEP 15, the two-phase exchange with its retries, and the loop over
  the addresses of the tracker. The socket is the part of the state that is not the client's: the
  datagrams sent so far, and a script of what each exchange (a send, then a receive with a deadline)
  meets; an exhausted script times out. Name resolution and binding are parameters, as are the
  random transaction numbers. The receive buffer cuts a longer datagram.
\<close>

definition INITIAL_CONNECTION_ID :: u64 where "INITIAL_CONNECTION_ID = 0x41727101980"
definition UDP_MAX_RETRIES :: nat where "UDP_MAX_RETRIES = 4"
definition RECV_BUF_SIZE :: nat where "RECV_BUF_SIZE = 2048"

datatype udp_event = SendFails | Datagram bytes SocketAddr | RecvFails | TimedOut

record udp_env =
  ue_lookup :: "rstring \<Rightarrow> u16 \<Rightarrow> SocketAddr list option"
  ue_bind :: "SocketAddr \<Rightarrow> bool"
  ue_random :: "nat \<Rightarrow> u32"

record UdpTracker =
  ut_connection_id :: "u64 option"
  ut_cached_addr :: "SocketAddr option"
  ut_sent :: "(SocketAddr \<times> bytes) list"
  ut_script :: "udp_event list"
  ut_draws :: nat

definition udp_tracker_new :: "rstring \<Rightarrow> udp_event list \<Rightarrow> UdpTracker result" where
  "udp_tracker_new scheme script =
     (if scheme \<noteq> ascii ''udp'' then Err InvalidInput
      else Ok \<lparr>ut_connection_id = None, ut_cached_addr = None, ut_sent = [], ut_script = script, ut_draws = 0\<rparr>)"

subsection \<open>Packets\<close>

definition build_connect_packet :: "u32 \<Rightarrow> bytes" where
  "build_connect_packet transaction_id =
     to_be_bytes INITIAL_CONNECTION_ID @ to_be_bytes (0 :: u32) @ to_be_bytes transaction_id"

definition udp_event_code :: "AnnounceEvent \<Rightarrow> u32" where
  "udp_event_code event = (case event of EvNone \<Rightarrow> 0 | EvCompleted \<Rightarrow> 1 | EvStarted \<Rightarrow> 2 | EvStopped \<Rightarrow> 3)"

definition build_announce_packet :: "u64 \<Rightarrow> u32 \<Rightarrow> AnnounceRequest \<Rightarrow> u32 \<Rightarrow> bytes" where
  "build_announce_packet connection_id transaction_id req event =
     to_be_bytes connection_id @ to_be_bytes (1 :: u32) @ to_be_bytes transaction_id @
     rq_info_hash req @ rq_peer_id req @
     to_be_bytes (rq_downloaded req) @ to_be_bytes (rq_left req) @ to_be_bytes (rq_uploaded req) @
     to_be_bytes event @ to_be_bytes (0 :: u32) @
     to_be_bytes (case rq_key req of Some k \<Rightarrow> k | None \<Rightarrow> 0) @
     to_be_bytes (case rq_numwant req of Some n \<Rightarrow> n | None \<Rightarrow> 50) @
     to_be_bytes (rq_port req)"

definition field32 :: "bytes \<Rightarrow> nat \<Rightarrow> u32" where
  "field32 data i = from_be_bytes (take 4 (drop i data))"

definition parse_connect_response :: "bytes \<Rightarrow> u32 \<Rightarrow> u64 result" where
  "parse_connect_response data expected =
     (if length data < 16 then Err TrackerProtocolError
      else let action = field32 data 0 in
        if action = 3 then Err TrackerProtocolError
        else if action \<noteq> 0 then Err TrackerProtocolError
        else let transaction_id = field32 data 4 in
          if transaction_id \<noteq> expected then Err TrackerProtocolError
          else Ok (from_be_bytes (take 8 (drop 8 data))))"

definition parse_announce_response :: "bytes \<Rightarrow> u32 \<Rightarrow> AnnounceResponse result" where
  "parse_announce_response data expected =
     (if length data < 20 then Err TrackerProtocolError
      else let action = field32 data 0 in
        if action = 3 then Err TrackerProtocolError
        else if action \<noteq> 1 then Err TrackerProtocolError
        else let transaction_id = field32 data 4 in
          if transaction_id \<noteq> expected then Err TrackerProtocolError
          else let interval = field32 data 8; leechers = field32 data 12; seeders = field32 data 16;
                   peer_data = drop 20 data;
                   peers = (if peer_data = [] then Ok []
                            else if length peer_data mod 18 = 0 then parse_compact_peers_ipv6 peer_data
                            else if length peer_data mod 6 = 0 then parse_compact_peers_ipv4 peer_data
                            else Err TrackerProtocolError)
               in and_then peers (\<lambda>peers. Ok (from_udp_fields interval seeders leechers peers)))"

subsection \<open>Exchanges\<close>

text \<open>One \<open>send_to\<close> and the \<open>recv_from\<close> behind it. The buffer has \<open>cap\<close> bytes.\<close>

fun next_event :: "udp_event list \<Rightarrow> udp_event \<times> udp_event list" where
  "next_event [] = (TimedOut, [])"
| "next_event (e # es) = (e, es)"

definition exchange :: "nat \<Rightarrow> SocketAddr \<Rightarrow> bytes \<Rightarrow> (UdpTracker, udp_event) act" where
  "exchange cap addr packet = (\<lambda>t.
     let (e, es) = next_event (ut_script t);
         t = t\<lparr>ut_script := es\<rparr>
     in case e of
          SendFails \<Rightarrow> (t, Ok SendFails)
        | Datagram data src \<Rightarrow> (t\<lparr>ut_sent := ut_sent t @ [(addr, packet)]\<rparr>, Ok (Datagram (take cap data) src))
        | _ \<Rightarrow> (t\<lparr>ut_sent := ut_sent t @ [(addr, packet)]\<rparr>, Ok e))"

definition draw :: "udp_env \<Rightarrow> (UdpTracker, u32) act" where
  "draw E = (\<lambda>t. (t\<lparr>ut_draws := Suc (ut_draws t)\<rparr>, Ok (ue_random E (ut_draws t))))"

fun connect_loop :: "nat \<Rightarrow> SocketAddr \<Rightarrow> bytes \<Rightarrow> u32 \<Rightarrow> (UdpTracker, u64) act" where
  "connect_loop 0 addr packet tid = act_lift (Err TrackerRequestFailed)"
| "connect_loop (Suc n) addr packet tid =
     act_bind (exchange 16 addr packet) (\<lambda>e. case e of
       SendFails \<Rightarrow> act_lift (Err TrackerRequestFailed)
     | Datagram data src \<Rightarrow>
         if src \<noteq> addr then connect_loop n addr packet tid else act_lift (parse_connect_response data tid)
     | RecvFails \<Rightarrow> connect_loop n addr packet tid
     | TimedOut \<Rightarrow> connect_loop n addr packet tid)"

definition udp_connect :: "udp_env \<Rightarrow> SocketAddr \<Rightarrow> (UdpTracker, u64) act" where
  "udp_connect E addr =
     act_bind (draw E) (\<lambda>tid. connect_loop UDP_MAX_RETRIES addr (build_connect_packet tid) tid)"

text \<open>
  The announce phase at one address: a response, or the error to report when this was the last
  address. \<open>last_err\<close> is the variable of the code.
\<close>

datatype phase = Done AnnounceResponse | NextAddr "ErrorKind option"

fun announce_loop :: "nat \<Rightarrow> SocketAddr \<Rightarrow> bytes \<Rightarrow> u32 \<Rightarrow> ErrorKind option \<Rightarrow> (UdpTracker, phase) act" where
  "announce_loop 0 addr packet tid last_err = act_return (NextAddr last_err)"
| "announce_loop (Suc n) addr packet tid last_err =
     act_bind (exchange RECV_BUF_SIZE addr packet) (\<lambda>e. case e of
       SendFails \<Rightarrow> act_return (NextAddr (Some TrackerRequestFailed))
     | Datagram data src \<Rightarrow>
         if src \<noteq> addr then announce_loop n addr packet tid last_err
         else (case parse_announce_response data tid of
                 Ok response \<Rightarrow> act_return (Done response)
               | Err k \<Rightarrow> act_seq (act_update (\<lambda>t. t\<lparr>ut_connection_id := None\<rparr>)) (act_return (NextAddr (Some k)))
               | Panic \<Rightarrow> act_lift Panic)
     | RecvFails \<Rightarrow> announce_loop n addr packet tid (Some TrackerRequestFailed)
     | TimedOut \<Rightarrow> announce_loop n addr packet tid last_err)"

definition announce_phase ::
    "udp_env \<Rightarrow> AnnounceRequest \<Rightarrow> SocketAddr \<Rightarrow> ErrorKind option \<Rightarrow> u64 \<Rightarrow> (UdpTracker, phase) act" where
  "announce_phase E req addr last_err cid =
     act_bind (draw E) (\<lambda>tid.
       announce_loop UDP_MAX_RETRIES addr (build_announce_packet cid tid req (udp_event_code (rq_event req))) tid last_err)"

text \<open>The connection identifier: the cached one, or that of a connect exchange, which is then cached.\<close>

definition connection_phase :: "udp_env \<Rightarrow> SocketAddr \<Rightarrow> (UdpTracker, u64) act" where
  "connection_phase E addr = act_read (\<lambda>t. case ut_connection_id t of
     Some cid \<Rightarrow> act_return cid
   | None \<Rightarrow> act_bind (udp_connect E addr) (\<lambda>cid.
       act_seq (act_update (\<lambda>t. t\<lparr>ut_connection_id := Some cid\<rparr>)) (act_return cid)))"

definition announce_at ::
    "udp_env \<Rightarrow> AnnounceRequest \<Rightarrow> SocketAddr \<Rightarrow> ErrorKind option \<Rightarrow> (UdpTracker, phase) act" where
  "announce_at E req addr last_err =
     (if \<not> ue_bind E addr then act_return (NextAddr last_err)
      else (\<lambda>t. case connection_phase E addr t of
              (t, Ok cid) \<Rightarrow> announce_phase E req addr last_err cid t
            | (t, Err e) \<Rightarrow> (t, Ok (NextAddr (Some e)))
            | (t, Panic) \<Rightarrow> (t, Panic)))"

fun announce_addrs ::
    "udp_env \<Rightarrow> AnnounceRequest \<Rightarrow> SocketAddr list \<Rightarrow> ErrorKind option \<Rightarrow> (UdpTracker, AnnounceResponse) act" where
  "announce_addrs E req [] last_err =
     act_lift (Err (case last_err of Some e \<Rightarrow> e | None \<Rightarrow> TrackerRequestFailed))"
| "announce_addrs E req (addr # addrs) last_err =
     act_bind (announce_at E req addr last_err) (\<lambda>p. case p of
       Done response \<Rightarrow> act_return response
     | NextAddr last_err \<Rightarrow> announce_addrs E req addrs last_err)"

definition target_addrs :: "udp_env \<Rightarrow> rstring \<Rightarrow> u16 \<Rightarrow> (UdpTracker, SocketAddr list) act" where
  "target_addrs E host port = act_read (\<lambda>t. case ut_cached_addr t of
     Some addr \<Rightarrow> act_return [addr]
   | None \<Rightarrow> act_bind (act_lift (ok_or TrackerRequestFailed (ue_lookup E host port))) (\<lambda>addrs.
       act_seq (case addrs of [] \<Rightarrow> act_return () | a # _ \<Rightarrow> act_update (\<lambda>t. t\<lparr>ut_cached_addr := Some a\<rparr>))
         (act_return addrs)))"

definition udp_announce ::
    "udp_env \<Rightarrow> rstring option \<Rightarrow> u16 option \<Rightarrow> AnnounceRequest \<Rightarrow> (UdpTracker, AnnounceResponse) act" where
  "udp_announce E host port req =
     (case host of
        None \<Rightarrow> act_lift (Err InvalidInput)
      | Some host \<Rightarrow>
          act_bind (target_addrs E host (case port of Some p \<Rightarrow> p | None \<Rightarrow> 6969)) (\<lambda>addrs.
            announce_addrs E req addrs None))"


subsection \<open>What an exchange leaves behind\<close>

text \<open>
  From \<open>t\<close> to \<open>t'\<close> the client consumed a prefix of the script and sent at most \<open>k\<close> datagrams; a
  connection identifier it holds is the one it had, or was read from an answer to a connect packet it
  sent to the address the answer came from.
\<close>

definition connected :: "udp_event list \<Rightarrow> (SocketAddr \<times> bytes) list \<Rightarrow> u64 \<Rightarrow> bool" where
  "connected es xs cid \<longleftrightarrow>
     (\<exists>data addr tid. Datagram data addr \<in> set es \<and> (addr, build_connect_packet tid) \<in> set xs \<and>
        parse_connect_response (take 16 data) tid = Ok cid)"

definition learned :: "UdpTracker \<Rightarrow> UdpTracker \<Rightarrow> u64 \<Rightarrow> bool" where
  "learned t t' cid \<longleftrightarrow> ut_connection_id t = Some cid \<or>
     (\<exists>pre xs. ut_script t = pre @ ut_script t' \<and> ut_sent t' = ut_sent t @ xs \<and> connected pre xs cid)"

lemma connected_append: "connected es xs cid \<Longrightarrow> connected (es' @ es @ es'') (xs' @ xs @ xs'') cid"
  by (auto simp: connected_def)

definition udp_step :: "nat \<Rightarrow> UdpTracker \<Rightarrow> UdpTracker \<Rightarrow> bool" where
  "udp_step k t t' \<longleftrightarrow>
     (\<exists>pre. ut_script t = pre @ ut_script t') \<and>
     (\<exists>xs. ut_sent t' = ut_sent t @ xs \<and> length xs \<le> k) \<and>
     (\<forall>cid. ut_connection_id t' = Some cid \<longrightarrow> learned t t' cid)"

lemma udp_step_refl [simp]: "udp_step k t t"
  by (simp add: udp_step_def learned_def)

lemma learned_before:
  assumes "ut_script t = pre @ ut_script u" "ut_sent u = ut_sent t @ xs" "learned u v cid"
    and "ut_connection_id u = Some cid \<longrightarrow> learned t u cid" "ut_script u = pre' @ ut_script v" "ut_sent v = ut_sent u @ xs'"
  shows "learned t v cid"
proof -
  consider "ut_connection_id t = Some cid" | ps ys where "ut_script t = ps @ ut_script u" "ut_sent u = ut_sent t @ ys" "connected ps ys cid"
    | ps ys where "ut_script u = ps @ ut_script v" "ut_sent v = ut_sent u @ ys" "connected ps ys cid"
    using assms(3,4) unfolding learned_def by blast
  then show ?thesis
  proof cases
    case 2
    with connected_append [OF 2(3), of "[]" pre' "[]" xs'] assms(5,6) show ?thesis unfolding learned_def by auto
  next
    case 3
    with connected_append [OF 3(3), of pre "[]" xs "[]"] assms(1,2) show ?thesis unfolding learned_def by auto
  qed (simp add: learned_def)
qed

lemma udp_step_trans:
  assumes "udp_step k t1 t2" and "udp_step l t2 t3"
  shows "udp_step (k + l) t1 t3"
proof -
  obtain pre xs where 1: "ut_script t1 = pre @ ut_script t2" "ut_sent t2 = ut_sent t1 @ xs" "length xs \<le> k"
    "\<And>cid. ut_connection_id t2 = Some cid \<longrightarrow> learned t1 t2 cid"
    using assms(1) unfolding udp_step_def by blast
  obtain pre' xs' where 2: "ut_script t2 = pre' @ ut_script t3" "ut_sent t3 = ut_sent t2 @ xs'" "length xs' \<le> l"
    "\<And>cid. ut_connection_id t3 = Some cid \<Longrightarrow> learned t2 t3 cid"
    using assms(2) unfolding udp_step_def by blast
  have "learned t1 t3 cid" if "ut_connection_id t3 = Some cid" for cid
    by (rule learned_before [OF 1(1,2) 2(4) [OF that] 1(4) 2(1,2)])
  moreover have "ut_script t1 = (pre @ pre') @ ut_script t3" "ut_sent t3 = ut_sent t1 @ xs @ xs'" "length (xs @ xs') \<le> k + l"
    using 1 2 by simp_all
  ultimately show ?thesis unfolding udp_step_def by blast
qed

lemma udp_step_mono: "udp_step k t t' \<Longrightarrow> k \<le> l \<Longrightarrow> udp_step l t t'"
  unfolding udp_step_def by (meson order_trans)

lemma udp_step_same:
  "ut_script t' = ut_script t \<Longrightarrow> ut_sent t' = ut_sent t \<Longrightarrow>
   ut_connection_id t' = None \<or> ut_connection_id t' = ut_connection_id t \<Longrightarrow> udp_step k t t'"
  by (auto simp: udp_step_def learned_def)

lemma exchange_step: "exchange cap addr packet t = (t', r) \<Longrightarrow> udp_step 1 t t' \<and> ut_connection_id t' = ut_connection_id t"
  by (cases "ut_script t") (auto simp: exchange_def udp_step_def learned_def Let_def split: udp_event.splits)

lemma exchange_Ok: "exchange cap addr packet t = (t', r) \<Longrightarrow> \<exists>e. r = Ok e"
  by (auto simp: exchange_def Let_def split: prod.splits udp_event.splits)

lemma exchange_datagram:
  "exchange cap addr packet t = (t', Ok (Datagram data src)) \<Longrightarrow>
   \<exists>d. data = take cap d \<and> ut_script t = Datagram d src # ut_script t' \<and> ut_sent t' = ut_sent t @ [(addr, packet)]"
  by (cases "ut_script t") (auto simp: exchange_def Let_def split: udp_event.splits)

lemma parse_response_no_panic [simp]: "parse_announce_response data tid \<noteq> Panic" "parse_connect_response data tid \<noteq> Panic"
  by (auto simp: parse_announce_response_def parse_connect_response_def Let_def
      parse_compact_peers_ipv4_def parse_compact_peers_ipv6_def)

lemma connect_loop_step:
  "connect_loop n addr (build_connect_packet tid) tid t = (t', r) \<Longrightarrow>
   udp_step n t t' \<and> ut_connection_id t' = ut_connection_id t \<and> r \<noteq> Panic \<and>
   (\<forall>cid. r = Ok cid \<longrightarrow> learned t t' cid)"
proof (induction n arbitrary: t)
  case (Suc n)
  obtain u e where ex: "exchange 16 addr (build_connect_packet tid) t = (u, Ok e)"
    using exchange_Ok by (metis surj_pair)
  note st = exchange_step [OF ex]
  have rec: ?case if "connect_loop n addr (build_connect_packet tid) tid u = (t', r)"
  proof -
    note ih = Suc.IH [OF that]
    have "udp_step (Suc n) t t'"
      using udp_step_trans [of 1 t u n t'] st ih by simp
    moreover have "learned t t' cid" if "r = Ok cid" for cid
    proof -
      obtain pre xs where 1: "ut_script t = pre @ ut_script u" "ut_sent u = ut_sent t @ xs" using st unfolding udp_step_def by blast
      obtain pre' xs' where 2: "ut_script u = pre' @ ut_script t'" "ut_sent t' = ut_sent u @ xs'" using ih unfolding udp_step_def by blast
      have "learned u t' cid" using ih that by blast
      moreover have "ut_connection_id u = Some cid \<longrightarrow> learned t u cid" using st by (simp add: learned_def)
      ultimately show ?thesis by (rule learned_before [OF 1 _ _ 2])
    qed
    ultimately show ?thesis using ih st by simp
  qed
  have stop: ?case if "(t', r) = (u, Err k)" for k
    using that st udp_step_mono [of 1 t u "Suc n"] by simp
  show ?case
  proof (cases e)
    case (Datagram data src)
    show ?thesis
    proof (cases "src = addr")
      case True
      obtain d where "data = take 16 d" "ut_script t = Datagram d src # ut_script u"
        "ut_sent u = ut_sent t @ [(addr, build_connect_packet tid)]"
        using exchange_datagram ex Datagram by blast
      moreover have "t' = u" "r = parse_connect_response data tid"
        using Suc.prems ex Datagram True by (auto simp: act_bind_def act_lift_def)
      ultimately show ?thesis
        using st udp_step_mono [of 1 t u "Suc n"] True by (auto simp: learned_def connected_def)
    qed (use Suc.prems ex Datagram rec in \<open>simp add: act_bind_def\<close>)
  qed (use Suc.prems ex rec stop in \<open>auto simp: act_bind_def act_lift_def\<close>)
qed (auto simp: act_lift_def)

lemma connection_phase_step:
  "connection_phase E addr t = (t', r) \<Longrightarrow>
   udp_step 4 t t' \<and> r \<noteq> Panic \<and> (\<forall>cid. r = Ok cid \<longrightarrow> ut_connection_id t' = Some cid)"
proof (cases "ut_connection_id t")
  case None
  assume cp: "connection_phase E addr t = (t', r)"
  let ?tid = "ue_random E (ut_draws t)" and ?t0 = "t\<lparr>ut_draws := Suc (ut_draws t)\<rparr>"
  obtain u r' where cl: "connect_loop 4 addr (build_connect_packet ?tid) ?tid ?t0 = (u, r')"
    by fastforce
  note st = connect_loop_step [OF cl]
  have t0: "udp_step 0 t ?t0" by (rule udp_step_same) simp_all
  have tu: "udp_step 4 t u" using udp_step_trans [OF t0] st by fastforce
  show ?thesis
  proof (cases r')
    case (Ok cid)
    have "learned t u cid" using st Ok by (simp add: learned_def)
    then have "udp_step 4 t (u\<lparr>ut_connection_id := Some cid\<rparr>)"
      using tu by (simp add: udp_step_def learned_def)
    moreover have "t' = u\<lparr>ut_connection_id := Some cid\<rparr>" "r = result.Ok cid"
      using cp None cl Ok by (auto simp: connection_phase_def udp_connect_def draw_def act_bind_def act_read_def
          act_seq_def act_update_def act_return_def UDP_MAX_RETRIES_def)
    ultimately show ?thesis by simp
  qed (use cp None cl tu st in \<open>auto simp: connection_phase_def udp_connect_def draw_def act_bind_def act_read_def UDP_MAX_RETRIES_def\<close>)
qed (auto simp: connection_phase_def act_read_def act_return_def)


text \<open>The answer: the last datagram consumed came from the address the last packet went to.\<close>

definition answered :: "SocketAddr \<Rightarrow> bytes \<Rightarrow> u32 \<Rightarrow> UdpTracker \<Rightarrow> UdpTracker \<Rightarrow> AnnounceResponse \<Rightarrow> bool" where
  "answered addr packet tid t t' resp \<longleftrightarrow>
     (\<exists>pre data xs. ut_script t = pre @ Datagram data addr # ut_script t' \<and>
        ut_sent t' = ut_sent t @ xs @ [(addr, packet)] \<and>
        parse_announce_response (take RECV_BUF_SIZE data) tid = Ok resp)"

lemma answered_later: "udp_step k t u \<Longrightarrow> answered addr packet tid u t' resp \<Longrightarrow> answered addr packet tid t t' resp"
  unfolding answered_def udp_step_def by (elim conjE exE) (metis append.assoc)

lemma udp_step_forget: "udp_step k t u \<Longrightarrow> udp_step k t (u\<lparr>ut_connection_id := None\<rparr>)"
  by (simp add: udp_step_def)

lemma announce_loop_step:
  "announce_loop n addr packet tid le t = (t', r) \<Longrightarrow>
   udp_step n t t' \<and> (\<exists>p. r = Ok p) \<and>
   (\<forall>resp. r = Ok (Done resp) \<longrightarrow> answered addr packet tid t t' resp \<and> ut_connection_id t' = ut_connection_id t)"
proof (induction n arbitrary: t le)
  case (Suc n)
  obtain u e where ex: "exchange RECV_BUF_SIZE addr packet t = (u, Ok e)"
    using exchange_Ok by (metis surj_pair)
  note st = exchange_step [OF ex]
  have rec: ?case if "announce_loop n addr packet tid le' u = (t', r)" for le'
  proof -
    note ih = Suc.IH [OF that]
    have "udp_step (Suc n) t t'"
      using udp_step_trans [of 1 t u n t'] st ih by simp
    then show ?thesis using ih st answered_later by fastforce
  qed
  have su: "udp_step (Suc n) t u" using st udp_step_mono [of 1 t u "Suc n"] by simp
  have stop: ?case if "udp_step (Suc n) t t'" "r = Ok (NextAddr k)" for k
    using that by simp
  show ?case
  proof (cases e)
    case (Datagram data src)
    show ?thesis
    proof (cases "src = addr")
      case True
      obtain d where d: "data = take RECV_BUF_SIZE d" "ut_script t = Datagram d src # ut_script u"
        "ut_sent u = ut_sent t @ [(addr, packet)]"
        using exchange_datagram ex Datagram by blast
      show ?thesis
      proof (cases "parse_announce_response data tid")
        case (Ok resp)
        then have "t' = u" "r = result.Ok (Done resp)"
          using Suc.prems ex Datagram True by (auto simp: act_bind_def act_return_def)
        moreover have "answered addr packet tid t u resp"
          using d Ok True unfolding answered_def by fastforce
        ultimately show ?thesis using st su by simp
      next
        case (Err k)
        then show ?thesis
          using Suc.prems ex Datagram True stop [of "Some k"] udp_step_forget [OF su]
          by (auto simp: act_bind_def act_return_def act_seq_def act_update_def)
      qed simp
    next
      case False
      show ?thesis by (rule rec [of le]) (use Suc.prems ex Datagram False in \<open>simp add: act_bind_def\<close>)
    qed
    next
    case SendFails
    then have "t' = u" "r = Ok (NextAddr (Some TrackerRequestFailed))"
      using Suc.prems ex by (auto simp: act_bind_def act_return_def)
    then show ?thesis using stop su by simp
  next
    case RecvFails
    show ?thesis
      by (rule rec [of "Some TrackerRequestFailed"]) (use Suc.prems ex RecvFails in \<open>simp add: act_bind_def\<close>)
  next
    case TimedOut
    show ?thesis by (rule rec [of le]) (use Suc.prems ex TimedOut in \<open>simp add: act_bind_def\<close>)
  qed
qed (auto simp: act_return_def)

text \<open>The announce at one address and over all of them.\<close>

definition announce_answer :: "AnnounceRequest \<Rightarrow> SocketAddr \<Rightarrow> UdpTracker \<Rightarrow> UdpTracker \<Rightarrow> AnnounceResponse \<Rightarrow> bool" where
  "announce_answer req addr t t' resp \<longleftrightarrow> (\<exists>tid cid.
     answered addr (build_announce_packet cid tid req (udp_event_code (rq_event req))) tid t t' resp \<and>
     ut_connection_id t' = Some cid \<and> learned t t' cid)"

lemma announce_at_step:
  assumes "announce_at E req addr le t = (t', r)"
  shows "udp_step 8 t t' \<and> (\<exists>p. r = Ok p) \<and> (\<forall>resp. r = Ok (Done resp) \<longrightarrow> announce_answer req addr t t' resp)"
proof (cases "ue_bind E addr")
  case False
  then show ?thesis using assms by (auto simp: announce_at_def act_return_def)
next
  case True
  obtain u r' where cp: "connection_phase E addr t = (u, r')" by fastforce
  note st = connection_phase_step [OF cp]
  show ?thesis
  proof (cases r')
    case (Ok cid)
    let ?tid = "ue_random E (ut_draws u)" and ?u = "u\<lparr>ut_draws := Suc (ut_draws u)\<rparr>"
    let ?packet = "build_announce_packet cid ?tid req (udp_event_code (rq_event req))"
    have al: "announce_loop 4 addr ?packet ?tid le ?u = (t', r)"
      using assms True cp Ok by (simp add: announce_at_def announce_phase_def draw_def act_bind_def UDP_MAX_RETRIES_def)
    note ls = announce_loop_step [OF al]
    have "udp_step 0 u ?u" by (rule udp_step_same) simp_all
    then have tu: "udp_step 4 t ?u" using udp_step_trans [of 4 t u 0 ?u] st by simp
    have tt: "udp_step 8 t t'" using udp_step_trans [OF tu] ls by fastforce
    have "announce_answer req addr t t' resp" if "r = result.Ok (Done resp)" for resp
    proof -
      have cid: "ut_connection_id t' = Some cid" using ls that st Ok by simp
      moreover have "learned t t' cid" using tt cid by (simp add: udp_step_def)
      ultimately show ?thesis
        using ls that answered_later [OF tu] unfolding announce_answer_def by blast
    qed
    then show ?thesis using tt ls by blast
  qed (use assms True cp st udp_step_mono [of 4 t u 8] in \<open>auto simp: announce_at_def\<close>)
qed

lemma announce_addrs_step:
  "announce_addrs E req addrs le t = (t', r) \<Longrightarrow>
   udp_step (8 * length addrs) t t' \<and> r \<noteq> Panic \<and>
   (\<forall>resp. r = Ok resp \<longrightarrow> (\<exists>addr \<in> set addrs. announce_answer req addr t t' resp))"
proof (induction addrs arbitrary: t le)
  case (Cons addr addrs)
  obtain u r' where at: "announce_at E req addr le t = (u, r')" by fastforce
  note st = announce_at_step [OF at]
  then obtain p where p: "r' = Ok p" by blast
  show ?case
  proof (cases p)
    case (Done resp)
    then have "t' = u" "r = Ok resp" using Cons.prems at p by (auto simp: act_bind_def act_return_def)
    then show ?thesis using st p Done udp_step_mono [of 8 t u "8 * length (addr # addrs)"] by simp
  next
    case (NextAddr le')
    then have rest: "announce_addrs E req addrs le' u = (t', r)" using Cons.prems at p by (simp add: act_bind_def)
    note ih = Cons.IH [OF rest]
    have tt: "udp_step (8 * length (addr # addrs)) t t'"
      using udp_step_trans [of 8 t u "8 * length addrs" t'] st ih by simp
    moreover have "announce_answer req a t t' resp" if "announce_answer req a u t' resp" for a resp
      using that st answered_later tt unfolding announce_answer_def udp_step_def by blast
    ultimately show ?thesis using ih by fastforce
  qed
qed (auto simp: act_lift_def split: option.splits)


definition candidate_addrs :: "udp_env \<Rightarrow> rstring option \<Rightarrow> u16 option \<Rightarrow> UdpTracker \<Rightarrow> SocketAddr list" where
  "candidate_addrs E host port t =
     (case ut_cached_addr t of
        Some a \<Rightarrow> [a]
      | None \<Rightarrow> (case host of
          None \<Rightarrow> []
        | Some h \<Rightarrow> (case ue_lookup E h (case port of Some p \<Rightarrow> p | None \<Rightarrow> 6969) of Some as \<Rightarrow> as | None \<Rightarrow> [])))"

lemma udp_announce_step:
  assumes "udp_announce E host port req t = (t', r)"
  shows "udp_step (8 * length (candidate_addrs E host port t)) t t' \<and> r \<noteq> Panic \<and>
    (\<forall>resp. r = Ok resp \<longrightarrow> (\<exists>addr \<in> set (candidate_addrs E host port t). announce_answer req addr t t' resp))"
proof (cases host)
  case (Some h)
  let ?p = "case port of Some p \<Rightarrow> p | None \<Rightarrow> 6969"
  show ?thesis
  proof (cases "ut_cached_addr t")
    case (Some a)
    then show ?thesis
      using assms \<open>host = Some h\<close> announce_addrs_step [of E req "[a]" None t t' r]
      by (simp add: udp_announce_def target_addrs_def act_bind_def act_read_def act_return_def candidate_addrs_def)
  next
    case None
    show ?thesis
    proof (cases "ue_lookup E h ?p")
      case (Some addrs)
      define u where "u = (case addrs of [] \<Rightarrow> t | a # _ \<Rightarrow> t\<lparr>ut_cached_addr := Some a\<rparr>)"
      have rest: "announce_addrs E req addrs None u = (t', r)"
        using assms \<open>host = Some h\<close> None Some
        by (cases addrs) (auto simp: udp_announce_def target_addrs_def act_bind_def act_read_def act_return_def
            act_lift_def act_seq_def act_update_def u_def)
      have u: "udp_step 0 t u" by (rule udp_step_same) (simp_all add: u_def split: list.split)
      have cand: "candidate_addrs E host port t = addrs"
        using \<open>host = Some h\<close> None Some by (simp add: candidate_addrs_def)
      note st = announce_addrs_step [OF rest]
      have tt: "udp_step (8 * length addrs) t t'" using udp_step_trans [OF u] st by fastforce
      have "announce_answer req a t t' resp" if "announce_answer req a u t' resp" for a resp
        using that answered_later [OF u] tt unfolding announce_answer_def udp_step_def by blast
      then show ?thesis using st tt cand by blast
    qed (use assms \<open>host = Some h\<close> None in \<open>auto simp: udp_announce_def target_addrs_def act_bind_def act_read_def act_lift_def candidate_addrs_def\<close>)
  qed
qed (use assms in \<open>auto simp: udp_announce_def act_lift_def candidate_addrs_def\<close>)

text \<open>What the parsers accepted, in bytes.\<close>

lemma be_bytes_take: "n = LENGTH('a) div 8 \<Longrightarrow> LENGTH('a) mod 8 = 0 \<Longrightarrow> n \<le> length bs \<Longrightarrow>
    to_be_bytes (from_be_bytes (take n bs) :: 'a::len word) = take n bs"
  by (intro to_from_be_bytes) auto

lemma connect_response_bytes:
  assumes "parse_connect_response data tid = Ok cid" and "length data \<le> 16"
  shows "data = to_be_bytes (0 :: u32) @ to_be_bytes tid @ to_be_bytes cid"
proof -
  have p: "length data = 16" "field32 data 0 = 0" "field32 data 4 = tid" "from_be_bytes (take 8 (drop 8 data)) = cid"
    using assms by (auto simp: parse_connect_response_def Let_def split: if_splits)
  have "to_be_bytes (field32 data 0) = take 4 data" "to_be_bytes (field32 data 4) = take 4 (drop 4 data)"
    "to_be_bytes (from_be_bytes (take 8 (drop 8 data)) :: u64) = take 8 (drop 8 data)"
    unfolding field32_def by (subst be_bytes_take; simp add: p(1))+
  then have "data = take 4 data @ take 4 (drop 4 data) @ take 8 (drop 8 data)"
    using p(1) by (metis append_take_drop_id drop_drop drop_eq_Nil add.commute numeral_Bit0 take_all_iff order_refl length_drop diff_diff_add)
  then show ?thesis
    using p(2-4) \<open>to_be_bytes (field32 data 0) = take 4 data\<close> \<open>to_be_bytes (field32 data 4) = take 4 (drop 4 data)\<close>
      \<open>to_be_bytes (from_be_bytes (take 8 (drop 8 data)) :: u64) = take 8 (drop 8 data)\<close> by metis
qed

lemma announce_response_bytes:
  assumes "parse_announce_response data tid = Ok resp"
  shows "20 \<le> length data \<and> take 8 data = to_be_bytes (1 :: u32) @ to_be_bytes tid \<and>
    ar_interval resp = from_be_bytes (take 4 (drop 8 data)) \<and> ar_incomplete resp = from_be_bytes (take 4 (drop 12 data)) \<and>
    ar_complete resp = from_be_bytes (take 4 (drop 16 data))"
proof -
  have p: "20 \<le> length data" "field32 data 0 = 1" "field32 data 4 = tid"
    using assms by (auto simp: parse_announce_response_def Let_def split: if_splits)
  have "to_be_bytes (field32 data 0) = take 4 data" "to_be_bytes (field32 data 4) = take 4 (drop 4 data)"
    unfolding field32_def by (subst be_bytes_take; use p(1) in simp)+
  moreover have "take 8 data = take 4 data @ take 4 (drop 4 data)" using take_add [of 4 4 data] by simp
  ultimately have "take 8 data = to_be_bytes (1 :: u32) @ to_be_bytes tid" using p(2,3) by simp
  then show ?thesis
    using assms p(1) by (auto simp: parse_announce_response_def Let_def field32_def from_udp_fields_def split: if_splits)
qed

text \<open>The answer to a connect packet, and the connect packet, in bytes.\<close>

definition connect_exchanged :: "udp_event list \<Rightarrow> (SocketAddr \<times> bytes) list \<Rightarrow> u64 \<Rightarrow> bool" where
  "connect_exchanged es xs cid \<longleftrightarrow>
     (\<exists>data addr tid. Datagram data addr \<in> set es \<and>
        (addr, to_be_bytes (0x41727101980 :: u64) @ to_be_bytes (0 :: u32) @ to_be_bytes (tid :: u32)) \<in> set xs \<and>
        take 16 data = to_be_bytes (0 :: u32) @ to_be_bytes tid @ to_be_bytes cid)"

lemma connected_bytes:
  assumes "connected es xs cid"
  shows "connect_exchanged es xs cid"
proof -
  obtain data addr tid where c: "Datagram data addr \<in> set es" "(addr, build_connect_packet tid) \<in> set xs"
    "parse_connect_response (take 16 data) tid = Ok cid"
    using assms unfolding connected_def by blast
  have "take 16 data = to_be_bytes (0 :: u32) @ to_be_bytes tid @ to_be_bytes cid"
    by (rule connect_response_bytes [OF c(3)]) simp
  then show ?thesis
    using c(1,2) unfolding connect_exchanged_def build_connect_packet_def INITIAL_CONNECTION_ID_def by blast
qed

lemma announce_packet_head:
  "take 16 (build_announce_packet cid tid req ev) = to_be_bytes cid @ to_be_bytes (1 :: u32) @ to_be_bytes tid"
  by (simp add: build_announce_packet_def codec_simps)

lemma udp_announce_sound_parts:
  assumes "udp_announce E host port req t = (t', r)"
  shows "r \<noteq> Panic"
    and "\<exists>xs. ut_sent t' = ut_sent t @ xs \<and> length xs \<le> 8 * length (candidate_addrs E host port t)"
    and "r = Ok resp \<Longrightarrow> \<exists>addr \<in> set (candidate_addrs E host port t). \<exists>tid cid pre data xs.
       ut_script t = pre @ Datagram data addr # ut_script t' \<and>
       ut_sent t' = ut_sent t @ xs @ [(addr, build_announce_packet cid tid req (udp_event_code (rq_event req)))] \<and>
       parse_announce_response (take RECV_BUF_SIZE data) tid = Ok resp \<and>
       ut_connection_id t' = Some cid \<and> learned t t' cid"
  using udp_announce_step [OF assms] unfolding announce_answer_def answered_def udp_step_def by blast+

text \<open>C15.
  A response of the UDP client answers the announce it sent. The datagram it was read from is the last
  one consumed; it came from the address that the last packet went to, which is the cached one or one the
  host resolves to. That packet begins with a connection identifier, the action 1 and a transaction
  number, and the datagram with the action 1 and the same number; the interval and the counts
  of the response are the fields behind them. The connection identifier, which stays cached, was
  cached before (from whatever address it was obtained then), or in this call a connect packet with some
  transaction number went to an address that answered with the action 0, that number and the
  identifier. However the network behaves, at most eight datagrams per address are sent.\<close>

theorem udp_announce_sound:
  assumes "udp_announce E host port req t = (t', r)"
  shows "r \<noteq> Panic \<and>
     (\<exists>xs. ut_sent t' = ut_sent t @ xs \<and> length xs \<le> 8 * length (candidate_addrs E host port t)) \<and>
     (\<forall>resp. r = Ok resp \<longrightarrow> (\<exists>addr \<in> set (candidate_addrs E host port t). \<exists>(tid :: u32) (cid :: u64) pre data xs packet.
       ut_script t = pre @ Datagram data addr # ut_script t' \<and> ut_sent t' = ut_sent t @ xs @ [(addr, packet)] \<and>
       take 16 packet = to_be_bytes cid @ to_be_bytes (1 :: u32) @ to_be_bytes tid \<and>
       packet = build_announce_packet cid tid req (udp_event_code (rq_event req)) \<and>
       20 \<le> length data \<and> take 8 data = to_be_bytes (1 :: u32) @ to_be_bytes tid \<and>
       ar_interval resp = from_be_bytes (take 4 (drop 8 data)) \<and> ar_incomplete resp = from_be_bytes (take 4 (drop 12 data)) \<and>
       ar_complete resp = from_be_bytes (take 4 (drop 16 data)) \<and>
       parse_announce_response (take RECV_BUF_SIZE data) tid = Ok resp \<and>
       ut_connection_id t' = Some cid \<and> (ut_connection_id t = Some cid \<or> connect_exchanged pre xs cid)))"
proof (intro conjI allI impI)
  note parts = udp_announce_sound_parts [OF assms]
  show "r \<noteq> Panic" "\<exists>xs. ut_sent t' = ut_sent t @ xs \<and> length xs \<le> 8 * length (candidate_addrs E host port t)" by (rule parts)+
  fix resp assume "r = Ok resp"
  from parts(3) [OF this] obtain addr tid cid pre data xs where
    a: "addr \<in> set (candidate_addrs E host port t)" "ut_script t = pre @ Datagram data addr # ut_script t'"
    "ut_sent t' = ut_sent t @ xs @ [(addr, build_announce_packet cid tid req (udp_event_code (rq_event req)))]"
    "parse_announce_response (take RECV_BUF_SIZE data) tid = Ok resp" "ut_connection_id t' = Some cid" "learned t t' cid"
    by blast
  note bytes = announce_response_bytes [OF a(4)]
  have cut: "take 8 (take RECV_BUF_SIZE data) = take 8 data" "take 4 (drop 8 (take RECV_BUF_SIZE data)) = take 4 (drop 8 data)"
    "take 4 (drop 12 (take RECV_BUF_SIZE data)) = take 4 (drop 12 data)" "take 4 (drop 16 (take RECV_BUF_SIZE data)) = take 4 (drop 16 data)"
    by (simp_all add: RECV_BUF_SIZE_def min_def drop_take)
  have head: "take 8 data = to_be_bytes (1 :: u32) @ to_be_bytes tid" "20 \<le> length data"
    using bytes unfolding cut by simp_all
  have "ut_connection_id t = Some cid \<or> connect_exchanged pre xs cid"
  proof (cases "ut_connection_id t = Some cid")
    case False
    then obtain ps ys where "ut_script t = ps @ ut_script t'" "ut_sent t' = ut_sent t @ ys" "connected ps ys cid"
      using a(6) unfolding learned_def by blast
    let ?packet = "build_announce_packet cid tid req (udp_event_code (rq_event req))"
    have ps: "ps = pre @ [Datagram data addr]" and ys: "ys = xs @ [(addr, ?packet)]"
      using \<open>ut_script t = ps @ ut_script t'\<close> \<open>ut_sent t' = ut_sent t @ ys\<close> a(2,3) by simp_all
    from connected_bytes [OF \<open>connected ps ys cid\<close>] obtain d' a' tid' where
      d': "Datagram d' a' \<in> set ps" "take 16 d' = to_be_bytes (0 :: u32) @ to_be_bytes tid' @ to_be_bytes cid"
      "(a', to_be_bytes (0x41727101980 :: u64) @ to_be_bytes (0 :: u32) @ to_be_bytes (tid' :: u32)) \<in> set ys"
      unfolding connect_exchanged_def by blast
    have "d' \<noteq> data"
    proof
      assume "d' = data"
      have "take 4 (take 16 d') = to_be_bytes (0 :: u32)" unfolding d'(2) by simp
      moreover have "take 4 (take 8 data) = to_be_bytes (1 :: u32)" unfolding head(1) by simp
      ultimately have "to_be_bytes (0 :: u32) = to_be_bytes (1 :: u32)" using \<open>d' = data\<close> by simp
      then have "(from_be_bytes (to_be_bytes (0 :: u32)) :: u32) = from_be_bytes (to_be_bytes (1 :: u32))" by simp
      then show False by (simp add: from_to_be_bytes)
    qed
    moreover have "to_be_bytes (0x41727101980 :: u64) @ to_be_bytes (0 :: u32) @ to_be_bytes (tid' :: u32) \<noteq> ?packet"
    proof
      assume "to_be_bytes (0x41727101980 :: u64) @ to_be_bytes (0 :: u32) @ to_be_bytes (tid' :: u32) = ?packet"
      then have "length (to_be_bytes (0x41727101980 :: u64) @ to_be_bytes (0 :: u32) @ to_be_bytes (tid' :: u32)) = length ?packet" by simp
      then show False by (simp add: build_announce_packet_def)
    qed
    ultimately have "Datagram d' a' \<in> set pre" "(a', to_be_bytes (0x41727101980 :: u64) @ to_be_bytes (0 :: u32) @ to_be_bytes (tid' :: u32)) \<in> set xs"
      using d'(1,3) by (auto simp: ps ys)
    then show ?thesis using d'(2) unfolding connect_exchanged_def by blast
  qed simp
  then show "\<exists>addr \<in> set (candidate_addrs E host port t). \<exists>(tid :: u32) (cid :: u64) pre data xs packet.
       ut_script t = pre @ Datagram data addr # ut_script t' \<and> ut_sent t' = ut_sent t @ xs @ [(addr, packet)] \<and>
       take 16 packet = to_be_bytes cid @ to_be_bytes (1 :: u32) @ to_be_bytes tid \<and>
       packet = build_announce_packet cid tid req (udp_event_code (rq_event req)) \<and>
       20 \<le> length data \<and> take 8 data = to_be_bytes (1 :: u32) @ to_be_bytes tid \<and>
       ar_interval resp = from_be_bytes (take 4 (drop 8 data)) \<and> ar_incomplete resp = from_be_bytes (take 4 (drop 12 data)) \<and>
       ar_complete resp = from_be_bytes (take 4 (drop 16 data)) \<and>
       parse_announce_response (take RECV_BUF_SIZE data) tid = Ok resp \<and>
       ut_connection_id t' = Some cid \<and> (ut_connection_id t = Some cid \<or> connect_exchanged pre xs cid)"
    using a(1-5) bytes [unfolded cut] head announce_packet_head [of cid tid req "udp_event_code (rq_event req)"] by blast
qed

definition sample_udp_env :: udp_env where
  "sample_udp_env = \<lparr>ue_lookup = \<lambda>h p. Some [SocketAddr (V4 1) p], ue_bind = \<lambda>_. True, ue_random = of_nat\<rparr>"

definition sample_udp_script :: "udp_event list" where
  "sample_udp_script =
     [TimedOut,
      Datagram [0, 0, 0, 0, 0, 0, 0, 0, 0, 0, 0, 0, 0, 0, 0, 77] (SocketAddr (V4 1) 6969),
      Datagram [] (SocketAddr (V4 9) 6969),
      Datagram [0, 0, 0, 1, 0, 0, 0, 1, 0, 0, 7, 8, 0, 0, 0, 2, 0, 0, 0, 5, 0, 0, 0, 7, 26, 225] (SocketAddr (V4 1) 6969)]"

definition sample_udp_tracker :: UdpTracker where
  "sample_udp_tracker = \<lparr>ut_connection_id = None, ut_cached_addr = None, ut_sent = [], ut_script = sample_udp_script, ut_draws = 0\<rparr>"

definition sample_udp_request :: AnnounceRequest where
  "sample_udp_request = announce_request_new (replicate 20 1) (replicate 20 2) 6881"

lemma udp_retries: "UDP_MAX_RETRIES = Suc (Suc (Suc (Suc 0)))"
  by (simp add: UDP_MAX_RETRIES_def)

lemma sample_udp_peers: "parse_compact_peers_ipv4 [0, 0, 0, 7, 26, 225] = Ok [SocketAddr (V4 7) 6881]"
  using chunks_exact_append [of "[0, 0, 0, 7, 26, 225] :: bytes" 6 "[]"]
  by (simp add: parse_compact_peers_ipv4_def addr4_from_chunk_def from_be_bytes_def be_val_def)

lemma sample_udp_announce:
  "snd (udp_announce sample_udp_env (Some []) None sample_udp_request sample_udp_tracker) =
     Ok (from_udp_fields 1800 5 2 [SocketAddr (V4 7) 6881])"
  by (simp add: sample_udp_env_def sample_udp_script_def sample_udp_tracker_def udp_announce_def target_addrs_def
      announce_at_def connection_phase_def udp_connect_def announce_phase_def draw_def exchange_def
      udp_retries RECV_BUF_SIZE_def act_bind_def act_read_def act_lift_def act_return_def act_seq_def act_update_def
      parse_connect_response_def parse_announce_response_def field32_def from_be_bytes_def be_val_def sample_udp_peers)

theorem udp_announce_sound_witness:
  "let (t', r) = udp_announce sample_udp_env (Some []) None sample_udp_request sample_udp_tracker
   in r = Ok (from_udp_fields 1800 5 2 [SocketAddr (V4 7) 6881]) \<and> r \<noteq> Panic \<and> (\<exists>cid. ut_connection_id t' = Some cid)"
  using udp_announce_sound [OF surjective_pairing, of sample_udp_env "Some []" None sample_udp_request sample_udp_tracker]
    sample_udp_announce by (auto simp: Let_def split: prod.split)


subsection \<open>The packets\<close>

lemma announce_packet_layout:
  assumes "length (rq_info_hash req) = 20" "length (rq_peer_id req) = 20"
  shows "length (build_announce_packet cid tid req ev) = 98"
    and "from_be_bytes (take 8 (build_announce_packet cid tid req ev)) = cid"
    and "field32 (build_announce_packet cid tid req ev) 8 = 1"
    and "field32 (build_announce_packet cid tid req ev) 12 = tid"
    and "take 20 (drop 16 (build_announce_packet cid tid req ev)) = rq_info_hash req"
    and "take 20 (drop 36 (build_announce_packet cid tid req ev)) = rq_peer_id req"
    and "field32 (build_announce_packet cid tid req ev) 80 = ev"
    and "from_be_bytes (drop 96 (build_announce_packet cid tid req ev)) = rq_port req"
  using assms by (simp_all add: build_announce_packet_def field32_def codec_simps)

text \<open>What a tracker answers, and what the client reads from it.\<close>

definition udp_reply :: "u32 \<Rightarrow> u32 \<Rightarrow> u32 \<Rightarrow> u32 \<Rightarrow> bytes \<Rightarrow> bytes" where
  "udp_reply tid interval leechers seeders peers =
     to_be_bytes (1 :: u32) @ to_be_bytes tid @ to_be_bytes interval @ to_be_bytes leechers @ to_be_bytes seeders @ peers"

lemma parse_udp_reply:
  "parse_announce_response (udp_reply tid interval leechers seeders peers) tid =
     and_then (if peers = [] then Ok []
               else if length peers mod 18 = 0 then parse_compact_peers_ipv6 peers
               else if length peers mod 6 = 0 then parse_compact_peers_ipv4 peers
               else Err TrackerProtocolError)
       (\<lambda>ps. Ok (from_udp_fields interval seeders leechers ps))"
  by (simp add: parse_announce_response_def udp_reply_def field32_def codec_simps Let_def)

lemma length_compact4: "list_all is_v4 ps \<Longrightarrow> length (encode_compact_peers_ipv4 ps) = 6 * length ps"
  by (simp add: encode_compact4_eq filter_all compact4.length_concat_enc)

lemma length_compact6: "list_all is_v6 ps \<Longrightarrow> length (encode_compact_peers_ipv6 ps) = 18 * length ps"
  by (simp add: encode_compact6_eq filter_all compact6.length_concat_enc)

lemma mod_6_18: "(6 * n) mod 18 = 0 \<longleftrightarrow> 3 dvd (n :: nat)"
  by presburger

lemma udp_peers_read_parts:
  assumes "list_all is_v4 v4" "list_all is_v6 v6"
  shows "parse_announce_response (udp_reply tid interval leechers seeders (encode_compact_peers_ipv6 v6)) tid =
           Ok (from_udp_fields interval seeders leechers v6)"
    and "v4 = [] \<or> \<not> 3 dvd length v4 \<longleftrightarrow>
         parse_announce_response (udp_reply tid interval leechers seeders (encode_compact_peers_ipv4 v4)) tid =
           Ok (from_udp_fields interval seeders leechers v4)"
    and "v4 \<noteq> [] \<Longrightarrow> 3 dvd length v4 \<Longrightarrow> \<exists>ps. list_all is_v6 ps \<and> ps \<noteq> [] \<and> 3 * length ps = length v4 \<and>
         parse_announce_response (udp_reply tid interval leechers seeders (encode_compact_peers_ipv4 v4)) tid =
           Ok (from_udp_fields interval seeders leechers ps)"
proof -
  have l4: "length (encode_compact_peers_ipv4 v4) = 6 * length v4" and e4: "encode_compact_peers_ipv4 v4 = [] \<longleftrightarrow> v4 = []"
    using length_compact4 [OF assms(1)] by auto
  have l6: "length (encode_compact_peers_ipv6 v6) = 18 * length v6"
    using length_compact6 [OF assms(2)] .
  then have e6: "encode_compact_peers_ipv6 v6 = [] \<longleftrightarrow> v6 = []"
    by (metis length_0_conv mult_eq_0_iff zero_neq_numeral)
  show "parse_announce_response (udp_reply tid interval leechers seeders (encode_compact_peers_ipv6 v6)) tid =
          Ok (from_udp_fields interval seeders leechers v6)"
    using l6 e6 by (simp add: parse_udp_reply parse_encode_compact6 filter_all [OF assms(2)])
  define ps where "ps = map addr6_from_chunk (chunks_exact 18 (encode_compact_peers_ipv4 v4))"
  have six: "list_all is_v6 ps" using compact6.all_ok by (simp add: ps_def)
  have mix: "parse_announce_response (udp_reply tid interval leechers seeders (encode_compact_peers_ipv4 v4)) tid =
        Ok (from_udp_fields interval seeders leechers (if v4 = [] \<or> \<not> 3 dvd length v4 then v4 else ps))"
    using l4 e4 mod_6_18 [of "length v4"]
    by (auto simp: parse_udp_reply parse_encode_compact4 filter_all [OF assms(1)] parse_compact_peers_ipv6_def ps_def)
  have len: "3 * length ps = length v4" if "3 dvd length v4"
    using that l4 by (auto simp: ps_def length_chunks_exact)
  show "v4 \<noteq> [] \<Longrightarrow> 3 dvd length v4 \<Longrightarrow> \<exists>ps. list_all is_v6 ps \<and> ps \<noteq> [] \<and> 3 * length ps = length v4 \<and>
         parse_announce_response (udp_reply tid interval leechers seeders (encode_compact_peers_ipv4 v4)) tid =
           Ok (from_udp_fields interval seeders leechers ps)"
    using six mix len by (intro exI [of _ ps]) auto
  have "ps \<noteq> v4" if "3 dvd length v4" "v4 \<noteq> []"
    using len [OF that(1)] that(2) by auto
  then show "v4 = [] \<or> \<not> 3 dvd length v4 \<longleftrightarrow>
         parse_announce_response (udp_reply tid interval leechers seeders (encode_compact_peers_ipv4 v4)) tid =
           Ok (from_udp_fields interval seeders leechers v4)"
    using mix by (auto simp: from_udp_fields_def)
qed

text \<open>C20.
  The peers of a UDP response: a list of IPv6 peers is read as it was sent. A list of IPv4 peers is read
  as it was sent exactly when its length is not a positive multiple of three; otherwise a third as many
  IPv6 addresses are made of it, none of which was sent.\<close>

theorem udp_peers_read:
  assumes "list_all is_v4 v4" "list_all is_v6 v6"
  shows "parse_announce_response (udp_reply tid interval leechers seeders (encode_compact_peers_ipv6 v6)) tid =
         Ok (from_udp_fields interval seeders leechers v6) \<and>
     (v4 = [] \<or> \<not> 3 dvd length v4 \<longleftrightarrow>
       parse_announce_response (udp_reply tid interval leechers seeders (encode_compact_peers_ipv4 v4)) tid =
         Ok (from_udp_fields interval seeders leechers v4)) \<and>
     (v4 \<noteq> [] \<and> 3 dvd length v4 \<longrightarrow> (\<exists>ps. list_all is_v6 ps \<and> ps \<noteq> [] \<and> 3 * length ps = length v4 \<and>
       parse_announce_response (udp_reply tid interval leechers seeders (encode_compact_peers_ipv4 v4)) tid =
         Ok (from_udp_fields interval seeders leechers ps)))"
  using udp_peers_read_parts [OF assms] by blast

theorem udp_peers_read_witness:
  "parse_announce_response (udp_reply 1 1800 2 5 (encode_compact_peers_ipv4 [SocketAddr (V4 7) 6881])) 1 =
     Ok (from_udp_fields 1800 5 2 [SocketAddr (V4 7) 6881]) \<and>
   (\<exists>p. is_v6 p \<and> parse_announce_response
       (udp_reply 1 1800 2 5 (encode_compact_peers_ipv4 [SocketAddr (V4 7) 1, SocketAddr (V4 8) 2, SocketAddr (V4 9) 3])) 1 =
     Ok (from_udp_fields 1800 5 2 [p]))"
proof -
  let ?three = "[SocketAddr (V4 7) 1, SocketAddr (V4 8) 2, SocketAddr (V4 9) 3]"
  obtain ps where "list_all is_v6 ps" "3 * length ps = length ?three"
    "parse_announce_response (udp_reply 1 1800 2 5 (encode_compact_peers_ipv4 ?three)) 1 = Ok (from_udp_fields 1800 5 2 ps)"
    using udp_peers_read [of ?three "[]" 1 1800 2 5] by (auto simp: numeral_3_eq_3)
  moreover from this obtain p where "ps = [p]"
    by (cases ps) auto
  ultimately show ?thesis
    using udp_peers_read [of "[SocketAddr (V4 7) 6881]" "[]" 1 1800 2 5] by auto
qed

subsection \<open>What the client keeps when nobody answers\<close>

text \<open>
  Timeouts do not forget the cached connection identifier: only an answer that does not parse does. With
  an identifier that the tracker has dropped and that it does not answer, every later announce uses it again.
\<close>

lemma next_event_silent: "set script \<subseteq> {TimedOut, RecvFails} \<Longrightarrow>
  fst (next_event script) \<in> {TimedOut, RecvFails} \<and> set (snd (next_event script)) \<subseteq> {TimedOut, RecvFails}"
  by (cases script) auto

lemma announce_loop_silent:
  "set (ut_script t) \<subseteq> {TimedOut, RecvFails} \<Longrightarrow>
   ut_connection_id (fst (announce_loop n addr packet tid le t)) = ut_connection_id t"
proof (induction n arbitrary: t le)
  case (Suc n)
  obtain e es where ne: "next_event (ut_script t) = (e, es)" by fastforce
  then have e: "e \<in> {TimedOut, RecvFails}" "set es \<subseteq> {TimedOut, RecvFails}"
    using next_event_silent [OF Suc.prems] by auto
  let ?u = "t\<lparr>ut_script := es, ut_sent := ut_sent t @ [(addr, packet)]\<rparr>"
  have "exchange RECV_BUF_SIZE addr packet t = (?u, Ok e)"
    using ne e by (auto simp: exchange_def)
  then show ?case
    using e Suc.IH [of ?u] by (auto simp: act_bind_def)
qed (simp add: act_return_def)

lemma stale_connection_id_kept:
  assumes "ut_connection_id t = Some cid" "ut_cached_addr t = Some addr" "ue_bind E addr"
    and "set (ut_script t) \<subseteq> {TimedOut, RecvFails}"
  shows "ut_connection_id (fst (udp_announce E (Some host) port req t)) = Some cid"
proof -
  let ?t = "t\<lparr>ut_draws := Suc (ut_draws t)\<rparr>" and ?tid = "ue_random E (ut_draws t)"
  let ?packet = "build_announce_packet cid ?tid req (udp_event_code (rq_event req))"
  obtain u r where al: "announce_loop UDP_MAX_RETRIES addr ?packet ?tid None ?t = (u, r)" by fastforce
  have "ut_connection_id u = Some cid"
    using announce_loop_silent [of ?t UDP_MAX_RETRIES addr ?packet ?tid None] al assms by simp
  moreover have "fst (udp_announce E (Some host) port req t) = u"
    using assms al announce_loop_step [OF al]
    by (auto simp: udp_announce_def target_addrs_def act_bind_def act_read_def act_return_def act_lift_def
        announce_at_def connection_phase_def announce_phase_def draw_def split: phase.splits)
  ultimately show ?thesis by simp
qed

end
