(* ===== verification/Lsd.thy ===== *)
theory Lsd
  imports Magnet Peer_Manager
begin

section \<open>Local service discovery\<close>

text \<open>
  \<open>peer/lsd.rs\<close> of \<open>torrent-core\<close> (BEP 14): the announce, its printer with the limit of 1400 bytes and
  its parser; and the handlers of \<open>session/lsd.rs\<close> that broadcast and receive it. The map of torrents is
  a list of pairs in the order in which the code iterates over it.
\<close>

definition LSD_PORT :: u16 where "LSD_PORT = 6771"
definition LSD_IPV4_MULTICAST :: ipv4 where "LSD_IPV4_MULTICAST = 0xEFC0988F"
definition LSD_IPV6_MULTICAST :: ipv6 where "LSD_IPV6_MULTICAST = 0xFF1500000000000000000000EFC0988F"
definition MAX_ANNOUNCE_SIZE :: nat where "MAX_ANNOUNCE_SIZE = 1400"

datatype LsdHost = LsdV4 | LsdV6

definition multicast_addr :: "LsdHost \<Rightarrow> rstring" where
  "multicast_addr h = (case h of LsdV4 \<Rightarrow> ascii ''239.192.152.143:6771'' | LsdV6 \<Rightarrow> ascii ''[ff15::efc0:988f]:6771'')"

definition from_host_header :: "rstring \<Rightarrow> LsdHost option" where
  "from_host_header s =
     (if s = ascii ''239.192.152.143:6771'' then Some LsdV4
      else if s = ascii ''[ff15::efc0:988f]:6771'' then Some LsdV6
      else None)"

record LsdAnnounce =
  la_host :: LsdHost
  la_port :: u16
  la_info_hashes :: "bytes list"
  la_cookie :: "rstring option"

definition lsd_announce_new :: "LsdHost \<Rightarrow> u16 \<Rightarrow> LsdAnnounce" where
  "lsd_announce_new host port = \<lparr>la_host = host, la_port = port, la_info_hashes = [], la_cookie = None\<rparr>"

definition lsd_set_hashes :: "bytes list \<Rightarrow> LsdAnnounce \<Rightarrow> LsdAnnounce" where
  "lsd_set_hashes hashes a = a\<lparr>la_info_hashes := hashes\<rparr>"

definition lsd_set_cookie :: "rstring option \<Rightarrow> LsdAnnounce \<Rightarrow> LsdAnnounce" where
  "lsd_set_cookie cookie a = a\<lparr>la_cookie := cookie\<rparr>"

subsection \<open>Printing\<close>

definition crlf :: bytes where "crlf = [13, 10]"

definition infohash_line :: "bytes \<Rightarrow> bytes" where
  "infohash_line ih = ascii ''Infohash: '' @ concat (map hex_lower ih) @ crlf"

fun add_infohashes :: "bytes \<Rightarrow> nat \<Rightarrow> bytes list \<Rightarrow> bytes \<times> nat" where
  "add_infohashes body added [] = (body, added)"
| "add_infohashes body added (ih # ihs) =
     (if length body + length (infohash_line ih) + 2 > MAX_ANNOUNCE_SIZE then (body, added)
      else add_infohashes (body @ infohash_line ih) (added + 1) ihs)"

definition lsd_head :: "LsdAnnounce \<Rightarrow> bytes" where
  "lsd_head a =
     ascii ''BT-SEARCH * HTTP/1.1'' @ crlf @
     ascii ''Host: '' @ multicast_addr (la_host a) @ crlf @
     ascii ''Port: '' @ nat_to_string (unat (la_port a)) @ crlf @
     (case la_cookie a of Some c \<Rightarrow> ascii ''cookie: '' @ c @ crlf | None \<Rightarrow> [])"

definition lsd_to_bytes :: "LsdAnnounce \<Rightarrow> bytes option" where
  "lsd_to_bytes a =
     (if la_info_hashes a = [] then None
      else let (body, added) = add_infohashes (lsd_head a) 0 (la_info_hashes a)
           in if added = 0 then None else Some (body @ crlf))"

subsection \<open>Parsing\<close>

text \<open>
  \<open>str::lines\<close>, \<open>split_once(": ")\<close>, and \<open>to_lowercase\<close> as far as a comparison with ASCII text can
  see it: the only character outside ASCII whose lower case is ASCII is the Kelvin sign.
\<close>

definition strip_cr :: "rstring \<Rightarrow> rstring" where
  "strip_cr l = (if l \<noteq> [] \<and> last l = 13 then butlast l else l)"

definition str_lines :: "rstring \<Rightarrow> rstring list" where
  "str_lines s =
     (let parts = split_on 10 s
      in map strip_cr (butlast parts) @ (if last parts = [] then [] else [last parts]))"

fun split_header :: "rstring \<Rightarrow> (rstring \<times> rstring) option" where
  "split_header (a # b # r) =
     (if a = 58 \<and> b = 32 then Some ([], r)
      else case split_header (b # r) of Some (k, v) \<Rightarrow> Some (a # k, v) | None \<Rightarrow> None)"
| "split_header _ = None"

fun lower_key :: "rstring \<Rightarrow> rstring" where
  "lower_key (a # b # c # r) =
     (if [a, b, c] = [0xE2, 0x84, 0xAA] then 107 # lower_key r else ascii_lower a # lower_key (b # c # r))"
| "lower_key s = map ascii_lower s"

text \<open>\<open>u8::from_str_radix(_, 16)\<close> on two bytes: a sign may stand before one digit.\<close>

definition radix16_pair :: "byte \<Rightarrow> byte \<Rightarrow> u8 option" where
  "radix16_pair a b =
     (case hex_val b of
        Ok lo \<Rightarrow> if a = 43 then Some lo else (case hex_val a of Ok hi \<Rightarrow> Some (hi * 16 + lo) | _ \<Rightarrow> None)
      | _ \<Rightarrow> None)"

fun hex_pairs :: "bytes \<Rightarrow> bytes option" where
  "hex_pairs [] = Some []"
| "hex_pairs [a] = None"
| "hex_pairs (a # b # r) =
     Option.bind (radix16_pair a b) (\<lambda>x. Option.bind (hex_pairs r) (\<lambda>xs. Some (x # xs)))"

definition hex_to_info_hash :: "rstring \<Rightarrow> bytes option" where
  "hex_to_info_hash s = (if length s \<noteq> 40 then None else hex_pairs s)"

record lsd_headers =
  lh_host :: "LsdHost option"
  lh_port :: "u16 option"
  lh_hashes :: "bytes list"
  lh_cookie :: "rstring option"

definition lsd_header :: "rstring \<Rightarrow> lsd_headers \<Rightarrow> lsd_headers" where
  "lsd_header line st =
     (case split_header line of
        None \<Rightarrow> st
      | Some (key, value) \<Rightarrow>
          let k = lower_key key in
          if k = ascii ''host'' then st\<lparr>lh_host := from_host_header value\<rparr>
          else if k = ascii ''port'' then st\<lparr>lh_port := parse_unsigned value\<rparr>
          else if k = ascii ''infohash'' then
            (case hex_to_info_hash value of Some ih \<Rightarrow> st\<lparr>lh_hashes := lh_hashes st @ [ih]\<rparr> | None \<Rightarrow> st)
          else if k = ascii ''cookie'' then st\<lparr>lh_cookie := Some value\<rparr>
          else st)"

fun lsd_header_loop :: "rstring list \<Rightarrow> lsd_headers \<Rightarrow> lsd_headers" where
  "lsd_header_loop [] st = st"
| "lsd_header_loop (line # lines) st = (if line = [] then st else lsd_header_loop lines (lsd_header line st))"

definition lsd_from_bytes :: "bytes \<Rightarrow> LsdAnnounce result" where
  "lsd_from_bytes data =
     (case from_utf8 data of
        None \<Rightarrow> Err PeerInvalidLsdAnnounce
      | Some txt \<Rightarrow>
     (case str_lines txt of
        [] \<Rightarrow> Err PeerInvalidLsdAnnounce
      | first # lines \<Rightarrow>
          if first \<noteq> ascii ''BT-SEARCH * HTTP/1.1'' then Err PeerInvalidLsdAnnounce
          else let st = lsd_header_loop lines \<lparr>lh_host = None, lh_port = None, lh_hashes = [], lh_cookie = None\<rparr> in
            and_then (ok_or PeerInvalidLsdAnnounce (lh_host st)) (\<lambda>host.
            and_then (ok_or PeerInvalidLsdAnnounce (lh_port st)) (\<lambda>port.
              if lh_hashes st = [] then Err PeerInvalidLsdAnnounce
              else Ok \<lparr>la_host = host, la_port = port, la_info_hashes = lh_hashes st, la_cookie = lh_cookie st\<rparr>))))"

subsection \<open>The service\<close>

text \<open>
  What a broadcast sends, and what a received datagram does to the pending peers of the torrents. A
  failed send is only logged.
\<close>

record 'c LsdService =
  ls_v4 :: bool
  ls_v6 :: bool
  ls_torrents :: "(bytes \<times> 'c PeerManager) list"
  ls_port :: u16

definition lsd_dst :: "LsdHost \<Rightarrow> SocketAddr" where
  "lsd_dst h = (case h of LsdV4 \<Rightarrow> SocketAddr (V4 LSD_IPV4_MULTICAST) LSD_PORT | LsdV6 \<Rightarrow> SocketAddr (V6 LSD_IPV6_MULTICAST) LSD_PORT)"

definition lsd_group :: "LsdHost \<Rightarrow> 'c LsdService \<Rightarrow> (SocketAddr \<times> bytes) list" where
  "lsd_group h s =
     (case lsd_to_bytes (lsd_set_hashes (map fst (ls_torrents s)) (lsd_announce_new h (ls_port s))) of
        Some bytes \<Rightarrow> [(lsd_dst h, bytes)]
      | None \<Rightarrow> [])"

definition broadcast_announce :: "'c LsdService \<Rightarrow> (SocketAddr \<times> bytes) list" where
  "broadcast_announce s =
     (if ls_torrents s = [] then []
      else (if ls_v4 s then lsd_group LsdV4 s else []) @ (if ls_v6 s then lsd_group LsdV6 s else []))"

definition handle_incoming :: "bytes \<Rightarrow> SocketAddr \<Rightarrow> 'c LsdService \<Rightarrow> 'c LsdService" where
  "handle_incoming data src s =
     (case lsd_from_bytes data of
        Ok ann \<Rightarrow>
          let known = List.map_filter (\<lambda>ih. map_option (\<lambda>_. ih) (map_of (ls_torrents s) ih)) (la_info_hashes ann);
              peer_addr = SocketAddr (sa_ip src) (la_port ann)
          in foldl (\<lambda>s ih. s\<lparr>ls_torrents := map (\<lambda>(k, pm). (k, if k = ih then add_peers [peer_addr] pm else pm)) (ls_torrents s)\<rparr>) s known
      | _ \<Rightarrow> s)"


subsection \<open>Lines\<close>

lemma split_on_join_last:
  "\<forall>p \<in> set ps. c \<notin> set p \<Longrightarrow> split_on c (concat (map (\<lambda>p. p @ [c]) ps)) = ps @ [[]]"
  by (induction ps) (simp_all add: split_on_append)

lemma str_lines_crlf:
  "\<forall>l \<in> set ls. 10 \<notin> set l \<Longrightarrow> str_lines (concat (map (\<lambda>l. l @ crlf) ls)) = ls"
proof -
  assume ls: "\<forall>l \<in> set ls. 10 \<notin> set l"
  have "concat (map (\<lambda>l. l @ crlf) ls) = concat (map (\<lambda>p. p @ [10]) (map (\<lambda>l. l @ [13]) ls))"
    by (simp add: crlf_def comp_def)
  also have "split_on 10 \<dots> = map (\<lambda>l. l @ [13]) ls @ [[]]"
    using ls by (intro split_on_join_last) auto
  finally show ?thesis
    by (simp add: str_lines_def strip_cr_def comp_def)
qed

subsection \<open>The hashes that fit\<close>

definition hashes_fit :: "LsdAnnounce \<Rightarrow> nat" where
  "hashes_fit a = min (length (la_info_hashes a)) ((MAX_ANNOUNCE_SIZE - 2 - length (lsd_head a)) div 52)"

lemma length_infohash_line: "length ih = 20 \<Longrightarrow> length (infohash_line ih) = 52"
  using length_hex_encode [of ih] by (simp add: infohash_line_def hex_encode_def crlf_def)

lemma add_infohashes_eq:
  "\<forall>ih \<in> set ihs. length ih = 20 \<Longrightarrow>
   add_infohashes body k ihs =
     (let n = min (length ihs) ((MAX_ANNOUNCE_SIZE - 2 - length body) div 52)
      in (body @ concat (map infohash_line (take n ihs)), k + n))"
proof (induction ihs arbitrary: body k)
  case (Cons ih ihs)
  have l: "length (infohash_line ih) = 52" using Cons.prems by (simp add: length_infohash_line)
  show ?case
  proof (cases "length body + 54 > MAX_ANNOUNCE_SIZE")
    case True
    then have "(MAX_ANNOUNCE_SIZE - 2 - length body) div 52 = 0"
      by (simp add: MAX_ANNOUNCE_SIZE_def)
    then show ?thesis using True l by simp
  next
    case False
    then have "(MAX_ANNOUNCE_SIZE - 2 - length body) div 52 = Suc ((MAX_ANNOUNCE_SIZE - 2 - (length body + 52)) div 52)"
      by (simp add: MAX_ANNOUNCE_SIZE_def le_div_geq)
    then show ?thesis
      using False l Cons by (simp add: Let_def)
  qed
qed simp

lemma infohash_lines: "concat (map infohash_line ihs) = concat (map (\<lambda>l. l @ crlf) (map (\<lambda>ih. ascii ''Infohash: '' @ hex_encode ih) ihs))"
  by (induction ihs) (simp_all add: infohash_line_def hex_encode_def)

definition lsd_lines :: "LsdAnnounce \<Rightarrow> rstring list" where
  "lsd_lines a =
     [ascii ''BT-SEARCH * HTTP/1.1'', ascii ''Host: '' @ multicast_addr (la_host a), ascii ''Port: '' @ nat_to_string (unat (la_port a))] @
     (case la_cookie a of Some c \<Rightarrow> [ascii ''cookie: '' @ c] | None \<Rightarrow> []) @
     map (\<lambda>ih. ascii ''Infohash: '' @ hex_encode ih) (take (hashes_fit a) (la_info_hashes a)) @ [[]]"

lemma lsd_to_bytes_lines:
  assumes "\<forall>ih \<in> set (la_info_hashes a). length ih = 20" "0 < hashes_fit a"
  shows "lsd_to_bytes a = Some (concat (map (\<lambda>l. l @ crlf) (lsd_lines a)))"
  using assms
  by (simp add: lsd_to_bytes_def add_infohashes_eq hashes_fit_def Let_def lsd_lines_def lsd_head_def infohash_lines
      split: option.split)

lemma lsd_to_bytes_none:
  assumes "\<forall>ih \<in> set (la_info_hashes a). length ih = 20" "hashes_fit a = 0"
  shows "lsd_to_bytes a = None"
  using assms by (simp add: lsd_to_bytes_def add_infohashes_eq hashes_fit_def Let_def)

subsection \<open>Reading the headers\<close>

lemma hex_lower_value: "radix16_pair (hex_digit 97 (drop_bit 4 b)) (hex_digit 97 (b AND 15)) = Some b"
proof -
  have hi: "drop_bit 4 b < 16" and lo: "b AND 15 < 16" by (rule nibbles_less)+
  have "hex_digit 97 v \<noteq> 43" if "v < 16" for v
    by (rule nibble_all [where P = "\<lambda>v. hex_digit 97 v \<noteq> 43", OF _ that]) code_simp
  moreover have "drop_bit 4 b * 16 + (b AND 15) = b"
  proof -
    have "drop_bit 4 b * 16 = push_bit 4 (drop_bit 4 b)"
      by (simp add: push_bit_eq_mult mult.commute)
    moreover have "push_bit 4 (drop_bit 4 b) + (b AND 15) = push_bit 4 (drop_bit 4 b) OR (b AND 15)"
      unfolding nibble_mask by (rule disjunctive_add) (auto simp: bit_simps)
    ultimately have "drop_bit 4 b * 16 + (b AND 15) = push_bit 4 (drop_bit 4 b) OR (b AND 15)" by simp
    then show ?thesis by (simp add: nibble_join)
  qed
  ultimately show ?thesis using hi lo by (simp add: radix16_pair_def hex_val_digit)
qed

lemma hex_pairs_encode: "hex_pairs (hex_encode bs) = Some bs"
  by (induction bs) (simp_all add: hex_encode_def hex_lower_def hex_lower_value)

lemma hex_to_info_hash_encode: "length ih = 20 \<Longrightarrow> hex_to_info_hash (hex_encode ih) = Some ih"
  by (simp add: hex_to_info_hash_def length_hex_encode hex_pairs_encode)

lemma parse_port: "parse_unsigned (nat_to_string (unat n)) = Some n" for n :: u16
proof -
  have "hd (nat_to_string (unat n)) \<noteq> 43"
    using hd_nat_to_string [of "unat n"] by (auto simp: is_ascii_digit_def)
  then have "(case nat_to_string (unat n) of [] \<Rightarrow> [] | c # r \<Rightarrow> if c = 43 then r else nat_to_string (unat n))
      = nat_to_string (unat n)"
    by (cases "nat_to_string (unat n)") auto
  then show ?thesis
    using unsigned_less [of n, where ?'a = nat] by (simp add: parse_unsigned_def parse_digits_nat_to_string)
qed

lemma key_texts:
  "split_header (ascii ''Host: '' @ v) = Some (ascii ''Host'', v)"
  "split_header (ascii ''Port: '' @ v) = Some (ascii ''Port'', v)"
  "split_header (ascii ''cookie: '' @ v) = Some (ascii ''cookie'', v)"
  "split_header (ascii ''Infohash: '' @ v) = Some (ascii ''Infohash'', v)"
  "lower_key (ascii ''Host'') = ascii ''host''" "lower_key (ascii ''Port'') = ascii ''port''"
  "lower_key (ascii ''cookie'') = ascii ''cookie''" "lower_key (ascii ''Infohash'') = ascii ''infohash''"
  "ascii ''port'' \<noteq> ascii ''host''" "ascii ''infohash'' \<noteq> ascii ''host''" "ascii ''infohash'' \<noteq> ascii ''port''"
  "ascii ''cookie'' \<noteq> ascii ''host''" "ascii ''cookie'' \<noteq> ascii ''port''" "ascii ''cookie'' \<noteq> ascii ''infohash''"
  by (simp_all add: ascii_def ascii_lower_def word_le_nat_alt)

lemma from_host_header_addr: "from_host_header (multicast_addr h) = Some h"
  by (cases h) (simp_all add: from_host_header_def multicast_addr_def ascii_def)

lemma header_hashes:
  "\<forall>ih \<in> set ihs. length ih = 20 \<Longrightarrow>
   lsd_header_loop (map (\<lambda>ih. ascii ''Infohash: '' @ hex_encode ih) ihs @ [[]]) st = st\<lparr>lh_hashes := lh_hashes st @ ihs\<rparr>"
proof (induction ihs arbitrary: st)
  case (Cons ih ihs)
  then show ?case
    by (simp add: lsd_header_def key_texts hex_to_info_hash_encode Let_def) (simp add: ascii_def)
qed simp


lemma utf8_concat: "\<forall>l \<in> set ls. utf8_valid l \<Longrightarrow> utf8_valid (concat (map (\<lambda>l. l @ crlf) ls))"
  by (induction ls) (auto simp: crlf_def intro!: utf8_valid_append)

lemma hex_digit_text: "v < 16 \<Longrightarrow> hex_digit 97 v < 128 \<and> hex_digit 97 v \<noteq> 10"
  by (rule nibble_all [where P = "\<lambda>v. hex_digit 97 v < 128 \<and> hex_digit 97 v \<noteq> 10"]) (code_simp, assumption)

lemma hex_encode_text: "list_all (\<lambda>b. b < 128 \<and> b \<noteq> 10) (hex_encode bs)"
  by (induction bs) (simp_all add: hex_encode_def hex_lower_def hex_digit_text nibbles_less)

lemma digits_text: "list_all (\<lambda>b. b < 128 \<and> b \<noteq> 10) (nat_to_string n)"
  using digits_nat_to_string [of n]
  by (auto simp: list_all_iff is_ascii_digit_7bit) (auto simp: is_ascii_digit_def)

lemma text_line: "list_all (\<lambda>b. b < 128 \<and> b \<noteq> 10) l \<Longrightarrow> utf8_valid l \<and> 10 \<notin> set l"
  by (auto simp: list_all_iff intro!: utf8_valid_7bit)

definition cookie_ok :: "rstring option \<Rightarrow> bool" where
  "cookie_ok c = (case c of Some c \<Rightarrow> utf8_valid c \<and> 10 \<notin> set c | None \<Rightarrow> True)"

lemma lsd_lines_text:
  assumes "cookie_ok (la_cookie a)"
  shows "\<forall>l \<in> set (lsd_lines a). utf8_valid l \<and> 10 \<notin> set l"
proof -
  have heads: "list_all (\<lambda>b. b < 128 \<and> b \<noteq> 10) (ascii ''BT-SEARCH * HTTP/1.1'')"
    "list_all (\<lambda>b. b < 128 \<and> b \<noteq> 10) (ascii ''Host: '' @ multicast_addr (la_host a))"
    "list_all (\<lambda>b. b < 128 \<and> b \<noteq> 10) (ascii ''Port: '')" "list_all (\<lambda>b. b < 128 \<and> b \<noteq> 10) (ascii ''Infohash: '')"
    "list_all (\<lambda>b. b < 128 \<and> b \<noteq> 10) (ascii ''cookie: '')"
    by (cases "la_host a"; simp add: ascii_def multicast_addr_def word_less_nat_alt)+
  have "list_all (\<lambda>b. b < 128 \<and> b \<noteq> 10) (ascii ''Port: '' @ nat_to_string (unat (la_port a)))"
    "list_all (\<lambda>b. b < 128 \<and> b \<noteq> 10) (ascii ''Infohash: '' @ hex_encode ih)" for ih
    using heads digits_text hex_encode_text by simp_all
  then have "\<forall>l \<in> set (lsd_lines a). list_all (\<lambda>b. b < 128 \<and> b \<noteq> 10) l \<or> (\<exists>c. la_cookie a = Some c \<and> l = ascii ''cookie: '' @ c)"
    using heads by (auto simp: lsd_lines_def split: option.splits)
  moreover have "utf8_valid (ascii ''cookie: '' @ c) \<and> 10 \<notin> set (ascii ''cookie: '' @ c)" if "la_cookie a = Some c" for c
    using text_line [OF heads(5)] assms that by (auto simp: cookie_ok_def intro!: utf8_valid_append)
  ultimately show ?thesis using text_line by blast
qed

lemma lsd_from_lines:
  assumes "\<forall>ih \<in> set (la_info_hashes a). length ih = 20" "0 < hashes_fit a" "cookie_ok (la_cookie a)"
  shows "lsd_from_bytes (concat (map (\<lambda>l. l @ crlf) (lsd_lines a))) =
     Ok (a\<lparr>la_info_hashes := take (hashes_fit a) (la_info_hashes a)\<rparr>)"
proof -
  let ?ihs = "take (hashes_fit a) (la_info_hashes a)"
  let ?rest = "map (\<lambda>ih. ascii ''Infohash: '' @ hex_encode ih) ?ihs @ [[]]"
  have ihs: "\<forall>ih \<in> set ?ihs. length ih = 20" "?ihs \<noteq> []"
    using assms(1,2) in_set_takeD by (auto simp: hashes_fit_def dest: in_set_takeD)
  have "str_lines (concat (map (\<lambda>l. l @ crlf) (lsd_lines a))) = lsd_lines a"
    using lsd_lines_text [OF assms(3)] by (intro str_lines_crlf) simp
  moreover have "utf8_valid (concat (map (\<lambda>l. l @ crlf) (lsd_lines a)))"
    using lsd_lines_text [OF assms(3)] by (intro utf8_concat) simp
  moreover have "lsd_header_loop (tl (lsd_lines a)) \<lparr>lh_host = None, lh_port = None, lh_hashes = [], lh_cookie = None\<rparr> =
      \<lparr>lh_host = Some (la_host a), lh_port = Some (la_port a), lh_hashes = ?ihs, lh_cookie = la_cookie a\<rparr>"
  proof -
    have ne: "ascii ''Host: '' \<noteq> []" "ascii ''Port: '' \<noteq> []" "ascii ''cookie: '' \<noteq> []"
      by (simp_all add: ascii_def)
    have "lsd_header_loop ((case la_cookie a of Some c \<Rightarrow> [ascii ''cookie: '' @ c] | None \<Rightarrow> []) @ ?rest) st =
        st\<lparr>lh_cookie := (case la_cookie a of Some c \<Rightarrow> Some c | None \<Rightarrow> lh_cookie st), lh_hashes := lh_hashes st @ ?ihs\<rparr>" for st
      by (cases "la_cookie a") (simp_all add: header_hashes [OF ihs(1)] ne lsd_header_def key_texts)
    then show ?thesis
      by (simp add: lsd_lines_def ne lsd_header_def key_texts from_host_header_addr parse_port split: option.split)
  qed
  moreover obtain rest where "lsd_lines a = ascii ''BT-SEARCH * HTTP/1.1'' # rest"
    by (simp add: lsd_lines_def)
  ultimately show ?thesis
    using ihs(2) by (simp add: lsd_from_bytes_def from_utf8_def Let_def)
qed

lemma fit_bounds:
  assumes "0 < hashes_fit a"
  shows "length (lsd_head a) + 52 * hashes_fit a + 2 \<le> MAX_ANNOUNCE_SIZE"
    and "hashes_fit a < length (la_info_hashes a) \<Longrightarrow> length (lsd_head a) + 52 * hashes_fit a + 54 > MAX_ANNOUNCE_SIZE"
proof -
  let ?r = "MAX_ANNOUNCE_SIZE - 2 - length (lsd_head a)"
  have q: "52 * (?r div 52) \<le> ?r" "?r < 52 * (?r div 52) + 52"
    using dividend_less_times_div [of 52 ?r] by simp_all
  have "hashes_fit a \<le> ?r div 52" by (simp add: hashes_fit_def)
  then have "52 * hashes_fit a \<le> ?r" "0 < ?r" using q(1) assms by linarith+
  then show "length (lsd_head a) + 52 * hashes_fit a + 2 \<le> MAX_ANNOUNCE_SIZE" by linarith
  assume "hashes_fit a < length (la_info_hashes a)"
  then have "hashes_fit a = ?r div 52" by (simp add: hashes_fit_def min_def split: if_splits)
  then show "length (lsd_head a) + 52 * hashes_fit a + 54 > MAX_ANNOUNCE_SIZE" using q(2) by linarith
qed

lemma lsd_roundtrip_parts:
  assumes "\<forall>ih \<in> set (la_info_hashes a). length ih = 20"
  shows "lsd_to_bytes a = None \<longleftrightarrow> la_info_hashes a = [] \<or> length (lsd_head a) + 54 > MAX_ANNOUNCE_SIZE"
    and "lsd_to_bytes a = Some body \<Longrightarrow> length body \<le> MAX_ANNOUNCE_SIZE \<and>
       (hashes_fit a < length (la_info_hashes a) \<longrightarrow> length body + 52 > MAX_ANNOUNCE_SIZE)"
    and "lsd_to_bytes a = Some body \<Longrightarrow> cookie_ok (la_cookie a) \<Longrightarrow>
       lsd_from_bytes body = Ok (a\<lparr>la_info_hashes := take (hashes_fit a) (la_info_hashes a)\<rparr>)"
proof -
  show "lsd_to_bytes a = None \<longleftrightarrow> la_info_hashes a = [] \<or> length (lsd_head a) + 54 > MAX_ANNOUNCE_SIZE"
  proof (cases "hashes_fit a = 0")
    case True
    then show ?thesis
      using lsd_to_bytes_none [OF assms True] by (auto simp: hashes_fit_def MAX_ANNOUNCE_SIZE_def min_def split: if_splits)
  next
    case False
    then show ?thesis
      using lsd_to_bytes_lines [OF assms] by (auto simp: hashes_fit_def MAX_ANNOUNCE_SIZE_def)
  qed
next
  assume b: "lsd_to_bytes a = Some body"
  then have fit: "0 < hashes_fit a" using lsd_to_bytes_none [OF assms] by fastforce
  have "body = lsd_head a @ concat (map infohash_line (take (hashes_fit a) (la_info_hashes a))) @ crlf"
    using b assms by (auto simp: lsd_to_bytes_def add_infohashes_eq Let_def hashes_fit_def split: if_splits)
  then have body: "length body = length (lsd_head a) + length (concat (map infohash_line (take (hashes_fit a) (la_info_hashes a)))) + 2"
    by (simp add: crlf_def)
  have lines: "length (concat (map infohash_line ihs)) = 52 * length ihs" if "\<forall>ih \<in> set ihs. length ih = 20" for ihs
    using that by (induction ihs) (simp_all add: length_infohash_line)
  have "\<forall>ih \<in> set (take (hashes_fit a) (la_info_hashes a)). length ih = 20"
    using assms in_set_takeD by metis
  from lines [OF this] have len: "length body = length (lsd_head a) + 52 * hashes_fit a + 2"
    using body by (simp only: length_take) (simp add: hashes_fit_def)
  then show "length body \<le> MAX_ANNOUNCE_SIZE \<and> (hashes_fit a < length (la_info_hashes a) \<longrightarrow> length body + 52 > MAX_ANNOUNCE_SIZE)"
    using fit_bounds [OF fit] by linarith
  show "cookie_ok (la_cookie a) \<Longrightarrow>
      lsd_from_bytes body = Ok (a\<lparr>la_info_hashes := take (hashes_fit a) (la_info_hashes a)\<rparr>)"
    using b lsd_to_bytes_lines [OF assms fit] lsd_from_lines [OF assms fit] by simp
qed

text \<open>C18.
  An LSD announce of twenty-byte hashes round-trips: the datagram has at most 1400 bytes, it holds the
  longest prefix of the hashes that fits, and the parser reads the announce back with that prefix; nothing
  is sent exactly when no hash fits. The cookie must not contain a line feed.\<close>

theorem lsd_roundtrip:
  assumes "\<forall>ih \<in> set (la_info_hashes a). length ih = 20"
  shows "(lsd_to_bytes a = None \<longleftrightarrow> la_info_hashes a = [] \<or> length (lsd_head a) + 54 > MAX_ANNOUNCE_SIZE) \<and>
     (\<forall>body. lsd_to_bytes a = Some body \<longrightarrow> length body \<le> MAX_ANNOUNCE_SIZE \<and>
       (hashes_fit a < length (la_info_hashes a) \<longrightarrow> length body + 52 > MAX_ANNOUNCE_SIZE) \<and>
       (cookie_ok (la_cookie a) \<longrightarrow>
         lsd_from_bytes body = Ok (a\<lparr>la_info_hashes := take (hashes_fit a) (la_info_hashes a)\<rparr>)))"
  using lsd_roundtrip_parts [OF assms] by blast

theorem lsd_roundtrip_witness:
  "\<exists>body. lsd_to_bytes (lsd_set_hashes [replicate 20 0xAB] (lsd_announce_new LsdV4 6881)) = Some body \<and> length body \<le> 1400 \<and>
     lsd_from_bytes body = Ok (lsd_set_hashes [replicate 20 0xAB] (lsd_announce_new LsdV4 6881))"
proof -
  let ?a = "lsd_set_hashes [replicate 20 0xAB] (lsd_announce_new LsdV4 6881)"
  have "length (nat_to_string (unat (6881 :: u16))) = 4"
    by (simp add: nat_to_string.simps)
  then have h: "length (lsd_head ?a) = 62"
    by (simp add: lsd_head_def crlf_def lsd_set_hashes_def lsd_announce_new_def multicast_addr_def)
  have 20: "\<forall>ih \<in> set (la_info_hashes ?a). length ih = 20"
    by (simp add: lsd_set_hashes_def lsd_announce_new_def)
  have "hashes_fit ?a = 1"
    unfolding hashes_fit_def h by (simp add: lsd_set_hashes_def MAX_ANNOUNCE_SIZE_def)
  moreover obtain body where "lsd_to_bytes ?a = Some body"
    using lsd_roundtrip [OF 20] h by (auto simp: lsd_set_hashes_def MAX_ANNOUNCE_SIZE_def)
  moreover have "cookie_ok (la_cookie ?a)"
    by (simp add: cookie_ok_def lsd_set_hashes_def lsd_announce_new_def)
  ultimately show ?thesis
    using lsd_roundtrip [OF 20] by (auto simp: MAX_ANNOUNCE_SIZE_def lsd_set_hashes_def)
qed


subsection \<open>Received announces\<close>

lemma handle_incoming_other:
  assumes "\<And>ann. lsd_from_bytes data = Ok ann \<Longrightarrow> k \<notin> set (la_info_hashes ann)"
  shows "map_of (ls_torrents (handle_incoming data src s)) k = map_of (ls_torrents s) k"
proof -
  have upd: "map_of (map (\<lambda>(k, pm). (k, if k = ih then f pm else pm)) ts) k = map_of ts k" if "k \<noteq> ih"
    for f :: "'c PeerManager \<Rightarrow> 'c PeerManager" and ih and ts :: "(bytes \<times> 'c PeerManager) list"
    using that by (induction ts) auto
  have fold: "map_of (ls_torrents (foldl (\<lambda>s ih. s\<lparr>ls_torrents := map (\<lambda>(k, pm). (k, if k = ih then f pm else pm)) (ls_torrents s)\<rparr>) s known)) k
      = map_of (ls_torrents s) k" if "k \<notin> set known" for f :: "'c PeerManager \<Rightarrow> 'c PeerManager" and known s
    using that by (induction known arbitrary: s) (simp_all add: upd)
  have flt: "k \<notin> set (List.map_filter (\<lambda>ih. map_option (\<lambda>_. ih) (map_of (ls_torrents s) ih)) ihs)" if "k \<notin> set ihs" for ihs
    using that by (auto simp: List.map_filter_def)
  show ?thesis
  proof (cases "lsd_from_bytes data")
    case (Ok ann)
    show ?thesis
      using Ok by (simp add: handle_incoming_def Let_def) (rule fold, rule flt, rule assms, rule Ok)
  qed (simp_all add: handle_incoming_def)
qed

text \<open>A broadcast announces the same prefix of the torrents every time; the others are never announced.\<close>

lemma broadcast_prefix:
  assumes "\<forall>t \<in> set (ls_torrents s). length (fst t) = 20" "ls_v4 s" "\<not> ls_v6 s" "broadcast_announce s = [(dst, body)]"
  defines "a \<equiv> lsd_set_hashes (map fst (ls_torrents s)) (lsd_announce_new LsdV4 (ls_port s))"
  shows "lsd_from_bytes body = Ok (a\<lparr>la_info_hashes := take (hashes_fit a) (map fst (ls_torrents s))\<rparr>)"
proof -
  have b: "lsd_to_bytes a = Some body"
    using assms(2-4) by (auto simp: broadcast_announce_def lsd_group_def a_def split: if_splits option.splits)
  have h: "\<forall>ih \<in> set (la_info_hashes a). length ih = 20"
    using assms(1) by (simp add: a_def lsd_set_hashes_def)
  have fit: "0 < hashes_fit a" using lsd_to_bytes_none [OF h] b by fastforce
  have "cookie_ok (la_cookie a)" by (simp add: a_def cookie_ok_def lsd_set_hashes_def lsd_announce_new_def)
  then show ?thesis
    using lsd_from_lines [OF h fit] lsd_to_bytes_lines [OF h fit] b by (simp add: a_def lsd_set_hashes_def)
qed

end
