(* ===== verification/Seed.thy ===== *)
theory Seed
  imports Magnet Storage Piece
begin

section \<open>Creating and verifying torrents\<close>

text \<open>
  \<open>session/seed\<close>: the data sources, the hashing of a source into a metainfo, the seed builder, the
  storage that serves a source, and the verification of existing data. A data source is a record of its
  operations. The trait's contract, that a read is only cut short by the end of the data, is the locale
  \<open>full_source\<close>, which \<open>Vec<u8>\<close> implements, and a local file as long as its reads are whole; otherwise a file only
  has the weaker contract \<open>data_source\<close>, a read that may return fewer bytes than asked for, which is all that
  hashing needs.
\<close>

subsection \<open>Data sources\<close>

record data_src =
  src_name :: rstring
  src_total :: "u64 result"
  src_read :: "u64 \<Rightarrow> nat \<Rightarrow> bytes result"

definition memory_source :: "bytes \<Rightarrow> data_src" where
  "memory_source xs =
     \<lparr>src_name = ascii ''memory'', src_total = Ok (of_nat (length xs)),
      src_read = (\<lambda>off n. let start = unat off in
        if length xs \<le> start then Ok []
        else let stop = min (start + n) (length xs) in Ok (take (stop - start) (drop start xs)))\<rparr>"

text \<open>
  A file that exists, with its base name: one \<open>read\<close> of the runtime returns as many of the available
  bytes as \<open>short\<close> says, at least one unless there are none.
\<close>

definition file_source :: "rstring option \<Rightarrow> bytes \<Rightarrow> (nat \<Rightarrow> nat \<Rightarrow> nat) \<Rightarrow> data_src" where
  "file_source name bs short =
     \<lparr>src_name = (case name of Some n \<Rightarrow> n | None \<Rightarrow> ascii ''<unknown>''), src_total = Ok (of_nat (length bs)),
      src_read = (\<lambda>off n. let avail = take n (drop (unat off) bs)
        in Ok (take (max 1 (short (unat off) (length avail))) avail))\<rparr>"

subsection \<open>Hashing\<close>

definition infer_piece_length :: "u64 \<Rightarrow> u32" where
  "infer_piece_length sz =
     (if sz \<le> 67108864 then 32 * 1024
      else if sz \<le> 536870912 then 64 * 1024
      else if sz \<le> 1073741824 then 128 * 1024
      else if sz \<le> 8589934592 then 256 * 1024
      else 512 * 1024)"

definition resolve_piece_length :: "data_src \<Rightarrow> u32 option \<Rightarrow> u32 result" where
  "resolve_piece_length src user =
     (case user of Some pl \<Rightarrow> Ok pl | None \<Rightarrow> and_then (src_total src) (\<lambda>sz. Ok (infer_piece_length sz)))"

partial_function (option) hash_loop ::
  "(bytes \<Rightarrow> bytes) \<Rightarrow> data_src \<Rightarrow> u64 \<Rightarrow> nat \<Rightarrow> u64 \<Rightarrow> MetainfoBuilder \<Rightarrow> MetainfoBuilder result option" where
  "hash_loop sha1 src sz buf_size off b =
     (if \<not> off < sz then Some (Ok b)
      else case src_read src off (min buf_size (unat (sz - off))) of
             Err e \<Rightarrow> Some (Err e)
           | Panic \<Rightarrow> Some Panic
           | Ok bs \<Rightarrow>
               if bs = [] then Some (Err InvalidInput)
               else Option.bind (builder_add_data sha1 b bs) (\<lambda>r. case r of
                      Err e \<Rightarrow> Some (Err e)
                    | Panic \<Rightarrow> Some Panic
                    | Ok b \<Rightarrow> (case add_u64 off (of_nat (length bs)) of
                        Err e \<Rightarrow> Some (Err e)
                      | Panic \<Rightarrow> Some Panic
                      | Ok off \<Rightarrow> hash_loop sha1 src sz buf_size off b)))"

definition hash_source :: "(bytes \<Rightarrow> bytes) \<Rightarrow> data_src \<Rightarrow> u32 \<Rightarrow> MetainfoBuilder result option" where
  "hash_source sha1 src pl =
     (case src_total src of
        Err e \<Rightarrow> Some (Err e)
      | Panic \<Rightarrow> Some Panic
      | Ok sz \<Rightarrow> (case builder_new pl of
          Err e \<Rightarrow> Some (Err e)
        | Panic \<Rightarrow> Some Panic
        | Ok b \<Rightarrow> hash_loop sha1 src sz (min (unat pl) (16 * 1024 * 1024)) 0 b))"

subsection \<open>The seed builder\<close>

record SeedBuilder =
  sb_source :: data_src
  sb_piece_length :: "u32 option"
  sb_announce :: "rstring option"
  sb_announce_list :: "rstring list list option"
  sb_name :: "rstring option"
  sb_comment :: "rstring option"
  sb_created_by :: "rstring option"
  sb_is_private :: bool
  sb_super_seed :: bool

definition seed_builder_new :: "data_src \<Rightarrow> SeedBuilder" where
  "seed_builder_new source =
     \<lparr>sb_source = source, sb_piece_length = None, sb_announce = None, sb_announce_list = None, sb_name = None,
      sb_comment = None, sb_created_by = None, sb_is_private = False, sb_super_seed = False\<rparr>"

record PreparedTorrent =
  pt_source :: data_src
  pt_metainfo :: Metainfo
  pt_torrent_bytes :: bytes
  pt_super_seed :: bool

definition set_if :: "'a option \<Rightarrow> ('a \<Rightarrow> Metainfo \<Rightarrow> Metainfo) \<Rightarrow> Metainfo \<Rightarrow> Metainfo" where
  "set_if v f m = (case v of Some x \<Rightarrow> f x m | None \<Rightarrow> m)"

definition prepare_torrent :: "(bytes \<Rightarrow> bytes) \<Rightarrow> SeedBuilder \<Rightarrow> MetainfoBuilder \<Rightarrow> PreparedTorrent result" where
  "prepare_torrent sha1 sb builder =
     (let name = (case sb_name sb of Some n \<Rightarrow> n | None \<Rightarrow> src_name (sb_source sb));
          ann = (case sb_announce sb of Some a \<Rightarrow> a | None \<Rightarrow> []);
          m = builder_finish sha1 builder ann (Single name (mb_total_length builder)) [] [];
          m = set_if (sb_announce_list sb) (\<lambda>l m. m\<lparr>announce_list := l\<rparr>) m;
          m = set_if (sb_comment sb) (\<lambda>c m. m\<lparr>comment := Some c\<rparr>) m;
          m = set_if (sb_created_by sb) (\<lambda>c m. m\<lparr>created_by := Some c\<rparr>) m
      in and_then (ok_or InvalidInput (metainfo_to_bytes m)) (\<lambda>bs.
           Ok \<lparr>pt_source = sb_source sb, pt_metainfo = m, pt_torrent_bytes = bs, pt_super_seed = sb_super_seed sb\<rparr>))"

definition seed_hash :: "(bytes \<Rightarrow> bytes) \<Rightarrow> SeedBuilder \<Rightarrow> PreparedTorrent result option" where
  "seed_hash sha1 sb =
     (case resolve_piece_length (sb_source sb) (sb_piece_length sb) of
        Err e \<Rightarrow> Some (Err e)
      | Panic \<Rightarrow> Some Panic
      | Ok pl \<Rightarrow> map_option (\<lambda>r. and_then r (prepare_torrent sha1 sb)) (hash_source sha1 (sb_source sb) pl))"

definition mode_name :: "Mode \<Rightarrow> rstring" where
  "mode_name md = (case md of Single name _ \<Rightarrow> name | Multiple name _ \<Rightarrow> name)"

definition simple_magnet :: "(bytes \<Rightarrow> bytes) \<Rightarrow> Metainfo \<Rightarrow> rstring" where
  "simple_magnet sha1 m =
     ascii ''magnet:?xt=urn:btih:'' @ hex_encode (info_hash sha1 m) @ ascii ''&dn='' @ mode_name (mode (info m))"

subsection \<open>Serving a source\<close>

record DataSourceStorage =
  dss_source :: data_src
  dss_piece_length :: u64
  dss_num_pieces :: nat
  dss_total_size :: u64

definition dss_new :: "data_src \<Rightarrow> Info \<Rightarrow> DataSourceStorage result" where
  "dss_new source i =
     and_then (total_size i) (\<lambda>sz.
       Ok \<lparr>dss_source = source, dss_piece_length = piece_length i, dss_num_pieces = info_num_pieces i, dss_total_size = sz\<rparr>)"

definition dss_piece_offset :: "DataSourceStorage \<Rightarrow> u32 \<Rightarrow> u64 result" where
  "dss_piece_offset d index = mul_u64 (ucast index) (dss_piece_length d)"

definition dss_piece_len :: "DataSourceStorage \<Rightarrow> u32 \<Rightarrow> u64 result" where
  "dss_piece_len d index =
     (if dss_num_pieces d \<le> unat index then Ok 0
      else and_then (mul_u64 (ucast index) (dss_piece_length d)) (\<lambda>start.
        if unat index = dss_num_pieces d - 1 then sub_u64 (dss_total_size d) start
        else Ok (dss_piece_length d)))"

text \<open>The source fills the front of the buffer; what it does not fill is zero.\<close>

definition dss_read_block :: "DataSourceStorage \<Rightarrow> u32 \<Rightarrow> u32 \<Rightarrow> bytes \<Rightarrow> bytes result" where
  "dss_read_block d piece off buf =
     and_then (dss_piece_offset d piece) (\<lambda>p.
     and_then (add_u64 p (ucast off)) (\<lambda>g.
     and_then (src_read (dss_source d) g (length buf)) (\<lambda>bs.
       Ok (bs @ replicate (length buf - length bs) 0))))"

definition dss_read_piece :: "DataSourceStorage \<Rightarrow> u32 \<Rightarrow> bytes \<Rightarrow> bytes result" where
  "dss_read_piece d index buf =
     and_then (dss_piece_offset d index) (\<lambda>off.
     and_then (dss_piece_len d index) (\<lambda>len.
       if length buf < unat len then Panic
       else and_then (src_read (dss_source d) off (unat len)) (\<lambda>bs.
         Ok (bs @ replicate (unat len - length bs) 0 @ drop (unat len) buf))))"

subsection \<open>Verification\<close>

text \<open>
  The loop over the pieces, with the shared buffer. The storage is its \<open>read_piece\<close>, which returns the
  buffer it was given, filled. A failure drops the piece manager with the error.
\<close>

definition verify_len :: "Info \<Rightarrow> nat \<Rightarrow> nat result" where
  "verify_len i k =
     (if k = info_num_pieces i - 1 then
        and_then (total_size i) (\<lambda>sz.
        and_then (mul_u64 (of_nat k) (piece_length i)) (\<lambda>start.
        and_then (sub_u64 sz start) (\<lambda>len. Ok (unat len))))
      else Ok (unat (piece_length i)))"

fun verify_loop ::
  "(bytes \<Rightarrow> bytes) \<Rightarrow> (u32 \<Rightarrow> bytes \<Rightarrow> bytes result) \<Rightarrow> Info \<Rightarrow> nat list \<Rightarrow> bytes \<Rightarrow> PieceManager \<Rightarrow> nat \<Rightarrow> (PieceManager \<times> nat) result" where
  "verify_loop sha1 rp i [] buf pm verified = Ok (pm, verified)"
| "verify_loop sha1 rp i (k # ks) buf pm verified =
     and_then (verify_len i k) (\<lambda>len.
       if length buf < len then Panic
       else and_then (rp (of_nat k) (take len buf)) (\<lambda>read_buf.
         let buf = read_buf @ drop len buf in
         and_then (index_at (pieces i) k) (\<lambda>expected.
           if sha1 read_buf = expected
           then and_then (set_piece pm (of_nat k)) (\<lambda>pm. verify_loop sha1 rp i ks buf pm (verified + 1))
           else verify_loop sha1 rp i ks buf pm verified)))"

definition verify_existing ::
  "(bytes \<Rightarrow> bytes) \<Rightarrow> (u32 \<Rightarrow> bytes \<Rightarrow> bytes result) \<Rightarrow> Info \<Rightarrow> PieceManager \<Rightarrow> (PieceManager \<times> nat) result" where
  "verify_existing sha1 rp i pm =
     verify_loop sha1 rp i [0..<info_num_pieces i] (replicate (unat (piece_length i)) 0) pm 0"


subsection \<open>The contract of a data source\<close>

locale data_source =
  fixes src :: data_src and content :: bytes
  assumes src_size: "src_total src = Ok (of_nat (length content))"
    and src_reads: "length content < 2 ^ 64 \<Longrightarrow>
      \<exists>k. src_read src off n = Ok (take k (take n (drop (unat off) content))) \<and>
          (0 < n \<and> unat off < length content \<longrightarrow> 0 < k)"
begin

lemma hash_loop_holds:
  assumes "0 < buf_size" "0 < pl" "length content < 2 ^ 64"
    and "builder_holds sha1 pl (take (unat off) content) b" "unat off \<le> length content"
  shows "\<exists>b'. hash_loop sha1 src (of_nat (length content)) buf_size off b = Some (Ok b') \<and> builder_holds sha1 pl content b'"
  using assms(4,5)
proof (induction "length content - unat off" arbitrary: off b rule: less_induct)
  case less
  let ?sz = "of_nat (length content) :: u64"
  have sz: "unat ?sz = length content" using assms(3) by (simp add: unat_of_nat)
  show ?case
  proof (cases "off < ?sz")
    case False
    then have "unat off = length content" using sz less.prems(2) by (simp add: word_less_nat_alt)
    then show ?thesis
      using False less.prems(1) by (subst hash_loop.simps) simp
  next
    case True
    then have lt: "unat off < length content" using sz by (simp add: word_less_nat_alt)
    let ?n = "min buf_size (unat (?sz - off))"
    have d: "unat (?sz - off) = length content - unat off"
      using True sz by (simp add: unat_sub word_le_less_eq)
    then have n: "0 < ?n" using lt assms(1) by simp
    obtain k where k: "src_read src off ?n = Ok (take k (take ?n (drop (unat off) content)))" "0 < k"
      using src_reads [OF assms(3), of off ?n] lt n by auto
    define bs where "bs = take k (take ?n (drop (unat off) content))"
    have len: "0 < length bs" "unat off + length bs \<le> length content"
      using k(2) n lt by (auto simp: bs_def)
    have ext: "take (unat off) content @ bs = take (unat off + length bs) content"
      by (simp add: take_add min_def bs_def)
    have rd: "src_read src off ?n = Ok bs" using k(1) by (simp add: bs_def)
    obtain b' where b': "builder_add_data sha1 b bs = Some (Ok b')"
      "builder_holds sha1 pl (take (unat off + length bs) content) b'"
      using builder_add_data_holds [OF less.prems(1) assms(2), of bs] assms(3) len(2) lt unfolding ext by fastforce
    have u: "unat (of_nat (length bs) :: u64) = length bs"
      using len(2) assms(3) by (simp add: unat_of_nat)
    have add: "add_u64 off (of_nat (length bs)) = Ok (off + of_nat (length bs))"
      "unat (off + of_nat (length bs)) = unat off + length bs"
      using u len(2) assms(3) by (simp_all add: add_u64_def checked_add_def unat_word_ariths)
    have "bs \<noteq> []" using len(1) by (metis length_greater_0_conv)
    then have "hash_loop sha1 src ?sz buf_size off b = hash_loop sha1 src ?sz buf_size (off + of_nat (length bs)) b'"
      using True rd b'(1) add(1) by (subst hash_loop.simps) simp
    moreover have "length content - unat (off + of_nat (length bs)) < length content - unat off"
      using add(2) len lt by linarith
    ultimately show ?thesis
      using less.hyps [of "off + of_nat (length bs)" b'] b'(2) add(2) len(2) by simp
  qed
qed

lemma hash_source_holds:
  assumes "0 < pl" "length content < 2 ^ 64"
  shows "\<exists>b. hash_source sha1 src pl = Some (Ok b) \<and> builder_holds sha1 pl content b"
proof -
  obtain b0 where "builder_new pl = Ok b0" "builder_holds sha1 pl [] b0"
    using builder_new_holds [OF assms(1)] by blast
  moreover have "0 < min (unat pl) (16 * 1024 * 1024)"
    using assms(1) by (simp add: word_less_nat_alt)
  ultimately show ?thesis
    using hash_loop_holds [of "min (unat pl) (16 * 1024 * 1024)" pl sha1 0 b0] assms src_size
    by (simp add: hash_source_def)
qed

end

text \<open>The documented contract: a read is only cut short by the end of the data.\<close>

locale full_source = data_source +
  assumes full_read: "length content < 2 ^ 64 \<Longrightarrow> src_read src off n = Ok (take n (drop (unat off) content))"

lemma memory_read: "src_read (memory_source xs) off n = Ok (take n (drop (unat off) xs))"
  by (auto simp: memory_source_def Let_def min_def)

interpretation ram: full_source "memory_source xs" xs for xs
proof
  show "src_total (memory_source xs) = Ok (of_nat (length xs))"
    by (simp add: memory_source_def)
  show "\<exists>k. src_read (memory_source xs) off n = Ok (take k (take n (drop (unat off) xs))) \<and>
      (0 < n \<and> unat off < length xs \<longrightarrow> 0 < k)" for off n
    by (rule exI [of _ "Suc n"]) (simp add: memory_read)
qed (rule memory_read)

text \<open>A file whose reads are never cut short has the contract too.\<close>

interpretation whole_file: full_source "file_source name bs (\<lambda>_ n. n)" bs for name bs
proof
  show "src_total (file_source name bs (\<lambda>_ n. n)) = Ok (of_nat (length bs))"
    by (simp add: file_source_def)
  have full: "src_read (file_source name bs (\<lambda>_ n. n)) off n = Ok (take n (drop (unat off) bs))" for off n
    by (simp add: file_source_def Let_def)
  then show "\<exists>k. src_read (file_source name bs (\<lambda>_ n. n)) off n = Ok (take k (take n (drop (unat off) bs))) \<and>
      (0 < n \<and> unat off < length bs \<longrightarrow> 0 < k)" for off n
    by (intro exI [of _ "Suc n"]) simp
  show "src_read (file_source name bs (\<lambda>_ n. n)) off n = Ok (take n (drop (unat off) bs))" for off n
    by (rule full)
qed

interpretation disk: data_source "file_source name bs short" bs for name bs short
proof
  show "\<exists>k. src_read (file_source name bs short) off n = Ok (take k (take n (drop (unat off) bs))) \<and>
      (0 < n \<and> unat off < length bs \<longrightarrow> 0 < k)" for off n
    by (rule exI [of _ "max 1 (short (unat off) (length (take n (drop (unat off) bs))))"])
      (simp add: file_source_def Let_def less_max_iff_disj)
qed (simp add: file_source_def)


subsection \<open>Verification finds the blocks\<close>

definition block_at :: "Info \<Rightarrow> bytes \<Rightarrow> nat \<Rightarrow> bytes" where
  "block_at i xs k = take (unat (piece_length i)) (drop (k * unat (piece_length i)) xs)"

text \<open>The info describes data of this length.\<close>

definition info_fits :: "Info \<Rightarrow> bytes \<Rightarrow> bool" where
  "info_fits i xs \<longleftrightarrow> 0 < unat (piece_length i) \<and> total_size i = Ok (of_nat (length xs)) \<and> length xs < 2 ^ 64 \<and>
     info_num_pieces i = (length xs + unat (piece_length i) - 1) div unat (piece_length i) \<and> info_num_pieces i \<le> 2 ^ 32"

lemma piece_start_less:
  assumes "info_fits i xs" "k < info_num_pieces i"
  shows "k * unat (piece_length i) < length xs"
proof -
  let ?n = "unat (piece_length i)"
  have "Suc k * ?n \<le> info_num_pieces i * ?n" using assms(2) by (intro mult_le_mono1) simp
  also have "\<dots> \<le> length xs + ?n - 1" using assms(1) by (simp add: info_fits_def)
  finally show ?thesis using assms(1) by (simp add: info_fits_def) linarith
qed

lemma last_piece_end:
  assumes "info_fits i xs" "k < info_num_pieces i"
  shows "k = info_num_pieces i - 1 \<longleftrightarrow> length xs \<le> Suc k * unat (piece_length i)"
proof -
  let ?n = "unat (piece_length i)" and ?m = "info_num_pieces i"
  have n: "0 < ?n" and m: "?m = (length xs + ?n - 1) div ?n" using assms(1) by (auto simp: info_fits_def)
  have b: "length xs \<le> ?m * ?n"
    using n dividend_less_times_div [of ?n "length xs + ?n - 1"] unfolding m by (simp add: mult.commute)
  show ?thesis
  proof
    assume "k = ?m - 1"
    then have "Suc k = ?m" using assms(2) by simp
    then show "length xs \<le> Suc k * ?n" using b by simp
  next
    assume l: "length xs \<le> Suc k * ?n"
    show "k = ?m - 1"
    proof (rule ccontr)
      assume "k \<noteq> ?m - 1"
      then have "Suc k < ?m" using assms(2) by simp
      from piece_start_less [OF assms(1) this] l show False by simp
    qed
  qed
qed

lemma piece_index_values:
  assumes "info_fits i xs" "k < info_num_pieces i"
  shows "unat (of_nat k :: u32) = k" "mul_u64 (of_nat k) (piece_length i) = Ok (of_nat (k * unat (piece_length i)))"
    "unat (of_nat (k * unat (piece_length i)) :: u64) = k * unat (piece_length i)"
proof -
  let ?n = "unat (piece_length i)"
  have k: "k < 2 ^ 32" and kn: "k * ?n < 2 ^ 64"
    using assms piece_start_less [OF assms] by (auto simp: info_fits_def)
  show "unat (of_nat k :: u32) = k" using k by (simp add: unat_of_nat)
  show s: "unat (of_nat (k * ?n) :: u64) = k * ?n" using kn by (subst unat_of_nat) (rule mod_less, simp)
  have "unat (of_nat k :: u64) = k" using k by (simp add: unat_of_nat)
  then show "mul_u64 (of_nat k) (piece_length i) = Ok (of_nat (k * ?n))"
    using kn by (simp add: mul_u64_def checked_mul_def)
qed

lemma verify_len_block:
  assumes "info_fits i xs" "k < info_num_pieces i"
  shows "verify_len i k = Ok (length (block_at i xs k))" "length (block_at i xs k) \<le> unat (piece_length i)"
proof -
  let ?n = "unat (piece_length i)"
  have sz: "unat (of_nat (length xs) :: u64) = length xs" using assms(1) by (simp add: info_fits_def unat_of_nat)
  have le: "(of_nat (k * ?n) :: u64) \<le> of_nat (length xs)"
    using piece_index_values(3) [OF assms] piece_start_less [OF assms] sz by (simp add: word_le_nat_alt)
  have d: "unat (of_nat (length xs) - of_nat (k * ?n) :: u64) = length xs - k * ?n"
    using unat_sub [OF le] piece_index_values(3) [OF assms] sz by simp
  have sub: "sub_u64 (of_nat (length xs)) (of_nat (k * ?n)) = Ok (of_nat (length xs) - of_nat (k * ?n))"
    using le by (simp add: sub_u64_def)
  have tot: "total_size i = Ok (of_nat (length xs))" using assms(1) by (simp add: info_fits_def)
  show "verify_len i k = Ok (length (block_at i xs k))"
  proof (cases "k = info_num_pieces i - 1")
    case True
    then have "length xs \<le> k * ?n + ?n" using last_piece_end [OF assms] by simp
    then show ?thesis
      unfolding verify_len_def
      by (subst if_P [OF True], subst tot, subst piece_index_values(2) [OF assms])
        (simp only: and_then.simps sub d, simp add: block_at_def)
  next
    case False
    then have "k * ?n + ?n < length xs" using last_piece_end [OF assms] by simp
    then show ?thesis using False by (simp add: verify_len_def block_at_def)
  qed
qed (simp add: block_at_def)

lemma verify_loop_spec:
  assumes "\<And>k. k \<in> set ks \<Longrightarrow> verify_len i k = Ok (length (blk k)) \<and> length (blk k) \<le> length buf \<and>
       unat (of_nat k :: u32) = k \<and> k < length (pieces i) \<and> k < num_pieces pm \<and>
       (\<forall>buf'. length buf' = length (blk k) \<longrightarrow> rp (of_nat k) buf' = Ok (blk k))"
    and "pm_wf pm"
  shows "verify_loop sha1 rp i ks buf pm v =
     Ok (pm\<lparr>bitfield := map (\<lambda>j. bitfield pm ! j \<or> (j \<in> set ks \<and> sha1 (blk j) = pieces i ! j)) [0..<num_pieces pm]\<rparr>,
         v + length (filter (\<lambda>k. sha1 (blk k) = pieces i ! k) ks))"
  using assms
proof (induction ks arbitrary: buf pm v)
  case Nil
  have "map ((!) (bitfield pm)) [0..<num_pieces pm] = bitfield pm"
    using Nil(2) by (metis map_nth pm_wf_def)
  then show ?case by simp
next
  case (Cons k ks)
  have k: "verify_len i k = Ok (length (blk k))" "length (blk k) \<le> length buf" "unat (of_nat k :: u32) = k"
    "k < length (pieces i)" "k < num_pieces pm" "\<And>buf'. length buf' = length (blk k) \<Longrightarrow> rp (of_nat k) buf' = Ok (blk k)"
    using Cons.prems(1) [of k] by auto
  have rp: "rp (of_nat k) (take (length (blk k)) buf) = Ok (blk k)" using k(2) by (intro k(6)) simp
  let ?buf = "blk k @ drop (length (blk k)) buf"
  have len: "length ?buf = length buf" using k(2) by simp
  show ?case
  proof (cases "sha1 (blk k) = pieces i ! k")
    case True
    let ?pm = "pm\<lparr>bitfield := (bitfield pm)[k := True]\<rparr>"
    have wf: "pm_wf ?pm" using Cons.prems(2) by (simp add: pm_wf_def)
    have sp: "set_piece pm (of_nat k) = Ok ?pm"
      using k(3,5) Cons.prems(2) by (simp add: set_piece_def update_at_def pm_wf_def)
    have "verify_loop sha1 rp i (k # ks) buf pm v = verify_loop sha1 rp i ks ?buf ?pm (v + 1)"
      using k(1,2,4) rp True sp by (simp add: Let_def index_at_def)
    also have "\<dots> = Ok (?pm\<lparr>bitfield := map (\<lambda>j. bitfield ?pm ! j \<or> (j \<in> set ks \<and> sha1 (blk j) = pieces i ! j)) [0..<num_pieces ?pm]\<rparr>,
        v + 1 + length (filter (\<lambda>k. sha1 (blk k) = pieces i ! k) ks))"
      by (rule Cons.IH [OF _ wf]) (use Cons.prems(1) len in auto)
    also have "map (\<lambda>j. bitfield ?pm ! j \<or> (j \<in> set ks \<and> sha1 (blk j) = pieces i ! j)) [0..<num_pieces ?pm] =
        map (\<lambda>j. bitfield pm ! j \<or> (j \<in> set (k # ks) \<and> sha1 (blk j) = pieces i ! j)) [0..<num_pieces pm]"
    proof (rule map_cong)
      fix j assume "j \<in> set [0..<num_pieces pm]"
      then have "(bitfield pm)[k := True] ! j = (j = k \<or> bitfield pm ! j)"
        using Cons.prems(2) by (cases "j = k") (simp_all add: pm_wf_def)
      then show "(bitfield ?pm ! j \<or> (j \<in> set ks \<and> sha1 (blk j) = pieces i ! j)) =
          (bitfield pm ! j \<or> (j \<in> set (k # ks) \<and> sha1 (blk j) = pieces i ! j))"
        using True by auto
    qed simp
    finally show ?thesis using True by simp
  next
    case False
    have "verify_loop sha1 rp i (k # ks) buf pm v = verify_loop sha1 rp i ks ?buf pm v"
      using k(1,2,4) rp False by (simp add: Let_def index_at_def)
    also have "\<dots> = Ok (pm\<lparr>bitfield := map (\<lambda>j. bitfield pm ! j \<or> (j \<in> set ks \<and> sha1 (blk j) = pieces i ! j)) [0..<num_pieces pm]\<rparr>,
        v + length (filter (\<lambda>k. sha1 (blk k) = pieces i ! k) ks))"
      by (rule Cons.IH [OF _ Cons.prems(2)]) (use Cons.prems(1) len in auto)
    also have "map (\<lambda>j. bitfield pm ! j \<or> (j \<in> set ks \<and> sha1 (blk j) = pieces i ! j)) [0..<num_pieces pm] =
        map (\<lambda>j. bitfield pm ! j \<or> (j \<in> set (k # ks) \<and> sha1 (blk j) = pieces i ! j)) [0..<num_pieces pm]"
      using False by (intro map_cong) auto
    finally show ?thesis using False by simp
  qed
qed

context full_source
begin

lemma dss_read_piece_block:
  assumes "info_fits i content" "k < info_num_pieces i" "dss_new src i = Ok d" "length buf = length (block_at i content k)"
  shows "dss_read_piece d (of_nat k) buf = Ok (block_at i content k)"
proof -
  let ?n = "unat (piece_length i)"
  have d: "d = \<lparr>dss_source = src, dss_piece_length = piece_length i, dss_num_pieces = info_num_pieces i, dss_total_size = of_nat (length content)\<rparr>"
    using assms(1,3) by (simp add: dss_new_def info_fits_def)
  have small: "length content < 2 ^ 64" using assms(1) by (simp add: info_fits_def)
  have uc: "(ucast (of_nat k :: u32) :: u64) = of_nat k"
    using piece_index_values(1) [OF assms(1,2)] by (metis of_nat_unat)
  have off: "dss_piece_offset d (of_nat k) = Ok (of_nat (k * ?n))"
    using piece_index_values(2) [OF assms(1,2)] by (simp add: dss_piece_offset_def d uc)
  have len: "\<exists>l. dss_piece_len d (of_nat k) = Ok l \<and> unat l = length (block_at i content k)"
    using verify_len_block [OF assms(1,2)] piece_index_values(1,2) [OF assms(1,2)] assms(1,2)
    by (auto simp: dss_piece_len_def verify_len_def d uc info_fits_def split: if_splits)
  then obtain l where l: "dss_piece_len d (of_nat k) = Ok l" "unat l = length (block_at i content k)" by blast
  have "src_read src (of_nat (k * ?n)) (unat l) = Ok (block_at i content k)"
    using full_read [OF small, of "of_nat (k * ?n)" "unat l"] piece_index_values(3) [OF assms(1,2)] l(2)
    by (simp add: block_at_def min_def)
  then show ?thesis
    using off l assms(4) by (simp add: dss_read_piece_def d)
qed

lemma verify_existing_full:
  assumes "info_fits i content" "dss_new src i = Ok d"
  shows "verify_existing sha1 (dss_read_piece d) i (piece_manager_new (info_num_pieces i)) =
     Ok (\<lparr>num_pieces = info_num_pieces i, bitfield = map (\<lambda>k. sha1 (block_at i content k) = pieces i ! k) [0..<info_num_pieces i]\<rparr>,
         length (filter (\<lambda>k. sha1 (block_at i content k) = pieces i ! k) [0..<info_num_pieces i]))"
proof -
  have "verify_existing sha1 (dss_read_piece d) i (piece_manager_new (info_num_pieces i)) =
     Ok ((piece_manager_new (info_num_pieces i))\<lparr>bitfield := map (\<lambda>j. bitfield (piece_manager_new (info_num_pieces i)) ! j \<or>
          (j \<in> set [0..<info_num_pieces i] \<and> sha1 (block_at i content j) = pieces i ! j)) [0..<num_pieces (piece_manager_new (info_num_pieces i))]\<rparr>,
        0 + length (filter (\<lambda>k. sha1 (block_at i content k) = pieces i ! k) [0..<info_num_pieces i]))"
    unfolding verify_existing_def
    using verify_len_block [OF assms(1)] piece_index_values(1) [OF assms(1)] dss_read_piece_block [OF assms(1) _ assms(2)]
    by (intro verify_loop_spec) (auto simp: info_num_pieces_def piece_manager_new_def pm_wf_def)
  also have "\<dots> = Ok (\<lparr>num_pieces = info_num_pieces i, bitfield = map (\<lambda>k. sha1 (block_at i content k) = pieces i ! k) [0..<info_num_pieces i]\<rparr>,
         length (filter (\<lambda>k. sha1 (block_at i content k) = pieces i ! k) [0..<info_num_pieces i]))"
    by (simp add: piece_manager_new_def)
  finally show ?thesis .
qed

end


subsection \<open>Hashing does not depend on how the source is read\<close>

lemma builder_holds_unique: "builder_holds sha1 pl xs b \<Longrightarrow> builder_holds sha1 pl xs b' \<Longrightarrow> b = b'"
  by (simp add: builder_holds_def word_unat_eq_iff)

lemma hash_short_reads_parts:
  assumes "0 < pl" "length bs < 2 ^ 64"
  shows "hash_source sha1 (file_source name bs short) pl = hash_source sha1 (memory_source bs) pl"
    and "\<exists>b. hash_source sha1 (file_source name bs short) pl = Some (Ok b) \<and> builder_holds sha1 pl bs b"
proof -
  obtain b where b: "hash_source sha1 (file_source name bs short) pl = Some (Ok b)" "builder_holds sha1 pl bs b"
    using disk.hash_source_holds [OF assms] by blast
  obtain b' where b': "hash_source sha1 (memory_source bs) pl = Some (Ok b')" "builder_holds sha1 pl bs b'"
    using ram.hash_source_holds [OF assms] by blast
  show "hash_source sha1 (file_source name bs short) pl = hash_source sha1 (memory_source bs) pl"
    using b(1) b'(1) builder_holds_unique [OF b(2) b'(2)] by simp
  show "\<exists>b. hash_source sha1 (file_source name bs short) pl = Some (Ok b) \<and> builder_holds sha1 pl bs b"
    using b by blast
qed

text \<open>C19.
  Hashing a file gives the same builder as hashing its bytes in memory, whatever part of the available
  bytes each read returns, and it always returns: the pieces are the hashes of the blocks of the file.\<close>

theorem hash_short_reads:
  assumes "0 < pl" "length bs < 2 ^ 64"
  shows "hash_source sha1 (file_source name bs short) pl = hash_source sha1 (memory_source bs) pl \<and>
     (\<exists>b. hash_source sha1 (file_source name bs short) pl = Some (Ok b) \<and> builder_holds sha1 pl bs b)"
  using hash_short_reads_parts [OF assms] by blast

theorem hash_short_reads_witness:
  "\<exists>b. hash_source (\<lambda>x. x) (file_source None [1, 2, 3, 4, 5] (\<lambda>_ _. 1)) 2 = Some (Ok b) \<and> mb_pieces b = [[1, 2], [3, 4]] \<and> mb_buf b = [5]"
proof -
  obtain b where b: "hash_source (\<lambda>x. x) (file_source None [1, 2, 3, 4, 5] (\<lambda>_ _. 1)) 2 = Some (Ok b)"
    "builder_holds (\<lambda>x. x) 2 [1, 2, 3, 4, 5] b"
    using conjunct2 [OF hash_short_reads [of 2 "[1, 2, 3, 4, 5]" "\<lambda>x. x" None "\<lambda>_ _. 1"]] by auto
  then show ?thesis
    by (auto simp: builder_holds_def piece_rest_def chunks_exact.simps)
qed

subsection \<open>A created torrent verifies\<close>

lemma chunks_exact_nth: "0 < n \<Longrightarrow> k < length xs div n \<Longrightarrow> chunks_exact n xs ! k = take n (drop (k * n) xs)"
proof (induction k arbitrary: xs)
  case 0
  then have "n \<le> length xs" by (metis div_less leI less_nat_zero_code)
  with 0 show ?case by (subst chunks_exact.simps) simp
next
  case (Suc k)
  have n: "n \<le> length xs" using Suc.prems by (metis div_less leI less_nat_zero_code)
  then have "k < length (drop n xs) div n" using Suc.prems by (simp add: le_div_geq)
  from Suc.IH [OF Suc.prems(1) this] n Suc.prems(1) show ?case
    by (subst chunks_exact.simps) (simp add: add.commute)
qed

lemma ceil_div:
  assumes n: "0 < n"
  shows "(m + n - Suc 0) div n = m div n + (if m mod n = 0 then 0 else 1)"
proof (cases "m mod n = 0")
  case True
  have e: "m + n - Suc 0 = n - Suc 0 + m div n * n"
    using n div_mult_mod_eq [of m n] True by linarith
  have "(n - Suc 0 + m div n * n) div n = m div n"
    using n by (subst div_mult_self1) simp_all
  then show ?thesis unfolding e using True by simp
next
  case False
  have e: "m + n - Suc 0 = m mod n - Suc 0 + Suc (m div n) * n"
    using n div_mult_mod_eq [of m n] False by simp
  have "m mod n < n" using n by simp
  then have "(m mod n - Suc 0) div n = 0" by simp
  then have "(m mod n - Suc 0 + Suc (m div n) * n) div n = Suc (m div n)"
    using n by (subst div_mult_self1) simp_all
  then show ?thesis unfolding e using False by simp
qed

lemma builder_info:
  assumes "builder_holds sha1 pl xs b" "0 < pl" "length xs < 2 ^ 64"
    and "piece_length i = ucast pl" "mode i = Single name (mb_total_length b)"
    and "pieces i = (if mb_buf b \<noteq> [] then mb_pieces b @ [sha1 (mb_buf b)] else mb_pieces b)"
    and "info_num_pieces i \<le> 2 ^ 32"
  shows "info_fits i xs" and "k < info_num_pieces i \<Longrightarrow> pieces i ! k = sha1 (block_at i xs k)"
proof -
  let ?n = "unat pl"
  have n: "0 < ?n" using assms(2) by (simp add: word_less_nat_alt)
  have pl: "unat (piece_length i) = ?n"
    by (simp add: assms(4) unsigned_ucast_eq take_bit_nat_eq_self unsigned_less [THEN order_less_le_trans])
  have rest: "length (mb_buf b) = length xs mod ?n" and ps: "mb_pieces b = map sha1 (chunks_exact ?n xs)"
    using assms(1) n by (simp_all add: builder_holds_def length_piece_rest)
  then have num: "length (pieces i) = (length xs + ?n - Suc 0) div ?n"
    using n length_0_conv [of "mb_buf b"] by (auto simp: assms(6) ceil_div length_chunks_exact simp del: length_0_conv)
  have "mb_total_length b = of_nat (length xs)"
    using assms(1) by (metis builder_holds_def of_nat_unat ucast_id)
  then show "info_fits i xs"
    using n pl num assms(3,5,7) by (simp add: info_fits_def total_size_def info_num_pieces_def)
  assume k: "k < info_num_pieces i"
  show "pieces i ! k = sha1 (block_at i xs k)"
  proof (cases "k < length xs div ?n")
    case True
    then show ?thesis
      using n ps by (simp add: assms(6) nth_append length_chunks_exact chunks_exact_nth block_at_def pl)
  next
    case False
    then have "mb_buf b \<noteq> []" "k = length xs div ?n"
      using k n num rest by (auto simp: info_num_pieces_def ceil_div split: if_splits)
    moreover have "mb_buf b = drop (length xs div ?n * ?n) xs"
      using assms(1) by (simp add: builder_holds_def piece_rest_def)
    moreover have "length (mb_buf b) < ?n" using rest n by simp
    ultimately show ?thesis
      using ps n by (simp add: assms(6) nth_append length_chunks_exact block_at_def pl)
  qed
qed

lemma set_if_info [simp]: "(\<And>x m. info (f x m) = info m) \<Longrightarrow> info (set_if v f m) = info m"
  by (simp add: set_if_def split: option.split)

lemma prepare_torrent_Ok:
  "prepare_torrent sha1 sb b = Ok pt \<Longrightarrow>
   pt_source pt = sb_source sb \<and> pt_super_seed pt = sb_super_seed sb \<and> metainfo_to_bytes (pt_metainfo pt) = Some (pt_torrent_bytes pt) \<and>
   (\<exists>name. mode (info (pt_metainfo pt)) = Single name (mb_total_length b)) \<and>
   piece_length (info (pt_metainfo pt)) = ucast (mb_piece_length b) \<and>
   pieces (info (pt_metainfo pt)) = (if mb_buf b \<noteq> [] then mb_pieces b @ [sha1 (mb_buf b)] else mb_pieces b)"
  by (auto simp: prepare_torrent_def Let_def builder_finish_def)

lemma seeded_torrent_complete_parts:
  assumes "seed_hash sha1 sb = Some (Ok pt)" "full_source (sb_source sb) xs" "length xs < 2 ^ 64"
    and "info_num_pieces (info (pt_metainfo pt)) \<le> 2 ^ 32"
  shows "\<exists>d. dss_new (pt_source pt) (info (pt_metainfo pt)) = Ok d \<and>
      verify_existing sha1 (dss_read_piece d) (info (pt_metainfo pt)) (piece_manager_new (info_num_pieces (info (pt_metainfo pt)))) =
        Ok (\<lparr>num_pieces = info_num_pieces (info (pt_metainfo pt)), bitfield = replicate (info_num_pieces (info (pt_metainfo pt))) True\<rparr>,
            info_num_pieces (info (pt_metainfo pt)))"
    and "\<forall>k < info_num_pieces (info (pt_metainfo pt)). pieces (info (pt_metainfo pt)) ! k = sha1 (block_at (info (pt_metainfo pt)) xs k)"
proof -
  let ?i = "info (pt_metainfo pt)" and ?src = "sb_source sb"
  note src = full_source.axioms(1) [OF assms(2)]
  obtain pl b where pl: "resolve_piece_length (sb_source sb) (sb_piece_length sb) = Ok pl"
    and h: "hash_source sha1 (sb_source sb) pl = Some (Ok b)" and pt: "prepare_torrent sha1 sb b = Ok pt"
    using assms(1) by (auto simp: seed_hash_def split: result.splits)
  have pos: "0 < pl"
    using h data_source.src_size [OF src] by (auto simp: hash_source_def builder_new_def split: if_splits)
  have b: "builder_holds sha1 pl xs b"
    using data_source.hash_source_holds [OF src pos assms(3), of sha1] h by auto
  note ptf = prepare_torrent_Ok [OF pt]
  obtain name where name: "mode ?i = Single name (mb_total_length b)" using ptf by blast
  have pli: "piece_length ?i = ucast pl" using ptf b by (simp add: builder_holds_def)
  note bi = builder_info [OF b pos assms(3) pli name _ assms(4)]
  have ps: "pieces ?i = (if mb_buf b \<noteq> [] then mb_pieces b @ [sha1 (mb_buf b)] else mb_pieces b)" using ptf by blast
  have fits: "info_fits ?i xs" and hashes: "\<And>k. k < info_num_pieces ?i \<Longrightarrow> pieces ?i ! k = sha1 (block_at ?i xs k)"
    using bi [OF ps] by blast+
  then show "\<forall>k < info_num_pieces ?i. pieces ?i ! k = sha1 (block_at ?i xs k)" by blast
  have "\<exists>d. dss_new ?src ?i = Ok d" using fits by (simp add: dss_new_def info_fits_def)
  then obtain d where d: "dss_new ?src ?i = Ok d" by blast
  have all: "map (\<lambda>k. sha1 (block_at ?i xs k) = pieces ?i ! k) [0..<info_num_pieces ?i] = replicate (info_num_pieces ?i) True"
    using hashes by (intro nth_equalityI) simp_all
  have "filter (\<lambda>k. sha1 (block_at ?i xs k) = pieces ?i ! k) [0..<info_num_pieces ?i] = [0..<info_num_pieces ?i]"
    using hashes by (intro filter_True) simp
  then have "verify_existing sha1 (dss_read_piece d) ?i (piece_manager_new (info_num_pieces ?i)) =
      Ok (\<lparr>num_pieces = info_num_pieces ?i, bitfield = replicate (info_num_pieces ?i) True\<rparr>, info_num_pieces ?i)"
    using full_source.verify_existing_full [OF assms(2) fits d, of sha1] all by simp
  then show "\<exists>d. dss_new (pt_source pt) ?i = Ok d \<and>
      verify_existing sha1 (dss_read_piece d) ?i (piece_manager_new (info_num_pieces ?i)) =
        Ok (\<lparr>num_pieces = info_num_pieces ?i, bitfield = replicate (info_num_pieces ?i) True\<rparr>, info_num_pieces ?i)"
    using d ptf by auto
qed

text \<open>C16.
  A torrent made from data verifies against it. For every source that keeps the documented contract (it
  gives its size, and a read returns all the bytes asked for, up to the end of the data; a vector in
  memory does, a file does as long as the system does not cut its reads short): when the seed builder has
  hashed it into at most 2^32 pieces, the storage that serves the source is created, the verification
  reads every piece, finds all of them and marks them complete, so the torrent starts as a seed. Every
  hash of the torrent is that of a block of the data. A source that returns less is hashed all the same,
  but not found complete (\<open>short_read_zeros\<close>).\<close>

theorem seeded_torrent_complete:
  assumes "seed_hash sha1 sb = Some (Ok pt)" and "full_source (sb_source sb) xs" and "length xs < 2 ^ 64"
    and "info_num_pieces (info (pt_metainfo pt)) \<le> 2 ^ 32"
  shows "(\<exists>d. dss_new (pt_source pt) (info (pt_metainfo pt)) = Ok d \<and>
      verify_existing sha1 (dss_read_piece d) (info (pt_metainfo pt)) (piece_manager_new (info_num_pieces (info (pt_metainfo pt)))) =
        Ok (\<lparr>num_pieces = info_num_pieces (info (pt_metainfo pt)), bitfield = replicate (info_num_pieces (info (pt_metainfo pt))) True\<rparr>,
            info_num_pieces (info (pt_metainfo pt)))) \<and>
     (\<forall>k < info_num_pieces (info (pt_metainfo pt)). pieces (info (pt_metainfo pt)) ! k = sha1 (block_at (info (pt_metainfo pt)) xs k))"
  using seeded_torrent_complete_parts [OF assms] by blast

text \<open>Three bytes in memory and in a file make the same torrent.\<close>

lemma hashed_source:
  assumes "full_source src [1, 2, 3]"
  shows "\<exists>pt. seed_hash (\<lambda>x. x) ((seed_builder_new src)\<lparr>sb_piece_length := Some 2\<rparr>) = Some (Ok pt) \<and>
    info_num_pieces (info (pt_metainfo pt)) = 2"
proof -
  let ?sb = "(seed_builder_new src)\<lparr>sb_piece_length := Some 2\<rparr>"
  obtain b where b: "hash_source (\<lambda>x. x) src 2 = Some (Ok b)" "builder_holds (\<lambda>x. x) 2 [1, 2, 3] b"
    using data_source.hash_source_holds [OF full_source.axioms(1) [OF assms], of 2 "\<lambda>x. x"] by auto
  have "\<exists>pt. prepare_torrent (\<lambda>x. x) ?sb b = Ok pt"
    by (simp add: prepare_torrent_def metainfo_to_bytes_def builder_finish_def Let_def set_if_def seed_builder_new_def)
  then obtain pt where pt: "prepare_torrent (\<lambda>x. x) ?sb b = Ok pt" by blast
  have "info_num_pieces (info (pt_metainfo pt)) = 2"
    using prepare_torrent_Ok [OF pt] b(2)
    by (auto simp: info_num_pieces_def builder_holds_def piece_rest_def length_chunks_exact)
  then show ?thesis
    using b(1) pt by (intro exI [of _ pt]) (simp add: seed_hash_def resolve_piece_length_def seed_builder_new_def)
qed

theorem seeded_torrent_complete_witness:
  "\<exists>pt d. seed_hash (\<lambda>x. x) ((seed_builder_new (file_source (Some (ascii ''f'')) [1, 2, 3] (\<lambda>_ n. n)))\<lparr>sb_piece_length := Some 2\<rparr>) = Some (Ok pt) \<and>
     verify_existing (\<lambda>x. x) (dss_read_piece d) (info (pt_metainfo pt)) (piece_manager_new 2) =
       Ok (\<lparr>num_pieces = 2, bitfield = [True, True]\<rparr>, 2)"
proof -
  let ?src = "file_source (Some (ascii ''f'')) [1, 2, 3] (\<lambda>_ n. n)"
  let ?sb = "(seed_builder_new ?src)\<lparr>sb_piece_length := Some 2\<rparr>"
  obtain pt where pt: "seed_hash (\<lambda>x. x) ?sb = Some (Ok pt)" "info_num_pieces (info (pt_metainfo pt)) = 2"
    using hashed_source [OF whole_file.full_source_axioms] by blast
  have "sb_source ?sb = ?src" by (simp add: seed_builder_new_def)
  then have "full_source (sb_source ?sb) [1, 2, 3]" using whole_file.full_source_axioms by simp
  from conjunct1 [OF seeded_torrent_complete [OF pt(1) this]] pt(2) obtain d where
    "verify_existing (\<lambda>x. x) (dss_read_piece d) (info (pt_metainfo pt)) (piece_manager_new 2) =
       Ok (\<lparr>num_pieces = 2, bitfield = replicate 2 True\<rparr>, 2)" by auto
  moreover have "replicate 2 True = [True, True]" by (simp add: numeral_2_eq_2)
  ultimately show ?thesis using pt(1) by auto
qed


subsection \<open>What the seed path loses\<close>

text \<open>The storage reads a piece with one read of the source and fills what the read did not return with zeros.\<close>

lemma short_read_zeros:
  "dss_read_piece \<lparr>dss_source = file_source None [1, 2, 3, 4] (\<lambda>_ _. 1), dss_piece_length = 4, dss_num_pieces = 1, dss_total_size = 4\<rparr>
     0 [9, 9, 9, 9] = Ok [1, 0, 0, 0]"
  by (simp add: dss_read_piece_def dss_piece_offset_def dss_piece_len_def mul_u64_def checked_mul_def sub_u64_def
      file_source_def numeral_3_eq_3)

text \<open>The private flag of the builder does not reach the torrent.\<close>

lemma private_flag_ignored: "seed_hash sha1 (sb\<lparr>sb_is_private := True\<rparr>) = seed_hash sha1 (sb\<lparr>sb_is_private := False\<rparr>)"
proof -
  have "prepare_torrent sha1 (sb\<lparr>sb_is_private := True\<rparr>) = prepare_torrent sha1 (sb\<lparr>sb_is_private := False\<rparr>)"
    by (rule ext) (simp add: prepare_torrent_def cong: option.case_cong)
  then show ?thesis by (simp add: seed_hash_def cong: result.case_cong)
qed

text \<open>The magnet link of a torrent whose name has a separator in it names another torrent.\<close>

lemma simple_magnet_name:
  "map_option display_name (result_ok (magnet_from_str (ascii ''magnet:?xt=urn:btih:0000000000000000000000000000000000000000&dn=a&b''))) = Some (Some (ascii ''a''))"
  by code_simp

lemma simple_magnet_text:
  "simple_magnet (\<lambda>_. replicate 20 0) (builder_finish (\<lambda>_. replicate 20 0) b [] (Single (ascii ''a&b'') 0) [] []) =
     ascii ''magnet:?xt=urn:btih:0000000000000000000000000000000000000000&dn=a&b''"
proof -
  have "hex_encode (replicate 20 0) = ascii ''0000000000000000000000000000000000000000''" by code_simp
  then show ?thesis
    by (simp add: simple_magnet_def builder_finish_def info_hash_def Let_def mode_name_def) (simp add: ascii_def)
qed

end
