(* ===== verification/Metadata_Fetch.thy ===== *)
theory Metadata_Fetch
  imports Peer_Ext Peer_Wire Effects Metainfo
begin

section \<open>Fetching the metadata of a magnet link\<close>

text \<open>
  The free functions of \<open>session/download/mod.rs\<close> (BEP 9): the conversation with one peer, and the choice
  among the answers of several. The connection is the state: the messages sent so far, what each send
  meets, and the script of what the peer sends; an exhausted script is a closed connection.
\<close>

definition MAX_METADATA_PEERS :: nat where "MAX_METADATA_PEERS = 8"
definition UT_METADATA_EXT :: rstring where "UT_METADATA_EXT = ascii ''ut_metadata''"
definition UT_METADATA_ID :: u8 where "UT_METADATA_ID = 2"

record fetch_conn =
  fc_sent :: "PeerMessage list"
  fc_send :: "unit result list"
  fc_recv :: "PeerMessage result list"

definition fetch_send :: "PeerMessage \<Rightarrow> (fetch_conn, unit) act" where
  "fetch_send msg = (\<lambda>c. case fc_send c of
     [] \<Rightarrow> (c\<lparr>fc_sent := fc_sent c @ [msg]\<rparr>, Ok ())
   | r # rs \<Rightarrow> (c\<lparr>fc_sent := fc_sent c @ [msg], fc_send := rs\<rparr>, r))"

definition fetch_recv :: "(fetch_conn, PeerMessage) act" where
  "fetch_recv = (\<lambda>c. case fc_recv c of
     [] \<Rightarrow> (c, Err PeerConnectionClosed)
   | r # rs \<Rightarrow> (c\<lparr>fc_recv := rs\<rparr>, r))"

subsection \<open>The extension handshake\<close>

definition metadata_offer :: "ExtensionNegotiation \<Rightarrow> u8 option \<times> u64 option" where
  "metadata_offer neg = (map_of (en_m neg) UT_METADATA_EXT, en_metadata_size neg)"

definition read_offer :: "bytes \<Rightarrow> (u8 option \<times> u64 option) result" where
  "read_offer data =
     (case decode data of
        Ok (ben, _) \<Rightarrow>
          (case extension_from_bencode ben of
             Ok neg \<Rightarrow> Ok (metadata_offer neg)
           | Err _ \<Rightarrow> Err PeerInvalidExtendedMessage
           | Panic \<Rightarrow> Panic)
      | Err _ \<Rightarrow> Err PeerInvalidExtendedMessage
      | Panic \<Rightarrow> Panic)"

text \<open>The loop that skips a few messages; every turn takes one message of the script.\<close>

fun await_handshake :: "PeerMessage result list \<Rightarrow> PeerMessage result list \<times> (u8 option \<times> u64 option) result" where
  "await_handshake [] = ([], Err PeerConnectionClosed)"
| "await_handshake (r # rs) =
     (case r of
        Err e \<Rightarrow> (rs, Err e)
      | Panic \<Rightarrow> (rs, Panic)
      | Ok msg \<Rightarrow> (case msg of
          Extended ext_id data \<Rightarrow> (rs, if ext_id = 0 then read_offer data else Err PeerInvalidExtendedMessage)
        | KeepAlive \<Rightarrow> await_handshake rs
        | Bitfield _ \<Rightarrow> await_handshake rs
        | Unchoke \<Rightarrow> await_handshake rs
        | Have _ \<Rightarrow> await_handshake rs
        | _ \<Rightarrow> (rs, Err PeerInvalidExtendedMessage)))"

definition recv_handshake :: "(fetch_conn, u8 option \<times> u64 option) act" where
  "recv_handshake = (\<lambda>c. let (rs, r) = await_handshake (fc_recv c) in (c\<lparr>fc_recv := rs\<rparr>, r))"

subsection \<open>The pieces\<close>

definition split_bep9_data :: "bytes \<Rightarrow> (bytes \<times> bytes) result" where
  "split_bep9_data data =
     (case decode data of
        Ok (_, rest) \<Rightarrow> Ok (take (length data - length rest) data, rest)
      | Err _ \<Rightarrow> Err PeerInvalidExtendedMessage
      | Panic \<Rightarrow> Panic)"

text \<open>
  \<open>buf[offset..end].copy_from_slice(data)\<close> with the end cut to the buffer: a panic unless the data fits.
\<close>

definition copy_piece :: "bytes \<Rightarrow> nat \<Rightarrow> bytes \<Rightarrow> bytes result" where
  "copy_piece buf off data =
     (let upto = min (off + length data) (length buf) in
      if upto < off \<or> upto - off \<noteq> length data then Panic
      else Ok (take off buf @ data @ drop upto buf))"

definition store_piece :: "bytes \<Rightarrow> bytes \<Rightarrow> bytes result" where
  "store_piece buf data =
     and_then (split_bep9_data data) (\<lambda>(dict, raw_data).
       case decode dict of
         Err _ \<Rightarrow> Err PeerInvalidExtendedMessage
       | Panic \<Rightarrow> Panic
       | Ok (ben, _) \<Rightarrow>
           if is_reject ben then Err PeerInvalidExtendedMessage
           else and_then (metadata_from_bencode ben raw_data) (\<lambda>piece.
                  copy_piece buf (unat (md_piece piece) * METADATA_PIECE_SIZE) (md_data piece)))"

fun fetch_pieces :: "u8 \<Rightarrow> nat list \<Rightarrow> bytes \<Rightarrow> (fetch_conn, bytes) act" where
  "fetch_pieces ext_id [] buf = act_return buf"
| "fetch_pieces ext_id (k # ks) buf =
     act_seq (fetch_send (Extended ext_id (encode (metadata_request_to_bencode \<lparr>mr_piece = of_nat k\<rparr>))))
     (act_bind fetch_recv (\<lambda>resp. case resp of
        Extended resp_id data \<Rightarrow>
          if resp_id = ext_id
          then act_bind (act_lift (store_piece buf data)) (fetch_pieces ext_id ks)
          else act_lift (Err PeerInvalidExtendedMessage)
      | _ \<Rightarrow> act_lift (Err PeerInvalidExtendedMessage)))"

text \<open>
  The number of pieces is cut to 32 bits; a buffer of \<open>2^63\<close> bytes or more is a capacity overflow.
\<close>

definition metadata_pieces :: "u64 \<Rightarrow> nat" where
  "metadata_pieces sz = (unat sz + METADATA_PIECE_SIZE - 1) div METADATA_PIECE_SIZE mod 2 ^ 32"

definition our_offer :: "PeerMessage result" where
  "our_offer = and_then (add_extension extension_new UT_METADATA_EXT UT_METADATA_ID) (\<lambda>neg.
     Ok (Extended 0 (encode (extension_to_bencode neg))))"

definition fetch_metadata :: "(fetch_conn, bytes) act" where
  "fetch_metadata =
     act_bind (act_lift our_offer) (\<lambda>offer.
     act_seq (fetch_send offer)
     (act_bind recv_handshake (\<lambda>(remote_ext_id, metadata_size).
      act_bind (act_lift (ok_or PeerInvalidExtendedMessage remote_ext_id)) (\<lambda>ext_id.
      act_bind (act_lift (ok_or PeerInvalidExtendedMessage metadata_size)) (\<lambda>sz.
        if 2 ^ 63 \<le> unat sz then act_lift Panic
        else fetch_pieces ext_id [0..<metadata_pieces sz] (replicate (unat sz) 0))))))"

text \<open>The answers of the first eight peers, in the order in which their tasks end.\<close>

fun first_metadata :: "bytes result list \<Rightarrow> bytes result" where
  "first_metadata [] = Err PeerConnectionClosed"
| "first_metadata (r # rs) = (case r of Ok bytes \<Rightarrow> Ok bytes | _ \<Rightarrow> first_metadata rs)"

definition metadata_from_peers :: "(SocketAddr \<Rightarrow> bytes result) \<Rightarrow> (SocketAddr list \<Rightarrow> SocketAddr list) \<Rightarrow> SocketAddr list \<Rightarrow> bytes result" where
  "metadata_from_peers peer finish_order addrs =
     first_metadata (map peer (finish_order (take MAX_METADATA_PEERS addrs)))"


subsection \<open>A peer that serves the metadata\<close>

text \<open>What such a peer answers to the request for piece \<open>k\<close> of \<open>xs\<close>, under an extension number.\<close>

definition metadata_block :: "bytes \<Rightarrow> nat \<Rightarrow> bytes" where
  "metadata_block xs k = take METADATA_PIECE_SIZE (drop (k * METADATA_PIECE_SIZE) xs)"

definition metadata_reply :: "u8 \<Rightarrow> bytes \<Rightarrow> nat \<Rightarrow> PeerMessage result" where
  "metadata_reply ext xs k =
     Ok (Extended ext (encode (metadata_to_bencode
       \<lparr>md_piece = of_nat k, md_total_size = of_nat (length xs), md_data = metadata_block xs k\<rparr>) @ metadata_block xs k))"

lemma length_encode_integer: "length (encode_integer i) \<le> 22"
proof -
  have r: "- (2 ^ 63) \<le> sint i" "sint i < 2 ^ 63"
    using sint_ge [of i] sint_lt [of i] by simp_all
  have "nat (sint i) < 10 ^ 19" using r by (cases "0 \<le> sint i") (simp_all add: nat_less_iff)
  moreover have "nat (- sint i) < 10 ^ 19" using r by (cases "0 \<le> - sint i") (simp_all add: nat_less_iff)
  ultimately have "length (nat_to_string (nat (sint i))) \<le> 19" "length (nat_to_string (nat (- sint i))) \<le> 19"
    by (auto intro!: length_nat_to_string_le)
  then show ?thesis by (simp add: encode_integer_def int_to_string_def)
qed

lemma metadata_dict:
  "canonical (metadata_to_bencode m)" "length (encode (metadata_to_bencode m)) < 2 ^ 64"
proof -
  show c: "canonical (metadata_to_bencode m)"
    by (simp add: metadata_to_bencode_def ascii_def word_less_nat_alt word_le_nat_alt)
  have k: "length (encode_bytes (ascii ''msg_type'')) = 10" "length (encode_bytes (ascii ''piece'')) = 7"
    "length (encode_bytes (ascii ''total_size'')) = 13" by code_simp+
  have s: "sort_key fst [(ascii ''msg_type'', Integer 1), (ascii ''piece'', Integer (ucast (md_piece m))), (ascii ''total_size'', Integer (md_total_size m))] =
      [(ascii ''msg_type'', Integer 1), (ascii ''piece'', Integer (ucast (md_piece m))), (ascii ''total_size'', Integer (md_total_size m))]"
    using c by (intro sort_key_id_if_sorted) (simp add: metadata_to_bencode_def)
  show "length (encode (metadata_to_bencode m)) < 2 ^ 64"
    using k length_encode_integer [of 1] length_encode_integer [of "ucast (md_piece m)"] length_encode_integer [of "md_total_size m"]
    by (simp add: metadata_to_bencode_def s)
qed

lemma metadata_fields:
  "metadata_from_bencode (metadata_to_bencode m) (md_data m) = Ok m" "\<not> is_reject (metadata_to_bencode m)"
proof -
  have keys: "ascii ''msg_type'' \<noteq> ascii ''piece''" "ascii ''piece'' \<noteq> ascii ''total_size''" "ascii ''msg_type'' \<noteq> ascii ''total_size''"
    by (simp_all add: ascii_def)
  have uc: "(ucast (ucast (md_piece m) :: i64) :: u32) = md_piece m" by (rule bit_word_eqI) (simp add: bit_simps)
  show "metadata_from_bencode (metadata_to_bencode m) (md_data m) = Ok m"
    using keys uc by (simp add: metadata_from_bencode_def metadata_to_bencode_def dict_get_int_def dict_get_def)
  show "\<not> is_reject (metadata_to_bencode m)"
    by (simp add: is_reject_def metadata_to_bencode_def dict_get_int_def dict_get_def)
qed


lemma is_reject_data: "md_data m = d \<Longrightarrow> metadata_from_bencode (metadata_to_bencode m) d = Ok m"
  using metadata_fields(1) by blast

lemma store_piece_reply:
  fixes m :: Metadata
  shows "store_piece buf (encode (metadata_to_bencode m) @ md_data m) =
     copy_piece buf (unat (md_piece m) * METADATA_PIECE_SIZE) (md_data m)"
proof -
  have d: "decode (encode (metadata_to_bencode m) @ r) = Ok (metadata_to_bencode m, r)" for r
    using decode_encode_normal [of "metadata_to_bencode m" r] metadata_dict [of m]
    by (simp add: canonical_uniq_keys normal_canonical)
  from d [of "md_data m"] d [of "[]"] show ?thesis
    by (simp add: store_piece_def split_bep9_data_def metadata_fields)
qed

lemma copy_block:
  assumes "k * METADATA_PIECE_SIZE < length xs" "length buf = length xs" "take (k * METADATA_PIECE_SIZE) buf = take (k * METADATA_PIECE_SIZE) xs"
  shows "\<exists>buf'. copy_piece buf (k * METADATA_PIECE_SIZE) (metadata_block xs k) = Ok buf' \<and> length buf' = length xs \<and>
    take (Suc k * METADATA_PIECE_SIZE) buf' = take (Suc k * METADATA_PIECE_SIZE) xs"
proof -
  let ?n = METADATA_PIECE_SIZE and ?b = "metadata_block xs k"
  have l: "length ?b = min ?n (length xs - k * ?n)" by (simp add: metadata_block_def)
  then have fit: "k * ?n + length ?b \<le> length xs" using assms(1) by simp
  have t: "take (k * ?n) xs @ ?b = take (k * ?n + ?n) xs" by (simp add: metadata_block_def take_add)
  have c: "copy_piece buf (k * ?n) ?b = Ok (take (k * ?n) buf @ ?b @ drop (k * ?n + length ?b) buf)"
    using fit assms(2) by (simp add: copy_piece_def Let_def min_def)
  have "length (take (k * ?n + ?n) xs) = k * ?n + length ?b" using l assms(1) by simp
  then have "take (k * ?n + ?n) (take (k * ?n + ?n) xs @ drop (k * ?n + length ?b) buf) = take (k * ?n + ?n) xs"
  proof (cases "k * ?n + ?n \<le> length xs")
    case False
    then have "drop (k * ?n + length ?b) buf = []" using l assms(2) by simp
    then show ?thesis by simp
  qed (use l in simp)
  moreover have "min (length xs) (?n + k * ?n) = k * ?n + length ?b" using l assms(1) by simp
  ultimately show ?thesis
    using c t fit assms(2,3) by (simp add: add.commute flip: append_assoc)
qed

lemma fetch_pieces_serve:
  assumes "\<And>k. k < n \<Longrightarrow> k * METADATA_PIECE_SIZE < length xs" "n \<le> 2 ^ 32"
    and "length buf = length xs" "take (j * METADATA_PIECE_SIZE) buf = take (j * METADATA_PIECE_SIZE) xs" "j \<le> n"
    and "fc_send c = []" "fc_recv c = map (metadata_reply ext xs) [j..<n] @ rest"
  shows "\<exists>buf' c'. fetch_pieces ext [j..<n] buf c = (c', Ok buf') \<and> length buf' = length xs \<and>
     take (n * METADATA_PIECE_SIZE) buf' = take (n * METADATA_PIECE_SIZE) xs \<and>
     fc_sent c' = fc_sent c @ map (\<lambda>k. Extended ext (encode (metadata_request_to_bencode \<lparr>mr_piece = of_nat k\<rparr>))) [j..<n] \<and>
     fc_recv c' = rest"
  using assms(3-7)
proof (induction "n - j" arbitrary: j buf c)
  case 0
  then have "j = n" by simp
  with 0 show ?case by (simp add: act_return_def)
next
  case (Suc d)
  then have j: "j < n" by simp
  then have up: "[j..<n] = j # [Suc j..<n]" by (rule upt_conv_Cons)
  have u: "unat (of_nat j :: u32) = j" using j assms(2) by (simp add: unat_of_nat)
  obtain buf' where buf': "copy_piece buf (j * METADATA_PIECE_SIZE) (metadata_block xs j) = Ok buf'" "length buf' = length xs"
    "take (Suc j * METADATA_PIECE_SIZE) buf' = take (Suc j * METADATA_PIECE_SIZE) xs"
    using copy_block [OF assms(1) [OF j] Suc.prems(1,2)] by blast
  let ?req = "Extended ext (encode (metadata_request_to_bencode \<lparr>mr_piece = of_nat j\<rparr>))"
  let ?c = "c\<lparr>fc_sent := fc_sent c @ [?req], fc_recv := map (metadata_reply ext xs) [Suc j..<n] @ rest\<rparr>"
  have sp: "store_piece buf (encode (metadata_to_bencode \<lparr>md_piece = of_nat j, md_total_size = of_nat (length xs), md_data = metadata_block xs j\<rparr>) @ metadata_block xs j) = Ok buf'"
    using store_piece_reply [of buf "\<lparr>md_piece = of_nat j, md_total_size = of_nat (length xs), md_data = metadata_block xs j\<rparr>"] buf'(1) u
    by simp
  have step: "fetch_pieces ext [j..<n] buf c = fetch_pieces ext [Suc j..<n] buf' ?c"
    using Suc.prems(4,5) sp
    by (simp add: up act_seq_def act_bind_def fetch_send_def fetch_recv_def metadata_reply_def act_lift_def)
  have "d = n - Suc j" using Suc.hyps(2) by simp
  from Suc.hyps(1) [OF this buf'(2,3), of ?c] j Suc.prems(4) obtain b2 c2 where
    "fetch_pieces ext [Suc j..<n] buf' ?c = (c2, Ok b2)" "length b2 = length xs"
    "take (n * METADATA_PIECE_SIZE) b2 = take (n * METADATA_PIECE_SIZE) xs"
    "fc_sent c2 = fc_sent ?c @ map (\<lambda>k. Extended ext (encode (metadata_request_to_bencode \<lparr>mr_piece = of_nat k\<rparr>))) [Suc j..<n]"
    "fc_recv c2 = rest" by auto
  then show ?case
    unfolding step by (intro exI [of _ b2] exI [of _ c2]) (simp add: up)
qed


subsection \<open>The whole conversation\<close>

definition skipped :: "PeerMessage \<Rightarrow> bool" where
  "skipped msg \<longleftrightarrow> (case msg of KeepAlive \<Rightarrow> True | Bitfield _ \<Rightarrow> True | Unchoke \<Rightarrow> True | Have _ \<Rightarrow> True | _ \<Rightarrow> False)"

lemma await_skips:
  "list_all skipped ms \<Longrightarrow> await_handshake (map Ok ms @ Ok (Extended 0 data) # rs) = (rs, read_offer data)"
  by (induction ms) (auto simp: skipped_def split: PeerMessage.splits)

lemma our_offer_Ok: "\<exists>data. our_offer = Ok (Extended 0 data)"
  by (simp add: our_offer_def add_extension_def UT_METADATA_ID_def)

lemma metadata_pieces_bound:
  assumes "0 < length xs" "length xs < 2 ^ 32"
  shows "unat (of_nat (length xs) :: u64) = length xs" "metadata_pieces (of_nat (length xs)) \<le> 2 ^ 32"
    "k < metadata_pieces (of_nat (length xs)) \<Longrightarrow> k * METADATA_PIECE_SIZE < length xs"
    "length xs \<le> metadata_pieces (of_nat (length xs)) * METADATA_PIECE_SIZE"
proof -
  let ?n = METADATA_PIECE_SIZE
  show u: "unat (of_nat (length xs) :: u64) = length xs" using assms(2) by (simp add: unat_of_nat)
  have n: "?n = 16384" by (simp add: METADATA_PIECE_SIZE_def)
  have m: "metadata_pieces (of_nat (length xs)) = (length xs + ?n - 1) div ?n"
    using assms(2) by (simp add: metadata_pieces_def u n)
  show "metadata_pieces (of_nat (length xs)) \<le> 2 ^ 32" unfolding m n using assms(2) by simp
  show "k * ?n < length xs" if "k < metadata_pieces (of_nat (length xs))"
    using that unfolding m n by linarith
  show "length xs \<le> metadata_pieces (of_nat (length xs)) * ?n" unfolding m n by linarith
qed

text \<open>Up to the requests.\<close>

lemma fetch_metadata_starts:
  assumes "0 < length xs" "length xs < 2 ^ 32" "list_all skipped ms"
    and "read_offer hs = Ok (Some ext, Some (of_nat (length xs)))"
  obtains offer where "\<And>rs. fetch_metadata \<lparr>fc_sent = [], fc_send = [], fc_recv = map Ok ms @ [Ok (Extended 0 hs)] @ rs\<rparr> =
      fetch_pieces ext [0..<metadata_pieces (of_nat (length xs))] (replicate (length xs) 0)
        \<lparr>fc_sent = [Extended 0 offer], fc_send = [], fc_recv = rs\<rparr>"
proof -
  obtain data where offer: "our_offer = Ok (Extended 0 data)" using our_offer_Ok by blast
  have "fetch_metadata \<lparr>fc_sent = [], fc_send = [], fc_recv = map Ok ms @ [Ok (Extended 0 hs)] @ rs\<rparr> =
      fetch_pieces ext [0..<metadata_pieces (of_nat (length xs))] (replicate (length xs) 0)
        \<lparr>fc_sent = [Extended 0 data], fc_send = [], fc_recv = rs\<rparr>" (is "fetch_metadata ?start = fetch_pieces _ _ _ ?c") for rs
  proof -
    let ?mid = "?start\<lparr>fc_sent := [Extended 0 data]\<rparr>"
    have s1: "act_lift our_offer ?start = (?start, Ok (Extended 0 data))" by (simp add: act_lift_def offer)
    have s2: "fetch_send (Extended 0 data) ?start = (?mid, Ok ())" by (simp add: fetch_send_def)
    have s3: "recv_handshake ?mid = (?c, Ok (Some ext, Some (of_nat (length xs))))"
    proof -
      have "recv_handshake ?mid = (?mid\<lparr>fc_recv := rs\<rparr>, read_offer hs)"
        using await_skips [OF assms(3), of hs] by (simp add: recv_handshake_def)
      then show ?thesis using assms(4) by simp
    qed
    show ?thesis
      unfolding fetch_metadata_def
      by (subst act_bind_Ok, rule s1, subst act_seq_Ok, rule s2, subst act_bind_Ok, rule s3)
        (use assms(2) metadata_pieces_bound(1) [OF assms(1,2)] in \<open>simp add: act_bind_def act_lift_def\<close>)
  qed
  then show ?thesis by (rule that)
qed

text \<open>C17.
  The metadata of a peer that serves it. Whatever ignorable messages the peer sends first, when its extension
  handshake offers metadata of the length of \<open>xs\<close> under its number \<open>ext\<close> and it answers each request with that
  piece of \<open>xs\<close> under the number \<open>reply\<close>: if this is the same number, the conversation ends with exactly \<open>xs\<close>, every piece
  was asked for once and in order, and nothing more of the connection was read. If it is another, the
  first answer is refused and the download fails. BEP 10 has the peer answer under the number of the
  receiver, here \<open>UT_METADATA_ID\<close>, so a conforming peer is served from exactly when its own number
  happens to be that one too.\<close>

theorem metadata_download:
  assumes "0 < length xs" "length xs < 2 ^ 32" "list_all skipped ms"
    and "read_offer hs = Ok (Some ext, Some (of_nat (length xs)))"
  shows "\<exists>c' r offer. fetch_metadata \<lparr>fc_sent = [], fc_send = [],
        fc_recv = map Ok ms @ [Ok (Extended 0 hs)] @ map (metadata_reply reply xs) [0..<metadata_pieces (of_nat (length xs))] @ rest\<rparr> = (c', r) \<and>
      (if reply = ext
       then r = Ok xs \<and> fc_recv c' = rest \<and>
         fc_sent c' = Extended 0 offer # map (\<lambda>k. Extended ext (encode (metadata_request_to_bencode \<lparr>mr_piece = of_nat k\<rparr>)))
           [0..<metadata_pieces (of_nat (length xs))]
       else r = Err PeerInvalidExtendedMessage \<and>
         fc_sent c' = [Extended 0 offer, Extended ext (encode (metadata_request_to_bencode \<lparr>mr_piece = 0\<rparr>))])"
proof -
  let ?n = "metadata_pieces (of_nat (length xs))"
  note b = metadata_pieces_bound [OF assms(1,2)]
  obtain offer where start: "\<And>rs. fetch_metadata \<lparr>fc_sent = [], fc_send = [], fc_recv = map Ok ms @ [Ok (Extended 0 hs)] @ rs\<rparr> =
      fetch_pieces ext [0..<?n] (replicate (length xs) 0) \<lparr>fc_sent = [Extended 0 offer], fc_send = [], fc_recv = rs\<rparr>"
    using fetch_metadata_starts [OF assms] by blast
  let ?c = "\<lparr>fc_sent = [Extended 0 offer], fc_send = [], fc_recv = map (metadata_reply reply xs) [0..<?n] @ rest\<rparr>"
  show ?thesis
  proof (cases "reply = ext")
    case True
    obtain buf' c' where f: "fetch_pieces ext [0..<?n] (replicate (length xs) 0) ?c = (c', Ok buf')" "length buf' = length xs"
      "take (?n * METADATA_PIECE_SIZE) buf' = take (?n * METADATA_PIECE_SIZE) xs"
      "fc_sent c' = fc_sent ?c @ map (\<lambda>k. Extended ext (encode (metadata_request_to_bencode \<lparr>mr_piece = of_nat k\<rparr>))) [0..<?n]"
      "fc_recv c' = rest"
      using fetch_pieces_serve [of ?n xs "replicate (length xs) 0" 0 ?c ext rest] b True by auto
    have "buf' = xs" using f(2,3) b(4) by simp
    then show ?thesis unfolding start using f True by auto
  next
    case False
    have "0 < ?n" using b(4) assms(1) by (cases "?n") simp_all
    then have n: "[0..<?n] = 0 # [Suc 0..<?n]" by (simp add: upt_conv_Cons)
    show ?thesis
      unfolding start n using False
      by (auto simp: metadata_reply_def act_seq_def act_bind_def act_lift_def fetch_send_def fetch_recv_def)
  qed
qed


definition sample_offer_dict :: bencode where
  "sample_offer_dict =
     Dict [(ascii ''m'', Dict [(ascii ''ut_metadata'', Integer 3)]), (ascii ''metadata_size'', Integer 3)]"

lemma sample_offer: "read_offer (encode sample_offer_dict) = Ok (Some 3, Some 3)"
proof -
  have c: "canonical sample_offer_dict"
    by (simp add: sample_offer_dict_def ascii_def word_less_nat_alt word_le_nat_alt)
  have k: "length (encode_bytes (ascii ''m'')) = 3" "length (encode_bytes (ascii ''ut_metadata'')) = 14"
    "length (encode_bytes (ascii ''metadata_size'')) = 16" by code_simp+
  have "sort_key fst [(ascii ''m'', v), (ascii ''metadata_size'', w)] = [(ascii ''m'', v), (ascii ''metadata_size'', w)]" for v w :: bencode
    using c by (intro sort_key_id_if_sorted) (simp add: sample_offer_dict_def)
  then have l: "length (encode sample_offer_dict) < 2 ^ 64"
    using k length_encode_integer [of 3] by (simp add: sample_offer_dict_def)
  have "decode (encode sample_offer_dict) = Ok (sample_offer_dict, [])"
    using decode_encode_normal [of sample_offer_dict "[]"] c l by (simp add: canonical_uniq_keys normal_canonical)
  moreover have "u8_try_from 3 = Some 3" by (simp add: u8_try_from_def)
  moreover have "utf8_valid (ascii ''ut_metadata'')" by (simp add: ascii_def)
  ultimately show ?thesis
    by (simp add: read_offer_def extension_from_bencode_def sample_offer_dict_def dict_get_def dict_get_int_def)
      (simp add: ascii_def from_utf8_def metadata_offer_def UT_METADATA_EXT_def)
qed

theorem metadata_download_witness:
  "\<exists>c'. fetch_metadata \<lparr>fc_sent = [], fc_send = [],
      fc_recv = [Ok (Bitfield [255]), Ok Unchoke, Ok (Extended 0 (encode sample_offer_dict)),
        metadata_reply 3 [1, 2, 3] 0, Ok KeepAlive]\<rparr> = (c', Ok [1, 2, 3]) \<and> fc_recv c' = [Ok KeepAlive] \<and>
     snd (fetch_metadata \<lparr>fc_sent = [], fc_send = [],
       fc_recv = [Ok (Extended 0 (encode sample_offer_dict)), metadata_reply UT_METADATA_ID [1, 2, 3] 0]\<rparr>) = Err PeerInvalidExtendedMessage"
proof -
  have "list_all skipped [Bitfield [255], Unchoke]" by (simp add: skipped_def)
  moreover have "metadata_pieces 3 = 1" by (simp add: metadata_pieces_def METADATA_PIECE_SIZE_def)
  ultimately show ?thesis
    using metadata_download [of "[1, 2, 3]" "[Bitfield [255], Unchoke]" "encode sample_offer_dict" 3 3 "[Ok KeepAlive]"]
      metadata_download [of "[1, 2, 3]" "[]" "encode sample_offer_dict" 3 UT_METADATA_ID "[]"]
      sample_offer by (auto simp: metadata_reply_def UT_METADATA_ID_def)
qed

subsection \<open>Where it fails\<close>

text \<open>
  BEP 10 has a peer number its messages with the receiver's number, here \<open>UT_METADATA_ID\<close>; the code
  expects its own use of the sender's number.
\<close>

lemma conforming_reply_rejected:
  assumes "fc_send c = []" "fc_recv c = Ok (Extended UT_METADATA_ID data) # rs" "ext \<noteq> UT_METADATA_ID"
  shows "snd (fetch_pieces ext (k # ks) buf c) = Err PeerInvalidExtendedMessage"
  using assms by (simp add: act_seq_def act_bind_def fetch_send_def fetch_recv_def act_lift_def)

text \<open>A piece number past the announced size makes the task panic.\<close>

lemma piece_number_panic:
  assumes "length buf < unat (md_piece m) * METADATA_PIECE_SIZE"
  shows "store_piece buf (encode (metadata_to_bencode m) @ md_data m) = Panic"
  using assms by (simp add: store_piece_reply copy_piece_def Let_def)

text \<open>
  What a peer serves is the info dictionary; \<open>resolve_metadata\<close> parses it as a whole \<open>.torrent\<close> file and
  finds no \<open>info\<close> entry.
\<close>

lemma info_dict_is_no_metainfo:
  assumes "decode data = Ok (Dict entries, r)" "dict_get (Dict entries) (ascii ''info'') = None"
  shows "metainfo_from_bytes data = Err MetainfoMissingField"
  using assms by (simp add: metainfo_from_bytes_def)

lemma info_dict_refused: "metainfo_from_bytes (encode (info_dict i)) = Err MetainfoMissingField"
  if "info_wf i" "length (encode (info_dict i)) < 2 ^ 64"
proof -
  have u: "uniq_keys (info_dict i)" using that(1) by (simp add: uniq_info_dict)
  obtain entries where e: "normal (info_dict i) = Dict entries"
    by (cases "mode i") (simp_all add: info_dict_def build_info_dict_def)
  have "dict_get (info_dict i) (ascii ''info'') = None"
    by (cases "mode i") (simp_all add: info_dict_def build_info_dict_def dict_get_def ascii_def)
  then have "dict_get (Dict entries) (ascii ''info'') = None"
    using dict_get_normal [OF u, of "ascii ''info''"] e by simp
  moreover have "decode (encode (info_dict i)) = Ok (Dict entries, [])"
    using decode_encode_normal [OF u that(2), of "[]"] e by simp
  ultimately show ?thesis by (rule info_dict_is_no_metainfo [rotated])
qed

lemma first_metadata_Ok: "first_metadata rs = Ok data \<Longrightarrow> Ok data \<in> set rs"
  by (induction rs) (auto split: result.splits)

end
