(* ===== verification/Session.thy ===== *)
theory Session
  imports Engine_Results Seed Metadata_Fetch
begin

section \<open>Sessions\<close>

text \<open>
  \<open>session/mod.rs\<close>, the builder of \<open>session/download/mod.rs\<close>, the handle of \<open>session/swarm/mod.rs\<close> and the
  acceptance of connections in \<open>session/inbound.rs\<close>: the map of torrents of a session and the operations
  that register, start, control, inspect and remove them. The map is an association list by info hash. A
  started torrent has a task, the engine of theory Swarm_Engine with its channel of commands, which waits
  when it is full; a task step is one turn of it, and it works on the shared parts of the handle. Handles that
  left the map are kept, with their loops, in \<open>se_removed\<close>. Storage factories, the download of metadata and random
  peer ids are arguments. The lock of the status is taken to be free when a torrent is activated.
\<close>

subsection \<open>Socket addresses\<close>

text \<open>\<open>SocketAddr::from_str\<close>; a scope number is read and dropped.\<close>

definition read_port :: "bytes \<Rightarrow> (nat \<times> bytes) option" where
  "read_port bs = (case bs of c # r \<Rightarrow> (if c = 58 then read_number 10 (length r) True (2 ^ 16) r else None) | [] \<Rightarrow> None)"

definition read_scope :: "bytes \<Rightarrow> bytes" where
  "read_scope bs =
     (case bs of
        c # r \<Rightarrow> (if c = 37 then (case read_number 10 (length r) True (2 ^ 32) r of Some (_, r') \<Rightarrow> r' | None \<Rightarrow> bs) else bs)
      | [] \<Rightarrow> [])"

definition read_socket_v4 :: "bytes \<Rightarrow> (SocketAddr \<times> bytes) option" where
  "read_socket_v4 bs =
     Option.bind (read_ipv4 bs) (\<lambda>(ip, r). Option.bind (read_port r) (\<lambda>(p, r). Some (SocketAddr (V4 ip) (of_nat p), r)))"

definition read_socket_v6 :: "bytes \<Rightarrow> (SocketAddr \<times> bytes) option" where
  "read_socket_v6 bs =
     (case bs of
        c # r \<Rightarrow>
          if c = 91 then
            Option.bind (read_ipv6 r) (\<lambda>(ip, r).
              case read_scope r of
                d # r \<Rightarrow> if d = 93 then Option.bind (read_port r) (\<lambda>(p, r). Some (SocketAddr (V6 ip) (of_nat p), r)) else None
              | [] \<Rightarrow> None)
          else None
      | [] \<Rightarrow> None)"

definition parse_socket_addr :: "rstring \<Rightarrow> SocketAddr option" where
  "parse_socket_addr s =
     parse_whole (\<lambda>bs. case read_socket_v4 bs of Some r \<Rightarrow> Some r | None \<Rightarrow> read_socket_v6 bs) s"

subsection \<open>Torrent handles\<close>

text \<open>
  The loop of a started torrent: the commands in its channel, whether it has begun, whether it has ended,
  and its own state. The piece manager, the peer manager, the statuses and the event channel are shared
  with the handle; the handle's copy is the one in force (\<open>loop_engine\<close> below).
\<close>

record ('c, 'st) SwarmTask =
  sk_commands :: "'c TorrentCommand list"
  sk_started :: bool
  sk_stopped :: bool
  sk_engine :: "('c, 'st) engine"

record ('c, 'st) TorrentHandle =
  th_info_hash :: bytes
  th_metainfo :: "Metainfo option"
  th_peer_mgr :: "'c PeerManager"
  th_piece_mgr :: PieceManager
  th_status :: TorrentStatus
  th_events :: "TorrentEvent list"
  th_peer_statuses :: "PeerStatus list"
  th_tracker_status :: TrackerStatus
  th_web_seeds :: "rstring list"
  th_storage :: "'st option"
  th_task :: "('c, 'st) SwarmTask option"

definition handle_new ::
  "SessionConfig \<Rightarrow> bytes \<Rightarrow> TorrentSpec \<Rightarrow> Metainfo option \<Rightarrow> bytes \<Rightarrow> rstring \<Rightarrow> nat \<Rightarrow> u64 \<Rightarrow> ('c, 'st) TorrentHandle" where
  "handle_new cf peer_id spec m ih name n tsize =
     \<lparr>th_info_hash = ih, th_metainfo = m,
      th_peer_mgr = peer_manager_new ih peer_id (cf_max_connections cf) (cf_peer_connect_timeout cf) (cf_peer_max_retries cf) (cf_peer_cooldown cf),
      th_piece_mgr = piece_manager_new n, th_status = register_status ih name n tsize, th_events = [], th_peer_statuses = [],
      th_tracker_status = \<lparr>tk_url = (case m of Some m \<Rightarrow> announce m | None \<Rightarrow> []), tk_next_announce_in = None,
        tk_announce_interval = 0, tk_seeds_reported = 0, tk_leechers_reported = 0, tk_last_error = None\<rparr>,
      th_web_seeds = spec_web_seeds spec, th_storage = None, th_task = None\<rparr>"

definition handle_register ::
  "(bytes \<Rightarrow> bytes) \<Rightarrow> SessionConfig \<Rightarrow> bytes \<Rightarrow> TorrentSpec \<Rightarrow> ('c, 'st) TorrentHandle result" where
  "handle_register sha1 cf peer_id spec =
     and_then (spec_info_hash sha1 spec) (\<lambda>ih.
       case spec of
         SpecMetainfo m \<Rightarrow>
           and_then (total_size (info m)) (\<lambda>tsize.
             Ok (handle_new cf peer_id spec (Some m) ih (mode_name (mode (info m))) (info_num_pieces (info m)) tsize))
       | SpecMagnet u \<Rightarrow>
           Ok (handle_new cf peer_id spec None ih (case display_name u of Some n \<Rightarrow> n | None \<Rightarrow> hex_encode ih) 0 0))"

text \<open>\<open>spawn_swarm_loop\<close>, with a random peer id and the time; the URL of the tracker is judged elsewhere.\<close>

record spawn_env =
  sp_peer_id :: bytes
  sp_now :: nat
  sp_has_tracker :: bool

definition spawn_swarm_loop ::
  "SessionConfig \<Rightarrow> spawn_env \<Rightarrow> Metainfo \<Rightarrow> 'st \<Rightarrow> bool \<Rightarrow> ('c, 'st) TorrentHandle \<Rightarrow> ('c, 'st) TorrentHandle" where
  "spawn_swarm_loop cf sp m storage super_seed h =
     h\<lparr>th_storage := Some storage,
       th_task := Some \<lparr>sk_commands = [], sk_started = False, sk_stopped = False,
         sk_engine = engine_new cf m (th_info_hash h) (sp_peer_id sp) storage (th_piece_mgr h) (th_peer_mgr h) super_seed
           (sp_has_tracker sp) (th_status h) (sp_now sp)\<rparr>\<rparr>"

text \<open>\<open>activate\<close>: the status learns the size, the piece manager stays what it is.\<close>

definition handle_activate :: "SessionConfig \<Rightarrow> spawn_env \<Rightarrow> 'st \<Rightarrow> ('c, 'st) TorrentHandle \<Rightarrow> ('c, 'st) TorrentHandle result" where
  "handle_activate cf sp storage h =
     (case th_metainfo h of
        None \<Rightarrow> Panic
      | Some m \<Rightarrow>
          and_then (total_size (info m)) (\<lambda>tsize.
            Ok (spawn_swarm_loop cf sp m storage False
              (h\<lparr>th_status := (th_status h)\<lparr>ts_total_size := tsize, ts_num_pieces := of_nat (info_num_pieces (info m))\<rparr>\<rparr>))))"

definition handle_activate_seed ::
  "(bytes \<Rightarrow> bytes) \<Rightarrow> SessionConfig \<Rightarrow> spawn_env \<Rightarrow> Metainfo \<Rightarrow> 'st \<Rightarrow> PieceManager \<Rightarrow> bool \<Rightarrow> ('c, 'st) TorrentHandle
   \<Rightarrow> ('c, 'st) TorrentHandle result" where
  "handle_activate_seed sha1 cf sp m storage pm super_seed h =
     (if info_hash sha1 m \<noteq> th_info_hash h then Panic
      else and_then (total_size (info m)) (\<lambda>tsize.
        Ok (spawn_swarm_loop cf sp m storage super_seed
          (h\<lparr>th_metainfo := Some m, th_piece_mgr := pm,
             th_status := seed_status pm (info_num_pieces (info m)) tsize (th_status h)\<rparr>))))"

text \<open>The state of the loop: its own, with what it shares with the handle; and the handle after a turn.\<close>

definition loop_engine :: "('c, 'st) TorrentHandle \<Rightarrow> ('c, 'st) SwarmTask \<Rightarrow> ('c, 'st) engine" where
  "loop_engine h t =
     (sk_engine t)\<lparr>en_swarm := (en_swarm (sk_engine t))
         \<lparr>sw_piece_mgr := th_piece_mgr h, sw_peer_mgr := th_peer_mgr h, sw_events := th_events h\<rparr>,
       en_status := th_status h, en_peer_statuses := th_peer_statuses h, en_tracker_status := th_tracker_status h\<rparr>"

definition loop_after :: "('c, 'st) TorrentHandle \<Rightarrow> ('c, 'st) SwarmTask \<Rightarrow> ('c, 'st) engine \<Rightarrow> ('c, 'st) TorrentHandle" where
  "loop_after h t en =
     h\<lparr>th_piece_mgr := sw_piece_mgr (en_swarm en), th_peer_mgr := sw_peer_mgr (en_swarm en), th_events := sw_events (en_swarm en),
       th_status := en_status en, th_peer_statuses := en_peer_statuses en, th_tracker_status := en_tracker_status en,
       th_task := Some (t\<lparr>sk_engine := en\<rparr>)\<rparr>"

text \<open>
  What the task of a torrent does next: it begins, takes the next command, or a turn for anything else.
  An error never leaves a turn; a panic ends the task, as the end of the loop does.
\<close>

datatype 'c task_event = LoopBegins | NextCommand nat tracker_answer | OtherTurn "'c engine_event"

definition is_command :: "'c engine_event \<Rightarrow> bool" where
  "is_command ev = (case ev of OnCommand _ _ _ \<Rightarrow> True | _ \<Rightarrow> False)"

definition run_turn ::
  "('c, 'st) env \<Rightarrow> 'c engine_event \<Rightarrow> ('c, 'st) TorrentHandle \<Rightarrow> ('c, 'st) SwarmTask \<Rightarrow> ('c, 'st) TorrentHandle" where
  "run_turn E ev h t =
     (let (en, r) = engine_turn E ev (loop_engine h t)
      in loop_after h (t\<lparr>sk_stopped := (r \<noteq> Ok True)\<rparr>) en)"

definition task_step :: "('c, 'st) env \<Rightarrow> 'c task_event \<Rightarrow> ('c, 'st) TorrentHandle \<Rightarrow> ('c, 'st) TorrentHandle" where
  "task_step E ev h =
     (case th_task h of
        None \<Rightarrow> h
      | Some t \<Rightarrow>
          if sk_stopped t then h
          else (case ev of
            LoopBegins \<Rightarrow> if sk_started t then h else loop_after h (t\<lparr>sk_started := True\<rparr>) (engine_start (loop_engine h t))
          | NextCommand now answer \<Rightarrow>
              (case sk_commands t of
                 c # cs \<Rightarrow> if sk_started t then run_turn E (OnCommand now answer (Some c)) h (t\<lparr>sk_commands := cs\<rparr>) else h
               | [] \<Rightarrow> h)
          | OtherTurn e \<Rightarrow> if sk_started t \<and> \<not> is_command e then run_turn E e h t else h))"

subsection \<open>The session\<close>

text \<open>
  The last field has the handles that have left the map, because their torrent was removed or registered
  again. Their loops go on until they take a cancel or see that their channel is closed.
\<close>

record ('c, 'st) Session =
  se_config :: SessionConfig
  se_torrents :: "(bytes \<times> ('c, 'st) TorrentHandle) list"
  se_removed :: "(bytes \<times> ('c, 'st) TorrentHandle) list"

definition session_new :: "SessionConfig \<Rightarrow> ('c, 'st) Session" where
  "session_new cf = \<lparr>se_config = cf, se_torrents = [], se_removed = []\<rparr>"

definition get_torrent :: "bytes \<Rightarrow> ('c, 'st) Session \<Rightarrow> ('c, 'st) TorrentHandle result" where
  "get_torrent ih s = ok_or InvalidInput (map_of (se_torrents s) ih)"

definition put_torrent :: "bytes \<Rightarrow> ('c, 'st) TorrentHandle \<Rightarrow> ('c, 'st) Session \<Rightarrow> ('c, 'st) Session" where
  "put_torrent ih h s = s\<lparr>se_torrents := AList.update ih h (se_torrents s)\<rparr>"

definition with_torrent :: "bytes \<Rightarrow> (('c, 'st) TorrentHandle \<Rightarrow> (('c, 'st) Session, 'a) act) \<Rightarrow> (('c, 'st) Session, 'a) act" where
  "with_torrent ih f = act_read (\<lambda>s. act_bind (act_lift (get_torrent ih s)) f)"

text \<open>A change of a handle that is there; nothing otherwise.\<close>

definition change_torrent ::
  "bytes \<Rightarrow> (('c, 'st) TorrentHandle \<Rightarrow> ('c, 'st) TorrentHandle result) \<Rightarrow> (('c, 'st) Session, unit) act" where
  "change_torrent ih f = with_torrent ih (\<lambda>h. act_bind (act_lift (f h)) (\<lambda>h'. act_update (put_torrent ih h')))"

definition set_aside :: "bytes \<Rightarrow> ('c, 'st) Session \<Rightarrow> ('c, 'st) Session" where
  "set_aside ih s =
     (case map_of (se_torrents s) ih of
        None \<Rightarrow> s
      | Some h \<Rightarrow> s\<lparr>se_removed := se_removed s @ [(ih, h)]\<rparr>)"

definition register_spec :: "(bytes \<Rightarrow> bytes) \<Rightarrow> bytes \<Rightarrow> TorrentSpec \<Rightarrow> (('c, 'st) Session, bytes) act" where
  "register_spec sha1 peer_id spec = act_read (\<lambda>s.
     act_bind (act_lift (handle_register sha1 (se_config s) peer_id spec)) (\<lambda>h.
       act_seq (act_update (\<lambda>s. put_torrent (th_info_hash h) h (set_aside (th_info_hash h) s))) (act_return (th_info_hash h))))"

record 'st DownloadBuilder =
  db_info_hash :: bytes
  db_storage_factory :: "(Info \<Rightarrow> 'st result) option"
  db_metadata_resolved :: bool
  db_magnet_peers :: "SocketAddr list"

definition add_torrent :: "(bytes \<Rightarrow> bytes) \<Rightarrow> bytes \<Rightarrow> TorrentSpec \<Rightarrow> (('c, 'st) Session, 'st DownloadBuilder) act" where
  "add_torrent sha1 peer_id spec =
     act_bind (register_spec sha1 peer_id spec) (\<lambda>ih.
       act_return \<lparr>db_info_hash = ih, db_storage_factory = None,
         db_metadata_resolved = (case spec of SpecMetainfo _ \<Rightarrow> True | SpecMagnet _ \<Rightarrow> False),
         db_magnet_peers = (case spec of SpecMetainfo _ \<Rightarrow> [] | SpecMagnet u \<Rightarrow> List.map_filter parse_socket_addr (mag_peers u))\<rparr>)"

definition add_torrent_bytes :: "(bytes \<Rightarrow> bytes) \<Rightarrow> bytes \<Rightarrow> bytes \<Rightarrow> (('c, 'st) Session, 'st DownloadBuilder) act" where
  "add_torrent_bytes sha1 peer_id data =
     act_bind (act_lift (metainfo_from_bytes data)) (\<lambda>m. add_torrent sha1 peer_id (SpecMetainfo m))"

definition add_magnet_str :: "(bytes \<Rightarrow> bytes) \<Rightarrow> bytes \<Rightarrow> rstring \<Rightarrow> (('c, 'st) Session, 'st DownloadBuilder) act" where
  "add_magnet_str sha1 peer_id uri =
     act_bind (act_lift (magnet_from_str uri)) (\<lambda>u. add_torrent sha1 peer_id (SpecMagnet u))"

definition db_storage :: "(Info \<Rightarrow> 'st result) \<Rightarrow> 'st DownloadBuilder \<Rightarrow> 'st DownloadBuilder" where
  "db_storage factory db = db\<lparr>db_storage_factory := Some factory\<rparr>"

text \<open>
  \<open>resolve_metadata\<close> takes the addresses of the magnet link out of the builder before it asks them.
\<close>

definition resolve_metadata ::
  "(SocketAddr list \<Rightarrow> bytes result) \<Rightarrow> 'st DownloadBuilder \<Rightarrow> (('c, 'st) Session, 'st DownloadBuilder) act" where
  "resolve_metadata fetch db =
     (if db_metadata_resolved db then act_return db
      else with_torrent (db_info_hash db) (\<lambda>h.
        if th_metainfo h \<noteq> None then act_return (db\<lparr>db_metadata_resolved := True\<rparr>)
        else let db' = db\<lparr>db_magnet_peers := [], db_metadata_resolved := True\<rparr> in
          if db_magnet_peers db = [] then act_return db'
          else act_bind (act_lift (fetch (db_magnet_peers db))) (\<lambda>data.
               act_bind (act_lift (metainfo_from_bytes data)) (\<lambda>m.
               act_seq (change_torrent (db_info_hash db) (\<lambda>h. Ok (h\<lparr>th_metainfo := Some m\<rparr>)))
                 (act_return db')))))"

definition active_count :: "('c, 'st) Session \<Rightarrow> nat" where
  "active_count s = length (filter (\<lambda>(_, h). th_task h \<noteq> None) (se_torrents s))"

definition inject_peers :: "'st DownloadBuilder \<Rightarrow> (('c, 'st) Session, unit) act" where
  "inject_peers db =
     (if db_magnet_peers db = [] then act_return ()
      else act_update (\<lambda>s. case map_of (se_torrents s) (db_info_hash db) of
        None \<Rightarrow> s
      | Some h \<Rightarrow> put_torrent (db_info_hash db) (h\<lparr>th_peer_mgr := add_peers (db_magnet_peers db) (th_peer_mgr h)\<rparr>) s))"

definition check_capacity :: "(('c, 'st) Session, unit) act" where
  "check_capacity = act_read (\<lambda>s.
     let limit = cf_max_active_torrents (se_config s) in
     if limit > 0 \<and> limit \<le> active_count s then act_lift (Err InvalidInput) else act_return ())"

text \<open>Starting gives the handle a new task; one it had before loses its channel and is not followed further.\<close>

definition start_loop ::
  "bytes \<Rightarrow> (('c, 'st) TorrentHandle \<Rightarrow> ('c, 'st) TorrentHandle result) \<Rightarrow> (('c, 'st) Session, unit) act" where
  "start_loop ih f = with_torrent ih (\<lambda>h. act_bind (act_lift (f h)) (\<lambda>h'. act_update (put_torrent ih h')))"

text \<open>
  \<open>start\<close> releases the map while the factory creates and prepares the storage, so it is two steps of the
  session: the first gives the info to make a storage for, if the torrent is to be started; the second
  activates whatever torrent is there then. The storage of the factory is already prepared.
\<close>

definition start_begin :: "'st DownloadBuilder \<Rightarrow> (('c, 'st) Session, Info option) act" where
  "start_begin db =
     act_seq (inject_peers db)
    (act_seq check_capacity
      (case db_storage_factory db of
         None \<Rightarrow> act_return None
       | Some _ \<Rightarrow> with_torrent (db_info_hash db) (\<lambda>h. act_return (map_option info (th_metainfo h)))))"

definition start_finish :: "spawn_env \<Rightarrow> bytes \<Rightarrow> 'st \<Rightarrow> (('c, 'st) Session, unit) act" where
  "start_finish sp ih storage = act_read (\<lambda>s. start_loop ih (handle_activate (se_config s) sp storage))"

text \<open>The whole of \<open>start\<close> when nothing comes between its steps.\<close>

definition start_resolved :: "spawn_env \<Rightarrow> 'st DownloadBuilder \<Rightarrow> (('c, 'st) Session, bytes) act" where
  "start_resolved sp db =
     act_bind (start_begin db) (\<lambda>started.
       case (started, db_storage_factory db) of
         (Some i, Some factory) \<Rightarrow>
           act_bind (act_lift (factory i)) (\<lambda>storage.
             act_seq (start_finish sp (db_info_hash db) storage) (act_return (db_info_hash db)))
       | _ \<Rightarrow> act_return (db_info_hash db))"

definition start_download ::
  "spawn_env \<Rightarrow> (SocketAddr list \<Rightarrow> bytes result) \<Rightarrow> 'st DownloadBuilder \<Rightarrow> (('c, 'st) Session, bytes) act" where
  "start_download sp fetch db = act_bind (resolve_metadata fetch db) (start_resolved sp)"

text \<open>\<open>start_seeding\<close>; \<open>wrap\<close> makes a storage of the read-only storage over the source.\<close>

definition start_seeding ::
  "(bytes \<Rightarrow> bytes) \<Rightarrow> bytes \<Rightarrow> spawn_env \<Rightarrow> (DataSourceStorage \<Rightarrow> 'st) \<Rightarrow> PreparedTorrent \<Rightarrow> (('c, 'st) Session, bytes) act" where
  "start_seeding sha1 peer_id sp wrap prepared =
     (let m = pt_metainfo prepared; i = info m in
      act_bind (act_lift (dss_new (pt_source prepared) i)) (\<lambda>d.
      act_bind (act_lift (verify_existing sha1 (dss_read_piece d) i (piece_manager_new (info_num_pieces i)))) (\<lambda>(pm, _).
      act_bind (register_spec sha1 peer_id (SpecMetainfo m)) (\<lambda>ih.
      act_seq (act_read (\<lambda>s. start_loop ih (handle_activate_seed sha1 (se_config s) sp m (wrap d) pm (pt_super_seed prepared))))
        (act_return ih)))))"

subsection \<open>Control\<close>

text \<open>\<open>mpsc::Sender::send\<close>: an error when the loop has ended.\<close>

definition send_command :: "'c TorrentCommand \<Rightarrow> ('c, 'st) TorrentHandle \<Rightarrow> ('c, 'st) TorrentHandle result" where
  "send_command cmd h =
     (case th_task h of
        None \<Rightarrow> Ok h
      | Some t \<Rightarrow>
          if sk_stopped t then Err Protocol
          else Ok (h\<lparr>th_task := Some (t\<lparr>sk_commands := sk_commands t @ [cmd]\<rparr>)\<rparr>))"

definition pause_torrent :: "bytes \<Rightarrow> (('c, 'st) Session, unit) act" where
  "pause_torrent ih = change_torrent ih (send_command Pause)"

definition resume_torrent :: "bytes \<Rightarrow> (('c, 'st) Session, unit) act" where
  "resume_torrent ih = change_torrent ih (send_command Resume)"

text \<open>
  \<open>remove_torrent\<close>: the handle leaves the map and a cancel command goes to its loop, if that still listens.
  The call then waits for the end of the loop: it returns when \<open>loop_ended\<close> holds for the handle whose
  place is the result.
\<close>

definition remove_torrent :: "bytes \<Rightarrow> (('c, 'st) Session, nat) act" where
  "remove_torrent ih = with_torrent ih (\<lambda>h. act_read (\<lambda>s.
     let h' = (case send_command CancelTorrent h of Ok h' \<Rightarrow> h' | _ \<Rightarrow> h); s' = set_aside ih (put_torrent ih h' s)
     in act_seq (act_update (\<lambda>_. s'\<lparr>se_torrents := AList.delete ih (se_torrents s')\<rparr>)) (act_return (length (se_removed s)))))"

definition loop_ended :: "nat \<Rightarrow> ('c, 'st) Session \<Rightarrow> bool" where
  "loop_ended n s = (case th_task (snd (se_removed s ! n)) of None \<Rightarrow> True | Some t \<Rightarrow> sk_stopped t)"

definition clear_error :: "bytes \<Rightarrow> (('c, 'st) Session, unit) act" where
  "clear_error ih = change_torrent ih (\<lambda>h.
     Ok (if ts_state (th_status h) = Error
         then h\<lparr>th_status := (th_status h)\<lparr>ts_error_message := None, ts_state := Downloading\<rparr>,
                th_events := th_events h @ [StateChanged Error Downloading]\<rparr>
         else h))"

subsection \<open>Queries\<close>

record SessionStatus =
  ss_download_rate :: rat
  ss_upload_rate :: rat
  ss_downloaded :: u64
  ss_uploaded :: u64
  ss_num_torrents :: nat
  ss_num_connections :: nat
  ss_dht_nodes :: nat

fun sum_status :: "TorrentStatus list \<Rightarrow> SessionStatus \<Rightarrow> SessionStatus result" where
  "sum_status [] acc = Ok acc"
| "sum_status (t # ts) acc =
     and_then (add_u64 (ss_downloaded acc) (ts_total_downloaded t)) (\<lambda>d.
     and_then (add_u64 (ss_uploaded acc) (ts_total_uploaded t)) (\<lambda>u.
       sum_status ts (acc\<lparr>ss_download_rate := f64 (ss_download_rate acc + ts_download_rate t),
         ss_upload_rate := f64 (ss_upload_rate acc + ts_upload_rate t), ss_downloaded := d, ss_uploaded := u,
         ss_num_connections := ss_num_connections acc + ts_num_peers t\<rparr>)))"

definition session_status :: "nat \<Rightarrow> ('c, 'st) Session \<Rightarrow> SessionStatus result" where
  "session_status dht_nodes s =
     (let statuses = map (th_status \<circ> snd) (se_torrents s) in
      sum_status statuses \<lparr>ss_download_rate = 0, ss_upload_rate = 0, ss_downloaded = 0, ss_uploaded = 0,
        ss_num_torrents = length statuses, ss_num_connections = 0, ss_dht_nodes = dht_nodes\<rparr>)"

definition torrent_status :: "bytes \<Rightarrow> ('c, 'st) Session \<Rightarrow> TorrentStatus result" where
  "torrent_status ih s = and_then (get_torrent ih s) (\<lambda>h. Ok (th_status h))"

definition torrent_file_status :: "bytes \<Rightarrow> ('c, 'st) Session \<Rightarrow> FileStatus list result" where
  "torrent_file_status ih s =
     and_then (get_torrent ih s) (\<lambda>h.
     and_then (ok_or InvalidInput (th_metainfo h)) (\<lambda>m. file_status (info m) (bitfield (th_piece_mgr h))))"

definition torrent_peer_status :: "bytes \<Rightarrow> ('c, 'st) Session \<Rightarrow> PeerStatus list result" where
  "torrent_peer_status ih s = and_then (get_torrent ih s) (\<lambda>h. Ok (th_peer_statuses h))"

definition torrent_tracker_status :: "bytes \<Rightarrow> ('c, 'st) Session \<Rightarrow> TrackerStatus result" where
  "torrent_tracker_status ih s = and_then (get_torrent ih s) (\<lambda>h. Ok (th_tracker_status h))"

definition active_torrents :: "('c, 'st) Session \<Rightarrow> bytes list" where
  "active_torrents s = map fst (se_torrents s)"

definition torrent_metainfo :: "bytes \<Rightarrow> ('c, 'st) Session \<Rightarrow> Metainfo option" where
  "torrent_metainfo ih s = Option.bind (map_of (se_torrents s) ih) th_metainfo"

definition torrent_bytes :: "bytes \<Rightarrow> ('c, 'st) Session \<Rightarrow> bytes option" where
  "torrent_bytes ih s = Option.bind (torrent_metainfo ih s) metainfo_to_bytes"

definition magnet_uri :: "(bytes \<Rightarrow> bytes) \<Rightarrow> bytes \<Rightarrow> ('c, 'st) Session \<Rightarrow> rstring option" where
  "magnet_uri sha1 ih s = map_option (simple_magnet sha1) (torrent_metainfo ih s)"

subsection \<open>Peers from outside\<close>

text \<open>One round of the DHT poll, and a connection that arrives with its first 68 bytes, if they come in time.\<close>

definition dht_poll :: "(bytes \<Rightarrow> SocketAddr list) \<Rightarrow> ('c, 'st) Session \<Rightarrow> ('c, 'st) Session" where
  "dht_poll get_peers s =
     foldl (\<lambda>s ih. let peers = get_peers ih in
       if peers = [] then s
       else case map_of (se_torrents s) ih of
              None \<Rightarrow> s
            | Some h \<Rightarrow> put_torrent ih (h\<lparr>th_peer_mgr := add_peers peers (th_peer_mgr h)\<rparr>) s)
       s (map fst (se_torrents s))"

definition handle_inbound :: "bytes result \<Rightarrow> SocketAddr \<Rightarrow> (Handshake \<Rightarrow> 'c result) \<Rightarrow> ('c, 'st) Session \<Rightarrow> ('c, 'st) Session" where
  "handle_inbound first addr accept s =
     (case and_then first handshake_from_bytes of
        Ok hs \<Rightarrow>
          (case map_of (se_torrents s) (hs_info_hash hs) of
             Some h \<Rightarrow>
               if th_task h = None then s
               else (case accept hs of
                 Ok conn \<Rightarrow>
                   (case send_command (InboundPeer addr conn) h of
                      Ok h' \<Rightarrow> put_torrent (hs_info_hash hs) h' s
                    | _ \<Rightarrow> s)
               | _ \<Rightarrow> s)
           | None \<Rightarrow> s)
      | _ \<Rightarrow> s)"

subsection \<open>Turns of the loops\<close>

definition loop_step :: "('c, 'st) env \<Rightarrow> bytes \<Rightarrow> 'c task_event \<Rightarrow> ('c, 'st) Session \<Rightarrow> ('c, 'st) Session" where
  "loop_step E ih ev s =
     (case map_of (se_torrents s) ih of None \<Rightarrow> s | Some h \<Rightarrow> put_torrent ih (task_step E ev h) s)"

text \<open>The loop of a handle that left the map: after its last command it sees that the channel is closed.\<close>

definition orphan_step :: "('c, 'st) env \<Rightarrow> 'c task_event \<Rightarrow> ('c, 'st) TorrentHandle \<Rightarrow> ('c, 'st) TorrentHandle" where
  "orphan_step E ev h =
     (case (ev, th_task h) of
        (NextCommand now answer, Some t) \<Rightarrow>
          if sk_started t \<and> \<not> sk_stopped t \<and> sk_commands t = [] then run_turn E (OnCommand now answer None) h t
          else task_step E ev h
      | _ \<Rightarrow> task_step E ev h)"

definition removed_step :: "('c, 'st) env \<Rightarrow> nat \<Rightarrow> 'c task_event \<Rightarrow> ('c, 'st) Session \<Rightarrow> ('c, 'st) Session" where
  "removed_step E n ev s =
     (if n < length (se_removed s)
      then s\<lparr>se_removed := (se_removed s)[n := map_prod id (orphan_step E ev) (se_removed s ! n)]\<rparr>
      else s)"

end
