(* ===== verification/Session_Props.thy ===== *)
theory Session_Props
  imports Session
begin

section \<open>What a session keeps\<close>

text \<open>
  The invariant of the map of torrents under every operation and every turn of every loop, in whatever order they come,
  and what the operations do: starting, removing, control and seeding, and where they fall short.
\<close>

subsection \<open>The map of torrents\<close>

lemma torrents_put [simp]:
  "map_of (se_torrents (put_torrent ih h s)) k = (if k = ih then Some h else map_of (se_torrents s) k)"
  "se_config (put_torrent ih h s) = se_config s" "se_removed (put_torrent ih h s) = se_removed s"
  by (simp_all add: put_torrent_def update_conv')

lemma torrents_set_aside [simp]: "se_torrents (set_aside ih s) = se_torrents s" "se_config (set_aside ih s) = se_config s"
  by (simp_all add: set_aside_def split: option.split)

lemma with_torrent_simp:
  "with_torrent ih f s = (case map_of (se_torrents s) ih of None \<Rightarrow> (s, Err InvalidInput) | Some h \<Rightarrow> f h s)"
  by (cases "map_of (se_torrents s) ih") (simp_all add: with_torrent_def act_read_def get_torrent_def act_bind_def act_lift_def)

lemma change_torrent_simp:
  "change_torrent ih f s =
     (case map_of (se_torrents s) ih of
        None \<Rightarrow> (s, Err InvalidInput)
      | Some h \<Rightarrow> (case f h of Ok h' \<Rightarrow> (put_torrent ih h' s, Ok ()) | Err e \<Rightarrow> (s, Err e) | Panic \<Rightarrow> (s, Panic)))"
  by (simp add: change_torrent_def with_torrent_simp act_bind_def act_lift_def act_update_def split: option.split result.split)

lemma start_loop_simp:
  "start_loop ih f s =
     (case map_of (se_torrents s) ih of
        None \<Rightarrow> (s, Err InvalidInput)
      | Some h \<Rightarrow> (case f h of Ok h' \<Rightarrow> (put_torrent ih h' s, Ok ()) | Err e \<Rightarrow> (s, Err e) | Panic \<Rightarrow> (s, Panic)))"
  by (simp add: start_loop_def with_torrent_simp act_bind_def act_lift_def act_update_def split: option.split result.split)

subsection \<open>The invariant\<close>

text \<open>
  A loop in the map has no cancel command before it, since only the removal of its torrent sends one. The state
  of a loop that has stopped is well-formed too.
\<close>

definition handle_ok :: "bytes \<Rightarrow> ('c, 'st) TorrentHandle \<Rightarrow> bool" where
  "handle_ok ih h \<longleftrightarrow>
     th_info_hash h = ih \<and> pm_wf (th_piece_mgr h) \<and> pr_inv (th_peer_mgr h) \<and>
     (case th_metainfo h of None \<Rightarrow> th_task h = None
      | Some m \<Rightarrow> meta_ok m \<and> num_pieces (th_piece_mgr h) = info_num_pieces (info m) \<and>
          (case th_task h of None \<Rightarrow> True
           | Some t \<Rightarrow> engine_inv m (loop_engine h t) \<and> CancelTorrent \<notin> set (sk_commands t)))"

definition session_ok :: "('c, 'st) Session \<Rightarrow> bool" where
  "session_ok s \<longleftrightarrow>
     0 < cf_piece_cache_size (se_config s) \<and> distinct (map fst (se_torrents s)) \<and>
     (\<forall>ih h. map_of (se_torrents s) ih = Some h \<longrightarrow> handle_ok ih h)"

lemma session_ok_new: "0 < cf_piece_cache_size cf \<Longrightarrow> session_ok (session_new cf)"
  by (simp add: session_ok_def session_new_def)

lemma session_ok_handle: "session_ok s \<Longrightarrow> map_of (se_torrents s) ih = Some h \<Longrightarrow> handle_ok ih h"
  by (simp add: session_ok_def)

lemma session_ok_put: "session_ok s \<Longrightarrow> handle_ok ih h \<Longrightarrow> session_ok (put_torrent ih h s)"
  by (simp add: session_ok_def distinct_update put_torrent_def update_conv')

lemma session_ok_set_aside [simp]: "session_ok (set_aside ih s) = session_ok s"
  by (simp add: session_ok_def)

text \<open>Changes that keep a handle well-formed.\<close>

lemma handle_ok_register:
  assumes "handle_register sha1 cf peer_id spec = Ok h" and "\<And>m. spec = SpecMetainfo m \<Longrightarrow> meta_ok m"
  shows "handle_ok (th_info_hash h) h" "th_task h = None"
proof -
  have pm: "pm_wf (piece_manager_new n)" "num_pieces (piece_manager_new n) = n" for n
    by (simp_all add: piece_manager_new_def pm_wf_def)
  show "handle_ok (th_info_hash h) h" "th_task h = None"
    by (cases spec; use assms in \<open>auto simp: handle_register_def handle_new_def handle_ok_def pm\<close>)+
qed

lemma handle_ok_status [simp]:
  "handle_ok ih (h\<lparr>th_status := ts\<rparr>) \<longleftrightarrow> handle_ok ih h" for h :: "('c, 'st) TorrentHandle"
proof -
  have "engine_inv m (loop_engine (h\<lparr>th_status := ts\<rparr>) t) = engine_inv m (loop_engine h t)" for m and t :: "('c, 'st) SwarmTask"
    by (simp add: engine_inv_def loop_engine_def)
  then show ?thesis by (auto simp: handle_ok_def split: option.split)
qed

lemma handle_ok_spawn:
  fixes h :: "('c, 'st) TorrentHandle"
  assumes "th_info_hash h = ih" "pm_wf (th_piece_mgr h)" "pr_inv (th_peer_mgr h)" "th_metainfo h = Some m" "meta_ok m"
    and "num_pieces (th_piece_mgr h) = info_num_pieces (info m)" "0 < cf_piece_cache_size cf"
  shows "handle_ok ih (spawn_swarm_loop cf sp m storage super_seed h)"
proof -
  let ?h = "spawn_swarm_loop cf sp m storage super_seed h"
  have "engine_inv m (engine_new cf m i p storage (th_piece_mgr h) (th_peer_mgr h) super_seed b ts now)" for i p b ts now
    using assms by (intro engine_new_inv)
  then have "engine_inv m (loop_engine ?h (the (th_task ?h)))"
    by (simp add: engine_inv_def loop_engine_def spawn_swarm_loop_def inv_at_def swarm_inv_def engine_new_def swarm_new_def)
  then show ?thesis using assms by (auto simp: handle_ok_def spawn_swarm_loop_def)
qed

lemma handle_ok_activate:
  assumes "handle_ok ih h" "th_metainfo h \<noteq> None" "0 < cf_piece_cache_size cf"
  shows "\<exists>h'. handle_activate cf sp storage h = Ok h' \<and> handle_ok ih h'"
proof -
  obtain m where m: "th_metainfo h = Some m" "meta_ok m" "num_pieces (th_piece_mgr h) = info_num_pieces (info m)"
    using assms(1,2) by (auto simp: handle_ok_def split: option.splits)
  then obtain tot where tot: "total_size (info m) = Ok tot" by (auto simp: meta_ok_def)
  let ?h = "h\<lparr>th_status := (th_status h)\<lparr>ts_total_size := tot, ts_num_pieces := of_nat (info_num_pieces (info m))\<rparr>\<rparr>"
  have "handle_ok ih (spawn_swarm_loop cf sp m storage False ?h)"
    by (rule handle_ok_spawn) (use m assms in \<open>simp_all add: handle_ok_def\<close>)
  then show ?thesis using m(1) tot by (simp add: handle_activate_def)
qed

lemma verify_loop_wf:
  "verify_loop sha1 rp i ks buf pm v = Ok (pm', v') \<Longrightarrow> pm_wf pm \<Longrightarrow> pm_wf pm' \<and> num_pieces pm' = num_pieces pm"
proof (induction ks arbitrary: buf pm v)
  case (Cons k ks)
  obtain pm1 where pm1: "set_piece pm (of_nat k) = Ok pm1" "pm_wf pm1" "num_pieces pm1 = num_pieces pm"
    using set_piece_wf [OF Cons.prems(2)] by blast
  show ?case
    using Cons.prems Cons.IH [of _ pm1] Cons.IH [of _ pm] pm1 by (auto simp: Let_def split: if_splits)
qed simp

lemma verify_existing_wf:
  assumes "verify_existing sha1 rp i (piece_manager_new (info_num_pieces i)) = Ok (pm, v)"
  shows "pm_wf pm \<and> num_pieces pm = info_num_pieces i"
proof -
  have "pm_wf (piece_manager_new (info_num_pieces i))" "num_pieces (piece_manager_new (info_num_pieces i)) = info_num_pieces i"
    by (simp_all add: piece_manager_new_def pm_wf_def)
  with verify_loop_wf [OF assms [unfolded verify_existing_def]] show ?thesis by simp
qed

lemma handle_ok_activate_seed:
  assumes "handle_activate_seed sha1 cf sp m storage pm ss h = Ok h'" "handle_ok ih h" "0 < cf_piece_cache_size cf"
    and "meta_ok m" "pm_wf pm" "num_pieces pm = info_num_pieces (info m)"
  shows "handle_ok ih h'"
proof -
  obtain tot where h': "h' = spawn_swarm_loop cf sp m storage ss (h\<lparr>th_metainfo := Some m, th_piece_mgr := pm,
      th_status := seed_status pm (info_num_pieces (info m)) tot (th_status h)\<rparr>)"
    using assms(1) by (auto simp: handle_activate_seed_def split: if_splits)
  show ?thesis
    unfolding h' by (rule handle_ok_spawn) (use assms in \<open>simp_all add: handle_ok_def\<close>)
qed

lemma send_command_cases:
  fixes h :: "('c, 'st) TorrentHandle"
  shows "send_command cmd h =
    (case th_task h of
       None \<Rightarrow> Ok h
     | Some t \<Rightarrow> if sk_stopped t then Err Protocol else Ok (h\<lparr>th_task := Some (t\<lparr>sk_commands := sk_commands t @ [cmd]\<rparr>)\<rparr>))"
  by (simp add: send_command_def)

lemma handle_ok_send:
  assumes "handle_ok ih h" "cmd \<noteq> CancelTorrent" "send_command cmd h = Ok h'"
  shows "handle_ok ih h'"
proof -
  have "loop_engine (h\<lparr>th_task := x\<rparr>) (t\<lparr>sk_commands := cs\<rparr>) = loop_engine h t" for x t cs
    by (simp add: loop_engine_def)
  then show ?thesis
    using assms by (cases "th_task h") (auto simp: handle_ok_def send_command_def split: option.splits if_splits)
qed

lemma handle_ok_add_peers:
  assumes "handle_ok ih h"
  shows "handle_ok ih (h\<lparr>th_peer_mgr := add_peers xs (th_peer_mgr h)\<rparr>)"
proof -
  have "engine_inv m (loop_engine (h\<lparr>th_peer_mgr := add_peers xs (th_peer_mgr h)\<rparr>) t)" if "engine_inv m (loop_engine h t)" for m t
    using that by (auto simp: engine_inv_def loop_engine_def inv_at_def swarm_inv_def add_peers_inv)
  then show ?thesis
    using assms by (auto simp: handle_ok_def add_peers_inv split: option.splits)
qed

lemma handle_ok_events [simp]:
  "handle_ok ih (h\<lparr>th_events := es\<rparr>) \<longleftrightarrow> handle_ok ih h" for h :: "('c, 'st) TorrentHandle"
proof -
  have "engine_inv m (loop_engine (h\<lparr>th_events := es\<rparr>) t) = engine_inv m (loop_engine h t)" for m and t :: "('c, 'st) SwarmTask"
    by (simp add: engine_inv_def loop_engine_def inv_at_def swarm_inv_def)
  then show ?thesis by (auto simp: handle_ok_def split: option.split)
qed

subsection \<open>Turns of a loop\<close>

lemma loop_after_simps:
  "th_info_hash (loop_after h t en) = th_info_hash h" "th_metainfo (loop_after h t en) = th_metainfo h"
  "th_piece_mgr (loop_after h t en) = sw_piece_mgr (en_swarm en)" "th_peer_mgr (loop_after h t en) = sw_peer_mgr (en_swarm en)"
  "th_status (loop_after h t en) = en_status en" "th_task (loop_after h t en) = Some (t\<lparr>sk_engine := en\<rparr>)"
  by (simp_all add: loop_after_def)

lemma loop_engine_after [simp]: "loop_engine (loop_after h t en) (t'\<lparr>sk_engine := en\<rparr>) = en"
  by (simp add: loop_engine_def loop_after_def)

lemma handle_ok_after:
  assumes "handle_ok ih h" "th_metainfo h = Some m" "engine_inv m en" "CancelTorrent \<notin> set (sk_commands t)"
  shows "handle_ok ih (loop_after h t en)"
proof -
  have "pm_wf (sw_piece_mgr (en_swarm en))" "pr_inv (sw_peer_mgr (en_swarm en))" "meta_ok m"
    "num_pieces (sw_piece_mgr (en_swarm en)) = info_num_pieces (info m)"
    using assms(3) by (auto simp: engine_inv_def inv_at_def swarm_inv_def)
  then show ?thesis
    using assms by (simp add: handle_ok_def loop_after_simps)
qed

lemma run_turn_eq:
  assumes "env_ok E" "engine_inv m (loop_engine h t)"
  shows "\<exists>en r. engine_turn E e (loop_engine h t) = (en, r) \<and> engine_inv m en \<and>
    (r = Ok (goes_on e) \<or> r = Panic \<and> turn_fault (loop_engine h t) e) \<and>
    run_turn E e h (t\<lparr>sk_commands := cs\<rparr>) = loop_after h (t\<lparr>sk_commands := cs, sk_stopped := (r \<noteq> Ok True)\<rparr>) en"
proof -
  have same: "loop_engine h (t\<lparr>sk_commands := cs\<rparr>) = loop_engine h t" by (simp add: loop_engine_def)
  obtain en r where t: "engine_turn E e (loop_engine h t) = (en, r)" by force
  with engine_turn_total [OF assms, of e] show ?thesis by (simp add: run_turn_def same)
qed

lemma handle_ok_turn:
  assumes "env_ok E" "handle_ok ih h" "th_task h = Some t" and "set cs \<subseteq> set (sk_commands t)"
  shows "handle_ok ih (run_turn E e h (t\<lparr>sk_commands := cs\<rparr>))"
proof -
  obtain m where m: "th_metainfo h = Some m" "engine_inv m (loop_engine h t)" "CancelTorrent \<notin> set (sk_commands t)"
    using assms(2,3) by (auto simp: handle_ok_def split: option.splits)
  obtain en r where en: "engine_inv m en"
    "run_turn E e h (t\<lparr>sk_commands := cs\<rparr>) = loop_after h (t\<lparr>sk_commands := cs, sk_stopped := (r \<noteq> Ok True)\<rparr>) en"
    using run_turn_eq [OF assms(1) m(2), of e cs] by blast
  show ?thesis
    unfolding en(2) by (rule handle_ok_after [OF assms(2) m(1) en(1)]) (use m(3) assms(4) in auto)
qed


lemma handle_ok_step:
  assumes "env_ok E" "handle_ok ih h"
  shows "handle_ok ih (task_step E ev h)"
proof (cases "th_task h")
  case (Some t)
  then obtain m where m: "th_metainfo h = Some m" "engine_inv m (loop_engine h t)" "CancelTorrent \<notin> set (sk_commands t)"
    using assms(2) by (auto simp: handle_ok_def split: option.splits)
  show ?thesis
  proof (cases ev)
    case LoopBegins
    have "handle_ok ih (loop_after h (t\<lparr>sk_started := True\<rparr>) (engine_start (loop_engine h t)))"
      by (rule handle_ok_after [OF assms(2) m(1)]) (use m(2,3) in \<open>simp_all add: engine_start_def set_state_def engine_inv_def\<close>)
    then show ?thesis using assms(2) by (simp add: task_step_def Some LoopBegins)
  next
    case (NextCommand now answer)
    show ?thesis
    proof (cases "sk_commands t")
      case (Cons c cs)
      have "handle_ok ih (run_turn E (OnCommand now answer (Some c)) h (t\<lparr>sk_commands := cs\<rparr>))"
        by (rule handle_ok_turn [OF assms(1,2) Some]) (use Cons in auto)
      then show ?thesis using assms(2) by (simp add: task_step_def Some NextCommand Cons)
    qed (simp add: task_step_def Some NextCommand assms(2))
  next
    case (OtherTurn e)
    have "handle_ok ih (run_turn E e h (t\<lparr>sk_commands := sk_commands t\<rparr>))"
      by (rule handle_ok_turn [OF assms(1,2) Some]) simp
    then show ?thesis using assms(2) by (simp add: task_step_def Some OtherTurn)
  qed
qed (simp add: task_step_def assms(2))


subsection \<open>Operations\<close>

lemma keeps_change [keeps_intros]:
  assumes "\<And>h. handle_ok ih h \<Longrightarrow> f h \<noteq> Panic" and "\<And>h h'. handle_ok ih h \<Longrightarrow> f h = Ok h' \<Longrightarrow> handle_ok ih h'"
  shows "keeps session_ok (change_torrent ih f)"
  by (rule keepsI)
    (use assms in \<open>auto simp: change_torrent_simp dest: session_ok_handle intro!: session_ok_put split: option.splits result.splits\<close>)

lemma keeps_start:
  assumes "session_ok s" and "map_of (se_torrents s) ih = Some h" and "f h = Ok h'" and "handle_ok ih h'"
  shows "start_loop ih f s = (put_torrent ih h' s, Ok ())" "session_ok (put_torrent ih h' s)"
  using assms by (simp_all add: start_loop_simp session_ok_put)

definition spec_ok :: "(bytes \<Rightarrow> bytes) \<Rightarrow> TorrentSpec \<Rightarrow> bool" where
  "spec_ok sha1 spec \<longleftrightarrow> spec_info_hash sha1 spec \<noteq> Panic \<and> (\<forall>m. spec = SpecMetainfo m \<longrightarrow> meta_ok m)"

text \<open>A builder whose metadata is there or for which no peer is known yet, with a factory that does not panic.\<close>

definition builder_ready :: "'st DownloadBuilder \<Rightarrow> bool" where
  "builder_ready db \<longleftrightarrow>
     (db_metadata_resolved db \<or> db_magnet_peers db = []) \<and>
     (case db_storage_factory db of None \<Rightarrow> True | Some factory \<Rightarrow> \<forall>i. factory i \<noteq> Panic)"

lemma handle_register_ok: "spec_ok sha1 spec \<Longrightarrow> handle_register sha1 cf peer_id spec \<noteq> Panic"
  by (cases spec) (auto simp: spec_ok_def handle_register_def meta_ok_def split: result.splits)

lemma register_spec_simp:
  "register_spec sha1 peer_id spec s =
     (case handle_register sha1 (se_config s) peer_id spec of
        Ok h \<Rightarrow> (put_torrent (th_info_hash h) h (set_aside (th_info_hash h) s), Ok (th_info_hash h))
      | Err e \<Rightarrow> (s, Err e) | Panic \<Rightarrow> (s, Panic))"
  by (simp add: register_spec_def act_read_def act_bind_def act_lift_def act_seq_def act_update_def act_return_def split: result.split)

lemma keeps_register [keeps_intros]:
  assumes "spec_ok sha1 spec"
  shows "keeps session_ok (register_spec sha1 peer_id spec)"
proof (rule keepsI)
  fix s :: "('a, 'b) Session" assume s: "session_ok s"
  have "handle_ok (th_info_hash h) h" if "handle_register sha1 (se_config s) peer_id spec = Ok h" for h :: "('a, 'b) TorrentHandle"
    using handle_ok_register(1) [OF that] assms by (auto simp: spec_ok_def)
  then show "session_ok (fst (register_spec sha1 peer_id spec s)) \<and> snd (register_spec sha1 peer_id spec s) \<noteq> Panic"
    using s handle_register_ok [OF assms, of "se_config s" peer_id]
    by (auto simp: register_spec_simp session_ok_put split: result.splits)
qed

lemma keeps_add [keeps_intros]: "spec_ok sha1 spec \<Longrightarrow> keeps session_ok (add_torrent sha1 peer_id spec)"
  unfolding add_torrent_def by (intro keeps_bind keeps_intros)

lemma keeps_control [keeps_intros]:
  "keeps session_ok (pause_torrent ih)" "keeps session_ok (resume_torrent ih)" "keeps session_ok (clear_error ih)"
  unfolding pause_torrent_def resume_torrent_def clear_error_def
proof -
  have send: "keeps session_ok (change_torrent ih (send_command cmd))" if "cmd \<noteq> CancelTorrent" for cmd
    by (rule keeps_change) (use that in \<open>auto simp: send_command_def split: option.splits if_splits dest: handle_ok_send\<close>)
  show "keeps session_ok (change_torrent ih (send_command Pause))" "keeps session_ok (change_torrent ih (send_command Resume))"
    by (rule send, simp)+
qed (intro keeps_change; auto)

lemma remove_torrent_simp:
  "remove_torrent ih s =
     (case map_of (se_torrents s) ih of
        None \<Rightarrow> (s, Err InvalidInput)
      | Some h \<Rightarrow>
          (let h' = (case send_command CancelTorrent h of Ok h' \<Rightarrow> h' | _ \<Rightarrow> h); s' = set_aside ih (put_torrent ih h' s)
           in (s'\<lparr>se_torrents := AList.delete ih (se_torrents s')\<rparr>, Ok (length (se_removed s)))))"
  by (simp add: remove_torrent_def with_torrent_simp act_update_def act_read_def act_seq_def act_bind_def act_return_def Let_def
    split: option.split)

lemma session_ok_part:
  assumes "session_ok s" "se_config s' = se_config s" "distinct (map fst (se_torrents s'))"
    and "\<And>k. map_of (se_torrents s') k = None \<or> map_of (se_torrents s') k = map_of (se_torrents s) k"
  shows "session_ok s'"
proof -
  have "handle_ok k h" if "map_of (se_torrents s') k = Some h" for k h
    using session_ok_handle [OF assms(1), of k h] assms(4) [of k] that by simp
  with assms(1-3) show ?thesis unfolding session_ok_def by metis
qed

lemma keeps_remove [keeps_intros]: "keeps session_ok (remove_torrent ih)"
proof (rule keepsI)
  fix s :: "('a, 'b) Session" assume s: "session_ok s"
  show "session_ok (fst (remove_torrent ih s)) \<and> snd (remove_torrent ih s) \<noteq> Panic"
  proof (cases "map_of (se_torrents s) ih")
    case (Some h)
    have "session_ok (fst (remove_torrent ih s))"
      by (rule session_ok_part [OF s])
        (use s in \<open>auto simp: remove_torrent_simp Some Let_def delete_conv' put_torrent_def update_conv' session_ok_def
          intro!: distinct_delete distinct_update\<close>)
    then show ?thesis by (simp add: remove_torrent_simp Some Let_def)
  qed (simp add: remove_torrent_simp s)
qed

text \<open>Starting a download whose metadata is settled.\<close>

lemma resolve_ready:
  assumes "db_metadata_resolved db \<or> db_magnet_peers db = []"
  shows "resolve_metadata fetch db s =
     (if db_metadata_resolved db then (s, Ok db)
      else case map_of (se_torrents s) (db_info_hash db) of
        None \<Rightarrow> (s, Err InvalidInput) | Some h \<Rightarrow> (s, Ok (db\<lparr>db_metadata_resolved := True\<rparr>)))"
proof (cases "db_metadata_resolved db")
  case False
  then have "db\<lparr>db_magnet_peers := [], db_metadata_resolved := True\<rparr> = db\<lparr>db_metadata_resolved := True\<rparr>"
    using assms by simp
  with False assms show ?thesis
    by (simp add: resolve_metadata_def with_torrent_simp act_return_def Let_def split: option.split)
qed (simp add: resolve_metadata_def act_return_def)

definition injected :: "'st DownloadBuilder \<Rightarrow> ('c, 'st) Session \<Rightarrow> ('c, 'st) Session" where
  "injected db s = fst (inject_peers db s)"

lemma inject_peers_Ok: "inject_peers db s = (injected db s, Ok ())"
  by (simp add: injected_def inject_peers_def act_return_def act_update_def)

lemma injected_facts:
  "map_of (se_torrents (injected db s)) k =
     (if k = db_info_hash db \<and> db_magnet_peers db \<noteq> []
      then map_option (\<lambda>h. h\<lparr>th_peer_mgr := add_peers (db_magnet_peers db) (th_peer_mgr h)\<rparr>) (map_of (se_torrents s) k)
      else map_of (se_torrents s) k)"
  "se_config (injected db s) = se_config s" "se_removed (injected db s) = se_removed s"
  "session_ok s \<Longrightarrow> session_ok (injected db s)"
  by (auto simp: injected_def inject_peers_def act_return_def act_update_def split: option.split
      intro!: session_ok_put handle_ok_add_peers dest: session_ok_handle)

definition starts :: "spawn_env \<Rightarrow> 'st DownloadBuilder \<Rightarrow> ('c, 'st) Session \<Rightarrow> ('c, 'st) TorrentHandle option result" where
  "starts sp db s =
     (case db_storage_factory db of
        None \<Rightarrow> Ok None
      | Some factory \<Rightarrow>
          and_then (get_torrent (db_info_hash db) s) (\<lambda>h.
            case th_metainfo h of
              None \<Rightarrow> Ok None
            | Some m \<Rightarrow>
                and_then (factory (info m)) (\<lambda>storage.
                and_then (handle_activate (se_config s) sp storage h) (\<lambda>h'. Ok (Some h')))))"

lemma check_capacity_same: "check_capacity s = (s, snd (check_capacity s))"
  by (simp add: check_capacity_def act_read_def act_lift_def act_return_def Let_def)

lemma start_begin_simp:
  fixes s :: "('c, 'st) Session"
  shows "start_begin db s =
     (let s1 = injected db s in
      (s1, and_then (snd (check_capacity s1)) (\<lambda>_.
         case db_storage_factory db of
           None \<Rightarrow> Ok None
         | Some _ \<Rightarrow> and_then (get_torrent (db_info_hash db) s1) (\<lambda>h. Ok (map_option info (th_metainfo h))))))"
proof -
  let ?s = "injected db s"
  have "act_seq check_capacity a ?s =
      (case snd (check_capacity ?s) of Ok _ \<Rightarrow> a ?s | Err e \<Rightarrow> (?s, Err e) | Panic \<Rightarrow> (?s, Panic))" for a :: "(('c, 'st) Session, 'x) act"
    by (subst act_seq_def, subst act_bind_def, subst check_capacity_same) (simp split: result.split)
  note seq = this
  have body: "(case db_storage_factory db of
         None \<Rightarrow> act_return None
       | Some _ \<Rightarrow> with_torrent (db_info_hash db) (\<lambda>h. act_return (map_option info (th_metainfo h)))) ?s =
      (?s, case db_storage_factory db of
         None \<Rightarrow> Ok None
       | Some _ \<Rightarrow> and_then (get_torrent (db_info_hash db) ?s) (\<lambda>h. Ok (map_option info (th_metainfo h))))"
    by (simp add: act_return_def with_torrent_simp get_torrent_def split: option.split)
  show ?thesis
    unfolding start_begin_def Let_def act_seq_Ok [OF inject_peers_Ok] seq body
    by (cases "snd (check_capacity ?s)") (simp_all only: result.case and_then.simps)
qed

lemma start_finish_simp: "start_finish sp ih storage s = start_loop ih (handle_activate (se_config s) sp storage) s"
  by (simp add: start_finish_def act_read_def)

lemma start_resolved_simp:
  "start_resolved sp db s =
     (let s1 = injected db s; ih = db_info_hash db in
      case snd (check_capacity s1) of
        Ok _ \<Rightarrow> (case starts sp db s1 of
          Ok (Some h') \<Rightarrow> (put_torrent ih h' s1, Ok ih)
        | Ok None \<Rightarrow> (s1, Ok ih) | Err e \<Rightarrow> (s1, Err e) | Panic \<Rightarrow> (s1, Panic))
      | Err e \<Rightarrow> (s1, Err e) | Panic \<Rightarrow> (s1, Panic))"
proof (cases "snd (check_capacity (injected db s))")
  case (Ok u)
  let ?s = "injected db s" and ?ih = "db_info_hash db"
  note first = start_begin_simp [of db s, unfolded Let_def Ok]
  show ?thesis
  proof (cases "db_storage_factory db")
    case None
    then show ?thesis
      by (simp add: start_resolved_def act_bind_def first Ok Let_def starts_def act_return_def split: option.split)
  next
    case (Some factory)
    note factory = this
    show ?thesis
    proof (cases "map_of (se_torrents ?s) ?ih")
      case None
      then show ?thesis by (simp add: start_resolved_def act_bind_def first Ok Let_def starts_def get_torrent_def factory)
    next
      case (Some h)
      show ?thesis
      proof (cases "th_metainfo h")
        case None
        then show ?thesis by (simp add: start_resolved_def act_bind_def first Ok Let_def starts_def get_torrent_def factory Some act_return_def)
      next
        case (Some m)
        then show ?thesis
          by (cases "factory (info m)")
            (auto simp: start_resolved_def act_bind_def first Ok Let_def starts_def get_torrent_def factory act_return_def act_lift_def
              \<open>map_of (se_torrents ?s) ?ih = Some h\<close> act_seq_def start_finish_simp start_loop_simp split: result.split)
      qed
    qed
  qed
qed (simp_all add: start_resolved_def act_bind_def start_begin_simp Let_def)

lemma start_resolved_flag:
  fixes s :: "('c, 'st) Session"
  shows "start_resolved sp (db\<lparr>db_metadata_resolved := True\<rparr>) s = start_resolved sp db s"
proof -
  have "injected (db\<lparr>db_metadata_resolved := True\<rparr>) s = injected db s"
    by (simp add: injected_def inject_peers_def act_return_def act_update_def cong: option.case_cong)
  moreover have "starts sp (db\<lparr>db_metadata_resolved := True\<rparr>) x = starts sp db x" for x :: "('c, 'st) Session"
    by (simp add: starts_def cong: option.case_cong)
  ultimately show ?thesis by (simp add: start_resolved_simp Let_def cong: result.case_cong)
qed

lemma start_download_ready:
  assumes "db_metadata_resolved db \<or> db_magnet_peers db = []"
  shows "start_download sp fetch db s =
     (if \<not> db_metadata_resolved db \<and> map_of (se_torrents s) (db_info_hash db) = None then (s, Err InvalidInput)
      else start_resolved sp db s)"
  unfolding start_download_def act_bind_def resolve_ready [OF assms]
  by (cases "map_of (se_torrents s) (db_info_hash db)") (simp_all add: start_resolved_flag)

lemma starts_ok:
  assumes "session_ok s" and "case db_storage_factory db of None \<Rightarrow> True | Some factory \<Rightarrow> \<forall>i. factory i \<noteq> Panic"
  shows "starts sp db s \<noteq> Panic" "starts sp db s = Ok (Some h') \<Longrightarrow> handle_ok (db_info_hash db) h'"
proof -
  have act: "\<exists>h'. handle_activate (se_config s) sp storage h = Ok h' \<and> handle_ok (db_info_hash db) h'"
    if "map_of (se_torrents s) (db_info_hash db) = Some h" "th_metainfo h = Some m" for h m storage
    using handle_ok_activate [OF session_ok_handle [OF assms(1) that(1)]] that(2) assms(1) by (simp add: session_ok_def)
  have "starts sp db s \<noteq> Panic \<and> (\<forall>h'. starts sp db s = Ok (Some h') \<longrightarrow> handle_ok (db_info_hash db) h')"
  proof (cases "db_storage_factory db")
    case (Some factory)
    note factory = this
    show ?thesis
    proof (cases "map_of (se_torrents s) (db_info_hash db)")
      case (Some h)
      note h = this
      show ?thesis
      proof (cases "th_metainfo h")
        case (Some m)
        have f: "factory (info m) \<noteq> Panic" using assms(2) factory by simp
        show ?thesis
        proof (cases "factory (info m)")
          case (Ok storage)
          then show ?thesis using act [OF h Some, of storage] by (auto simp: starts_def get_torrent_def factory h Some)
        qed (use f in \<open>simp_all add: starts_def get_torrent_def factory h Some\<close>)
      qed (simp add: starts_def get_torrent_def factory h)
    qed (simp add: starts_def get_torrent_def factory)
  qed (simp add: starts_def)
  then show "starts sp db s \<noteq> Panic" "starts sp db s = Ok (Some h') \<Longrightarrow> handle_ok (db_info_hash db) h'" by blast+
qed

lemma keeps_start_download [keeps_intros]:
  fixes db :: "'st DownloadBuilder"
  assumes "builder_ready db"
  shows "keeps (session_ok :: ('c, 'st) Session \<Rightarrow> bool) (start_download sp fetch db)"
proof (rule keepsI)
  fix s :: "('c, 'st) Session" assume s: "session_ok s"
  let ?s = "injected db s"
  have s1: "session_ok ?s" using injected_facts(4) [OF s] .
  have f: "case db_storage_factory db of None \<Rightarrow> True | Some factory \<Rightarrow> \<forall>i. factory i \<noteq> Panic"
    using assms by (simp add: builder_ready_def)
  have "snd (check_capacity ?s) \<noteq> Panic"
    by (simp add: check_capacity_def act_read_def act_lift_def act_return_def Let_def)
  then have "session_ok (fst (start_resolved sp db s)) \<and> snd (start_resolved sp db s) \<noteq> Panic"
    using s1 starts_ok [OF s1 f, of sp]
    by (auto simp: start_resolved_simp Let_def session_ok_put split: result.splits option.splits)
  with s assms show "session_ok (fst (start_download sp fetch db s)) \<and> snd (start_download sp fetch db s) \<noteq> Panic"
    by (subst (1 2) start_download_ready) (auto simp: builder_ready_def)
qed

lemma start_seeding_stays:
  fixes s :: "('c, 'st) Session"
  assumes "meta_ok (pt_metainfo prepared)" and "session_ok s"
  shows "session_ok (fst (start_seeding sha1 peer_id sp wrap prepared s))"
proof -
  let ?m = "pt_metainfo prepared" and ?i = "info (pt_metainfo prepared)"
  have reg: "stays (session_ok :: ('c, 'st) Session \<Rightarrow> bool) (register_spec sha1 peer_id (SpecMetainfo ?m))"
  proof (unfold stays_def, intro allI impI)
    fix s :: "('c, 'st) Session" assume s: "session_ok s"
    have "handle_ok (th_info_hash h) h" if "handle_register sha1 (se_config s) peer_id (SpecMetainfo ?m) = Ok h" for h :: "('c, 'st) TorrentHandle"
      using handle_ok_register(1) [OF that] assms(1) by simp
    then show "session_ok (fst (register_spec sha1 peer_id (SpecMetainfo ?m) s))"
      using s by (auto simp: register_spec_simp session_ok_put split: result.split)
  qed
  have act: "stays (session_ok :: ('c, 'st) Session \<Rightarrow> bool) (act_read (\<lambda>s. start_loop ih (handle_activate_seed sha1 (se_config s) sp ?m st pm b)))"
    if pm: "pm_wf pm" "num_pieces pm = info_num_pieces ?i" for ih st pm b
  proof (unfold stays_def act_read_def, intro allI impI)
    fix s :: "('c, 'st) Session" assume s: "session_ok s"
    have "handle_ok ih h'" if "map_of (se_torrents s) ih = Some h" "handle_activate_seed sha1 (se_config s) sp ?m st pm b h = Ok h'" for h h'
      using handle_ok_activate_seed [OF that(2) session_ok_handle [OF s that(1)] _ assms(1) pm] s by (simp add: session_ok_def)
    then show "session_ok (fst (start_loop ih (handle_activate_seed sha1 (se_config s) sp ?m st pm b) s))"
      using s by (auto simp: start_loop_simp session_ok_put split: option.splits result.splits)
  qed
  have "stays (session_ok :: ('c, 'st) Session \<Rightarrow> bool) (start_seeding sha1 peer_id sp wrap prepared)"
    unfolding start_seeding_def Let_def split_beta
    by (intro stays_bind_lift stays_bind reg stays_seq act stays_return)
      (auto dest: verify_existing_wf)
  with assms(2) show ?thesis by (rule staysD [rotated])
qed

lemma start_begin_keeps [keeps_intros]: "keeps (session_ok :: ('c, 'st) Session \<Rightarrow> bool) (start_begin db)"
proof (rule keepsI)
  fix s :: "('c, 'st) Session" assume s: "session_ok s"
  have "snd (check_capacity (injected db s)) \<noteq> Panic"
    by (simp add: check_capacity_def act_read_def act_lift_def act_return_def Let_def)
  then show "session_ok (fst (start_begin db s)) \<and> snd (start_begin db s) \<noteq> Panic"
    using injected_facts(4) [OF s, of db]
    by (cases "snd (check_capacity (injected db s))"; cases "map_of (se_torrents (injected db s)) (db_info_hash db)")
      (simp_all add: start_begin_simp Let_def get_torrent_def split: option.split)
qed

text \<open>The second step panics exactly when the torrent is there again without its metadata.\<close>

lemma start_finish_spec:
  fixes s :: "('c, 'st) Session"
  assumes "session_ok s" and "start_finish sp ih storage s = (s', r)"
  shows "session_ok s' \<and> (r = Panic \<longleftrightarrow> (\<exists>h. map_of (se_torrents s) ih = Some h \<and> th_metainfo h = None)) \<and>
    (r = Err InvalidInput \<longleftrightarrow> map_of (se_torrents s) ih = None) \<and> (\<forall>e. r = Err e \<longrightarrow> e = InvalidInput) \<and> (r \<noteq> Ok () \<longrightarrow> s' = s) \<and>
    (r = Ok () \<longrightarrow> (\<exists>h h'. map_of (se_torrents s) ih = Some h \<and> handle_activate (se_config s) sp storage h = Ok h' \<and> s' = put_torrent ih h' s))"
proof (cases "map_of (se_torrents s) ih")
  case (Some h)
  note hok = session_ok_handle [OF assms(1) Some]
  show ?thesis
  proof (cases "th_metainfo h")
    case None
    then show ?thesis using assms Some by (simp add: start_finish_simp start_loop_simp handle_activate_def)
  next
    case (Some m)
    obtain h' where h': "handle_activate (se_config s) sp storage h = Ok h'" "handle_ok ih h'"
      using handle_ok_activate [OF hok, of "se_config s" sp storage] Some assms(1) by (auto simp: session_ok_def)
    then show ?thesis
      using assms Some \<open>map_of (se_torrents s) ih = Some h\<close> session_ok_put [OF assms(1) h'(2)]
      by (auto simp: start_finish_simp start_loop_simp)
  qed
qed (use assms in \<open>auto simp: start_finish_simp start_loop_simp\<close>)

lemma loop_step_ok:
  assumes "env_ok E" "session_ok s"
  shows "session_ok (loop_step E ih ev s)"
  using assms by (auto simp: loop_step_def intro!: session_ok_put handle_ok_step dest: session_ok_handle split: option.split)

lemma dht_poll_ok:
  assumes "session_ok s"
  shows "session_ok (dht_poll get_peers s)"
proof -
  let ?f = "\<lambda>s ih. let peers = get_peers ih in
       if peers = [] then s
       else case map_of (se_torrents s) ih of
              None \<Rightarrow> s
            | Some h \<Rightarrow> put_torrent ih (h\<lparr>th_peer_mgr := add_peers peers (th_peer_mgr h)\<rparr>) s"
  have "session_ok (foldl ?f s ihs)" for ihs
    using assms
  proof (induction ihs arbitrary: s)
    case (Cons ih ihs)
    have "session_ok (?f s ih)"
      using Cons.prems by (auto simp: Let_def intro!: session_ok_put handle_ok_add_peers dest: session_ok_handle split: option.split)
    from Cons.IH [OF this] show ?case by simp
  qed simp
  then show ?thesis by (simp add: dht_poll_def)
qed

lemma handle_inbound_ok: "session_ok s \<Longrightarrow> session_ok (handle_inbound bs addr accept s)"
proof -
  assume s: "session_ok s"
  have put: "session_ok (put_torrent ih h' s)" if h: "map_of (se_torrents s) ih = Some h" and "send_command (InboundPeer addr conn) h = Ok h'"
    for ih h h' conn
    using handle_ok_send [OF session_ok_handle [OF s h] _ that(2)] by (auto intro: session_ok_put [OF s])
  then show ?thesis using s by (auto simp: handle_inbound_def split: option.split result.split)
qed

subsection \<open>Reachable sessions\<close>

text \<open>Everything that happens to a session: its operations, the peers it learns of, and the turns of the loops.\<close>

datatype ('c, 'st) session_op =
    AddTorrent bytes TorrentSpec
  | StartBegins "'st DownloadBuilder"
  | StartFinishes spawn_env bytes 'st
  | StartDownload spawn_env "SocketAddr list \<Rightarrow> bytes result" "'st DownloadBuilder"
  | StartSeeding bytes spawn_env "DataSourceStorage \<Rightarrow> 'st" PreparedTorrent
  | PauseTorrent bytes
  | ResumeTorrent bytes
  | RemoveTorrent bytes
  | ClearError bytes
  | DhtPoll "bytes \<Rightarrow> SocketAddr list"
  | InboundConnection "bytes result" SocketAddr "Handshake \<Rightarrow> 'c result"
  | LoopTurn bytes "'c task_event"
  | RemovedTurn nat "'c task_event"

definition no_value :: "('s, 'a) act \<Rightarrow> ('s, unit) act" where
  "no_value a = act_bind a (\<lambda>_. act_return ())"

lemma no_value_simp [simp]: "fst (no_value a s) = fst (a s)" "snd (no_value a s) = Panic \<longleftrightarrow> snd (a s) = Panic"
  by (cases "a s"; cases "snd (a s)"; simp add: no_value_def act_bind_def act_return_def)+

fun session_step :: "(bytes \<Rightarrow> bytes) \<Rightarrow> ('c, 'st) env \<Rightarrow> ('c, 'st) session_op \<Rightarrow> (('c, 'st) Session, unit) act" where
  "session_step sha1 E (AddTorrent peer_id spec) = no_value (add_torrent sha1 peer_id spec :: (_, 'st DownloadBuilder) act)"
| "session_step sha1 E (StartBegins db) = no_value (start_begin db)"
| "session_step sha1 E (StartFinishes sp ih storage) = start_finish sp ih storage"
| "session_step sha1 E (StartDownload sp fetch db) = no_value (start_download sp fetch db)"
| "session_step sha1 E (StartSeeding peer_id sp wrap prepared) = no_value (start_seeding sha1 peer_id sp wrap prepared)"
| "session_step sha1 E (PauseTorrent ih) = pause_torrent ih"
| "session_step sha1 E (ResumeTorrent ih) = resume_torrent ih"
| "session_step sha1 E (RemoveTorrent ih) = no_value (remove_torrent ih)"
| "session_step sha1 E (ClearError ih) = clear_error ih"
| "session_step sha1 E (DhtPoll get_peers) = act_update (dht_poll get_peers)"
| "session_step sha1 E (InboundConnection bs addr accept) = act_update (handle_inbound bs addr accept)"
| "session_step sha1 E (LoopTurn ih ev) = act_update (loop_step E ih ev)"
| "session_step sha1 E (RemovedTurn n ev) = act_update (removed_step E n ev)"

text \<open>
  What the operations are given: torrents whose sizes make sense (\<open>meta_ok\<close>), and builders whose metadata is
  settled. A loop may be given anything.
\<close>

definition op_ok :: "(bytes \<Rightarrow> bytes) \<Rightarrow> ('c, 'st) session_op \<Rightarrow> bool" where
  "op_ok sha1 op =
     (case op of
        AddTorrent _ spec \<Rightarrow> spec_ok sha1 spec
      | StartDownload _ _ db \<Rightarrow> builder_ready db
      | StartSeeding _ _ _ prepared \<Rightarrow> meta_ok (pt_metainfo prepared)
      | _ \<Rightarrow> True)"

text \<open>An operation that panics can poison the lock of the map, so the session goes on after the others only.\<close>

inductive session_reach :: "(bytes \<Rightarrow> bytes) \<Rightarrow> ('c, 'st) env \<Rightarrow> SessionConfig \<Rightarrow> ('c, 'st) Session \<Rightarrow> bool"
  for sha1 E cf where
  reach_new: "session_reach sha1 E cf (session_new cf)"
| reach_step: "session_reach sha1 E cf s \<Longrightarrow> op_ok sha1 op \<Longrightarrow> session_step sha1 E op s = (s', r) \<Longrightarrow> r \<noteq> Panic \<Longrightarrow>
    session_reach sha1 E cf s'"

lemma session_step_ok:
  assumes "env_ok E" "session_ok s" "op_ok sha1 op"
  shows "session_ok (fst (session_step sha1 E op s))"
proof (cases op)
  case (AddTorrent peer_id spec)
  then show ?thesis using keepsD [OF keeps_add assms(2)] assms(3) by (simp add: op_ok_def)
next
  case (StartBegins db)
  then show ?thesis using keepsD [OF start_begin_keeps assms(2)] by simp
next
  case (StartFinishes sp ih storage)
  then show ?thesis using start_finish_spec [OF assms(2), of sp ih storage] by (cases "start_finish sp ih storage s") simp
next
  case (StartDownload sp fetch db)
  then show ?thesis using keepsD [OF keeps_start_download assms(2)] assms(3) by (simp add: op_ok_def)
next
  case (StartSeeding peer_id sp wrap prepared)
  then show ?thesis using start_seeding_stays [OF _ assms(2)] assms(3) by (simp add: op_ok_def)
next
  case (RemovedTurn n ev)
  then show ?thesis using assms(2) by (simp add: act_update_def removed_step_def session_ok_def)
qed (use keepsD [OF keeps_control(1) assms(2)] keepsD [OF keeps_control(2) assms(2)] keepsD [OF keeps_control(3) assms(2)]
      keepsD [OF keeps_remove assms(2)] dht_poll_ok [OF assms(2)] handle_inbound_ok [OF assms(2)] loop_step_ok [OF assms(1,2)]
     in \<open>simp_all add: act_update_def\<close>)

lemma session_reach_ok:
  assumes "session_reach sha1 E cf s" "env_ok E" "0 < cf_piece_cache_size cf"
  shows "session_ok s"
  using assms(1)
proof (induction rule: session_reach.induct)
  case reach_new
  show ?case by (rule session_ok_new [OF assms(3)])
next
  case (reach_step s op s' r)
  then show ?case using session_step_ok [OF assms(2), of s sha1 op] by simp
qed

subsection \<open>What reachable sessions promise\<close>



lemma missing_none: "missing_pieces \<lparr>num_pieces = n, bitfield = replicate n True\<rparr> = []"
proof -
  have "filter (\<lambda>(_, have). \<not> have) (enumerate k (replicate n True)) = []" for k
    by (induction n arbitrary: k) simp_all
  then show ?thesis by (simp add: missing_pieces_def)
qed

lemma seed_hash_bytes: "seed_hash sha1 sb = Some (Ok pt) \<Longrightarrow> metainfo_to_bytes (pt_metainfo pt) = Some (pt_torrent_bytes pt)"
  by (auto simp: seed_hash_def dest: prepare_torrent_Ok split: result.splits)

text \<open>A torrent made from a source that keeps its contract is activated with all its pieces.\<close>

lemma seeding_run:
  fixes s :: "('c, 'st) Session"
  assumes "seed_hash sha1 sb = Some (Ok pt)" and "full_source (sb_source sb) xs" and "length xs < 2 ^ 64"
    and "info_num_pieces (info (pt_metainfo pt)) \<le> 2 ^ 32"
  defines "ih \<equiv> info_hash sha1 (pt_metainfo pt)" and "n \<equiv> info_num_pieces (info (pt_metainfo pt))"
  shows "\<exists>s' h t. start_seeding sha1 peer_id sp wrap pt s = (s', Ok ih) \<and>
    map_of (se_torrents s') = (map_of (se_torrents s))(ih \<mapsto> h) \<and>
    th_metainfo h = Some (pt_metainfo pt) \<and> th_piece_mgr h = \<lparr>num_pieces = n, bitfield = replicate n True\<rparr> \<and>
    th_task h = Some t \<and> sw_piece_mgr (en_swarm (sk_engine t)) = th_piece_mgr h \<and> (en_super (sk_engine t) \<noteq> None \<longleftrightarrow> pt_super_seed pt) \<and>
    torrent_status ih s' = Ok (th_status h) \<and> ts_state (th_status h) = Seeding \<and> ts_bitfield (th_status h) = replicate n True \<and>
    torrent_bytes ih s' = Some (pt_torrent_bytes pt)"
proof -
  let ?m = "pt_metainfo pt" and ?pm = "\<lparr>num_pieces = n, bitfield = replicate n True\<rparr>"
  obtain d where d: "dss_new (pt_source pt) (info ?m) = Ok d"
    and v: "verify_existing sha1 (dss_read_piece d) (info ?m) (piece_manager_new n) = Ok (?pm, n)"
    using seeded_torrent_complete_parts(1) [OF assms(1-4)] unfolding n_def by blast
  obtain tot where tot: "total_size (info ?m) = Ok tot" using d by (auto simp: dss_new_def)
  obtain h0 :: "('c, 'st) TorrentHandle" where h0: "handle_register sha1 (se_config s) peer_id (SpecMetainfo ?m) = Ok h0" "th_info_hash h0 = ih"
    by (simp add: handle_register_def tot handle_new_def ih_def)
  let ?s = "put_torrent ih h0 (set_aside ih s)"
  obtain h1 :: "('c, 'st) TorrentHandle" and t where h1: "handle_activate_seed sha1 (se_config s) sp ?m (wrap d) ?pm (pt_super_seed pt) h0 = Ok h1"
    "th_metainfo h1 = Some ?m" "th_piece_mgr h1 = ?pm" "th_task h1 = Some t" "sw_piece_mgr (en_swarm (sk_engine t)) = ?pm"
    "en_super (sk_engine t) \<noteq> None \<longleftrightarrow> pt_super_seed pt" "ts_state (th_status h1) = Seeding" "ts_bitfield (th_status h1) = replicate n True"
    by (simp add: handle_activate_seed_def h0(2) ih_def [symmetric] tot spawn_swarm_loop_def engine_new_def swarm_new_def seed_status_def missing_none)
  have run: "start_seeding sha1 peer_id sp wrap pt s = (put_torrent ih h1 ?s, Ok ih)"
    unfolding start_seeding_def Let_def act_bind_def act_lift_def
    by (simp add: d v n_def [symmetric] register_spec_simp h0 act_seq_def act_bind_def act_read_def start_loop_simp h1(1) act_return_def)
  have "torrent_bytes ih (put_torrent ih h1 ?s) = Some (pt_torrent_bytes pt)"
    by (simp add: torrent_bytes_def torrent_metainfo_def h1(2) seed_hash_bytes [OF assms(1)])
  moreover have "map_of (se_torrents (put_torrent ih h1 ?s)) = (map_of (se_torrents s))(ih \<mapsto> h1)"
    by (simp add: fun_eq_iff)
  ultimately show ?thesis
    using run h1 by (intro exI [of _ "put_torrent ih h1 ?s"] exI [of _ h1] exI [of _ t])
      (simp add: torrent_status_def get_torrent_def)
qed

lemma session_op_panics:
  fixes s :: "('c, 'st) Session"
  assumes "session_ok s" and "op_ok sha1 op" and "snd (session_step sha1 E op s) = Panic"
  shows "(\<exists>sp ih storage h. op = StartFinishes sp ih storage \<and> map_of (se_torrents s) ih = Some h \<and> th_metainfo h = None) \<or>
    (\<exists>peer_id sp wrap pt. op = StartSeeding peer_id sp wrap pt \<and>
      \<not> (\<exists>sb xs. seed_hash sha1 sb = Some (Ok pt) \<and> full_source (sb_source sb) xs \<and> length xs < 2 ^ 64 \<and>
          info_num_pieces (info (pt_metainfo pt)) \<le> 2 ^ 32))"
proof (cases op)
  case (AddTorrent peer_id spec)
  then show ?thesis using keepsD [OF keeps_add assms(1)] assms(2,3) by (simp add: op_ok_def)
next
  case (StartBegins db)
  then show ?thesis using keepsD [OF start_begin_keeps assms(1)] assms(3) by simp
next
  case (StartFinishes sp ih storage)
  then show ?thesis using start_finish_spec [OF assms(1), of sp ih storage] assms(3) by (cases "start_finish sp ih storage s") simp
next
  case (StartDownload sp fetch db)
  then show ?thesis using keepsD [OF keeps_start_download assms(1)] assms(2,3) by (simp add: op_ok_def)
next
  case (StartSeeding peer_id sp wrap pt)
  have "\<not> (seed_hash sha1 sb = Some (Ok pt) \<and> full_source (sb_source sb) xs \<and> length xs < 2 ^ 64 \<and>
      info_num_pieces (info (pt_metainfo pt)) \<le> 2 ^ 32)" for sb xs
    using seeding_run [of sha1 sb pt xs peer_id sp wrap s] assms(3) StartSeeding by auto
  then show ?thesis using StartSeeding by blast
qed (use keepsD [OF keeps_control(1) assms(1)] keepsD [OF keeps_control(2) assms(1)] keepsD [OF keeps_control(3) assms(1)]
      keepsD [OF keeps_remove assms(1)] assms(3) in \<open>simp_all add: act_update_def\<close>)


text \<open>The small torrent, registered and started.\<close>

definition small_sha1 :: "bytes \<Rightarrow> bytes" where
  "small_sha1 bs = []"

definition small_spawn :: spawn_env where
  "small_spawn = \<lparr>sp_peer_id = [2], sp_now = 0, sp_has_tracker = True\<rparr>"

definition small_builder :: "unit DownloadBuilder" where
  "small_builder = \<lparr>db_info_hash = [], db_storage_factory = Some (\<lambda>_. Ok ()), db_metadata_resolved = True, db_magnet_peers = []\<rparr>"

definition added_session :: "(unit, unit) Session" where
  "added_session = fst (add_torrent small_sha1 [1] (SpecMetainfo small_meta) (session_new session_config_default))"

definition started_session :: "(unit, unit) Session" where
  "started_session = fst (start_download small_spawn (\<lambda>_. Err InvalidInput) small_builder added_session)"

lemma small_meta_ok: "meta_ok small_meta"
  by (simp add: meta_ok_def small_meta_def total_size_def info_num_pieces_def Let_def)

lemma small_spec_ok: "spec_ok small_sha1 (SpecMetainfo small_meta)"
  using small_meta_ok by (simp add: spec_ok_def)

lemma small_builder_ready: "builder_ready small_builder"
  by (simp add: builder_ready_def small_builder_def)

lemma reach_op:
  assumes "session_reach sha1 E cf s" and "env_ok E" and "0 < cf_piece_cache_size cf" and "op_ok sha1 op"
    and "case op of StartFinishes _ _ _ \<Rightarrow> False | StartSeeding _ _ _ _ \<Rightarrow> False | _ \<Rightarrow> True"
  shows "session_reach sha1 E cf (fst (session_step sha1 E op s))"
proof -
  have "snd (session_step sha1 E op s) \<noteq> Panic"
    using session_op_panics [OF session_reach_ok [OF assms(1-3)] assms(4), of E] assms(5) by (cases op) auto
  from reach_step [OF assms(1,4) prod.collapse [symmetric] this] show ?thesis .
qed

lemma default_cache: "0 < cf_piece_cache_size session_config_default"
  by (simp add: session_config_default_def)

lemma added_reach: "session_reach small_sha1 small_env session_config_default added_session"
  using reach_op [OF reach_new small_env_ok default_cache, of small_sha1 "AddTorrent [1] (SpecMetainfo small_meta)"] small_spec_ok
  by (simp add: op_ok_def added_session_def)


lemma started_facts:
  "snd (start_download small_spawn (\<lambda>_. Err InvalidInput) small_builder added_session) = Ok [] \<and>
   (\<exists>h t. map_of (se_torrents started_session) [] = Some h \<and> th_task h = Some t \<and> sk_commands t = [] \<and> \<not> sk_started t \<and> \<not> sk_stopped t)"
proof -
  have added: "\<exists>h. map_of (se_torrents added_session) [] = Some h \<and> th_metainfo h = Some small_meta"
    "se_config added_session = session_config_default" "active_count added_session = 0"
    by (simp_all add: added_session_def add_torrent_def act_bind_def register_spec_simp handle_register_def handle_new_def info_hash_def
      small_sha1_def small_meta_def total_size_def act_return_def session_new_def active_count_def put_torrent_def set_aside_def)
  then obtain h where h: "map_of (se_torrents added_session) [] = Some h" "th_metainfo h = Some small_meta" by blast
  have tot: "\<exists>tot. total_size (info small_meta) = Ok tot" by (simp add: small_meta_def total_size_def)
  have inj: "injected small_builder added_session = added_session"
    by (simp add: injected_def inject_peers_def small_builder_def act_return_def)
  have cap: "snd (check_capacity added_session) = Ok ()"
    by (simp add: check_capacity_def act_read_def act_lift_def act_return_def Let_def added session_config_default_def)
  have "\<exists>h' t. starts small_spawn small_builder added_session = Ok (Some h') \<and> th_task h' = Some t \<and> sk_commands t = [] \<and>
      \<not> sk_started t \<and> \<not> sk_stopped t"
    using tot h by (auto simp: starts_def small_builder_def get_torrent_def handle_activate_def spawn_swarm_loop_def)
  then show ?thesis
    by (auto simp: started_session_def start_download_ready [of small_builder] small_builder_def [THEN arg_cong, of db_metadata_resolved]
      start_resolved_simp inj cap Let_def) (simp_all add: small_builder_def)
qed




subsection \<open>Removing a torrent\<close>






















lemma run_turn_task: "\<exists>t'. th_task (run_turn E ev h t) = Some t' \<and> sk_commands t' = sk_commands t \<and> sk_started t' = sk_started t \<and>
    (sk_stopped t' \<longleftrightarrow> snd (engine_turn E ev (loop_engine h t)) \<noteq> Ok True)"
  by (cases "engine_turn E ev (loop_engine h t)") (auto simp: run_turn_def loop_after_simps)








subsection \<open>Starting a torrent\<close>

definition active_set :: "('c, 'st) Session \<Rightarrow> bytes set" where
  "active_set s = {ih. \<exists>h. map_of (se_torrents s) ih = Some h \<and> th_task h \<noteq> None}"

lemma active_count_card:
  assumes "distinct (map fst (se_torrents s))"
  shows "active_count s = card (active_set s)" "finite (active_set s)"
proof -
  define xs where "xs = map fst (filter (\<lambda>(_, h). th_task h \<noteq> None) (se_torrents s))"
  have "active_set s = set xs"
    using assms by (force simp: active_set_def xs_def)
  moreover have "distinct xs"
    using assms by (simp add: xs_def distinct_map_filter)
  moreover have "active_count s = length xs"
    by (simp add: active_count_def xs_def)
  ultimately show "active_count s = card (active_set s)" "finite (active_set s)"
    by (simp_all add: distinct_card)
qed

lemma handle_activate_Ok:
  assumes "handle_activate cf sp storage h = Ok h'"
  shows "\<exists>m t. th_metainfo h = Some m \<and> th_metainfo h' = Some m \<and> th_piece_mgr h' = th_piece_mgr h \<and> th_peer_mgr h' = th_peer_mgr h \<and>
    th_storage h' = Some storage \<and> th_task h' = Some t \<and> sk_commands t = [] \<and> \<not> sk_started t \<and>
    sw_meta (en_swarm (sk_engine t)) = m \<and> sw_storage (en_swarm (sk_engine t)) = storage"
  using assms by (auto simp: handle_activate_def spawn_swarm_loop_def engine_new_def swarm_new_def split: option.splits)

definition limit_kept :: "('c, 'st) Session \<Rightarrow> ('c, 'st) Session \<Rightarrow> bool" where
  "limit_kept s s' \<longleftrightarrow>
     (let limit = cf_max_active_torrents (se_config s)
      in active_count s' \<le> active_count s \<or> limit = 0 \<or> active_count s' \<le> limit)"

lemma start_download_spec:
  fixes s :: "('c, 'st) Session"
  assumes "session_ok s" and "builder_ready db" and "start_download sp fetch db s = (s', r)"
  shows "\<forall>k. k \<noteq> db_info_hash db \<longrightarrow> map_of (se_torrents s') k = map_of (se_torrents s) k"
    and "limit_kept s s'"
    and "active_set s' = active_set s \<or> active_set s' = insert (db_info_hash db) (active_set s)"
    and "r = Ok ih \<Longrightarrow> ih = db_info_hash db"
    and "r = Ok ih \<Longrightarrow> db_storage_factory db = Some factory \<Longrightarrow> map_of (se_torrents s) ih = Some h \<Longrightarrow> th_metainfo h = Some m \<Longrightarrow>
      \<exists>storage h' t. factory (info m) = Ok storage \<and> map_of (se_torrents s') ih = Some h' \<and> th_metainfo h' = Some m \<and>
        th_piece_mgr h' = th_piece_mgr h \<and> th_task h' = Some t \<and> sk_commands t = [] \<and> \<not> sk_started t \<and>
        sw_meta (en_swarm (sk_engine t)) = m \<and> sw_storage (en_swarm (sk_engine t)) = storage"
    and "cf_max_active_torrents (se_config s) \<noteq> 0 \<Longrightarrow> cf_max_active_torrents (se_config s) \<le> active_count s \<Longrightarrow> r = Err InvalidInput"
proof -
  let ?s = "injected db s" and ?ih = "db_info_hash db" and ?max = "cf_max_active_torrents (se_config s)"
  have ready: "db_metadata_resolved db \<or> db_magnet_peers db = []" using assms(2) by (simp add: builder_ready_def)
  note inj = injected_facts [where db = db and s = s]
  have ok1: "session_ok ?s" and d: "distinct (map fst (se_torrents s))" "distinct (map fst (se_torrents ?s))"
    using inj(4) [OF assms(1)] assms(1) by (simp_all add: session_ok_def)
  have act1: "active_set ?s = active_set s"
    by (auto simp: active_set_def inj(1))
  then have count: "active_count ?s = active_count s"
    using active_count_card d by metis
  have cap: "snd (check_capacity ?s) = (if 0 < ?max \<and> ?max \<le> active_count s then Err InvalidInput else Ok ())"
    by (simp add: check_capacity_def act_read_def act_lift_def act_return_def Let_def inj(2) count)
  consider (none) "s' = s" "r = Err InvalidInput" "map_of (se_torrents s) ?ih = None"
    | (full) "s' = ?s" "r = Err InvalidInput" "0 < ?max" "?max \<le> active_count s"
    | (room) "\<not> (0 < ?max \<and> ?max \<le> active_count s)" "s' = ?s" "starts sp db ?s = Ok None" "r = Ok ?ih"
    | (err) "\<not> (0 < ?max \<and> ?max \<le> active_count s)" "s' = ?s" "\<forall>x. r \<noteq> Ok x"
    | (start) h' where "\<not> (0 < ?max \<and> ?max \<le> active_count s)" "starts sp db ?s = Ok (Some h')"
        "s' = put_torrent ?ih h' ?s" "r = Ok ?ih"
  proof (cases "\<not> db_metadata_resolved db \<and> map_of (se_torrents s) ?ih = None")
    case True
    then show ?thesis using none assms(3) by (simp add: start_download_ready [OF ready])
  next
    case False
    then have run: "start_resolved sp db s = (s', r)" using assms(3) by (simp add: start_download_ready [OF ready] split: if_splits)
    show ?thesis
    proof (cases "0 < ?max \<and> ?max \<le> active_count s")
      case True
      then show ?thesis using full run by (simp add: start_resolved_simp Let_def cap)
    next
      case False
      note room' = this
      have free: "snd (check_capacity ?s) = Ok ()" unfolding cap using room' by (rule if_not_P)
      show ?thesis
      proof (cases "starts sp db ?s")
        case (Ok x)
        then show ?thesis
          using room' room start run by (cases x) (simp_all add: start_resolved_simp Let_def free)
      qed (use room' err run in \<open>auto simp: start_resolved_simp Let_def free\<close>)
    qed
  qed
  note cs = this
  have new: "map_of (se_torrents s') ?ih = Some h' \<and> active_set s' = insert ?ih (active_set s) \<and>
      (\<exists>factory h m storage. db_storage_factory db = Some factory \<and> map_of (se_torrents ?s) ?ih = Some h \<and> th_metainfo h = Some m \<and>
        factory (info m) = Ok storage \<and> handle_activate (se_config s) sp storage h = Ok h')"
    if "starts sp db ?s = Ok (Some h')" "s' = put_torrent ?ih h' ?s" for h'
  proof -
    have ex: "\<exists>factory h m storage. db_storage_factory db = Some factory \<and> map_of (se_torrents ?s) ?ih = Some h \<and> th_metainfo h = Some m \<and>
        factory (info m) = Ok storage \<and> handle_activate (se_config s) sp storage h = Ok h'"
      using that(1) by (auto simp: starts_def get_torrent_def inj(2) split: option.splits)
    then have "th_task h' \<noteq> None" by (auto dest!: handle_activate_Ok)
    with that(2) have "active_set s' = insert ?ih (active_set ?s)"
      by (auto simp: active_set_def)
    then show ?thesis using ex that(2) act1 by simp
  qed
  show "\<forall>k. k \<noteq> ?ih \<longrightarrow> map_of (se_torrents s') k = map_of (se_torrents s) k"
    using cs by cases (simp_all add: inj(1))
  show "active_set s' = active_set s \<or> active_set s' = insert ?ih (active_set s)"
    using cs by cases (auto simp: act1 dest: new)
  show "limit_kept s s'"
    using cs
  proof cases
    case (start h')
    have "active_set s' = insert ?ih (active_set s)" using new [OF start(2,3)] by simp
    moreover have "distinct (map fst (se_torrents s'))"
      using d(2) start(3) by (simp add: put_torrent_def distinct_update)
    ultimately have "active_count s' \<le> Suc (active_count s)"
      by (simp add: active_count_card(1) d(1) active_count_card(2) [OF d(1)] card_insert_if)
    then show ?thesis using start(1) by (auto simp: limit_kept_def Let_def)
  qed (simp_all add: limit_kept_def Let_def count)
  show "ih = ?ih" if "r = Ok ih" using cs that by cases auto
  show "r = Err InvalidInput" if "?max \<noteq> 0" "?max \<le> active_count s" using cs that by cases auto
  show "\<exists>storage h' t. factory (info m) = Ok storage \<and> map_of (se_torrents s') ih = Some h' \<and> th_metainfo h' = Some m \<and>
        th_piece_mgr h' = th_piece_mgr h \<and> th_task h' = Some t \<and> sk_commands t = [] \<and> \<not> sk_started t \<and>
        sw_meta (en_swarm (sk_engine t)) = m \<and> sw_storage (en_swarm (sk_engine t)) = storage"
    if a: "r = Ok ih" "db_storage_factory db = Some factory" "map_of (se_torrents s) ih = Some h" "th_metainfo h = Some m"
  proof -
    have ih: "ih = ?ih" using cs a(1) by cases auto
    obtain g where g: "map_of (se_torrents ?s) ?ih = Some g" "th_metainfo g = Some m" "th_piece_mgr g = th_piece_mgr h"
      using a(3,4) ih by (cases "db_magnet_peers db = []") (simp_all add: inj(1))
    have "starts sp db ?s \<noteq> Ok None" by (simp add: starts_def a(2) get_torrent_def g(1,2))
    with cs a(1,3) ih obtain h' where h': "starts sp db ?s = Ok (Some h')" "s' = put_torrent ?ih h' ?s"
      by cases auto
    from new [OF h'] obtain storage where st: "factory (info m) = Ok storage" "handle_activate (se_config s) sp storage g = Ok h'"
      "map_of (se_torrents s') ih = Some h'"
      using a(2) g(1,2) ih by auto
    then show ?thesis using handle_activate_Ok [OF st(2)] g(2,3) by auto
  qed
qed

lemma start_begin_spec:
  fixes s :: "('c, 'st) Session"
  assumes "session_ok s" and "start_begin db s = (s1, r)"
  shows "(\<forall>k. k \<noteq> db_info_hash db \<longrightarrow> map_of (se_torrents s1) k = map_of (se_torrents s) k) \<and> active_set s1 = active_set s \<and>
    (cf_max_active_torrents (se_config s) \<noteq> 0 \<and> cf_max_active_torrents (se_config s) \<le> active_count s \<longrightarrow> r = Err InvalidInput) \<and>
    (\<forall>i. r = Ok (Some i) \<longrightarrow> (\<exists>h m. map_of (se_torrents s) (db_info_hash db) = Some h \<and> th_metainfo h = Some m \<and> i = info m))"
proof -
  let ?s = "injected db s" and ?max = "cf_max_active_torrents (se_config s)"
  note inj = injected_facts [where db = db and s = s]
  have s1: "s1 = ?s" using assms(2) by (simp add: start_begin_simp Let_def)
  have d: "distinct (map fst (se_torrents s))" "distinct (map fst (se_torrents ?s))"
    using inj(4) [OF assms(1)] assms(1) by (simp_all add: session_ok_def)
  have act: "active_set ?s = active_set s" by (auto simp: active_set_def inj(1))
  then have count: "active_count ?s = active_count s" using active_count_card d by metis
  have cap: "snd (check_capacity ?s) = (if 0 < ?max \<and> ?max \<le> active_count s then Err InvalidInput else Ok ())"
    by (simp add: check_capacity_def act_read_def act_lift_def act_return_def Let_def inj(2) count)
  have "r = Err InvalidInput" if "?max \<noteq> 0" "?max \<le> active_count s"
    using assms(2) that by (simp add: start_begin_simp Let_def cap)
  moreover have "\<exists>h m. map_of (se_torrents s) (db_info_hash db) = Some h \<and> th_metainfo h = Some m \<and> i = info m" if "r = Ok (Some i)" for i
    using assms(2) that by (auto simp: start_begin_simp Let_def get_torrent_def inj(1) split: result.splits option.splits if_splits)
  moreover have "\<forall>k. k \<noteq> db_info_hash db \<longrightarrow> map_of (se_torrents s1) k = map_of (se_torrents s) k" by (simp add: s1 inj(1))
  ultimately show ?thesis using act s1 by blast
qed

text \<open>C4.
  Starting a torrent, in the two steps between which the session goes on. The first step activates nothing, touches
  no other torrent, does not panic, and is refused when the configured limit of active torrents is reached. The
  second activates exactly its torrent: with a fresh loop with no commands, on the metadata and the piece manager
  that are there then and on the storage it is given; it does not look at the limit, and fails only if the
  torrent is gone (or panics, if the torrent is there without metadata). So the limit holds when nothing comes
  between the steps: then the number of active torrents does not pass the limit, or does not grow. Two starts at the
  same time can pass it (\<open>concurrent_starts_exceed\<close>).\<close>

theorem start_download_limited:
  fixes s :: "('c, 'st) Session" and db :: "'st DownloadBuilder"
  assumes "session_reach sha1 E cf s" and "env_ok E" and "0 < cf_piece_cache_size cf"
  defines "ih \<equiv> db_info_hash db" and "limit \<equiv> cf_max_active_torrents (se_config s)"
  shows "(\<forall>s1 r. start_begin db s = (s1, r) \<longrightarrow> r \<noteq> Panic \<and>
      (\<forall>k. k \<noteq> ih \<longrightarrow> map_of (se_torrents s1) k = map_of (se_torrents s) k) \<and> active_set s1 = active_set s \<and>
      (limit \<noteq> 0 \<and> limit \<le> active_count s \<longrightarrow> r = Err InvalidInput) \<and>
      (\<forall>i. r = Ok (Some i) \<longrightarrow> (\<exists>h m. map_of (se_torrents s) ih = Some h \<and> th_metainfo h = Some m \<and> i = info m))) \<and>
    (\<forall>sp storage s2 r. start_finish sp ih storage s = (s2, r) \<longrightarrow>
      (r \<noteq> Ok () \<longrightarrow> s2 = s) \<and> (\<forall>e. r = Err e \<longrightarrow> e = InvalidInput \<and> map_of (se_torrents s) ih = None) \<and>
      (r = Panic \<longleftrightarrow> (\<exists>h. map_of (se_torrents s) ih = Some h \<and> th_metainfo h = None)) \<and>
      (r = Ok () \<longrightarrow> active_set s2 = insert ih (active_set s) \<and>
        (\<exists>h m h' t. map_of (se_torrents s) ih = Some h \<and> th_metainfo h = Some m \<and>
          map_of (se_torrents s2) = (map_of (se_torrents s))(ih \<mapsto> h') \<and> th_metainfo h' = Some m \<and>
          th_piece_mgr h' = th_piece_mgr h \<and> th_task h' = Some t \<and> sk_commands t = [] \<and> \<not> sk_started t \<and>
          sw_meta (en_swarm (sk_engine t)) = m \<and> sw_storage (en_swarm (sk_engine t)) = storage))) \<and>
    (\<forall>sp fetch s' r. builder_ready db \<and> start_download sp fetch db s = (s', r) \<longrightarrow>
      (\<forall>k. k \<noteq> ih \<longrightarrow> map_of (se_torrents s') k = map_of (se_torrents s) k) \<and>
      (limit \<noteq> 0 \<longrightarrow> active_count s' \<le> max limit (active_count s) \<and> (limit \<le> active_count s \<longrightarrow> r = Err InvalidInput)) \<and>
      (\<forall>factory h m. r = Ok ih \<and> db_storage_factory db = Some factory \<and> map_of (se_torrents s) ih = Some h \<and> th_metainfo h = Some m \<longrightarrow>
        (\<exists>storage h' t. factory (info m) = Ok storage \<and> map_of (se_torrents s') ih = Some h' \<and> th_metainfo h' = Some m \<and>
          th_piece_mgr h' = th_piece_mgr h \<and> th_task h' = Some t \<and> sk_commands t = [] \<and> \<not> sk_started t \<and>
          sw_meta (en_swarm (sk_engine t)) = m \<and> sw_storage (en_swarm (sk_engine t)) = storage)))"
proof (intro conjI allI impI; (elim conjE)?)
  note ok = session_reach_ok [OF assms(1-3)]
  fix s1 r assume "start_begin db s = (s1, r)"
  note spec = start_begin_spec [OF ok this, folded ih_def limit_def]
  show "map_of (se_torrents s1) k = map_of (se_torrents s) k" if "k \<noteq> ih" for k using spec that by blast
  show "active_set s1 = active_set s" using spec by blast
  show "r = Err InvalidInput" if "limit \<noteq> 0" "limit \<le> active_count s" using spec that by blast
  show "\<exists>h m. map_of (se_torrents s) ih = Some h \<and> th_metainfo h = Some m \<and> i = info m" if "r = Ok (Some i)" for i using spec that by blast
  show "r \<noteq> Panic" using keepsD [OF start_begin_keeps ok, of db] \<open>start_begin db s = (s1, r)\<close> by simp
next
  note ok = session_reach_ok [OF assms(1-3)]
  fix sp storage s2 r assume "start_finish sp ih storage s = (s2, r)"
  note spec = start_finish_spec [OF ok this]
  show "s2 = s" if "r \<noteq> Ok ()" using spec that by blast
  show "e = InvalidInput" "map_of (se_torrents s) ih = None" if "r = Err e" for e using spec that by auto
  show "r = Panic \<longleftrightarrow> (\<exists>h. map_of (se_torrents s) ih = Some h \<and> th_metainfo h = None)" using spec by blast
  assume "r = Ok ()"
  then obtain h h' where h: "map_of (se_torrents s) ih = Some h" "handle_activate (se_config s) sp storage h = Ok h'" "s2 = put_torrent ih h' s"
    using spec by blast
  from handle_activate_Ok [OF h(2)] obtain m t where t: "th_metainfo h = Some m" "th_metainfo h' = Some m" "th_piece_mgr h' = th_piece_mgr h"
    "th_task h' = Some t" "sk_commands t = []" "\<not> sk_started t" "sw_meta (en_swarm (sk_engine t)) = m" "sw_storage (en_swarm (sk_engine t)) = storage"
    by blast
  show "active_set s2 = insert ih (active_set s)" using h(3) t(4) by (auto simp: active_set_def)
  have "map_of (se_torrents s2) = (map_of (se_torrents s))(ih \<mapsto> h')" by (simp add: h(3) fun_eq_iff)
  then show "\<exists>h m h' t. map_of (se_torrents s) ih = Some h \<and> th_metainfo h = Some m \<and>
          map_of (se_torrents s2) = (map_of (se_torrents s))(ih \<mapsto> h') \<and> th_metainfo h' = Some m \<and>
          th_piece_mgr h' = th_piece_mgr h \<and> th_task h' = Some t \<and> sk_commands t = [] \<and> \<not> sk_started t \<and>
          sw_meta (en_swarm (sk_engine t)) = m \<and> sw_storage (en_swarm (sk_engine t)) = storage"
    using h(1) t by blast
next
  note ok = session_reach_ok [OF assms(1-3)]
  fix sp fetch s' r assume a: "builder_ready db" "start_download sp fetch db s = (s', r)"
  note spec = start_download_spec [OF ok a, folded ih_def]
  show "map_of (se_torrents s') k = map_of (se_torrents s) k" if "k \<noteq> ih" for k using spec(1) that by blast
  show "active_count s' \<le> max limit (active_count s)" if "limit \<noteq> 0"
    using spec(2) that by (auto simp: limit_kept_def Let_def max_def limit_def)
  show "r = Err InvalidInput" if "limit \<noteq> 0" "limit \<le> active_count s" using spec(6) that by (simp add: limit_def)
  show "\<exists>storage h' t. factory (info m) = Ok storage \<and> map_of (se_torrents s') ih = Some h' \<and> th_metainfo h' = Some m \<and>
          th_piece_mgr h' = th_piece_mgr h \<and> th_task h' = Some t \<and> sk_commands t = [] \<and> \<not> sk_started t \<and>
          sw_meta (en_swarm (sk_engine t)) = m \<and> sw_storage (en_swarm (sk_engine t)) = storage"
    if "r = Ok ih" "db_storage_factory db = Some factory" "map_of (se_torrents s) ih = Some h" "th_metainfo h = Some m" for factory h m
    by (rule spec(5) [OF that])
qed

lemma added_metainfo: "\<exists>h. map_of (se_torrents added_session) [] = Some h \<and> th_metainfo h = Some small_meta"
  by (simp add: added_session_def add_torrent_def act_bind_def register_spec_simp handle_register_def handle_new_def info_hash_def
    small_sha1_def small_meta_def total_size_def act_return_def session_new_def put_torrent_def set_aside_def)

theorem start_download_limited_witness:
  "\<exists>h t. start_download small_spawn (\<lambda>_. Err InvalidInput) small_builder added_session = (started_session, Ok []) \<and>
     map_of (se_torrents started_session) [] = Some h \<and> th_task h = Some t \<and> sw_meta (en_swarm (sk_engine t)) = small_meta \<and>
     snd (start_begin small_builder added_session) \<noteq> Panic \<and> snd (start_finish small_spawn [] () added_session) = Ok ()"
proof -
  have r: "start_download small_spawn (\<lambda>_. Err InvalidInput) small_builder added_session = (started_session, Ok [])"
    unfolding started_session_def using started_facts by (metis prod.collapse)
  have f: "db_storage_factory small_builder = Some (\<lambda>_. Ok ())" "db_info_hash small_builder = []" by (simp_all add: small_builder_def)
  note all = start_download_limited [OF added_reach small_env_ok default_cache, where db = small_builder, unfolded f(2)]
  obtain h where h: "map_of (se_torrents added_session) [] = Some h" "th_metainfo h = Some small_meta" using added_metainfo by blast
  obtain s1 r1 s2 r2 where steps: "start_begin small_builder added_session = (s1, r1)" "start_finish small_spawn [] () added_session = (s2, r2)"
    by force
  have "r1 \<noteq> Panic" using all steps(1) by blast
  moreover have "r2 = Ok ()"
  proof (cases r2)
    case (Err e)
    then have "map_of (se_torrents added_session) [] = None" using all steps(2) by blast
    then show ?thesis using h(1) by simp
  next
    case Panic
    then have "\<exists>h. map_of (se_torrents added_session) [] = Some h \<and> th_metainfo h = None" using all steps(2) by blast
    then show ?thesis using h by simp
  qed simp
  moreover have "\<exists>h' t. map_of (se_torrents started_session) [] = Some h' \<and> th_task h' = Some t \<and> sw_meta (en_swarm (sk_engine t)) = small_meta"
    using conjunct2 [OF conjunct2 [OF all]] small_builder_ready r f(1) h by blast
  ultimately show ?thesis using r steps by auto
qed

text \<open>
  Two starts for which one place is left: each sees it, and both are activated. The map of torrents is free
  between the check and the activation, while the storage is made.
\<close>

lemma concurrent_starts_exceed:
  fixes s :: "('c, 'st) Session" and storage :: 'st
  assumes "session_ok s" and "cf_max_active_torrents (se_config s) = Suc (active_count s)"
    and "map_of (se_torrents s) a = Some ha" "th_metainfo ha = Some ma" "th_task ha = None"
    and "map_of (se_torrents s) b = Some hb" "th_metainfo hb = Some mb" "th_task hb = None" and "a \<noteq> b"
  defines "builder \<equiv> \<lambda>ih. \<lparr>db_info_hash = ih, db_storage_factory = Some (\<lambda>_. Ok storage), db_metadata_resolved = True, db_magnet_peers = []\<rparr>"
  shows "start_begin (builder a) s = (s, Ok (Some (info ma))) \<and> start_begin (builder b) s = (s, Ok (Some (info mb))) \<and>
    (\<exists>s1 s2. start_finish sp a storage s = (s1, Ok ()) \<and> start_finish sp b storage s1 = (s2, Ok ()) \<and>
      active_count s2 = Suc (cf_max_active_torrents (se_config s)))"
proof -
  have inj: "injected (builder k) s = s" for k by (simp add: injected_def inject_peers_def builder_def act_return_def)
  have cap: "snd (check_capacity s) = Ok ()"
    using assms(2) by (simp add: check_capacity_def act_read_def act_lift_def act_return_def Let_def)
  have "start_begin (builder a) s = (s, Ok (Some (info ma)))" "start_begin (builder b) s = (s, Ok (Some (info mb)))"
    by (simp_all add: start_begin_simp inj cap Let_def get_torrent_def assms(3,4,6,7)) (simp_all add: builder_def get_torrent_def assms(3,4,6,7))
  moreover have "0 < cf_piece_cache_size (se_config s)" using assms(1) by (simp add: session_ok_def)
  then obtain ha' hb' where h': "handle_activate (se_config s) sp storage ha = Ok ha'" "handle_activate (se_config s) sp storage hb = Ok hb'"
    using handle_ok_activate [OF session_ok_handle [OF assms(1,3)]] handle_ok_activate [OF session_ok_handle [OF assms(1,6)]] assms(4,7) by blast
  let ?s1 = "put_torrent a ha' s"
  let ?s2 = "put_torrent b hb' ?s1"
  have run: "start_finish sp a storage s = (?s1, Ok ())" "start_finish sp b storage ?s1 = (?s2, Ok ())"
    using h' assms(3,6,9) by (simp_all add: start_finish_simp start_loop_simp)
  have "th_task ha' \<noteq> None" "th_task hb' \<noteq> None" using h' by (auto dest: handle_activate_Ok)
  then have act: "active_set ?s2 = insert a (insert b (active_set s))" by (auto simp: active_set_def)
  have d: "distinct (map fst (se_torrents s))" "distinct (map fst (se_torrents ?s2))"
    using assms(1) by (simp_all add: session_ok_def put_torrent_def distinct_update)
  have "a \<notin> active_set s" "b \<notin> active_set s" using assms(3,5,6,8) by (simp_all add: active_set_def)
  then have "active_count ?s2 = Suc (Suc (active_count s))"
    using assms(9) by (simp add: active_count_card(1) [OF d(2)] act active_count_card(1,2) [OF d(1)])
  ultimately show ?thesis using run assms(2) by auto
qed

subsection \<open>Commands\<close>






subsection \<open>Seeding\<close>

text \<open>C7.
  Creating and seeding a torrent, from the data to the published state. When the seed builder has hashed a
  source that keeps the documented contract of its trait (a read is only cut short by the end of the data) into
  at most 2^32 pieces, seeding it in any session succeeds: the session files the torrent under its info hash, with a
  loop that has all pieces and with the state of a seed, all pieces set; the exported torrent file is the one
  that was made, and no other torrent changes. The number of active torrents is not looked at. A source
  whose reads return less is not found complete (\<open>short_read_zeros\<close> of theory Seed).\<close>

theorem seeding_starts:
  fixes s :: "('c, 'st) Session"
  assumes "seed_hash sha1 sb = Some (Ok pt)" and "full_source (sb_source sb) xs" and "length xs < 2 ^ 64"
    and "info_num_pieces (info (pt_metainfo pt)) \<le> 2 ^ 32"
  defines "ih \<equiv> info_hash sha1 (pt_metainfo pt)" and "n \<equiv> info_num_pieces (info (pt_metainfo pt))"
  shows "\<exists>s' h t. start_seeding sha1 peer_id sp wrap pt s = (s', Ok ih) \<and>
    map_of (se_torrents s') = (map_of (se_torrents s))(ih \<mapsto> h) \<and>
    th_metainfo h = Some (pt_metainfo pt) \<and> th_piece_mgr h = \<lparr>num_pieces = n, bitfield = replicate n True\<rparr> \<and>
    th_task h = Some t \<and> sw_piece_mgr (en_swarm (sk_engine t)) = th_piece_mgr h \<and> (en_super (sk_engine t) \<noteq> None \<longleftrightarrow> pt_super_seed pt) \<and>
    torrent_status ih s' = Ok (th_status h) \<and> ts_state (th_status h) = Seeding \<and> ts_bitfield (th_status h) = replicate n True \<and>
    torrent_bytes ih s' = Some (pt_torrent_bytes pt)"
  unfolding ih_def n_def by (rule seeding_run [OF assms(1-4)])

theorem seeding_starts_witness:
  "\<exists>pt s' h. seed_hash (\<lambda>x. x) ((seed_builder_new (memory_source [1, 2, 3]))\<lparr>sb_piece_length := Some 2\<rparr>) = Some (Ok pt) \<and>
     start_seeding (\<lambda>x. x) [1] small_spawn (\<lambda>_. ()) pt started_session = (s', Ok (info_hash (\<lambda>x. x) (pt_metainfo pt))) \<and>
     map_of (se_torrents s') (info_hash (\<lambda>x. x) (pt_metainfo pt)) = Some h \<and> ts_state (th_status h) = Seeding"
proof -
  let ?sb = "(seed_builder_new (memory_source [1, 2, 3]))\<lparr>sb_piece_length := Some 2\<rparr>"
  obtain pt where pt: "seed_hash (\<lambda>x. x) ?sb = Some (Ok pt)" "info_num_pieces (info (pt_metainfo pt)) = 2"
    using hashed_source [OF ram.full_source_axioms] by blast
  have src: "full_source (sb_source ?sb) [1, 2, 3]" using ram.full_source_axioms by (simp add: seed_builder_new_def)
  from seeding_starts [OF pt(1) src, of "[1]" small_spawn "\<lambda>_. ()" started_session] pt show ?thesis by auto
qed

subsection \<open>Where the session falls short\<close>

text \<open>Adding a torrent that is active replaces it: its loop loses its channel and ends, and its progress is forgotten.\<close>

lemma added_again_stops:
  fixes s :: "('a, 'b) Session"
  assumes "map_of (se_torrents s) ih = Some h" and "th_task h = Some t" and "info_hash sha1 m = ih" and "total_size (info m) = Ok tot"
  shows "\<exists>s' h'. add_torrent sha1 peer_id (SpecMetainfo m) s = (s', Ok \<lparr>db_info_hash = ih, db_storage_factory = None,
      db_metadata_resolved = True, db_magnet_peers = []\<rparr>) \<and>
    map_of (se_torrents s') ih = Some h' \<and> th_task h' = None \<and> th_piece_mgr h' = piece_manager_new (info_num_pieces (info m)) \<and>
    se_removed s' = se_removed s @ [(ih, h)] \<and>
    (\<forall>E now answer. sk_started t \<and> \<not> sk_stopped t \<and> sk_commands t = [] \<longrightarrow> loop_ended (length (se_removed s)) (removed_step E (length (se_removed s)) (NextCommand now answer) s'))"
proof -
  have "snd (act_seq a (act_return False) en) \<noteq> Ok True" for a :: "(('a, 'b) engine, unit) act" and en
    by (simp add: act_seq_def act_bind_def act_return_def split: prod.split result.split)
  then have "\<exists>t'. th_task (run_turn E (OnCommand now answer None) h t) = Some t' \<and> sk_stopped t'" for E :: "('a, 'b) env" and now answer
    using run_turn_task [of E "OnCommand now answer None" h t] by auto
  then show ?thesis
    using assms by (auto simp: add_torrent_def act_bind_def register_spec_simp handle_register_def handle_new_def act_return_def set_aside_def
      removed_step_def loop_ended_def orphan_step_def nth_append split: option.split) (metis option.inject)
qed

text \<open>The addresses of a magnet link are taken out for the download of the metadata: the loop never hears of them.\<close>

lemma magnet_peers_lost:
  assumes "\<not> db_metadata_resolved db" and "map_of (se_torrents s) (db_info_hash db) = Some h" and "th_metainfo h = None"
    and "resolve_metadata fetch db s = (s', Ok db')"
  shows "db_magnet_peers db' = [] \<and> db_metadata_resolved db'"
  using assms by (cases "fetch (db_magnet_peers db)")
    (auto simp: resolve_metadata_def with_torrent_simp Let_def act_return_def act_bind_def act_lift_def act_seq_def
      split: if_splits result.splits prod.splits)

text \<open>
  A magnet link whose metadata was downloaded starts with the piece manager of its registration, which has no
  pieces: nothing is missing, so nothing is requested, and the query of the files panics.
\<close>

lemma magnet_starts_empty:
  assumes "handle_register sha1 cf peer_id (SpecMagnet u) = Ok h" and "total_size (info m) = Ok tot" and "info_num_pieces (info m) \<noteq> 0"
  shows "\<exists>h'. handle_activate cf sp storage (h\<lparr>th_metainfo := Some m\<rparr>) = Ok h' \<and> num_pieces (th_piece_mgr h') = 0 \<and>
    missing_pieces (th_piece_mgr h') = [] \<and> torrent_file_status ih (put_torrent ih h' s) = Panic"
proof -
  have pm: "th_piece_mgr h = piece_manager_new 0"
    using assms(1) by (auto simp: handle_register_def handle_new_def)
  then show ?thesis
    using assms(2,3)
    by (simp add: handle_activate_def spawn_swarm_loop_def piece_manager_new_def missing_pieces_def torrent_file_status_def
      get_torrent_def file_status_def)
qed

subsection \<open>Inbound connections\<close>

text \<open>A connection reaches the running loop of the torrent that its handshake names, behind all earlier commands, or nobody.\<close>

lemma inbound_routed:
  assumes "handshake_from_bytes bs = Ok hs"
  shows "handle_inbound (Ok bs) addr accept s =
    (case map_of (se_torrents s) (hs_info_hash hs) of
       None \<Rightarrow> s
     | Some h \<Rightarrow> (case (th_task h, accept hs) of
         (Some t, Ok conn) \<Rightarrow>
           if sk_stopped t then s
           else put_torrent (hs_info_hash hs) (h\<lparr>th_task := Some (t\<lparr>sk_commands := sk_commands t @ [InboundPeer addr conn]\<rparr>)\<rparr>) s
       | _ \<Rightarrow> s))"
proof (cases "map_of (se_torrents s) (hs_info_hash hs)")
  case (Some h)
  then show ?thesis
    using assms by (cases "th_task h"; cases "accept hs") (simp_all add: handle_inbound_def send_command_def)
qed (simp add: handle_inbound_def assms)

lemma failed_handshake_ignored: "and_then r handshake_from_bytes = Err e \<Longrightarrow> handle_inbound r addr accept s = s"
  by (simp add: handle_inbound_def)


end
