(* ===== verification/Spec2Isabelle.thy ===== *)
theory Spec2Isabelle
  imports Rust_Prelude Bencode Peer_Wire Piece Net_Addr Tracker Dht_Table Krpc Metainfo Peer_Ext Utp Magnet Storage F64 Congestion Peer_Manager Swarm_Types Effects Swarm Swarm_Inv Swarm_Results Swarm_Ext Swarm_Engine Engine_Inv Engine_Results Utp_Conn Utp_Conn_Props Utp_Socket Udp_Tracker Lsd Seed Metadata_Fetch Session Session_Props
begin

text \<open>
  A verification development for torrent-rs, a BitTorrent library in two crates: \<open>torrent-core\<close> (formats and
  state machines without input or output) and \<open>torrent\<close> (the client on the tokio runtime). Paths below are
  under \<open>src/crates/\<close>; \<open>core:\<close> is \<open>torrent-core/src/\<close>, \<open>net:\<close> is \<open>torrent/src/\<close>.

  The program and its theories.

  A session holds a map of torrents. Starting a torrent spawns a swarm loop, which dials peers that
  trackers, local discovery, the DHT and other peers report, exchanges messages with them, writes the pieces it
  has verified to the storage, serves requests, announces itself to the tracker, and publishes its status.

  \<^item> Foundations. Rust_Prelude: results with \<open>Ok\<close>, \<open>Err\<close> and \<open>Panic\<close>, checked arithmetic, big-endian bytes, UTF-8,
    numbers as text. Effects: actions on a state that may fail, and the calculus of what they keep
    (\<open>keeps\<close>: an invariant, without a panic), leave alone (\<open>leaves\<close>) or preserve whatever their result is (\<open>stays\<close>).
    F64: rounding to double precision by rationals.
  \<^item> Formats. Bencode (core:bencode), Peer_Wire (core:peer/message.rs, handshake.rs), Peer_Ext (core:peer/extension.rs,
    metadata.rs, pex.rs), Krpc (core:dht/krpc.rs), Metainfo (core:metainfo), Magnet (core:magnet, spec.rs), Tracker
    (core:tracker, net:tracker), Utp (core:peer/utp/header.rs, selective_ack.rs), Lsd (core:peer/lsd.rs and the service
    of net:session/lsd.rs), Net_Addr (addresses as the standard library reads them).
  \<^item> State machines without input and output. Piece (core:piece), Storage (core:storage, net:storage/file_backend.rs),
    Dht_Table (core:dht), Congestion (core:peer/utp/congestion.rs), Utp_Conn with Utp_Conn_Props and Utp_Socket
    (net:peer/utp), Peer_Manager (net:session/peer_mgr.rs, uni_deque.rs), Udp_Tracker (net:tracker/udp.rs), Seed
    (net:session/seed), Metadata_Fetch (net:session/download).
  \<^item> The swarm loop (net:session/swarm). Swarm_Types: peers, downloads, upload slots. Swarm: every handler of the core of the
    loop. Swarm_Ext: peer exchange and super seeding. Swarm_Engine: status, announces, commands and the turns of
    the whole loop. Swarm_Inv, Swarm_Results, Engine_Inv, Engine_Results: what they keep and what they promise.
  \<^item> The session (net:session/mod.rs, inbound.rs, the builder of download/mod.rs, the handle of swarm/mod.rs). Session: the map of
    torrents and every operation on it; a started torrent holds the engine of its loop, which works on the state it shares
    with the handle. Starting a torrent is two operations, since the map is free while its storage is made; the loop of a
    torrent that was removed or registered again goes on, outside of the map, until it takes the cancel or sees its
    closed channel. Session_Props: what holds of every session, however its operations and the turns of its loops
    interleave.

  How the model corresponds to the code.

  Structs are records with the fields of the source, prefixed where names clash; enums are datatypes with the source's
  constructors; machine integers are words, counters that the source only increases (time, attempts, sizes of
  collections) natural numbers. Arithmetic that overflows is \<open>Panic\<close>, as with overflow checks on, and wraps where the
  source says so; an index out of range and a failed \<open>expect\<close> are \<open>Panic\<close> as well. A HashMap is an association list with
  distinct keys, in whose order the model iterates: no property depends on it. A handler is one step: the locks it takes
  are not contended, and what it reads from a clock is an argument. Time is counted in nanoseconds, in the uTP part in
  microseconds. What a socket, a connection or a disk answers is a script or a function given as an argument (\<open>e_send\<close>,
  \<open>e_read\<close>, \<open>e_write\<close> of a swarm, the events of a UDP socket, the messages of a peer), and so are SHA-1 and random
  numbers. What a property needs of them is a hypothesis of it.

  Two loops may run forever in the source: a metainfo builder cutting pieces, and the hashing of a source. They are
  partial functions whose value None means that the loop does not end, and for a positive piece length they are
  proved to return. Loops that the source bounds itself (eight retries of a UDP exchange, the blocks of a piece, the
  peers of a round) recurse on their bound. The number readers of Net_Addr take fuel, the length of the text they
  read, and the selection of pieces until all are held takes the number of candidates.

  What is proved.

  \<^item> Sessions: the torrents of a session have loops with the invariant of the engine, which stop only by the panics named
    next, and the operations that can panic are named; what each of the two steps of a start does, and the limit of
    active torrents when nothing comes between them; removal and its wait for the loop; the order of commands; seeding
    from the data to the published state.
  \<^item> The engine: it returns no error and panics on three inputs only (\<open>turn_fault\<close>: an extension message that makes the
    decoder overflow, a request behind the end of a cached piece, a wrapped counter of uploads), and ends on a cancel or
    a closed channel only; a piece whose bit is set is on disk with the digest of the torrent, the status it publishes,
    its announces from the start to the stop, no request outside a piece, what becomes of a finished piece, unchoke
    rounds and their rates, hidden pieces of a super seed.
  \<^item> Storage and pieces: reading and writing ranges refines one flat sequence of bytes, pieces may arrive in any order.
  \<^item> Codecs: round trips in both directions and the exact set of accepted texts; canonical bencode.
  \<^item> uTP: the bytes delivered are a prefix of the stream sent, and all of it once every packet has arrived; what
    an acknowledgement removes, with wrap-around; that the answer to a SYN misses its connection; the congestion window and
    the base delay.
  \<^item> Peers: backoff and retries, one connection per address. Discovery: routing tables, the UDP tracker exchange, local
    announces.
  \<^item> Seeding: the hashes do not depend on how reads are cut, and a torrent created from a source that keeps the contract of
    its trait verifies as complete (one with short reads need not). Metadata download: it returns what a peer serves
    under its own extension number, and refuses one that numbers its answers as BEP 10 says.

  Interfaces are locales: the codecs of fixed-length records, the queue without duplicates, the selection strategies, the
  routing tables, the flat store and the store of pieces that the swarm writes to, the data sources of the seed path.
  Each is interpreted on the model's own definitions.

  Lemmas also record where the code does not do what it means to; the manifest lists them as findings.

  Not modelled.

  Binding and polling of sockets, TLS, spawning and scheduling of tasks, timers, directory listing and logging, which
  are calls of libraries. The HTTP tracker and web seed clients and the DHT node, whose core (messages, tables, URLs) is
  modelled or a library, and whose remainder is asynchronous traffic. Web seed downloads: only the search for gaps
  is, and the hooks of that extension are no part of a turn. Contention of locks (an activation takes the lock of the
  status to be free, and a panic under the lock of the map, which poisons it, ends the runs of a session), cancellation of
  futures in the middle of a handler, and the order of a HashMap. The first of two loops of a torrent that is started
  again while it is active; TCP connection attempts that outlive their batch; the debug assertions of the peer manager,
  as in a release build; the debug log of the metainfo parser, whose sum of file lengths can overflow.
\<close>

end
